(* ===== verification/Prelude.thy ===== *)
theory Prelude
  imports Main "HOL-Library.Word"
begin

text \<open>
  What the component theories share: the C integer types and the constants of
  \<^verbatim>\<open>include/bzlib.h\<close>, bit strings (most significant bit first, the order of the bzip2
  format) with the lemmas that relate them to words, and the named collections the proofs
  of the components are built from.

  C integers. \<open>UChar\<close>, \<open>UInt16\<close>, \<open>UInt32\<close> and \<open>UInt64\<close> are words, so that every shift,
  mask and wrap-around is the one of the code. \<open>Int32\<close> locals that are counts or indices
  and never negative are \<open>nat\<close>; the ones the code lets go negative are \<open>int\<close>. An array is a
  list in the CRC tables, the Huffman code and the compressor, and a function from indices in the
  decompressor's state, whose memory comes from the allocator with arbitrary contents; either way
  the lemmas of the component show that the indices stay in range.
\<close>

unbundle bit_operations_syntax

named_theorems bit_lemmas "bit strings and their values"
named_theorems frame "fields an operation leaves alone"

section \<open>The integer types of qbz2_internal.h\<close>

type_synonym u8 = "8 word"
type_synonym u16 = "16 word"
type_synonym u32 = "32 word"
type_synonym u64 = "64 word"

section \<open>Action and return codes of bzlib.h\<close>

abbreviation (input) BZ_RUN :: int where "BZ_RUN \<equiv> 0"
abbreviation (input) BZ_FLUSH :: int where "BZ_FLUSH \<equiv> 1"
abbreviation (input) BZ_FINISH :: int where "BZ_FINISH \<equiv> 2"

abbreviation (input) BZ_OK :: int where "BZ_OK \<equiv> 0"
abbreviation (input) BZ_RUN_OK :: int where "BZ_RUN_OK \<equiv> 1"
abbreviation (input) BZ_FLUSH_OK :: int where "BZ_FLUSH_OK \<equiv> 2"
abbreviation (input) BZ_FINISH_OK :: int where "BZ_FINISH_OK \<equiv> 3"
abbreviation (input) BZ_STREAM_END :: int where "BZ_STREAM_END \<equiv> 4"
abbreviation (input) BZ_SEQUENCE_ERROR :: int where "BZ_SEQUENCE_ERROR \<equiv> -1"
abbreviation (input) BZ_PARAM_ERROR :: int where "BZ_PARAM_ERROR \<equiv> -2"
abbreviation (input) BZ_MEM_ERROR :: int where "BZ_MEM_ERROR \<equiv> -3"
abbreviation (input) BZ_DATA_ERROR :: int where "BZ_DATA_ERROR \<equiv> -4"
abbreviation (input) BZ_DATA_ERROR_MAGIC :: int where "BZ_DATA_ERROR_MAGIC \<equiv> -5"
abbreviation (input) BZ_IO_ERROR :: int where "BZ_IO_ERROR \<equiv> -6"
abbreviation (input) BZ_UNEXPECTED_EOF :: int where "BZ_UNEXPECTED_EOF \<equiv> -7"
abbreviation (input) BZ_OUTBUFF_FULL :: int where "BZ_OUTBUFF_FULL \<equiv> -8"
abbreviation (input) BZ_CONFIG_ERROR :: int where "BZ_CONFIG_ERROR \<equiv> -9"

section \<open>Backend constants of qbz2_internal.h\<close>

abbreviation (input) BZ_MAX_ALPHA_SIZE :: nat where "BZ_MAX_ALPHA_SIZE \<equiv> 258"
abbreviation (input) BZ_MAX_CODE_LEN :: nat where "BZ_MAX_CODE_LEN \<equiv> 23"
abbreviation (input) BZ_RUNA :: nat where "BZ_RUNA \<equiv> 0"
abbreviation (input) BZ_RUNB :: nat where "BZ_RUNB \<equiv> 1"
abbreviation (input) BZ_N_GROUPS :: nat where "BZ_N_GROUPS \<equiv> 6"
abbreviation (input) BZ_G_SIZE :: nat where "BZ_G_SIZE \<equiv> 50"
abbreviation (input) BZ_N_ITERS :: nat where "BZ_N_ITERS \<equiv> 4"
abbreviation (input) BZ_MAX_SELECTORS :: nat where "BZ_MAX_SELECTORS \<equiv> 18002"
abbreviation (input) BZ_DECODE_TABLE_BITS :: nat where "BZ_DECODE_TABLE_BITS \<equiv> 11"

section \<open>Bit strings, most significant bit first\<close>

definition to_bits :: "nat \<Rightarrow> 'a::semiring_bits \<Rightarrow> bool list" where
  "to_bits n v = map (bit v) (rev [0..<n])"

fun of_bits :: "bool list \<Rightarrow> nat" where
  "of_bits [] = 0"
| "of_bits (b # bs) = (if b then 2 ^ length bs else 0) + of_bits bs"

lemma length_to_bits [simp]: "length (to_bits n v) = n"
  by (simp add: to_bits_def)

lemma to_bits_0 [simp]: "to_bits 0 v = []"
  by (simp add: to_bits_def)

lemma to_bits_Suc [bit_lemmas]: "to_bits (Suc n) v = bit v n # to_bits n v"
  by (simp add: to_bits_def)

lemma nth_to_bits [bit_lemmas]: "i < n \<Longrightarrow> to_bits n v ! i = bit v (n - Suc i)"
  by (simp add: to_bits_def rev_nth)

lemma of_bits_append [bit_lemmas]: "of_bits (xs @ ys) = of_bits xs * 2 ^ length ys + of_bits ys"
  by (induction xs) (auto simp: power_add algebra_simps)

lemma of_bits_less [bit_lemmas]: "of_bits bs < 2 ^ length bs"
  by (induction bs) auto

lemma of_bits_to_bits [bit_lemmas]: "of_bits (to_bits n (v::nat)) = take_bit n v"
  by (induction n) (auto simp: to_bits_Suc take_bit_Suc_from_most)

lemma to_bits_cong:
  "(\<And>i. i < n \<Longrightarrow> bit v i = bit w i) \<Longrightarrow> to_bits n v = to_bits n w"
  by (simp add: to_bits_def)

lemma to_bits_split:
  "to_bits (m + n) v = map (\<lambda>i. bit v (n + i)) (rev [0..<m]) @ to_bits n v"
  by (rule nth_equalityI) (auto simp: to_bits_def nth_append rev_nth intro!: arg_cong2 [where f = bit])

lemma take_to_bits [bit_lemmas]:
  "k \<le> m \<Longrightarrow> take k (to_bits m v) = to_bits k (drop_bit (m - k) v)"
  by (rule nth_equalityI) (auto simp: nth_to_bits bit_simps intro!: arg_cong2 [where f = bit])

lemma drop_to_bits [bit_lemmas]: "k \<le> m \<Longrightarrow> drop k (to_bits m v) = to_bits (m - k) v"
  by (rule nth_equalityI) (auto simp: nth_to_bits intro!: arg_cong2 [where f = bit])

lemma to_bits_unat [bit_lemmas]: "to_bits n (unat v) = to_bits n (v :: 'a::len word)"
  by (rule to_bits_cong) (simp add: bit_unsigned_iff)

lemma of_bits_word [bit_lemmas]: "of_bits (to_bits n v) = unat (take_bit n (v :: 'a::len word))"
proof -
  have "of_bits (to_bits n v) = take_bit n (unat v)" by (simp flip: to_bits_unat add: of_bits_to_bits)
  then show ?thesis by (simp add: unsigned_take_bit_eq)
qed

lemma to_bits_of_bits: "to_bits (length bs) (of_bits bs) = bs"
proof (induction bs)
  case (Cons b bs)
  have l: "of_bits bs < 2 ^ length bs" by (rule of_bits_less)
  have "bit (of_bits (b # bs)) (length bs) = b"
    using l by (simp add: bit_iff_odd div_add_self1)
  moreover have "to_bits (length bs) (of_bits (b # bs)) = to_bits (length bs) (of_bits bs)"
  proof (rule to_bits_cong)
    fix i assume i: "i < length bs"
    have "bit (of_bits (b # bs)) i = bit (take_bit (length bs) (of_bits (b # bs))) i"
      using i by (simp add: bit_take_bit_iff)
    also have "take_bit (length bs) (of_bits (b # bs)) = of_bits bs"
      using l by (simp add: take_bit_eq_mod)
    finally show "bit (of_bits (b # bs)) i = bit (of_bits bs) i" .
  qed
  ultimately show ?case using Cons.IH by (simp add: to_bits_Suc)
qed simp

lemma to_bits_0_left [simp]: "of_bits (replicate n False) = 0"
  by (induction n) auto

lemma to_bits_append:
  "to_bits m a @ to_bits n b = to_bits (m + n) (push_bit n a OR take_bit n (b :: 'a::len word))" if "m + n \<le> LENGTH('a)"
  by (rule nth_equalityI) (use that in \<open>auto simp: nth_to_bits nth_append bit_simps add.commute [of n m] intro!: arg_cong2 [where f = bit]\<close>)

lemma push_bit_or: "b < 2 ^ k \<Longrightarrow> push_bit k a OR b = a * 2 ^ k + (b :: nat)"
proof -
  assume "b < 2 ^ k"
  then have b: "take_bit k b = b" by (simp add: take_bit_nat_eq_self)
  have "push_bit k a OR take_bit k b = push_bit k a + take_bit k b"
    by (rule disjunctive_add [symmetric]) (auto simp: bit_simps)
  then show ?thesis by (simp add: b push_bit_eq_mult)
qed

end
