(* ===== verification/HuffLengths.thy ===== *)
theory HuffLengths
  imports Prelude "HOL-Library.While_Combinator" "HOL-Library.Multiset"
begin

text \<open>
  \<open>BZ2_hbMakeCodeLengths\<close> of \<^verbatim>\<open>src/huffman.c\<close>: code lengths from symbol frequencies by
  Huffman's algorithm on a binary heap, with the weights halved and the tree rebuilt until
  no code is longer than \<open>maxLen\<close>.

  A loop whose exit depends on what the arrays hold is a \<open>while\<close> of the library with the
  code's own condition. The local arrays \<open>heap\<close>, \<open>weight\<close> and \<open>parent\<close> are functions: their
  first contents are arbitrary in C. \<open>parent\<close> is \<open>int\<close>, for its markers -1 and -2.
  \<open>weight\<close> is \<open>nat\<close>: the forest invariant of \<open>HuffCorrect\<close> keeps the total frequency below
  \<open>2 ^ 23\<close>, so no packed weight leaves the range of \<open>Int32\<close>.
  \<open>AssertH\<close> is a sticky error code: \<open>None\<close> as long as no assertion has failed.
\<close>

section \<open>Assertions\<close>

definition AssertH :: "bool \<Rightarrow> int \<Rightarrow> int option \<Rightarrow> int option" where
  "AssertH cond errcode failed = (if failed = None \<and> \<not> cond then Some errcode else failed)"

lemma AssertH_True [simp]: "AssertH True e f = f"
  by (simp add: AssertH_def)

lemma AssertH_None: "AssertH c e f = None \<longleftrightarrow> f = None \<and> c"
  by (auto simp: AssertH_def)

section \<open>Packed weights\<close>

text \<open>The upper 24 bits are the frequency weight, the lower 8 bits the depth of the tree.\<close>

definition WEIGHTOF :: "nat \<Rightarrow> nat" where
  "WEIGHTOF zz0 = zz0 AND 0xffffff00"

definition DEPTHOF :: "nat \<Rightarrow> nat" where
  "DEPTHOF zz1 = zz1 AND 0x000000ff"

definition ADDWEIGHTS :: "nat \<Rightarrow> nat \<Rightarrow> nat" where
  "ADDWEIGHTS zw1 zw2 =
     (WEIGHTOF zw1 + WEIGHTOF zw2) OR (1 + max (DEPTHOF zw1) (DEPTHOF zw2))"

section \<open>The heap\<close>

text \<open>\<open>heap 0\<close> is a sentinel; the active entries are \<open>heap 1\<close> to \<open>heap nHeap\<close>.\<close>

definition UPHEAP :: "(nat \<Rightarrow> nat) \<Rightarrow> nat \<Rightarrow> (nat \<Rightarrow> nat) \<Rightarrow> (nat \<Rightarrow> nat)" where
  "UPHEAP weight z heap =
     (let tmp = heap z;
          (heap, zz) = while (\<lambda>(heap, zz). weight tmp < weight (heap (zz div 2)))
                             (\<lambda>(heap, zz). (heap(zz := heap (zz div 2)), zz div 2))
                             (heap, z)
      in heap(zz := tmp))"

text \<open>The child of \<open>zz\<close> that \<open>DOWNHEAP\<close> compares with: the lighter one, if there are two.\<close>

definition heap_child :: "(nat \<Rightarrow> nat) \<Rightarrow> nat \<Rightarrow> (nat \<Rightarrow> nat) \<Rightarrow> nat \<Rightarrow> nat" where
  "heap_child weight nHeap heap zz =
     (let yy = 2 * zz
      in if yy < nHeap \<and> weight (heap (yy + 1)) < weight (heap yy) then yy + 1 else yy)"

definition DOWNHEAP :: "(nat \<Rightarrow> nat) \<Rightarrow> nat \<Rightarrow> nat \<Rightarrow> (nat \<Rightarrow> nat) \<Rightarrow> (nat \<Rightarrow> nat)" where
  "DOWNHEAP weight nHeap z heap =
     (let tmp = heap z;
          (heap, zz) = while (\<lambda>(heap, zz). \<not> 2 * zz > nHeap \<and>
                                \<not> weight tmp < weight (heap (heap_child weight nHeap heap zz)))
                             (\<lambda>(heap, zz). let yy = heap_child weight nHeap heap zz
                                           in (heap(zz := heap yy), yy))
                             (heap, z)
      in heap(zz := tmp))"

text \<open>The two uses the code makes of them: push a node, pop the lightest node.\<close>

definition heap_push :: "(nat \<Rightarrow> nat) \<Rightarrow> nat \<Rightarrow> (nat \<Rightarrow> nat) \<times> nat \<Rightarrow> (nat \<Rightarrow> nat) \<times> nat" where
  "heap_push weight x q =
     (let (heap, nHeap) = q; nHeap = nHeap + 1; heap = heap(nHeap := x)
      in (UPHEAP weight nHeap heap, nHeap))"

definition heap_pop :: "(nat \<Rightarrow> nat) \<Rightarrow> (nat \<Rightarrow> nat) \<times> nat \<Rightarrow> nat \<times> (nat \<Rightarrow> nat) \<times> nat" where
  "heap_pop weight q =
     (let (heap, nHeap) = q; n1 = heap 1; heap = heap(1 := heap nHeap); nHeap = nHeap - 1
      in (n1, DOWNHEAP weight nHeap 1 heap, nHeap))"

section \<open>One pass: build the tree, read off the lengths\<close>

record huff =
  hf_queue :: "(nat \<Rightarrow> nat) \<times> nat"
  hf_nNodes :: nat
  hf_weight :: "nat \<Rightarrow> nat"
  hf_parent :: "nat \<Rightarrow> int"

definition huff_init :: "nat \<Rightarrow> (nat \<Rightarrow> nat) \<Rightarrow> (nat \<Rightarrow> nat) \<Rightarrow> (nat \<Rightarrow> int) \<Rightarrow> huff" where
  "huff_init alphaSize heap0 weight0 parent0 =
     (let weight = weight0(0 := 0)
      in fold (\<lambda>i s. s\<lparr>hf_parent := (hf_parent s)(i := -1),
                       hf_queue := heap_push weight i (hf_queue s)\<rparr>)
           [1..<alphaSize + 1]
           \<lparr>hf_queue = (heap0(0 := 0), 0), hf_nNodes = alphaSize, hf_weight = weight,
            hf_parent = parent0(0 := -2)\<rparr>)"

definition huff_merge :: "huff \<Rightarrow> huff" where
  "huff_merge s =
     (let (n1, q1) = heap_pop (hf_weight s) (hf_queue s);
          (n2, q2) = heap_pop (hf_weight s) q1;
          nNodes = hf_nNodes s + 1;
          parent = (hf_parent s)(n1 := int nNodes, n2 := int nNodes);
          weight = (hf_weight s)(nNodes := ADDWEIGHTS (hf_weight s n1) (hf_weight s n2));
          parent = parent(nNodes := -1)
      in \<lparr>hf_queue = heap_push weight nNodes q2, hf_nNodes = nNodes, hf_weight = weight,
          hf_parent = parent\<rparr>)"

definition huff_tree :: "huff \<Rightarrow> huff" where
  "huff_tree s = while (\<lambda>s. snd (hf_queue s) > 1) huff_merge s"

text \<open>\<open>j\<close>, the number of steps from \<open>k\<close> to the root.\<close>

definition huff_depth :: "(nat \<Rightarrow> int) \<Rightarrow> nat \<Rightarrow> nat" where
  "huff_depth parent i =
     snd (while (\<lambda>(k, j). parent k \<ge> 0) (\<lambda>(k, j). (nat (parent k), j + 1)) (i, 0))"

text \<open>\<open>len\<close> is an array of \<open>UChar\<close>: the assignment keeps the low eight bits.\<close>

definition huff_lens :: "nat \<Rightarrow> nat \<Rightarrow> (nat \<Rightarrow> int) \<Rightarrow> (nat \<Rightarrow> nat) \<Rightarrow> (nat \<Rightarrow> nat) \<times> bool" where
  "huff_lens alphaSize maxLen parent len0 =
     fold (\<lambda>i (len, tooLong). let j = huff_depth parent i
                              in (len(i - 1 := j mod 256), tooLong \<or> j > maxLen))
       [1..<alphaSize + 1] (len0, False)"

section \<open>The whole function\<close>

record huff_loop =
  hl_weight :: "nat \<Rightarrow> nat"
  hl_parent :: "nat \<Rightarrow> int"
  hl_heap :: "nat \<Rightarrow> nat"
  hl_len :: "nat \<Rightarrow> nat"
  hl_tooLong :: bool
  hl_failed :: "int option"

text \<open>The body of the outer loop up to its exit test.\<close>

definition huff_pass :: "nat \<Rightarrow> nat \<Rightarrow> huff_loop \<Rightarrow> huff_loop" where
  "huff_pass alphaSize maxLen l =
     (let s1 = huff_init alphaSize (hl_heap l) (hl_weight l) (hl_parent l);
          f1 = AssertH (snd (hf_queue s1) < BZ_MAX_ALPHA_SIZE + 2) 2001 (hl_failed l);
          s2 = huff_tree s1;
          f2 = AssertH (hf_nNodes s2 < BZ_MAX_ALPHA_SIZE * 2) 2002 f1;
          (len, tooLong) = huff_lens alphaSize maxLen (hf_parent s2) (hl_len l)
      in \<lparr>hl_weight = hf_weight s2, hl_parent = hf_parent s2, hl_heap = fst (hf_queue s2),
          hl_len = len, hl_tooLong = tooLong, hl_failed = f2\<rparr>)"

definition huff_scale :: "nat \<Rightarrow> huff_loop \<Rightarrow> huff_loop" where
  "huff_scale alphaSize l =
     l\<lparr>hl_weight := fold (\<lambda>i weight. let j = drop_bit 8 (weight i); j = 1 + (j div 2)
                                     in weight(i := push_bit 8 j))
                     [1..<alphaSize + 1] (hl_weight l)\<rparr>"

definition huff_weights :: "nat \<Rightarrow> (nat \<Rightarrow> nat) \<Rightarrow> (nat \<Rightarrow> nat) \<Rightarrow> (nat \<Rightarrow> nat)" where
  "huff_weights alphaSize freq weight0 =
     fold (\<lambda>i weight. weight(i + 1 := push_bit 8 (if freq i = 0 then 1 else freq i)))
       [0..<alphaSize] weight0"

text \<open>
  \<open>while (True)\<close> with the exit in the middle: a pass, and as long as some code is too long,
  the scaling and another pass. \<open>l0\<close> holds the first contents of the arrays.
\<close>

definition hbMakeCodeLengths_loop ::
  "nat \<Rightarrow> nat \<Rightarrow> (nat \<Rightarrow> nat) \<Rightarrow> huff_loop \<Rightarrow> huff_loop" where
  "hbMakeCodeLengths_loop alphaSize maxLen freq l0 =
     while hl_tooLong (\<lambda>l. huff_pass alphaSize maxLen (huff_scale alphaSize l))
       (huff_pass alphaSize maxLen
          (l0\<lparr>hl_weight := huff_weights alphaSize freq (hl_weight l0)\<rparr>))"

definition huff_arrays :: "(nat \<Rightarrow> nat) \<Rightarrow> int option \<Rightarrow> huff_loop" where
  "huff_arrays len failed =
     \<lparr>hl_weight = (\<lambda>_. 0), hl_parent = (\<lambda>_. 0), hl_heap = (\<lambda>_. 0), hl_len = len,
      hl_tooLong = False, hl_failed = failed\<rparr>"

definition BZ2_hbMakeCodeLengths ::
  "(nat \<Rightarrow> nat) \<Rightarrow> (nat \<Rightarrow> nat) \<Rightarrow> nat \<Rightarrow> nat \<Rightarrow> int option \<Rightarrow> (nat \<Rightarrow> nat) \<times> int option" where
  "BZ2_hbMakeCodeLengths len freq alphaSize maxLen failed =
     (let l = hbMakeCodeLengths_loop alphaSize maxLen freq (huff_arrays len failed)
      in (hl_len l, hl_failed l))"

end
