(* ===== verification/HuffHeap.thy ===== *)
theory HuffHeap
  imports HuffLengths
begin

text \<open>
  The heap of \<open>BZ2_hbMakeCodeLengths\<close> is a priority queue: pushing adds a node, popping
  removes a lightest one. The contract is the locale \<open>min_queue\<close>, which the tree
  construction is proved against; \<open>UPHEAP\<close> and \<open>DOWNHEAP\<close> discharge it.
\<close>

section \<open>The contract of the queue\<close>

locale min_queue =
  fixes push :: "(nat \<Rightarrow> nat) \<Rightarrow> nat \<Rightarrow> 'q \<Rightarrow> 'q"
    and pop :: "(nat \<Rightarrow> nat) \<Rightarrow> 'q \<Rightarrow> nat \<times> 'q"
    and elems :: "'q \<Rightarrow> nat multiset"
    and inv :: "(nat \<Rightarrow> nat) \<Rightarrow> 'q \<Rightarrow> bool"
  assumes push_elems: "inv w q \<Longrightarrow> elems (push w x q) = add_mset x (elems q)"
    and push_inv: "inv w q \<Longrightarrow> inv w (push w x q)"
    and pop_elems: "inv w q \<Longrightarrow> elems q \<noteq> {#} \<Longrightarrow> pop w q = (x, q') \<Longrightarrow>
          elems q = add_mset x (elems q')"
    and pop_min: "inv w q \<Longrightarrow> elems q \<noteq> {#} \<Longrightarrow> pop w q = (x, q') \<Longrightarrow> y \<in># elems q \<Longrightarrow> w x \<le> w y"
    and pop_inv: "inv w q \<Longrightarrow> elems q \<noteq> {#} \<Longrightarrow> pop w q = (x, q') \<Longrightarrow> inv w q'"
    and inv_cong: "inv w q \<Longrightarrow> w' 0 = w 0 \<Longrightarrow> (\<And>x. x \<in># elems q \<Longrightarrow> w' x = w x) \<Longrightarrow> inv w' q"
begin

lemma pop_member: "inv w q \<Longrightarrow> elems q \<noteq> {#} \<Longrightarrow> pop w q = (x, q') \<Longrightarrow> x \<in># elems q"
  by (simp add: pop_elems)

lemma pop_rest: "inv w q \<Longrightarrow> elems q \<noteq> {#} \<Longrightarrow> pop w q = (x, q') \<Longrightarrow> y \<in># elems q' \<Longrightarrow> w x \<le> w y"
  using pop_min [of w q x q' y] by (simp add: pop_elems)

text \<open>Two pops take the two lightest nodes, in order.\<close>

lemma pop_two:
  assumes "inv w q" "size (elems q) \<ge> 2" "pop w q = (x, q1)" "pop w q1 = (y, q2)"
  shows "elems q = add_mset x (add_mset y (elems q2))" "inv w q2" "w x \<le> w y"
    "z \<in># elems q2 \<Longrightarrow> w y \<le> w z"
proof -
  have ne: "elems q \<noteq> {#}" using assms(2) by auto
  have q: "elems q = add_mset x (elems q1)" by (rule pop_elems [OF assms(1) ne assms(3)])
  have ne1: "elems q1 \<noteq> {#}" using assms(2) q by auto
  have i1: "inv w q1" by (rule pop_inv [OF assms(1) ne assms(3)])
  have q1: "elems q1 = add_mset y (elems q2)" by (rule pop_elems [OF i1 ne1 assms(4)])
  show "elems q = add_mset x (add_mset y (elems q2))" by (simp add: q q1)
  show "inv w q2" by (rule pop_inv [OF i1 ne1 assms(4)])
  show "w x \<le> w y" using pop_rest [OF assms(1) ne assms(3), of y] by (simp add: q1)
  show "z \<in># elems q2 \<Longrightarrow> w y \<le> w z" by (rule pop_rest [OF i1 ne1 assms(4)])
qed

end

section \<open>The array heap\<close>

definition heap_elems :: "(nat \<Rightarrow> nat) \<times> nat \<Rightarrow> nat multiset" where
  "heap_elems q = image_mset (fst q) (mset_set {1..snd q})"

definition heap_ordered :: "(nat \<Rightarrow> nat) \<Rightarrow> (nat \<Rightarrow> nat) \<Rightarrow> nat \<Rightarrow> bool" where
  "heap_ordered w h n \<longleftrightarrow> (\<forall>i. 2 \<le> i \<and> i \<le> n \<longrightarrow> w (h (i div 2)) \<le> w (h i))"

definition heap_inv :: "(nat \<Rightarrow> nat) \<Rightarrow> (nat \<Rightarrow> nat) \<times> nat \<Rightarrow> bool" where
  "heap_inv w q \<longleftrightarrow> fst q 0 = 0 \<and> w 0 = 0 \<and> heap_ordered w (fst q) (snd q)"

lemma heap_elems_cong:
  "(\<And>i. 1 \<le> i \<Longrightarrow> i \<le> n \<Longrightarrow> h i = h' i) \<Longrightarrow> heap_elems (h, n) = heap_elems (h', n)"
  by (auto simp: heap_elems_def intro: image_mset_cong)

lemma heap_elems_Suc: "heap_elems (h, Suc n) = add_mset (h (Suc n)) (heap_elems (h, n))"
  by (simp add: heap_elems_def atLeastAtMostSuc_conv)

lemma heap_elems_0 [simp]: "heap_elems (h, 0) = {#}"
  by (simp add: heap_elems_def)

lemma mem_heap_elems: "x \<in># heap_elems (h, n) \<longleftrightarrow> (\<exists>i. 1 \<le> i \<and> i \<le> n \<and> x = h i)"
  by (auto simp: heap_elems_def)

lemma heap_elems_remove:
  assumes "a \<in> {1..n}"
  shows "heap_elems (h, n) = add_mset (h a) (image_mset h (mset_set ({1..n} - {a})))"
  using assms by (simp add: heap_elems_def mset_set.remove)

lemma heap_elems_swap:
  assumes "a \<in> {1..n}" "b \<in> {1..n}"
  shows "heap_elems (h(a := h b, b := h a), n) = heap_elems (h, n)"
proof (cases "a = b")
  case False
  let ?R = "{1..n} - {a} - {b}" and ?h = "h(a := h b, b := h a)"
  have "heap_elems (g, n) = add_mset (g a) (add_mset (g b) (image_mset g (mset_set ?R)))" for g
    using False assms mset_set.remove [of "{1..n} - {a}" b] by (simp add: heap_elems_remove)
  moreover have "image_mset ?h (mset_set ?R) = image_mset h (mset_set ?R)"
    by (rule image_mset_cong) auto
  ultimately show ?thesis using False by simp
qed (simp add: fun_upd_triv)

subsection \<open>UPHEAP\<close>

definition up_inv :: "(nat \<Rightarrow> nat) \<Rightarrow> (nat \<Rightarrow> nat) \<Rightarrow> nat \<Rightarrow> (nat \<Rightarrow> nat) \<Rightarrow> nat \<Rightarrow> bool" where
  "up_inv w h n v zz \<longleftrightarrow> 1 \<le> zz \<and> zz \<le> n \<and> v 0 = 0 \<and> heap_elems (v, n) = heap_elems (h, n) \<and>
     (\<forall>i. 2 \<le> i \<and> i \<le> n \<and> i \<noteq> zz \<longrightarrow> w (v (i div 2)) \<le> w (v i)) \<and>
     (\<forall>c. 2 \<le> zz \<and> c \<le> n \<and> c div 2 = zz \<longrightarrow> w (v (zz div 2)) \<le> w (v c))"

lemma up_inv_step:
  assumes I: "up_inv w h n v zz" and w0: "w 0 = 0" and lt: "w (v zz) < w (v (zz div 2))"
  shows "up_inv w h n (v(zz := v (zz div 2), zz div 2 := v zz)) (zz div 2)"
proof -
  have zz: "2 \<le> zz" "zz \<le> n"
    using I lt w0 by (cases "zz = 1"; auto simp: up_inv_def)+
  let ?p = "zz div 2"
  have p: "1 \<le> ?p" "?p < zz" "?p \<le> n" using zz by auto
  let ?v = "v(zz := v ?p, ?p := v zz)"
  have el: "heap_elems (?v, n) = heap_elems (h, n)"
    using heap_elems_swap [of zz n ?p v] zz p I by (auto simp: up_inv_def)
  have gp: "w (v ?p) \<le> w (v c)" if "c \<le> n" "c div 2 = zz" for c
    using I that zz by (auto simp: up_inv_def)
  have ord: "w (v (i div 2)) \<le> w (v i)" if "2 \<le> i" "i \<le> n" "i \<noteq> zz" for i
    using I that by (auto simp: up_inv_def)
  have "w (?v (i div 2)) \<le> w (?v i)" if i: "2 \<le> i" "i \<le> n" "i \<noteq> ?p" for i
  proof (cases "i = zz")
    case True
    then show ?thesis using lt p by simp
  next
    case nz: False
    consider "i div 2 = zz" | "i div 2 = ?p" | "i div 2 \<noteq> zz" "i div 2 \<noteq> ?p" by blast
    then show ?thesis
    proof cases
      case 1
      then show ?thesis using gp [of i] nz i less_not_refl2 [OF p(2)] by simp
    next
      case 2
      then show ?thesis using ord [OF i(1,2) nz] nz i lt p by simp
    next
      case 3
      then show ?thesis using ord [OF i(1,2) nz] nz i by simp
    qed
  qed
  moreover have "w (?v (?p div 2)) \<le> w (?v c)" if c: "2 \<le> ?p" "c \<le> n" "c div 2 = ?p" for c
  proof -
    have pp: "w (v (?p div 2)) \<le> w (v ?p)" using ord [of ?p] c p by auto
    have q: "?p div 2 < ?p" using c by auto
    show ?thesis
    proof (cases "c = zz")
      case True
      then show ?thesis using pp p q by simp
    next
      case False
      have "w (v ?p) \<le> w (v c)" using ord [of c] c False by auto
      moreover have "c \<noteq> ?p" using c by auto
      ultimately show ?thesis using pp p q False by simp
    qed
  qed
  ultimately show ?thesis
    using I el zz p by (simp add: up_inv_def)
qed

lemma UPHEAP_inv:
  assumes "heap_ordered w h (n - 1)" "h 0 = 0" "w 0 = 0" "1 \<le> n"
  shows "heap_inv w (UPHEAP w n h, n)" "heap_elems (UPHEAP w n h, n) = heap_elems (h, n)"
proof -
  let ?tmp = "h n"
  let ?b = "\<lambda>(g, zz). w ?tmp < w (g (zz div 2))"
  let ?c = "\<lambda>(g, zz). (g(zz := g (zz div 2)), zz div 2)"
  let ?P = "\<lambda>(g, zz). up_inv w h n (g(zz := ?tmp)) zz"
  have start: "?P (h, n)"
    using assms by (auto simp: up_inv_def heap_ordered_def)
  have step: "?P (?c (g, zz)) \<and> zz div 2 < zz" if "?P (g, zz)" "?b (g, zz)" for g zz
  proof -
    have zz: "1 \<le> zz" using that by (auto simp: up_inv_def)
    then have p: "zz div 2 \<noteq> zz" by auto
    have "up_inv w h n ((g(zz := ?tmp))(zz := (g(zz := ?tmp)) (zz div 2), zz div 2 := (g(zz := ?tmp)) zz)) (zz div 2)"
      using that p assms(3) by (intro up_inv_step) auto
    then show ?thesis using p zz by (simp add: fun_upd_twist)
  qed
  have fin: "?P (while ?b ?c (h, n)) \<and> \<not> ?b (while ?b ?c (h, n))"
    by (rule while_rule [where P = ?P and r = "measure snd"]) (use start step in \<open>auto simp del: fun_upd_apply\<close>)
  obtain g zz where r: "while ?b ?c (h, n) = (g, zz)" by fastforce
  have U: "UPHEAP w n h = g(zz := ?tmp)"
    by (simp add: UPHEAP_def r)
  have I: "up_inv w h n (g(zz := ?tmp)) zz" and stop: "\<not> w ?tmp < w (g (zz div 2))"
    using fin by (auto simp: r)
  have "w (UPHEAP w n h (i div 2)) \<le> w (UPHEAP w n h i)" if "2 \<le> i" "i \<le> n" for i
    using I stop that by (cases "i = zz") (auto simp: U up_inv_def)
  then show "heap_inv w (UPHEAP w n h, n)" "heap_elems (UPHEAP w n h, n) = heap_elems (h, n)"
    using I assms by (auto simp: heap_inv_def heap_ordered_def up_inv_def U)
qed

subsection \<open>DOWNHEAP\<close>

definition down_inv :: "(nat \<Rightarrow> nat) \<Rightarrow> (nat \<Rightarrow> nat) \<Rightarrow> nat \<Rightarrow> (nat \<Rightarrow> nat) \<Rightarrow> nat \<Rightarrow> bool" where
  "down_inv w h n v zz \<longleftrightarrow> 1 \<le> zz \<and> v 0 = 0 \<and> heap_elems (v, n) = heap_elems (h, n) \<and>
     (\<forall>i. 2 \<le> i \<and> i \<le> n \<and> i div 2 \<noteq> zz \<longrightarrow> w (v (i div 2)) \<le> w (v i)) \<and>
     (\<forall>c. 2 \<le> zz \<and> c \<le> n \<and> c div 2 = zz \<longrightarrow> w (v (zz div 2)) \<le> w (v c))"

lemma heap_child_bounds:
  "2 * zz \<le> n \<Longrightarrow> heap_child w n g zz \<le> n"
  "heap_child w n g zz div 2 = zz"
  "1 \<le> zz \<Longrightarrow> zz < heap_child w n g zz"
  by (auto simp: heap_child_def Let_def)

lemma heap_child_min:
  assumes "i \<le> n" "i div 2 = zz" "1 \<le> zz"
  shows "w (g (heap_child w n g zz)) \<le> w (g i)"
proof -
  have "i = 2 * zz \<or> i = 2 * zz + 1" using assms by auto
  then show ?thesis using assms by (auto simp: heap_child_def Let_def)
qed

lemma heap_child_cong:
  "1 \<le> zz \<Longrightarrow> heap_child w n (g(zz := x)) zz = heap_child w n g zz"
  by (simp add: heap_child_def Let_def)

lemma down_inv_step:
  assumes I: "down_inv w h n v zz" and n: "2 * zz \<le> n"
    and ge: "\<not> w (v zz) < w (v (heap_child w n v zz))"
  defines "yy \<equiv> heap_child w n v zz"
  shows "down_inv w h n (v(zz := v yy, yy := v zz)) yy"
proof -
  let ?v = "v(zz := v yy, yy := v zz)"
  have zz: "1 \<le> zz" using I by (simp add: down_inv_def)
  have yy: "yy \<le> n" "yy div 2 = zz" "zz < yy"
    using heap_child_bounds [where zz = zz] n zz by (auto simp: yy_def)
  have el: "heap_elems (?v, n) = heap_elems (h, n)"
    using heap_elems_swap [of zz n yy v] zz yy I by (auto simp: down_inv_def)
  have ord: "w (v (i div 2)) \<le> w (v i)" if "2 \<le> i" "i \<le> n" "i div 2 \<noteq> zz" for i
    using I that by (auto simp: down_inv_def)
  have "w (?v (i div 2)) \<le> w (?v i)" if i: "2 \<le> i" "i \<le> n" "i div 2 \<noteq> yy" for i
  proof -
    consider "i div 2 = zz" "i = yy" | "i div 2 = zz" "i \<noteq> yy" | "i div 2 \<noteq> zz" "i = zz" | "i div 2 \<noteq> zz" "i \<noteq> zz" "i \<noteq> yy"
      using yy by blast
    then show ?thesis
    proof cases
      case 1
      then show ?thesis using ge yy by (simp add: yy_def)
    next
      case 2
      then have "i \<noteq> zz" using zz by auto
      then show ?thesis using heap_child_min [OF i(2) 2(1) zz, of w v] 2 yy by (simp add: yy_def)
    next
      case 3
      then have "w (v (zz div 2)) \<le> w (v yy)"
        using I yy i by (auto simp: down_inv_def)
      then show ?thesis using 3 i yy by simp
    next
      case 4
      then show ?thesis using ord [OF i(1,2)] i by simp
    qed
  qed
  moreover have "w (?v (yy div 2)) \<le> w (?v c)" if c: "c \<le> n" "c div 2 = yy" for c
  proof -
    have "2 \<le> c" "c div 2 \<noteq> zz" "c \<noteq> zz" "c \<noteq> yy" using c yy zz by auto
    then show ?thesis using ord [of c] c yy by simp
  qed
  ultimately show ?thesis
    using I el zz yy by (simp add: down_inv_def)
qed

lemma DOWNHEAP_inv:
  assumes "\<And>i. 2 \<le> i \<Longrightarrow> i \<le> n \<Longrightarrow> i div 2 \<noteq> 1 \<Longrightarrow> w (h (i div 2)) \<le> w (h i)" "h 0 = 0" "w 0 = 0"
  shows "heap_inv w (DOWNHEAP w n 1 h, n)" "heap_elems (DOWNHEAP w n 1 h, n) = heap_elems (h, n)"
proof -
  let ?tmp = "h 1"
  let ?b = "\<lambda>(g, zz). \<not> 2 * zz > n \<and> \<not> w ?tmp < w (g (heap_child w n g zz))"
  let ?c = "\<lambda>(g, zz). let yy = heap_child w n g zz in (g(zz := g yy), yy)"
  let ?P = "\<lambda>(g, zz). down_inv w h n (g(zz := ?tmp)) zz"
  have start: "?P (h, 1)"
    using assms by (auto simp: down_inv_def)
  have step: "?P (?c (g, zz)) \<and> n - snd (?c (g, zz)) < n - zz" if "?P (g, zz)" "?b (g, zz)" for g zz
  proof -
    let ?v = "g(zz := ?tmp)"
    have zz: "1 \<le> zz" using that by (auto simp: down_inv_def)
    let ?y = "heap_child w n g zz"
    have y: "heap_child w n ?v zz = ?y" "?y \<le> n" "zz < ?y"
      using heap_child_cong [OF zz] heap_child_bounds [where zz = zz and g = g] that zz by auto
    have "down_inv w h n (?v(zz := ?v ?y, ?y := ?v zz)) ?y"
      using that y down_inv_step [of w h n ?v zz] by auto
    then show ?thesis using y by (simp add: Let_def fun_upd_twist diff_less_mono2)
  qed
  have fin: "?P (while ?b ?c (h, 1)) \<and> \<not> ?b (while ?b ?c (h, 1))"
    by (rule while_rule [where P = ?P and r = "measure (\<lambda>(g, zz). n - zz)"])
      (use start step in \<open>auto simp: Let_def simp del: fun_upd_apply\<close>)
  obtain g zz where r: "while ?b ?c (h, 1) = (g, zz)" by fastforce
  have D: "DOWNHEAP w n 1 h = g(zz := ?tmp)"
    using r by (simp add: DOWNHEAP_def Let_def)
  have I: "down_inv w h n (g(zz := ?tmp)) zz"
    and stop: "2 * zz > n \<or> w ?tmp < w (g (heap_child w n g zz))"
    using fin unfolding r prod.case by blast+
  have "w (DOWNHEAP w n 1 h (i div 2)) \<le> w (DOWNHEAP w n 1 h i)" if i: "2 \<le> i" "i \<le> n" for i
  proof (cases "i div 2 = zz")
    case False
    then show ?thesis using I i unfolding D by (simp add: down_inv_def)
  next
    case True
    have zz: "1 \<le> zz" using I by (simp add: down_inv_def)
    have "w ?tmp < w (g (heap_child w n g zz))" using stop True i by auto
    also have "\<dots> \<le> w (g i)" by (rule heap_child_min [OF i(2) True zz])
    finally show ?thesis using True zz i unfolding D by auto
  qed
  then show "heap_inv w (DOWNHEAP w n 1 h, n)" "heap_elems (DOWNHEAP w n 1 h, n) = heap_elems (h, n)"
    using I assms unfolding D by (auto simp: heap_inv_def heap_ordered_def down_inv_def)
qed

subsection \<open>Push and pop\<close>

lemma heap_inv_min:
  assumes "heap_inv w (h, n)" "1 \<le> i" "i \<le> n"
  shows "w (h 1) \<le> w (h i)"
  using assms(2,3)
proof (induction i rule: less_induct)
  case (less i)
  show ?case
  proof (cases "i = 1")
    case False
    then have "w (h 1) \<le> w (h (i div 2))" using less by (intro less.IH) auto
    also have "\<dots> \<le> w (h i)" using assms(1) less False by (auto simp: heap_inv_def heap_ordered_def)
    finally show ?thesis .
  qed simp
qed

lemma heap_push_correct:
  assumes "heap_inv w q"
  shows "heap_inv w (heap_push w x q)" "heap_elems (heap_push w x q) = add_mset x (heap_elems q)"
proof -
  obtain h n where q: "q = (h, n)" by fastforce
  let ?h = "h(Suc n := x)"
  have "heap_ordered w ?h (Suc n - 1)" "?h 0 = 0" "w 0 = 0"
    using assms by (auto simp: q heap_inv_def heap_ordered_def)
  then have "heap_inv w (UPHEAP w (Suc n) ?h, Suc n)"
    "heap_elems (UPHEAP w (Suc n) ?h, Suc n) = heap_elems (?h, Suc n)"
    by (auto intro!: UPHEAP_inv)
  moreover have "heap_elems (?h, Suc n) = add_mset x (heap_elems (h, n))"
    using heap_elems_cong [of n ?h h] by (simp add: heap_elems_Suc)
  ultimately show "heap_inv w (heap_push w x q)"
    "heap_elems (heap_push w x q) = add_mset x (heap_elems q)"
    by (auto simp: heap_push_def q)
qed

lemma heap_elems_empty: "heap_elems (h, n) = {#} \<longleftrightarrow> n = 0"
  by (auto simp: heap_elems_def mset_set_empty_iff)

lemma heap_pop_correct:
  assumes "heap_inv w q" "heap_elems q \<noteq> {#}" "heap_pop w q = (x, q')"
  shows "heap_elems q = add_mset x (heap_elems q')" "heap_inv w q'"
    "y \<in># heap_elems q \<Longrightarrow> w x \<le> w y"
proof -
  obtain h n where q: "q = (h, n)" by fastforce
  then obtain m where n: "n = Suc m" using assms(2) by (cases n) auto
  let ?h = "h(1 := h n)"
  have x: "x = h 1" and q': "q' = (DOWNHEAP w m 1 ?h, m)"
    using assms(3) by (auto simp: heap_pop_def q n Let_def)
  have "w (?h (i div 2)) \<le> w (?h i)" if "2 \<le> i" "i \<le> m" "i div 2 \<noteq> 1" for i
    using assms(1) that by (auto simp: q n heap_inv_def heap_ordered_def)
  moreover have "?h 0 = 0" "w 0 = 0" using assms(1) by (auto simp: q heap_inv_def)
  ultimately have D: "heap_inv w q'" "heap_elems q' = heap_elems (?h, m)"
    using DOWNHEAP_inv [of m w ?h] by (auto simp: q')
  then show "heap_inv w q'" by simp
  show "heap_elems q = add_mset x (heap_elems q')"
  proof (cases "m = 0")
    case True
    then show ?thesis by (simp add: q n x q' heap_elems_Suc)
  next
    case False
    have "heap_elems (h, n) = heap_elems (h(1 := h n, n := h 1), n)"
      using False n by (intro heap_elems_swap [symmetric]) auto
    also have "\<dots> = add_mset (h 1) (heap_elems (?h, m))"
      using heap_elems_cong [of m "h(1 := h n, n := h 1)" ?h] by (simp add: n heap_elems_Suc)
    finally show ?thesis using D by (simp add: q x)
  qed
  show "y \<in># heap_elems q \<Longrightarrow> w x \<le> w y"
    using heap_inv_min [of w h n] assms(1) by (auto simp: q x mem_heap_elems)
qed

lemma heap_inv_cong:
  assumes "heap_inv w q" "w' 0 = w 0" "\<And>x. x \<in># heap_elems q \<Longrightarrow> w' x = w x"
  shows "heap_inv w' q"
proof -
  obtain h n where q: "q = (h, n)" by fastforce
  have e: "w' (h i) = w (h i)" if "1 \<le> i" "i \<le> n" for i
    using assms(3) that by (auto simp: q mem_heap_elems)
  have "w' (h (i div 2)) \<le> w' (h i)" if "2 \<le> i" "i \<le> n" for i
    using assms(1) that e [of i] e [of "i div 2"] by (auto simp: q heap_inv_def heap_ordered_def)
  then show ?thesis using assms(1,2) by (simp add: q heap_inv_def heap_ordered_def)
qed

interpretation hq: min_queue heap_push heap_pop heap_elems heap_inv
  by unfold_locales
    (auto simp: heap_push_correct intro: heap_pop_correct heap_inv_cong)

end
