(* ===== verification/HuffTree.thy ===== *)
theory HuffTree
  imports HuffHeap
begin

text \<open>
  One pass of \<open>BZ2_hbMakeCodeLengths\<close>: the forest that the merging loop builds in the
  \<open>parent\<close> array. Three invariants are kept by a merge of the two lightest trees: the links
  go up to a root; the lengths of every tree satisfy the Kraft equality; and a tree of
  depth \<open>d\<close> weighs at least the \<open>d\<close>-th Fibonacci-like number, which bounds the depth by
  the total weight.
\<close>

section \<open>Packed weights\<close>

abbreviation (input) wt :: "(nat \<Rightarrow> nat) \<Rightarrow> nat \<Rightarrow> nat" where "wt w k \<equiv> w k div 256"
abbreviation (input) dp :: "(nat \<Rightarrow> nat) \<Rightarrow> nat \<Rightarrow> nat" where "dp w k \<equiv> w k mod 256"

lemma DEPTHOF_eq: "DEPTHOF z = z mod 256"
  using take_bit_eq_mask [of 8 z] by (simp add: DEPTHOF_def mask_eq_exp_minus_1 take_bit_eq_mod)

lemma WEIGHTOF_eq:
  assumes "z < 2 ^ 32"
  shows "WEIGHTOF z = 256 * (z div 256)"
proof -
  have m: "0xffffff00 = (push_bit 8 (mask 24) :: nat)"
    by (simp add: mask_eq_exp_minus_1 push_bit_eq_mult)
  have "z = take_bit 32 z" using assms by (simp add: take_bit_nat_eq_self)
  then have "bit z n \<Longrightarrow> n < 32" for n by (metis bit_take_bit_iff)
  then have "z AND push_bit 8 (mask 24) = push_bit 8 (drop_bit 8 z)"
    by (intro bit_eqI) (auto simp: bit_simps, force)
  then show ?thesis by (simp add: WEIGHTOF_def m push_bit_eq_mult drop_bit_eq_div)
qed

lemma or_disjoint_256:
  assumes "d < 256"
  shows "(256 * a) OR d = 256 * a + (d :: nat)"
proof -
  have "(256 * a) AND d = 0"
  proof (rule bit_eqI)
    fix n
    have "d = take_bit 8 d" using assms by (simp add: take_bit_nat_eq_self)
    then have "bit d n \<Longrightarrow> n < 8" by (metis bit_take_bit_iff)
    moreover have "256 * a = push_bit 8 a" by (simp add: push_bit_eq_mult)
    ultimately show "bit ((256 * a) AND d) n = bit 0 n"
      by (auto simp: bit_simps simp del: push_bit_numeral)
  qed
  then show ?thesis by (simp add: disjunctive_add_eq_or)
qed

lemma ADDWEIGHTS_eq:
  assumes "z1 < 2 ^ 32" "z2 < 2 ^ 32" "z1 mod 256 < 255" "z2 mod 256 < 255"
  shows "ADDWEIGHTS z1 z2 = 256 * (z1 div 256 + z2 div 256) + (1 + max (z1 mod 256) (z2 mod 256))"
proof -
  have "1 + max (z1 mod 256) (z2 mod 256) < 256" using assms by simp
  from or_disjoint_256 [OF this, of "z1 div 256 + z2 div 256"] show ?thesis
    using assms by (simp add: ADDWEIGHTS_def WEIGHTOF_eq DEPTHOF_eq algebra_simps)
qed

lemma ADDWEIGHTS_parts:
  assumes "z1 < 2 ^ 32" "z2 < 2 ^ 32" "z1 mod 256 < 255" "z2 mod 256 < 255"
  shows "ADDWEIGHTS z1 z2 div 256 = z1 div 256 + z2 div 256"
    "ADDWEIGHTS z1 z2 mod 256 = 1 + max (z1 mod 256) (z2 mod 256)"
proof -
  define a d where "a = z1 div 256 + z2 div 256" and "d = 1 + max (z1 mod 256) (z2 mod 256)"
  have d: "d < 256" using assms by (simp add: d_def)
  have e: "ADDWEIGHTS z1 z2 = 256 * a + d" using ADDWEIGHTS_eq [OF assms] by (simp add: a_def d_def)
  show "ADDWEIGHTS z1 z2 div 256 = z1 div 256 + z2 div 256"
    "ADDWEIGHTS z1 z2 mod 256 = 1 + max (z1 mod 256) (z2 mod 256)"
    unfolding e a_def [symmetric] d_def [symmetric] using d by simp_all
qed

section \<open>Paths in the parent array\<close>

inductive path :: "(nat \<Rightarrow> int) \<Rightarrow> nat \<Rightarrow> nat \<Rightarrow> nat \<Rightarrow> bool" for par where
  root: "par k < 0 \<Longrightarrow> path par k k 0"
| up: "0 \<le> par k \<Longrightarrow> path par (nat (par k)) r d \<Longrightarrow> path par k r (Suc d)"

inductive_cases path_root: "path par k r 0"
inductive_cases path_up: "path par k r (Suc d)"

definition huff_root :: "(nat \<Rightarrow> int) \<Rightarrow> nat \<Rightarrow> nat" where
  "huff_root par i = fst (while (\<lambda>(k, j). par k \<ge> 0) (\<lambda>(k, j). (nat (par k), j + 1)) (i, 0::nat))"

lemma path_while:
  "path par k r d \<Longrightarrow>
   while (\<lambda>(k, j). par k \<ge> 0) (\<lambda>(k, j). (nat (par k), j + 1)) (k, j) = (r, j + d :: nat)"
proof (induction arbitrary: j rule: path.induct)
  case (root k)
  then show ?case by (simp add: while_unfold)
next
  case (up k r d)
  then show ?case by (subst while_unfold) simp
qed

lemma path_depth: "path par k r d \<Longrightarrow> huff_depth par k = d"
  by (simp only: huff_depth_def path_while snd_conv add_0)

lemma path_huff_root: "path par k r d \<Longrightarrow> huff_root par k = r"
  by (simp only: huff_root_def path_while fst_conv)

lemma path_end: "path par k r d \<Longrightarrow> par r < 0"
  by (induction rule: path.induct) auto

section \<open>The links\<close>

definition links :: "nat \<Rightarrow> (nat \<Rightarrow> int) \<Rightarrow> nat \<Rightarrow> nat set \<Rightarrow> bool" where
  "links n par N R \<longleftrightarrow> 1 \<le> n \<and> n \<le> N \<and> R = {k \<in> {1..N}. par k < 0} \<and> card R + N = 2 * n \<and>
     (\<forall>k \<in> {1..N}. par k < 0 \<or> (int k < par k \<and> par k \<le> int N))"

definition merged :: "nat \<Rightarrow> nat \<Rightarrow> nat \<Rightarrow> (nat \<Rightarrow> int) \<Rightarrow> (nat \<Rightarrow> int)" where
  "merged x y N par = (par(x := int N, y := int N))(N := -1)"

lemma links_merge:
  assumes L: "links n par N R" and xy: "x \<in> R" "y \<in> R" "x \<noteq> y"
  shows "links n (merged x y (Suc N) par) (Suc N) (insert (Suc N) (R - {x, y}))"
proof -
  have fin: "finite R" and sub: "R \<subseteq> {1..N}" and cR: "card R + N = 2 * n"
    using L by (auto simp: links_def)
  have "card (R - {x, y}) = card R - 2"
    using xy fin by (simp add: card_Diff_subset)
  moreover have "card R \<ge> 2"
    using xy fin card_mono [of R "{x, y}"] by simp
  moreover have "Suc N \<notin> R - {x, y}" using sub by auto
  ultimately have c: "card (insert (Suc N) (R - {x, y})) + Suc N = 2 * n"
    using cR fin by simp
  have R: "k \<in> R \<longleftrightarrow> k \<in> {1..N} \<and> par k < 0" for k using L by (auto simp: links_def)
  have r: "insert (Suc N) (R - {x, y}) = {k \<in> {1..Suc N}. merged x y (Suc N) par k < 0}"
  proof (rule set_eqI)
    fix k
    consider "k = Suc N" | "k \<noteq> Suc N" "k \<in> {x, y}" | "k \<noteq> Suc N" "k \<notin> {x, y}" by blast
    then show "k \<in> insert (Suc N) (R - {x, y}) \<longleftrightarrow> k \<in> {k \<in> {1..Suc N}. merged x y (Suc N) par k < 0}"
      by cases (auto simp: merged_def R)
  qed
  have "merged x y (Suc N) par k < 0 \<or>
      (int k < merged x y (Suc N) par k \<and> merged x y (Suc N) par k \<le> int (Suc N))"
    if k: "k \<in> {1..Suc N}" for k
  proof -
    consider "k = Suc N" | "k \<in> {1..N}" "k \<in> {x, y}" | "k \<in> {1..N}" "k \<notin> {x, y}" using k by fastforce
    then show ?thesis
    proof cases
      case 3
      then have "par k < 0 \<or> (int k < par k \<and> par k \<le> int N)" using L unfolding links_def by blast
      then show ?thesis using 3 by (auto simp: merged_def)
    qed (auto simp: merged_def)
  qed
  moreover have "1 \<le> n" "n \<le> Suc N" using L by (auto simp: links_def)
  ultimately show ?thesis
    unfolding links_def using c r by blast
qed

lemma path_merge:
  assumes L: "links n par N R" and xy: "x \<in> R" "y \<in> R"
  shows "path par k r d \<Longrightarrow> k \<in> {1..N} \<Longrightarrow>
     r \<in> R \<and> path (merged x y (Suc N) par) k (if r \<in> {x, y} then Suc N else r)
       (if r \<in> {x, y} then Suc d else d)"
proof (induction rule: path.induct)
  case (root k)
  let ?par = "merged x y (Suc N) par"
  have new: "path ?par (Suc N) (Suc N) 0" by (rule path.root) (simp add: merged_def)
  have k: "k \<in> R" using root L by (auto simp: links_def)
  show ?case
  proof (cases "k \<in> {x, y}")
    case True
    then have "?par k = int (Suc N)" using root by (auto simp: merged_def)
    then show ?thesis using new True k by (auto intro!: path.up simp del: of_nat_Suc)
  next
    case False
    then have "?par k = par k" using root by (auto simp: merged_def)
    then show ?thesis using False root k by (auto intro: path.root)
  qed
next
  case (up k r d)
  have "\<forall>k \<in> {1..N}. par k < 0 \<or> (int k < par k \<and> par k \<le> int N)"
    using L unfolding links_def by blast
  from bspec [OF this up.prems] have "int k < par k" "par k \<le> int N" using up.hyps(1) by auto
  then have "nat (par k) \<in> {1..N}" using up.prems by auto
  then have IH: "r \<in> R \<and> path (merged x y (Suc N) par) (nat (par k)) (if r \<in> {x, y} then Suc N else r)
       (if r \<in> {x, y} then Suc d else d)" by (rule up.IH)
  have "k \<notin> {x, y}" using up.hyps xy L by (auto simp: links_def)
  then have "merged x y (Suc N) par k = par k" using up.prems by (auto simp: merged_def)
  then show ?case using IH up.hyps by (auto intro: path.up)
qed

section \<open>The weights\<close>

fun fibw :: "nat \<Rightarrow> nat" where
  "fibw 0 = 1"
| "fibw (Suc 0) = 2"
| "fibw (Suc (Suc n)) = fibw (Suc n) + fibw n"

lemma fibw_pos: "0 < fibw n"
  by (induction n rule: fibw.induct) auto

lemma fibw_Suc: "fibw (Suc n) = fibw n + (if n = 0 then 1 else fibw (n - 1))"
  by (cases n) auto

lemma fibw_mono: "m \<le> n \<Longrightarrow> fibw m \<le> fibw n"
  by (rule lift_Suc_mono_le [of fibw]) (auto simp: fibw_Suc)

lemma fibw_18: "fibw 18 = 6765"
  by (simp add: numeral_eq_Suc)

lemma fibw_exp: "2 ^ k \<le> fibw (2 * k)"
proof (induction k)
  case (Suc k)
  have "fibw (2 * Suc k) = fibw (Suc (2 * k)) + fibw (2 * k)" by simp
  also have "\<dots> \<ge> 2 * fibw (2 * k)" using fibw_mono [of "2 * k" "Suc (2 * k)"] by simp
  finally show ?case using Suc.IH by simp
qed simp

definition heavy :: "nat \<Rightarrow> (nat \<Rightarrow> nat) \<Rightarrow> nat set \<Rightarrow> nat \<Rightarrow> bool" where
  "heavy T w R M \<longleftrightarrow> (\<Sum>k \<in> R. wt w k) = T \<and>
     (\<forall>r \<in> R. M \<le> wt w r \<and> fibw (dp w r) \<le> wt w r \<and> (1 \<le> dp w r \<longrightarrow> fibw (dp w r - 1) \<le> M))"

lemma heavy_bound:
  assumes "heavy T w R M" "finite R" "r \<in> R" "T < 2 ^ 23"
  shows "wt w r \<le> T" "dp w r \<le> 45" "w r < 2 ^ 31" "w r < 2 ^ 32" "dp w r < 255"
proof -
  show T: "wt w r \<le> T"
    using assms member_le_sum [of r R "wt w"] by (simp add: heavy_def)
  have "fibw (dp w r) < fibw 46"
  proof -
    have "fibw (dp w r) \<le> wt w r" using assms(1,3) unfolding heavy_def by blast
    also have "\<dots> \<le> T" by (rule T)
    also have "\<dots> < fibw 46" using assms(4) fibw_exp [of 23] by simp
    finally show ?thesis .
  qed
  then show d: "dp w r \<le> 45"
    using fibw_mono [of 46 "dp w r"] by linarith
  define a b where "a = wt w r" and "b = dp w r"
  have "w r = 256 * a + b" by (simp add: a_def b_def)
  moreover have "a < 2 ^ 23" "b \<le> 45" using T d assms(4) unfolding a_def b_def by linarith+
  ultimately show "w r < 2 ^ 31" "w r < 2 ^ 32" "dp w r < 255"
    unfolding b_def [symmetric] by simp_all
qed

lemma heavy_merge:
  assumes H: "heavy T w R M" and fin: "finite R" and T: "T < 2 ^ 23"
    and xy: "x \<in> R" "y \<in> R" "x \<noteq> y" and new: "z \<notin> R"
    and ord: "w x \<le> w y" "\<And>r. r \<in> R - {x, y} \<Longrightarrow> w y \<le> w r"
  shows "heavy T (w(z := ADDWEIGHTS (w x) (w y))) (insert z (R - {x, y})) (wt w y)"
proof -
  let ?w = "w(z := ADDWEIGHTS (w x) (w y))" and ?R = "R - {x, y}"
  note bx = heavy_bound [OF H fin xy(1) T] and by' = heavy_bound [OF H fin xy(2) T]
  have z: "wt ?w z = wt w x + wt w y" "dp ?w z = 1 + max (dp w x) (dp w y)"
    using ADDWEIGHTS_parts [OF bx(4) by'(4) bx(5) by'(5)] by simp_all
  have old: "?w r = w r" if "r \<in> ?R" for r using that new by auto
  have mono: "wt w x \<le> wt w y" "\<And>r. r \<in> ?R \<Longrightarrow> wt w y \<le> wt w r"
    using ord by (auto intro: div_le_mono)
  have "(\<Sum>k \<in> ?R. wt ?w k) = (\<Sum>k \<in> ?R. wt w k)"
    by (rule sum.cong) (use old in auto)
  moreover have "(\<Sum>k \<in> R. wt w k) = wt w x + wt w y + (\<Sum>k \<in> ?R. wt w k)"
  proof -
    have "?R = R - {x} - {y}" by auto
    then show ?thesis
      using xy fin sum.remove [of R x "wt w"] sum.remove [of "R - {x}" y "wt w"] by simp
  qed
  ultimately have sum: "(\<Sum>k \<in> insert z ?R. wt ?w k) = T"
    using H fin new z by (simp add: heavy_def)
  have fx: "M \<le> wt w x" "fibw (dp w x) \<le> wt w x" "1 \<le> dp w x \<Longrightarrow> fibw (dp w x - 1) \<le> M"
    and fy: "M \<le> wt w y" "fibw (dp w y) \<le> wt w y" "1 \<le> dp w y \<Longrightarrow> fibw (dp w y - 1) \<le> M"
    using H xy by (auto simp: heavy_def)
  have deep: "fibw (Suc d) \<le> wt w x + wt w y \<and> fibw d \<le> wt w y"
    if "d = dp w x \<or> d = dp w y" for d
  proof -
    have "0 < wt w x" "0 < wt w y" using fx(2) fy(2) fibw_pos by (meson less_le_trans)+
    then show ?thesis using that fx fy mono(1) by (auto simp: fibw_Suc)
  qed
  have "wt w y \<le> wt ?w r \<and> fibw (dp ?w r) \<le> wt ?w r \<and> (1 \<le> dp ?w r \<longrightarrow> fibw (dp ?w r - 1) \<le> wt w y)"
    if r: "r \<in> insert z ?R" for r
  proof (cases "r = z")
    case True
    then show ?thesis using deep [of "max (dp w x) (dp w y)"] z by (auto simp: max_def)
  next
    case False
    then have r: "r \<in> ?R" using r by auto
    then have "M \<le> wt w r" "fibw (dp w r) \<le> wt w r" "1 \<le> dp w r \<Longrightarrow> fibw (dp w r - 1) \<le> M"
      using H by (auto simp: heavy_def)
    moreover have "M \<le> wt w y" by (rule fy(1))
    ultimately show ?thesis using old [OF r] mono(2) [OF r] by (auto intro: le_trans)
  qed
  with sum show ?thesis by (simp add: heavy_def)
qed

section \<open>The Kraft equality\<close>

definition leaves :: "nat \<Rightarrow> (nat \<Rightarrow> int) \<Rightarrow> nat \<Rightarrow> nat set" where
  "leaves n par r = {i \<in> {1..n}. huff_root par i = r}"

definition kraft :: "nat \<Rightarrow> (nat \<Rightarrow> nat) \<Rightarrow> (nat \<Rightarrow> int) \<Rightarrow> nat set \<Rightarrow> bool" where
  "kraft n w par R \<longleftrightarrow>
     (\<forall>i \<in> {1..n}. huff_root par i \<in> R \<and> huff_depth par i \<le> dp w (huff_root par i) \<and>
        path par i (huff_root par i) (huff_depth par i)) \<and>
     (\<forall>r \<in> R. (\<Sum>i \<in> leaves n par r. 2 ^ (dp w r - huff_depth par i)) = (2 :: nat) ^ dp w r)"

lemma finite_leaves [simp]: "finite (leaves n par r)"
  by (simp add: leaves_def)

lemma kraft_shift:
  assumes "kraft n w par R" "r \<in> R" "dp w r \<le> m"
  shows "(\<Sum>i \<in> leaves n par r. 2 ^ (m - huff_depth par i)) = (2 :: nat) ^ m"
proof -
  have "2 ^ (m - huff_depth par i) = 2 ^ (m - dp w r) * (2 :: nat) ^ (dp w r - huff_depth par i)"
    if "i \<in> leaves n par r" for i
  proof -
    have "huff_depth par i \<le> dp w r" using assms(1) that by (auto simp: kraft_def leaves_def)
    then show ?thesis using assms(3) by (simp flip: power_add)
  qed
  then have "(\<Sum>i \<in> leaves n par r. 2 ^ (m - huff_depth par i)) =
      2 ^ (m - dp w r) * (\<Sum>i \<in> leaves n par r. (2 :: nat) ^ (dp w r - huff_depth par i))"
    by (simp add: sum_distrib_left)
  also have "\<dots> = 2 ^ m" using assms by (simp add: kraft_def flip: power_add)
  finally show ?thesis .
qed

lemma kraft_merge:
  assumes K: "kraft n w par R" and L: "links n par N R" and xy: "x \<in> R" "y \<in> R" "x \<noteq> y"
    and z: "dp w' (Suc N) = 1 + max (dp w x) (dp w y)" and old: "\<And>r. r \<in> R \<Longrightarrow> w' r = w r"
  shows "kraft n w' (merged x y (Suc N) par) (insert (Suc N) (R - {x, y}))"
proof -
  let ?par = "merged x y (Suc N) par" and ?z = "Suc N"
  have n: "n \<le> N" and zR: "?z \<notin> R" using L by (auto simp: links_def)
  let ?r = "huff_root par" and ?d = "huff_depth par"
  have P: "?r i \<in> R" "?d i \<le> dp w (?r i)"
      "path ?par i (if ?r i \<in> {x, y} then ?z else ?r i) (if ?r i \<in> {x, y} then Suc (?d i) else ?d i)"
    if "i \<in> {1..n}" for i
    using K that n path_merge [OF L xy(1,2), of i "?r i" "?d i"] by (auto simp: kraft_def)
  have r': "huff_root ?par i = (if ?r i \<in> {x, y} then ?z else ?r i)"
    and d': "huff_depth ?par i = (if ?r i \<in> {x, y} then Suc (?d i) else ?d i)"
    if "i \<in> {1..n}" for i
    using path_huff_root [OF P(3) [OF that]] path_depth [OF P(3) [OF that]] by simp_all
  have one: "huff_root ?par i \<in> insert ?z (R - {x, y}) \<and>
      huff_depth ?par i \<le> dp w' (huff_root ?par i) \<and>
      path ?par i (huff_root ?par i) (huff_depth ?par i)" if "i \<in> {1..n}" for i
    using P [OF that] that z old by (auto simp: r' d' max_def)
  have lz: "leaves n ?par ?z = leaves n par x \<union> leaves n par y"
  proof -
    have "huff_root ?par i = ?z \<longleftrightarrow> ?r i = x \<or> ?r i = y" if "i \<in> {1..n}" for i
      using r' [OF that] P(1) [OF that] zR by auto
    then show ?thesis unfolding leaves_def by blast
  qed
  have lo: "leaves n ?par r = leaves n par r" if "r \<in> R - {x, y}" for r
  proof -
    have "huff_root ?par i = r \<longleftrightarrow> ?r i = r" if i: "i \<in> {1..n}" for i
      using r' [OF i] \<open>r \<in> R - {x, y}\<close> zR by auto
    then show ?thesis unfolding leaves_def by blast
  qed
  have half: "(\<Sum>i \<in> leaves n par r. 2 ^ (dp w' ?z - huff_depth ?par i)) = (2 :: nat) ^ max (dp w x) (dp w y)"
    if "r \<in> {x, y}" for r
  proof -
    have "(\<Sum>i \<in> leaves n par r. 2 ^ (dp w' ?z - huff_depth ?par i)) =
        (\<Sum>i \<in> leaves n par r. (2 :: nat) ^ (max (dp w x) (dp w y) - ?d i))"
      by (rule sum.cong) (use that z in \<open>auto simp: leaves_def d'\<close>)
    also have "\<dots> = 2 ^ max (dp w x) (dp w y)"
      using kraft_shift [OF K, of r] that xy by auto
    finally show ?thesis .
  qed
  have "leaves n par x \<inter> leaves n par y = {}" using xy by (auto simp: leaves_def)
  then have sz: "(\<Sum>i \<in> leaves n ?par ?z. 2 ^ (dp w' ?z - huff_depth ?par i)) = (2 :: nat) ^ dp w' ?z"
    using half [of x] half [of y] z by (simp add: lz sum.union_disjoint)
  have so: "(\<Sum>i \<in> leaves n ?par r. 2 ^ (dp w' r - huff_depth ?par i)) = (2 :: nat) ^ dp w' r"
    if r: "r \<in> R - {x, y}" for r
  proof -
    have "(\<Sum>i \<in> leaves n par r. 2 ^ (dp w' r - huff_depth ?par i)) =
        (\<Sum>i \<in> leaves n par r. (2 :: nat) ^ (dp w r - ?d i))"
      by (rule sum.cong) (use r old in \<open>auto simp: leaves_def d'\<close>)
    then show ?thesis using K r old by (simp add: lo [OF r] kraft_def)
  qed
  show ?thesis
    unfolding kraft_def using one sz so by blast
qed

end
