(* ===== verification/HuffCorrect.thy ===== *)
theory HuffCorrect
  imports HuffTree
begin

text \<open>
  Correctness of \<open>BZ2_hbMakeCodeLengths\<close>: the merging loop keeps the forest invariant (by
  the contract of the queue), a pass yields code lengths with the Kraft equality, and the
  outer loop ends, because the scaled weights shrink until no code can be too long.
\<close>

section \<open>Merging two trees\<close>

definition forest :: "nat \<Rightarrow> nat \<Rightarrow> (nat \<Rightarrow> nat) \<Rightarrow> (nat \<Rightarrow> int) \<Rightarrow> nat \<Rightarrow> nat set \<Rightarrow> bool" where
  "forest n T w par N R \<longleftrightarrow> links n par N R \<and> (\<exists>M. heavy T w R M) \<and> kraft n w par R \<and> T < 2 ^ 23"

lemma forest_finite: "forest n T w par N R \<Longrightarrow> finite R"
  by (auto simp: forest_def links_def)

lemma mset_set_two:
  assumes "finite R" "mset_set R = add_mset x (add_mset y A)"
  shows "x \<in> R" "y \<in> R" "x \<noteq> y" "A = mset_set (R - {x, y})"
proof -
  have x: "x \<in># mset_set R" and y: "y \<in># mset_set R" by (simp_all add: assms(2))
  then show "x \<in> R" "y \<in> R" using assms(1) by simp_all
  show ne: "x \<noteq> y"
  proof
    assume "x = y"
    then have "count (mset_set R) x \<ge> 2" by (simp add: assms(2))
    then show False by (cases "x \<in> R") (simp_all add: assms(1) count_mset_set(1))
  qed
  have "R - {x, y} = R - {x} - {y}" by auto
  then have "mset_set R = add_mset x (add_mset y (mset_set (R - {x, y})))"
    using x y ne assms(1) mset_set.remove [of R x] mset_set.remove [of "R - {x}" y] by simp
  then show "A = mset_set (R - {x, y})" using assms(2) by simp
qed

context min_queue
begin

lemma merge_forest:
  assumes F: "forest n T w par N R" and I: "inv w q" and E: "elems q = mset_set R"
    and two: "2 \<le> size (elems q)" and p1: "pop w q = (x, q1)" and p2: "pop w q1 = (y, q2)"
  defines "w' \<equiv> w(Suc N := ADDWEIGHTS (w x) (w y))"
    and "R' \<equiv> insert (Suc N) (R - {x, y})"
  shows "forest n T w' (merged x y (Suc N) par) (Suc N) R'"
    "inv w' (push w' (Suc N) q2)" "elems (push w' (Suc N) q2) = mset_set R'"
proof -
  note P = pop_two [OF I two p1 p2]
  have fin: "finite R" by (rule forest_finite [OF F])
  note xy = mset_set_two [OF fin, of x y "elems q2", folded E, OF P(1)]
  obtain M where L: "links n par N R" and H: "heavy T w R M" and K: "kraft n w par R" and T: "T < 2 ^ 23"
    using F by (auto simp: forest_def)
  have zR: "Suc N \<notin> R" using L by (auto simp: links_def)
  have old: "w' r = w r" if "r \<in> R" for r using that zR by (auto simp: w'_def)
  have "w y \<le> w r" if "r \<in> R - {x, y}" for r
    using P(4) [of r] that xy(4) fin by simp
  then have "heavy T w' R' (wt w y)"
    unfolding w'_def R'_def using heavy_merge [OF H fin T xy(1-3) zR P(3)] by blast
  moreover have "links n (merged x y (Suc N) par) (Suc N) R'"
    unfolding R'_def by (rule links_merge [OF L xy(1-3)])
  moreover have "kraft n w' (merged x y (Suc N) par) R'"
    unfolding R'_def
  proof (rule kraft_merge [OF K L xy(1-3) _ old])
    show "dp w' (Suc N) = 1 + max (dp w x) (dp w y)"
      using heavy_bound [OF H fin xy(1) T] heavy_bound [OF H fin xy(2) T]
      by (simp only: w'_def fun_upd_same) (rule ADDWEIGHTS_parts; blast)
  qed
  ultimately show "forest n T w' (merged x y (Suc N) par) (Suc N) R'"
    using T by (auto simp: forest_def)
  have "inv w' q2"
    by (rule inv_cong [OF P(2)]) (use old xy fin in \<open>auto simp: w'_def\<close>)
  then show "inv w' (push w' (Suc N) q2)" "elems (push w' (Suc N) q2) = mset_set R'"
    using push_inv push_elems [of w' q2] xy(4) zR fin by (auto simp: R'_def)
qed

end

section \<open>The merging loop on the code's heap\<close>

definition tree_state :: "nat \<Rightarrow> nat \<Rightarrow> (nat \<Rightarrow> nat) \<Rightarrow> huff \<Rightarrow> bool" where
  "tree_state n T w0 s \<longleftrightarrow>
     heap_inv (hf_weight s) (hf_queue s) \<and> (\<forall>i \<le> n. hf_weight s i = w0 i) \<and>
     (\<exists>R. heap_elems (hf_queue s) = mset_set R \<and>
          forest n T (hf_weight s) (hf_parent s) (hf_nNodes s) R)"

lemma size_heap_elems [simp]: "size (heap_elems q) = snd q"
  by (simp add: heap_elems_def)

lemma huff_merge_state:
  assumes S: "tree_state n T w0 s" and two: "2 \<le> snd (hf_queue s)"
  shows "tree_state n T w0 (huff_merge s)" "snd (hf_queue (huff_merge s)) = snd (hf_queue s) - 1"
proof -
  obtain R where I: "heap_inv (hf_weight s) (hf_queue s)" and w0: "\<forall>i \<le> n. hf_weight s i = w0 i"
    and E: "heap_elems (hf_queue s) = mset_set R"
    and F: "forest n T (hf_weight s) (hf_parent s) (hf_nNodes s) R"
    using S by (auto simp: tree_state_def)
  obtain x q1 where p1: "heap_pop (hf_weight s) (hf_queue s) = (x, q1)" by (meson surj_pair)
  obtain y q2 where p2: "heap_pop (hf_weight s) q1 = (y, q2)" by (meson surj_pair)
  have two': "2 \<le> size (heap_elems (hf_queue s))" using two by simp
  note M = hq.merge_forest [OF F I E two' p1 p2]
  have n: "n \<le> hf_nNodes s" using F by (auto simp: forest_def links_def)
  have m: "huff_merge s = \<lparr>hf_queue = heap_push ((hf_weight s)(Suc (hf_nNodes s) :=
        ADDWEIGHTS (hf_weight s x) (hf_weight s y))) (Suc (hf_nNodes s)) q2,
      hf_nNodes = Suc (hf_nNodes s),
      hf_weight = (hf_weight s)(Suc (hf_nNodes s) := ADDWEIGHTS (hf_weight s x) (hf_weight s y)),
      hf_parent = merged x y (Suc (hf_nNodes s)) (hf_parent s)\<rparr>"
    by (simp add: huff_merge_def p1 p2 merged_def Let_def)
  show "tree_state n T w0 (huff_merge s)"
    unfolding tree_state_def m using M w0 n by auto
  have "size (heap_elems q2) + 2 = size (heap_elems (hf_queue s))"
    using hq.pop_two(1) [OF I two' p1 p2] by simp
  moreover have "snd (heap_push w z q2) = Suc (snd q2)" for w z
    by (simp add: heap_push_def Let_def split: prod.split)
  ultimately show "snd (hf_queue (huff_merge s)) = snd (hf_queue s) - 1"
    by (simp add: m)
qed

lemma huff_tree_state:
  assumes "tree_state n T w0 s"
  shows "tree_state n T w0 (huff_tree s) \<and> \<not> 1 < snd (hf_queue (huff_tree s))"
  unfolding huff_tree_def
  by (rule while_rule [where P = "tree_state n T w0" and r = "measure (\<lambda>s. snd (hf_queue s))"])
    (use assms huff_merge_state in auto)

text \<open>When the loop ends one tree is left, rooted at the last node.\<close>

lemma tree_state_single:
  assumes S: "tree_state n T w0 s" and one: "\<not> 1 < snd (hf_queue s)"
  shows "hf_nNodes s = 2 * n - 1" "forest n T (hf_weight s) (hf_parent s) (2 * n - 1) {2 * n - 1}" "1 \<le> n"
proof -
  obtain R where E: "heap_elems (hf_queue s) = mset_set R"
    and F: "forest n T (hf_weight s) (hf_parent s) (hf_nNodes s) R"
    using S by (auto simp: tree_state_def)
  let ?N = "hf_nNodes s"
  have L: "links n (hf_parent s) ?N R" using F by (simp add: forest_def)
  show n: "1 \<le> n" using L by (simp add: links_def)
  have N: "?N \<in> {1..?N}" using L by (simp add: links_def)
  then have "hf_parent s ?N < 0 \<or> (int ?N < hf_parent s ?N \<and> hf_parent s ?N \<le> int ?N)"
    using L unfolding links_def by blast
  then have NR: "?N \<in> R" using L N unfolding links_def by auto
  have fin: "finite R" by (rule forest_finite [OF F])
  have "card R = snd (hf_queue s)"
    using E size_heap_elems [of "hf_queue s"] by simp
  moreover have "0 < card R" using NR fin by (auto simp: card_gt_0_iff)
  ultimately have "card R = 1" using one by linarith
  then have "R = {?N}" using NR by (metis card_1_singletonE singletonD)
  moreover have "card R + ?N = 2 * n" using L unfolding links_def by blast
  ultimately show N: "hf_nNodes s = 2 * n - 1" by simp
  then show "forest n T (hf_weight s) (hf_parent s) (2 * n - 1) {2 * n - 1}"
    using F \<open>R = {?N}\<close> by (simp only:)
qed

section \<open>The start of a pass\<close>

definition leaf_weights :: "nat \<Rightarrow> (nat \<Rightarrow> nat) \<Rightarrow> (nat \<Rightarrow> nat) \<Rightarrow> bool" where
  "leaf_weights n f w \<longleftrightarrow> (\<forall>i \<in> {1..n}. w i = 256 * f i \<and> 1 \<le> f i)"

lemma huff_init_fold:
  fixes w h0 :: "nat \<Rightarrow> nat" and p0 :: "nat \<Rightarrow> int" and n k :: nat
  assumes "w 0 = 0"
  defines "step \<equiv> \<lambda>i s. s\<lparr>hf_parent := (hf_parent s)(i := -1), hf_queue := heap_push w i (hf_queue s)\<rparr>"
    and "s0 \<equiv> \<lparr>hf_queue = (h0(0 := 0), 0), hf_nNodes = n, hf_weight = w, hf_parent = p0\<rparr>"
  shows "hf_nNodes (fold step [1..<k + 1] s0) = n \<and> hf_weight (fold step [1..<k + 1] s0) = w \<and>
    hf_parent (fold step [1..<k + 1] s0) = (\<lambda>i. if i \<in> {1..k} then -1 else p0 i) \<and>
    heap_inv w (hf_queue (fold step [1..<k + 1] s0)) \<and>
    heap_elems (hf_queue (fold step [1..<k + 1] s0)) = mset_set {1..k}"
proof (induction k)
  case 0
  then show ?case using assms(1) by (auto simp: s0_def heap_inv_def heap_ordered_def)
next
  case (Suc k)
  define S where "S = fold step [1..<k + 1] s0"
  note IH = Suc.IH [folded S_def]
  have e: "fold step [1..<Suc k + 1] s0 = step (Suc k) S" by (simp add: S_def)
  have m: "mset_set {1..Suc k} = add_mset (Suc k) (mset_set {1..k})"
    by (simp add: atLeastAtMostSuc_conv)
  have "hf_parent (step (Suc k) S) = (\<lambda>i. if i \<in> {1..Suc k} then -1 else p0 i)"
    using IH by (auto simp: step_def fun_eq_iff le_Suc_eq)
  then show ?case
    unfolding e m using IH heap_push_correct [of w "hf_queue S" "Suc k"]
    by (simp add: step_def)
qed

lemma forest_start:
  assumes n: "1 \<le> n" and w: "leaf_weights n f w" and T: "(\<Sum>i \<in> {1..n}. f i) < 2 ^ 23"
    and p: "\<And>i. i \<in> {1..n} \<Longrightarrow> par i = -1"
  shows "forest n (\<Sum>i \<in> {1..n}. f i) w par n {1..n}"
proof -
  have links: "links n par n {1..n}"
    using n p by (auto simp: links_def)
  have wd: "wt w i = f i" "dp w i = 0" if "i \<in> {1..n}" for i
    using w that by (auto simp: leaf_weights_def)
  have heavy: "heavy (\<Sum>i \<in> {1..n}. f i) w {1..n} 1"
    using w wd by (auto simp: heavy_def leaf_weights_def intro!: sum.cong)
  have path: "path par i i 0" if "i \<in> {1..n}" for i
    using p [OF that] by (auto intro: path.root)
  have rd: "huff_root par i = i" "huff_depth par i = 0" if "i \<in> {1..n}" for i
    using path_huff_root [OF path [OF that]] path_depth [OF path [OF that]] by simp_all
  have "leaves n par r = {r}" if "r \<in> {1..n}" for r
    using that rd by (auto simp: leaves_def)
  then have "kraft n w par {1..n}"
    using rd wd path by (auto simp: kraft_def)
  then show ?thesis using links heavy T by (auto simp: forest_def)
qed

lemma huff_init_state:
  assumes "1 \<le> n" and "leaf_weights n f w0" and "(\<Sum>i \<in> {1..n}. f i) < 2 ^ 23"
  shows "tree_state n (\<Sum>i \<in> {1..n}. f i) (w0(0 := 0)) (huff_init n h0 w0 p0)"
    "snd (hf_queue (huff_init n h0 w0 p0)) = n"
proof -
  note I = huff_init_fold [of "w0(0 := 0)" n h0 n "p0(0 := -2)", OF fun_upd_same,
      folded huff_init_def [unfolded Let_def]]
  have "leaf_weights n f (w0(0 := 0))" using assms(2) by (auto simp: leaf_weights_def)
  then have "forest n (\<Sum>i \<in> {1..n}. f i) (w0(0 := 0)) (hf_parent (huff_init n h0 w0 p0)) n {1..n}"
    using I by (intro forest_start assms) auto
  then show "tree_state n (\<Sum>i \<in> {1..n}. f i) (w0(0 := 0)) (huff_init n h0 w0 p0)"
    using I by (auto simp: tree_state_def)
  show "snd (hf_queue (huff_init n h0 w0 p0)) = n"
    using I size_heap_elems [of "hf_queue (huff_init n h0 w0 p0)"] by simp
qed

section \<open>A pass\<close>

lemma huff_lens_fold:
  "fst (fold (\<lambda>i (len, tooLong). let j = huff_depth par i
          in (len(i - 1 := j mod 256), tooLong \<or> j > maxLen)) [1..<k + 1] (len0, b)) =
     (\<lambda>i. if i < k then huff_depth par (Suc i) mod 256 else len0 i) \<and>
   (snd (fold (\<lambda>i (len, tooLong). let j = huff_depth par i
          in (len(i - 1 := j mod 256), tooLong \<or> j > maxLen)) [1..<k + 1] (len0, b)) \<longleftrightarrow>
     b \<or> (\<exists>i < k. huff_depth par (Suc i) > maxLen))"
  (is "fst (?F k) = _ \<and> _")
proof (induction k)
  case (Suc k)
  have u: "[1..<Suc k + 1] = [1..<k + 1] @ [Suc k]" by simp
  have e: "?F (Suc k) = (\<lambda>(len, tooLong). let j = huff_depth par (Suc k)
      in (len(Suc k - 1 := j mod 256), tooLong \<or> j > maxLen)) (?F k)"
    by (simp only: u fold_append comp_apply fold_simps)
  obtain len b' where F: "?F k = (len, b')" by fastforce
  show ?case
    unfolding e using Suc.IH unfolding F
    by (auto simp: Let_def fun_eq_iff less_Suc_eq)
qed simp

text \<open>What a pass computes, for leaf weights \<open>256 * f i\<close>.\<close>

definition pass_result :: "nat \<Rightarrow> nat \<Rightarrow> nat \<Rightarrow> (nat \<Rightarrow> nat) \<Rightarrow> bool \<Rightarrow> bool" where
  "pass_result n maxLen T len tooLong \<longleftrightarrow>
     (\<exists>D. fibw D \<le> T \<and> D < 256 \<and> (\<forall>i < n. len i \<le> D \<and> (2 \<le> n \<longrightarrow> 1 \<le> len i)) \<and>
        (\<Sum>i < n. 2 ^ (D - len i)) = (2 :: nat) ^ D) \<and>
     (tooLong \<longleftrightarrow> (\<exists>i < n. len i > maxLen))"

lemma tree_lengths:
  assumes F: "forest n T w par (2 * n - 1) {2 * n - 1}" and n: "1 \<le> n"
    and L: "huff_lens n maxLen par len0 = (len, tooLong)"
  shows "pass_result n maxLen T len tooLong"
proof -
  let ?N = "2 * n - 1"
  obtain M where H: "heavy T w {?N} M" and K: "kraft n w par {?N}" and T: "T < 2 ^ 23"
    using F by (auto simp: forest_def)
  have links: "links n par ?N {?N}" using F by (simp add: forest_def)
  let ?D = "dp w ?N"
  have D: "fibw ?D \<le> T" using H by (auto simp: heavy_def)
  have K': "huff_root par i \<in> {?N} \<and> huff_depth par i \<le> dp w (huff_root par i) \<and>
      path par i (huff_root par i) (huff_depth par i)" if "i \<in> {1..n}" for i
    using K that unfolding kraft_def by blast
  have root: "huff_root par i = ?N" if "i \<in> {1..n}" for i
    using K' [OF that] by blast
  have leaf: "huff_root par i = ?N" "huff_depth par i \<le> ?D" "path par i ?N (huff_depth par i)"
    if "i \<in> {1..n}" for i
    using K' [OF that] unfolding root [OF that] by blast+
  have D256: "?D < 256" by simp
  have len: "len i = huff_depth par (Suc i)" if "i < n" for i
    using huff_lens_fold [of par maxLen n len0 False] L leaf(2) [of "Suc i"] D256 that
    by (simp add: huff_lens_def)
  have tl: "tooLong \<longleftrightarrow> (\<exists>i < n. len i > maxLen)"
    using huff_lens_fold [of par maxLen n len0 False] L len by (auto simp: huff_lens_def)
  have pos: "1 \<le> huff_depth par i" if "2 \<le> n" "i \<in> {1..n}" for i
  proof (rule ccontr)
    assume "\<not> 1 \<le> huff_depth par i"
    then have z: "huff_depth par i = 0" by simp
    have "path par i ?N 0" using leaf(3) [OF that(2)] unfolding z .
    then have "i = ?N" by (auto elim: path_root)
    then show False using that by auto
  qed
  have "leaves n par ?N = {1..n}" using leaf(1) by (auto simp: leaves_def)
  then have "(\<Sum>i \<in> {1..n}. 2 ^ (?D - huff_depth par i)) = (2 :: nat) ^ ?D"
    using K by (simp add: kraft_def)
  also have "(\<Sum>i \<in> {1..n}. 2 ^ (?D - huff_depth par i)) = (\<Sum>i < n. (2 :: nat) ^ (?D - len i))"
    by (rule sum.reindex_bij_witness [of _ Suc "\<lambda>i. i - 1"]) (auto simp: len)
  finally have "(\<Sum>i < n. (2 :: nat) ^ (?D - len i)) = 2 ^ ?D" .
  then show ?thesis
    unfolding pass_result_def using D D256 leaf(2) pos len tl by (intro conjI exI [of _ ?D]) auto
qed

lemma huff_pass_correct:
  assumes n: "1 \<le> n" "n \<le> 258" and w: "leaf_weights n f (hl_weight l)"
    and T: "(\<Sum>i \<in> {1..n}. f i) < 2 ^ 23"
  shows "leaf_weights n f (hl_weight (huff_pass n maxLen l))"
    "pass_result n maxLen (\<Sum>i \<in> {1..n}. f i) (hl_len (huff_pass n maxLen l)) (hl_tooLong (huff_pass n maxLen l))"
    "hl_failed (huff_pass n maxLen l) = hl_failed l"
proof -
  define s1 where "s1 = huff_init n (hl_heap l) (hl_weight l) (hl_parent l)"
  define s2 where "s2 = huff_tree s1"
  obtain len tooLong where L: "huff_lens n maxLen (hf_parent s2) (hl_len l) = (len, tooLong)"
    by fastforce
  note S1 = huff_init_state [OF n(1) w T, of "hl_heap l" "hl_parent l", folded s1_def]
  note S2 = huff_tree_state [OF S1(1), folded s2_def]
  note one = tree_state_single [OF conjunct1 [OF S2] conjunct2 [OF S2]]
  have p: "huff_pass n maxLen l = \<lparr>hl_weight = hf_weight s2, hl_parent = hf_parent s2,
      hl_heap = fst (hf_queue s2), hl_len = len, hl_tooLong = tooLong, hl_failed = hl_failed l\<rparr>"
  proof -
    have "hf_nNodes s2 < 516" "snd (hf_queue s1) < 260" using n S1(2) one(1) by linarith+
    then show ?thesis by (simp add: huff_pass_def L Let_def flip: s1_def s2_def)
  qed
  have "hf_weight s2 i = hl_weight l i" if "i \<in> {1..n}" for i
    using S2 that by (simp add: tree_state_def)
  then show "leaf_weights n f (hl_weight (huff_pass n maxLen l))"
    using w by (simp add: p leaf_weights_def)
  show "pass_result n maxLen (\<Sum>i \<in> {1..n}. f i) (hl_len (huff_pass n maxLen l)) (hl_tooLong (huff_pass n maxLen l))"
    using tree_lengths [OF one(2) n(1) L] by (simp add: p)
  show "hl_failed (huff_pass n maxLen l) = hl_failed l" by (simp add: p)
qed

section \<open>Scaling, and the end of the outer loop\<close>

lemma huff_scale_fold:
  fixes w :: "nat \<Rightarrow> nat"
  shows "fold (\<lambda>i weight. let j = drop_bit 8 (weight i); j = 1 + (j div 2) in weight(i := push_bit 8 j))
     [1..<k + 1] w = (\<lambda>i. if i \<in> {1..k} then 256 * (1 + w i div 256 div 2) else w i)"
proof (induction k)
  case (Suc k)
  have e: "[1..<Suc k + 1] = [1..<k + 1] @ [Suc k]" by simp
  show ?case
    unfolding e fold_append comp_apply Suc.IH
    by (auto simp: Let_def fun_eq_iff push_bit_eq_mult drop_bit_eq_div)
qed simp

lemma huff_scale_weights:
  "leaf_weights n f (hl_weight l) \<Longrightarrow>
     leaf_weights n (\<lambda>i. 1 + f i div 2) (hl_weight (huff_scale n l))"
  using huff_scale_fold [of n "hl_weight l"] by (simp add: huff_scale_def leaf_weights_def)

lemma scale_less:
  assumes "\<And>i. i \<in> {1..n} \<Longrightarrow> 1 \<le> f i" and "2 * n < (\<Sum>i \<in> {1..n}. f i)"
  shows "(\<Sum>i \<in> {1..n}. 1 + f i div 2) < (\<Sum>i \<in> {1..n :: nat}. f i)"
proof -
  obtain i where i: "i \<in> {1..n}" "2 < f i"
    using assms(2) sum_bounded_above [of "{1..n}" f 2] by (force simp: not_less)
  show ?thesis
  proof (rule sum_strict_mono_ex1)
    show "\<forall>j \<in> {1..n}. 1 + f j div 2 \<le> f j"
    proof
      fix j assume "j \<in> {1..n}"
      from assms(1) [OF this] show "1 + f j div 2 \<le> f j" by linarith
    qed
    show "\<exists>j \<in> {1..n}. 1 + f j div 2 < f j"
      using i by (intro bexI [of _ i]) linarith+
  qed simp
qed

definition loop_inv :: "nat \<Rightarrow> nat \<Rightarrow> int option \<Rightarrow> huff_loop \<Rightarrow> bool" where
  "loop_inv n maxLen failed l \<longleftrightarrow> hl_failed l = failed \<and>
     (\<exists>f. leaf_weights n f (hl_weight l) \<and> (\<Sum>i \<in> {1..n}. f i) < 2 ^ 23 \<and>
        pass_result n maxLen (\<Sum>i \<in> {1..n}. f i) (hl_len l) (hl_tooLong l))"

lemma loop_step:
  assumes n: "1 \<le> n" "n \<le> 258" and small: "2 * n < fibw (Suc maxLen)"
    and I: "loop_inv n maxLen failed l" and long: "hl_tooLong l"
  defines "l' \<equiv> huff_pass n maxLen (huff_scale n l)"
  shows "loop_inv n maxLen failed l'"
    "(\<Sum>i \<in> {1..n}. hl_weight l' i div 256) < (\<Sum>i \<in> {1..n}. hl_weight l i div 256)"
proof -
  obtain f where w: "leaf_weights n f (hl_weight l)" and T: "(\<Sum>i \<in> {1..n}. f i) < 2 ^ 23"
    and P: "pass_result n maxLen (\<Sum>i \<in> {1..n}. f i) (hl_len l) (hl_tooLong l)"
    using I by (auto simp: loop_inv_def)
  let ?g = "\<lambda>i. 1 + f i div 2"
  obtain D i where "fibw D \<le> (\<Sum>i \<in> {1..n}. f i)" "maxLen < hl_len l i" "hl_len l i \<le> D"
    using P long by (auto simp: pass_result_def)
  then have "2 * n < (\<Sum>i \<in> {1..n}. f i)"
    using small fibw_mono [of "Suc maxLen" D] by linarith
  then have less: "(\<Sum>i \<in> {1..n}. ?g i) < (\<Sum>i \<in> {1..n}. f i)"
    using w by (intro scale_less) (auto simp: leaf_weights_def)
  then have T': "(\<Sum>i \<in> {1..n}. ?g i) < 2 ^ 23" using T by (rule less_trans)
  note C = huff_pass_correct [OF n huff_scale_weights [OF w] T', of maxLen, folded l'_def]
  have "hl_failed (huff_scale n l) = hl_failed l" by (simp add: huff_scale_def)
  then show "loop_inv n maxLen failed l'"
    using C T' I by (auto simp: loop_inv_def)
  have "(\<Sum>i \<in> {1..n}. hl_weight l' i div 256) = (\<Sum>i \<in> {1..n}. ?g i)"
    by (rule sum.cong) (use C(1) in \<open>auto simp: leaf_weights_def\<close>)
  moreover have "(\<Sum>i \<in> {1..n}. hl_weight l i div 256) = (\<Sum>i \<in> {1..n}. f i)"
    by (rule sum.cong) (use w in \<open>auto simp: leaf_weights_def\<close>)
  ultimately show "(\<Sum>i \<in> {1..n}. hl_weight l' i div 256) < (\<Sum>i \<in> {1..n}. hl_weight l i div 256)"
    using less by simp
qed

section \<open>The code lengths\<close>

lemma kraft_rescale:
  fixes l :: "nat \<Rightarrow> nat"
  assumes "\<And>i. i < n \<Longrightarrow> l i \<le> D" "\<And>i. i < n \<Longrightarrow> l i \<le> m"
    and "(\<Sum>i < n. 2 ^ (D - l i)) = (2 :: nat) ^ D"
  shows "(\<Sum>i < n. 2 ^ (m - l i)) = (2 :: nat) ^ m"
proof (cases "D \<le> m")
  case True
  have "(\<Sum>i < n. 2 ^ (m - l i)) = (\<Sum>i < n. 2 ^ (m - D) * (2 :: nat) ^ (D - l i))"
    by (rule sum.cong) (use assms(1) True in \<open>auto simp flip: power_add\<close>)
  also have "\<dots> = 2 ^ (m - D) * 2 ^ D" by (simp only: assms(3) flip: sum_distrib_left)
  finally show ?thesis using True by (simp flip: power_add)
next
  case False
  have "2 ^ (D - m) * (\<Sum>i < n. 2 ^ (m - l i)) = (\<Sum>i < n. (2 :: nat) ^ (D - l i))"
    unfolding sum_distrib_left
    by (rule sum.cong) (use assms(2) False in \<open>auto simp flip: power_add\<close>)
  also have "\<dots> = 2 ^ (D - m) * 2 ^ m" using assms(3) False by (simp flip: power_add)
  finally show ?thesis by simp
qed

lemma huff_weights_eq:
  "huff_weights n freq w0 = (\<lambda>i. if i \<in> {1..n} then 256 * max 1 (freq (i - 1)) else w0 i)"
proof (induction n)
  case (Suc n)
  then show ?case
    by (auto simp: huff_weights_def fun_eq_iff push_bit_eq_mult le_Suc_eq)
qed (simp add: huff_weights_def)

definition code_lengths :: "nat \<Rightarrow> nat \<Rightarrow> (nat \<Rightarrow> nat) \<Rightarrow> bool" where
  "code_lengths n maxLen len \<longleftrightarrow> (\<forall>i < n. 1 \<le> len i \<and> len i \<le> maxLen) \<and>
     (\<Sum>i < n. 2 ^ (maxLen - len i)) = (2 :: nat) ^ maxLen"

lemma loop_inv_start:
  assumes "1 \<le> n" "n \<le> 258" and "(\<Sum>i < n. max 1 (freq i)) < 2 ^ 23"
    and "hl_failed l0 = failed"
  shows "loop_inv n maxLen failed (huff_pass n maxLen
    (l0\<lparr>hl_weight := huff_weights n freq (hl_weight l0)\<rparr>))"
proof -
  let ?l = "l0\<lparr>hl_weight := huff_weights n freq (hl_weight l0)\<rparr>"
  let ?f = "\<lambda>i. max 1 (freq (i - 1))"
  have w: "leaf_weights n ?f (hl_weight ?l)"
    by (auto simp: leaf_weights_def huff_weights_eq)
  have "(\<Sum>i \<in> {1..n}. ?f i) = (\<Sum>i < n. max 1 (freq i))"
    by (rule sum.reindex_bij_witness [of _ Suc "\<lambda>i. i - 1"]) auto
  then have T: "(\<Sum>i \<in> {1..n}. ?f i) < 2 ^ 23" using assms(3) by simp
  show ?thesis
    unfolding loop_inv_def using huff_pass_correct [OF assms(1,2) w T] T assms(4) by auto
qed

lemma hbMakeCodeLengths_loop_inv:
  assumes n: "1 \<le> n" "n \<le> 258" and small: "2 * n < fibw (Suc maxLen)"
    and T: "(\<Sum>i < n. max 1 (freq i)) < 2 ^ 23"
  shows "loop_inv n maxLen (hl_failed l0) (hbMakeCodeLengths_loop n maxLen freq l0) \<and>
    \<not> hl_tooLong (hbMakeCodeLengths_loop n maxLen freq l0)"
  unfolding hbMakeCodeLengths_loop_def
proof (rule while_rule [where P = "loop_inv n maxLen (hl_failed l0)"
      and r = "measure (\<lambda>l. \<Sum>i \<in> {1..n}. hl_weight l i div 256)"])
  show "loop_inv n maxLen (hl_failed l0) (huff_pass n maxLen
    (l0\<lparr>hl_weight := huff_weights n freq (hl_weight l0)\<rparr>))"
    by (rule loop_inv_start [OF n T refl])
qed (use loop_step [OF n small] in auto)

text \<open>
  The Fibonacci bound on the weight of a deep tree is what makes the outer loop end: with
  \<open>2 * alphaSize < fibw (maxLen + 1)\<close> a code longer than \<open>maxLen\<close> needs a total weight that the
  scaling still decreases.
\<close>

lemma hbMakeCodeLengths_correct:
  assumes n: "2 \<le> n" "n \<le> 258" and small: "2 * n < fibw (Suc maxLen)"
    and T: "(\<Sum>i < n. max 1 (freq i)) < 2 ^ 23"
    and R: "BZ2_hbMakeCodeLengths len freq n maxLen failed = (len', failed')"
  shows "code_lengths n maxLen len'" "failed' = failed"
proof -
  let ?l = "hbMakeCodeLengths_loop n maxLen freq (huff_arrays len failed)"
  have n1: "1 \<le> n" using n by simp
  have I: "loop_inv n maxLen failed ?l" "\<not> hl_tooLong ?l"
    using hbMakeCodeLengths_loop_inv [OF n1 n(2) small T, of "huff_arrays len failed"]
    by (simp_all add: huff_arrays_def)
  have R': "len' = hl_len ?l" "failed' = hl_failed ?l"
    using R by (simp_all add: BZ2_hbMakeCodeLengths_def Let_def)
  show "failed' = failed" using I R' by (simp add: loop_inv_def)
  obtain D where D: "\<forall>i < n. len' i \<le> D \<and> 1 \<le> len' i" "(\<Sum>i < n. 2 ^ (D - len' i)) = (2 :: nat) ^ D"
    and m: "\<forall>i < n. len' i \<le> maxLen"
    using I n R' unfolding loop_inv_def pass_result_def by (metis not_less)
  have "(\<Sum>i < n. 2 ^ (maxLen - len' i)) = (2 :: nat) ^ maxLen"
    by (rule kraft_rescale [of n len' D]) (use D m in auto)
  then show "code_lengths n maxLen len'" using D m by (simp add: code_lengths_def)
qed

lemma hbMakeCodeLengths_17:
  assumes "2 \<le> n" "n \<le> 258" and "(\<Sum>i < n. max 1 (freq i)) < 2 ^ 23"
    and "BZ2_hbMakeCodeLengths len freq n 17 failed = (len', failed')"
  shows "code_lengths n 17 len'" "failed' = failed"
proof -
  have "Suc 17 = 18" by simp
  then have small: "2 * n < fibw (Suc 17)" using assms(2) by (simp only: fibw_18)
  show "code_lengths n 17 len'" "failed' = failed"
    using hbMakeCodeLengths_correct [OF assms(1,2) small assms(3,4)] by simp_all
qed

section \<open>Properties\<close>

text \<open>C7: for every alphabet of 2 to 258 symbols and every table of frequencies whose total is
  below \<open>2 ^ 23\<close> (a block has at most 900000 symbols), \<open>BZ2_hbMakeCodeLengths\<close> with the limit
  of 17 the compressor passes ends, gives every symbol a length between 1 and 17, fills the code space
  exactly (Kraft equality), and trips neither assertion 2001 nor 2002.\<close>

theorem make_code_lengths_complete:
  assumes "2 \<le> n" "n \<le> 258" and "(\<Sum>i < n. max 1 (freq i)) < 2 ^ 23"
  shows "(\<forall>i < n. fst (BZ2_hbMakeCodeLengths len freq n 17 failed) i \<in> {1..17}) \<and>
    (\<Sum>i < n. 2 ^ (17 - fst (BZ2_hbMakeCodeLengths len freq n 17 failed) i)) = (2 :: nat) ^ 17 \<and>
    snd (BZ2_hbMakeCodeLengths len freq n 17 failed) = failed"
  using hbMakeCodeLengths_17 [OF assms prod.collapse [symmetric]] by (auto simp: code_lengths_def)

theorem make_code_lengths_complete_witness:
  "fst (BZ2_hbMakeCodeLengths (\<lambda>_. 0) (\<lambda>i. i * i) 5 17 None) 3 \<in> {1..17} \<and>
    (\<Sum>i < 5. 2 ^ (17 - fst (BZ2_hbMakeCodeLengths (\<lambda>_. 0) (\<lambda>i. i * i) 5 17 None) i)) = (2 :: nat) ^ 17 \<and>
    snd (BZ2_hbMakeCodeLengths (\<lambda>_. 0) (\<lambda>i. i * i) 5 17 None) = None"
proof -
  have "2 \<le> (5 :: nat)" "5 \<le> (258 :: nat)" "(\<Sum>i < 5. max 1 (i * i)) < (2 :: nat) ^ 23"
    by (simp_all add: lessThan_nat_numeral)
  note W = make_code_lengths_complete [OF this, of "\<lambda>_. 0" None]
  then show ?thesis by (meson less_numeral_extra(1) numeral_less_iff semiring_norm)
qed

end
