(* ===== verification/HuffCodes.thy ===== *)
theory HuffCodes
  imports Prelude
begin

text \<open>
  The canonical code of \<^verbatim>\<open>src/huffman.c\<close>: \<open>BZ2_hbAssignCodes\<close>, which the compressor uses, and
  \<open>BZ2_hbCreateDecodeTables\<close>, from which the decompressor decodes. \<open>hd_walk\<close> is the
  length-by-length search that \<open>GET_MTF_VAL\<close> makes in those tables, on bits that are already
  there. The lemmas give the closed form of every table for any lengths, not only those of a
  complete code: a decoder meets whatever lengths a file holds.
\<close>

section \<open>The routines\<close>

definition BZ2_hbAssignCodes ::
  "(nat \<Rightarrow> nat) \<Rightarrow> (nat \<Rightarrow> nat) \<Rightarrow> nat \<Rightarrow> nat \<Rightarrow> nat \<Rightarrow> (nat \<Rightarrow> nat)" where
  "BZ2_hbAssignCodes code len minLen maxLen alphaSize =
     fst (fold (\<lambda>n (code, vec).
                  let (code, vec) =
                    fold (\<lambda>i (code, vec). if len i = n then (code(i := vec), vec + 1) else (code, vec))
                      [0..<alphaSize] (code, vec)
                  in (code, push_bit 1 vec))
            [minLen..<maxLen + 1] (code, 0))"

definition hb_perm :: "(nat \<Rightarrow> nat) \<Rightarrow> nat \<Rightarrow> nat \<Rightarrow> nat \<Rightarrow> (nat \<Rightarrow> nat) \<Rightarrow> (nat \<Rightarrow> nat)" where
  "hb_perm len minLen maxLen alphaSize perm =
     fst (fold (\<lambda>i. fold (\<lambda>j (perm, pp). if len j = i then (perm(pp := j), pp + 1) else (perm, pp))
                      [0..<alphaSize])
            [minLen..<maxLen + 1] (perm, 0 :: nat))"

definition hb_base0 :: "(nat \<Rightarrow> nat) \<Rightarrow> nat \<Rightarrow> (nat \<Rightarrow> int) \<Rightarrow> (nat \<Rightarrow> int)" where
  "hb_base0 len alphaSize base =
     (let base = fold (\<lambda>i base. base(i := 0)) [0..<BZ_MAX_CODE_LEN] base;
          base = fold (\<lambda>i base. base(len i + 1 := base (len i + 1) + 1)) [0..<alphaSize] base
      in fold (\<lambda>i base. base(i := base i + base (i - 1))) [1..<BZ_MAX_CODE_LEN] base)"

definition hb_limit ::
  "nat \<Rightarrow> nat \<Rightarrow> (nat \<Rightarrow> int) \<Rightarrow> (nat \<Rightarrow> int) \<Rightarrow> (nat \<Rightarrow> int)" where
  "hb_limit minLen maxLen base limit =
     (let limit = fold (\<lambda>i limit. limit(i := 0)) [0..<BZ_MAX_CODE_LEN] limit
      in fst (fold (\<lambda>i (limit, vec). let vec = vec + (base (i + 1) - base i)
                                     in (limit(i := vec - 1), push_bit 1 vec))
                [minLen..<maxLen + 1] (limit, 0)))"

definition hb_base1 :: "nat \<Rightarrow> nat \<Rightarrow> (nat \<Rightarrow> int) \<Rightarrow> (nat \<Rightarrow> int) \<Rightarrow> (nat \<Rightarrow> int)" where
  "hb_base1 minLen maxLen limit base =
     fold (\<lambda>i base. base(i := push_bit 1 (limit (i - 1) + 1) - base i)) [minLen + 1..<maxLen + 1] base"

definition BZ2_hbCreateDecodeTables ::
  "(nat \<Rightarrow> int) \<times> (nat \<Rightarrow> int) \<times> (nat \<Rightarrow> nat) \<Rightarrow> (nat \<Rightarrow> nat) \<Rightarrow> nat \<Rightarrow> nat \<Rightarrow> nat \<Rightarrow>
     (nat \<Rightarrow> int) \<times> (nat \<Rightarrow> int) \<times> (nat \<Rightarrow> nat)" where
  "BZ2_hbCreateDecodeTables tables len minLen maxLen alphaSize =
     (let (limit, base, perm) = tables;
          perm = hb_perm len minLen maxLen alphaSize perm;
          base = hb_base0 len alphaSize base;
          limit = hb_limit minLen maxLen base limit;
          base = hb_base1 minLen maxLen limit base
      in (limit, base, perm))"

text \<open>
  \<open>hd_walk limit n v bs\<close>: \<open>v\<close> is the value of the \<open>n\<close> bits read so far. The result is the
  length and the value at which the search stops, \<open>None\<close> when a length above 20 is reached
  (a data error in the code) or the bits end.
\<close>

fun hd_walk :: "(nat \<Rightarrow> int) \<Rightarrow> nat \<Rightarrow> int \<Rightarrow> bool list \<Rightarrow> (nat \<times> int) option" where
  "hd_walk limit n v bs =
     (if n > 20 then None
      else if v \<le> limit n then Some (n, v)
      else case bs of [] \<Rightarrow> None | b # bs' \<Rightarrow> hd_walk limit (n + 1) (2 * v + of_bool b) bs')"

declare hd_walk.simps [simp del]

section \<open>The canonical code\<close>

definition cnt :: "(nat \<Rightarrow> nat) \<Rightarrow> nat \<Rightarrow> nat \<Rightarrow> nat" where
  "cnt len n l = card {i. i < n \<and> len i = l}"

definition below :: "(nat \<Rightarrow> nat) \<Rightarrow> nat \<Rightarrow> nat \<Rightarrow> nat" where
  "below len n l = card {i. i < n \<and> len i < l}"

primrec fcode :: "(nat \<Rightarrow> nat) \<Rightarrow> nat \<Rightarrow> nat \<Rightarrow> nat" where
  "fcode len n 0 = 0"
| "fcode len n (Suc l) = 2 * (fcode len n l + cnt len n l)"

text \<open>The code of symbol \<open>i\<close>, and its place among the symbols sorted by length.\<close>

definition ccode :: "(nat \<Rightarrow> nat) \<Rightarrow> nat \<Rightarrow> nat \<Rightarrow> nat" where
  "ccode len n i = fcode len n (len i) + cnt len i (len i)"

definition cpos :: "(nat \<Rightarrow> nat) \<Rightarrow> nat \<Rightarrow> nat \<Rightarrow> nat" where
  "cpos len n i = below len n (len i) + cnt len i (len i)"

lemma cnt_0 [simp]: "cnt len 0 l = 0"
  by (simp add: cnt_def)

lemma cnt_Suc [simp]: "cnt len (Suc n) l = cnt len n l + of_bool (len n = l)"
proof -
  have "{i. i < Suc n \<and> len i = l} = (if len n = l then insert n {i. i < n \<and> len i = l} else {i. i < n \<and> len i = l})"
    by (auto simp: less_Suc_eq)
  then show ?thesis by (simp add: cnt_def)
qed

lemma cnt_mono: "m \<le> n \<Longrightarrow> cnt len m l \<le> cnt len n l"
  unfolding cnt_def by (rule card_mono) auto

lemma cnt_less: "i < n \<Longrightarrow> cnt len i (len i) < cnt len n (len i)"
  using cnt_mono [of "Suc i" n len "len i"] by simp

lemma below_0 [simp]: "below len n 0 = 0"
  by (simp add: below_def)

lemma below_Suc [simp]: "below len n (Suc l) = below len n l + cnt len n l"
proof -
  have "{i. i < n \<and> len i < Suc l} = {i. i < n \<and> len i < l} \<union> {i. i < n \<and> len i = l}" by auto
  moreover have "{i. i < n \<and> len i < l} \<inter> {i. i < n \<and> len i = l} = {}" by auto
  ultimately show ?thesis by (simp add: below_def cnt_def card_Un_disjoint)
qed

lemma below_le: "below len n l \<le> n"
proof -
  have "card {i. i < n \<and> len i < l} \<le> card {..<n}" by (rule card_mono) auto
  then show ?thesis by (simp add: below_def)
qed

lemma below_cnt_le: "below len n l + cnt len n l \<le> n"
  using below_le [of len n "Suc l"] by simp

lemma below_all: "(\<And>i. i < n \<Longrightarrow> len i < l) \<Longrightarrow> below len n l = n"
proof -
  assume "\<And>i. i < n \<Longrightarrow> len i < l"
  then have "{i. i < n \<and> len i < l} = {..<n}" by auto
  then show ?thesis by (simp add: below_def)
qed

lemma cpos_less: "i < n \<Longrightarrow> cpos len n i < n"
  using cnt_less [of i n len] below_cnt_le [of len n "len i"] by (simp add: cpos_def)

lemma no_short:
  assumes "\<And>i. i < n \<Longrightarrow> m \<le> len i"
  shows "l < m \<Longrightarrow> cnt len n l = 0" "l \<le> m \<Longrightarrow> below len n l = 0" "l \<le> m \<Longrightarrow> fcode len n l = 0"
proof -
  have c: "cnt len n l = 0" if "l < m" for l
    using assms that by (force simp: cnt_def)
  then show "l < m \<Longrightarrow> cnt len n l = 0" .
  show "l \<le> m \<Longrightarrow> below len n l = 0" by (induction l) (auto simp: c)
  show "l \<le> m \<Longrightarrow> fcode len n l = 0" by (induction l) (auto simp: c)
qed

lemma fcode_step: "l \<le> l' \<Longrightarrow> 2 ^ (l' - l) * fcode len n l \<le> fcode len n l'"
proof (induction l')
  case (Suc l')
  then show ?case by (cases "l = Suc l'") (auto simp: Suc_diff_le)
qed simp

lemma fcode_after: "l < l' \<Longrightarrow> 2 ^ (l' - l) * (fcode len n l + cnt len n l) \<le> fcode len n l'"
proof -
  assume "l < l'"
  then have "2 ^ (l' - Suc l) * fcode len n (Suc l) \<le> fcode len n l'" by (intro fcode_step) simp
  moreover have "l' - l = Suc (l' - Suc l)" using \<open>l < l'\<close> by simp
  ultimately show ?thesis by (simp add: algebra_simps)
qed

section \<open>Closed forms\<close>

lemma assign_inner:
  "fold (\<lambda>i (code, vec). if len i = k then (code(i := vec), vec + 1) else (code, vec)) [0..<m] (code, vec) =
     (\<lambda>i. if i < m \<and> len i = k then vec + cnt len i k else code i, vec + cnt len m k)"
  by (induction m) (auto simp: fun_eq_iff less_Suc_eq)

lemma assign_outer:
  assumes "fcode len n minLen = 0"
  shows "fold (\<lambda>k (code, vec).
      let (code, vec) =
        fold (\<lambda>i (code, vec). if len i = k then (code(i := vec), vec + 1) else (code, vec)) [0..<n] (code, vec)
      in (code, push_bit 1 vec)) [minLen..<minLen + d] (code, 0) =
    (\<lambda>i. if i < n \<and> minLen \<le> len i \<and> len i < minLen + d then ccode len n i else code i,
     fcode len n (minLen + d))"
  unfolding assign_inner Let_def prod.case
proof (induction d)
  case (Suc d)
  then show ?case
    by (auto simp: fun_eq_iff ccode_def push_bit_eq_mult less_Suc_eq)
qed (use assms in auto)

lemma AssignCodes_eq:
  assumes "\<And>i. i < n \<Longrightarrow> minLen \<le> len i \<and> len i \<le> maxLen"
  shows "BZ2_hbAssignCodes code len minLen maxLen n = (\<lambda>i. if i < n then ccode len n i else code i)"
proof (cases "minLen \<le> maxLen")
  case True
  define d where "d = maxLen + 1 - minLen"
  have m: "maxLen + 1 = minLen + d" using True by (simp add: d_def)
  have "fcode len n minLen = 0" by (rule no_short(3) [where m = minLen]) (use assms in auto)
  note A = assign_outer [OF this, of d code]
  show ?thesis
    unfolding BZ2_hbAssignCodes_def m A
    by (auto simp: fun_eq_iff) (use assms m in force)+
next
  case False
  then have "n = 0" using assms [of 0] by fastforce
  with False show ?thesis by (simp add: BZ2_hbAssignCodes_def)
qed

lemma perm_inner:
  assumes "fold (\<lambda>j (perm, pp). if len j = i then (perm(pp := j), pp + 1) else (perm, pp)) [0..<m] (perm, pp) =
    (perm', pp')"
  shows "pp' = pp + cnt len m i \<and> (\<forall>p < pp. perm' p = perm p) \<and>
    (\<forall>j < m. len j = i \<longrightarrow> perm' (pp + cnt len j i) = j)"
  using assms
proof (induction m arbitrary: perm' pp')
  case (Suc m)
  obtain q k where q: "fold (\<lambda>j (perm, pp). if len j = i then (perm(pp := j), pp + 1) else (perm, pp))
      [0..<m] (perm, pp) = (q, k)" by fastforce
  note IH = Suc.IH [OF q]
  have less: "cnt len j (len m) \<noteq> cnt len m (len m)" if "j < m" "len j = len m" for j
    using cnt_less [of j m len] that by simp
  show ?case using Suc.prems q IH by (auto simp: less_Suc_eq split: if_splits dest: less)
qed simp

lemma perm_outer:
  assumes "below len n minLen = 0"
    and "fold (\<lambda>i. fold (\<lambda>j (perm, pp). if len j = i then (perm(pp := j), pp + 1) else (perm, pp)) [0..<n])
      [minLen..<minLen + d] (perm, 0) = (perm', pp')"
  shows "pp' = below len n (minLen + d) \<and>
    (\<forall>j < n. minLen \<le> len j \<and> len j < minLen + d \<longrightarrow> perm' (cpos len n j) = j)"
  using assms(2)
proof (induction d arbitrary: perm' pp')
  case (Suc d)
  obtain q k where q: "fold (\<lambda>i. fold (\<lambda>j (perm, pp). if len j = i then (perm(pp := j), pp + 1) else (perm, pp))
      [0..<n]) [minLen..<minLen + d] (perm, 0) = (q, k)" by fastforce
  note IH = Suc.IH [OF q]
  have f: "fold (\<lambda>j (perm, pp). if len j = minLen + d then (perm(pp := j), pp + 1) else (perm, pp)) [0..<n] (q, k) =
      (perm', pp')"
    using Suc.prems q by simp
  have le: "cpos len n j < below len n (minLen + d)" if j: "j < n" "len j < minLen + d" for j
  proof -
    have "cpos len n j < below len n (Suc (len j))" using cnt_less [OF j(1), of len] by (simp add: cpos_def)
    moreover have "below len n (Suc (len j)) \<le> below len n (minLen + d)"
      unfolding below_def by (rule card_mono) (use j in auto)
    ultimately show ?thesis by simp
  qed
  show ?case
    using perm_inner [OF f] IH le by (auto simp: less_Suc_eq cpos_def)
qed (use assms(1) in auto)

lemma hb_perm_eq:
  assumes "\<And>i. i < n \<Longrightarrow> minLen \<le> len i \<and> len i \<le> maxLen" and "i < n"
  shows "hb_perm len minLen maxLen n perm (cpos len n i) = i"
proof -
  define d where "d = maxLen + 1 - minLen"
  have m: "maxLen + 1 = minLen + d" using assms(1) [OF assms(2)] by (simp add: d_def)
  have b: "below len n minLen = 0" by (rule no_short(2) [where m = minLen]) (use assms(1) in auto)
  obtain q k where q: "fold (\<lambda>i. fold (\<lambda>j (perm, pp). if len j = i then (perm(pp := j), pp + 1) else (perm, pp))
      [0..<n]) [minLen..<minLen + d] (perm, 0) = (q, k)" by fastforce
  show ?thesis
    unfolding hb_perm_def m q using perm_outer [OF b q] assms(1) [OF assms(2)] assms(2) m by force
qed

text \<open>\<open>cpos\<close> is a permutation, so \<open>hb_perm\<close> yields a symbol at every place below \<open>n\<close>.\<close>

lemma cpos_inj: "inj_on (cpos len n) {..<n}"
proof -
  have "hb_perm len 0 (Max (len ` {..<n})) n id (cpos len n i) = i" if "i < n" for i
    by (rule hb_perm_eq [OF _ that]) (auto intro!: Max_ge)
  then show ?thesis by (intro inj_on_inverseI) (simp only: lessThan_iff)
qed

lemma cpos_surj: "p < n \<Longrightarrow> \<exists>i < n. cpos len n i = p"
proof -
  assume "p < n"
  have "cpos len n ` {..<n} = {..<n}"
    by (rule card_subset_eq) (use cpos_less in \<open>auto simp: card_image cpos_inj\<close>)
  then show ?thesis using \<open>p < n\<close> by (metis imageE lessThan_iff)
qed

lemma fold_zero: "fold (\<lambda>i b. b(i := 0)) [0..<m] b = (\<lambda>i. if i < m then 0 else b i :: int)"
  by (induction m) (auto simp: fun_eq_iff less_Suc_eq)

lemma fold_count:
  "fold (\<lambda>i b. b(len i + 1 := b (len i + 1) + 1)) [0..<m] b =
     (\<lambda>i. b i + (if i = 0 then 0 else int (cnt len m (i - 1))))"
  by (induction m) (auto simp: fun_eq_iff)

lemma fold_prefix_sums:
  "fold (\<lambda>i b. b(i := b i + b (i - 1))) [1..<Suc m] b =
     (\<lambda>i. if i \<le> m then \<Sum>j \<le> i. b j else b i :: int)"
proof (induction m)
  case (Suc m)
  have u: "[1..<Suc (Suc m)] = [1..<Suc m] @ [Suc m]" by simp
  show ?case
    unfolding u fold_append comp_apply Suc.IH by (auto simp: fun_eq_iff le_Suc_eq)
qed (auto simp: fun_eq_iff)

lemma sum_cnt: "(\<Sum>j \<le> l. if j = 0 then 0 else int (cnt len n (j - 1))) = int (below len n l)"
  by (induction l) auto

lemma hb_base0_eq:
  "hb_base0 len n base i = (if i < BZ_MAX_CODE_LEN then int (below len n i) else
     base i + int (cnt len n (i - 1)))"
proof -
  have e: "[1..<BZ_MAX_CODE_LEN] = [1..<Suc 22]" by simp
  have "(\<Sum>j \<le> i. (if j < 23 then 0 else base j) + (if j = 0 then 0 else int (cnt len n (j - 1)))) =
      int (below len n i)" if "i < 23"
  proof -
    have "(\<Sum>j \<le> i. (if j < 23 then 0 else base j) + (if j = 0 then 0 else int (cnt len n (j - 1)))) =
      (\<Sum>j \<le> i. if j = 0 then 0 else int (cnt len n (j - 1)))"
      by (rule sum.cong) (use that in auto)
    then show ?thesis by (simp only: sum_cnt)
  qed
  then show ?thesis
    unfolding hb_base0_def Let_def fold_zero fold_count e fold_prefix_sums by auto
qed

lemma limit_fold:
  assumes "fcode len n minLen = 0" and "\<And>i. i < minLen + d \<Longrightarrow> base (i + 1) - base i = int (cnt len n i)"
  shows "fold (\<lambda>i (limit, vec). let vec = vec + (base (i + 1) - base i)
                                in (limit(i := vec - 1), push_bit 1 vec)) [minLen..<minLen + d] (limit, 0) =
    (\<lambda>i. if minLen \<le> i \<and> i < minLen + d then int (fcode len n i + cnt len n i) - 1 else limit i,
     int (fcode len n (minLen + d)))"
  using assms(2)
proof (induction d)
  case (Suc d)
  have "base (Suc (minLen + d)) - base (minLen + d) = int (cnt len n (minLen + d))"
    using Suc.prems [of "minLen + d"] by simp
  with Suc.IH Suc.prems show ?case
    by (auto simp: fun_eq_iff Let_def push_bit_eq_mult less_Suc_eq algebra_simps)
qed (use assms(1) in auto)

text \<open>What the tables hold, for lengths between \<open>minLen\<close> and \<open>maxLen \<le> 21\<close>.\<close>

definition decode_tables ::
  "(nat \<Rightarrow> nat) \<Rightarrow> nat \<Rightarrow> nat \<Rightarrow> nat \<Rightarrow> (nat \<Rightarrow> int) \<Rightarrow> (nat \<Rightarrow> int) \<Rightarrow> (nat \<Rightarrow> nat) \<Rightarrow> bool" where
  "decode_tables len n minLen maxLen limit base perm \<longleftrightarrow>
     (\<forall>i < BZ_MAX_CODE_LEN. limit i = (if minLen \<le> i \<and> i \<le> maxLen
        then int (fcode len n i + cnt len n i) - 1 else 0)) \<and>
     (\<forall>i \<in> {minLen..maxLen}. base i = int (fcode len n i) - int (below len n i)) \<and>
     (\<forall>i < n. perm (cpos len n i) = i)"

lemma base1_fold:
  "fold (\<lambda>i base. base(i := push_bit 1 (limit (i - 1) + 1) - base i)) [m + 1..<m + d + 1] base =
    (\<lambda>i. if m < i \<and> i < m + d + 1 then push_bit 1 (limit (i - 1) + 1) - base i else base i)"
proof (induction d)
  case (Suc d)
  have u: "[m + 1..<m + Suc d + 1] = [m + 1..<m + d + 1] @ [m + d + 1]" by simp
  show ?case
    unfolding u fold_append comp_apply Suc.IH by (auto simp: fun_eq_iff less_Suc_eq)
qed (auto simp: fun_eq_iff)

lemma CreateDecodeTables_eq:
  assumes len: "\<And>i. i < n \<Longrightarrow> minLen \<le> len i \<and> len i \<le> maxLen" and m: "minLen \<le> maxLen" "maxLen \<le> 21"
    and R: "BZ2_hbCreateDecodeTables tables len minLen maxLen n = (limit, base, perm)"
  shows "decode_tables len n minLen maxLen limit base perm"
proof -
  obtain limit0 base0 perm0 where t: "tables = (limit0, base0, perm0)" by (cases tables)
  have z: "fcode len n minLen = 0" "below len n minLen = 0"
    by (rule no_short [where m = minLen]; use len in simp)+
  define d where "d = maxLen - minLen"
  have M: "maxLen = minLen + d" using m by (simp add: d_def)
  let ?b0 = "hb_base0 len n base0"
  have b0: "?b0 i = int (below len n i)" if "i < 23" for i using that by (simp add: hb_base0_eq)
  have L: "limit = (\<lambda>i. if minLen \<le> i \<and> i < minLen + Suc d then int (fcode len n i + cnt len n i) - 1
      else if i < 23 then 0 else limit0 i)"
  proof -
    have e: "maxLen + 1 = minLen + Suc d" using M by simp
    have c: "?b0 (i + 1) - ?b0 i = int (cnt len n i)" if "i < minLen + Suc d" for i
      using b0 [of i] b0 [of "i + 1"] that m M by simp
    have "limit = hb_limit minLen maxLen ?b0 limit0"
      using R by (simp add: t BZ2_hbCreateDecodeTables_def Let_def)
    also have "\<dots> = (\<lambda>i. if minLen \<le> i \<and> i < minLen + Suc d then int (fcode len n i + cnt len n i) - 1
      else if i < 23 then 0 else limit0 i)"
      unfolding hb_limit_def fold_zero Let_def e
      by (subst limit_fold [where base = ?b0, OF z(1) c, unfolded Let_def]) auto
    finally show ?thesis .
  qed
  have B: "base = hb_base1 minLen maxLen limit ?b0" "perm = hb_perm len minLen maxLen n perm0"
    using R by (auto simp: t BZ2_hbCreateDecodeTables_def Let_def)
  have Bb: "base = (\<lambda>i. if minLen < i \<and> i < minLen + d + 1 then push_bit 1 (limit (i - 1) + 1) - ?b0 i else ?b0 i)"
    unfolding B(1) hb_base1_def M by (rule base1_fold)
  have base: "base i = int (fcode len n i) - int (below len n i)" if i: "i \<in> {minLen..maxLen}" for i
  proof (cases "i = minLen")
    case True
    then show ?thesis using z b0 m M by (simp add: Bb)
  next
    case False
    define k where "k = i - 1"
    have k: "i = Suc k" "minLen \<le> k" "k < minLen + Suc d" "Suc k < 23"
      using i False m M by (auto simp: k_def)
    have "base i = push_bit 1 (limit k + 1) - ?b0 i"
      using i False M k by (auto simp: Bb)
    also have "limit k + 1 = int (fcode len n k + cnt len n k)" using k by (simp add: L)
    finally show ?thesis using b0 [of i] k by (simp add: push_bit_eq_mult)
  qed
  show ?thesis
    unfolding decode_tables_def using base hb_perm_eq [where minLen = minLen and maxLen = maxLen, OF len] m M
    by (auto simp: L B(2))
qed

section \<open>Decoding\<close>

lemma below_mono: "l \<le> l' \<Longrightarrow> below len n l \<le> below len n l'"
  unfolding below_def by (rule card_mono) auto

lemma symbol_at:
  assumes "below len n l \<le> p" "p < below len n l + cnt len n l"
  shows "\<exists>i < n. len i = l \<and> cpos len n i = p"
proof -
  have "p < n" using assms below_cnt_le [of len n l] by linarith
  then obtain i where i: "i < n" "cpos len n i = p" using cpos_surj by blast
  have c: "cnt len i (len i) < cnt len n (len i)" by (rule cnt_less [OF i(1)])
  have "\<not> len i < l"
    using below_mono [of "Suc (len i)" l len n] c i(2) assms(1) by (auto simp: cpos_def)
  moreover have "\<not> l < len i"
    using below_mono [of "Suc l" "len i" len n] i(2) assms(2) by (auto simp: cpos_def)
  ultimately show ?thesis using i by auto
qed

lemma hd_walk_step:
  "m \<le> 20 \<Longrightarrow> \<not> v \<le> limit m \<Longrightarrow> hd_walk limit m v (b # bs) = hd_walk limit (m + 1) (2 * v + of_bool b) bs"
  by (simp add: hd_walk.simps [of limit m v])

text \<open>
  The search stops only at a value that is the code of a symbol: the index into \<open>perm\<close> is in
  range whatever the lengths and the bits are.
\<close>

lemma hd_walk_symbol:
  assumes D: "decode_tables len n minLen maxLen limit base perm"
    and used: "0 < cnt len n maxLen" and M: "maxLen \<le> 20"
    and "minLen \<le> m" "m \<le> maxLen \<Longrightarrow> int (fcode len n m) \<le> v" "1 \<le> v \<or> m \<le> maxLen"
    and "hd_walk limit m v bs = Some (l, w)"
  shows "minLen \<le> l \<and> l \<le> maxLen \<and>
    (\<exists>i < n. len i = l \<and> w = int (ccode len n i) \<and> w - base l = int (cpos len n i) \<and>
       perm (nat (w - base l)) = i)"
  using assms(4-7)
proof (induction bs arbitrary: m v)
  have stop: "minLen \<le> l \<and> l \<le> maxLen \<and>
    (\<exists>i < n. len i = l \<and> w = int (ccode len n i) \<and> w - base l = int (cpos len n i) \<and>
       perm (nat (w - base l)) = i)"
    if h: "minLen \<le> l" "l \<le> 20" "l \<le> maxLen \<Longrightarrow> int (fcode len n l) \<le> w" "1 \<le> w \<or> l \<le> maxLen"
      "w \<le> limit l" for l w
  proof -
    have lim: "limit l = (if minLen \<le> l \<and> l \<le> maxLen then int (fcode len n l + cnt len n l) - 1 else 0)"
      using D h(2) by (simp add: decode_tables_def)
    then have l: "l \<le> maxLen" using h by (auto split: if_splits)
    have w: "int (fcode len n l) \<le> w" "w < int (fcode len n l + cnt len n l)"
      using h l lim by auto
    have b: "base l = int (fcode len n l) - int (below len n l)"
      using D l h(1) by (simp add: decode_tables_def)
    define p where "p = nat (w - base l)"
    have p: "w - base l = int p" "below len n l \<le> p" "p < below len n l + cnt len n l"
      using w b by (auto simp: p_def)
    obtain i where i: "i < n" "len i = l" "cpos len n i = p" using symbol_at [OF p(2,3)] by blast
    have "w = int (ccode len n i)" using p(1) i b by (simp add: ccode_def cpos_def)
    moreover have "perm p = i" using D i by (auto simp: decode_tables_def)
    ultimately show ?thesis using i p l h(1) by (intro conjI exI [of _ i]) auto
  qed
  {
    case Nil
    then show ?case using stop [of m v] by (auto simp: hd_walk.simps split: if_splits)
  next
    case (Cons b bs)
    show ?case
    proof (cases "v \<le> limit m \<or> m > 20")
      case True
      then show ?thesis using Cons.prems stop [of m v] by (auto simp: hd_walk.simps split: if_splits)
    next
      case False
      have lim: "limit m = (if minLen \<le> m \<and> m \<le> maxLen then int (fcode len n m + cnt len n m) - 1 else 0)"
        using D False by (simp add: decode_tables_def)
      have R: "hd_walk limit (m + 1) (2 * v + of_bool b) bs = Some (l, w)"
        using Cons.prems(4) False by (simp add: hd_walk.simps [of limit m v])
      have "int (fcode len n m + cnt len n m) \<le> v" if "m \<le> maxLen"
        using False lim that Cons.prems(1) by auto
      then have up: "m + 1 \<le> maxLen \<Longrightarrow> int (fcode len n (m + 1)) \<le> 2 * v + of_bool b" by auto
      have v1: "1 \<le> v" if "maxLen \<le> m"
        using that False lim Cons.prems(1,3) used by (auto split: if_splits)
      show ?thesis
        by (rule Cons.IH [OF _ up _ R]) (use v1 Cons.prems(1) in auto)
    qed
  }
qed

text \<open>The code of a symbol is found, whatever bits follow it.\<close>

lemma hd_walk_code:
  assumes D: "decode_tables len n minLen maxLen limit base perm" and M: "maxLen \<le> 20"
    and i: "i < n" "len i \<le> maxLen" and m: "minLen \<le> m" "m \<le> len i"
  shows "hd_walk limit m (int (ccode len n i div 2 ^ (len i - m)))
      (to_bits (len i - m) (ccode len n i) @ bs) = Some (len i, int (ccode len n i))"
  using m
proof (induction "len i - m" arbitrary: m)
  case 0
  then have m: "m = len i" by simp
  have "limit m = int (fcode len n m + cnt len n m) - 1"
    using D 0 i M by (auto simp: decode_tables_def)
  then have "int (ccode len n i) \<le> limit m" using cnt_less [OF i(1), of len] by (simp add: m ccode_def)
  then show ?case using i M by (simp add: m hd_walk.simps)
next
  case (Suc d)
  let ?c = "ccode len n i"
  have d: "len i - m = Suc d" "m < len i" "d = len i - (m + 1)" using Suc(2) by simp_all
  have lim: "limit m = int (fcode len n m + cnt len n m) - 1"
    using D Suc.prems d i M by (auto simp: decode_tables_def)
  have "2 ^ (len i - m) * (fcode len n m + cnt len n m) \<le> ?c"
    using fcode_after [OF d(2), of len n] by (simp add: ccode_def)
  then have "fcode len n m + cnt len n m \<le> ?c div 2 ^ (len i - m)"
    by (simp add: less_eq_div_iff_mult_less_eq mult.commute)
  then have not: "\<not> int (?c div 2 ^ (len i - m)) \<le> limit m" using lim by linarith
  have e: "2 * int (?c div 2 ^ Suc d) + of_bool (bit ?c d) = int (?c div 2 ^ d)"
  proof -
    define q where "q = ?c div 2 ^ d"
    have "?c div 2 ^ Suc d = q div 2" by (simp add: q_def mult.commute flip: div_mult2_eq)
    moreover have "bit ?c d = odd q" by (simp add: q_def bit_iff_odd)
    moreover have "2 * int (q div 2) + of_bool (odd q) = int q" by (cases "odd q") (auto, presburger+)
    ultimately show ?thesis by (simp only: q_def)
  qed
  have "hd_walk limit m (int (?c div 2 ^ (len i - m))) (to_bits (len i - m) ?c @ bs) =
      hd_walk limit (m + 1) (int (?c div 2 ^ d)) (to_bits d ?c @ bs)"
  proof -
    have "m \<le> 20" using M d i(2) by linarith
    from hd_walk_step [where limit = limit, OF this not, of "bit ?c d" "to_bits d ?c @ bs"] show ?thesis
      by (simp only: d(1) e to_bits_Suc append_Cons)
  qed
  also have "\<dots> = Some (len i, int ?c)"
    unfolding d(3) by (rule Suc.hyps(1)) (use d Suc.prems in auto)
  finally show ?case .
qed

section \<open>Complete codes\<close>

lemma fcode_sum: "fcode len n l = (\<Sum>i < n. if len i < l then 2 ^ (l - len i) else 0)"
proof (induction l)
  case (Suc l)
  have c: "cnt len n l = (\<Sum>i < n. of_bool (len i = l))" by (induction n) auto
  have "(\<Sum>i < n. if len i < Suc l then 2 ^ (Suc l - len i) else 0) =
    (\<Sum>i < n. 2 * ((if len i < l then 2 ^ (l - len i) else 0) + of_bool (len i = l)) :: nat)"
    by (rule sum.cong) (auto simp: less_Suc_eq Suc_diff_le)
  then show ?case by (simp only: fcode.simps Suc.IH c sum_distrib_left sum.distrib distrib_left)
qed simp

lemma ccode_less:
  assumes i: "i < n" and len: "\<And>i. i < n \<Longrightarrow> len i \<le> M"
    and K: "(\<Sum>i < n. 2 ^ (M - len i)) \<le> (2 :: nat) ^ M"
  shows "ccode len n i < 2 ^ len i"
proof -
  let ?l = "len i"
  have "2 ^ (M - ?l) * fcode len n (Suc ?l) = (\<Sum>j < n. if len j < Suc ?l then 2 * 2 ^ (M - len j) else 0)"
    unfolding fcode_sum sum_distrib_left
    by (rule sum.cong) (use len [OF i] in \<open>auto simp flip: power_add power_Suc\<close>)
  also have "\<dots> \<le> (\<Sum>j < n. 2 * 2 ^ (M - len j))" by (rule sum_mono) auto
  also have "\<dots> \<le> 2 * 2 ^ M" using K by (simp flip: sum_distrib_left)
  also have "\<dots> = 2 ^ (M - ?l) * (2 * 2 ^ ?l)" using len [OF i] by (simp flip: power_add)
  finally have "fcode len n (Suc ?l) \<le> 2 * 2 ^ ?l" by simp
  then show ?thesis using cnt_less [OF i, of len] by (simp add: ccode_def)
qed

section \<open>Properties\<close>

text \<open>with lengths that fit the code space, the codes of \<open>BZ2_hbAssignCodes\<close> are prefix free:
  the bits written for one symbol never begin the bits written for another.\<close>

theorem assign_codes_prefix_free:
  assumes len: "\<And>i. i < n \<Longrightarrow> minLen \<le> len i \<and> len i \<le> maxLen" and M: "maxLen \<le> 20"
    and K: "(\<Sum>i < n. 2 ^ (maxLen - len i)) \<le> (2 :: nat) ^ maxLen"
    and ij: "i < n" "j < n" and ne: "i \<noteq> j"
  shows "to_bits (len i) (BZ2_hbAssignCodes code len minLen maxLen n i) @ bs \<noteq>
    to_bits (len j) (BZ2_hbAssignCodes code len minLen maxLen n j) @ bs'"
proof
  assume eq: "to_bits (len i) (BZ2_hbAssignCodes code len minLen maxLen n i) @ bs =
    to_bits (len j) (BZ2_hbAssignCodes code len minLen maxLen n j) @ bs'"
  let ?c = "ccode len n"
  obtain limit base perm where R: "BZ2_hbCreateDecodeTables (\<lambda>_. 0, \<lambda>_. 0, \<lambda>_. 0) len minLen maxLen n =
    (limit, base, perm)" by (rule prod_cases3)
  have m: "minLen \<le> maxLen" using len [OF ij(1)] by simp
  have D: "decode_tables len n minLen maxLen limit base perm"
    by (rule CreateDecodeTables_eq [OF len m _ R]) (use M in auto)
  have top: "?c k div 2 ^ (len k - minLen) = of_bits (take minLen (to_bits (len k) (?c k)))"
    and rest: "to_bits (len k - minLen) (?c k) = drop minLen (to_bits (len k) (?c k))" if k: "k < n" for k
  proof -
    have l: "len k = minLen + (len k - minLen)" using len [OF k] by simp
    have s: "to_bits (len k) (?c k) = to_bits minLen (?c k div 2 ^ (len k - minLen)) @ to_bits (len k - minLen) (?c k)"
      by (subst l) (simp add: to_bits_split, simp add: to_bits_def bit_iff_odd power_add mult.commute flip: div_mult2_eq)
    have "?c k div 2 ^ (len k - minLen) < 2 ^ minLen"
      using ccode_less [OF k _ K] len l by (simp add: less_mult_imp_div_less flip: power_add)
    then show "?c k div 2 ^ (len k - minLen) = of_bits (take minLen (to_bits (len k) (?c k)))"
      by (simp add: s of_bits_to_bits take_bit_nat_eq_self)
    show "to_bits (len k - minLen) (?c k) = drop minLen (to_bits (len k) (?c k))" by (simp add: s)
  qed
  have walk: "hd_walk limit minLen (int (of_bits (take minLen (to_bits (len k) (?c k) @ r))))
      (drop minLen (to_bits (len k) (?c k) @ r)) = Some (len k, int (?c k))" if k: "k < n" for k r
    using hd_walk_code [OF D M k, of minLen r] len [OF k] by (simp add: top [OF k] rest [OF k])
  have "to_bits (len i) (?c i) @ bs = to_bits (len j) (?c j) @ bs'"
    using eq ij by (simp add: AssignCodes_eq [OF len])
  then have "len i = len j" "?c i = ?c j" using walk [OF ij(1), of bs] walk [OF ij(2), of bs'] by simp_all
  then have "cpos len n i = cpos len n j" by (simp add: ccode_def cpos_def)
  then show False using cpos_inj ij ne by (auto dest: inj_onD)
qed

theorem assign_codes_prefix_free_witness:
  "to_bits 1 (BZ2_hbAssignCodes (\<lambda>_. 0) (\<lambda>i. if i = 0 then 1 else 2) 1 2 3 0) @ [True] \<noteq>
    to_bits 2 (BZ2_hbAssignCodes (\<lambda>_. 0) (\<lambda>i. if i = 0 then 1 else 2) 1 2 3 2) @ []"
  using assign_codes_prefix_free [of 3 1 "\<lambda>i. if i = 0 then 1 else 2" 2 0 2 "\<lambda>_. 0" "[True]" "[]"]
  by (simp add: numeral_eq_Suc)

end
