(* ===== verification/FastTable.thy ===== *)
theory FastTable
  imports HuffCodes "HOL-Library.While_Combinator"
begin

text \<open>
  The two-level lookup tables that \<open>BZ2_decompress\<close> (\<^verbatim>\<open>src/decompress.c\<close>) builds for every coding
  table, and the lookup itself. A primary entry for the next 11 bits is positive (length and
  symbol), negative (a marker for an overflow sub-table) or zero (take the slow path).

  \<open>Wild\<close> is an access outside an array, which C leaves undefined; the code has no check for
  one of them, a marker read from a primary entry. \<open>Abandon\<close> is \<open>goto abandon_fast_table\<close>,
  with what the overflow table holds then.
\<close>

section \<open>Building the tables\<close>

record fast =
  ft_tbl :: "nat \<Rightarrow> int"
  ft_ovf :: "nat \<Rightarrow> int"
  ft_code_val :: nat
  ft_cur_len :: nat
  ft_ovf_used :: nat

datatype fast_result = Next fast | Abandon "nat \<Rightarrow> int" | Wild

definition fast_fill :: "nat \<Rightarrow> nat \<Rightarrow> int \<Rightarrow> (nat \<Rightarrow> int) \<Rightarrow> (nat \<Rightarrow> int)" where
  "fast_fill base_idx fill_count entry tbl =
     fold (\<lambda>k tbl. tbl(base_idx + k := entry)) [0..<fill_count] tbl"

definition fast_entry :: "nat \<Rightarrow> nat \<Rightarrow> int" where
  "fast_entry sym_len sm = int (push_bit 16 sym_len OR sm)"

definition fast_advance :: "nat \<Rightarrow> fast \<Rightarrow> fast" where
  "fast_advance sym_len s =
     while (\<lambda>s. ft_cur_len s < sym_len)
       (\<lambda>s. s\<lparr>ft_code_val := push_bit 1 (ft_code_val s), ft_cur_len := ft_cur_len s + 1\<rparr>) s"

definition fast_primary :: "nat \<Rightarrow> nat \<Rightarrow> fast \<Rightarrow> fast_result" where
  "fast_primary sm sym_len s =
     (let pad = BZ_DECODE_TABLE_BITS - sym_len;
          base_idx = push_bit pad (ft_code_val s);
          fill_count = push_bit pad 1
      in if base_idx + fill_count > 2 ^ BZ_DECODE_TABLE_BITS then Abandon (ft_ovf s)
         else Next (s\<lparr>ft_tbl := fast_fill base_idx fill_count (fast_entry sym_len sm) (ft_tbl s),
                     ft_code_val := ft_code_val s + 1\<rparr>))"

definition fast_sub_fill :: "nat \<Rightarrow> nat \<Rightarrow> fast \<Rightarrow> fast_result" where
  "fast_sub_fill sm sym_len s =
     (let extra = sym_len - BZ_DECODE_TABLE_BITS;
          prefix = drop_bit extra (ft_code_val s);
          suffix = ft_code_val s AND mask extra;
          marker = - (ft_tbl s prefix + 1);
          sub_extra = nat (marker AND 0xF);
          sub_offset = drop_bit 4 marker;
          pad2 = int sub_extra - int extra
      in if pad2 < 0 then Abandon (ft_ovf s)
         else
           let base_idx2 = push_bit (nat pad2) suffix;
               fill2 = push_bit (nat pad2) 1;
               ovf_entry = fast_entry sym_len sm
           in if sub_offset + int base_idx2 + int fill2 > 512 then Abandon (ft_ovf s)
              else if sub_offset + int base_idx2 < 0 then Wild
              else Next (s\<lparr>ft_ovf := fast_fill (nat (sub_offset + int base_idx2)) fill2 ovf_entry (ft_ovf s),
                          ft_code_val := ft_code_val s + 1\<rparr>))"

definition fast_overflow :: "nat \<Rightarrow> nat \<Rightarrow> nat \<Rightarrow> fast \<Rightarrow> fast_result" where
  "fast_overflow maxLen sm sym_len s =
     (let prefix = drop_bit (sym_len - BZ_DECODE_TABLE_BITS) (ft_code_val s)
      in if prefix \<ge> 2 ^ BZ_DECODE_TABLE_BITS then Abandon (ft_ovf s)
         else if ft_tbl s prefix = 0 then
           let max_extra = (if int maxLen - int BZ_DECODE_TABLE_BITS \<le> 0 then 1 else maxLen - BZ_DECODE_TABLE_BITS);
               sub_size = push_bit max_extra 1
           in if ft_ovf_used s + sub_size > 512 then Next (s\<lparr>ft_code_val := ft_code_val s + 1\<rparr>)
              else fast_sub_fill sm sym_len
                (s\<lparr>ft_tbl := (ft_tbl s)(prefix := - (1 + int (push_bit 4 (ft_ovf_used s)) + int max_extra)),
                   ft_ovf := fast_fill (ft_ovf_used s) sub_size 0 (ft_ovf s),
                   ft_ovf_used := ft_ovf_used s + sub_size\<rparr>)
         else fast_sub_fill sm sym_len s)"

definition fast_symbol :: "(nat \<Rightarrow> nat) \<Rightarrow> (nat \<Rightarrow> nat) \<Rightarrow> nat \<Rightarrow> nat \<Rightarrow> fast \<Rightarrow> fast_result" where
  "fast_symbol len perm maxLen pp2 s0 =
     (let sm = perm pp2; sym_len = len sm; s = fast_advance sym_len s0
      in if sym_len \<le> BZ_DECODE_TABLE_BITS then fast_primary sm sym_len s
         else fast_overflow maxLen sm sym_len s)"

text \<open>The loop over the symbols in the order of their codes.\<close>

definition fast_start :: "nat \<Rightarrow> (nat \<Rightarrow> int) \<Rightarrow> (nat \<Rightarrow> int) \<Rightarrow> fast" where
  "fast_start minLen tbl ovf =
     \<lparr>ft_tbl = fast_fill 0 (2 ^ BZ_DECODE_TABLE_BITS) 0 tbl, ft_ovf = ovf, ft_code_val = 0,
      ft_cur_len = minLen, ft_ovf_used = 0\<rparr>"

definition fast_symbols ::
  "(nat \<Rightarrow> nat) \<Rightarrow> (nat \<Rightarrow> nat) \<Rightarrow> nat \<Rightarrow> nat list \<Rightarrow> fast \<Rightarrow> fast_result" where
  "fast_symbols len perm maxLen ps s =
     fold (\<lambda>pp2 r. case r of Next s \<Rightarrow> fast_symbol len perm maxLen pp2 s | _ \<Rightarrow> r) ps (Next s)"

text \<open>The result: the primary table, the overflow table and the used part of it.\<close>

definition fast_build ::
  "(nat \<Rightarrow> nat) \<Rightarrow> (nat \<Rightarrow> nat) \<Rightarrow> nat \<Rightarrow> nat \<Rightarrow> nat \<Rightarrow> (nat \<Rightarrow> int) \<Rightarrow> (nat \<Rightarrow> int) \<Rightarrow>
     ((nat \<Rightarrow> int) \<times> (nat \<Rightarrow> int) \<times> nat) option" where
  "fast_build len perm minLen maxLen alphaSize tbl ovf =
     (case fast_symbols len perm maxLen [0..<alphaSize] (fast_start minLen tbl ovf) of
        Next s \<Rightarrow> Some (ft_tbl s, ft_ovf s, ft_ovf_used s)
      | Abandon ovf \<Rightarrow> Some (fast_fill 0 (2 ^ BZ_DECODE_TABLE_BITS) 0 tbl, ovf, 0)
      | Wild \<Rightarrow> None)"

section \<open>The lookup\<close>

text \<open>
  With \<open>bsLive\<close> bits in \<open>bsBuff\<close>: the length and the symbol of the next code, or \<open>None\<close> when the
  decoder has to take the slow path.
\<close>

definition fast_lookup :: "(nat \<Rightarrow> int) \<Rightarrow> (nat \<Rightarrow> int) \<Rightarrow> u64 \<Rightarrow> nat \<Rightarrow> (nat \<times> nat) option" where
  "fast_lookup tbl ovf bsBuff bsLive =
     (if bsLive \<ge> BZ_DECODE_TABLE_BITS then
        let peek = unat (drop_bit (bsLive - BZ_DECODE_TABLE_BITS) bsBuff AND mask BZ_DECODE_TABLE_BITS);
            entry = tbl peek
        in if entry > 0 then Some (nat (drop_bit 16 entry), nat (entry AND 0xFFFF))
           else if entry < 0 then
             let marker = - (entry + 1);
                 extra = nat (marker AND 0xF);
                 offset = nat (drop_bit 4 marker);
                 total_bits = BZ_DECODE_TABLE_BITS + extra
             in if bsLive \<ge> total_bits then
                  let extra_val = unat (drop_bit (bsLive - total_bits) bsBuff AND mask extra);
                      entry2 = ovf (offset + extra_val)
                  in if entry2 > 0 then Some (nat (drop_bit 16 entry2), nat (entry2 AND 0xFFFF)) else None
                else None
           else None
      else None)"

section \<open>Closed forms\<close>

lemma fast_fill_eq: "fast_fill b c e t = (\<lambda>x. if b \<le> x \<and> x < b + c then e else t x)"
  unfolding fast_fill_def by (induction c) (auto simp: fun_eq_iff less_Suc_eq)

lemma fast_entry_eq: "i < 2 ^ 16 \<Longrightarrow> fast_entry l i = int (l * 2 ^ 16 + i)"
  by (simp add: fast_entry_def push_bit_or)

lemma fast_entry_parts:
  assumes "i < 2 ^ 16"
  shows "nat (drop_bit 16 (fast_entry l i)) = l" "nat (fast_entry l i AND 0xFFFF) = i"
    "0 < l \<Longrightarrow> 0 < fast_entry l i"
proof -
  have m: "(0xFFFF :: int) = mask 16" by (simp add: mask_eq_exp_minus_1)
  have "drop_bit 16 (int (l * 2 ^ 16 + i)) = int (drop_bit 16 (l * 2 ^ 16 + i))"
    by (simp only: drop_bit_of_nat)
  then show "nat (drop_bit 16 (fast_entry l i)) = l"
    using assms by (simp add: fast_entry_eq drop_bit_eq_div)
  have "take_bit 16 (int (l * 2 ^ 16 + i)) = int (take_bit 16 (l * 2 ^ 16 + i))"
    by (simp only: take_bit_of_nat)
  then show "nat (fast_entry l i AND 0xFFFF) = i"
    unfolding m using assms by (simp add: fast_entry_eq take_bit_eq_mask [symmetric] take_bit_eq_mod del: of_nat_add)
  show "0 < l \<Longrightarrow> 0 < fast_entry l i" using assms by (simp add: fast_entry_eq)
qed

lemma fast_advance_eq:
  "ft_cur_len s \<le> l \<Longrightarrow>
   fast_advance l s = s\<lparr>ft_code_val := 2 ^ (l - ft_cur_len s) * ft_code_val s, ft_cur_len := l\<rparr>"
proof (induction "l - ft_cur_len s" arbitrary: s)
  case 0
  then show ?case by (simp add: fast_advance_def while_unfold)
next
  case (Suc d)
  let ?s = "s\<lparr>ft_code_val := push_bit 1 (ft_code_val s), ft_cur_len := ft_cur_len s + 1\<rparr>"
  have l: "ft_cur_len s < l" "l - ft_cur_len s = Suc (l - Suc (ft_cur_len s))" using Suc(2) by simp_all
  have "fast_advance l s = fast_advance l ?s"
    unfolding fast_advance_def using l(1) by (subst while_unfold) simp
  also have "\<dots> = ?s\<lparr>ft_code_val := 2 ^ (l - ft_cur_len ?s) * ft_code_val ?s, ft_cur_len := l\<rparr>"
    by (rule Suc.hyps(1)) (use Suc(2) l in auto)
  finally show ?case by (simp add: l(2) push_bit_eq_mult)
qed

section \<open>The invariant of the construction\<close>

definition sorted_syms :: "(nat \<Rightarrow> nat) \<Rightarrow> nat \<Rightarrow> nat \<Rightarrow> nat \<Rightarrow> (nat \<Rightarrow> nat) \<Rightarrow> bool" where
  "sorted_syms len n minLen maxLen perm \<longleftrightarrow>
     (\<forall>i < n. minLen \<le> len i \<and> len i \<le> maxLen \<and> perm (cpos len n i) = i) \<and> 1 \<le> minLen \<and> maxLen \<le> 20 \<and> n \<le> 258"

text \<open>\<open>next_code l v p\<close>: \<open>v\<close> is the code with which the symbol at place \<open>p\<close> would go on at length \<open>l\<close>.\<close>

definition next_code :: "(nat \<Rightarrow> nat) \<Rightarrow> nat \<Rightarrow> nat \<Rightarrow> nat \<Rightarrow> nat \<Rightarrow> bool" where
  "next_code len n l v p \<longleftrightarrow>
     below len n l \<le> p \<and> p \<le> below len n l + cnt len n l \<and> v = fcode len n l + (p - below len n l)"

text \<open>A table entry \<open>e\<close> for the \<open>w\<close>-bit value \<open>v\<close> that agrees with the code.\<close>

definition hit :: "(nat \<Rightarrow> nat) \<Rightarrow> nat \<Rightarrow> nat \<Rightarrow> nat \<Rightarrow> int \<Rightarrow> bool" where
  "hit len n w v e \<longleftrightarrow>
     (\<exists>i < n. len i \<le> w \<and> e = fast_entry (len i) i \<and> v div 2 ^ (w - len i) = ccode len n i)"

definition sub_at :: "nat \<Rightarrow> fast \<Rightarrow> nat \<Rightarrow> nat \<Rightarrow> bool" where
  "sub_at ex s x off \<longleftrightarrow> ft_tbl s x = - (1 + 16 * int off + int ex)"

definition sub_ok :: "(nat \<Rightarrow> nat) \<Rightarrow> nat \<Rightarrow> nat \<Rightarrow> fast \<Rightarrow> nat \<Rightarrow> nat \<Rightarrow> bool" where
  "sub_ok len n ex s x off \<longleftrightarrow> sub_at ex s x off \<and> off + 2 ^ ex \<le> ft_ovf_used s \<and>
     (\<forall>y < 2 ^ ex. ft_ovf s (off + y) = 0 \<or> hit len n (11 + ex) (x * 2 ^ ex + y) (ft_ovf s (off + y)))"

definition tables_ok :: "(nat \<Rightarrow> nat) \<Rightarrow> nat \<Rightarrow> nat \<Rightarrow> fast \<Rightarrow> bool" where
  "tables_ok len n ex s \<longleftrightarrow>
     (\<forall>x < 2048. 0 < ft_tbl s x \<longrightarrow> hit len n 11 x (ft_tbl s x)) \<and>
     (\<forall>x < 2048. ft_tbl s x < 0 \<longrightarrow> 1 \<le> ex \<and> (\<exists>off. sub_ok len n ex s x off)) \<and>
     (\<forall>x < 2048. \<forall>x' < 2048. \<forall>off off'. x \<noteq> x' \<and> sub_at ex s x off \<and> sub_at ex s x' off' \<longrightarrow>
        off + 2 ^ ex \<le> off' \<or> off' + 2 ^ ex \<le> off) \<and>
     ft_ovf_used s \<le> 512"

definition primary_below :: "fast \<Rightarrow> bool" where
  "primary_below s \<longleftrightarrow>
     (\<forall>x < 2048. 0 < ft_tbl s x \<longrightarrow> (x + 1) * 2 ^ (9 + ft_cur_len s) \<le> ft_code_val s * 2 ^ 20)"

lemma next_code_advance:
  assumes "next_code len n l v p" and i: "i < n" "cpos len n i = p"
  shows "l \<le> len i \<and> next_code len n (len i) (2 ^ (len i - l) * v) p \<and> 2 ^ (len i - l) * v = ccode len n i"
proof -
  have c: "cnt len i (len i) < cnt len n (len i)" by (rule cnt_less [OF i(1)])
  have l: "l \<le> len i"
  proof (rule ccontr)
    assume "\<not> l \<le> len i"
    then have "below len n (Suc (len i)) \<le> below len n l" by (intro below_mono) simp
    then show False using assms c by (simp add: next_code_def cpos_def)
  qed
  have "next_code len n (l + d) (2 ^ d * v) p" if "l + d \<le> len i" for d
    using that
  proof (induction d)
    case (Suc d)
    have IH: "next_code len n (l + d) (2 ^ d * v) p" using Suc by simp
    have "below len n (Suc (l + d)) \<le> below len n (len i)" using Suc.prems by (intro below_mono) simp
    then have "below len n (Suc (l + d)) \<le> p" using i by (simp add: cpos_def)
    then show ?case using IH by (auto simp: next_code_def)
  qed (use assms in auto)
  from this [of "len i - l"] have N: "next_code len n (len i) (2 ^ (len i - l) * v) p" using l by simp
  then show ?thesis using l i by (auto simp: next_code_def ccode_def cpos_def)
qed

text \<open>The symbol at hand is the one whose code is \<open>ft_code_val\<close>.\<close>

definition at_symbol :: "(nat \<Rightarrow> nat) \<Rightarrow> nat \<Rightarrow> nat \<Rightarrow> fast \<Rightarrow> nat \<Rightarrow> bool" where
  "at_symbol len n ex s i \<longleftrightarrow> tables_ok len n ex s \<and> primary_below s \<and> i < n \<and> n \<le> 258 \<and> 1 \<le> len i \<and>
     ft_cur_len s = len i \<and> ft_code_val s = ccode len n i"

definition after_symbol :: "(nat \<Rightarrow> nat) \<Rightarrow> nat \<Rightarrow> nat \<Rightarrow> fast \<Rightarrow> nat \<Rightarrow> bool" where
  "after_symbol len n ex s i \<longleftrightarrow> tables_ok len n ex s \<and> primary_below s \<and>
     ft_cur_len s = len i \<and> ft_code_val s = ccode len n i + 1"

lemma fast_primary_ok:
  assumes A: "at_symbol len n ex s i" and l: "len i \<le> 11" and R: "fast_primary i (len i) s = Next s'"
  shows "after_symbol len n ex s' i"
proof -
  define c where "c = ccode len n i"
  define b where "b = c * 2 ^ (11 - len i)"
  define f :: nat where "f = 2 ^ (11 - len i)"
  have cv: "ft_code_val s = c" "ft_cur_len s = len i" using A by (simp_all add: at_symbol_def c_def)
  have s': "s' = s\<lparr>ft_tbl := (\<lambda>x. if b \<le> x \<and> x < b + f then fast_entry (len i) i else ft_tbl s x),
      ft_code_val := c + 1\<rparr>"
    using R by (simp add: fast_primary_def Let_def cv fast_fill_eq push_bit_eq_mult b_def f_def split: if_splits)
  have T: "tables_ok len n ex s" and P: "primary_below s" and i: "i < n" "n \<le> 258" "1 \<le> len i"
    using A by (auto simp: at_symbol_def)
  have e: "0 < fast_entry (len i) i" using i by (intro fast_entry_parts(3)) auto
  have h: "hit len n 11 x (fast_entry (len i) i)" if "b \<le> x" "x < b + f" for x
  proof -
    have "x = f * c + (x - b)" "x - b < f" using that by (auto simp: b_def f_def)
    then have "x div f = c" by (metis add.right_neutral div_less div_mult_self4 f_def power_not_zero zero_neq_numeral)
    then show ?thesis using i l by (auto simp: hit_def c_def f_def)
  qed
  have sub: "sub_ok len n ex s x off \<Longrightarrow> \<not> (b \<le> x \<and> x < b + f) \<Longrightarrow> sub_ok len n ex s' x off" for x off
    by (auto simp: s' sub_ok_def sub_at_def)
  have at: "sub_at ex s' x off \<Longrightarrow> sub_at ex s x off" for x off
    using e by (auto simp: s' sub_at_def split: if_splits)
  have "tables_ok len n ex s'"
    unfolding tables_ok_def
  proof (intro conjI allI impI)
    show "hit len n 11 x (ft_tbl s' x)" if "x < 2048" "0 < ft_tbl s' x" for x
      using T h that by (auto simp: s' tables_ok_def)
    have neg: "ft_tbl s x < 0 \<and> \<not> (b \<le> x \<and> x < b + f)" if "ft_tbl s' x < 0" for x
      using that e by (auto simp: s' split: if_splits)
    show "1 \<le> ex" if "x < 2048" "ft_tbl s' x < 0" for x
      using T neg [OF that(2)] that(1) unfolding tables_ok_def by blast
    show "\<exists>off. sub_ok len n ex s' x off" if "x < 2048" "ft_tbl s' x < 0" for x
      using T neg [OF that(2)] that(1) sub unfolding tables_ok_def by blast
    show "off + 2 ^ ex \<le> off' \<or> off' + 2 ^ ex \<le> off"
      if "x < 2048" "x' < 2048" "x \<noteq> x' \<and> sub_at ex s' x off \<and> sub_at ex s' x' off'" for x x' off off'
      using T that at unfolding tables_ok_def by blast
    show "ft_ovf_used s' \<le> 512" using T by (simp add: s' tables_ok_def)
  qed
  moreover have s'f: "ft_cur_len s' = len i" "ft_code_val s' = c + 1" by (simp_all add: s' cv)
  have "primary_below s'"
    unfolding primary_below_def
  proof (intro allI impI)
    fix x assume x: "x < 2048" "0 < ft_tbl s' x"
    show "(x + 1) * 2 ^ (9 + ft_cur_len s') \<le> ft_code_val s' * 2 ^ 20"
    proof (cases "b \<le> x \<and> x < b + f")
      case True
      then have "x + 1 \<le> (c + 1) * f" by (simp add: b_def f_def)
      then have "(x + 1) * 2 ^ (9 + len i) \<le> (c + 1) * f * 2 ^ (9 + len i)" by (rule mult_le_mono1)
      also have "(c + 1) * f * 2 ^ (9 + len i) = (c + 1) * 2 ^ 20"
      proof -
        have "f * 2 ^ (9 + len i) = 2 ^ 20" using l by (simp add: f_def flip: power_add)
        then show ?thesis by (simp only: mult.assoc)
      qed
      finally show ?thesis by (simp only: s'f)
    next
      case False
      then have "(x + 1) * 2 ^ (9 + len i) \<le> c * 2 ^ 20"
        using P x cv by (auto simp: s' primary_below_def)
      also have "\<dots> \<le> (c + 1) * 2 ^ 20" by simp
      finally show ?thesis by (simp add: s' cv)
    qed
  qed
  ultimately show ?thesis by (simp add: after_symbol_def s' cv c_def)
qed

lemma marker_parts:
  assumes "e = - (1 + 16 * int off + int ex)" and "ex < 16"
  shows "nat (- (e + 1) AND 0xF) = ex" "drop_bit 4 (- (e + 1)) = int off"
proof -
  have m: "(0xF :: int) = mask 4" by (simp add: mask_eq_exp_minus_1)
  have e: "- (e + 1) = int (off * 2 ^ 4 + ex)" using assms(1) by simp
  show "nat (- (e + 1) AND 0xF) = ex"
    unfolding e m take_bit_eq_mask [symmetric] take_bit_of_nat using assms(2) by (simp add: take_bit_eq_mod)
  show "drop_bit 4 (- (e + 1)) = int off"
    unfolding e drop_bit_of_nat using assms(2) by (simp add: drop_bit_eq_div)
qed

text \<open>Filling a sub-table never leaves it, so neither \<open>Abandon\<close> nor \<open>Wild\<close> can come out.\<close>

lemma fast_sub_fill_ok:
  assumes A: "at_symbol len n ex s i" and l: "11 < len i" "len i \<le> 11 + ex" "ex \<le> 9"
    and x: "x = ft_code_val s div 2 ^ (len i - 11)" "x < 2048" "ft_tbl s x \<noteq> 0"
  shows "\<exists>s'. fast_sub_fill i (len i) s = Next s' \<and> after_symbol len n ex s' i"
proof -
  define c where "c = ccode len n i"
  define d where "d = len i - 11"
  have cv: "ft_code_val s = c" "ft_cur_len s = len i" using A by (simp_all add: at_symbol_def c_def)
  have T: "tables_ok len n ex s" and P: "primary_below s" and i: "i < n" "n \<le> 258" "1 \<le> len i"
    using A by (auto simp: at_symbol_def)
  have xc: "x = c div 2 ^ d" by (simp add: x(1) cv d_def)
  have "\<not> 0 < ft_tbl s x"
  proof
    assume "0 < ft_tbl s x"
    then have "(x + 1) * 2 ^ (9 + len i) \<le> c * 2 ^ 20"
      using P x(2) cv by (auto simp: primary_below_def)
    also have "\<dots> < (x + 1) * 2 ^ d * 2 ^ 20"
      using dividend_less_div_times [of "2 ^ d" c] by (simp add: xc)
    also have "\<dots> = (x + 1) * 2 ^ (9 + len i)"
    proof -
      have "9 + len i = d + 20" using l by (simp add: d_def)
      then have "(2 :: nat) ^ d * 2 ^ 20 = 2 ^ (9 + len i)" by (simp only: power_add)
      then show ?thesis by (simp only: mult.assoc)
    qed
    finally show False by simp
  qed
  then obtain off where off: "sub_ok len n ex s x off"
    using T x unfolding tables_ok_def by (metis linorder_neqE)
  then have e: "ft_tbl s x = - (1 + 16 * int off + int ex)" by (simp add: sub_ok_def sub_at_def)
  note m = marker_parts [OF e]
  define f where "f = (2 :: nat) ^ (ex - d)"
  define b where "b = (c mod 2 ^ d) * f"
  have exd: "ex = (ex - d) + d" using l by (simp add: d_def)
  have bf: "b + f \<le> 2 ^ ex"
  proof -
    have "c mod 2 ^ d + 1 \<le> 2 ^ d" by (simp add: Suc_leI)
    then have "(c mod 2 ^ d + 1) * f \<le> 2 ^ d * f" by (rule mult_le_mono1)
    also have "2 ^ d * f = 2 ^ ex" by (subst exd) (simp add: f_def power_add)
    finally show ?thesis by (simp add: b_def)
  qed
  have used: "off + 2 ^ ex \<le> ft_ovf_used s" "ft_ovf_used s \<le> 512"
    using off T by (auto simp: sub_ok_def tables_ok_def)
  have in512: "off + b + f \<le> 512" using used bf by linarith
  define s' where "s' = s\<lparr>ft_ovf := (\<lambda>y. if off + b \<le> y \<and> y < off + b + f then fast_entry (len i) i else ft_ovf s y),
      ft_code_val := c + 1\<rparr>"
  have px: "drop_bit (len i - 11) (ft_code_val s) = x" by (simp add: x(1) drop_bit_eq_div)
  have ex16: "ex < 16" using l by simp
  have pad: "nat (int ex - int (len i - 11)) = ex - d" "\<not> int ex - int (len i - 11) < 0"
    using l by (simp_all add: d_def)
  have pb: "push_bit (ex - d) (ft_code_val s AND mask (len i - 11)) = b" "push_bit (ex - d) 1 = f"
    unfolding take_bit_eq_mask [symmetric] by (simp_all add: push_bit_eq_mult take_bit_eq_mod b_def f_def cv flip: d_def)
  have "\<not> int off + int b + int f > 512" "\<not> int off + int b < 0" "nat (int off + int b) = off + b"
    using in512 by simp_all
  then have R: "fast_sub_fill i (len i) s = Next s'"
    unfolding fast_sub_fill_def Let_def px m(1) [OF ex16] m(2) [OF ex16] pad(1) pb
    by (simp only: pad(2) if_False fast_fill_eq s'_def cv add.assoc)
  have h: "hit len n (11 + ex) (x * 2 ^ ex + y) (fast_entry (len i) i)" if "b \<le> y" "y < b + f" for y
  proof -
    have w: "11 + ex - len i = ex - d" using l by (simp add: d_def)
    have y: "y = f * (c mod 2 ^ d) + (y - b)" "y - b < f" using that by (auto simp: b_def)
    have E: "(2 :: nat) ^ ex = f * 2 ^ d" by (subst exd) (simp add: f_def power_add)
    have C: "2 ^ d * x + c mod 2 ^ d = c" by (simp add: xc)
    have "x * 2 ^ ex + y = x * 2 ^ ex + (f * (c mod 2 ^ d) + (y - b))" using y(1) by simp
    also have "\<dots> = f * (2 ^ d * x + c mod 2 ^ d) + (y - b)"
      unfolding E by (simp only: distrib_left mult.commute mult.left_commute add.assoc)
    finally have "x * 2 ^ ex + y = f * c + (y - b)" by (simp only: C)
    then have "(x * 2 ^ ex + y) div f = c"
      using y(2) by (metis add.right_neutral div_less div_mult_self4 f_def power_not_zero zero_neq_numeral)
    then show ?thesis using i l unfolding hit_def c_def f_def by (intro exI [of _ i]) (simp add: w)
  qed
  have sub: "sub_ok len n ex s' x' o'" if s: "sub_ok len n ex s x' o'" and x': "x' < 2048" for x' o'
  proof (cases "x' = x")
    case True
    then have o: "o' = off" using s off by (simp add: sub_ok_def sub_at_def)
    show ?thesis using s h unfolding sub_ok_def sub_at_def s'_def True o by auto
  next
    case False
    then have "o' + 2 ^ ex \<le> off \<or> off + 2 ^ ex \<le> o'"
      using T s off x' x unfolding tables_ok_def sub_ok_def by blast
    then show ?thesis using s bf unfolding sub_ok_def sub_at_def s'_def by auto
  qed
  have "tables_ok len n ex s'"
    unfolding tables_ok_def
  proof (intro conjI allI impI)
    have tbl: "ft_tbl s' = ft_tbl s" "ft_ovf_used s' = ft_ovf_used s" by (simp_all add: s'_def)
    show "hit len n 11 x (ft_tbl s' x)" if "x < 2048" "0 < ft_tbl s' x" for x
      using T that by (auto simp: tbl tables_ok_def)
    show "1 \<le> ex" using l by simp
    show "\<exists>off. sub_ok len n ex s' x off" if "x < 2048" "ft_tbl s' x < 0" for x
      using T sub that unfolding tbl tables_ok_def by blast
    show "off + 2 ^ ex \<le> off' \<or> off' + 2 ^ ex \<le> off"
      if "x < 2048" "x' < 2048" "x \<noteq> x' \<and> sub_at ex s' x off \<and> sub_at ex s' x' off'" for x x' off off'
      using T that unfolding tables_ok_def sub_at_def tbl by blast
    show "ft_ovf_used s' \<le> 512" using T by (simp add: tbl tables_ok_def)
  qed
  moreover have "primary_below s'"
    unfolding primary_below_def
  proof (intro allI impI)
    fix z assume "z < 2048" "0 < ft_tbl s' z"
    then have "(z + 1) * 2 ^ (9 + len i) \<le> c * 2 ^ 20" using P cv by (auto simp: s'_def primary_below_def)
    then show "(z + 1) * 2 ^ (9 + ft_cur_len s') \<le> ft_code_val s' * 2 ^ 20" by (simp add: s'_def cv)
  qed
  ultimately show ?thesis using R by (auto simp: after_symbol_def s'_def cv c_def)
qed

lemma fast_alloc_ok:
  assumes A: "at_symbol len n ex s i" and ex: "1 \<le> ex" and x: "x < 2048" "ft_tbl s x = 0"
    and room: "ft_ovf_used s + 2 ^ ex \<le> 512"
  defines "s' \<equiv> s\<lparr>ft_tbl := (ft_tbl s)(x := - (1 + 16 * int (ft_ovf_used s) + int ex)),
      ft_ovf := (\<lambda>y. if ft_ovf_used s \<le> y \<and> y < ft_ovf_used s + 2 ^ ex then 0 else ft_ovf s y),
      ft_ovf_used := ft_ovf_used s + 2 ^ ex\<rparr>"
  shows "at_symbol len n ex s' i" "ft_tbl s' x \<noteq> 0"
proof -
  have T: "tables_ok len n ex s" and P: "primary_below s" using A by (simp_all add: at_symbol_def)
  have old: "sub_ok len n ex s' z off" "off + 2 ^ ex \<le> ft_ovf_used s"
    if "sub_ok len n ex s z off" "z \<noteq> x" for z off
    using that by (auto simp: sub_ok_def sub_at_def s'_def)
  have at: "(z = x \<and> off = ft_ovf_used s) \<or> (z \<noteq> x \<and> sub_at ex s z off)" if "sub_at ex s' z off" for z off
    using that by (auto simp: sub_at_def s'_def split: if_splits)
  have new: "sub_ok len n ex s' x (ft_ovf_used s)"
    by (auto simp: sub_ok_def sub_at_def s'_def)
  have le: "off + 2 ^ ex \<le> ft_ovf_used s" if "z < 2048" "sub_at ex s z off" for z off
  proof -
    have "ft_tbl s z < 0" using that by (simp add: sub_at_def)
    then obtain o' where "sub_ok len n ex s z o'" using T \<open>z < 2048\<close> unfolding tables_ok_def by blast
    then show ?thesis using that by (simp add: sub_ok_def sub_at_def)
  qed
  have "tables_ok len n ex s'"
    unfolding tables_ok_def
  proof (intro conjI allI impI)
    show "hit len n 11 z (ft_tbl s' z)" if "z < 2048" "0 < ft_tbl s' z" for z
      using T that by (auto simp: s'_def tables_ok_def split: if_splits)
    show "1 \<le> ex" by (rule ex)
    show "\<exists>off. sub_ok len n ex s' z off" if "z < 2048" "ft_tbl s' z < 0" for z
    proof (cases "z = x")
      case True
      then show ?thesis using new by blast
    next
      case False
      then have "ft_tbl s z < 0" using that by (simp add: s'_def)
      then show ?thesis using T that(1) old(1) False unfolding tables_ok_def by blast
    qed
    show "off + 2 ^ ex \<le> off' \<or> off' + 2 ^ ex \<le> off"
      if h: "z < 2048" "z' < 2048" "z \<noteq> z' \<and> sub_at ex s' z off \<and> sub_at ex s' z' off'" for z z' off off'
      using at [of z off] at [of z' off'] le [of z off] le [of z' off'] h T unfolding tables_ok_def by blast
    show "ft_ovf_used s' \<le> 512" using room by (simp add: s'_def)
  qed
  moreover have "primary_below s'" using P by (auto simp: primary_below_def s'_def)
  ultimately show "at_symbol len n ex s' i" using A by (simp add: at_symbol_def s'_def)
  show "ft_tbl s' x \<noteq> 0" by (simp add: s'_def)
qed

definition fine :: "(nat \<Rightarrow> nat) \<Rightarrow> nat \<Rightarrow> nat \<Rightarrow> nat \<Rightarrow> fast_result \<Rightarrow> bool" where
  "fine len n ex i r \<longleftrightarrow> r \<noteq> Wild \<and> (\<forall>s. r = Next s \<longrightarrow> after_symbol len n ex s i)"

lemma fast_overflow_ok:
  assumes A: "at_symbol len n (maxLen - 11) s i" and l: "11 < len i" "len i \<le> maxLen" "maxLen \<le> 20"
  shows "fine len n (maxLen - 11) i (fast_overflow maxLen i (len i) s)"
proof -
  let ?x = "ft_code_val s div 2 ^ (len i - 11)" and ?ex = "maxLen - 11"
  have x: "drop_bit (len i - 11) (ft_code_val s) = ?x" by (simp add: drop_bit_eq_div)
  have ex: "(if int maxLen - int 11 \<le> 0 then 1 else maxLen - 11) = ?ex" using l by simp
  have sub: "fine len n ?ex i (fast_sub_fill i (len i) s')"
    if "at_symbol len n ?ex s' i" "?x = ft_code_val s' div 2 ^ (len i - 11)" "?x < 2048" "ft_tbl s' ?x \<noteq> 0" for s'
  proof -
    have "len i \<le> 11 + ?ex" "?ex \<le> 9" using l by simp_all
    from fast_sub_fill_ok [OF that(1) l(1) this that(2-4)] show ?thesis by (auto simp: fine_def)
  qed
  consider "2048 \<le> ?x" | "?x < 2048" "ft_tbl s ?x \<noteq> 0"
    | "?x < 2048" "ft_tbl s ?x = 0" "512 < ft_ovf_used s + 2 ^ ?ex"
    | "?x < 2048" "ft_tbl s ?x = 0" "ft_ovf_used s + 2 ^ ?ex \<le> 512" by linarith
  then show ?thesis
  proof cases
    case 1
    then show ?thesis by (simp add: fast_overflow_def x fine_def)
  next
    case 2
    then show ?thesis using sub [OF A refl] by (simp add: fast_overflow_def x)
  next
    case 3
    have "after_symbol len n ?ex (s\<lparr>ft_code_val := ft_code_val s + 1\<rparr>) i"
      using A by (auto simp: after_symbol_def at_symbol_def tables_ok_def primary_below_def sub_ok_def sub_at_def hit_def
          intro: le_trans)
    then show ?thesis using 3 ex by (simp add: fast_overflow_def x fine_def push_bit_eq_mult)
  next
    case 4
    note N = fast_alloc_ok [OF A _ 4(1,2,3)]
    have "1 \<le> ?ex" using l by simp
    from sub [OF N(1) [OF this] _ 4(1) N(2) [OF this]] show ?thesis
      using 4 ex by (simp add: fast_overflow_def x push_bit_eq_mult fast_fill_eq mult.commute Let_def)
  qed
qed

section \<open>The whole construction\<close>

definition fast_inv :: "(nat \<Rightarrow> nat) \<Rightarrow> nat \<Rightarrow> nat \<Rightarrow> nat \<Rightarrow> fast \<Rightarrow> bool" where
  "fast_inv len n ex p s \<longleftrightarrow> tables_ok len n ex s \<and> primary_below s \<and>
     next_code len n (ft_cur_len s) (ft_code_val s) p"

lemma fast_advance_inv:
  assumes I: "fast_inv len n ex p s" and i: "i < n" "cpos len n i = p" and n: "n \<le> 258" "1 \<le> len i"
  shows "at_symbol len n ex (fast_advance (len i) s) i"
proof -
  let ?l = "ft_cur_len s" and ?v = "ft_code_val s"
  have N: "next_code len n ?l ?v p" using I by (simp add: fast_inv_def)
  note A = next_code_advance [OF N i]
  have e: "fast_advance (len i) s = s\<lparr>ft_code_val := ccode len n i, ft_cur_len := len i\<rparr>"
    using fast_advance_eq [of s "len i"] A by simp
  have T: "tables_ok len n ex (fast_advance (len i) s)"
    using I unfolding e fast_inv_def tables_ok_def sub_ok_def sub_at_def by simp
  have f: "ft_cur_len (fast_advance (len i) s) = len i" "ft_code_val (fast_advance (len i) s) = ccode len n i"
    by (simp_all add: e)
  have "primary_below (fast_advance (len i) s)"
    unfolding primary_below_def
  proof (intro allI impI)
    fix x assume x: "x < 2048" "0 < ft_tbl (fast_advance (len i) s) x"
    then have "(x + 1) * 2 ^ (9 + ?l) \<le> ?v * 2 ^ 20"
      using I by (auto simp: e fast_inv_def primary_below_def)
    then have "(x + 1) * 2 ^ (9 + ?l) * 2 ^ (len i - ?l) \<le> ?v * 2 ^ 20 * 2 ^ (len i - ?l)" by (rule mult_le_mono1)
    moreover have "(x + 1) * 2 ^ (9 + ?l) * 2 ^ (len i - ?l) = (x + 1) * 2 ^ (9 + len i)"
      using A by (simp only: mult.assoc flip: power_add) simp
    moreover have "?v * 2 ^ 20 * 2 ^ (len i - ?l) = ccode len n i * 2 ^ 20"
      using A by (simp only: mult.commute mult.left_commute flip: mult.assoc)
    ultimately show "(x + 1) * 2 ^ (9 + ft_cur_len (fast_advance (len i) s)) \<le>
        ft_code_val (fast_advance (len i) s) * 2 ^ 20"
      by (simp only: f)
  qed
  then show ?thesis using T i n by (simp add: at_symbol_def e)
qed

lemma after_symbol_inv:
  assumes "after_symbol len n ex s i" and "i < n"
  shows "fast_inv len n ex (Suc (cpos len n i)) s"
  using assms cnt_less [of i n len]
  by (auto simp: fast_inv_def after_symbol_def next_code_def cpos_def ccode_def)

lemma fast_symbol_ok:
  assumes C: "sorted_syms len n minLen maxLen perm" and p: "p < n"
    and I: "fast_inv len n (maxLen - 11) p s"
  shows "fast_symbol len perm maxLen p s \<noteq> Wild"
    "fast_symbol len perm maxLen p s = Next s' \<Longrightarrow> fast_inv len n (maxLen - 11) (Suc p) s'"
proof -
  obtain i where i: "i < n" "cpos len n i = p" using cpos_surj [OF p] by blast
  have c: "perm p = i" "minLen \<le> len i" "len i \<le> maxLen" "maxLen \<le> 20" "1 \<le> len i" "n \<le> 258"
    using C i unfolding sorted_syms_def by force+
  let ?s = "fast_advance (len i) s"
  note A = fast_advance_inv [OF I i c(6,5)]
  have "fine len n (maxLen - 11) i (fast_symbol len perm maxLen p s)"
  proof (cases "len i \<le> 11")
    case True
    have "fast_primary i (len i) ?s \<noteq> Wild" by (simp add: fast_primary_def Let_def)
    then show ?thesis
      using True fast_primary_ok [OF A True] by (auto simp: fast_symbol_def c(1) fine_def Let_def)
  next
    case False
    then show ?thesis
      using fast_overflow_ok [OF A _ c(3,4)] by (simp add: fast_symbol_def c(1) Let_def)
  qed
  then show "fast_symbol len perm maxLen p s \<noteq> Wild"
    "fast_symbol len perm maxLen p s = Next s' \<Longrightarrow> fast_inv len n (maxLen - 11) (Suc p) s'"
    using after_symbol_inv [OF _ i(1)] i(2) by (auto simp: fine_def)
qed

lemma fast_symbols_ok:
  assumes C: "sorted_syms len n minLen maxLen perm" and I: "fast_inv len n (maxLen - 11) 0 s" and "k \<le> n"
  shows "fast_symbols len perm maxLen [0..<k] s \<noteq> Wild \<and>
    (\<forall>s'. fast_symbols len perm maxLen [0..<k] s = Next s' \<longrightarrow> fast_inv len n (maxLen - 11) k s')"
  using assms(3)
proof (induction k)
  case (Suc k)
  let ?r = "fast_symbols len perm maxLen [0..<k] s"
  have e: "fast_symbols len perm maxLen [0..<Suc k] s =
      (case ?r of Next s \<Rightarrow> fast_symbol len perm maxLen k s | _ \<Rightarrow> ?r)"
    unfolding fast_symbols_def by (simp cong: fast_result.case_cong)
  show ?case
    using Suc fast_symbol_ok [OF C, of k] unfolding e by (cases ?r) auto
qed (use I in \<open>auto simp: fast_symbols_def\<close>)

lemma fast_start_inv:
  assumes "sorted_syms len n minLen maxLen perm"
  shows "fast_inv len n ex 0 (fast_start minLen tbl ovf)"
proof -
  have l: "\<And>i. i < n \<Longrightarrow> minLen \<le> len i" using assms by (simp add: sorted_syms_def)
  note z = no_short(2,3) [where m = minLen and l = minLen, OF l order_refl]
  show ?thesis
    by (auto simp: fast_inv_def fast_start_def fast_fill_eq tables_ok_def primary_below_def next_code_def
        sub_at_def z)
qed

text \<open>What the finished tables promise, whichever way the construction ends.\<close>

definition fast_tables :: "(nat \<Rightarrow> nat) \<Rightarrow> nat \<Rightarrow> (nat \<Rightarrow> int) \<Rightarrow> (nat \<Rightarrow> int) \<Rightarrow> bool" where
  "fast_tables len n tbl ovf \<longleftrightarrow> (\<exists>ex u cv cl. tables_ok len n ex \<lparr>ft_tbl = tbl, ft_ovf = ovf,
     ft_code_val = cv, ft_cur_len = cl, ft_ovf_used = u\<rparr>)"

lemma fast_build_ok:
  assumes C: "sorted_syms len n minLen maxLen perm"
  obtains tbl' ovf' u where "fast_build len perm minLen maxLen n tbl ovf = Some (tbl', ovf', u)"
    "fast_tables len n tbl' ovf'" "u \<le> 512"
proof -
  let ?r = "fast_symbols len perm maxLen [0..<n] (fast_start minLen tbl ovf)"
  note R = fast_symbols_ok [OF C fast_start_inv [OF C, of "maxLen - 11" tbl ovf] order_refl]
  show thesis
  proof (cases ?r)
    case (Next s)
    have "fast_tables len n (ft_tbl s) (ft_ovf s)" "ft_ovf_used s \<le> 512"
      using R Next by (cases s; auto simp: fast_tables_def fast_inv_def tables_ok_def sub_ok_def sub_at_def)+
    then show ?thesis using that Next by (simp add: fast_build_def)
  next
    case (Abandon ovf')
    have "fast_tables len n (fast_fill 0 2048 0 tbl) ovf'"
      by (auto simp: fast_tables_def tables_ok_def fast_fill_eq sub_at_def intro: exI [of _ 0])
    then show ?thesis using that Abandon by (simp add: fast_build_def)
  next
    case Wild
    then show ?thesis using R by simp
  qed
qed

section \<open>The lookup agrees with the search by length\<close>

lemma peek_bits:
  fixes b :: u64
  assumes "m \<le> live"
  shows "unat (drop_bit (live - m) b AND mask m) = of_bits (take m (to_bits live b))"
  using assms by (simp add: take_to_bits of_bits_word take_bit_eq_mask)

lemma peek_bits2:
  fixes b :: u64
  assumes "11 + e \<le> live"
  shows "unat (drop_bit (live - (11 + e)) b AND mask e) = of_bits (take e (drop 11 (to_bits live b)))"
proof -
  have "take e (drop 11 (to_bits live b)) = to_bits e (drop_bit (live - 11 - e) b)"
    using assms by (simp add: take_to_bits drop_to_bits)
  then show ?thesis by (simp add: of_bits_word take_bit_eq_mask)
qed

lemma of_bits_take:
  "l \<le> length bs \<Longrightarrow> of_bits (take l bs) = of_bits bs div 2 ^ (length bs - l)"
proof -
  assume l: "l \<le> length bs"
  have "of_bits bs = of_bits (take l bs) * 2 ^ (length bs - l) + of_bits (drop l bs)"
    by (subst append_take_drop_id [of l bs, symmetric]) (simp only: of_bits_append length_drop)
  moreover have "of_bits (drop l bs) < 2 ^ (length bs - l)"
    using of_bits_less [of "drop l bs"] by simp
  ultimately show ?thesis by simp
qed

lemma hit_bits:
  assumes H: "hit len n w v e" and v: "v = of_bits (take w bs)" "w \<le> length bs"
    and n: "n \<le> 258"
  shows "\<exists>i < n. nat (drop_bit 16 e) = len i \<and> nat (e AND 0xFFFF) = i \<and> len i \<le> w \<and>
    of_bits (take (len i) bs) = ccode len n i"
proof -
  obtain i where i: "i < n" "len i \<le> w" "e = fast_entry (len i) i" "v div 2 ^ (w - len i) = ccode len n i"
    using H by (auto simp: hit_def)
  have "of_bits (take (len i) bs) = ccode len n i"
    using i(2,4) v of_bits_take [of "len i" "take w bs"] by (simp add: min_absorb1 min_absorb2)
  moreover have "i < 2 ^ 16" using i n by simp
  ultimately show ?thesis using i fast_entry_parts [of i "len i"] by auto
qed

lemma fast_lookup_bits:
  assumes F: "fast_tables len n tbl ovf" and n: "n \<le> 258"
    and L: "fast_lookup tbl ovf b live = Some (l, sm)"
  shows "sm < n \<and> len sm = l \<and> l \<le> live \<and> of_bits (take l (to_bits live b)) = ccode len n sm"
proof -
  let ?bs = "to_bits live b"
  define peek where "peek = of_bits (take 11 ?bs)"
  have live: "11 \<le> live" using L by (auto simp: fast_lookup_def split: if_splits)
  have pk: "unat (drop_bit (live - 11) b AND mask 11) = peek" using peek_bits [OF live] by (simp add: peek_def)
  have p: "peek < 2048"
    using of_bits_less [of "take 11 ?bs"] live by (simp add: peek_def)
  obtain ex u cv cl where T: "tables_ok len n ex \<lparr>ft_tbl = tbl, ft_ovf = ovf, ft_code_val = cv, ft_cur_len = cl, ft_ovf_used = u\<rparr>"
    using F by (auto simp: fast_tables_def)
  consider "0 < tbl peek" | "tbl peek < 0" | "tbl peek = 0" by linarith
  then show ?thesis
  proof cases
    case 1
    then have "l = nat (drop_bit 16 (tbl peek))" "sm = nat (tbl peek AND 0xFFFF)"
      using L live by (auto simp: fast_lookup_def Let_def pk split: if_splits)
    moreover have "hit len n 11 peek (tbl peek)" using T 1 p by (simp add: tables_ok_def)
    ultimately show ?thesis
      using hit_bits [of len n 11 peek "tbl peek" ?bs] live n by (auto simp: peek_def)
  next
    case 2
    obtain off where S: "sub_ok len n ex \<lparr>ft_tbl = tbl, ft_ovf = ovf, ft_code_val = cv, ft_cur_len = cl, ft_ovf_used = u\<rparr> peek off"
      and ex: "1 \<le> ex" using T 2 p by (auto simp: tables_ok_def)
    have "2 ^ ex \<le> (512 :: nat)" using S T by (auto simp: sub_ok_def tables_ok_def)
    then have ex9: "ex \<le> 9" using power_le_imp_le_exp [of 2 ex 9] by simp
    have e: "tbl peek = - (1 + 16 * int off + int ex)" using S by (simp add: sub_ok_def sub_at_def)
    have ex16: "ex < 16" using ex9 by simp
    note m = marker_parts [OF e ex16]
    define y where "y = of_bits (take ex (drop 11 ?bs))"
    have sub: "live \<ge> 11 + ex" "0 < ovf (off + y)" "l = nat (drop_bit 16 (ovf (off + y)))"
        "sm = nat (ovf (off + y) AND 0xFFFF)"
    proof -
      have "(if live \<ge> 11 + ex then
          let entry2 = ovf (off + unat (drop_bit (live - (11 + ex)) b AND mask ex))
          in if entry2 > 0 then Some (nat (drop_bit 16 entry2), nat (entry2 AND 0xFFFF)) else None else None) =
        Some (l, sm)"
        using L live 2 unfolding fast_lookup_def Let_def pk m(1) m(2) nat_int by simp
      then show "live \<ge> 11 + ex" "0 < ovf (off + y)" "l = nat (drop_bit 16 (ovf (off + y)))"
        "sm = nat (ovf (off + y) AND 0xFFFF)"
        using peek_bits2 [of ex live b] by (auto simp: Let_def y_def split: if_splits)
    qed
    have y: "y < 2 ^ ex" using of_bits_less [of "take ex (drop 11 ?bs)"] sub(1) by (simp add: y_def)
    have h: "hit len n (11 + ex) (peek * 2 ^ ex + y) (ovf (off + y))"
      using S y sub(2) by (auto simp: sub_ok_def)
    have "take (11 + ex) ?bs = take 11 ?bs @ take ex (drop 11 ?bs)" by (simp add: take_add)
    then have "of_bits (take (11 + ex) ?bs) = peek * 2 ^ ex + y"
      using sub(1) by (simp add: of_bits_append peek_def y_def)
    then show ?thesis
      using hit_bits [OF h, of ?bs] sub n by auto
  next
    case 3
    then show ?thesis using L by (auto simp: fast_lookup_def Let_def pk split: if_splits)
  qed
qed

text \<open>The slow search on the same bits stops at the same symbol.\<close>

lemma slow_search:
  assumes D: "decode_tables len n minLen maxLen limit base perm" and M: "maxLen \<le> 20"
    and i: "i < n" "minLen \<le> len i" "len i \<le> maxLen"
    and bs: "of_bits (take (len i) bs) = ccode len n i" "len i \<le> length bs"
  shows "hd_walk limit minLen (int (of_bits (take minLen bs))) (drop minLen bs) = Some (len i, int (ccode len n i))"
    "perm (nat (int (ccode len n i) - base (len i))) = i"
proof -
  let ?c = "ccode len n i" and ?l = "len i"
  have "take ?l bs = to_bits ?l ?c" using to_bits_of_bits [of "take ?l bs"] bs by (simp add: min_absorb2)
  then have s: "bs = to_bits ?l ?c @ drop ?l bs" by (metis append_take_drop_id)
  have d: "drop minLen bs = to_bits (?l - minLen) ?c @ drop ?l bs"
    using i(2) by (subst s) (simp add: drop_to_bits)
  have t: "of_bits (take minLen bs) = ?c div 2 ^ (?l - minLen)"
    using i(2) bs of_bits_take [of minLen "take ?l bs"] by (simp add: min_absorb1 min_absorb2)
  show "hd_walk limit minLen (int (of_bits (take minLen bs))) (drop minLen bs) = Some (len i, int ?c)"
    unfolding t d by (rule hd_walk_code [OF D M i(1) i(3) order_refl i(2)])
  have "base ?l = int (fcode len n ?l) - int (below len n ?l)"
    using D i by (simp add: decode_tables_def)
  then have "nat (int ?c - base ?l) = cpos len n i" by (simp add: ccode_def cpos_def)
  then show "perm (nat (int ?c - base ?l)) = i" using D i by (simp add: decode_tables_def)
qed

section \<open>Properties\<close>

text \<open>C23: whatever code lengths (1 to 20) a file declares, complete or not, the construction of the two-level
  lookup tables never touches memory outside the two arrays: it ends, possibly by giving the fast
  table up, and uses at most the 512 entries of the overflow table.\<close>

theorem fast_table_construction_safe:
  assumes "0 < n" "n \<le> 258" and "\<And>i. i < n \<Longrightarrow> minLen \<le> len i \<and> len i \<le> maxLen"
    and "1 \<le> minLen" "maxLen \<le> 20"
    and "BZ2_hbCreateDecodeTables tables len minLen maxLen n = (limit, base, perm)"
  shows "\<exists>tbl' ovf' used. fast_build len perm minLen maxLen n tbl ovf = Some (tbl', ovf', used) \<and> used \<le> 512"
proof -
  have m: "minLen \<le> maxLen" using assms(1) assms(3) [of 0] by simp
  have "decode_tables len n minLen maxLen limit base perm"
    by (rule CreateDecodeTables_eq [OF assms(3) m _ assms(6)]) (use assms in auto)
  then have "sorted_syms len n minLen maxLen perm"
    using assms by (simp add: sorted_syms_def decode_tables_def)
  from fast_build_ok [OF this, of tbl ovf] show ?thesis by blast
qed

theorem fast_table_construction_safe_witness:
  "\<exists>tbl' ovf' used. fast_build (\<lambda>i. if i = 0 then 1 else 20)
     (snd (snd (BZ2_hbCreateDecodeTables (\<lambda>_. 0, \<lambda>_. 0, \<lambda>_. 0) (\<lambda>i. if i = 0 then 1 else 20) 1 20 3)))
     1 20 3 (\<lambda>_. 7) (\<lambda>_. 7) = Some (tbl', ovf', used) \<and> used \<le> 512"
proof -
  let ?T = "BZ2_hbCreateDecodeTables (\<lambda>_. 0, \<lambda>_. 0, \<lambda>_. 0) (\<lambda>i. if i = 0 then 1 else 20) 1 20 3"
  show ?thesis
    by (rule fast_table_construction_safe [where limit = "fst ?T" and base = "fst (snd ?T)"
          and tables = "(\<lambda>_. 0, \<lambda>_. 0, \<lambda>_. 0)"]) auto
qed

text \<open>C22: a hit in the fast tables is exact: whenever the lookup answers with a length and a symbol,
  the search by length through \<open>limit\<close>, \<open>base\<close> and \<open>perm\<close> on the same buffered bits finds the same symbol
  after the same number of bits, and the lookup never claims more bits than are buffered.\<close>

theorem fast_lookup_agrees_with_slow_search:
  assumes "0 < n" "n \<le> 258" and len: "\<And>i. i < n \<Longrightarrow> minLen \<le> len i \<and> len i \<le> maxLen"
    and "1 \<le> minLen" and M: "maxLen \<le> 20"
    and R: "BZ2_hbCreateDecodeTables tables len minLen maxLen n = (limit, base, perm)"
    and B: "fast_build len perm minLen maxLen n tbl0 ovf0 = Some (tbl, ovf, used)"
    and L: "fast_lookup tbl ovf bsBuff bsLive = Some (l, sm)"
  shows "l \<le> bsLive \<and> (\<exists>v.
    hd_walk limit minLen (int (of_bits (take minLen (to_bits bsLive bsBuff))))
      (drop minLen (to_bits bsLive bsBuff)) = Some (l, v) \<and>
    perm (nat (v - base l)) = sm)"
proof -
  have m: "minLen \<le> maxLen" using assms(1) len [of 0] by simp
  have D: "decode_tables len n minLen maxLen limit base perm"
    by (rule CreateDecodeTables_eq [OF len m _ R]) (use M in auto)
  then have "sorted_syms len n minLen maxLen perm"
    using assms by (simp add: sorted_syms_def decode_tables_def)
  from fast_build_ok [OF this, of tbl0 ovf0] have "fast_tables len n tbl ovf" using B by auto
  note H = fast_lookup_bits [OF this assms(2) L]
  then have sm: "sm < n" "len sm = l" by simp_all
  have "minLen \<le> len sm" "len sm \<le> maxLen" using len [OF sm(1)] by simp_all
  from slow_search [OF D M sm(1) this, of "to_bits bsLive bsBuff"] H sm show ?thesis by auto
qed

text \<open>The two one-bit codes: the symbol 1 is found from the bits 1000000000000000.\<close>

lemma one_bit_tables:
  "snd (snd (BZ2_hbCreateDecodeTables (\<lambda>_. 0, \<lambda>_. 0, \<lambda>_. 0) (\<lambda>_. 1) 1 1 2)) = (\<lambda>i. if i = 1 then 1 else 0)"
  by (simp add: BZ2_hbCreateDecodeTables_def hb_perm_def Let_def numeral_2_eq_2 fun_eq_iff)

lemma one_bit_fast:
  "fast_build (\<lambda>_. 1) (\<lambda>i. if i = 1 then 1 else 0) 1 1 2 (\<lambda>_. 0) (\<lambda>_. 0) =
     Some (\<lambda>x. if x < 1024 then 65536 else if x < 2048 then 65537 else 0, \<lambda>_. 0, 0)"
proof -
  have u: "[0..<2] = [0, 1 :: nat]" by (simp add: upt_rec)
  have e: "fast_entry 1 0 = 65536" "fast_entry 1 1 = 65537" by (simp_all add: fast_entry_eq)
  define s0 where "s0 = fast_start 1 (\<lambda>_. 0) (\<lambda>_. 0)"
  have s0: "s0 = \<lparr>ft_tbl = \<lambda>_. 0, ft_ovf = \<lambda>_. 0, ft_code_val = 0, ft_cur_len = 1, ft_ovf_used = 0\<rparr>"
    unfolding s0_def fast_start_def fast_fill_eq by simp
  have a: "fast_advance 1 s = s" if "ft_cur_len s = 1" for s
    using that by (simp add: fast_advance_eq)
  define s1 where "s1 = s0\<lparr>ft_tbl := \<lambda>x. if x < 1024 then 65536 else 0, ft_code_val := 1\<rparr>"
  have 0: "fast_symbol (\<lambda>_. 1) (\<lambda>i. if i = 1 then 1 else 0) 1 0 s0 = Next s1"
    unfolding fast_symbol_def Let_def s1_def
    by (subst a) (simp_all add: s0 fast_primary_def fast_fill_eq e [simplified] push_bit_eq_mult)
  define s2 where "s2 = s0\<lparr>ft_tbl := \<lambda>x. if x < 1024 then 65536 else if x < 2048 then 65537 else 0, ft_code_val := 2\<rparr>"
  have 1: "fast_symbol (\<lambda>_. 1) (\<lambda>i. if i = 1 then 1 else 0) 1 1 s1 = Next s2"
    unfolding fast_symbol_def Let_def s1_def s2_def
    by (subst a) (auto simp: s0 fast_primary_def fast_fill_eq e [simplified] push_bit_eq_mult fun_eq_iff)
  have "fast_symbols (\<lambda>_. 1) (\<lambda>i. if i = 1 then 1 else 0) 1 [0..<2] s0 = Next s2"
    unfolding fast_symbols_def u by (simp only: fold_simps fast_result.case 0 1)
  then show ?thesis unfolding fast_build_def s0_def [symmetric] by (simp add: s2_def s0)
qed

lemma one_bit_lookup:
  "fast_lookup (\<lambda>x. if x < 1024 then 65536 else if x < 2048 then 65537 else 0) (\<lambda>_. 0) 0x8000 16 = Some (1, 1)"
proof -
  have "unat (drop_bit 5 (0x8000 :: u64) AND mask 11) = 1024" by (simp add: drop_bit_eq_div mask_eq_exp_minus_1)
  then show ?thesis by (simp add: fast_lookup_def Let_def drop_bit_eq_div)
qed

theorem fast_lookup_agrees_with_slow_search_witness:
  "1 \<le> (16 :: nat) \<and> (\<exists>v.
    hd_walk (fst (BZ2_hbCreateDecodeTables (\<lambda>_. 0, \<lambda>_. 0, \<lambda>_. 0) (\<lambda>_. 1) 1 1 2)) 1
      (int (of_bits (take 1 (to_bits 16 (0x8000 :: u64))))) (drop 1 (to_bits 16 (0x8000 :: u64))) = Some (1, v) \<and>
    (\<lambda>i. if i = 1 then 1 else 0 :: nat)
      (nat (v - fst (snd (BZ2_hbCreateDecodeTables (\<lambda>_. 0, \<lambda>_. 0, \<lambda>_. 0) (\<lambda>_. 1) 1 1 2)) 1)) = 1)"
proof -
  let ?T = "BZ2_hbCreateDecodeTables (\<lambda>_. 0, \<lambda>_. 0, \<lambda>_. 0) (\<lambda>_. 1) 1 1 2"
  have T: "?T = (fst ?T, fst (snd ?T), \<lambda>i. if i = 1 then 1 else 0)"
    by (simp only: one_bit_tables [symmetric] prod.collapse)
  have h: "0 < (2 :: nat)" "(2 :: nat) \<le> 258" "1 \<le> (1 :: nat)" "(1 :: nat) \<le> 20" "\<And>i. i < (2 :: nat) \<Longrightarrow> 1 \<le> (1 :: nat) \<and> (1 :: nat) \<le> 1"
    by simp_all
  show ?thesis
    by (rule fast_lookup_agrees_with_slow_search [where len = "\<lambda>_. 1", OF h(1,2,5,3,4) T one_bit_fast one_bit_lookup])
qed

end
