(* ===== verification/Crc.thy ===== *)
theory Crc
  imports CrcTable
begin

text \<open>
  The CRC-32 of the library (\<^verbatim>\<open>src/crctable.c\<close> and the CRC macros of
  \<^verbatim>\<open>src/qbz2_internal.h\<close>): the one-byte step, the slicing-by-8 batch update with its
  alignment prologue, and their specification, the bit-serial division by the polynomial
  \<open>0x04C11DB7\<close>, most significant bit first. The lemmas say that every table entry is what
  the polynomial prescribes and that the batch update is the fold of the one-byte step, for
  every alignment of the buffer.
\<close>

section \<open>The macros of qbz2_internal.h\<close>

definition BZ_INITIALISE_CRC :: u32 where
  "BZ_INITIALISE_CRC = 0xffffffff"

definition BZ_FINALISE_CRC :: "u32 \<Rightarrow> u32" where
  "BZ_FINALISE_CRC crcVar = NOT crcVar"

definition BZ_UPDATE_CRC :: "u32 \<Rightarrow> u8 \<Rightarrow> u32" where
  "BZ_UPDATE_CRC crcVar cha =
     push_bit 8 crcVar XOR BZ2_crc32Table ! unat (drop_bit 24 crcVar XOR ucast cha)"

section \<open>BZ2_crc32_update, the slicing-by-8 path\<close>

text \<open>The four-byte \<open>memcpy\<close> loads of the code read little-endian words.\<close>

definition load_le32 :: "u8 \<Rightarrow> u8 \<Rightarrow> u8 \<Rightarrow> u8 \<Rightarrow> u32" where
  "load_le32 b0 b1 b2 b3 =
     ucast b0 OR push_bit 8 (ucast b1) OR push_bit 16 (ucast b2) OR push_bit 24 (ucast b3)"

definition bswap32 :: "u32 \<Rightarrow> u32" where
  "bswap32 w = push_bit 24 (w AND 0xFF) OR push_bit 8 (w AND 0xFF00)
     OR (drop_bit 8 w AND 0xFF00) OR (drop_bit 24 w AND 0xFF)"

text \<open>The prologue runs until the address of the next byte is a multiple of four.\<close>

fun crc_prologue :: "nat \<Rightarrow> u32 \<Rightarrow> u8 list \<Rightarrow> u32 \<times> u8 list" where
  "crc_prologue p crc [] = (crc, [])"
| "crc_prologue p crc (b # bs) =
     (if p mod 4 \<noteq> 0 then crc_prologue (Suc p) (BZ_UPDATE_CRC crc b) bs else (crc, b # bs))"

definition crc_slice8 :: "u32 \<Rightarrow> u32 \<Rightarrow> u32 \<Rightarrow> u32" where
  "crc_slice8 crc one0 two0 =
     (let one1 = one0 XOR bswap32 crc;
          one = bswap32 one1;
          two = bswap32 two0
      in crc32_s8 ! 7 ! unat (drop_bit 24 one AND 0xFF) XOR
         crc32_s8 ! 6 ! unat (drop_bit 16 one AND 0xFF) XOR
         crc32_s8 ! 5 ! unat (drop_bit 8 one AND 0xFF) XOR
         crc32_s8 ! 4 ! unat (one AND 0xFF) XOR
         crc32_s8 ! 3 ! unat (drop_bit 24 two AND 0xFF) XOR
         crc32_s8 ! 2 ! unat (drop_bit 16 two AND 0xFF) XOR
         crc32_s8 ! 1 ! unat (drop_bit 8 two AND 0xFF) XOR
         crc32_s8 ! 0 ! unat (two AND 0xFF))"

fun crc_slice8_loop :: "u32 \<Rightarrow> u8 list \<Rightarrow> u32 \<times> u8 list" where
  "crc_slice8_loop crc (b0 # b1 # b2 # b3 # b4 # b5 # b6 # b7 # p) =
     crc_slice8_loop (crc_slice8 crc (load_le32 b0 b1 b2 b3) (load_le32 b4 b5 b6 b7)) p"
| "crc_slice8_loop crc p = (crc, p)"

fun crc_tail :: "u32 \<Rightarrow> u8 list \<Rightarrow> u32" where
  "crc_tail crc [] = crc"
| "crc_tail crc (b # bs) = crc_tail (BZ_UPDATE_CRC crc b) bs"

text \<open>
  The batch update on the bytes \<open>buf\<close> that start at address \<open>addr\<close>, in a build without
  \<open>__PCLMUL__\<close>, or for buffers below 64 bytes.
\<close>

definition crc32_update_soft :: "nat \<Rightarrow> u32 \<Rightarrow> u8 list \<Rightarrow> u32" where
  "crc32_update_soft addr crc buf =
     (let (crc, p) = crc_prologue addr crc buf;
          (crc, p) = crc_slice8_loop crc p
      in crc_tail crc p)"

section \<open>Specification: bit-serial polynomial division\<close>

definition crc_bit :: "u32 \<Rightarrow> u32" where
  "crc_bit c = push_bit 1 c XOR (if bit c 31 then 0x04C11DB7 else 0)"

definition crc_byte :: "u32 \<Rightarrow> u8 \<Rightarrow> u32" where
  "crc_byte crc b = (crc_bit ^^ 8) (crc XOR push_bit 24 (ucast b))"

definition crc_bytes :: "u32 \<Rightarrow> u8 list \<Rightarrow> u32" where
  "crc_bytes crc bs = foldl crc_byte crc bs"

section \<open>Linearity\<close>

lemma crc_bit_xor: "crc_bit (x XOR y) = crc_bit x XOR crc_bit y"
  by (rule bit_word_eqI) (auto simp: crc_bit_def bit_simps)

lemma crc_bits_xor: "(crc_bit ^^ n) (x XOR y) = (crc_bit ^^ n) x XOR (crc_bit ^^ n) y"
  by (induction n) (simp_all add: crc_bit_xor)

lemma crc_bit_0 [simp]: "crc_bit 0 = 0"
  by (simp add: crc_bit_def)

lemma crc_bits_0 [simp]: "(crc_bit ^^ n) 0 = 0"
  by (induction n) simp_all

lemma crc_bits_low:
  assumes "\<And>i. 32 - n \<le> i \<Longrightarrow> \<not> bit x i" and "n \<le> 32"
  shows "(crc_bit ^^ n) x = push_bit n x"
  using assms
proof (induction n arbitrary: x)
  case (Suc n)
  have "\<not> bit x 31" using Suc.prems by simp
  then have step: "crc_bit x = push_bit 1 x" by (simp add: crc_bit_def)
  have "(crc_bit ^^ n) (push_bit 1 x) = push_bit n (push_bit 1 x)"
    using Suc.prems by (intro Suc.IH) (auto simp: bit_push_bit_iff simp del: push_bit_of_1 push_bit_Suc)
  then show ?case by (simp add: step funpow_swap1 push_bit_push_bit del: push_bit_of_1)
qed simp

section \<open>The tables\<close>

text \<open>
  A table of a linear function is determined by its values at the powers of two: it is the
  list of all sums (\<open>XOR\<close>) of these, in binary order.
\<close>

definition xor_span :: "u32 list \<Rightarrow> u32 list" where
  "xor_span vs = foldl (\<lambda>l v. l @ map ((XOR) v) l) [0] vs"

definition lead :: "nat \<Rightarrow> u32" where
  "lead i = push_bit 24 (word_of_nat i)"

lemma word_of_nat_split:
  assumes "i < 2 ^ n"
  shows "(word_of_nat (2 ^ n + i) :: u32) = word_of_nat (2 ^ n) XOR word_of_nat i"
proof -
  have "\<not> (bit (2 ^ n :: nat) k \<and> bit i k)" for k
    using assms by (auto simp: bit_simps bit_nat_iff dest: bit_imp_le_length)
      (metis assms bit_take_bit_iff less_irrefl take_bit_nat_eq_self)
  then have "2 ^ n + i = (2 ^ n XOR i :: nat)"
    by (simp add: disjunctive_xor_eq_or disjunctive_add_eq_or bit_eq_iff bit_simps)
  then show ?thesis
    by (simp only: of_nat_xor_eq)
qed

lemma lead_split: "i < 2 ^ n \<Longrightarrow> lead (2 ^ n + i) = lead (2 ^ n) XOR lead i"
  by (simp only: lead_def word_of_nat_split push_bit_xor)

lemma xor_span_linear:
  "xor_span (map (\<lambda>j. (crc_bit ^^ m) (lead (2 ^ j))) [0..<n]) =
   map (\<lambda>i. (crc_bit ^^ m) (lead i)) [0..<2 ^ n]"
proof (induction n)
  case 0
  then show ?case by (simp add: xor_span_def lead_def)
next
  case (Suc n)
  let ?g = "\<lambda>i. (crc_bit ^^ m) (lead i)"
  have upper: "map ?g [2 ^ n..<2 ^ n + 2 ^ n] = map ((XOR) (?g (2 ^ n))) (map ?g [0..<2 ^ n])"
    by (rule nth_equalityI) (simp_all add: lead_split crc_bits_xor)
  have "xor_span (map (\<lambda>j. ?g (2 ^ j)) [0..<Suc n]) =
        map ?g [0..<2 ^ n] @ map ((XOR) (?g (2 ^ n))) (map ?g [0..<2 ^ n])"
    using Suc.IH by (simp add: xor_span_def)
  also have "\<dots> = map ?g [0..<2 ^ n + 2 ^ n]"
    by (simp only: upper [symmetric] upt_add_eq_append [OF le0] map_append)
  finally show ?case by (simp add: mult_2)
qed

text \<open>
  Row \<open>k\<close> of the tables is the linear function \<open>crc_bit ^^ (8 * (k + 1))\<close> on the leading
  byte. \<open>basis k\<close> holds its eight values at the powers of two; each is one byte of division
  away from the one before.
\<close>

definition basis :: "nat \<Rightarrow> u32 list" where
  "basis k = map (\<lambda>j. (crc_bit ^^ (8 * k)) (lead (2 ^ j))) [0..<8]"

definition crc_zero_byte :: "u32 \<Rightarrow> u32" where
  "crc_zero_byte c =
     crc_bit (crc_bit (crc_bit (crc_bit (crc_bit (crc_bit (crc_bit (crc_bit c)))))))"

lemma crc_zero_byte_eq: "crc_zero_byte c = (crc_bit ^^ 8) c"
  by (simp add: crc_zero_byte_def eval_nat_numeral)

lemma basis_Suc: "basis (Suc k) = map crc_zero_byte (basis k)"
  by (simp add: basis_def crc_zero_byte_eq funpow_add)

lemma basis_numeral: "basis (numeral k) = map crc_zero_byte (basis (pred_numeral k))"
  by (simp add: numeral_eq_Suc basis_Suc)

lemma basis_0:
  "basis 0 = [0x01000000, 0x02000000, 0x04000000, 0x08000000,
              0x10000000, 0x20000000, 0x40000000, 0x80000000]"
  by (simp add: basis_def lead_def upt_conv_Cons)

lemma basis_1:
  "basis (Suc 0) = [
   0x04c11db7, 0x09823b6e, 0x130476dc, 0x2608edb8,
   0x4c11db70, 0x9823b6e0, 0x34867077, 0x690ce0ee]"
  using basis_Suc [of 0]
  by (simp add: basis_0 crc_zero_byte_def crc_bit_def)

lemma basis_2:
  "basis 2 = [
   0xd219c1dc, 0xa0f29e0f, 0x452421a9, 0x8a484352,
   0x10519b13, 0x20a33626, 0x41466c4c, 0x828cd898]"
  by (subst basis_numeral) (simp add: basis_1 crc_zero_byte_def crc_bit_def)

lemma basis_3:
  "basis 3 = [
   0x01d8ac87, 0x03b1590e, 0x0762b21c, 0x0ec56438,
   0x1d8ac870, 0x3b1590e0, 0x762b21c0, 0xec564380]"
  by (subst basis_numeral) (simp add: basis_2 crc_zero_byte_def crc_bit_def)

lemma basis_4:
  "basis 4 = [
   0xdc6d9ab7, 0xbc1a28d9, 0x7cf54c05, 0xf9ea980a,
   0xf7142da3, 0xeae946f1, 0xd1139055, 0xa6e63d1d]"
  by (subst basis_numeral) (simp add: basis_3 crc_zero_byte_def crc_bit_def)

lemma basis_5:
  "basis 5 = [
   0x490d678d, 0x921acf1a, 0x20f48383, 0x41e90706,
   0x83d20e0c, 0x036501af, 0x06ca035e, 0x0d9406bc]"
  by (subst basis_numeral) (simp add: basis_4 crc_zero_byte_def crc_bit_def)

lemma basis_6:
  "basis 6 = [
   0x1b280d78, 0x36501af0, 0x6ca035e0, 0xd9406bc0,
   0xb641ca37, 0x684289d9, 0xd08513b2, 0xa5cb3ad3]"
  by (subst basis_numeral) (simp add: basis_5 crc_zero_byte_def crc_bit_def)

lemma basis_7:
  "basis 7 = [
   0x4f576811, 0x9eaed022, 0x399cbdf3, 0x73397be6,
   0xe672f7cc, 0xc824f22f, 0x9488f9e9, 0x2dd0ee65]"
  by (subst basis_numeral) (simp add: basis_6 crc_zero_byte_def crc_bit_def)

lemma basis_8:
  "basis 8 = [
   0x5ba1dcca, 0xb743b994, 0x6a466e9f, 0xd48cdd3e,
   0xadd8a7cb, 0x5f705221, 0xbee0a442, 0x79005533]"
  by (subst basis_numeral) (simp add: basis_7 crc_zero_byte_def crc_bit_def)

lemmas basis_values = basis_1 basis_2 basis_3 basis_4 basis_5 basis_6 basis_7 basis_8

lemma BZ2_crc32Table_span: "BZ2_crc32Table = xor_span (basis (Suc 0))"
  by (simp add: BZ2_crc32Table_def basis_values xor_span_def)

lemma crc32_s8_0_span: "crc32_s8_0 = xor_span (basis (Suc 0))"
  by (simp add: crc32_s8_0_def basis_values xor_span_def)

lemma crc32_s8_1_span: "crc32_s8_1 = xor_span (basis 2)"
  by (simp add: crc32_s8_1_def basis_values xor_span_def)

lemma crc32_s8_2_span: "crc32_s8_2 = xor_span (basis 3)"
  by (simp add: crc32_s8_2_def basis_values xor_span_def)

lemma crc32_s8_3_span: "crc32_s8_3 = xor_span (basis 4)"
  by (simp add: crc32_s8_3_def basis_values xor_span_def)

lemma crc32_s8_4_span: "crc32_s8_4 = xor_span (basis 5)"
  by (simp add: crc32_s8_4_def basis_values xor_span_def)

lemma crc32_s8_5_span: "crc32_s8_5 = xor_span (basis 6)"
  by (simp add: crc32_s8_5_def basis_values xor_span_def)

lemma crc32_s8_6_span: "crc32_s8_6 = xor_span (basis 7)"
  by (simp add: crc32_s8_6_def basis_values xor_span_def)

lemma crc32_s8_7_span: "crc32_s8_7 = xor_span (basis 8)"
  by (simp add: crc32_s8_7_def basis_values xor_span_def)

lemma linear_table_nth:
  assumes "t = xor_span (basis k)" and "i < 256"
  shows "t ! i = (crc_bit ^^ (8 * k)) (lead i)"
  using assms xor_span_linear [of "8 * k" 8] by (simp add: basis_def)

lemma BZ2_crc32Table_nth: "i < 256 \<Longrightarrow> BZ2_crc32Table ! i = (crc_bit ^^ 8) (lead i)"
  using linear_table_nth [OF BZ2_crc32Table_span] by simp

lemma crc32_s8_nth:
  assumes "k < 8" and "i < 256"
  shows "crc32_s8 ! k ! i = (crc_bit ^^ (8 * Suc k)) (lead i)"
proof -
  have "crc32_s8 ! k = xor_span (basis (Suc k))"
    using assms(1)
    by (auto simp: crc32_s8_def less_Suc_eq numeral_eq_Suc crc32_s8_0_span crc32_s8_1_span
        crc32_s8_2_span crc32_s8_3_span crc32_s8_4_span crc32_s8_5_span crc32_s8_6_span
        crc32_s8_7_span)
  then show ?thesis using assms(2) by (rule linear_table_nth)
qed

section \<open>The one-byte step divides by the polynomial\<close>

lemma word32_eqI:
  fixes v w :: u32
  assumes "\<And>k. k < 8 \<Longrightarrow> bit v k = bit w k" "\<And>k. k < 8 \<Longrightarrow> bit v (8 + k) = bit w (8 + k)"
    "\<And>k. k < 8 \<Longrightarrow> bit v (16 + k) = bit w (16 + k)" "\<And>k. k < 8 \<Longrightarrow> bit v (24 + k) = bit w (24 + k)"
  shows "v = w"
proof (rule bit_word_eqI)
  fix n assume "n < LENGTH(32)"
  then consider "n < 8" | "8 \<le> n" "n - 8 < 8" | "16 \<le> n" "n - 16 < 8" | "24 \<le> n" "n - 24 < 8"
    by fastforce
  then show "bit v n = bit w n"
    using assms(1) [of n] assms(2) [of "n - 8"] assms(3) [of "n - 16"] assms(4) [of "n - 24"]
    by cases simp_all
qed

lemma byte_masks:
  "0xFF = (mask 8 :: u32)" "0xFF00 = (push_bit 8 (mask 8) :: u32)"
  by (simp_all add: mask_eq_exp_minus_1)

lemma lead_unat: "lead (unat (w :: u32)) = push_bit 24 w"
  by (simp add: lead_def)

lemma unat_top_less: "unat (drop_bit 24 c XOR ucast (b :: u8) :: u32) < 256"
proof -
  let ?w = "drop_bit 24 c XOR ucast b :: u32"
  have "?w = take_bit 8 ?w"
    by (rule bit_word_eqI) (auto simp: bit_simps dest: bit_imp_le_length)
  then have "unat ?w = take_bit 8 (unat ?w)"
    by (metis unsigned_take_bit_eq)
  then show ?thesis
    using take_bit_nat_less_exp [of 8 "unat ?w"] by simp
qed

theorem BZ_UPDATE_CRC_eq: "BZ_UPDATE_CRC crc b = crc_byte crc b"
proof -
  let ?x = "crc XOR push_bit 24 (ucast b) :: u32"
  let ?low = "take_bit 24 crc"
  have x: "?x = (push_bit 24 (drop_bit 24 crc) XOR push_bit 24 (ucast b)) XOR ?low"
    by (rule bit_word_eqI) (auto simp: bit_simps)
  have "(crc_bit ^^ 8) ?low = push_bit 8 ?low"
    by (rule crc_bits_low) (auto simp: bit_simps)
  also have "\<dots> = push_bit 8 crc"
    by (rule bit_word_eqI) (auto simp: bit_simps)
  finally have low: "(crc_bit ^^ 8) ?low = push_bit 8 crc" .
  have top: "BZ2_crc32Table ! unat (drop_bit 24 crc XOR ucast b) =
      (crc_bit ^^ 8) (push_bit 24 (drop_bit 24 crc) XOR push_bit 24 (ucast b))"
    by (simp only: BZ2_crc32Table_nth [OF unat_top_less] lead_unat push_bit_xor)
  show ?thesis
    by (simp only: crc_byte_def BZ_UPDATE_CRC_def top crc_bits_xor [of 8 _ ?low] x low xor.commute [of "push_bit 8 crc"])
qed

section \<open>The batch update is the fold of the one-byte step\<close>

definition be32 :: "u8 \<Rightarrow> u8 \<Rightarrow> u8 \<Rightarrow> u8 \<Rightarrow> u32" where
  "be32 b0 b1 b2 b3 = push_bit 24 (ucast b0) XOR push_bit 16 (ucast b1)
     XOR push_bit 8 (ucast b2) XOR ucast b3"

lemma crc_bits_shift:
  assumes "m + n \<le> 24"
  shows "(crc_bit ^^ m) (push_bit n (ucast (b :: u8))) = push_bit (m + n) (ucast b)"
proof -
  have "(crc_bit ^^ m) (push_bit n (ucast b)) = push_bit m (push_bit n (ucast b))"
    using assms by (intro crc_bits_low) (auto simp: bit_simps dest: bit_imp_le_length)
  then show ?thesis by simp
qed

lemma crc_bytes_4:
  "crc_bytes c [b0, b1, b2, b3] = (crc_bit ^^ 32) (c XOR be32 b0 b1 b2 b3)"
proof -
  have e: "push_bit 24 (ucast b1) = (crc_bit ^^ 8) (push_bit 16 (ucast b1))"
          "push_bit 24 (ucast b2) = (crc_bit ^^ 16) (push_bit 8 (ucast b2))"
          "push_bit 24 (ucast b3) = (crc_bit ^^ 24) (ucast b3)"
    using crc_bits_shift [of 8 16] crc_bits_shift [of 16 8] crc_bits_shift [of 24 0] by simp_all
  have f: "(crc_bit ^^ 32) x = (crc_bit ^^ 8) ((crc_bit ^^ 24) x)"
          "(crc_bit ^^ 24) x = (crc_bit ^^ 8) ((crc_bit ^^ 16) x)"
          "(crc_bit ^^ 16) x = (crc_bit ^^ 8) ((crc_bit ^^ 8) x)" for x
    by (simp_all flip: funpow_add comp_def [of "crc_bit ^^ _" "crc_bit ^^ _", THEN fun_cong])
  show ?thesis
    by (simp only: crc_bytes_def crc_byte_def foldl_Cons foldl_Nil be32_def e f crc_bits_xor xor.assoc)
qed

text \<open>Splitting a word into its four bytes, each at the leading position.\<close>

lemma crc_bits_word:
  fixes w :: u32
  shows "(crc_bit ^^ 32) w =
     (crc_bit ^^ 32) (push_bit 24 (drop_bit 24 w AND 0xFF)) XOR
     (crc_bit ^^ 24) (push_bit 24 (drop_bit 16 w AND 0xFF)) XOR
     (crc_bit ^^ 16) (push_bit 24 (drop_bit 8 w AND 0xFF)) XOR
     (crc_bit ^^ 8) (push_bit 24 (w AND 0xFF))"
proof -
  have m: "0xFF = (mask 8 :: u32)" by (simp add: mask_eq_exp_minus_1)
  let ?B = "\<lambda>n. take_bit 8 (drop_bit n w)"
  have w: "w = push_bit 24 (?B 24) XOR push_bit 16 (?B 16) XOR push_bit 8 (?B 8) XOR take_bit 8 w"
    by (rule word32_eqI) (simp_all add: bit_simps)
  have sh: "(crc_bit ^^ n) (push_bit k (take_bit 8 x)) = push_bit (n + k) (take_bit 8 x)"
    if "n + k \<le> 24" for n k x
  proof -
    have "(crc_bit ^^ n) (push_bit k (take_bit 8 x)) = push_bit n (push_bit k (take_bit 8 x))"
      using that by (intro crc_bits_low) (auto simp: bit_simps)
    then show ?thesis by simp
  qed
  have s1: "(crc_bit ^^ 32) (push_bit 16 (?B 16)) = (crc_bit ^^ 24) (push_bit 24 (?B 16))"
    using sh [of 8 16 "drop_bit 16 w"] funpow_add [of 24 8 crc_bit] by simp
  have s2: "(crc_bit ^^ 32) (push_bit 8 (?B 8)) = (crc_bit ^^ 16) (push_bit 24 (?B 8))"
    using sh [of 16 8 "drop_bit 8 w"] funpow_add [of 16 16 crc_bit] by simp
  have s3: "(crc_bit ^^ 32) (take_bit 8 w) = (crc_bit ^^ 8) (push_bit 24 (take_bit 8 w))"
    using sh [of 24 0 w] funpow_add [of 8 24 crc_bit] by simp
  show ?thesis
    by (subst w) (simp only: crc_bits_xor s1 s2 s3 m flip: take_bit_eq_mask)
qed

lemma bswap32_xor: "bswap32 (x XOR y) = bswap32 x XOR bswap32 y"
  by (rule word32_eqI) (simp_all add: bswap32_def byte_masks bit_simps)

lemma bswap32_bswap32: "bswap32 (bswap32 x) = x"
  by (rule word32_eqI) (simp_all add: bswap32_def byte_masks bit_simps)

lemma not_bit_u8 [simp]: "8 \<le> n \<Longrightarrow> \<not> bit (b :: u8) n"
  using bit_imp_le_length [of b n] by auto

lemma bswap32_load: "bswap32 (load_le32 b0 b1 b2 b3) = be32 b0 b1 b2 b3"
  by (rule word32_eqI)
    (simp_all add: bswap32_def load_le32_def be32_def byte_masks bit_simps)

lemma unat_byte_less: "unat (x AND 0xFF :: u32) < 256"
  using take_bit_nat_less_exp [of 8 "unat x"]
  by (simp add: byte_masks unsigned_take_bit_eq flip: take_bit_eq_mask)

lemma crc_slice8_eq:
  "crc_slice8 crc (load_le32 b0 b1 b2 b3) (load_le32 b4 b5 b6 b7) =
   crc_bytes crc [b0, b1, b2, b3, b4, b5, b6, b7]"
proof -
  let ?one = "crc XOR be32 b0 b1 b2 b3" and ?two = "be32 b4 b5 b6 b7"
  have tab: "crc32_s8 ! k ! unat (x AND 0xFF) = (crc_bit ^^ (8 * Suc k)) (push_bit 24 (x AND 0xFF))"
    if "k < 8" for k x
    using crc32_s8_nth [OF that unat_byte_less, of x] by (simp only: lead_unat)
  have one: "bswap32 (load_le32 b0 b1 b2 b3 XOR bswap32 crc) = ?one"
    by (simp add: bswap32_xor bswap32_bswap32 bswap32_load xor.commute)
  have high: "(crc_bit ^^ 64) x = (crc_bit ^^ 32) ((crc_bit ^^ 32) x)"
     "(crc_bit ^^ 56) x = (crc_bit ^^ 32) ((crc_bit ^^ 24) x)"
     "(crc_bit ^^ 48) x = (crc_bit ^^ 32) ((crc_bit ^^ 16) x)"
     "(crc_bit ^^ 40) x = (crc_bit ^^ 32) ((crc_bit ^^ 8) x)" for x
    using funpow_add [of 32 32 crc_bit] funpow_add [of 32 24 crc_bit]
      funpow_add [of 32 16 crc_bit] funpow_add [of 32 8 crc_bit] by simp_all
  have A: "(crc_bit ^^ 32) ((crc_bit ^^ 32) w) =
     (crc_bit ^^ 64) (push_bit 24 (drop_bit 24 w AND 0xFF)) XOR
     (crc_bit ^^ 56) (push_bit 24 (drop_bit 16 w AND 0xFF)) XOR
     (crc_bit ^^ 48) (push_bit 24 (drop_bit 8 w AND 0xFF)) XOR
     (crc_bit ^^ 40) (push_bit 24 (w AND 0xFF))" for w
    by (subst crc_bits_word) (simp only: crc_bits_xor high)
  have t: "crc32_s8 ! 7 ! unat (x AND 0xFF) = (crc_bit ^^ 64) (push_bit 24 (x AND 0xFF))"
    "crc32_s8 ! 6 ! unat (x AND 0xFF) = (crc_bit ^^ 56) (push_bit 24 (x AND 0xFF))"
    "crc32_s8 ! 5 ! unat (x AND 0xFF) = (crc_bit ^^ 48) (push_bit 24 (x AND 0xFF))"
    "crc32_s8 ! 4 ! unat (x AND 0xFF) = (crc_bit ^^ 40) (push_bit 24 (x AND 0xFF))"
    "crc32_s8 ! 3 ! unat (x AND 0xFF) = (crc_bit ^^ 32) (push_bit 24 (x AND 0xFF))"
    "crc32_s8 ! 2 ! unat (x AND 0xFF) = (crc_bit ^^ 24) (push_bit 24 (x AND 0xFF))"
    "crc32_s8 ! 1 ! unat (x AND 0xFF) = (crc_bit ^^ 16) (push_bit 24 (x AND 0xFF))"
    "crc32_s8 ! 0 ! unat (x AND 0xFF) = (crc_bit ^^ 8) (push_bit 24 (x AND 0xFF))" for x
    using tab [of 7 x] tab [of 6 x] tab [of 5 x] tab [of 4 x] tab [of 3 x] tab [of 2 x]
      tab [of 1 x] tab [of 0 x] by simp_all
  have "crc_slice8 crc (load_le32 b0 b1 b2 b3) (load_le32 b4 b5 b6 b7) =
      (crc_bit ^^ 32) ((crc_bit ^^ 32) ?one) XOR (crc_bit ^^ 32) ?two"
    unfolding crc_slice8_def Let_def one bswap32_load
    by (simp only: A crc_bits_word [of ?two] t xor.assoc)
  also have "\<dots> = crc_bytes (crc_bytes crc [b0, b1, b2, b3]) [b4, b5, b6, b7]"
    by (simp only: crc_bytes_4 crc_bits_xor)
  finally show ?thesis by (simp add: crc_bytes_def)
qed

lemma crc_bytes_Nil [simp]: "crc_bytes c [] = c"
  and crc_bytes_Cons: "crc_bytes c (b # bs) = crc_bytes (crc_byte c b) bs"
  and crc_bytes_append: "crc_bytes c (xs @ ys) = crc_bytes (crc_bytes c xs) ys"
  by (simp_all add: crc_bytes_def)

lemma crc_prologue_eq:
  "crc_prologue p c bs = (c', bs') \<Longrightarrow> crc_bytes c' bs' = crc_bytes c bs"
  by (induction p c bs rule: crc_prologue.induct)
    (auto simp: BZ_UPDATE_CRC_eq crc_bytes_Cons split: if_splits)

lemma crc_slice8_loop_eq:
  "crc_slice8_loop c bs = (c', bs') \<Longrightarrow> crc_bytes c' bs' = crc_bytes c bs"
  by (induction c bs rule: crc_slice8_loop.induct)
    (auto simp: crc_slice8_eq crc_bytes_Cons)

lemma crc_tail_eq: "crc_tail c bs = crc_bytes c bs"
  by (induction c bs rule: crc_tail.induct) (simp_all add: BZ_UPDATE_CRC_eq crc_bytes_Cons)

lemma crc32_update_soft_eq: "crc32_update_soft addr crc buf = crc_bytes crc buf"
  by (simp add: crc32_update_soft_def crc_tail_eq crc_prologue_eq crc_slice8_loop_eq split: prod.split)

section \<open>Properties\<close>

text \<open>C39: the byte-at-a-time update with the 256-entry table is eight steps of the bit-serial
  division by the generator polynomial 0x04C11DB7, for every register and every byte.\<close>

theorem crc_update_is_polynomial_division:
  "BZ_UPDATE_CRC crc b = (crc_bit ^^ 8) (crc XOR push_bit 24 (ucast b))"
  by (simp add: BZ_UPDATE_CRC_eq crc_byte_def)

text \<open>C26: the batch update (prologue up to alignment, slicing by eight, tail) computes exactly
  what feeding the bytes one at a time to \<open>BZ_UPDATE_CRC\<close> computes, at every alignment of the
  buffer and for every length.\<close>

theorem crc_batch_update_eq_bytewise:
  "crc32_update_soft addr crc buf = foldl BZ_UPDATE_CRC crc buf"
proof -
  have "BZ_UPDATE_CRC = crc_byte" by (simp add: fun_eq_iff BZ_UPDATE_CRC_eq)
  then show ?thesis by (simp add: crc32_update_soft_eq crc_bytes_def)
qed

text \<open>table \<open>k\<close> of the slicing-by-eight tables holds, for every byte value, the register after
  \<open>k + 1\<close> byte steps from that byte; all 2048 constants of the array are covered.\<close>

theorem crc_slicing_tables:
  assumes "k < 8" and "i < 256"
  shows "crc32_s8 ! k ! i = (crc_bit ^^ (8 * (k + 1))) (push_bit 24 (word_of_nat i))"
  using crc32_s8_nth [OF assms] by (simp add: lead_def)

theorem crc_slicing_tables_witness:
  "crc32_s8 ! 7 ! 255 = (crc_bit ^^ (8 * (7 + 1))) (push_bit 24 (word_of_nat 255))"
  by (rule crc_slicing_tables) simp_all

end
