(* ===== verification/DState.thy ===== *)
theory DState
  imports FastTable RandTable Crc
begin

text \<open>
  The state of a decompressor: \<open>bz_stream\<close> of \<^verbatim>\<open>include/bzlib.h\<close> and \<open>DState\<close> of
  \<^verbatim>\<open>src/qbz2_internal.h\<close>, with the macros that read the randomisation table and the
  inverse transform.

  \<open>in_buf\<close> is the memory the caller's input lies in, and \<open>next_in\<close> an index into it, \<open>int\<close> because
  the decoder also moves it back. \<open>out_buf\<close> holds what has been written through \<open>next_out\<close>, in order.
  The allocator is the caller's: \<open>allocs\<close> lists the outcomes of its next calls, and a call past the
  end of the list succeeds. The arrays are functions from indices; a pointer that can be \<open>NULL\<close> has a
  flag beside it. \<open>save_gLimit\<close>, \<open>save_gBase\<close> and \<open>save_gPerm\<close> point to the tables of one group, so
  they hold that group. \<open>k0\<close> is \<open>Int32\<close> in the code and only ever holds a byte.
\<close>

section \<open>The stream\<close>

record bz_stream =
  in_buf :: "u8 list"
  next_in :: int
  avail_in :: nat
  total_in_lo32 :: u32
  total_in_hi32 :: u32
  out_buf :: "u8 list"
  avail_out :: nat
  total_out_lo32 :: u32
  total_out_hi32 :: u32
  allocs :: "bool list"

definition in_byte :: "bz_stream \<Rightarrow> nat \<Rightarrow> u8" where
  "in_byte strm k = in_buf strm ! nat (next_in strm + int k)"

definition bz_alloc :: "bz_stream \<Rightarrow> bool \<times> bz_stream" where
  "bz_alloc strm = (case allocs strm of [] \<Rightarrow> (True, strm) | ok # oks \<Rightarrow> (ok, strm\<lparr>allocs := oks\<rparr>))"

section \<open>The locals that BZ2_decompress keeps across calls\<close>

record dsave =
  save_i :: nat
  save_j :: nat
  save_t :: nat
  save_alphaSize :: nat
  save_nGroups :: nat
  save_nSelectors :: nat
  save_EOB :: nat
  save_groupNo :: int
  save_groupPos :: nat
  save_nextSym :: nat
  save_nblockMAX :: nat
  save_nblock :: nat
  save_es :: int
  save_N :: nat
  save_curr :: int
  save_zt :: int
  save_zn :: nat
  save_zvec :: int
  save_zj :: nat
  save_gSel :: nat
  save_gMinlen :: nat
  save_gLimit :: "nat option"
  save_gBase :: "nat option"
  save_gPerm :: "nat option"

definition dsave_zero :: dsave where
  "dsave_zero = \<lparr>save_i = 0, save_j = 0, save_t = 0, save_alphaSize = 0, save_nGroups = 0,
     save_nSelectors = 0, save_EOB = 0, save_groupNo = 0, save_groupPos = 0, save_nextSym = 0,
     save_nblockMAX = 0, save_nblock = 0, save_es = 0, save_N = 0, save_curr = 0, save_zt = 0,
     save_zn = 0, save_zvec = 0, save_zj = 0, save_gSel = 0, save_gMinlen = 0,
     save_gLimit = None, save_gBase = None, save_gPerm = None\<rparr>"

section \<open>The decompression state\<close>

text \<open>The coding tables, one per group.\<close>

record dtables =
  dlen :: "nat \<Rightarrow> nat \<Rightarrow> nat"
  dlimit :: "nat \<Rightarrow> nat \<Rightarrow> int"
  dbase :: "nat \<Rightarrow> nat \<Rightarrow> int"
  dperm :: "nat \<Rightarrow> nat \<Rightarrow> nat"
  minLens :: "nat \<Rightarrow> nat"
  decode_fast :: "nat \<Rightarrow> nat \<Rightarrow> int"
  decode_overflow :: "nat \<Rightarrow> nat \<Rightarrow> int"
  decode_overflow_used :: "nat \<Rightarrow> nat"

record dstate =
  dstrm :: bz_stream
  dst :: nat
  state_out_ch :: u8
  state_out_len :: nat
  blockRandomised :: bool
  rNToGo :: nat
  rTPos :: nat
  bsBuff :: u64
  bsLive :: nat
  blockSize100k :: nat
  smallDecompress :: bool
  currBlockNo :: nat
  dverbosity :: int
  origPtr :: int
  tPos :: u32
  k0 :: u8
  unzftab :: "nat \<Rightarrow> int"
  nblock_used :: nat
  cftab :: "nat \<Rightarrow> int"
  cftabCopy :: "nat \<Rightarrow> int"
  tt :: "nat \<Rightarrow> u32"
  tt_ptr :: bool
  ll16 :: "nat \<Rightarrow> u16"
  ll16_ptr :: bool
  ll4 :: "nat \<Rightarrow> u8"
  ll4_ptr :: bool
  storedBlockCRC :: u32
  storedCombinedCRC :: u32
  calculatedBlockCRC :: u32
  calculatedCombinedCRC :: u32
  nInUse :: nat
  inUse :: "nat \<Rightarrow> bool"
  inUse16 :: "nat \<Rightarrow> bool"
  seqToUnseq :: "nat \<Rightarrow> u8"
  mtfa :: "nat \<Rightarrow> u8"
  selector :: "nat \<Rightarrow> nat"
  selectorMtf :: "nat \<Rightarrow> nat"
  dtab :: dtables
  dsv :: dsave

section \<open>The randomisation macros\<close>

definition BZ_RAND_INIT_MASK :: "dstate \<Rightarrow> dstate" where
  "BZ_RAND_INIT_MASK s = s\<lparr>rNToGo := 0, rTPos := 0\<rparr>"

definition BZ_RAND_MASK :: "dstate \<Rightarrow> u8" where
  "BZ_RAND_MASK s = (if rNToGo s = 1 then 1 else 0)"

definition BZ_RAND_UPD_MASK :: "dstate \<Rightarrow> dstate" where
  "BZ_RAND_UPD_MASK s =
     (let s = (if rNToGo s = 0 then
                 let s = s\<lparr>rNToGo := BZ2_rNums ! rTPos s, rTPos := rTPos s + 1\<rparr>
                 in if rTPos s = 512 then s\<lparr>rTPos := 0\<rparr> else s
               else s)
      in s\<lparr>rNToGo := rNToGo s - 1\<rparr>)"

section \<open>The macros that follow the inverse transform\<close>

text \<open>\<open>None\<close> is the early \<open>return True\<close> of the macros: the position lies outside the block.\<close>

definition tpos_bad :: "dstate \<Rightarrow> bool" where
  "tpos_bad s \<longleftrightarrow> tPos s \<ge> 100000 * word_of_nat (blockSize100k s)"

definition BZ_GET_FAST :: "dstate \<Rightarrow> (u8 \<times> dstate) option" where
  "BZ_GET_FAST s =
     (if tpos_bad s then None
      else let tpos = tt s (unat (tPos s))
           in Some (ucast (tpos AND 0xff), s\<lparr>tPos := drop_bit 8 tpos\<rparr>))"

definition SET_LL4 :: "nat \<Rightarrow> u32 \<Rightarrow> (nat \<Rightarrow> u8) \<Rightarrow> (nat \<Rightarrow> u8)" where
  "SET_LL4 i n v =
     (if i AND 1 = 0 then v(drop_bit 1 i := (v (drop_bit 1 i) AND 0xf0) OR ucast n)
      else v(drop_bit 1 i := (v (drop_bit 1 i) AND 0x0f) OR ucast (push_bit 4 n)))"

definition GET_LL4 :: "nat \<Rightarrow> (nat \<Rightarrow> u8) \<Rightarrow> u32" where
  "GET_LL4 i v = drop_bit (push_bit 2 i AND 4) (ucast (v (drop_bit 1 i))) AND 0xF"

text \<open>The pair of arrays that holds 20-bit cells.\<close>

type_synonym ll = "(nat \<Rightarrow> u16) \<times> (nat \<Rightarrow> u8)"

definition SET_LL :: "nat \<Rightarrow> u32 \<Rightarrow> ll \<Rightarrow> ll" where
  "SET_LL i n l = ((fst l)(i := ucast (n AND 0x0000ffff)), SET_LL4 i (drop_bit 16 n) (snd l))"

definition GET_LL :: "nat \<Rightarrow> ll \<Rightarrow> u32" where
  "GET_LL i l = ucast (fst l i) OR push_bit 16 (GET_LL4 i (snd l))"

text \<open>The binary search of \<open>BZ2_indexIntoF\<close> in \<^verbatim>\<open>src/bzlib.c\<close>.\<close>

definition BZ2_indexIntoF :: "int \<Rightarrow> (nat \<Rightarrow> int) \<Rightarrow> nat" where
  "BZ2_indexIntoF indx cf =
     (let body = (\<lambda>(nb, na). let mid = drop_bit 1 (nb + na)
                             in if indx \<ge> cf mid then (mid, na) else (nb, mid))
      in fst (while (\<lambda>(nb, na). int na - int nb \<noteq> 1) body (body (0, 256))))"

definition BZ_GET_SMALL :: "dstate \<Rightarrow> (u8 \<times> dstate) option" where
  "BZ_GET_SMALL s =
     (if tpos_bad s then None
      else Some (word_of_nat (BZ2_indexIntoF (sint (tPos s)) (cftab s)),
                 s\<lparr>tPos := GET_LL (unat (tPos s)) (ll16 s, ll4 s)\<rparr>))"

end
