(* ===== verification/BitReader.thy ===== *)
theory BitReader
  imports DState
begin

text \<open>
  \<open>GET_BITS\<close> of \<^verbatim>\<open>src/decompress.c\<close>: the bits come from \<open>bsBuff\<close>, which is refilled by four bytes
  when four are there and there is room, else by one. \<open>pending\<close> is the bit string still ahead of
  the decoder, those buffered and those of the input that is left; the lemmas show that reading is
  \<open>take\<close> and \<open>drop\<close> on it, however the bytes arrive, and that running out loses no bit.
\<close>

section \<open>The macro\<close>

definition total_in_add :: "nat \<Rightarrow> bz_stream \<Rightarrow> bz_stream" where
  "total_in_add k strm =
     (let old = total_in_lo32 strm; lo = old + word_of_nat k
      in strm\<lparr>total_in_lo32 := lo,
             total_in_hi32 := (if lo < old then total_in_hi32 strm + 1 else total_in_hi32 strm)\<rparr>)"

definition load_be32 :: "bz_stream \<Rightarrow> u64" where
  "load_be32 strm = push_bit 24 (ucast (in_byte strm 0)) OR push_bit 16 (ucast (in_byte strm 1)) OR
     push_bit 8 (ucast (in_byte strm 2)) OR ucast (in_byte strm 3)"

definition refill4 :: "dstate \<Rightarrow> dstate" where
  "refill4 s = s\<lparr>bsBuff := push_bit 32 (bsBuff s) OR load_be32 (dstrm s), bsLive := bsLive s + 32,
     dstrm := total_in_add 4 ((dstrm s)\<lparr>next_in := next_in (dstrm s) + 4, avail_in := avail_in (dstrm s) - 4\<rparr>)\<rparr>"

definition refill1 :: "dstate \<Rightarrow> dstate" where
  "refill1 s =
     (let strm = dstrm s; lo = total_in_lo32 strm + 1
      in s\<lparr>bsBuff := push_bit 8 (bsBuff s) OR ucast (in_byte strm 0), bsLive := bsLive s + 8,
          dstrm := strm\<lparr>next_in := next_in strm + 1, avail_in := avail_in strm - 1, total_in_lo32 := lo,
             total_in_hi32 := (if lo = 0 then total_in_hi32 strm + 1 else total_in_hi32 strm)\<rparr>\<rparr>)"

text \<open>\<open>None\<close>: the input ran out, and the macro returns \<open>BZ_OK\<close> to the caller.\<close>

function GET_BITS :: "nat \<Rightarrow> dstate \<Rightarrow> nat option \<times> dstate" where
  "GET_BITS nnn s =
     (if bsLive s \<ge> nnn then
        (Some (unat (drop_bit (bsLive s - nnn) (bsBuff s) AND mask nnn)), s\<lparr>bsLive := bsLive s - nnn\<rparr>)
      else if avail_in (dstrm s) \<ge> 4 \<and> bsLive s \<le> 32 then GET_BITS nnn (refill4 s)
      else if avail_in (dstrm s) = 0 then (None, s)
      else GET_BITS nnn (refill1 s))"
  by pat_completeness auto
termination
  by (relation "measure (\<lambda>(nnn, s). avail_in (dstrm s))")
    (auto simp: refill4_def refill1_def total_in_add_def Let_def)

declare GET_BITS.simps [simp del]

section \<open>The bits ahead\<close>

definition in_bytes :: "bz_stream \<Rightarrow> u8 list" where
  "in_bytes strm = map (in_byte strm) [0..<avail_in strm]"

definition bytes_bits :: "u8 list \<Rightarrow> bool list" where
  "bytes_bits bs = concat (map (to_bits 8) bs)"

definition pending :: "dstate \<Rightarrow> bool list" where
  "pending s = to_bits (bsLive s) (bsBuff s) @ bytes_bits (in_bytes (dstrm s))"

lemma bytes_bits_simps [simp]:
  "bytes_bits [] = []" "bytes_bits (b # bs) = to_bits 8 b @ bytes_bits bs"
  "bytes_bits (xs @ ys) = bytes_bits xs @ bytes_bits ys"
  by (simp_all add: bytes_bits_def)

lemma length_bytes_bits [simp]: "length (bytes_bits bs) = 8 * length bs"
  by (induction bs) auto

lemma length_in_bytes [simp]: "length (in_bytes strm) = avail_in strm"
  by (simp add: in_bytes_def)

lemma length_pending: "length (pending s) = bsLive s + 8 * avail_in (dstrm s)"
  by (simp add: pending_def)

lemma total_in_add_fields [frame, simp]:
  "in_buf (total_in_add k strm) = in_buf strm" "next_in (total_in_add k strm) = next_in strm"
  "avail_in (total_in_add k strm) = avail_in strm" "out_buf (total_in_add k strm) = out_buf strm"
  "avail_out (total_in_add k strm) = avail_out strm" "allocs (total_in_add k strm) = allocs strm"
  by (simp_all add: total_in_add_def Let_def)

lemma in_byte_total [simp]: "in_byte (total_in_add k strm) i = in_byte strm i"
  by (simp add: in_byte_def)

text \<open>Pointers stay in the buffer: \<open>next_in\<close> is not negative.\<close>

definition in_ok :: "bz_stream \<Rightarrow> bool" where
  "in_ok strm \<longleftrightarrow> 0 \<le> next_in strm \<and> nat (next_in strm) + avail_in strm \<le> length (in_buf strm)"

lemma in_bytes_split:
  assumes "0 \<le> next_in strm" "k \<le> avail_in strm"
  shows "in_bytes strm = map (in_byte strm) [0..<k] @
    in_bytes (strm\<lparr>next_in := next_in strm + int k, avail_in := avail_in strm - k\<rparr>)"
proof -
  have "[0..<avail_in strm] = [0..<k] @ map (\<lambda>i. i + k) [0..<avail_in strm - k]"
    using assms(2) by (metis add.commute add.right_neutral le_add_diff_inverse map_add_upt upt_add_eq_append zero_le)
  moreover have "in_byte strm (i + k) = in_byte (strm\<lparr>next_in := next_in strm + int k, avail_in := avail_in strm - k\<rparr>) i" for i
    by (simp add: in_byte_def add.commute add.left_commute)
  ultimately show ?thesis by (simp add: in_bytes_def o_def)
qed

lemma in_bytes_total [simp]: "in_bytes (total_in_add k strm) = in_bytes strm"
  by (simp add: in_bytes_def)

lemma to_bits_push:
  fixes b :: u64
  assumes "m + n \<le> 64"
  shows "to_bits (m + n) (push_bit n b OR take_bit n c) = to_bits m b @ to_bits n c"
  using to_bits_append [of m n b c] assms by simp

lemma load_be32_bits:
  "to_bits 32 (load_be32 strm) = bytes_bits (map (in_byte strm) [0..<4])"
  "take_bit 32 (load_be32 strm) = load_be32 strm"
proof -
  have u: "[0..<4] = [0, 1, 2, 3 :: nat]" by (simp add: upt_rec)
  show "to_bits 32 (load_be32 strm) = bytes_bits (map (in_byte strm) [0..<4])"
    unfolding u
    by (simp add: to_bits_def load_be32_def bit_simps upt_rec)
  show "take_bit 32 (load_be32 strm) = load_be32 strm"
    by (rule bit_word_eqI) (auto simp: load_be32_def bit_simps dest: bit_imp_le_length)
qed

lemma pending_refill4:
  assumes "in_ok (dstrm s)" "4 \<le> avail_in (dstrm s)" "bsLive s \<le> 32"
  shows "pending (refill4 s) = pending s" "in_ok (dstrm (refill4 s))"
proof -
  have b: "to_bits (bsLive s + 32) (push_bit 32 (bsBuff s) OR load_be32 (dstrm s)) =
      to_bits (bsLive s) (bsBuff s) @ bytes_bits (map (in_byte (dstrm s)) [0..<4])"
    using to_bits_push [of "bsLive s" 32 "bsBuff s" "load_be32 (dstrm s)"] assms(3)
    by (simp only: load_be32_bits)
  show "pending (refill4 s) = pending s"
    using in_bytes_split [of "dstrm s" 4] assms
    by (simp add: pending_def refill4_def b in_ok_def del: upt_conv_Cons_Cons)
  show "in_ok (dstrm (refill4 s))" using assms by (simp add: refill4_def in_ok_def nat_add_distrib)
qed

lemma pending_refill1:
  assumes "in_ok (dstrm s)" "0 < avail_in (dstrm s)" "bsLive s \<le> 56"
  shows "pending (refill1 s) = pending s" "in_ok (dstrm (refill1 s))"
proof -
  let ?b = "in_byte (dstrm s) 0"
  have "take_bit 8 (ucast ?b :: u64) = ucast ?b"
    by (rule bit_word_eqI) (auto simp: bit_simps dest: bit_imp_le_length)
  then have b: "to_bits (bsLive s + 8) (push_bit 8 (bsBuff s) OR ucast ?b) =
      to_bits (bsLive s) (bsBuff s) @ to_bits 8 (ucast ?b :: u64)"
    using to_bits_push [of "bsLive s" 8 "bsBuff s" "ucast ?b"] assms(3) by simp
  also have "to_bits 8 (ucast ?b :: u64) = to_bits 8 ?b"
    by (rule nth_equalityI) (auto simp: nth_to_bits bit_simps)
  finally have b: "to_bits (bsLive s + 8) (push_bit 8 (bsBuff s) OR ucast ?b) =
      to_bits (bsLive s) (bsBuff s) @ to_bits 8 ?b" .
  have "in_bytes ((dstrm s)\<lparr>next_in := next_in (dstrm s) + 1, avail_in := avail_in (dstrm s) - 1,
        total_in_lo32 := lo, total_in_hi32 := hi\<rparr>) =
      in_bytes ((dstrm s)\<lparr>next_in := next_in (dstrm s) + int 1, avail_in := avail_in (dstrm s) - 1\<rparr>)" for lo hi
    by (simp add: in_bytes_def in_byte_def)
  then show "pending (refill1 s) = pending s"
    using in_bytes_split [of "dstrm s" 1] assms
    by (simp add: pending_def refill1_def b in_ok_def Let_def)
  show "in_ok (dstrm (refill1 s))" using assms by (simp add: refill1_def in_ok_def Let_def nat_add_distrib)
qed

text \<open>Nothing but the bit buffer and the input side of the stream changes.\<close>

definition forget_in :: "dstate \<Rightarrow> dstate" where
  "forget_in s = s\<lparr>bsBuff := 0, bsLive := 0, dstrm := (dstrm s)\<lparr>next_in := 0, avail_in := 0,
     total_in_lo32 := 0, total_in_hi32 := 0\<rparr>\<rparr>"

definition same_but_input :: "dstate \<Rightarrow> dstate \<Rightarrow> bool" where
  "same_but_input s s' \<longleftrightarrow> forget_in s' = forget_in s"

lemma same_but_input_refl: "same_but_input s s"
  by (simp add: same_but_input_def)

lemma same_but_input_trans: "same_but_input s s' \<Longrightarrow> same_but_input s' s'' \<Longrightarrow> same_but_input s s''"
  by (simp add: same_but_input_def)

lemma same_but_input_refill: "same_but_input s (refill4 s)" "same_but_input s (refill1 s)"
  by (simp_all add: same_but_input_def forget_in_def refill4_def refill1_def total_in_add_def Let_def)

lemma same_but_input_live: "same_but_input s (s\<lparr>bsLive := l\<rparr>)"
  by (simp add: same_but_input_def forget_in_def)

text \<open>\<open>read_ok\<close>: what holds of the input side between any two reads.\<close>

definition read_ok :: "dstate \<Rightarrow> bool" where
  "read_ok s \<longleftrightarrow> in_ok (dstrm s) \<and> bsLive s \<le> 64"

lemma GET_BITS_spec:
  assumes "GET_BITS n s = (r, s')" and "n \<le> 24" and "read_ok s"
  shows "read_ok s' \<and> same_but_input s s' \<and>
    (if n \<le> length (pending s)
     then r = Some (of_bits (take n (pending s))) \<and> pending s' = drop n (pending s)
     else r = None \<and> pending s' = pending s \<and> avail_in (dstrm s') = 0 \<and> bsLive s' < n)"
  using assms
proof (induction n s arbitrary: r s' rule: GET_BITS.induct)
  case (1 n s)
  have ok: "in_ok (dstrm s)" "bsLive s \<le> 64" using "1.prems" by (simp_all add: read_ok_def)
  consider "n \<le> bsLive s" | "\<not> n \<le> bsLive s" "4 \<le> avail_in (dstrm s) \<and> bsLive s \<le> 32"
    | "\<not> n \<le> bsLive s" "\<not> (4 \<le> avail_in (dstrm s) \<and> bsLive s \<le> 32)" "avail_in (dstrm s) = 0"
    | "\<not> n \<le> bsLive s" "\<not> (4 \<le> avail_in (dstrm s) \<and> bsLive s \<le> 32)" "avail_in (dstrm s) \<noteq> 0" by blast
  then show ?case
  proof cases
    case 1
    then have e: "s' = s\<lparr>bsLive := bsLive s - n\<rparr>"
        "r = Some (unat (drop_bit (bsLive s - n) (bsBuff s) AND mask n))"
      using "1.prems"(1) by (simp_all add: GET_BITS.simps [of n s])
    have t: "take n (pending s) = take n (to_bits (bsLive s) (bsBuff s))"
      using 1 by (simp add: pending_def)
    have "pending s' = drop n (pending s)"
      using 1 by (simp add: pending_def e drop_to_bits)
    moreover have "unat (drop_bit (bsLive s - n) (bsBuff s) AND mask n) = of_bits (take n (pending s))"
      unfolding t by (rule peek_bits [OF 1])
    ultimately show ?thesis
      using ok 1 same_but_input_live by (simp add: e(1) e(2) read_ok_def length_pending)
  next
    case 2
    have R: "GET_BITS n (refill4 s) = (r, s')"
      using "1.prems"(1) 2 by (simp add: GET_BITS.simps [of n s])
    have ok4: "read_ok (refill4 s)"
      using pending_refill4(2) ok 2 by (auto simp: read_ok_def refill4_def)
    have "bsLive s \<le> 32" "4 \<le> avail_in (dstrm s)" using 2 by auto
    note p = pending_refill4(1) [OF ok(1) this(2,1)]
    show ?thesis
      using "1.IH"(1) [OF 2 R "1.prems"(2) ok4] same_but_input_trans [OF same_but_input_refill(1)]
      by (simp add: p)
  next
    case 3
    then show ?thesis
      using "1.prems" same_but_input_refl by (simp add: GET_BITS.simps [of n s] length_pending)
  next
    case 4
    have R: "GET_BITS n (refill1 s) = (r, s')"
      using "1.prems"(1) 4 by (simp only: GET_BITS.simps [of n s]) simp
    have l: "bsLive s \<le> 56" "0 < avail_in (dstrm s)" using 4 "1.prems"(2) by auto
    have ok1: "read_ok (refill1 s)"
      using pending_refill1(2) [OF ok(1) l(2,1)] l by (auto simp: read_ok_def refill1_def Let_def)
    note p = pending_refill1(1) [OF ok(1) l(2,1)]
    show ?thesis
      using "1.IH"(2) [OF 4 R "1.prems"(2) ok1] same_but_input_trans [OF same_but_input_refill(2)]
      by (simp add: p)
  qed
qed

end
