(* ===== verification/Decompress.thy ===== *)
theory Decompress
  imports BitReader
begin

text \<open>
  The resumable parser \<open>BZ2_decompress\<close> of \<^verbatim>\<open>src/decompress.c\<close>.

  Every \<open>GET_BITS\<close> is a label the function can be re-entered at. A step runs from one label to the
  next: it reads the bits of its label (or returns \<open>BZ_OK\<close> when the input runs out) and executes the
  code up to the next read. The loop that decodes the symbols can go round without passing a label
  when the fast tables hit; its head is the program point \<open>MTF_LOOP\<close>. \<open>decompress_run\<close> iterates the steps; not
  returning would be \<open>None\<close>.

  The locals that the function copies out of and back into the \<open>save_\<close> fields are those fields
  here; a loop counter that is dead is not kept. \<open>gLimit\<close>, \<open>gBase\<close> and \<open>gPerm\<close> are always set together with
  \<open>gSel\<close>, to the tables of that group, and are read through it. Messages of \<open>verbosity\<close> are left out.
\<close>

section \<open>Outcomes\<close>

text \<open>\<open>Fatal\<close> is \<open>AssertH\<close> failing, which ends the process.\<close>

datatype pc = Label nat | MTF_LOOP

datatype outcome = At pc dstate | Return int dstate | Fatal int

text \<open>The labels, by their names in \<^verbatim>\<open>src/qbz2_internal.h\<close>.\<close>

abbreviation (input) BZ_X_IDLE :: nat where "BZ_X_IDLE \<equiv> 1"
abbreviation (input) BZ_X_OUTPUT :: nat where "BZ_X_OUTPUT \<equiv> 2"
abbreviation (input) BZ_X_MAGIC_1 :: nat where "BZ_X_MAGIC_1 \<equiv> 10"
abbreviation (input) BZ_X_MAGIC_2 :: nat where "BZ_X_MAGIC_2 \<equiv> 11"
abbreviation (input) BZ_X_MAGIC_3 :: nat where "BZ_X_MAGIC_3 \<equiv> 12"
abbreviation (input) BZ_X_MAGIC_4 :: nat where "BZ_X_MAGIC_4 \<equiv> 13"
abbreviation (input) BZ_X_BLKHDR_1 :: nat where "BZ_X_BLKHDR_1 \<equiv> 14"
abbreviation (input) BZ_X_BLKHDR_2 :: nat where "BZ_X_BLKHDR_2 \<equiv> 15"
abbreviation (input) BZ_X_BLKHDR_3 :: nat where "BZ_X_BLKHDR_3 \<equiv> 16"
abbreviation (input) BZ_X_BLKHDR_4 :: nat where "BZ_X_BLKHDR_4 \<equiv> 17"
abbreviation (input) BZ_X_BLKHDR_5 :: nat where "BZ_X_BLKHDR_5 \<equiv> 18"
abbreviation (input) BZ_X_BLKHDR_6 :: nat where "BZ_X_BLKHDR_6 \<equiv> 19"
abbreviation (input) BZ_X_BCRC_1 :: nat where "BZ_X_BCRC_1 \<equiv> 20"
abbreviation (input) BZ_X_BCRC_2 :: nat where "BZ_X_BCRC_2 \<equiv> 21"
abbreviation (input) BZ_X_BCRC_3 :: nat where "BZ_X_BCRC_3 \<equiv> 22"
abbreviation (input) BZ_X_BCRC_4 :: nat where "BZ_X_BCRC_4 \<equiv> 23"
abbreviation (input) BZ_X_RANDBIT :: nat where "BZ_X_RANDBIT \<equiv> 24"
abbreviation (input) BZ_X_ORIGPTR_1 :: nat where "BZ_X_ORIGPTR_1 \<equiv> 25"
abbreviation (input) BZ_X_ORIGPTR_2 :: nat where "BZ_X_ORIGPTR_2 \<equiv> 26"
abbreviation (input) BZ_X_ORIGPTR_3 :: nat where "BZ_X_ORIGPTR_3 \<equiv> 27"
abbreviation (input) BZ_X_MAPPING_1 :: nat where "BZ_X_MAPPING_1 \<equiv> 28"
abbreviation (input) BZ_X_MAPPING_2 :: nat where "BZ_X_MAPPING_2 \<equiv> 29"
abbreviation (input) BZ_X_SELECTOR_1 :: nat where "BZ_X_SELECTOR_1 \<equiv> 30"
abbreviation (input) BZ_X_SELECTOR_2 :: nat where "BZ_X_SELECTOR_2 \<equiv> 31"
abbreviation (input) BZ_X_SELECTOR_3 :: nat where "BZ_X_SELECTOR_3 \<equiv> 32"
abbreviation (input) BZ_X_CODING_1 :: nat where "BZ_X_CODING_1 \<equiv> 33"
abbreviation (input) BZ_X_CODING_2 :: nat where "BZ_X_CODING_2 \<equiv> 34"
abbreviation (input) BZ_X_CODING_3 :: nat where "BZ_X_CODING_3 \<equiv> 35"
abbreviation (input) BZ_X_MTF_1 :: nat where "BZ_X_MTF_1 \<equiv> 36"
abbreviation (input) BZ_X_MTF_2 :: nat where "BZ_X_MTF_2 \<equiv> 37"
abbreviation (input) BZ_X_MTF_3 :: nat where "BZ_X_MTF_3 \<equiv> 38"
abbreviation (input) BZ_X_MTF_4 :: nat where "BZ_X_MTF_4 \<equiv> 39"
abbreviation (input) BZ_X_MTF_5 :: nat where "BZ_X_MTF_5 \<equiv> 40"
abbreviation (input) BZ_X_MTF_6 :: nat where "BZ_X_MTF_6 \<equiv> 41"
abbreviation (input) BZ_X_ENDHDR_2 :: nat where "BZ_X_ENDHDR_2 \<equiv> 42"
abbreviation (input) BZ_X_ENDHDR_3 :: nat where "BZ_X_ENDHDR_3 \<equiv> 43"
abbreviation (input) BZ_X_ENDHDR_4 :: nat where "BZ_X_ENDHDR_4 \<equiv> 44"
abbreviation (input) BZ_X_ENDHDR_5 :: nat where "BZ_X_ENDHDR_5 \<equiv> 45"
abbreviation (input) BZ_X_ENDHDR_6 :: nat where "BZ_X_ENDHDR_6 \<equiv> 46"
abbreviation (input) BZ_X_CCRC_1 :: nat where "BZ_X_CCRC_1 \<equiv> 47"
abbreviation (input) BZ_X_CCRC_2 :: nat where "BZ_X_CCRC_2 \<equiv> 48"
abbreviation (input) BZ_X_CCRC_3 :: nat where "BZ_X_CCRC_3 \<equiv> 49"
abbreviation (input) BZ_X_CCRC_4 :: nat where "BZ_X_CCRC_4 \<equiv> 50"

abbreviation upd_sv :: "(dsave \<Rightarrow> dsave) \<Rightarrow> dstate \<Rightarrow> dstate" where
  "upd_sv f s \<equiv> s\<lparr>dsv := f (dsv s)\<rparr>"

abbreviation upd_tab :: "(dtables \<Rightarrow> dtables) \<Rightarrow> dstate \<Rightarrow> dstate" where
  "upd_tab f s \<equiv> s\<lparr>dtab := f (dtab s)\<rparr>"

section \<open>Stream header\<close>

definition magic_byte :: "nat \<Rightarrow> nat \<Rightarrow> nat \<Rightarrow> dstate \<Rightarrow> outcome" where
  "magic_byte expected next uc s =
     (if uc \<noteq> expected then Return BZ_DATA_ERROR_MAGIC s else At (Label next) s)"

definition dalloc :: "dstate \<Rightarrow> bool \<times> dstate" where
  "dalloc s = (let (ok, strm) = bz_alloc (dstrm s) in (ok, s\<lparr>dstrm := strm\<rparr>))"

text \<open>The block-size digit, and the memory of the block.\<close>

definition magic_4 :: "nat \<Rightarrow> dstate \<Rightarrow> outcome" where
  "magic_4 v s0 =
     (let s = s0\<lparr>blockSize100k := v\<rparr>
      in if blockSize100k s < 0x30 + 1 \<or> blockSize100k s > 0x30 + 9 then Return BZ_DATA_ERROR_MAGIC s
         else
           let s = s\<lparr>blockSize100k := blockSize100k s - 0x30\<rparr>
           in if smallDecompress s then
                let (ok16, s) = dalloc s; (ok4, s) = dalloc s; s = s\<lparr>ll16_ptr := ok16, ll4_ptr := ok4\<rparr>
                in if \<not> ll16_ptr s \<or> \<not> ll4_ptr s then Return BZ_MEM_ERROR s
                   else At (Label BZ_X_BLKHDR_1) s
              else
                let (ok, s) = dalloc s; s = s\<lparr>tt_ptr := ok\<rparr>
                in if \<not> tt_ptr s then Return BZ_MEM_ERROR s else At (Label BZ_X_BLKHDR_1) s)"

section \<open>Block header\<close>

definition blkhdr_1 :: "nat \<Rightarrow> dstate \<Rightarrow> outcome" where
  "blkhdr_1 uc s =
     (if uc = 0x17 then At (Label BZ_X_ENDHDR_2) s
      else if uc \<noteq> 0x31 then Return BZ_DATA_ERROR s
      else At (Label BZ_X_BLKHDR_2) s)"

definition header_byte :: "nat \<Rightarrow> nat \<Rightarrow> nat \<Rightarrow> dstate \<Rightarrow> outcome" where
  "header_byte expected next uc s =
     (if uc \<noteq> expected then Return BZ_DATA_ERROR s else At (Label next) s)"

definition blkhdr_6 :: "nat \<Rightarrow> dstate \<Rightarrow> outcome" where
  "blkhdr_6 uc s =
     (if uc \<noteq> 0x59 then Return BZ_DATA_ERROR s
      else At (Label BZ_X_BCRC_1) (s\<lparr>currBlockNo := currBlockNo s + 1, storedBlockCRC := 0\<rparr>))"

definition bcrc_byte :: "nat \<Rightarrow> nat \<Rightarrow> dstate \<Rightarrow> outcome" where
  "bcrc_byte next uc s =
     At (Label next) (s\<lparr>storedBlockCRC := push_bit 8 (storedBlockCRC s) OR word_of_nat uc\<rparr>)"

definition randbit :: "nat \<Rightarrow> dstate \<Rightarrow> outcome" where
  "randbit v s = At (Label BZ_X_ORIGPTR_1) (s\<lparr>blockRandomised := v \<noteq> 0, origPtr := 0\<rparr>)"

definition origptr_byte :: "nat \<Rightarrow> dstate \<Rightarrow> dstate" where
  "origptr_byte uc s = s\<lparr>origPtr := push_bit 8 (origPtr s) OR int uc\<rparr>"

definition origptr_3 :: "nat \<Rightarrow> dstate \<Rightarrow> outcome" where
  "origptr_3 uc s0 =
     (let s = origptr_byte uc s0
      in if origPtr s < 0 then Return BZ_DATA_ERROR s
         else if origPtr s > 10 + 100000 * int (blockSize100k s) then Return BZ_DATA_ERROR s
         else At (Label BZ_X_MAPPING_1) (upd_sv (\<lambda>v. v\<lparr>save_i := 0\<rparr>) s))"

section \<open>The byte mapping table\<close>

definition makeMaps_d :: "dstate \<Rightarrow> dstate" where
  "makeMaps_d s =
     fold (\<lambda>i s. if inUse s i
                 then s\<lparr>seqToUnseq := (seqToUnseq s)(nInUse s := word_of_nat i), nInUse := nInUse s + 1\<rparr> else s)
       [0..<256] (s\<lparr>nInUse := 0\<rparr>)"

definition mapping_done :: "dstate \<Rightarrow> outcome" where
  "mapping_done s0 =
     (let s = makeMaps_d s0
      in if nInUse s = 0 then Return BZ_DATA_ERROR s
         else At (Label BZ_X_SELECTOR_1) (upd_sv (\<lambda>v. v\<lparr>save_alphaSize := nInUse s + 2\<rparr>) s))"

text \<open>The outer loop of the second stage, from the value of \<open>i\<close> on: the next used group of 16.\<close>

definition mapping_outer :: "nat \<Rightarrow> dstate \<Rightarrow> outcome" where
  "mapping_outer i0 s0 =
     (let i = while (\<lambda>i. i < 16 \<and> \<not> inUse16 s0 i) (\<lambda>i. i + 1) i0; s = upd_sv (\<lambda>v. v\<lparr>save_i := i\<rparr>) s0
      in if i < 16 then At (Label BZ_X_MAPPING_2) (upd_sv (\<lambda>v. v\<lparr>save_j := 0\<rparr>) s)
         else mapping_done s)"

definition mapping_1 :: "nat \<Rightarrow> dstate \<Rightarrow> outcome" where
  "mapping_1 uc s0 =
     (let i = save_i (dsv s0); s = s0\<lparr>inUse16 := (inUse16 s0)(i := (uc = 1))\<rparr>;
          s = upd_sv (\<lambda>v. v\<lparr>save_i := i + 1\<rparr>) s
      in if i + 1 < 16 then At (Label BZ_X_MAPPING_1) s
         else mapping_outer 0 (s\<lparr>inUse := fold (\<lambda>i f. f(i := False)) [0..<256] (inUse s)\<rparr>))"

definition mapping_2 :: "nat \<Rightarrow> dstate \<Rightarrow> outcome" where
  "mapping_2 uc s0 =
     (let i = save_i (dsv s0); j = save_j (dsv s0);
          s = (if uc = 1 then s0\<lparr>inUse := (inUse s0)(i * 16 + j := True)\<rparr> else s0);
          s = upd_sv (\<lambda>v. v\<lparr>save_j := j + 1\<rparr>) s
      in if j + 1 < 16 then At (Label BZ_X_MAPPING_2) s else mapping_outer (i + 1) s)"

section \<open>Selectors\<close>

definition selector_1 :: "nat \<Rightarrow> dstate \<Rightarrow> outcome" where
  "selector_1 v s0 =
     (let s = upd_sv (\<lambda>sv. sv\<lparr>save_nGroups := v\<rparr>) s0
      in if v < 2 \<or> v > BZ_N_GROUPS then Return BZ_DATA_ERROR s else At (Label BZ_X_SELECTOR_2) s)"

definition selector_2 :: "nat \<Rightarrow> dstate \<Rightarrow> outcome" where
  "selector_2 v s0 =
     (let s = upd_sv (\<lambda>sv. sv\<lparr>save_nSelectors := v\<rparr>) s0
      in if v < 1 then Return BZ_DATA_ERROR s
         else At (Label BZ_X_SELECTOR_3) (upd_sv (\<lambda>sv. sv\<lparr>save_i := 0, save_j := 0\<rparr>) s))"

text \<open>Undo the move-to-front coding of the selectors.\<close>

definition mtf_front :: "nat \<Rightarrow> (nat \<Rightarrow> 'a) \<Rightarrow> (nat \<Rightarrow> 'a)" where
  "mtf_front v pos =
     (let tmp = pos v; pos = fold (\<lambda>v pos. pos(v := pos (v - 1))) (rev [1..<v + 1]) pos in pos(0 := tmp))"

definition undo_selectors :: "nat \<Rightarrow> (nat \<Rightarrow> nat) \<Rightarrow> (nat \<Rightarrow> nat) \<Rightarrow> (nat \<Rightarrow> nat)" where
  "undo_selectors nSelectors mtf sel =
     snd (fold (\<lambda>i (pos, sel). let pos = mtf_front (mtf i) pos in (pos, sel(i := pos 0)))
            [0..<nSelectors] (id, sel))"

definition selectors_done :: "dstate \<Rightarrow> outcome" where
  "selectors_done s0 =
     (let n = save_nSelectors (dsv s0); n = (if n > BZ_MAX_SELECTORS then BZ_MAX_SELECTORS else n);
          s = s0\<lparr>selector := undo_selectors n (selectorMtf s0) (selector s0)\<rparr>
      in At (Label BZ_X_CODING_1) (upd_sv (\<lambda>sv. sv\<lparr>save_nSelectors := n, save_i := n, save_t := 0\<rparr>) s))"

definition selector_3 :: "nat \<Rightarrow> dstate \<Rightarrow> outcome" where
  "selector_3 uc s =
     (let i = save_i (dsv s); j = save_j (dsv s)
      in if uc = 0 then
           let s = (if i < BZ_MAX_SELECTORS then s\<lparr>selectorMtf := (selectorMtf s)(i := j)\<rparr> else s);
               s = upd_sv (\<lambda>sv. sv\<lparr>save_i := i + 1\<rparr>) s
           in if i + 1 < save_nSelectors (dsv s)
              then At (Label BZ_X_SELECTOR_3) (upd_sv (\<lambda>sv. sv\<lparr>save_j := 0\<rparr>) s)
              else selectors_done s
         else
           let s = upd_sv (\<lambda>sv. sv\<lparr>save_j := j + 1\<rparr>) s
           in if j + 1 \<ge> save_nGroups (dsv s) then Return BZ_DATA_ERROR s else At (Label BZ_X_SELECTOR_3) s)"

section \<open>Coding tables\<close>

definition coding_check :: "dstate \<Rightarrow> outcome" where
  "coding_check s =
     (if save_curr (dsv s) < 1 \<or> save_curr (dsv s) > 20 then Return BZ_DATA_ERROR s
      else At (Label BZ_X_CODING_2) s)"

definition coding_1 :: "nat \<Rightarrow> dstate \<Rightarrow> outcome" where
  "coding_1 v s = coding_check (upd_sv (\<lambda>sv. sv\<lparr>save_curr := int v, save_i := 0\<rparr>) s)"

definition coding_3 :: "nat \<Rightarrow> dstate \<Rightarrow> outcome" where
  "coding_3 uc s =
     coding_check (upd_sv (\<lambda>sv. sv\<lparr>save_curr := (if uc = 0 then save_curr sv + 1 else save_curr sv - 1)\<rparr>) s)"

definition len_bounds :: "(nat \<Rightarrow> nat) \<Rightarrow> nat \<Rightarrow> nat \<times> nat" where
  "len_bounds len alphaSize =
     fold (\<lambda>i (minLen, maxLen). (if len i < minLen then len i else minLen,
                                 if len i > maxLen then len i else maxLen)) [0..<alphaSize] (32, 0)"

text \<open>
  The decode tables of group \<open>t\<close>. \<open>fast_build\<close> yields \<open>None\<close> for an access outside its arrays; for
  the lengths the parser lets through it never does.
\<close>

definition build_group :: "nat \<Rightarrow> nat \<Rightarrow> dtables \<Rightarrow> dtables" where
  "build_group alphaSize t d =
     (let len = dlen d t; (minLen, maxLen) = len_bounds len alphaSize;
          (limit, base, perm) = BZ2_hbCreateDecodeTables (dlimit d t, dbase d t, dperm d t) len minLen maxLen alphaSize;
          d = d\<lparr>dlimit := (dlimit d)(t := limit), dbase := (dbase d)(t := base), dperm := (dperm d)(t := perm),
                minLens := (minLens d)(t := minLen)\<rparr>
      in case fast_build len perm minLen maxLen alphaSize (decode_fast d t) (decode_overflow d t) of
           Some (tbl, ovf, used) \<Rightarrow>
             d\<lparr>decode_fast := (decode_fast d)(t := tbl), decode_overflow := (decode_overflow d)(t := ovf),
               decode_overflow_used := (decode_overflow_used d)(t := used)\<rparr>
         | None \<Rightarrow> d)"

definition build_groups :: "dstate \<Rightarrow> dstate" where
  "build_groups s =
     (let sv = dsv s
      in s\<lparr>dtab := fold (build_group (save_alphaSize sv)) [0..<save_nGroups sv] (dtab s),
          dsv := sv\<lparr>save_t := save_nGroups sv\<rparr>\<rparr>)"

section \<open>Symbols\<close>

text \<open>\<open>GET_MTF_VAL\<close> up to its first read.\<close>

definition mtf_begin :: "nat \<Rightarrow> dstate \<Rightarrow> outcome" where
  "mtf_begin label1 s0 =
     (let next = (\<lambda>s. At (Label label1)
                   (upd_sv (\<lambda>sv. sv\<lparr>save_groupPos := save_groupPos sv - 1, save_zn := save_gMinlen sv\<rparr>) s))
      in if save_groupPos (dsv s0) = 0 then
           let s = upd_sv (\<lambda>sv. sv\<lparr>save_groupNo := save_groupNo sv + 1\<rparr>) s0; sv = dsv s
           in if save_groupNo sv \<ge> int (save_nSelectors sv) then Return BZ_DATA_ERROR s
              else
                let g = selector s (nat (save_groupNo sv))
                in next (upd_sv (\<lambda>sv. sv\<lparr>save_groupPos := BZ_G_SIZE, save_gSel := g, save_gMinlen := minLens (dtab s) g,
                     save_gLimit := Some g, save_gPerm := Some g, save_gBase := Some g\<rparr>) s)
         else next s0)"

definition symbol_loop_init :: "dstate \<Rightarrow> outcome" where
  "symbol_loop_init s0 =
     (let s = upd_sv (\<lambda>sv. sv\<lparr>save_EOB := nInUse s0 + 1, save_nblockMAX := 100000 * blockSize100k s0,
                save_groupNo := -1, save_groupPos := 0\<rparr>) s0;
          s = s\<lparr>unzftab := fold (\<lambda>i f. f(i := 0)) [0..<256] (unzftab s),
               mtfa := fold (\<lambda>i f. f(i := word_of_nat i)) [0..<256] (mtfa s)\<rparr>
      in mtf_begin BZ_X_MTF_1 (upd_sv (\<lambda>sv. sv\<lparr>save_i := 256, save_nblock := 0\<rparr>) s))"

definition coding_2 :: "nat \<Rightarrow> dstate \<Rightarrow> outcome" where
  "coding_2 uc s =
     (if uc = 0 then
        let sv = dsv s; t = save_t sv; i = save_i sv;
            s = upd_tab (\<lambda>d. d\<lparr>dlen := (dlen d)(t := (dlen d t)(i := nat (save_curr sv)))\<rparr>) s;
            s = upd_sv (\<lambda>sv. sv\<lparr>save_i := i + 1\<rparr>) s
        in if i + 1 < save_alphaSize sv then coding_check s
           else
             let s = upd_sv (\<lambda>sv. sv\<lparr>save_t := t + 1\<rparr>) s
             in if t + 1 < save_nGroups sv then At (Label BZ_X_CODING_1) s
                else symbol_loop_init (build_groups s)
      else At (Label BZ_X_CODING_3) s)"

text \<open>The rest of \<open>GET_MTF_VAL\<close>, from the test of \<open>zvec\<close>; \<open>k\<close> is the code behind the macro.\<close>

definition mtf_test :: "nat \<Rightarrow> (dstate \<Rightarrow> outcome) \<Rightarrow> dstate \<Rightarrow> outcome" where
  "mtf_test label2 k s =
     (let sv = dsv s; g = save_gSel sv; zn = save_zn sv; zvec = save_zvec sv
      in if zn > 20 then Return BZ_DATA_ERROR s
         else if zvec \<le> dlimit (dtab s) g zn then
           if zvec - dbase (dtab s) g zn < 0 \<or> zvec - dbase (dtab s) g zn \<ge> int BZ_MAX_ALPHA_SIZE
           then Return BZ_DATA_ERROR s
           else k (upd_sv (\<lambda>sv. sv\<lparr>save_nextSym := dperm (dtab s) g (nat (zvec - dbase (dtab s) g zn))\<rparr>) s)
         else At (Label label2) (upd_sv (\<lambda>sv. sv\<lparr>save_zn := zn + 1\<rparr>) s))"

definition mtf_first :: "nat \<Rightarrow> (dstate \<Rightarrow> outcome) \<Rightarrow> nat \<Rightarrow> dstate \<Rightarrow> outcome" where
  "mtf_first label2 k v s = mtf_test label2 k (upd_sv (\<lambda>sv. sv\<lparr>save_zvec := int v\<rparr>) s)"

definition mtf_next :: "nat \<Rightarrow> (dstate \<Rightarrow> outcome) \<Rightarrow> nat \<Rightarrow> dstate \<Rightarrow> outcome" where
  "mtf_next label2 k v s =
     mtf_test label2 k (upd_sv (\<lambda>sv. sv\<lparr>save_zj := v, save_zvec := push_bit 1 (save_zvec sv) OR int v\<rparr>) s)"

section \<open>Runs and literals\<close>

text \<open>Store \<open>es\<close> copies of a byte behind the \<open>nblock\<close> bytes decoded so far.\<close>

definition store_byte :: "nat \<Rightarrow> nat \<Rightarrow> u8 \<Rightarrow> dstate \<Rightarrow> dstate" where
  "store_byte nblock es uc s =
     (if smallDecompress s
      then s\<lparr>ll16 := fold (\<lambda>k f. f(nblock + k := ucast uc)) [0..<es] (ll16 s)\<rparr>
      else s\<lparr>tt := fold (\<lambda>k f. f(nblock + k := ucast uc)) [0..<es] (tt s)\<rparr>)"

definition run_digit :: "dstate \<Rightarrow> outcome" where
  "run_digit s =
     (let sv = dsv s
      in if save_N sv \<ge> 2 * 1024 * 1024 then Return BZ_DATA_ERROR s
         else
           let es = (if save_nextSym sv = BZ_RUNA then save_es sv + (0 + 1) * int (save_N sv)
                     else if save_nextSym sv = BZ_RUNB then save_es sv + (1 + 1) * int (save_N sv)
                     else save_es sv)
           in mtf_begin BZ_X_MTF_3 (upd_sv (\<lambda>sv. sv\<lparr>save_es := es, save_N := save_N sv * 2\<rparr>) s))"

definition run_end :: "dstate \<Rightarrow> outcome" where
  "run_end s0 =
     (let s = upd_sv (\<lambda>sv. sv\<lparr>save_es := save_es sv + 1\<rparr>) s0; sv = dsv s;
          uc = seqToUnseq s (unat (mtfa s 0));
          s = s\<lparr>unzftab := (unzftab s)(unat uc := unzftab s (unat uc) + save_es sv)\<rparr>
      in if int (save_nblock sv) + save_es sv > int (save_nblockMAX sv) then Return BZ_DATA_ERROR s
         else
           let s = store_byte (save_nblock sv) (nat (save_es sv)) uc s
           in At MTF_LOOP (upd_sv (\<lambda>sv. sv\<lparr>save_nblock := save_nblock sv + nat (save_es sv)\<rparr>) s))"

text \<open>The \<open>while\<close> test of the run loop, after another symbol.\<close>

definition run_more :: "dstate \<Rightarrow> outcome" where
  "run_more s =
     (if save_nextSym (dsv s) = BZ_RUNA \<or> save_nextSym (dsv s) = BZ_RUNB then run_digit s else run_end s)"

definition fast_refill :: "dstate \<Rightarrow> dstate" where
  "fast_refill s = (if bsLive s \<le> 32 \<and> avail_in (dstrm s) \<ge> 4 then refill4 s else s)"

text \<open>After a literal: the fast tables first, else the search by length.\<close>

definition next_symbol :: "dstate \<Rightarrow> outcome" where
  "next_symbol s0 =
     (if save_groupPos (dsv s0) > 0 then
        let s = fast_refill s0; g = save_gSel (dsv s)
        in case fast_lookup (decode_fast (dtab s) g) (decode_overflow (dtab s) g) (bsBuff s) (bsLive s) of
             Some (l, sm) \<Rightarrow>
               At MTF_LOOP (upd_sv (\<lambda>sv. sv\<lparr>save_nextSym := sm, save_groupPos := save_groupPos sv - 1\<rparr>)
                              (s\<lparr>bsLive := bsLive s - l\<rparr>))
           | None \<Rightarrow> mtf_begin BZ_X_MTF_5 s
      else mtf_begin BZ_X_MTF_5 s0)"

definition literal :: "dstate \<Rightarrow> outcome" where
  "literal s0 =
     (let sv = dsv s0
      in if save_nblock sv \<ge> save_nblockMAX sv then Return BZ_DATA_ERROR s0
         else
           let nn = save_nextSym sv - 1; s = s0\<lparr>mtfa := mtf_front nn (mtfa s0)\<rparr>;
               uc = seqToUnseq s (unat (mtfa s 0));
               s = s\<lparr>unzftab := (unzftab s)(unat uc := unzftab s (unat uc) + 1)\<rparr>;
               s = store_byte (save_nblock sv) 1 uc s
           in next_symbol (upd_sv (\<lambda>sv. sv\<lparr>save_nblock := save_nblock sv + 1\<rparr>) s))"

section \<open>End of the block\<close>

definition build_cftab :: "dstate \<Rightarrow> dstate" where
  "build_cftab s =
     (let cf = (cftab s)(0 := 0);
          cf = fold (\<lambda>i cf. cf(i := unzftab s (i - 1))) [1..<257] cf;
          cf = fold (\<lambda>i cf. cf(i := cf i + cf (i - 1))) [1..<257] cf
      in s\<lparr>cftab := cf\<rparr>)"

definition block_checks :: "dstate \<Rightarrow> bool" where
  "block_checks s \<longleftrightarrow>
     list_all (\<lambda>i. \<not> (cftab s i < 0 \<or> cftab s i > int (save_nblock (dsv s)))) [0..<257] \<and>
     list_all (\<lambda>i. \<not> cftab s (i - 1) > cftab s i) [1..<257]"

text \<open>The inverse transform for the fast mode, in the upper 24 bits of \<open>tt\<close>.\<close>

definition invert_fast :: "dstate \<Rightarrow> dstate" where
  "invert_fast s =
     fold (\<lambda>i s. let uc = unat (tt s i AND 0xff); p = nat (cftab s uc)
                 in s\<lparr>tt := (tt s)(p := tt s p OR push_bit 8 (word_of_nat i)),
                      cftab := (cftab s)(uc := cftab s uc + 1)\<rparr>)
       [0..<save_nblock (dsv s)] s"

text \<open>The inverse transform for the small mode, in 20-bit cells, inverted by pointer reversal.\<close>

definition invert_small_step :: "nat \<Rightarrow> ll \<times> (nat \<Rightarrow> int) \<Rightarrow> ll \<times> (nat \<Rightarrow> int)" where
  "invert_small_step i x =
     (let (l, copy) = x; uc = unat (ucast (fst l i) :: u8)
      in (SET_LL i (word_of_int (copy uc)) l, copy(uc := copy uc + 1)))"

definition invert_small :: "dstate \<Rightarrow> dstate" where
  "invert_small s =
     (let copy = fold (\<lambda>i f. f(i := cftab s i)) [0..<257] (cftabCopy s);
          ((l16, l4), copy) = fold invert_small_step [0..<save_nblock (dsv s)] ((ll16 s, ll4 s), copy)
      in s\<lparr>ll16 := l16, ll4 := l4, cftabCopy := copy\<rparr>)"

definition reverse_step :: "nat \<times> nat \<times> ll \<Rightarrow> nat \<times> nat \<times> ll" where
  "reverse_step x = (let (i, j, l) = x; tmp = unat (GET_LL j l) in (j, tmp, SET_LL j (word_of_nat i) l))"

definition reverse_pointers :: "dstate \<Rightarrow> dstate" where
  "reverse_pointers s =
     (let o0 = nat (origPtr s); l = (ll16 s, ll4 s);
          (i, j, l16, l4) = while (\<lambda>(i, j, l). i \<noteq> o0) reverse_step (reverse_step (o0, unat (GET_LL o0 l), l))
      in upd_sv (\<lambda>sv. sv\<lparr>save_i := i, save_j := j\<rparr>) (s\<lparr>ll16 := l16, ll4 := l4\<rparr>))"

text \<open>The first byte of the block. Failing macros return \<open>True\<close>, which is 1.\<close>

definition first_byte :: "(dstate \<Rightarrow> (u8 \<times> dstate) option) \<Rightarrow> dstate \<Rightarrow> outcome" where
  "first_byte get s0 =
     (let s = s0\<lparr>nblock_used := 0\<rparr>
      in if blockRandomised s then
           (case get (BZ_RAND_INIT_MASK s) of
              None \<Rightarrow> Return 1 (BZ_RAND_INIT_MASK s)
            | Some (b, s) \<Rightarrow>
                let s = BZ_RAND_UPD_MASK (s\<lparr>k0 := b, nblock_used := nblock_used s + 1\<rparr>)
                in Return BZ_OK (s\<lparr>k0 := k0 s XOR BZ_RAND_MASK s\<rparr>))
         else
           (case get s of
              None \<Rightarrow> Return 1 s
            | Some (b, s) \<Rightarrow> Return BZ_OK (s\<lparr>k0 := b, nblock_used := nblock_used s + 1\<rparr>)))"

definition block_end :: "dstate \<Rightarrow> outcome" where
  "block_end s0 =
     (let nblock = save_nblock (dsv s0)
      in if origPtr s0 < 0 \<or> origPtr s0 \<ge> int nblock then Return BZ_DATA_ERROR s0
         else if \<not> list_all (\<lambda>i. \<not> (unzftab s0 i < 0 \<or> unzftab s0 i > int nblock)) [0..<256]
         then Return BZ_DATA_ERROR s0
         else
           let s = build_cftab s0
           in if \<not> block_checks s then Return BZ_DATA_ERROR s
              else
                let s = s\<lparr>state_out_len := 0, state_out_ch := 0, calculatedBlockCRC := BZ_INITIALISE_CRC,
                          dst := BZ_X_OUTPUT\<rparr>
                in if smallDecompress s then
                     let s = reverse_pointers (invert_small s)
                     in first_byte BZ_GET_SMALL (s\<lparr>tPos := word_of_int (origPtr s)\<rparr>)
                   else
                     let s = invert_fast s
                     in first_byte BZ_GET_FAST (s\<lparr>tPos := drop_bit 8 (tt s (nat (origPtr s)))\<rparr>))"

text \<open>The head of the symbol loop.\<close>

definition mtf_loop :: "dstate \<Rightarrow> outcome" where
  "mtf_loop s =
     (let sv = dsv s
      in if save_nextSym sv = save_EOB sv then block_end s
         else if save_nextSym sv = BZ_RUNA \<or> save_nextSym sv = BZ_RUNB
         then run_digit (upd_sv (\<lambda>sv. sv\<lparr>save_es := -1, save_N := 1\<rparr>) s)
         else literal s)"

section \<open>End of the stream\<close>

definition endhdr_6 :: "nat \<Rightarrow> dstate \<Rightarrow> outcome" where
  "endhdr_6 uc s =
     (if uc \<noteq> 0x90 then Return BZ_DATA_ERROR s
      else At (Label BZ_X_CCRC_1) (s\<lparr>storedCombinedCRC := 0\<rparr>))"

definition ccrc_shift :: "nat \<Rightarrow> dstate \<Rightarrow> dstate" where
  "ccrc_shift uc s = s\<lparr>storedCombinedCRC := push_bit 8 (storedCombinedCRC s) OR word_of_nat uc\<rparr>"

definition ccrc_4 :: "nat \<Rightarrow> dstate \<Rightarrow> outcome" where
  "ccrc_4 uc s = Return BZ_STREAM_END ((ccrc_shift uc s)\<lparr>dst := BZ_X_IDLE\<rparr>)"

section \<open>The steps\<close>

text \<open>How many bits a label reads, and the code behind it.\<close>

definition label_bits :: "nat \<Rightarrow> dstate \<Rightarrow> nat" where
  "label_bits l s =
     (if l = BZ_X_RANDBIT \<or> l = BZ_X_MAPPING_1 \<or> l = BZ_X_MAPPING_2 \<or> l = BZ_X_SELECTOR_3 \<or>
         l = BZ_X_CODING_2 \<or> l = BZ_X_CODING_3 \<or> l = BZ_X_MTF_2 \<or> l = BZ_X_MTF_4 \<or> l = BZ_X_MTF_6 then 1
      else if l = BZ_X_SELECTOR_1 then 3
      else if l = BZ_X_SELECTOR_2 then 15
      else if l = BZ_X_CODING_1 then 5
      else if l = BZ_X_MTF_1 \<or> l = BZ_X_MTF_3 \<or> l = BZ_X_MTF_5 then save_zn (dsv s)
      else 8)"

definition header_code :: "nat \<Rightarrow> nat \<Rightarrow> dstate \<Rightarrow> outcome" where
  "header_code l =
     (if l = BZ_X_MAGIC_1 then magic_byte 0x42 BZ_X_MAGIC_2
      else if l = BZ_X_MAGIC_2 then magic_byte 0x5a BZ_X_MAGIC_3
      else if l = BZ_X_MAGIC_3 then magic_byte 0x68 BZ_X_MAGIC_4
      else if l = BZ_X_MAGIC_4 then magic_4
      else if l = BZ_X_BLKHDR_1 then blkhdr_1
      else if l = BZ_X_BLKHDR_2 then header_byte 0x41 BZ_X_BLKHDR_3
      else if l = BZ_X_BLKHDR_3 then header_byte 0x59 BZ_X_BLKHDR_4
      else if l = BZ_X_BLKHDR_4 then header_byte 0x26 BZ_X_BLKHDR_5
      else if l = BZ_X_BLKHDR_5 then header_byte 0x53 BZ_X_BLKHDR_6
      else if l = BZ_X_BLKHDR_6 then blkhdr_6
      else if l = BZ_X_BCRC_1 then bcrc_byte BZ_X_BCRC_2
      else if l = BZ_X_BCRC_2 then bcrc_byte BZ_X_BCRC_3
      else if l = BZ_X_BCRC_3 then bcrc_byte BZ_X_BCRC_4
      else if l = BZ_X_BCRC_4 then bcrc_byte BZ_X_RANDBIT
      else if l = BZ_X_RANDBIT then randbit
      else if l = BZ_X_ORIGPTR_1 then (\<lambda>uc s. At (Label BZ_X_ORIGPTR_2) (origptr_byte uc s))
      else if l = BZ_X_ORIGPTR_2 then (\<lambda>uc s. At (Label BZ_X_ORIGPTR_3) (origptr_byte uc s))
      else origptr_3)"

definition table_code :: "nat \<Rightarrow> nat \<Rightarrow> dstate \<Rightarrow> outcome" where
  "table_code l =
     (if l = BZ_X_MAPPING_1 then mapping_1
      else if l = BZ_X_MAPPING_2 then mapping_2
      else if l = BZ_X_SELECTOR_1 then selector_1
      else if l = BZ_X_SELECTOR_2 then selector_2
      else if l = BZ_X_SELECTOR_3 then selector_3
      else if l = BZ_X_CODING_1 then coding_1
      else if l = BZ_X_CODING_2 then coding_2
      else coding_3)"

definition symbol_code :: "nat \<Rightarrow> nat \<Rightarrow> dstate \<Rightarrow> outcome" where
  "symbol_code l =
     (if l = BZ_X_MTF_1 then mtf_first BZ_X_MTF_2 (At MTF_LOOP)
      else if l = BZ_X_MTF_2 then mtf_next BZ_X_MTF_2 (At MTF_LOOP)
      else if l = BZ_X_MTF_3 then mtf_first BZ_X_MTF_4 run_more
      else if l = BZ_X_MTF_4 then mtf_next BZ_X_MTF_4 run_more
      else if l = BZ_X_MTF_5 then mtf_first BZ_X_MTF_6 (At MTF_LOOP)
      else mtf_next BZ_X_MTF_6 (At MTF_LOOP))"

definition trailer_code :: "nat \<Rightarrow> nat \<Rightarrow> dstate \<Rightarrow> outcome" where
  "trailer_code l =
     (if l = BZ_X_ENDHDR_2 then header_byte 0x72 BZ_X_ENDHDR_3
      else if l = BZ_X_ENDHDR_3 then header_byte 0x45 BZ_X_ENDHDR_4
      else if l = BZ_X_ENDHDR_4 then header_byte 0x38 BZ_X_ENDHDR_5
      else if l = BZ_X_ENDHDR_5 then header_byte 0x50 BZ_X_ENDHDR_6
      else if l = BZ_X_ENDHDR_6 then endhdr_6
      else if l = BZ_X_CCRC_1 then (\<lambda>uc s. At (Label BZ_X_CCRC_2) (ccrc_shift uc s))
      else if l = BZ_X_CCRC_2 then (\<lambda>uc s. At (Label BZ_X_CCRC_3) (ccrc_shift uc s))
      else if l = BZ_X_CCRC_3 then (\<lambda>uc s. At (Label BZ_X_CCRC_4) (ccrc_shift uc s))
      else ccrc_4)"

definition label_code :: "nat \<Rightarrow> nat \<Rightarrow> dstate \<Rightarrow> outcome" where
  "label_code l =
     (if l < BZ_X_MAPPING_1 then header_code l
      else if l < BZ_X_MTF_1 then table_code l
      else if l < BZ_X_ENDHDR_2 then symbol_code l
      else trailer_code l)"

fun decompress_step :: "pc \<Rightarrow> dstate \<Rightarrow> outcome" where
  "decompress_step MTF_LOOP s = mtf_loop s"
| "decompress_step (Label l) s0 =
     (if l < BZ_X_MAGIC_1 \<or> l > BZ_X_CCRC_4 then Fatal 4001
      else
        let s = s0\<lparr>dst := l\<rparr>
        in case GET_BITS (label_bits l s) s of
             (None, s) \<Rightarrow> Return BZ_OK s
           | (Some v, s) \<Rightarrow> label_code l v s)"

partial_function (option) decompress_run :: "pc \<Rightarrow> dstate \<Rightarrow> outcome option" where
  "decompress_run pc s =
     (case decompress_step pc s of
        At pc' s' \<Rightarrow> decompress_run pc' s'
      | r \<Rightarrow> Some r)"

text \<open>At the end of the stream whole bytes that are still buffered go back to the input.\<close>

definition return_excess :: "dstate \<Rightarrow> dstate" where
  "return_excess s =
     (let excessBytes = bsLive s div 8; strm = dstrm s; lo = total_in_lo32 strm
      in s\<lparr>dstrm := strm\<lparr>next_in := next_in strm - int excessBytes, avail_in := avail_in strm + excessBytes,
               total_in_hi32 := (if lo < word_of_nat excessBytes then total_in_hi32 strm - 1 else total_in_hi32 strm),
               total_in_lo32 := lo - word_of_nat excessBytes\<rparr>,
          bsLive := 0, bsBuff := 0\<rparr>)"

definition BZ2_decompress :: "dstate \<Rightarrow> outcome option" where
  "BZ2_decompress s0 =
     (let s = (if dst s0 = BZ_X_MAGIC_1 then s0\<lparr>dsv := dsave_zero\<rparr> else s0)
      in case decompress_run (Label (dst s)) s of
           Some (Return r s) \<Rightarrow> Some (Return r (if r = BZ_STREAM_END then return_excess s else s))
         | r \<Rightarrow> r)"

end
