(* ===== verification/DecInv.thy ===== *)
theory DecInv
  imports Decompress
begin

text \<open>
  The invariant of the decompressor at every program point, and that each step keeps it. It holds
  the ranges of everything the code indexes an array with, and what the finished tables of the
  groups promise.
\<close>

section \<open>What holds from which label on\<close>

definition bs_ok :: "dstate \<Rightarrow> bool" where
  "bs_ok s \<longleftrightarrow> 1 \<le> blockSize100k s \<and> blockSize100k s \<le> 9"

definition map_ok :: "dstate \<Rightarrow> bool" where
  "map_ok s \<longleftrightarrow> 1 \<le> nInUse s \<and> nInUse s \<le> 256 \<and> save_alphaSize (dsv s) = nInUse s + 2"

definition grp_ok :: "dstate \<Rightarrow> bool" where
  "grp_ok s \<longleftrightarrow> 2 \<le> save_nGroups (dsv s) \<and> save_nGroups (dsv s) \<le> 6"

definition selectors_reading :: "dstate \<Rightarrow> bool" where
  "selectors_reading s \<longleftrightarrow> save_i (dsv s) < save_nSelectors (dsv s) \<and>
     save_j (dsv s) < save_nGroups (dsv s) \<and>
     (\<forall>k < save_i (dsv s). k < BZ_MAX_SELECTORS \<longrightarrow> selectorMtf s k < save_nGroups (dsv s))"

definition sel_ok :: "dstate \<Rightarrow> bool" where
  "sel_ok s \<longleftrightarrow> 1 \<le> save_nSelectors (dsv s) \<and> save_nSelectors (dsv s) \<le> BZ_MAX_SELECTORS \<and>
     (\<forall>k < save_nSelectors (dsv s). selector s k < save_nGroups (dsv s))"

definition lens_ok :: "nat \<Rightarrow> (nat \<Rightarrow> nat) \<Rightarrow> bool" where
  "lens_ok n len \<longleftrightarrow> (\<forall>i < n. 1 \<le> len i \<and> len i \<le> 20)"

definition coding_ok :: "dstate \<Rightarrow> bool" where
  "coding_ok s \<longleftrightarrow> save_t (dsv s) < save_nGroups (dsv s) \<and>
     (\<forall>t < save_t (dsv s). lens_ok (save_alphaSize (dsv s)) (dlen (dtab s) t))"

definition coding_at :: "dstate \<Rightarrow> bool" where
  "coding_at s \<longleftrightarrow> save_i (dsv s) < save_alphaSize (dsv s) \<and>
     lens_ok (save_i (dsv s)) (dlen (dtab s) (save_t (dsv s)))"

definition curr_ok :: "dstate \<Rightarrow> bool" where
  "curr_ok s \<longleftrightarrow> 1 \<le> save_curr (dsv s) \<and> save_curr (dsv s) \<le> 20"

text \<open>A group whose tables are built.\<close>

definition group_ok :: "nat \<Rightarrow> dtables \<Rightarrow> nat \<Rightarrow> bool" where
  "group_ok n d t \<longleftrightarrow> (\<exists>maxLen.
     (\<forall>i < n. minLens d t \<le> dlen d t i \<and> dlen d t i \<le> maxLen) \<and> 1 \<le> minLens d t \<and> minLens d t \<le> maxLen \<and>
     maxLen \<le> 20 \<and> 0 < cnt (dlen d t) n maxLen \<and>
     decode_tables (dlen d t) n (minLens d t) maxLen (dlimit d t) (dbase d t) (dperm d t) \<and>
     fast_tables (dlen d t) n (decode_fast d t) (decode_overflow d t))"

definition sym_ok :: "dstate \<Rightarrow> bool" where
  "sym_ok s \<longleftrightarrow> (\<forall>t < save_nGroups (dsv s). group_ok (save_alphaSize (dsv s)) (dtab s) t) \<and>
     save_EOB (dsv s) = nInUse s + 1 \<and> save_nblockMAX (dsv s) = 100000 * blockSize100k s \<and>
     save_nblock (dsv s) \<le> save_nblockMAX (dsv s) \<and> -1 \<le> save_groupNo (dsv s) \<and>
     save_groupNo (dsv s) < int (save_nSelectors (dsv s)) \<and> save_groupPos (dsv s) \<le> BZ_G_SIZE \<and>
     (0 < save_groupPos (dsv s) \<longrightarrow> 0 \<le> save_groupNo (dsv s)) \<and>
     (0 \<le> save_groupNo (dsv s) \<longrightarrow> save_gSel (dsv s) < save_nGroups (dsv s) \<and>
        save_gMinlen (dsv s) = minLens (dtab s) (save_gSel (dsv s)))"

text \<open>Within a symbol: the first read, and the search, which has already failed below \<open>zn\<close>.\<close>

definition sym_first :: "dstate \<Rightarrow> bool" where
  "sym_first s \<longleftrightarrow> 0 \<le> save_groupNo (dsv s) \<and> save_zn (dsv s) = save_gMinlen (dsv s)"

definition sym_search :: "dstate \<Rightarrow> bool" where
  "sym_search s \<longleftrightarrow> 0 \<le> save_groupNo (dsv s) \<and> save_gMinlen (dsv s) < save_zn (dsv s) \<and>
     save_zn (dsv s) \<le> 21 \<and>
     (let g = save_gSel (dsv s); m = save_zn (dsv s) - 1; d = dtab s; n = save_alphaSize (dsv s)
      in \<exists>maxLen. 0 < cnt (dlen d g) n maxLen \<and> maxLen \<le> 20 \<and>
        decode_tables (dlen d g) n (minLens d g) maxLen (dlimit d g) (dbase d g) (dperm d g) \<and>
        (m \<le> maxLen \<longrightarrow> int (fcode (dlen d g) n m + cnt (dlen d g) n m) \<le> save_zvec (dsv s)) \<and>
        (maxLen \<le> m \<longrightarrow> 1 \<le> save_zvec (dsv s)))"

section \<open>The invariant\<close>

definition label_inv :: "nat \<Rightarrow> dstate \<Rightarrow> bool" where
  "label_inv l s \<longleftrightarrow> 10 \<le> l \<and> l \<le> 50 \<and>
     (14 \<le> l \<longrightarrow> bs_ok s) \<and>
     (l = 28 \<longrightarrow> save_i (dsv s) < 16) \<and> (l = 29 \<longrightarrow> save_i (dsv s) < 16 \<and> save_j (dsv s) < 16) \<and>
     (30 \<le> l \<and> l \<le> 41 \<longrightarrow> map_ok s) \<and> (31 \<le> l \<and> l \<le> 41 \<longrightarrow> grp_ok s) \<and>
     (l = 32 \<longrightarrow> selectors_reading s) \<and> (33 \<le> l \<and> l \<le> 41 \<longrightarrow> sel_ok s) \<and>
     (33 \<le> l \<and> l \<le> 35 \<longrightarrow> coding_ok s) \<and> (34 \<le> l \<and> l \<le> 35 \<longrightarrow> coding_at s \<and> curr_ok s) \<and>
     (36 \<le> l \<and> l \<le> 41 \<longrightarrow> sym_ok s) \<and>
     (l = 36 \<or> l = 38 \<or> l = 40 \<longrightarrow> sym_first s) \<and> (l = 37 \<or> l = 39 \<or> l = 41 \<longrightarrow> sym_search s)"

definition loop_ok :: "dstate \<Rightarrow> bool" where
  "loop_ok s \<longleftrightarrow> bs_ok s \<and> map_ok s \<and> grp_ok s \<and> sel_ok s \<and> sym_ok s \<and> 0 \<le> save_groupNo (dsv s) \<and>
     save_nextSym (dsv s) < save_alphaSize (dsv s)"

fun pc_inv :: "pc \<Rightarrow> dstate \<Rightarrow> bool" where
  "pc_inv (Label l) s \<longleftrightarrow> read_ok s \<and> label_inv l s"
| "pc_inv MTF_LOOP s \<longleftrightarrow> read_ok s \<and> loop_ok s"

text \<open>A block ready for output.\<close>

definition out_inv :: "dstate \<Rightarrow> bool" where
  "out_inv s \<longleftrightarrow> read_ok s \<and> dst s = BZ_X_OUTPUT \<and> bs_ok s \<and> save_nblock (dsv s) \<le> 100000 * blockSize100k s"

text \<open>What holds of the state between calls of \<open>BZ2_decompress\<close>.\<close>

definition dstate_inv :: "dstate \<Rightarrow> bool" where
  "dstate_inv s \<longleftrightarrow> (if dst s = BZ_X_OUTPUT then out_inv s
     else if dst s = BZ_X_IDLE then True
     else pc_inv (Label (dst s)) s)"

text \<open>
  What a step may lead to. \<open>w\<close> is the number of bits that were ahead: a step never gains bits, and
  the loop head loses one when it comes back to itself.
\<close>

definition bits_ahead :: "dstate \<Rightarrow> nat" where
  "bits_ahead s = bsLive s + 8 * avail_in (dstrm s)"

fun outcome_ok :: "nat \<Rightarrow> bool \<Rightarrow> outcome \<Rightarrow> bool" where
  "outcome_ok w strict (At pc s) \<longleftrightarrow> pc_inv pc s \<and> bits_ahead s \<le> w \<and>
     (strict \<and> pc = MTF_LOOP \<longrightarrow> bits_ahead s < w)"
| "outcome_ok w strict (Return r s) \<longleftrightarrow> read_ok s \<and> bits_ahead s \<le> w \<and>
     (r = BZ_OK \<longrightarrow> out_inv s) \<and>
     (r = BZ_STREAM_END \<longrightarrow> dst s = BZ_X_IDLE)"
| "outcome_ok w strict (Fatal e) \<longleftrightarrow> False"

lemma outcome_ok_weaken: "outcome_ok w True r \<Longrightarrow> outcome_ok w False r"
  by (cases r) auto

section \<open>Reading leaves the invariant alone\<close>

lemma same_but_input_eq:
  assumes "same_but_input s s'"
  shows "\<exists>b l m. s' = s\<lparr>bsBuff := b, bsLive := l, dstrm := m\<rparr>"
proof -
  have "s' = (forget_in s')\<lparr>bsBuff := bsBuff s', bsLive := bsLive s', dstrm := dstrm s'\<rparr>"
    by (simp add: forget_in_def)
  also have "\<dots> = s\<lparr>bsBuff := bsBuff s', bsLive := bsLive s', dstrm := dstrm s'\<rparr>"
    using assms by (simp add: same_but_input_def) (simp add: forget_in_def)
  finally show ?thesis by blast
qed

lemmas static_defs = bs_ok_def map_ok_def grp_ok_def selectors_reading_def sel_ok_def coding_ok_def
  coding_at_def curr_ok_def sym_ok_def sym_first_def sym_search_def

lemma static_input [frame, simp]:
  "bs_ok (s\<lparr>bsBuff := b, bsLive := l, dstrm := m\<rparr>) = bs_ok s"
  "map_ok (s\<lparr>bsBuff := b, bsLive := l, dstrm := m\<rparr>) = map_ok s"
  "grp_ok (s\<lparr>bsBuff := b, bsLive := l, dstrm := m\<rparr>) = grp_ok s"
  "selectors_reading (s\<lparr>bsBuff := b, bsLive := l, dstrm := m\<rparr>) = selectors_reading s"
  "sel_ok (s\<lparr>bsBuff := b, bsLive := l, dstrm := m\<rparr>) = sel_ok s"
  "coding_ok (s\<lparr>bsBuff := b, bsLive := l, dstrm := m\<rparr>) = coding_ok s"
  "coding_at (s\<lparr>bsBuff := b, bsLive := l, dstrm := m\<rparr>) = coding_at s"
  "curr_ok (s\<lparr>bsBuff := b, bsLive := l, dstrm := m\<rparr>) = curr_ok s"
  "sym_ok (s\<lparr>bsBuff := b, bsLive := l, dstrm := m\<rparr>) = sym_ok s"
  "sym_first (s\<lparr>bsBuff := b, bsLive := l, dstrm := m\<rparr>) = sym_first s"
  "sym_search (s\<lparr>bsBuff := b, bsLive := l, dstrm := m\<rparr>) = sym_search s"
  by (simp_all add: static_defs Let_def)

lemma label_inv_input [frame, simp]:
  "label_inv k (s\<lparr>bsBuff := b, bsLive := l, dstrm := m\<rparr>) = label_inv k s"
  by (simp add: label_inv_def)

lemma label_inv_same: "same_but_input s s' \<Longrightarrow> label_inv l s \<Longrightarrow> label_inv l s'"
  by (auto dest!: same_but_input_eq)

lemma static_label [frame, simp]:
  "bs_ok (s\<lparr>dst := l\<rparr>) = bs_ok s" "map_ok (s\<lparr>dst := l\<rparr>) = map_ok s" "grp_ok (s\<lparr>dst := l\<rparr>) = grp_ok s"
  "selectors_reading (s\<lparr>dst := l\<rparr>) = selectors_reading s" "sel_ok (s\<lparr>dst := l\<rparr>) = sel_ok s"
  "coding_ok (s\<lparr>dst := l\<rparr>) = coding_ok s" "coding_at (s\<lparr>dst := l\<rparr>) = coding_at s"
  "curr_ok (s\<lparr>dst := l\<rparr>) = curr_ok s" "sym_ok (s\<lparr>dst := l\<rparr>) = sym_ok s"
  "sym_first (s\<lparr>dst := l\<rparr>) = sym_first s" "sym_search (s\<lparr>dst := l\<rparr>) = sym_search s"
  "label_inv k (s\<lparr>dst := l\<rparr>) = label_inv k s"
  by (simp_all add: static_defs label_inv_def Let_def)

lemma read_ok_fields [frame, simp]:
  "read_ok (s\<lparr>dst := l\<rparr>) = read_ok s" "read_ok (s\<lparr>dsv := v\<rparr>) = read_ok s"
  "read_ok (s\<lparr>dtab := d\<rparr>) = read_ok s" "read_ok (s\<lparr>storedBlockCRC := c\<rparr>) = read_ok s"
  "read_ok (s\<lparr>storedCombinedCRC := c\<rparr>) = read_ok s" "read_ok (s\<lparr>origPtr := p\<rparr>) = read_ok s"
  "read_ok (s\<lparr>inUse16 := u\<rparr>) = read_ok s" "read_ok (s\<lparr>inUse := f\<rparr>) = read_ok s"
  "read_ok (s\<lparr>unzftab := z\<rparr>) = read_ok s" "read_ok (s\<lparr>mtfa := m\<rparr>) = read_ok s"
  "read_ok (s\<lparr>tt := t\<rparr>) = read_ok s" "read_ok (s\<lparr>ll16 := t16\<rparr>) = read_ok s"
  "read_ok (s\<lparr>selector := t5\<rparr>) = read_ok s" "read_ok (s\<lparr>selectorMtf := t5\<rparr>) = read_ok s"
  "read_ok (s\<lparr>blockSize100k := b\<rparr>) = read_ok s"
  by (simp_all add: read_ok_def)

lemma bits_ahead_fields [frame, simp]:
  "bits_ahead (s\<lparr>dst := l\<rparr>) = bits_ahead s" "bits_ahead (s\<lparr>dsv := v\<rparr>) = bits_ahead s"
  "bits_ahead (s\<lparr>dtab := d\<rparr>) = bits_ahead s" "bits_ahead (s\<lparr>storedBlockCRC := c\<rparr>) = bits_ahead s"
  "bits_ahead (s\<lparr>storedCombinedCRC := c\<rparr>) = bits_ahead s" "bits_ahead (s\<lparr>origPtr := p\<rparr>) = bits_ahead s"
  "bits_ahead (s\<lparr>inUse16 := u\<rparr>) = bits_ahead s" "bits_ahead (s\<lparr>inUse := f\<rparr>) = bits_ahead s"
  "bits_ahead (s\<lparr>unzftab := z\<rparr>) = bits_ahead s" "bits_ahead (s\<lparr>mtfa := m\<rparr>) = bits_ahead s"
  "bits_ahead (s\<lparr>tt := t\<rparr>) = bits_ahead s" "bits_ahead (s\<lparr>ll16 := t16\<rparr>) = bits_ahead s"
  "bits_ahead (s\<lparr>selector := t5\<rparr>) = bits_ahead s" "bits_ahead (s\<lparr>selectorMtf := t5\<rparr>) = bits_ahead s"
  "bits_ahead (s\<lparr>blockSize100k := b\<rparr>) = bits_ahead s"
  by (simp_all add: bits_ahead_def)

section \<open>The header\<close>

lemma dalloc_fields:
  assumes "dalloc s = (ok, s')"
  shows "read_ok s' = read_ok s" "bits_ahead s' = bits_ahead s" "blockSize100k s' = blockSize100k s"
  using assms
  by (auto simp: dalloc_def bz_alloc_def read_ok_def in_ok_def bits_ahead_def split: list.splits)

lemma magic_4_ok: "read_ok s \<Longrightarrow> outcome_ok (bits_ahead s) b (magic_4 v s)"
proof -
  assume R: "read_ok s"
  obtain ok s1 where a: "dalloc (s\<lparr>blockSize100k := v - 48\<rparr>) = (ok, s1)" by fastforce
  obtain ok' s2 where a': "dalloc s1 = (ok', s2)" by fastforce
  note f = dalloc_fields [OF a] dalloc_fields [OF a']
  show ?thesis
    using R f by (auto simp: magic_4_def Let_def a a' label_inv_def bs_ok_def read_ok_def bits_ahead_def)
qed

lemma header_code_ok:
  assumes R: "read_ok s" and I: "label_inv l s" and l: "l < 28"
  shows "outcome_ok (bits_ahead s) b (header_code l v s)"
proof -
  consider "l \<in> {10, 11, 12}" | "l = 13" | "l \<in> {14, 15, 16, 17, 18, 19}" | "l \<in> {20, 21, 22, 23}" | "l = 24"
    | "l = 25 \<or> l = 26" | "l = 27"
  proof -
    have "10 \<le> l" using I by (simp add: label_inv_def)
    with l have "l \<in> set [10..<28]" unfolding set_upt atLeastLessThan_iff by blast
    then show thesis using that by (auto simp: upt_rec simp del: set_upt)
  qed
  then show ?thesis
  proof cases
    case 1
    then show ?thesis using R
      by (elim insertE emptyE; hypsubst) (simp_all add: header_code_def magic_byte_def label_inv_def)
  next
    case 2
    then show ?thesis using magic_4_ok [OF R] by (simp add: header_code_def)
  next
    case 3
    then have bs: "bs_ok s" using I by (elim insertE emptyE) (simp_all add: label_inv_def)
    have "bs_ok (s\<lparr>currBlockNo := currBlockNo s + 1, storedBlockCRC := 0\<rparr>)"
      "read_ok (s\<lparr>currBlockNo := currBlockNo s + 1, storedBlockCRC := 0\<rparr>)"
      "bits_ahead (s\<lparr>currBlockNo := currBlockNo s + 1, storedBlockCRC := 0\<rparr>) = bits_ahead s"
      using R bs by (simp_all add: bs_ok_def read_ok_def bits_ahead_def)
    then show ?thesis using 3 R bs
      by (elim insertE emptyE; hypsubst)
        (simp_all add: header_code_def blkhdr_1_def header_byte_def blkhdr_6_def label_inv_def)
  next
    case 4
    then have bs: "bs_ok s" using I by (elim insertE emptyE) (simp_all add: label_inv_def)
    have bs': "bs_ok (s\<lparr>storedBlockCRC := c\<rparr>)" for c using bs by (simp add: bs_ok_def)
    then show ?thesis using 4 R
      by (elim insertE emptyE; hypsubst) (simp_all add: header_code_def bcrc_byte_def label_inv_def)
  next
    case 5
    then show ?thesis using R I
      by (simp add: header_code_def randbit_def label_inv_def bs_ok_def read_ok_def bits_ahead_def)
  next
    case 6
    then show ?thesis using R I
      by (elim disjE; hypsubst) (simp_all add: header_code_def origptr_byte_def label_inv_def bs_ok_def)
  next
    case 7
    then show ?thesis using R I
      by (simp add: header_code_def origptr_byte_def origptr_3_def Let_def label_inv_def bs_ok_def)
  qed
qed

section \<open>The mapping table\<close>

lemma fold_const_false: "fold (\<lambda>i f. f(i := c)) [0..<k] f = (\<lambda>i. if i < k then c else f i)"
  by (induction k) (auto simp: fun_eq_iff less_Suc_eq)

lemma makeMaps_d_fields:
  "nInUse (makeMaps_d s) \<le> 256" "read_ok (makeMaps_d s) = read_ok s" "bits_ahead (makeMaps_d s) = bits_ahead s"
  "blockSize100k (makeMaps_d s) = blockSize100k s" "dsv (makeMaps_d s) = dsv s"
proof -
  let ?F = "\<lambda>i s. if inUse s i
                 then s\<lparr>seqToUnseq := (seqToUnseq s)(nInUse s := word_of_nat i), nInUse := nInUse s + 1\<rparr> else s"
  have "nInUse (fold ?F [0..<k] (s\<lparr>nInUse := 0\<rparr>)) \<le> k \<and>
      read_ok (fold ?F [0..<k] (s\<lparr>nInUse := 0\<rparr>)) = read_ok s \<and>
      bits_ahead (fold ?F [0..<k] (s\<lparr>nInUse := 0\<rparr>)) = bits_ahead s \<and>
      blockSize100k (fold ?F [0..<k] (s\<lparr>nInUse := 0\<rparr>)) = blockSize100k s \<and>
      dsv (fold ?F [0..<k] (s\<lparr>nInUse := 0\<rparr>)) = dsv s" for k
    by (induction k) (auto simp: read_ok_def bits_ahead_def)
  from this [of 256] show "nInUse (makeMaps_d s) \<le> 256" "read_ok (makeMaps_d s) = read_ok s"
    "bits_ahead (makeMaps_d s) = bits_ahead s"
    "blockSize100k (makeMaps_d s) = blockSize100k s" "dsv (makeMaps_d s) = dsv s"
    unfolding makeMaps_d_def by blast+
qed

lemma mapping_outer_ok:
  assumes "read_ok s" "bs_ok s"
  shows "outcome_ok (bits_ahead s) b (mapping_outer i s)"
  using assms makeMaps_d_fields [of "s\<lparr>dsv := (dsv s)\<lparr>save_i := while (\<lambda>i. i < 16 \<and> \<not> inUse16 s i) Suc i\<rparr>\<rparr>"]
  by (auto simp: mapping_outer_def mapping_done_def Let_def label_inv_def bs_ok_def map_ok_def)

lemma mapping_ok:
  assumes "read_ok s" and "label_inv l s"
  shows "l = 28 \<Longrightarrow> outcome_ok (bits_ahead s) b (mapping_1 v s)"
    "l = 29 \<Longrightarrow> outcome_ok (bits_ahead s) b (mapping_2 v s)"
proof -
  assume l: "l = 28"
  have i: "save_i (dsv s) < 16" "bs_ok s" using assms(2) l by (simp_all add: label_inv_def)
  let ?s = "s\<lparr>inUse16 := (inUse16 s)(save_i (dsv s) := (v = 1)), dsv := (dsv s)\<lparr>save_i := Suc (save_i (dsv s))\<rparr>,
      inUse := fold (\<lambda>i f. f(i := False)) [0..<256] (inUse s)\<rparr>"
  have "read_ok ?s" "bs_ok ?s" "bits_ahead ?s = bits_ahead s" using assms(1) i by (simp_all add: bs_ok_def)
  then show "outcome_ok (bits_ahead s) b (mapping_1 v s)"
    using mapping_outer_ok [of ?s b 0] assms(1) i by (auto simp: mapping_1_def Let_def label_inv_def bs_ok_def)
next
  assume l: "l = 29"
  have i: "save_i (dsv s) < 16" "save_j (dsv s) < 16" "bs_ok s" using assms(2) l by (simp_all add: label_inv_def)
  let ?s0 = "if v = 1 then s\<lparr>inUse := (inUse s)(save_i (dsv s) * 16 + save_j (dsv s) := True)\<rparr> else s"
  let ?s = "?s0\<lparr>dsv := (dsv ?s0)\<lparr>save_j := Suc (save_j (dsv s))\<rparr>\<rparr>"
  have "read_ok ?s" "bs_ok ?s" "bits_ahead ?s = bits_ahead s" "save_i (dsv ?s) < 16"
    using assms(1) i by (simp_all add: bs_ok_def)
  then show "outcome_ok (bits_ahead s) b (mapping_2 v s)"
    using mapping_outer_ok [of ?s b "Suc (save_i (dsv s))"] i
    by (simp add: mapping_2_def Let_def label_inv_def split del: if_split)
      (auto simp: label_inv_def)
qed

section \<open>Selectors\<close>

lemma mtf_front_eq:
  "mtf_front v pos = (\<lambda>i. if i = 0 then pos v else if i \<le> v then pos (i - 1) else pos i)"
proof -
  have "fold (\<lambda>v pos. pos(v := pos (v - 1))) (rev [1..<v + 1]) pos =
      (\<lambda>i. if 1 \<le> i \<and> i \<le> v then pos (i - 1) else pos i)" for pos :: "nat \<Rightarrow> 'a"
  proof (induction v arbitrary: pos)
    case (Suc v)
    have u: "rev [1..<Suc v + 1] = Suc v # rev [1..<v + 1]" by simp
    show ?case unfolding u fold_simps Suc.IH by (auto simp: fun_eq_iff le_Suc_eq)
  qed (auto simp: fun_eq_iff)
  then show ?thesis by (auto simp: mtf_front_def Let_def fun_eq_iff)
qed

lemma undo_selectors_less:
  assumes "\<forall>k < n. mtf k < g" and "k < n"
  shows "undo_selectors n mtf sel k < g"
proof -
  let ?F = "\<lambda>i (pos, sel). let pos = mtf_front (mtf i) pos in (pos, sel(i := pos 0))"
  have "m \<le> n \<Longrightarrow> (\<forall>j < g. fst (fold ?F [0..<m] (id, sel)) j < g) \<and>
      (\<forall>k < m. snd (fold ?F [0..<m] (id, sel)) k < g)" for m
  proof (induction m)
    case (Suc m)
    obtain pos s where f: "fold ?F [0..<m] (id, sel) = (pos, s)" by fastforce
    have g: "mtf m < g" using Suc.prems assms(1) by simp
    define pos' where "pos' = mtf_front (mtf m) pos"
    have e: "fold ?F [0..<Suc m] (id, sel) = (pos', s(m := pos' 0))"
      using f by (simp add: Let_def pos'_def)
    have IH: "\<forall>j < g. pos j < g" "\<forall>k < m. s k < g"
      using Suc.IH [OF Suc_leD [OF Suc.prems]] unfolding f by simp_all
    have "\<forall>j < g. pos' j < g" using IH(1) g by (simp add: pos'_def mtf_front_eq)
    moreover have "pos' 0 < g" using IH(1) g by (simp add: pos'_def mtf_front_eq)
    ultimately show ?case using IH(2) unfolding e by (simp add: less_Suc_eq)
  qed simp
  then show ?thesis using assms(2) unfolding undo_selectors_def by blast
qed

lemma selectors_done_ok:
  assumes "read_ok s" "bs_ok s" "map_ok s" "grp_ok s" "1 \<le> save_nSelectors (dsv s)"
    and "\<forall>k < save_nSelectors (dsv s). k < BZ_MAX_SELECTORS \<longrightarrow> selectorMtf s k < save_nGroups (dsv s)"
  shows "outcome_ok (bits_ahead s) b (selectors_done s)"
proof -
  let ?n = "if save_nSelectors (dsv s) > BZ_MAX_SELECTORS then BZ_MAX_SELECTORS else save_nSelectors (dsv s)"
  have "undo_selectors ?n (selectorMtf s) (selector s) k < save_nGroups (dsv s)" if "k < ?n" for k
    by (rule undo_selectors_less [OF _ that]) (use assms(6) in \<open>auto split: if_splits\<close>)
  then show ?thesis
    using assms
    by (auto simp: selectors_done_def Let_def label_inv_def bs_ok_def map_ok_def grp_ok_def sel_ok_def coding_ok_def)
qed

lemma selector_ok:
  assumes R: "read_ok s" and I: "label_inv l s"
  shows "l = 30 \<Longrightarrow> outcome_ok (bits_ahead s) b (selector_1 v s)"
    "l = 31 \<Longrightarrow> outcome_ok (bits_ahead s) b (selector_2 v s)"
    "l = 32 \<Longrightarrow> outcome_ok (bits_ahead s) b (selector_3 v s)"
proof -
  show "l = 30 \<Longrightarrow> outcome_ok (bits_ahead s) b (selector_1 v s)"
    using R I by (auto simp: selector_1_def Let_def label_inv_def bs_ok_def map_ok_def grp_ok_def)
  show "l = 31 \<Longrightarrow> outcome_ok (bits_ahead s) b (selector_2 v s)"
    using R I by (auto simp: selector_2_def Let_def label_inv_def bs_ok_def map_ok_def grp_ok_def selectors_reading_def)
  assume l: "l = 32"
  let ?i = "save_i (dsv s)" and ?j = "save_j (dsv s)" and ?g = "save_nGroups (dsv s)"
  have ok: "bs_ok s" "map_ok s" "grp_ok s" "selectors_reading s" using I l by (simp_all add: label_inv_def)
  define s1 where "s1 = upd_sv (\<lambda>sv. sv\<lparr>save_i := ?i + 1\<rparr>)
      (if ?i < BZ_MAX_SELECTORS then s\<lparr>selectorMtf := (selectorMtf s)(?i := ?j)\<rparr> else s)"
  have s1: "read_ok s1" "bits_ahead s1 = bits_ahead s" "bs_ok s1" "map_ok s1" "grp_ok s1"
    "save_i (dsv s1) = ?i + 1" "save_nSelectors (dsv s1) = save_nSelectors (dsv s)"
    "save_nGroups (dsv s1) = ?g"
    using R ok by (auto simp: s1_def bs_ok_def map_ok_def grp_ok_def)
  have m: "\<forall>k < ?i + 1. k < BZ_MAX_SELECTORS \<longrightarrow> selectorMtf s1 k < ?g"
    using ok(4) by (auto simp: s1_def selectors_reading_def less_Suc_eq)
  show "outcome_ok (bits_ahead s) b (selector_3 v s)"
  proof (cases "v = 0")
    case True
    show ?thesis
    proof (cases "?i + 1 < save_nSelectors (dsv s)")
      case lt: True
      have "selector_3 v s = At (Label 32) (upd_sv (\<lambda>sv. sv\<lparr>save_j := 0\<rparr>) s1)"
        using True lt s1(7) by (simp add: selector_3_def Let_def s1_def)
      then show ?thesis using s1 m lt ok(3)
        by (auto simp: label_inv_def bs_ok_def map_ok_def grp_ok_def selectors_reading_def)
    next
      case False
      then have e: "selector_3 v s = selectors_done s1" "save_nSelectors (dsv s) = ?i + 1"
        using True s1(7) ok(4) by (simp_all add: selector_3_def Let_def s1_def selectors_reading_def)
      show ?thesis
        unfolding e(1) using selectors_done_ok [OF s1(1,3-5), of b] s1 m e(2) by simp
    qed
  next
    case False
    then show ?thesis using R ok
      by (auto simp: selector_3_def Let_def label_inv_def bs_ok_def map_ok_def grp_ok_def selectors_reading_def)
  qed
qed

section \<open>Building the tables\<close>

lemma len_bounds_eq:
  assumes "0 < n" "lens_ok n len" and "len_bounds len n = (mn, mx)"
  shows "(\<forall>i < n. mn \<le> len i \<and> len i \<le> mx) \<and> (\<exists>i < n. len i = mx) \<and> (\<exists>i < n. len i = mn)"
proof -
  let ?F = "\<lambda>i (minLen, maxLen). (if len i < minLen then len i else minLen,
                                 if len i > maxLen then len i else maxLen)"
  have "m \<le> n \<Longrightarrow> fold ?F [0..<m] (32, 0) = (a, b) \<Longrightarrow>
      (\<forall>i < m. a \<le> len i \<and> len i \<le> b) \<and> (m = 0 \<and> a = 32 \<and> b = 0 \<or> (\<exists>i < m. len i = b) \<and> (\<exists>i < m. len i = a))" for m a b
  proof (induction m arbitrary: a b)
    case (Suc m)
    obtain a' b' where f: "fold ?F [0..<m] (32, 0) = (a', b')" by fastforce
    have l: "1 \<le> len m" "len m \<le> 20" using assms(2) Suc.prems(1) by (auto simp: lens_ok_def)
    show ?case
      using Suc.IH [OF _ f] Suc.prems l by (auto simp: f less_Suc_eq split: if_splits)
  qed simp
  from this [of n] assms show ?thesis by (simp add: len_bounds_def)
qed

lemma build_group_ok:
  assumes n: "0 < n" "n \<le> 258" and L: "lens_ok n (dlen d t)"
  shows "group_ok n (build_group n t d) t"
    "dlen (build_group n t d) = dlen d"
    "t' \<noteq> t \<Longrightarrow> group_ok n d t' \<Longrightarrow> group_ok n (build_group n t d) t'"
proof -
  obtain mn mx where b: "len_bounds (dlen d t) n = (mn, mx)" by fastforce
  note B = len_bounds_eq [OF n(1) L b]
  obtain limit base perm where T: "BZ2_hbCreateDecodeTables (dlimit d t, dbase d t, dperm d t) (dlen d t) mn mx n =
      (limit, base, perm)" by (rule prod_cases3)
  have bounds: "mn \<le> mx" "mx \<le> 20" "1 \<le> mn" using B L by (auto simp: lens_ok_def)
  have D: "decode_tables (dlen d t) n mn mx limit base perm"
    by (rule CreateDecodeTables_eq [OF _ bounds(1) _ T]) (use B bounds in auto)
  then have "sorted_syms (dlen d t) n mn mx perm"
    using B bounds n by (simp add: sorted_syms_def decode_tables_def)
  then obtain tbl ovf u where F: "fast_build (dlen d t) perm mn mx n (decode_fast d t) (decode_overflow d t) =
      Some (tbl, ovf, u)" "fast_tables (dlen d t) n tbl ovf" by (rule fast_build_ok)
  have e: "build_group n t d = d\<lparr>dlimit := (dlimit d)(t := limit), dbase := (dbase d)(t := base),
      dperm := (dperm d)(t := perm), minLens := (minLens d)(t := mn), decode_fast := (decode_fast d)(t := tbl),
      decode_overflow := (decode_overflow d)(t := ovf), decode_overflow_used := (decode_overflow_used d)(t := u)\<rparr>"
    by (simp add: build_group_def Let_def b T F)
  have "0 < cnt (dlen d t) n mx"
    using B by (auto simp: cnt_def card_gt_0_iff)
  then show "group_ok n (build_group n t d) t"
    unfolding group_ok_def e using D F(2) B bounds by (intro exI [of _ mx]) simp
  show "dlen (build_group n t d) = dlen d" by (simp add: e)
  show "t' \<noteq> t \<Longrightarrow> group_ok n d t' \<Longrightarrow> group_ok n (build_group n t d) t'"
    by (simp add: group_ok_def e)
qed

lemma build_groups_ok:
  assumes n: "0 < n" "n \<le> 258" and L: "\<forall>t < g. lens_ok n (dlen d t)"
  shows "\<forall>t < g. group_ok n (fold (build_group n) [0..<g] d) t"
proof -
  have "m \<le> g \<Longrightarrow> dlen (fold (build_group n) [0..<m] d) = dlen d \<and>
      (\<forall>t < m. group_ok n (fold (build_group n) [0..<m] d) t)" for m
  proof (induction m)
    case (Suc m)
    let ?d = "fold (build_group n) [0..<m] d"
    have "lens_ok n (dlen ?d m)" using Suc L by simp
    note G = build_group_ok [OF n this]
    show ?case using Suc G by (auto simp: less_Suc_eq)
  qed simp
  then show ?thesis by blast
qed

section \<open>Reading a symbol\<close>

definition sym_point :: "dstate \<Rightarrow> bool" where
  "sym_point s \<longleftrightarrow> bs_ok s \<and> map_ok s \<and> grp_ok s \<and> sel_ok s \<and> sym_ok s"

lemma mtf_begin_ok:
  assumes R: "read_ok s" and P: "sym_point s" and l: "l = 36 \<or> l = 38 \<or> l = 40"
  shows "outcome_ok (bits_ahead s) b (mtf_begin l s)"
proof (cases "save_groupPos (dsv s) = 0")
  case False
  then show ?thesis using assms
    by (auto simp: mtf_begin_def Let_def label_inv_def sym_point_def static_defs)
next
  case True
  let ?k = "save_groupNo (dsv s) + 1"
  have k: "0 \<le> ?k" using P by (simp add: sym_point_def sym_ok_def)
  show ?thesis
  proof (cases "?k \<ge> int (save_nSelectors (dsv s))")
    case True
    then show ?thesis using R \<open>save_groupPos (dsv s) = 0\<close> by (simp add: mtf_begin_def Let_def)
  next
    case False
    then have "nat ?k < save_nSelectors (dsv s)" using k by linarith
    then have "selector s (nat ?k) < save_nGroups (dsv s)" using P by (simp add: sym_point_def sel_ok_def)
    then show ?thesis using False R P l k \<open>save_groupPos (dsv s) = 0\<close>
      by (auto simp: mtf_begin_def Let_def label_inv_def sym_point_def static_defs)
  qed
qed

text \<open>Where \<open>GET_MTF_VAL\<close> tests \<open>zvec\<close>.\<close>

definition at_test :: "dstate \<Rightarrow> bool" where
  "at_test s \<longleftrightarrow> 0 \<le> save_groupNo (dsv s) \<and> save_gMinlen (dsv s) \<le> save_zn (dsv s) \<and> save_zn (dsv s) \<le> 21 \<and>
     (let g = save_gSel (dsv s); m = save_zn (dsv s); d = dtab s; n = save_alphaSize (dsv s)
      in \<exists>maxLen. 0 < cnt (dlen d g) n maxLen \<and> maxLen \<le> 20 \<and>
        decode_tables (dlen d g) n (minLens d g) maxLen (dlimit d g) (dbase d g) (dperm d g) \<and>
        (m \<le> maxLen \<longrightarrow> int (fcode (dlen d g) n m) \<le> save_zvec (dsv s)) \<and>
        (1 \<le> save_zvec (dsv s) \<or> m \<le> maxLen))"

lemma at_test_first:
  assumes "sym_point s" "sym_first s"
  shows "at_test (upd_sv (\<lambda>sv. sv\<lparr>save_zvec := int v\<rparr>) s)"
proof -
  let ?g = "save_gSel (dsv s)" and ?n = "save_alphaSize (dsv s)"
  have "?g < save_nGroups (dsv s)" and m: "save_gMinlen (dsv s) = minLens (dtab s) ?g"
    and zn: "save_zn (dsv s) = save_gMinlen (dsv s)" "0 \<le> save_groupNo (dsv s)"
    using assms by (auto simp: sym_point_def sym_ok_def sym_first_def)
  then have "group_ok ?n (dtab s) ?g" using assms(1) by (simp add: sym_point_def sym_ok_def)
  then obtain mx where G: "\<forall>i < ?n. minLens (dtab s) ?g \<le> dlen (dtab s) ?g i" "minLens (dtab s) ?g \<le> mx" "mx \<le> 20"
      "0 < cnt (dlen (dtab s) ?g) ?n mx"
      "decode_tables (dlen (dtab s) ?g) ?n (minLens (dtab s) ?g) mx (dlimit (dtab s) ?g) (dbase (dtab s) ?g) (dperm (dtab s) ?g)"
    by (auto simp: group_ok_def)
  have "fcode (dlen (dtab s) ?g) ?n (minLens (dtab s) ?g) = 0"
    by (rule no_short(3) [where m = "minLens (dtab s) ?g"]) (use G in auto)
  then show ?thesis using G m zn by (auto simp: at_test_def Let_def intro!: exI [of _ mx])
qed

lemma at_test_next:
  assumes "sym_search s" "v < 2"
  shows "at_test (upd_sv (\<lambda>sv. sv\<lparr>save_zj := v, save_zvec := push_bit 1 (save_zvec sv) OR int v\<rparr>) s)"
proof -
  let ?g = "save_gSel (dsv s)" and ?n = "save_alphaSize (dsv s)" and ?m = "save_zn (dsv s) - 1"
    and ?z = "save_zvec (dsv s)" and ?L = "dlen (dtab s) (save_gSel (dsv s))"
  obtain mx where G: "0 < cnt ?L ?n mx" "mx \<le> 20"
      "decode_tables ?L ?n (minLens (dtab s) ?g) mx (dlimit (dtab s) ?g) (dbase (dtab s) ?g) (dperm (dtab s) ?g)"
      "?m \<le> mx \<longrightarrow> int (fcode ?L ?n ?m + cnt ?L ?n ?m) \<le> ?z" "mx \<le> ?m \<longrightarrow> 1 \<le> ?z"
    and zn: "0 \<le> save_groupNo (dsv s)" "save_gMinlen (dsv s) < save_zn (dsv s)" "save_zn (dsv s) \<le> 21"
    using assms(1) by (auto simp: sym_search_def Let_def)
  have e: "push_bit 1 ?z OR int v = 2 * ?z + int v"
  proof -
    have "v = 0 \<or> v = 1" using assms(2) by linarith
    then show ?thesis by (elim disjE) (simp_all add: push_bit_eq_mult or_one_eq mult.commute)
  qed
  have S: "save_zn (dsv s) = Suc ?m" using zn by simp
  have "save_zn (dsv s) \<le> mx \<longrightarrow> int (fcode ?L ?n (save_zn (dsv s))) \<le> 2 * ?z + int v"
    using G(4) by (subst S) auto
  moreover have "1 \<le> 2 * ?z + int v \<or> save_zn (dsv s) \<le> mx"
    using G(5) S by (cases "mx \<le> ?m") auto
  ultimately show ?thesis
    unfolding at_test_def Let_def e using G(1-3) zn e by (auto intro!: exI [of _ mx])
qed

lemma mtf_test_ok:
  assumes R: "read_ok s" and P: "sym_point s" and T: "at_test s" and l: "l2 = 37 \<or> l2 = 39 \<or> l2 = 41"
    and k: "\<And>s'. read_ok s' \<Longrightarrow> loop_ok s' \<Longrightarrow> bits_ahead s' = bits_ahead s \<Longrightarrow> outcome_ok (bits_ahead s) False (k s')"
  shows "outcome_ok (bits_ahead s) False (mtf_test l2 k s)"
proof -
  let ?g = "save_gSel (dsv s)" and ?n = "save_alphaSize (dsv s)" and ?m = "save_zn (dsv s)" and ?z = "save_zvec (dsv s)"
  let ?L = "dlen (dtab s) ?g"
  obtain mx where G: "0 < cnt ?L ?n mx" "mx \<le> 20"
      "decode_tables ?L ?n (minLens (dtab s) ?g) mx (dlimit (dtab s) ?g) (dbase (dtab s) ?g) (dperm (dtab s) ?g)"
      "?m \<le> mx \<Longrightarrow> int (fcode ?L ?n ?m) \<le> ?z" "1 \<le> ?z \<or> ?m \<le> mx"
    and t: "0 \<le> save_groupNo (dsv s)" "save_gMinlen (dsv s) \<le> ?m" "?m \<le> 21"
    using T by (auto simp: at_test_def Let_def)
  have min: "minLens (dtab s) ?g \<le> ?m" using t P by (simp add: sym_point_def sym_ok_def)
  consider "20 < ?m" | "?m \<le> 20" "?z \<le> dlimit (dtab s) ?g ?m" | "?m \<le> 20" "\<not> ?z \<le> dlimit (dtab s) ?g ?m" by linarith
  then show ?thesis
  proof cases
    case 1
    then show ?thesis using R by (simp add: mtf_test_def Let_def)
  next
    case 2
    have "hd_walk (dlimit (dtab s) ?g) ?m ?z [] = Some (?m, ?z)" using 2 by (simp add: hd_walk.simps)
    from hd_walk_symbol [OF G(3,1,2) min G(4,5) this]
    obtain i where i: "i < ?n" "?z - dbase (dtab s) ?g ?m = int (cpos ?L ?n i)"
        "dperm (dtab s) ?g (nat (?z - dbase (dtab s) ?g ?m)) = i" by blast
    have n: "?n \<le> 258" using P by (simp add: sym_point_def map_ok_def)
    have c: "cpos ?L ?n i < 258" using cpos_less [OF i(1), of ?L] n by simp
    have "mtf_test l2 k s = k (upd_sv (\<lambda>sv. sv\<lparr>save_nextSym := i\<rparr>) s)"
      using 2 i c by (simp add: mtf_test_def Let_def)
    moreover have "loop_ok (upd_sv (\<lambda>sv. sv\<lparr>save_nextSym := i\<rparr>) s)"
      using P t(1) i(1) by (auto simp: loop_ok_def sym_point_def static_defs)
    ultimately show ?thesis
      using k [of "upd_sv (\<lambda>sv. sv\<lparr>save_nextSym := i\<rparr>) s"] R by simp
  next
    case 3
    have lim: "dlimit (dtab s) ?g ?m = (if minLens (dtab s) ?g \<le> ?m \<and> ?m \<le> mx
        then int (fcode ?L ?n ?m + cnt ?L ?n ?m) - 1 else 0)"
      using G(3) 3 by (simp add: decode_tables_def)
    have v: "?m \<le> mx \<longrightarrow> int (fcode ?L ?n ?m + cnt ?L ?n ?m) \<le> ?z" using 3 lim min by auto
    have w: "mx \<le> ?m \<longrightarrow> 1 \<le> ?z" using v G(1,5) by auto
    have "sym_search (upd_sv (\<lambda>sv. sv\<lparr>save_zn := ?m + 1\<rparr>) s)"
      unfolding sym_search_def Let_def using t 3 G(1-3) v w by (auto intro!: exI [of _ mx])
    then show ?thesis using 3 R P l
      by (auto simp: mtf_test_def Let_def label_inv_def sym_point_def static_defs(1-9))
  qed
qed

lemma mtf_first_ok:
  assumes "read_ok s" "sym_point s" "sym_first s" and l: "l2 = 37 \<or> l2 = 39 \<or> l2 = 41"
    and k: "\<And>s'. read_ok s' \<Longrightarrow> loop_ok s' \<Longrightarrow> bits_ahead s' = bits_ahead s \<Longrightarrow> outcome_ok (bits_ahead s) False (k s')"
  shows "outcome_ok (bits_ahead s) False (mtf_first l2 k v s)"
proof -
  let ?s = "upd_sv (\<lambda>sv. sv\<lparr>save_zvec := int v\<rparr>) s"
  have "read_ok ?s" "sym_point ?s" using assms(1,2) by (auto simp: sym_point_def static_defs)
  from mtf_test_ok [OF this at_test_first [OF assms(2,3)] l, of k] k show ?thesis
    by (simp add: mtf_first_def)
qed

lemma mtf_next_ok:
  assumes "read_ok s" "sym_point s" "sym_search s" "v < 2" and l: "l2 = 37 \<or> l2 = 39 \<or> l2 = 41"
    and k: "\<And>s'. read_ok s' \<Longrightarrow> loop_ok s' \<Longrightarrow> bits_ahead s' = bits_ahead s \<Longrightarrow> outcome_ok (bits_ahead s) False (k s')"
  shows "outcome_ok (bits_ahead s) False (mtf_next l2 k v s)"
proof -
  let ?s = "upd_sv (\<lambda>sv. sv\<lparr>save_zj := v, save_zvec := push_bit 1 (save_zvec sv) OR int v\<rparr>) s"
  have "read_ok ?s" "sym_point ?s" using assms(1,2) by (auto simp: sym_point_def static_defs)
  from mtf_test_ok [OF this at_test_next [OF assms(3,4)] l, of k] k show ?thesis
    by (simp add: mtf_next_def)
qed

section \<open>The coding tables\<close>

definition coding_point :: "dstate \<Rightarrow> bool" where
  "coding_point s \<longleftrightarrow> bs_ok s \<and> map_ok s \<and> grp_ok s \<and> sel_ok s \<and> coding_ok s \<and> coding_at s"

lemma coding_check_ok:
  "read_ok s \<Longrightarrow> coding_point s \<Longrightarrow> outcome_ok (bits_ahead s) b (coding_check s)"
  by (auto simp: coding_check_def coding_point_def label_inv_def curr_ok_def)

lemma symbol_loop_init_ok:
  assumes R: "read_ok s" and P: "bs_ok s" "map_ok s" "grp_ok s" "sel_ok s"
    and L: "\<forall>t < save_nGroups (dsv s). lens_ok (save_alphaSize (dsv s)) (dlen (dtab s) t)"
  shows "outcome_ok (bits_ahead s) b (symbol_loop_init (build_groups s))"
proof -
  have "\<forall>t < save_nGroups (dsv s). group_ok (save_alphaSize (dsv s))
      (fold (build_group (save_alphaSize (dsv s))) [0..<save_nGroups (dsv s)] (dtab s)) t"
    by (rule build_groups_ok) (use P L in \<open>auto simp: map_ok_def\<close>)
  then have "sym_point (upd_sv (\<lambda>sv. sv\<lparr>save_i := 256, save_nblock := 0\<rparr>)
     ((upd_sv (\<lambda>sv. sv\<lparr>save_EOB := nInUse s + 1, save_nblockMAX := 100000 * blockSize100k s,
                save_groupNo := -1, save_groupPos := 0\<rparr>) (build_groups s))\<lparr>unzftab := z, mtfa := m\<rparr>))" for z m
    using P by (auto simp: sym_point_def static_defs build_groups_def Let_def)
  note Q = mtf_begin_ok [OF _ this, where l = 36]
  have "nInUse (build_groups s) = nInUse s" "blockSize100k (build_groups s) = blockSize100k s"
      "read_ok (build_groups s)" "bits_ahead (build_groups s) = bits_ahead s"
    using R by (simp_all add: build_groups_def Let_def)
  then show ?thesis
    unfolding symbol_loop_init_def Let_def using Q by simp
qed

lemma coding_1_ok:
  assumes "read_ok s" "label_inv 33 s"
  shows "outcome_ok (bits_ahead s) b (coding_1 v s)"
proof -
  let ?s = "upd_sv (\<lambda>sv. sv\<lparr>save_curr := int v, save_i := 0\<rparr>) s"
  have "coding_point ?s" using assms(2)
    by (auto simp: coding_point_def label_inv_def static_defs lens_ok_def)
  then show ?thesis using coding_check_ok [of ?s b] assms(1) by (simp add: coding_1_def)
qed

lemma coding_3_ok:
  assumes "read_ok s" "label_inv 35 s"
  shows "outcome_ok (bits_ahead s) b (coding_3 v s)"
proof -
  let ?s = "upd_sv (\<lambda>sv. sv\<lparr>save_curr := (if v = 0 then save_curr sv + 1 else save_curr sv - 1)\<rparr>) s"
  have "coding_point ?s" using assms(2)
    by (auto simp: coding_point_def label_inv_def static_defs)
  then show ?thesis using coding_check_ok [of ?s b] assms(1) by (simp add: coding_3_def)
qed

lemma coding_2_ok:
  assumes R: "read_ok s" and I: "label_inv 34 s"
  shows "outcome_ok (bits_ahead s) b (coding_2 v s)"
proof (cases "v = 0")
  case False
  then show ?thesis using R I by (simp add: coding_2_def label_inv_def)
next
  case True
  let ?t = "save_t (dsv s)" and ?i = "save_i (dsv s)" and ?n = "save_alphaSize (dsv s)" and ?g = "save_nGroups (dsv s)"
  have P: "bs_ok s" "map_ok s" "grp_ok s" "sel_ok s" "coding_ok s" "coding_at s" "curr_ok s"
    using I by (simp_all add: label_inv_def)
  define s1 where "s1 = upd_sv (\<lambda>sv. sv\<lparr>save_i := ?i + 1\<rparr>)
      (upd_tab (\<lambda>d. d\<lparr>dlen := (dlen d)(?t := (dlen d ?t)(?i := nat (save_curr (dsv s))))\<rparr>) s)"
  have s1: "read_ok s1" "bits_ahead s1 = bits_ahead s" "bs_ok s1" "map_ok s1" "grp_ok s1" "sel_ok s1" "coding_ok s1"
    "save_t (dsv s1) = ?t" "save_alphaSize (dsv s1) = ?n" "save_nGroups (dsv s1) = ?g"
    using R P by (auto simp: s1_def static_defs)
  have lens: "lens_ok (?i + 1) (dlen (dtab s1) ?t)"
    using P(6,7) by (auto simp: s1_def coding_at_def curr_ok_def lens_ok_def less_Suc_eq)
  show ?thesis
  proof (cases "?i + 1 < ?n")
    case lt: True
    have e: "coding_2 v s = coding_check s1" using True lt by (simp add: coding_2_def Let_def s1_def)
    have "coding_point s1" using s1 lens lt by (simp add: coding_point_def coding_at_def s1_def)
    then show ?thesis unfolding e using coding_check_ok [OF s1(1), of b] s1(2) by simp
  next
    case False
    then have n: "?n = ?i + 1" using P(6) by (simp add: coding_at_def)
    let ?s2 = "upd_sv (\<lambda>sv. sv\<lparr>save_t := ?t + 1\<rparr>) s1"
    have all: "\<forall>t < ?t + 1. lens_ok ?n (dlen (dtab s1) t)"
      using lens s1(7) n s1(8,9) by (auto simp: coding_ok_def less_Suc_eq)
    show ?thesis
    proof (cases "?t + 1 < ?g")
      case t: True
      have e: "coding_2 v s = At (Label 33) ?s2" using True False t by (simp add: coding_2_def Let_def s1_def)
      show ?thesis unfolding e using s1 all t by (auto simp: label_inv_def static_defs)
    next
      case t: False
      then have g: "?g = ?t + 1" using P(5) by (simp add: coding_ok_def)
      have e: "coding_2 v s = symbol_loop_init (build_groups ?s2)"
        using True False t by (simp add: coding_2_def Let_def s1_def)
      have "read_ok ?s2" "bs_ok ?s2" "map_ok ?s2" "grp_ok ?s2" "sel_ok ?s2" "bits_ahead ?s2 = bits_ahead s"
        using s1 by (simp_all add: static_defs)
      then show ?thesis
        unfolding e using symbol_loop_init_ok [of ?s2 b] all g s1 by simp
    qed
  qed
qed

section \<open>Runs and literals\<close>

lemma store_byte_fields [frame, simp]:
  "read_ok (store_byte n e u s) = read_ok s" "bits_ahead (store_byte n e u s) = bits_ahead s"
  "dsv (store_byte n e u s) = dsv s" "dtab (store_byte n e u s) = dtab s"
  "nInUse (store_byte n e u s) = nInUse s" "blockSize100k (store_byte n e u s) = blockSize100k s"
  "selector (store_byte n e u s) = selector s" "dstrm (store_byte n e u s) = dstrm s"
  "bsLive (store_byte n e u s) = bsLive s" "bsBuff (store_byte n e u s) = bsBuff s"
  by (simp_all add: store_byte_def)

lemma sym_point_cong:
  assumes "sym_point s" and "nInUse s' = nInUse s" "blockSize100k s' = blockSize100k s" "selector s' = selector s"
    "dtab s' = dtab s"
    and "save_alphaSize (dsv s') = save_alphaSize (dsv s)" "save_nGroups (dsv s') = save_nGroups (dsv s)"
    "save_nSelectors (dsv s') = save_nSelectors (dsv s)" "save_EOB (dsv s') = save_EOB (dsv s)"
    "save_nblockMAX (dsv s') = save_nblockMAX (dsv s)" "save_nblock (dsv s') \<le> save_nblockMAX (dsv s)"
    "save_groupNo (dsv s') = save_groupNo (dsv s)" "save_groupPos (dsv s') \<le> save_groupPos (dsv s)"
    "save_gSel (dsv s') = save_gSel (dsv s)" "save_gMinlen (dsv s') = save_gMinlen (dsv s)"
  shows "sym_point s'"
  using assms unfolding sym_point_def static_defs by auto

lemma loop_ok_point: "loop_ok s \<longleftrightarrow> sym_point s \<and> 0 \<le> save_groupNo (dsv s) \<and> save_nextSym (dsv s) < save_alphaSize (dsv s)"
  by (auto simp: loop_ok_def sym_point_def)

lemma sym_point_nblock: "sym_point s \<Longrightarrow> save_nblock (dsv s) \<le> save_nblockMAX (dsv s)"
  by (simp add: sym_point_def sym_ok_def)

lemma run_digit_ok:
  assumes "read_ok s" "sym_point s"
  shows "outcome_ok (bits_ahead s) b (run_digit s)"
proof -
  have "sym_point (upd_sv (\<lambda>sv. sv\<lparr>save_es := e, save_N := n\<rparr>) s)" for e n
    by (rule sym_point_cong [OF assms(2)]) (use sym_point_nblock [OF assms(2)] in auto)
  note Q = mtf_begin_ok [OF _ this, where l = 38]
  show ?thesis using Q assms(1) by (simp add: run_digit_def Let_def)
qed

lemma run_end_ok:
  assumes "read_ok s" "loop_ok s"
  shows "outcome_ok (bits_ahead s) False (run_end s)"
proof (cases "int (save_nblock (dsv s)) + (save_es (dsv s) + 1) > int (save_nblockMAX (dsv s))")
  case True
  then show ?thesis using assms(1) by (simp add: run_end_def Let_def)
next
  case False
  have P: "sym_point s" using assms(2) by (simp add: loop_ok_point)
  let ?u = "seqToUnseq s (unat (mtfa s 0))" and ?e = "save_es (dsv s) + 1"
  let ?s1 = "s\<lparr>dsv := (dsv s)\<lparr>save_es := ?e\<rparr>, unzftab := (unzftab s)(unat ?u := unzftab s (unat ?u) + ?e)\<rparr>"
  let ?s = "upd_sv (\<lambda>sv. sv\<lparr>save_nblock := save_nblock sv + nat ?e\<rparr>) (store_byte (save_nblock (dsv s)) (nat ?e) ?u ?s1)"
  have e: "run_end s = At MTF_LOOP ?s" using False by (simp add: run_end_def Let_def)
  have "sym_point ?s"
    by (rule sym_point_cong [OF P]) (use False sym_point_nblock [OF P] in auto)
  then have "loop_ok ?s" using assms(2) by (simp add: loop_ok_point)
  then show ?thesis unfolding e using assms(1) by simp
qed

lemma run_more_ok: "read_ok s \<Longrightarrow> loop_ok s \<Longrightarrow> outcome_ok (bits_ahead s) False (run_more s)"
  using run_digit_ok [of s False] run_end_ok [of s] by (simp add: run_more_def loop_ok_point)

lemma fast_refill_ok:
  assumes "read_ok s"
  shows "read_ok (fast_refill s)" "bits_ahead (fast_refill s) = bits_ahead s" "same_but_input s (fast_refill s)"
    "pending (fast_refill s) = pending s"
proof -
  show "read_ok (fast_refill s)" "pending (fast_refill s) = pending s"
    using assms pending_refill4 [of s] by (auto simp: fast_refill_def read_ok_def) (simp add: refill4_def)
  show "bits_ahead (fast_refill s) = bits_ahead s"
    by (auto simp: fast_refill_def bits_ahead_def refill4_def)
  show "same_but_input s (fast_refill s)"
    by (simp add: fast_refill_def same_but_input_refl same_but_input_refill)
qed

lemma sym_point_same: "same_but_input s s' \<Longrightarrow> sym_point s \<Longrightarrow> sym_point s'"
  by (auto dest!: same_but_input_eq simp: sym_point_def)

text \<open>A hit in the fast tables has at least one bit, a symbol of the alphabet, and fits the buffer.\<close>

lemma fast_hit:
  assumes P: "sym_point s" and g: "0 \<le> save_groupNo (dsv s)"
    and L: "fast_lookup (decode_fast (dtab s) (save_gSel (dsv s))) (decode_overflow (dtab s) (save_gSel (dsv s)))
      (bsBuff s) (bsLive s) = Some (l, sm)"
  shows "1 \<le> l \<and> l \<le> bsLive s \<and> sm < save_alphaSize (dsv s)"
proof -
  let ?g = "save_gSel (dsv s)" and ?n = "save_alphaSize (dsv s)"
  have "?g < save_nGroups (dsv s)" using P g by (simp add: sym_point_def sym_ok_def)
  then have "group_ok ?n (dtab s) ?g" using P by (simp add: sym_point_def sym_ok_def)
  then have F: "fast_tables (dlen (dtab s) ?g) ?n (decode_fast (dtab s) ?g) (decode_overflow (dtab s) ?g)"
    and l: "\<forall>i < ?n. 1 \<le> dlen (dtab s) ?g i" by (auto simp: group_ok_def intro: le_trans)
  have "?n \<le> 258" using P by (simp add: sym_point_def map_ok_def)
  from fast_lookup_bits [OF F this L] l show ?thesis by auto
qed

lemma next_symbol_ok:
  assumes R: "read_ok s" and P: "sym_point s" and g: "0 \<le> save_groupNo (dsv s)"
  shows "outcome_ok (bits_ahead s) True (next_symbol s)"
proof (cases "save_groupPos (dsv s) > 0")
  case False
  then show ?thesis using mtf_begin_ok [OF R P, of 40 True] by (simp add: next_symbol_def)
next
  case True
  let ?s = "fast_refill s"
  note F = fast_refill_ok [OF R]
  have P': "sym_point ?s" by (rule sym_point_same [OF F(3) P])
  have d: "dsv ?s = dsv s" by (simp add: fast_refill_def refill4_def)
  show ?thesis
  proof (cases "fast_lookup (decode_fast (dtab ?s) (save_gSel (dsv ?s))) (decode_overflow (dtab ?s) (save_gSel (dsv ?s)))
      (bsBuff ?s) (bsLive ?s)")
    case None
    then show ?thesis using mtf_begin_ok [OF F(1) P', of 40 True] F(2) True d
      by (simp add: next_symbol_def Let_def)
  next
    case (Some p)
    obtain l sm where p: "p = (l, sm)" by fastforce
    have h: "1 \<le> l" "l \<le> bsLive ?s" "sm < save_alphaSize (dsv ?s)"
      using fast_hit [OF P' _ Some [unfolded p]] g d by auto
    let ?r = "upd_sv (\<lambda>sv. sv\<lparr>save_nextSym := sm, save_groupPos := save_groupPos sv - 1\<rparr>) (?s\<lparr>bsLive := bsLive ?s - l\<rparr>)"
    have e: "next_symbol s = At MTF_LOOP ?r" using True Some d by (simp add: next_symbol_def Let_def p)
    have "sym_point ?r"
      by (rule sym_point_cong [OF P']) (use sym_point_nblock [OF P'] in auto)
    then have "loop_ok ?r" using h(3) g d by (simp add: loop_ok_point)
    moreover have "read_ok ?r" using F(1) by (auto simp: read_ok_def)
    moreover have "bits_ahead ?r < bits_ahead s" using h F(2) by (simp add: bits_ahead_def)
    ultimately show ?thesis by (simp add: e)
  qed
qed

lemma literal_ok:
  assumes R: "read_ok s" and L: "loop_ok s"
  shows "outcome_ok (bits_ahead s) True (literal s)"
proof (cases "save_nblock (dsv s) \<ge> save_nblockMAX (dsv s)")
  case True
  then show ?thesis using R by (simp add: literal_def Let_def)
next
  case False
  have P: "sym_point s" and g: "0 \<le> save_groupNo (dsv s)" using L by (simp_all add: loop_ok_point)
  let ?s = "s\<lparr>mtfa := mtf_front (save_nextSym (dsv s) - 1) (mtfa s)\<rparr>"
  let ?u = "seqToUnseq ?s (unat (mtfa ?s 0))"
  let ?r = "upd_sv (\<lambda>sv. sv\<lparr>save_nblock := save_nblock sv + 1\<rparr>) (store_byte (save_nblock (dsv s)) 1 ?u
      (?s\<lparr>unzftab := (unzftab ?s)(unat ?u := unzftab ?s (unat ?u) + 1)\<rparr>))"
  have e: "literal s = next_symbol ?r" using False by (simp add: literal_def Let_def)
  have "sym_point ?r"
    by (rule sym_point_cong [OF P]) (use False in auto)
  then show ?thesis unfolding e using next_symbol_ok [of ?r] R g by simp
qed

section \<open>End of the block\<close>

lemma read_cong:
  "dstrm s' = dstrm s \<Longrightarrow> bsLive s' = bsLive s \<Longrightarrow> read_ok s' = read_ok s \<and> bits_ahead s' = bits_ahead s"
  by (simp add: read_ok_def bits_ahead_def)

text \<open>What the output side does not touch.\<close>

definition same_input :: "dstate \<Rightarrow> dstate \<Rightarrow> bool" where
  "same_input s s' \<longleftrightarrow> dstrm s' = dstrm s \<and> bsLive s' = bsLive s \<and> dst s' = dst s \<and>
     blockSize100k s' = blockSize100k s \<and> save_nblock (dsv s') = save_nblock (dsv s)"

lemma same_input_trans: "same_input s s' \<Longrightarrow> same_input s' s'' \<Longrightarrow> same_input s s''"
  by (simp add: same_input_def)

lemma invert_fast_same: "same_input s (invert_fast s)"
proof -
  have "same_input s (fold (\<lambda>i s. let uc = unat (tt s i AND 0xff); p = nat (cftab s uc)
                 in s\<lparr>tt := (tt s)(p := tt s p OR push_bit 8 (word_of_nat i)),
                      cftab := (cftab s)(uc := cftab s uc + 1)\<rparr>) [0..<n] s)" for n
    by (induction n) (simp_all add: same_input_def Let_def)
  then show ?thesis by (simp add: invert_fast_def)
qed

lemma invert_small_same: "same_input s (invert_small s)" "same_input s (reverse_pointers s)"
  by (simp_all add: same_input_def invert_small_def reverse_pointers_def Let_def split: prod.split)

lemma rand_same [frame]:
  "same_input s (BZ_RAND_INIT_MASK s)" "same_input s (BZ_RAND_UPD_MASK s)"
  by (simp_all add: same_input_def BZ_RAND_INIT_MASK_def BZ_RAND_UPD_MASK_def Let_def)

lemma get_same:
  "BZ_GET_FAST s = Some (b, s') \<Longrightarrow> same_input s s'"
  "BZ_GET_SMALL s = Some (b, s') \<Longrightarrow> same_input s s'"
  by (auto simp: same_input_def BZ_GET_FAST_def BZ_GET_SMALL_def Let_def split: if_splits)

lemma out_same: "same_input s s' \<Longrightarrow> out_inv s \<Longrightarrow> out_inv s' \<and> bits_ahead s' = bits_ahead s"
  by (simp add: same_input_def out_inv_def read_ok_def bits_ahead_def bs_ok_def)

lemma first_byte_ok:
  assumes O: "out_inv s" and get: "\<And>s b s'. get s = Some (b, s') \<Longrightarrow> same_input s s'"
  shows "outcome_ok (bits_ahead s) c (first_byte get s)"
proof -
  have up: "same_input s s' \<Longrightarrow> same_input s (s'\<lparr>k0 := k, nblock_used := n\<rparr>)"
    "same_input s s' \<Longrightarrow> same_input s (s'\<lparr>k0 := k\<rparr>)" for s' k n
    by (simp_all add: same_input_def)
  let ?s = "s\<lparr>nblock_used := 0\<rparr>"
  have S: "same_input s ?s" by (simp add: same_input_def)
  have "\<exists>r s'. first_byte get s = Return r s' \<and> same_input s s' \<and> (r = BZ_OK \<or> r = 1)"
  proof (cases "blockRandomised ?s")
    case True
    have I: "same_input s (BZ_RAND_INIT_MASK ?s)" by (rule same_input_trans [OF S rand_same(1)])
    show ?thesis
    proof (cases "get (BZ_RAND_INIT_MASK ?s)")
      case None
      then show ?thesis using I True by (simp add: first_byte_def Let_def)
    next
      case (Some p)
      obtain b t where p: "p = (b, t)" by fastforce
      have "same_input s t" using same_input_trans [OF I get] Some p by blast
      then have "same_input s (BZ_RAND_UPD_MASK (t\<lparr>k0 := b, nblock_used := nblock_used t + 1\<rparr>))"
        by (rule same_input_trans [OF up(1) rand_same(2)])
      then show ?thesis using True Some p up(2) by (simp add: first_byte_def Let_def)
    qed
  next
    case False
    then show ?thesis
      using S same_input_trans [OF S get] up(1)
      by (cases "get ?s") (auto simp: first_byte_def Let_def split: prod.split)
  qed
  then show ?thesis using out_same [OF _ O] O by (auto simp: out_inv_def)
qed

lemma build_cftab_same [frame]: "same_input s (build_cftab s)"
  by (simp add: same_input_def build_cftab_def Let_def)

lemma block_end_ok:
  assumes R: "read_ok s" and L: "loop_ok s"
  shows "outcome_ok (bits_ahead s) b (block_end s)"
proof -
  let ?s1 = "(build_cftab s)\<lparr>state_out_len := 0, state_out_ch := 0, calculatedBlockCRC := BZ_INITIALISE_CRC,
                          dst := BZ_X_OUTPUT\<rparr>"
  have O: "out_inv ?s1" "bits_ahead ?s1 = bits_ahead s"
    using R L build_cftab_same [of s]
    by (auto simp: out_inv_def same_input_def loop_ok_def sym_ok_def bs_ok_def read_ok_def bits_ahead_def)
  have up: "same_input t t' \<Longrightarrow> same_input t (t'\<lparr>tPos := p\<rparr>)" for t t' p by (simp add: same_input_def)
  note small = out_same [OF up [OF same_input_trans [OF invert_small_same(1) invert_small_same(2)]] O(1)]
  note fast = out_same [OF up [OF invert_fast_same] O(1)]
  have "outcome_ok (bits_ahead s) b (first_byte BZ_GET_SMALL ((reverse_pointers (invert_small ?s1))\<lparr>tPos := p\<rparr>))" for p
    using first_byte_ok [OF conjunct1 [OF small], of BZ_GET_SMALL p b] get_same(2) small O(2) by metis
  moreover have "outcome_ok (bits_ahead s) b (first_byte BZ_GET_FAST ((invert_fast ?s1)\<lparr>tPos := p\<rparr>))" for p
    using first_byte_ok [OF conjunct1 [OF fast], of BZ_GET_FAST p b] get_same(1) fast O(2) by metis
  moreover have "read_ok (build_cftab s)" "bits_ahead (build_cftab s) = bits_ahead s"
    using R build_cftab_same [of s] by (simp_all add: same_input_def read_ok_def bits_ahead_def)
  ultimately show ?thesis
    using R unfolding block_end_def Let_def by (simp del: outcome_ok.simps) simp
qed

section \<open>Every step keeps the invariant\<close>

lemma mtf_loop_ok:
  assumes "read_ok s" "loop_ok s"
  shows "outcome_ok (bits_ahead s) True (mtf_loop s)"
proof -
  have P: "sym_point s" using assms(2) by (simp add: loop_ok_point)
  have "sym_point (upd_sv (\<lambda>sv. sv\<lparr>save_es := -1, save_N := 1\<rparr>) s)"
    by (rule sym_point_cong [OF P]) (use sym_point_nblock [OF P] in auto)
  then show ?thesis
    using block_end_ok [OF assms] literal_ok [OF assms]
      run_digit_ok [of "upd_sv (\<lambda>sv. sv\<lparr>save_es := -1, save_N := 1\<rparr>) s" True] assms(1)
    by (simp add: mtf_loop_def Let_def)
qed

lemma trailer_code_ok:
  assumes R: "read_ok s" and I: "label_inv l s" and l: "42 \<le> l"
  shows "outcome_ok (bits_ahead s) b (trailer_code l v s)"
proof -
  have "bs_ok s" using I l by (simp add: label_inv_def)
  have f: "bs_ok (s\<lparr>storedCombinedCRC := c\<rparr>)" for c using \<open>bs_ok s\<close> by (simp add: bs_ok_def)
  have "l \<le> 50" using I by (simp add: label_inv_def)
  with l have "l \<in> set [42..<51]" unfolding set_upt atLeastLessThan_iff by linarith
  then have "l = 42 \<or> l = 43 \<or> l = 44 \<or> l = 45 \<or> l = 46 \<or> l = 47 \<or> l = 48 \<or> l = 49 \<or> l = 50"
    by (auto simp: upt_rec simp del: set_upt)
  then show ?thesis using R f \<open>bs_ok s\<close>
    by (elim disjE; hypsubst)
      (simp_all add: trailer_code_def header_byte_def endhdr_6_def ccrc_shift_def ccrc_4_def label_inv_def)
qed

lemma table_code_ok:
  assumes R: "read_ok s" and I: "label_inv l s" and l: "28 \<le> l" "l < 36"
  shows "outcome_ok (bits_ahead s) b (table_code l v s)"
proof -
  from l have "l \<in> set [28..<36]" unfolding set_upt atLeastLessThan_iff by linarith
  then have "l = 28 \<or> l = 29 \<or> l = 30 \<or> l = 31 \<or> l = 32 \<or> l = 33 \<or> l = 34 \<or> l = 35"
    by (auto simp: upt_rec simp del: set_upt)
  then show ?thesis
    using mapping_ok [OF R I] selector_ok [OF R I] coding_1_ok [OF R] coding_2_ok [OF R] coding_3_ok [OF R] I
    by (elim disjE) (simp_all add: table_code_def)
qed

lemma symbol_code_ok:
  assumes R: "read_ok s" and I: "label_inv l s" and l: "36 \<le> l" "l < 42" and v: "l \<in> {37, 39, 41} \<Longrightarrow> v < 2"
  shows "outcome_ok (bits_ahead s) False (symbol_code l v s)"
proof -
  have P: "sym_point s" using I l by (simp add: label_inv_def sym_point_def)
  have k: "outcome_ok (bits_ahead s) False (At MTF_LOOP s')"
    if "read_ok s'" "loop_ok s'" "bits_ahead s' = bits_ahead s" for s' using that by simp
  have k': "outcome_ok (bits_ahead s) False (run_more s')"
    if "read_ok s'" "loop_ok s'" "bits_ahead s' = bits_ahead s" for s'
    using run_more_ok [OF that(1,2)] that(3) by simp
  from l have "l \<in> set [36..<42]" unfolding set_upt atLeastLessThan_iff by linarith
  then have "l = 36 \<or> l = 37 \<or> l = 38 \<or> l = 39 \<or> l = 40 \<or> l = 41"
    by (auto simp: upt_rec simp del: set_upt)
  then consider (1) "l = 36" | (2) "l = 37" | (3) "l = 38" | (4) "l = 39" | (5) "l = 40" | (6) "l = 41" by blast
  then show ?thesis
  proof cases
    case 1
    then have "sym_first s" using I by (simp add: label_inv_def)
    from mtf_first_ok [OF R P this _ k, of 37] 1 show ?thesis by (simp add: symbol_code_def)
  next
    case 2
    then have "sym_search s" "v < 2" using I v by (simp_all add: label_inv_def)
    from mtf_next_ok [OF R P this _ k, of 37] 2 show ?thesis by (simp add: symbol_code_def)
  next
    case 3
    then have "sym_first s" using I by (simp add: label_inv_def)
    from mtf_first_ok [OF R P this _ k', of 39] 3 show ?thesis by (simp add: symbol_code_def)
  next
    case 4
    then have "sym_search s" "v < 2" using I v by (simp_all add: label_inv_def)
    from mtf_next_ok [OF R P this _ k', of 39] 4 show ?thesis by (simp add: symbol_code_def)
  next
    case 5
    then have "sym_first s" using I by (simp add: label_inv_def)
    from mtf_first_ok [OF R P this _ k, of 41] 5 show ?thesis by (simp add: symbol_code_def)
  next
    case 6
    then have "sym_search s" "v < 2" using I v by (simp_all add: label_inv_def)
    from mtf_next_ok [OF R P this _ k, of 41] 6 show ?thesis by (simp add: symbol_code_def)
  qed
qed

lemma label_code_ok:
  assumes R: "read_ok s" and I: "label_inv l s" and v: "l \<in> {37, 39, 41} \<Longrightarrow> v < 2"
  shows "outcome_ok (bits_ahead s) False (label_code l v s)"
  using header_code_ok [OF R I, of False v] table_code_ok [OF R I, of False v] symbol_code_ok [OF R I _ _ v] trailer_code_ok [OF R I, of False v]
  by (simp add: label_code_def)

lemma label_bits_pos: "label_inv l s \<Longrightarrow> 1 \<le> label_bits l s \<and> label_bits l s \<le> 20 \<and> (l \<in> {37, 39, 41} \<longrightarrow> label_bits l s = 1)"
proof -
  assume I: "label_inv l s"
  have "1 \<le> save_zn (dsv s) \<and> save_zn (dsv s) \<le> 20" if l: "l = 36 \<or> l = 38 \<or> l = 40"
  proof -
    have "sym_ok s" "sym_first s" using l I by (elim disjE; simp add: label_inv_def)+
    then have g: "save_gSel (dsv s) < save_nGroups (dsv s)" "save_zn (dsv s) = minLens (dtab s) (save_gSel (dsv s))"
      by (simp_all add: sym_ok_def sym_first_def)
    then have "group_ok (save_alphaSize (dsv s)) (dtab s) (save_gSel (dsv s))" using \<open>sym_ok s\<close> by (simp add: sym_ok_def)
    then show ?thesis unfolding g(2) group_ok_def by auto
  qed
  then show ?thesis by (auto simp: label_bits_def)
qed

lemma starved_inv:
  assumes "label_inv l s" "read_ok s" and "GET_BITS (label_bits l s) (s\<lparr>dst := l\<rparr>) = (None, s')"
  shows "pc_inv (Label l) s' \<and> dst s' = l \<and> avail_in (dstrm s') = 0 \<and> bsLive s' < label_bits l s \<and> bits_ahead s' = bits_ahead s"
proof -
  have b: "label_bits l s \<le> 24" using label_bits_pos [OF assms(1)] by simp
  have r: "read_ok (s\<lparr>dst := l\<rparr>)" using assms(2) by simp
  note G = GET_BITS_spec [OF assms(3) b r]
  have c: "same_but_input (s\<lparr>dst := l\<rparr>) s'" using G by blast
  have p: "pending s' = pending (s\<lparr>dst := l\<rparr>)" "avail_in (dstrm s') = 0" "bsLive s' < label_bits l s"
    using G by (auto split: if_splits)
  have "bits_ahead s' = bits_ahead s"
    using arg_cong [OF p(1), of length] by (simp add: length_pending bits_ahead_def)
  moreover have "dst s' = l" using same_but_input_eq [OF c] by auto
  moreover have "label_inv l s'" using label_inv_same [OF c] assms(1) by simp
  ultimately show ?thesis using G p by simp
qed

text \<open>A step from a label either starves, or takes the bits of the label and goes on.\<close>

lemma label_step:
  assumes I: "pc_inv (Label l) s"
  shows "(\<exists>s'. decompress_step (Label l) s = Return BZ_OK s' \<and> pc_inv (Label l) s' \<and> dst s' = l \<and>
      avail_in (dstrm s') = 0 \<and> bsLive s' < label_bits l s \<and> bits_ahead s' = bits_ahead s) \<or>
    (\<exists>v s1. decompress_step (Label l) s = label_code l v s1 \<and> pc_inv (Label l) s1 \<and>
      bits_ahead s1 + label_bits l s = bits_ahead s \<and> outcome_ok (bits_ahead s1) False (label_code l v s1))"
proof -
  have R: "read_ok s" and L: "label_inv l s" using I by simp_all
  have l: "\<not> (l < 10 \<or> 50 < l)" using L by (simp add: label_inv_def)
  have b: "1 \<le> label_bits l s" "label_bits l s \<le> 20" "l \<in> {37, 39, 41} \<Longrightarrow> label_bits l s = 1"
    using label_bits_pos [OF L] by auto
  have lb: "label_bits l (s\<lparr>dst := l\<rparr>) = label_bits l s" by (simp add: label_bits_def)
  obtain r s1 where g: "GET_BITS (label_bits l s) (s\<lparr>dst := l\<rparr>) = (r, s1)" by fastforce
  have r: "read_ok (s\<lparr>dst := l\<rparr>)" using R by simp
  note G = GET_BITS_spec [OF g _ r]
  show ?thesis
  proof (cases r)
    case None
    then show ?thesis using starved_inv [OF L R g [unfolded None]] l g lb by simp
  next
    case (Some v)
    have le: "label_bits l s \<le> length (pending (s\<lparr>dst := l\<rparr>))" using G b Some by (auto split: if_splits)
    have v: "v = of_bits (take (label_bits l s) (pending (s\<lparr>dst := l\<rparr>)))"
      and p: "pending s1 = drop (label_bits l s) (pending (s\<lparr>dst := l\<rparr>))"
      and c: "same_but_input (s\<lparr>dst := l\<rparr>) s1" and R1: "read_ok s1"
      using G b Some le by auto
    have v2: "v < 2" if "l \<in> {37, 39, 41}"
      using of_bits_less [of "take (label_bits l s) (pending (s\<lparr>dst := l\<rparr>))"] b(3) [OF that] le v by simp
    have L1: "label_inv l s1" using label_inv_same [OF c] L by simp
    have "bits_ahead s1 + label_bits l s = bits_ahead s"
      using arg_cong [OF p, of length] le by (simp add: length_pending bits_ahead_def)
    moreover have "decompress_step (Label l) s = label_code l v s1" using l g lb Some by simp
    ultimately show ?thesis using label_code_ok [OF R1 L1 v2] R1 L1 by auto
  qed
qed

end
