(* ===== verification/DecRun.thy ===== *)
theory DecRun
  imports DecInv
begin

text \<open>
  Whole runs of \<open>BZ2_decompress\<close>: every call returns, keeps the invariant, and never trips an
  assertion; what it hands back at the end of the stream it has read in the same call.
\<close>

section \<open>Every run returns\<close>

definition run_result :: "nat \<Rightarrow> int \<Rightarrow> dstate \<Rightarrow> bool" where
  "run_result w r s \<longleftrightarrow> read_ok s \<and> bits_ahead s \<le> w \<and>
     (r = BZ_OK \<longrightarrow> out_inv s \<or>
        pc_inv (Label (dst s)) s \<and> avail_in (dstrm s) = 0 \<and> (42 \<le> dst s \<longrightarrow> bsLive s < 8)) \<and>
     (r = BZ_STREAM_END \<longrightarrow> dst s = BZ_X_IDLE)"

lemma run_result_mono: "run_result w r s \<Longrightarrow> w \<le> w' \<Longrightarrow> run_result w' r s"
  by (auto simp: run_result_def)

lemma decompress_run_At:
  "decompress_step pc s = At pc' s' \<Longrightarrow> decompress_run pc s = decompress_run pc' s'"
  "decompress_step pc s = Return r s' \<Longrightarrow> decompress_run pc s = Some (Return r s')"
  by (simp_all add: decompress_run.simps [of pc s])

lemma decompress_run_total:
  "pc_inv pc s \<Longrightarrow> \<exists>r s'. decompress_run pc s = Some (Return r s') \<and> run_result (bits_ahead s) r s'"
proof (induction "2 * bits_ahead s + of_bool (pc = MTF_LOOP)" arbitrary: pc s rule: less_induct)
  case less
  have go: "\<exists>r s'. decompress_run pc s = Some (Return r s') \<and> run_result (bits_ahead s) r s'"
    if o: "decompress_step pc s = o1" "outcome_ok w c o1" "w \<le> bits_ahead s"
      and m: "\<And>pc' s'. o1 = At pc' s' \<Longrightarrow>
        2 * bits_ahead s' + of_bool (pc' = MTF_LOOP) < 2 * bits_ahead s + of_bool (pc = MTF_LOOP)" for o1 w c
  proof (cases o1)
    case (At pc' s')
    have "pc_inv pc' s'" "bits_ahead s' \<le> bits_ahead s" using o At by auto
    from less.hyps [OF m [OF At] this(1)] this(2) show ?thesis
      using decompress_run_At(1) [of pc s pc' s'] o(1) At run_result_mono by fastforce
  next
    case (Return r s')
    have "run_result (bits_ahead s) r s'" using o Return by (auto simp: run_result_def)
    then show ?thesis using decompress_run_At(2) [of pc s r s'] o(1) Return by auto
  next
    case (Fatal e)
    then show ?thesis using o by simp
  qed
  show ?case
  proof (cases pc)
    case MTF_LOOP
    then have O: "outcome_ok (bits_ahead s) True (mtf_loop s)" using mtf_loop_ok less.prems by simp
    show ?thesis
      by (rule go [OF _ O order_refl]) (use O MTF_LOOP in \<open>auto\<close>)
  next
    case (Label l)
    note I = less.prems [unfolded Label]
    have L: "label_inv l s" using I by simp
    from label_step [OF I] show ?thesis
    proof (elim disjE exE conjE)
      fix s' assume e: "decompress_step (Label l) s = Return BZ_OK s'" and p: "pc_inv (Label l) s'" "dst s' = l"
        "avail_in (dstrm s') = 0" "bsLive s' < label_bits l s" "bits_ahead s' = bits_ahead s"
      have "label_bits l s = 8" if "42 \<le> l" using that by (simp add: label_bits_def)
      then have "run_result (bits_ahead s) BZ_OK s'" using p by (auto simp: run_result_def)
      then show ?thesis using decompress_run_At(2) [OF e] Label by auto
    next
      fix v s1 assume e: "decompress_step (Label l) s = label_code l v s1"
        and b: "bits_ahead s1 + label_bits l s = bits_ahead s"
        and O: "outcome_ok (bits_ahead s1) False (label_code l v s1)"
      have pos: "1 \<le> label_bits l s" using label_bits_pos [OF L] by simp
      show ?thesis
        by (rule go [OF _ O]) (use e O b pos Label in auto)
    qed
  qed
qed

section \<open>The input position\<close>

text \<open>Input is only consumed, its end stays where it is, and nothing is written.\<close>

definition moved :: "dstate \<Rightarrow> dstate \<Rightarrow> bool" where
  "moved s s' \<longleftrightarrow> next_in (dstrm s) \<le> next_in (dstrm s') \<and>
     next_in (dstrm s') + int (avail_in (dstrm s')) = next_in (dstrm s) + int (avail_in (dstrm s)) \<and>
     in_buf (dstrm s') = in_buf (dstrm s) \<and> out_buf (dstrm s') = out_buf (dstrm s) \<and>
     avail_out (dstrm s') = avail_out (dstrm s)"

lemma moved_refl: "moved s s"
  by (simp add: moved_def)

lemma moved_trans: "moved s s' \<Longrightarrow> moved s' s'' \<Longrightarrow> moved s s''"
  by (simp add: moved_def)

lemma moved_same: "dstrm s' = dstrm s \<Longrightarrow> moved s s'"
  by (simp add: moved_def)

fun moved_by :: "dstate \<Rightarrow> outcome \<Rightarrow> bool" where
  "moved_by s (At pc s') = moved s s'"
| "moved_by s (Return r s') = moved s s'"
| "moved_by s (Fatal e) = True"

lemma moved_refill: "0 < avail_in (dstrm s) \<Longrightarrow> moved s (refill1 s)" "4 \<le> avail_in (dstrm s) \<Longrightarrow> moved s (refill4 s)"
  by (auto simp: moved_def refill1_def refill4_def Let_def)

lemma moved_GET_BITS: "GET_BITS n s = (r, s') \<Longrightarrow> moved s s'"
proof (induction n s arbitrary: r s' rule: GET_BITS.induct)
  case (1 n s)
  show ?case
  proof (cases "n \<le> bsLive s")
    case True
    then show ?thesis using "1.prems" by (auto simp: GET_BITS.simps [of n s] moved_def)
  next
    case not: False
    show ?thesis
    proof (cases "4 \<le> avail_in (dstrm s) \<and> bsLive s \<le> 32")
      case True
      then have "GET_BITS n (refill4 s) = (r, s')" using "1.prems" not by (simp add: GET_BITS.simps [of n s])
      from moved_trans [OF moved_refill(2) "1.IH"(1) [OF not True this]] True show ?thesis by simp
    next
      case n4: False
      show ?thesis
      proof (cases "avail_in (dstrm s) = 0")
        case True
        then show ?thesis using "1.prems" not by (simp add: GET_BITS.simps [of n s] moved_refl)
      next
        case False
        then have "GET_BITS n (refill1 s) = (r, s')"
          using "1.prems" not n4 by (simp only: GET_BITS.simps [of n s]) simp
        from moved_trans [OF moved_refill(1) "1.IH"(2) [OF not n4 False this]] False show ?thesis by simp
      qed
    qed
  qed
qed

lemma moved_by_same: "dstrm s' = dstrm s \<Longrightarrow> moved_by s' r \<Longrightarrow> moved_by s r"
  by (cases r) (auto simp: moved_def)

lemma moved_mtf_begin: "moved_by s (mtf_begin l s)"
  by (simp add: mtf_begin_def Let_def moved_def)

lemma moved_mtf_begin_same: "dstrm t = dstrm s \<Longrightarrow> moved_by s (mtf_begin l t)"
  by (rule moved_by_same [OF _ moved_mtf_begin])

lemma moved_run_digit: "dstrm t = dstrm s \<Longrightarrow> moved_by s (run_digit t)"
  by (simp add: run_digit_def Let_def moved_same moved_mtf_begin_same)

lemma moved_test:
  assumes "\<And>s'. dstrm s' = dstrm s \<Longrightarrow> moved_by s (k s')"
  shows "moved_by s (mtf_test l k s)"
  using assms by (simp add: mtf_test_def Let_def moved_def)

lemma moved_run_more: "moved_by s (run_more s)"
  using moved_run_digit [of s s] by (simp add: run_more_def run_end_def Let_def moved_def)

lemma moved_next_symbol: "moved_by s (next_symbol s)"
proof -
  have f: "moved s (fast_refill s)" using moved_refill(2) moved_refl by (simp add: fast_refill_def)
  have "moved_by s (mtf_begin 40 (fast_refill s))"
    using moved_mtf_begin [of "fast_refill s" 40] moved_trans [OF f] by (cases "mtf_begin 40 (fast_refill s)") auto
  moreover have "moved s (t\<lparr>dsv := x\<rparr>)" if "moved s t" for t x using that by (simp add: moved_def)
  moreover have "moved s ((fast_refill s)\<lparr>bsLive := l\<rparr>)" for l using f by (simp add: moved_def)
  ultimately show ?thesis
    using moved_mtf_begin [of s 40] by (simp add: next_symbol_def Let_def split: option.split prod.split)
qed

lemma moved_first_byte:
  assumes "\<And>s b s'. get s = Some (b, s') \<Longrightarrow> same_input s s'"
  shows "moved_by s (first_byte get s)"
proof -
  have r: "dstrm (BZ_RAND_INIT_MASK s) = dstrm s" "dstrm (BZ_RAND_UPD_MASK s) = dstrm s" for s
    using rand_same by (simp_all add: same_input_def)
  have g: "dstrm s' = dstrm s" if "get s = Some (b, s')" for s b s'
    using assms [OF that] by (simp add: same_input_def)
  show ?thesis
    by (auto simp: first_byte_def Let_def moved_def r dest!: g split: option.split prod.split)
qed

lemma moved_block_end: "moved_by s (block_end s)"
proof -
  let ?s1 = "(build_cftab s)\<lparr>state_out_len := 0, state_out_ch := 0, calculatedBlockCRC := BZ_INITIALISE_CRC,
                          dst := BZ_X_OUTPUT\<rparr>"
  have d: "dstrm (build_cftab s) = dstrm s" "dstrm (invert_fast t) = dstrm t"
    "dstrm (reverse_pointers t) = dstrm t" "dstrm (invert_small t) = dstrm t" for t
    using build_cftab_same [of s] invert_fast_same [of t] invert_small_same [of t] by (simp_all add: same_input_def)
  have "moved_by s (first_byte BZ_GET_SMALL ((reverse_pointers (invert_small ?s1))\<lparr>tPos := p\<rparr>))" for p
    by (rule moved_by_same [OF _ moved_first_byte]) (auto simp: d intro: get_same)
  moreover have "moved_by s (first_byte BZ_GET_FAST ((invert_fast ?s1)\<lparr>tPos := p\<rparr>))" for p
    by (rule moved_by_same [OF _ moved_first_byte]) (auto simp: d intro: get_same)
  ultimately show ?thesis
    unfolding block_end_def Let_def by (simp add: moved_same d)
qed

lemma moved_mtf_loop: "moved_by s (mtf_loop s)"
proof -
  have "moved_by s (run_digit (upd_sv (\<lambda>sv. sv\<lparr>save_es := -1, save_N := 1\<rparr>) s))"
    by (rule moved_run_digit) simp
  moreover have "moved_by s (next_symbol t)" if "dstrm t = dstrm s" for t
    by (rule moved_by_same [OF that moved_next_symbol])
  then have "moved_by s (literal s)" by (simp add: literal_def Let_def moved_refl)
  ultimately show ?thesis using moved_block_end by (simp add: mtf_loop_def Let_def)
qed

lemma dstrm_dalloc: "dalloc s = (ok, s') \<Longrightarrow> moved s s'"
  by (auto simp: dalloc_def bz_alloc_def moved_def split: list.splits)

lemma makeMaps_d_strm: "dstrm (makeMaps_d s) = dstrm s"
proof -
  have "dstrm (fold (\<lambda>i s. if inUse s i
                 then s\<lparr>seqToUnseq := (seqToUnseq s)(nInUse s := word_of_nat i), nInUse := nInUse s + 1\<rparr> else s)
       [0..<k] (s\<lparr>nInUse := 0\<rparr>)) = dstrm s" for k
    by (induction k) auto
  then show ?thesis by (simp add: makeMaps_d_def)
qed

lemma moved_header: "moved_by s (header_code l v s)"
proof -
  have "moved_by s (magic_4 u s)" for u
  proof -
    obtain ok s1 where a: "dalloc (s\<lparr>blockSize100k := u - 48\<rparr>) = (ok, s1)" by fastforce
    obtain ok' s2 where a': "dalloc s1 = (ok', s2)" by fastforce
    have m: "moved s s1" "moved s s2"
      using dstrm_dalloc [OF a] moved_trans [OF dstrm_dalloc [OF a] dstrm_dalloc [OF a']] by (simp_all add: moved_def)
    then show ?thesis by (simp add: magic_4_def Let_def a a') (simp add: moved_def)
  qed
  then show ?thesis
    by (simp add: header_code_def magic_byte_def blkhdr_1_def header_byte_def blkhdr_6_def bcrc_byte_def randbit_def
        origptr_byte_def origptr_3_def Let_def moved_same)
qed

lemma moved_table: "moved_by s (table_code l v s)"
proof -
  have outer: "moved_by s (mapping_outer i t)" if "dstrm t = dstrm s" for i t
    using that by (simp add: mapping_outer_def mapping_done_def Let_def makeMaps_d_strm moved_same)
  have check: "moved_by s (coding_check t)" if "dstrm t = dstrm s" for t
    using that by (simp add: coding_check_def moved_same)
  have init: "moved_by s (symbol_loop_init (build_groups t))" if "dstrm t = dstrm s" for t
    unfolding symbol_loop_init_def Let_def
    by (rule moved_by_same [OF _ moved_mtf_begin]) (use that in \<open>simp add: build_groups_def Let_def\<close>)
  have fin: "moved_by s (selectors_done t)" if "dstrm t = dstrm s" for t
    using that by (simp add: selectors_done_def Let_def moved_same)
  have "moved_by s (coding_2 u s)" for u
    unfolding coding_2_def Let_def using check init by (simp add: moved_same)
  moreover have "moved_by s (selector_3 u s)" for u
    unfolding selector_3_def Let_def using fin by (simp add: moved_same)
  ultimately show ?thesis
    unfolding table_code_def
    using outer check by (simp add: mapping_1_def mapping_2_def selector_1_def selector_2_def coding_1_def coding_3_def
        Let_def moved_same)
qed

lemma moved_symbol: "moved_by s (symbol_code l v s)"
proof -
  have t: "moved_by s (mtf_test l2 k u)" if "dstrm u = dstrm s" "\<And>s'. dstrm s' = dstrm s \<Longrightarrow> moved_by s (k s')" for l2 k u
    by (rule moved_by_same [OF that(1)], rule moved_test) (use that in \<open>auto intro: moved_by_same\<close>)
  have k: "moved_by s (run_more s')" if "dstrm s' = dstrm s" for s'
    by (rule moved_by_same [OF that moved_run_more])
  show ?thesis
    unfolding symbol_code_def mtf_first_def mtf_next_def using t k by (simp add: moved_same)
qed

lemma moved_label_code: "moved_by s (label_code l v s)"
  using moved_header moved_table moved_symbol
  by (simp add: label_code_def trailer_code_def header_byte_def endhdr_6_def ccrc_shift_def ccrc_4_def moved_same)

section \<open>The trailer\<close>

text \<open>The block parser never jumps into the trailer and never ends the stream.\<close>

fun not_trailer :: "outcome \<Rightarrow> bool" where
  "not_trailer (At MTF_LOOP s) \<longleftrightarrow> True"
| "not_trailer (At (Label l) s) \<longleftrightarrow> l < 42"
| "not_trailer (Return r s) \<longleftrightarrow> r \<noteq> BZ_STREAM_END"
| "not_trailer (Fatal e) \<longleftrightarrow> True"

lemma not_trailer_begin: "l < 42 \<Longrightarrow> not_trailer (mtf_begin l s)"
  by (simp add: mtf_begin_def Let_def)

lemma not_trailer_first_byte: "not_trailer (first_byte get s)"
  by (simp add: first_byte_def Let_def split: option.split prod.split)

lemma not_trailer_run: "not_trailer (run_digit s)" "not_trailer (run_more s)"
  by (simp_all add: run_digit_def run_more_def run_end_def Let_def not_trailer_begin)

lemma not_trailer_loop: "not_trailer (mtf_loop s)"
proof -
  have "not_trailer (next_symbol t)" for t
    by (simp add: next_symbol_def Let_def not_trailer_begin split: option.split prod.split)
  then have "not_trailer (literal s)" by (simp add: literal_def Let_def)
  moreover have "not_trailer (block_end s)" by (simp add: block_end_def Let_def not_trailer_first_byte)
  ultimately show ?thesis by (simp add: mtf_loop_def Let_def not_trailer_run)
qed

lemma not_trailer_symbol: "not_trailer (symbol_code l v s)"
proof -
  have t: "not_trailer (mtf_test l2 k u)" if "l2 < 42" "\<And>s'. not_trailer (k s')" for l2 k u
    using that by (simp add: mtf_test_def Let_def)
  show ?thesis
    unfolding symbol_code_def mtf_first_def mtf_next_def using t not_trailer_run by simp
qed

lemma not_trailer_table: "not_trailer (table_code l v s)"
proof -
  have outer: "not_trailer (mapping_outer i t)" for i t
    by (simp add: mapping_outer_def mapping_done_def Let_def)
  have check: "not_trailer (coding_check t)" for t by (simp add: coding_check_def)
  have "not_trailer (symbol_loop_init t)" for t
    unfolding symbol_loop_init_def Let_def by (rule not_trailer_begin) simp
  then have "not_trailer (coding_2 v s)" using check by (simp add: coding_2_def Let_def)
  moreover have "not_trailer (selector_3 v s)" by (simp add: selector_3_def selectors_done_def Let_def)
  moreover have "not_trailer (mapping_1 v s)" "not_trailer (mapping_2 v s)"
    using outer by (simp_all add: mapping_1_def mapping_2_def Let_def)
  moreover have "not_trailer (selector_1 v s)" "not_trailer (selector_2 v s)"
    by (simp_all add: selector_1_def selector_2_def Let_def)
  moreover have "not_trailer (coding_1 v s)" "not_trailer (coding_3 v s)"
    using check by (simp_all add: coding_1_def coding_3_def)
  ultimately show ?thesis unfolding table_code_def by presburger
qed

lemma not_trailer_header:
  assumes "l \<noteq> 14"
  shows "not_trailer (header_code l v s)"
proof -
  have "not_trailer (magic_4 u s)" for u
  proof -
    obtain ok s1 where a: "dalloc (s\<lparr>blockSize100k := u - 48\<rparr>) = (ok, s1)" by fastforce
    obtain ok' s2 where a': "dalloc s1 = (ok', s2)" by fastforce
    show ?thesis by (simp add: magic_4_def Let_def a a')
  qed
  then show ?thesis using assms
    by (simp add: header_code_def magic_byte_def header_byte_def blkhdr_6_def bcrc_byte_def randbit_def
        origptr_byte_def origptr_3_def Let_def)
qed

lemma not_trailer_label: "l \<noteq> 14 \<Longrightarrow> l < 42 \<Longrightarrow> not_trailer (label_code l v s)"
  using not_trailer_header not_trailer_table not_trailer_symbol by (simp add: label_code_def)

lemma only_ccrc_4:
  assumes "label_code l v s = Return BZ_STREAM_END s'" and "l \<le> 50"
  shows "l = 50 \<and> s' = (ccrc_shift v s)\<lparr>dst := BZ_X_IDLE\<rparr>"
proof -
  have "\<not> (l \<noteq> 14 \<and> l < 42)"
    using not_trailer_label [of l v s] assms(1) by auto
  then have "l = 14 \<or> l \<in> set [42..<51]" using assms(2) unfolding set_upt atLeastLessThan_iff by linarith
  then have "l = 14 \<or> l = 42 \<or> l = 43 \<or> l = 44 \<or> l = 45 \<or> l = 46 \<or> l = 47 \<or> l = 48 \<or> l = 49 \<or> l = 50"
    by (auto simp: upt_rec simp del: set_upt)
  then show ?thesis using assms(1)
    by (elim disjE)
      (auto simp: label_code_def header_code_def blkhdr_1_def trailer_code_def header_byte_def endhdr_6_def ccrc_4_def
        split: if_splits)
qed

lemma to_trailer:
  assumes "label_code l v s = At (Label l') s'" and "42 \<le> l'"
  shows "(l = 14 \<and> l' = 42 \<or> 42 \<le> l \<and> l' = l + 1) \<and> dstrm s' = dstrm s \<and> bsLive s' = bsLive s"
proof -
  have l: "l = 14 \<or> 42 \<le> l"
  proof (rule ccontr)
    assume n: "\<not> (l = 14 \<or> 42 \<le> l)"
    then have "not_trailer (label_code l v s)" using not_trailer_label by simp
    then show False using assms by simp
  qed
  then show ?thesis
  proof
    assume "l = 14"
    then show ?thesis using assms by (auto simp: label_code_def header_code_def blkhdr_1_def split: if_splits)
  next
    assume "42 \<le> l"
    then show ?thesis using assms
      by (auto simp: label_code_def trailer_code_def header_byte_def endhdr_6_def ccrc_shift_def ccrc_4_def split: if_splits)
  qed
qed

text \<open>
  \<open>p\<close> is \<open>next_in\<close> when the call began. The trailer has ten bytes and the buffer at most eight, so
  the bits still buffered in the trailer came in with this call.
\<close>

definition trail_ok :: "int \<Rightarrow> pc \<Rightarrow> dstate \<Rightarrow> bool" where
  "trail_ok p pc s \<longleftrightarrow> p \<le> next_in (dstrm s) \<and>
     (\<forall>l. pc = Label l \<and> 42 \<le> l \<longrightarrow>
        int (bsLive s) \<le> max 7 (64 - 8 * (int l - 41)) + 8 * (next_in (dstrm s) - p))"

definition end_ok :: "int \<Rightarrow> int \<Rightarrow> dstate \<Rightarrow> bool" where
  "end_ok p r s \<longleftrightarrow> p \<le> next_in (dstrm s) \<and>
     (r = BZ_STREAM_END \<longrightarrow> int (bsLive s) < 8 * (next_in (dstrm s) - p))"

lemma label_read:
  assumes I: "pc_inv (Label l) s" and "GET_BITS (label_bits l (s\<lparr>dst := l\<rparr>)) (s\<lparr>dst := l\<rparr>) = (Some v, s1)"
  shows "int (bsLive s1) = int (bsLive s) + 8 * (next_in (dstrm s1) - next_in (dstrm s)) - int (label_bits l s)"
    "moved s s1"
proof -
  have b: "label_bits l s \<le> 24" using label_bits_pos I by fastforce
  have lb: "label_bits l (s\<lparr>dst := l\<rparr>) = label_bits l s" by (simp add: label_bits_def)
  have r: "read_ok (s\<lparr>dst := l\<rparr>)" using I by simp
  note G = GET_BITS_spec [OF assms(2) [unfolded lb] b r]
  have "moved (s\<lparr>dst := l\<rparr>) s1" by (rule moved_GET_BITS [OF assms(2)])
  then show m: "moved s s1" by (simp add: moved_def)
  have le: "label_bits l s \<le> length (pending (s\<lparr>dst := l\<rparr>))" using G by (auto split: if_splits)
  then have "length (pending s1) = length (pending (s\<lparr>dst := l\<rparr>)) - label_bits l s" using G by simp
  then show "int (bsLive s1) = int (bsLive s) + 8 * (next_in (dstrm s1) - next_in (dstrm s)) - int (label_bits l s)"
    using le m unfolding length_pending moved_def by auto
qed

lemma trail_step:
  assumes I: "pc_inv (Label l) s" and T: "trail_ok p (Label l) s"
  shows "decompress_step (Label l) s = At pc' s' \<Longrightarrow> trail_ok p pc' s'"
    "decompress_step (Label l) s = Return r s' \<Longrightarrow> end_ok p r s'"
proof -
  have l: "\<not> (l < 10 \<or> 50 < l)" using I by (simp add: label_inv_def)
  obtain o1 s1 where g: "GET_BITS (label_bits l (s\<lparr>dst := l\<rparr>)) (s\<lparr>dst := l\<rparr>) = (o1, s1)" by fastforce
  have "moved (s\<lparr>dst := l\<rparr>) s1" by (rule moved_GET_BITS [OF g])
  then have m: "moved s s1" by (simp add: moved_def)
  have p: "p \<le> next_in (dstrm s1)" using m T by (simp add: moved_def trail_ok_def)
  have bound: "int (bsLive s1) \<le> max 7 (64 - 8 * (int l - 41)) + 8 * (next_in (dstrm s1) - p) - 8"
    if "42 \<le> l" "o1 = Some v" for v
  proof -
    have "label_bits l s = 8" using that(1) by (simp add: label_bits_def)
    then show ?thesis using label_read(1) [OF I g [unfolded that(2)]] T that(1) by (simp add: trail_ok_def)
  qed
  show "trail_ok p pc' s'" if e: "decompress_step (Label l) s = At pc' s'"
  proof -
    obtain v where v: "o1 = Some v" and c: "label_code l v s1 = At pc' s'"
      using e l g by (auto split: option.splits)
    have "moved s1 s'" using moved_label_code [of s1 l v] c by simp
    then have p': "p \<le> next_in (dstrm s')" using p by (simp add: moved_def)
    have "int (bsLive s') \<le> max 7 (64 - 8 * (int l' - 41)) + 8 * (next_in (dstrm s') - p)"
      if L: "pc' = Label l'" "42 \<le> l'" for l'
    proof -
      note tt = to_trailer [OF c [unfolded L(1)] L(2)]
      show ?thesis
      proof (cases "l = 14")
        case True
        have "int (bsLive s1) = int (bsLive s) + 8 * (next_in (dstrm s1) - next_in (dstrm s)) - 8"
          using label_read(1) [OF I g [unfolded v]] True by (simp add: label_bits_def)
        moreover have "bsLive s \<le> 64" using I by (simp add: read_ok_def)
        moreover have "p \<le> next_in (dstrm s)" using T by (simp add: trail_ok_def)
        moreover have "l' = 42" using tt True by simp
        ultimately show ?thesis using tt by simp
      next
        case False
        then have "42 \<le> l" "l' = l + 1" using tt by auto
        then show ?thesis using bound [OF _ v] tt by simp
      qed
    qed
    then show ?thesis using p' by (simp add: trail_ok_def)
  qed
  show "end_ok p r s'" if e: "decompress_step (Label l) s = Return r s'"
  proof (cases o1)
    case None
    then show ?thesis using e l g p by (simp add: end_ok_def)
  next
    case (Some v)
    then have c: "label_code l v s1 = Return r s'" using e l g by simp
    have "moved s1 s'" using moved_label_code [of s1 l v] c by simp
    then have p': "p \<le> next_in (dstrm s')" using p by (simp add: moved_def)
    have "int (bsLive s') < 8 * (next_in (dstrm s') - p)" if r: "r = BZ_STREAM_END"
    proof -
      have "l = 50 \<and> s' = (ccrc_shift v s1)\<lparr>dst := BZ_X_IDLE\<rparr>"
        by (rule only_ccrc_4) (use c r l in auto)
      then show ?thesis using bound [OF _ Some] by (simp add: ccrc_shift_def)
    qed
    then show ?thesis using p' by (simp add: end_ok_def)
  qed
qed

section \<open>Whole calls\<close>

lemma step_inv:
  assumes "pc_inv pc s" and "decompress_step pc s = At pc' s'"
  shows "pc_inv pc' s'"
proof (cases pc)
  case MTF_LOOP
  then have "outcome_ok (bits_ahead s) True (mtf_loop s)" using mtf_loop_ok assms(1) by simp
  then show ?thesis using assms(2) MTF_LOOP by simp
next
  case (Label l)
  note e = assms(2) [unfolded Label]
  from label_step [OF assms(1) [unfolded Label]] show ?thesis
  proof (elim disjE exE conjE)
    fix s1 assume "decompress_step (Label l) s = Return BZ_OK s1"
    then show ?thesis unfolding e by (rule outcome.distinct(1) [THEN notE])
  next
    fix v s1 assume c: "decompress_step (Label l) s = label_code l v s1"
      and O: "outcome_ok (bits_ahead s1) False (label_code l v s1)"
    from c have "label_code l v s1 = At pc' s'" unfolding e by (rule sym)
    then show ?thesis using O by simp
  qed
qed

lemma run_end_of_call:
  assumes "decompress_run pc s = Some y" "pc_inv pc s" "trail_ok p pc s" "y = Return r s'"
  shows "end_ok p r s'"
proof -
  have "pc_inv pc s \<longrightarrow> trail_ok p pc s \<longrightarrow> (\<forall>r s'. y = Return r s' \<longrightarrow> end_ok p r s')"
  proof (rule decompress_run.raw_induct [OF _ assms(1)], intro impI allI)
    fix f pc s y r s'
    assume IH: "\<And>pc s y. f pc s = Some y \<Longrightarrow> pc_inv pc s \<longrightarrow> trail_ok p pc s \<longrightarrow> (\<forall>r s'. y = Return r s' \<longrightarrow> end_ok p r s')"
      and f: "(case decompress_step pc s of At pc' s' \<Rightarrow> f pc' s' | r \<Rightarrow> Some r) = Some y"
      and I: "pc_inv pc s" and T: "trail_ok p pc s" and y: "y = Return r s'"
    have next': "trail_ok p pc' s''" if "decompress_step pc s = At pc' s''" for pc' s''
    proof (cases pc)
      case MTF_LOOP
      then have "not_trailer (At pc' s'')" "moved s s''"
        using that not_trailer_loop [of s] moved_mtf_loop [of s] by simp_all
      then show ?thesis using T by (cases pc') (auto simp: trail_ok_def moved_def)
    next
      case (Label l)
      then show ?thesis using trail_step(1) I T that by blast
    qed
    have last: "end_ok p r s'" if "decompress_step pc s = Return r s'"
    proof (cases pc)
      case MTF_LOOP
      then have "r \<noteq> BZ_STREAM_END" "moved s s'"
        using that not_trailer_loop [of s] moved_mtf_loop [of s] by simp_all
      then show ?thesis using T by (auto simp: end_ok_def trail_ok_def moved_def)
    next
      case (Label l)
      then show ?thesis using trail_step(2) I T that by blast
    qed
    show "end_ok p r s'"
    proof (cases "decompress_step pc s")
      case (At pc' s'')
      then show ?thesis using IH [of pc' s'' y] f step_inv [OF I At] next' [OF At] y by simp
    next
      case (Return r0 s0)
      then show ?thesis using f y last by simp
    qed (use f y in auto)
  qed
  then show ?thesis using assms by blast
qed

lemma moved_step: "moved_by s (decompress_step pc s)"
proof (cases pc)
  case (Label l)
  obtain r s1 where g: "GET_BITS (label_bits l (s\<lparr>dst := l\<rparr>)) (s\<lparr>dst := l\<rparr>) = (r, s1)" by fastforce
  have m: "moved s s1" using moved_GET_BITS [OF g] by (simp add: moved_def)
  then have "moved_by s o1" if "moved_by s1 o1" for o1 using that moved_trans by (cases o1) auto
  then show ?thesis using Label g m moved_label_code by (cases r) auto
qed (simp add: moved_mtf_loop)

lemma moved_run: "decompress_run pc s = Some (Return r s') \<Longrightarrow> moved s s'"
proof -
  have "\<forall>r s'. y = Return r s' \<longrightarrow> moved s s'" if "decompress_run pc s = Some y" for y
  proof (rule decompress_run.raw_induct [OF _ that], intro allI impI)
    fix f pc s y r s'
    assume IH: "\<And>pc s y. f pc s = Some y \<Longrightarrow> \<forall>r s'. y = Return r s' \<longrightarrow> moved s s'"
      and f: "(case decompress_step pc s of At pc' s' \<Rightarrow> f pc' s' | r \<Rightarrow> Some r) = Some y" and y: "y = Return r s'"
    show "moved s s'"
      using moved_step [of s pc] f y IH moved_trans by (cases "decompress_step pc s") fastforce+
  qed
  then show "decompress_run pc s = Some (Return r s') \<Longrightarrow> moved s s'" by blast
qed

lemma decompress_output_side:
  assumes "BZ2_decompress s = Some (Return r s')"
  shows "out_buf (dstrm s') = out_buf (dstrm s) \<and> avail_out (dstrm s') = avail_out (dstrm s)"
proof -
  define t where "t = (if dst s = BZ_X_MAGIC_1 then s\<lparr>dsv := dsave_zero\<rparr> else s)"
  have "dstrm t = dstrm s" by (simp add: t_def)
  moreover obtain u where u: "decompress_run (Label (dst t)) t = Some (Return r u)" "dstrm s' = dstrm u \<or> s' = return_excess u"
    using assms by (auto simp: BZ2_decompress_def Let_def simp flip: t_def split: option.splits outcome.splits if_splits)
  ultimately show ?thesis using moved_run [OF u(1)] by (auto simp: moved_def return_excess_def Let_def)
qed

text \<open>What a caller of \<open>BZ2_decompress\<close> has to provide, and is given back when the input ran out.\<close>

definition dcall_ok :: "dstate \<Rightarrow> bool" where
  "dcall_ok s \<longleftrightarrow> pc_inv (Label (dst s)) s \<and> (42 \<le> dst s \<longrightarrow> bsLive s < 8)"

lemma return_excess_ok:
  assumes "read_ok s" and "int (bsLive s) < 8 * (next_in (dstrm s) - p)" "0 \<le> p"
  shows "read_ok (return_excess s)" "p \<le> next_in (dstrm (return_excess s))" "bsLive (return_excess s) = 0"
    "dst (return_excess s) = dst s"
proof -
  have e: "int (bsLive s div 8) \<le> next_in (dstrm s) - p" using assms(2) by (simp add: zdiv_int)
  then show "p \<le> next_in (dstrm (return_excess s))" by (simp add: return_excess_def Let_def)
  show "read_ok (return_excess s)"
    using assms(1,3) e by (auto simp: return_excess_def Let_def read_ok_def in_ok_def nat_diff_distrib)
qed (simp_all add: return_excess_def Let_def)

lemma BZ2_decompress_ok:
  assumes C: "dcall_ok s"
  obtains r s' where "BZ2_decompress s = Some (Return r s')" "read_ok s'"
    "next_in (dstrm s) \<le> next_in (dstrm s')"
    "r = BZ_OK \<Longrightarrow> out_inv s' \<or> dcall_ok s' \<and> avail_in (dstrm s') = 0"
    "r = BZ_STREAM_END \<Longrightarrow> dst s' = BZ_X_IDLE \<and> bsLive s' = 0"
proof -
  define t where "t = (if dst s = BZ_X_MAGIC_1 then s\<lparr>dsv := dsave_zero\<rparr> else s)"
  have t: "dst t = dst s" "dstrm t = dstrm s" "bsLive t = bsLive s" by (simp_all add: t_def)
  have I: "pc_inv (Label (dst t)) t"
    using C by (auto simp: t_def dcall_ok_def label_inv_def)
  let ?p = "next_in (dstrm s)"
  have p0: "0 \<le> ?p" using C by (simp add: dcall_ok_def read_ok_def in_ok_def)
  have T: "trail_ok ?p (Label (dst t)) t"
    using C t by (auto simp: trail_ok_def dcall_ok_def)
  obtain r s1 where R: "decompress_run (Label (dst t)) t = Some (Return r s1)" "run_result (bits_ahead t) r s1"
    using decompress_run_total [OF I] by blast
  have E: "end_ok ?p r s1" by (rule run_end_of_call [OF R(1) I T refl])
  have B: "BZ2_decompress s = Some (Return r (if r = BZ_STREAM_END then return_excess s1 else s1))"
    using R(1) by (simp add: BZ2_decompress_def Let_def flip: t_def)
  show thesis
  proof (cases "r = BZ_STREAM_END")
    case True
    have "int (bsLive s1) < 8 * (next_in (dstrm s1) - ?p)" using E True by (simp add: end_ok_def)
    note X = return_excess_ok [OF _ this p0]
    show thesis
      by (rule that [OF B]) (use True R(2) X in \<open>auto simp: run_result_def\<close>)
  next
    case False
    show thesis
      by (rule that [OF B]) (use False R(2) E in \<open>auto simp: run_result_def end_ok_def dcall_ok_def\<close>)
  qed
qed

end
