(* ===== verification/InverseBwt.thy ===== *)
theory InverseBwt
  imports DecRun
begin

text \<open>
  The inverse Burrows-Wheeler transform of \<^verbatim>\<open>src/decompress.c\<close>, in both its forms. For the
  last column \<open>L\<close> of \<open>n\<close> bytes, \<open>cpos L n i\<close> is the row that starts with byte \<open>i\<close>: the bytes sorted, ties
  by position. The fast form writes the inverse of that permutation into the upper bits of \<open>tt\<close> by
  counting; the small form writes the permutation into 20-bit cells and inverts the one cycle it
  needs by reversing pointers. Both then walk the same cycle.
\<close>

section \<open>20-bit cells\<close>

lemma nibble_masks: "(0xF :: u32) = mask 4" "(0xf0 :: u8) = push_bit 4 (mask 4)" "(0x0f :: u8) = mask 4"
  by (simp_all add: mask_eq_exp_minus_1)

lemma and_1_even: "i AND 1 = 0 \<longleftrightarrow> even i" for i :: nat
  by (simp add: and_one_eq even_iff_mod_2_eq_zero)

lemma nibble_shift: "push_bit 2 i AND 4 = (if even i then 0 else 4)" for i :: nat
proof -
  have "push_bit 2 i AND push_bit 2 1 = push_bit 2 (i AND 1)" by (simp only: push_bit_and)
  moreover have "i AND 1 = (if even i then 0 else 1)" by (simp add: and_one_eq mod_2_eq_odd)
  ultimately show ?thesis by (auto split: if_splits)
qed

lemma GET_LL4_alt:
  "GET_LL4 i v = take_bit 4 (drop_bit (if even i then 0 else 4) (ucast (v (i div 2))))"
  by (simp add: GET_LL4_def nibble_shift nibble_masks drop_bit_Suc flip: take_bit_eq_mask)

lemma SET_LL4_alt:
  "SET_LL4 i n v = v(i div 2 := (if even i then (v (i div 2) AND push_bit 4 (mask 4)) OR ucast n
     else take_bit 4 (v (i div 2)) OR ucast (push_bit 4 n)))"
  unfolding SET_LL4_def and_1_even by (simp add: nibble_masks drop_bit_Suc flip: take_bit_eq_mask)

lemma bit_take_less: "take_bit m n = n \<Longrightarrow> bit n k \<Longrightarrow> k < m" for n :: "'a::len word"
  by (metis bit_take_bit_iff)

lemma GET_SET_LL4_same: "take_bit 4 n = n \<Longrightarrow> GET_LL4 i (SET_LL4 i n v) = n"
  unfolding GET_LL4_alt SET_LL4_alt
  by (rule bit_word_eqI) (auto simp: bit_simps dest: bit_take_less)

lemma half_eq: "i div 2 = j div 2 \<Longrightarrow> even i = even j \<Longrightarrow> i = j" for i j :: nat
  by presburger

lemma GET_SET_LL4_other:
  assumes "i \<noteq> j" "take_bit 4 n = n"
  shows "GET_LL4 j (SET_LL4 i n v) = GET_LL4 j v"
proof (cases "i div 2 = j div 2")
  case False
  then show ?thesis by (auto simp: GET_LL4_alt SET_LL4_alt)
next
  case True
  then have "even i \<noteq> even j" using half_eq assms(1) by blast
  then show ?thesis using True unfolding GET_LL4_alt SET_LL4_alt
    by (intro bit_word_eqI) (auto simp: bit_simps dest: bit_take_less [OF assms(2)])
qed

lemma GET_SET_LL:
  assumes "take_bit 20 n = n"
  shows "GET_LL j (SET_LL i n l) = (if j = i then n else GET_LL j l)"
proof -
  have h: "take_bit 4 (drop_bit 16 n) = drop_bit 16 n"
    by (rule bit_word_eqI) (auto simp: bit_simps dest: bit_take_less [OF assms])
  have m: "(0x0000ffff :: u32) = mask 16" by (simp add: mask_eq_exp_minus_1)
  have "ucast (ucast (n AND mask 16) :: u16) OR push_bit 16 (drop_bit 16 n) = n"
  proof (rule bit_word_eqI)
    fix k
    show "bit (ucast (ucast (n AND mask 16) :: u16) OR push_bit 16 (drop_bit 16 n)) k = bit n k"
      using bit_take_less [OF assms, of k] by (cases "k < 16") (auto simp: bit_simps not_less)
  qed
  then show ?thesis
    using GET_SET_LL4_same [OF h] GET_SET_LL4_other [OF _ h, of i j]
    by (auto simp: GET_LL_def SET_LL_def m)
qed

section \<open>The permutation\<close>

text \<open>The row that byte \<open>i\<close> of the last column starts, and its inverse.\<close>

definition lf_inv :: "(nat \<Rightarrow> nat) \<Rightarrow> nat \<Rightarrow> nat \<Rightarrow> nat" where
  "lf_inv L n = inv_into {..<n} (cpos L n)"

lemma cpos_image: "cpos L n ` {..<n} = {..<n}"
proof (rule set_eqI)
  show "p \<in> cpos L n ` {..<n} \<longleftrightarrow> p \<in> {..<n}" for p
    using cpos_surj [of p n L] cpos_less [of _ n L] by auto
qed

lemma lf_inv_cpos: "i < n \<Longrightarrow> lf_inv L n (cpos L n i) = i"
  unfolding lf_inv_def by (rule inv_into_f_f [OF cpos_inj]) simp

lemma lf_inv_less: "j < n \<Longrightarrow> lf_inv L n j < n"
  unfolding lf_inv_def using inv_into_into [of j "cpos L n" "{..<n}"] by (simp add: cpos_image)

lemma cpos_lf_inv: "j < n \<Longrightarrow> cpos L n (lf_inv L n j) = j"
  unfolding lf_inv_def by (rule f_inv_into_f) (simp add: cpos_image)

section \<open>The fast form\<close>

definition invert_fast_step :: "nat \<Rightarrow> dstate \<Rightarrow> dstate" where
  "invert_fast_step i s =
     (let uc = unat (tt s i AND 0xff); p = nat (cftab s uc)
      in s\<lparr>tt := (tt s)(p := tt s p OR push_bit 8 (word_of_nat i)), cftab := (cftab s)(uc := cftab s uc + 1)\<rparr>)"

lemma invert_fast_steps: "invert_fast s = fold invert_fast_step [0..<save_nblock (dsv s)] s"
  by (simp add: invert_fast_def invert_fast_step_def [abs_def])

text \<open>What \<open>tt\<close> holds when the first \<open>k\<close> bytes are placed.\<close>

definition tt_placed :: "(nat \<Rightarrow> nat) \<Rightarrow> nat \<Rightarrow> nat \<Rightarrow> nat \<Rightarrow> u32" where
  "tt_placed L n k j = word_of_nat (L j) OR (if lf_inv L n j < k then push_bit 8 (word_of_nat (lf_inv L n j)) else 0)"

lemma nat_bit_less: "x < 2 ^ m \<Longrightarrow> bit x i \<Longrightarrow> i < m" for x :: nat
  by (metis bit_take_bit_iff take_bit_nat_eq_self)

lemma byte_and:
  assumes "v < 256"
  shows "unat ((word_of_nat v OR push_bit 8 w) AND 0xff :: u32) = v"
proof -
  have m: "(0xff :: u32) = mask 8" by (simp add: mask_eq_exp_minus_1)
  have "(word_of_nat v OR push_bit 8 w) AND 0xff = (word_of_nat v :: u32)"
    unfolding m by (rule bit_word_eqI) (use nat_bit_less [of v 8] assms in \<open>auto simp: bit_simps\<close>)
  then show ?thesis using assms by (simp add: unsigned_of_nat take_bit_nat_eq_self)
qed

lemma tt_placed_byte: "L j < 256 \<Longrightarrow> unat (tt_placed L n k j AND 0xff) = L j"
  using byte_and [of "L j" "word_of_nat (lf_inv L n j)"] byte_and [of "L j" 0]
  by (auto simp: tt_placed_def)

lemma tt_placed_next:
  assumes "L j < 256" "lf_inv L n j < k" "k \<le> 2 ^ 24"
  shows "unat (drop_bit 8 (tt_placed L n k j)) = lf_inv L n j"
proof -
  have l: "bit (L j) i \<Longrightarrow> i < 8" "bit (lf_inv L n j) i \<Longrightarrow> i < 24" for i
    using nat_bit_less [of "L j" 8] nat_bit_less [of "lf_inv L n j" 24] assms by auto
  have "drop_bit 8 (tt_placed L n k j) = word_of_nat (lf_inv L n j)"
  proof (rule bit_word_eqI)
    fix i
    show "bit (drop_bit 8 (tt_placed L n k j)) i = bit (word_of_nat (lf_inv L n j) :: u32) i"
      using assms(2) l(1) [of "8 + i"] l(2) [of i] by (auto simp: tt_placed_def bit_simps)
  qed
  then show ?thesis using assms by (simp add: unsigned_of_nat take_bit_nat_eq_self)
qed

lemma invert_fast_fold:
  assumes "\<And>j. j < n \<Longrightarrow> L j < 256" "\<And>j. j < n \<Longrightarrow> tt s j = word_of_nat (L j)"
    "\<And>u. u < 256 \<Longrightarrow> cftab s u = int (below L n u)" and "k \<le> n"
  shows "(\<forall>j < n. tt (fold invert_fast_step [0..<k] s) j = tt_placed L n k j) \<and>
    (\<forall>u < 256. cftab (fold invert_fast_step [0..<k] s) u = int (below L n u + cnt L k u)) \<and>
    fold invert_fast_step [0..<k] s = s\<lparr>tt := tt (fold invert_fast_step [0..<k] s),
      cftab := cftab (fold invert_fast_step [0..<k] s)\<rparr>"
  using assms(4)
proof (induction k)
  case 0
  then show ?case using assms by (simp add: tt_placed_def)
next
  case (Suc k)
  let ?t = "fold invert_fast_step [0..<k] s"
  have T: "\<forall>j < n. tt ?t j = tt_placed L n k j" "\<forall>u < 256. cftab ?t u = int (below L n u + cnt L k u)"
    and F: "?t = s\<lparr>tt := tt ?t, cftab := cftab ?t\<rparr>" using Suc by auto
  have k: "k < n" using Suc.prems by simp
  have uc: "unat (tt ?t k AND 0xff) = L k" using T(1) k assms(1) tt_placed_byte by simp
  have p: "nat (cftab ?t (L k)) = cpos L n k" using T(2) assms(1) [OF k] by (simp add: cpos_def)
  have e: "fold invert_fast_step [0..<Suc k] s = ?t\<lparr>tt := (tt ?t)(cpos L n k := tt ?t (cpos L n k) OR push_bit 8 (word_of_nat k)),
      cftab := (cftab ?t)(L k := cftab ?t (L k) + 1)\<rparr>"
    by (simp add: invert_fast_step_def [of k] Let_def uc p)
  have "tt_placed L n (Suc k) j = (if j = cpos L n k then tt ?t j OR push_bit 8 (word_of_nat k) else tt ?t j)"
    if "j < n" for j
    using that k T(1) lf_inv_cpos [OF k, of L] cpos_lf_inv [OF that, of L] by (auto simp: tt_placed_def less_Suc_eq)
  moreover have "\<forall>u < 256. ((cftab ?t)(L k := cftab ?t (L k) + 1)) u = int (below L n u + cnt L (Suc k) u)"
    using T(2) assms(1) [OF k] by auto
  moreover have "?t\<lparr>tt := f, cftab := g\<rparr> = s\<lparr>tt := f, cftab := g\<rparr>" for f g
    by (subst F) simp
  ultimately show ?case unfolding e using cpos_less [OF k] by (intro conjI) (auto simp: fun_upd_def)
qed

section \<open>The small form\<close>

lemma word20: "v < 2 ^ 20 \<Longrightarrow> take_bit 20 (word_of_nat v :: u32) = word_of_nat v"
  by (simp add: take_bit_of_nat take_bit_nat_eq_self)

lemma fst_SET_LL: "i \<noteq> j \<Longrightarrow> fst (SET_LL i v l) j = fst l j"
  by (simp add: SET_LL_def)

lemma invert_small_fold:
  assumes "\<And>j. j < n \<Longrightarrow> L j < 256" "\<And>j. j < n \<Longrightarrow> fst l j = word_of_nat (L j)"
    "\<And>u. u < 256 \<Longrightarrow> copy u = int (below L n u)" and "k \<le> n" and n: "n \<le> 2 ^ 20"
    and "fold invert_small_step [0..<k] (l, copy) = (l', copy')"
  shows "(\<forall>j < k. unat (GET_LL j l') = cpos L n j) \<and> (\<forall>j. k \<le> j \<longrightarrow> fst l' j = fst l j) \<and>
    (\<forall>u < 256. copy' u = int (below L n u + cnt L k u))"
  using assms(4,6)
proof (induction k arbitrary: l' copy')
  case 0
  then show ?case using assms by simp
next
  case (Suc k)
  obtain m c where f: "fold invert_small_step [0..<k] (l, copy) = (m, c)" by fastforce
  have I: "\<forall>j < k. unat (GET_LL j m) = cpos L n j" "\<forall>j. k \<le> j \<longrightarrow> fst m j = fst l j"
      "\<forall>u < 256. c u = int (below L n u + cnt L k u)"
    using Suc.IH [OF _ f] Suc.prems by auto
  have k: "k < n" using Suc.prems by simp
  have uc: "unat (ucast (fst m k) :: u8) = L k"
    using I(2) assms(1,2) [OF k] by (simp add: unsigned_of_nat take_bit_nat_eq_self ucast_eq)
  have v: "c (L k) = int (cpos L n k)" using I(3) assms(1) [OF k] by (simp add: cpos_def)
  have r: "l' = SET_LL k (word_of_nat (cpos L n k)) m" "copy' = c(L k := int (cpos L n k) + 1)"
    using Suc.prems(2) f uc v by (simp_all add: invert_small_step_def [of k])
  have w: "cpos L n k < 2 ^ 20" using cpos_less [OF k, of L] n by simp
  have "unat (GET_LL j l') = cpos L n j" if "j < Suc k" for j
    using that I(1) GET_SET_LL [OF word20 [OF w], of j k m] w
    by (auto simp: r less_Suc_eq unsigned_of_nat take_bit_nat_eq_self)
  moreover have "\<forall>j. Suc k \<le> j \<longrightarrow> fst l' j = fst l j" using I(2) by (auto simp: r fst_SET_LL)
  moreover have "\<forall>u < 256. copy' u = int (below L n u + cnt L (Suc k) u)"
    using I(3) assms(1) [OF k] by (auto simp: r cpos_def)
  ultimately show ?case by blast
qed

subsection \<open>Pointer reversal\<close>

text \<open>The cycle of \<open>o\<close> under an injection of \<open>{..<n}\<close> comes back to \<open>o\<close>.\<close>

lemma cycle_returns:
  fixes n o0 :: nat
  assumes inj: "inj_on P {..<n}" and P: "\<And>i. i < n \<Longrightarrow> P i < n" and o: "o0 < n"
  shows "\<exists>c > 0. (P ^^ c) o0 = o0 \<and> (\<forall>k. 0 < k \<and> k < c \<longrightarrow> (P ^^ k) o0 \<noteq> o0)"
proof -
  have less: "(P ^^ k) o0 < n" for k by (induction k) (use o P in auto)
  have "\<not> inj_on (\<lambda>k. (P ^^ k) o0) {..n}"
  proof
    assume "inj_on (\<lambda>k. (P ^^ k) o0) {..n}"
    then have "card {..n} \<le> card {..<n}" by (rule card_inj_on_le) (use less in auto)
    then show False by simp
  qed
  then obtain i j where ij: "i < j" "(P ^^ i) o0 = (P ^^ j) o0"
    unfolding inj_on_def by (metis linorder_neqE_nat)
  have shorter: "(P ^^ i) o0 = (P ^^ (i + d)) o0 \<Longrightarrow> o0 = (P ^^ d) o0" for i d
  proof (induction i)
    case (Suc i)
    then have "P ((P ^^ i) o0) = P ((P ^^ (i + d)) o0)" by simp
    then show ?case using Suc.IH inj_onD [OF inj] less by blast
  qed simp
  have "(P ^^ (j - i)) o0 = o0" using shorter [of i "j - i"] ij by simp
  then have ex: "\<exists>c. 0 < c \<and> (P ^^ c) o0 = o0" using ij by (intro exI [of _ "j - i"]) simp
  then show ?thesis using exists_least_iff [of "\<lambda>c. 0 < c \<and> (P ^^ c) o0 = o0"] by blast
qed

lemma while_option_iterated:
  "(\<And>k. k < m \<Longrightarrow> b ((f ^^ k) x)) \<Longrightarrow> \<not> b ((f ^^ m) x) \<Longrightarrow> while_option b f x = Some ((f ^^ m) x)"
proof (induction m arbitrary: x)
  case 0
  then show ?case by (simp add: while_option_unfold)
next
  case (Suc m)
  have "while_option b f (f x) = Some ((f ^^ m) (f x))"
    using Suc.prems(1) [of "Suc _"] Suc.prems(2) by (intro Suc.IH) (auto simp: funpow_swap1)
  then show ?case using Suc.prems(1) [of 0] by (simp add: while_option_unfold [of b f x] funpow_swap1)
qed

definition reversed :: "(nat \<Rightarrow> nat) \<Rightarrow> nat \<Rightarrow> nat \<Rightarrow> ll \<Rightarrow> nat \<times> nat \<times> ll \<Rightarrow> bool" where
  "reversed P o0 k l0 x \<longleftrightarrow> (case x of (i, j, l) \<Rightarrow> i = (P ^^ k) o0 \<and> j = (P ^^ (k + 1)) o0 \<and>
     (\<forall>m. 0 < m \<and> m \<le> k \<longrightarrow> unat (GET_LL ((P ^^ m) o0) l) = (P ^^ (m - 1)) o0) \<and>
     (\<forall>j. (\<forall>m. 0 < m \<and> m \<le> k \<longrightarrow> j \<noteq> (P ^^ m) o0) \<longrightarrow> GET_LL j l = GET_LL j l0))"

lemma reverse_step_ok:
  assumes P: "\<And>i. i < n \<Longrightarrow> P i < n" "o0 < n" "\<And>i. i < n \<Longrightarrow> unat (GET_LL i l0) = P i" and n: "n \<le> 2 ^ 20"
    and d: "\<And>m. 0 < m \<Longrightarrow> m \<le> k \<Longrightarrow> (P ^^ (k + 1)) o0 \<noteq> (P ^^ m) o0"
    and R: "reversed P o0 k l0 x"
  shows "reversed P o0 (k + 1) l0 (reverse_step x)"
proof -
  have less: "(P ^^ m) o0 < n" for m by (induction m) (use P in auto)
  obtain l where x: "x = ((P ^^ k) o0, (P ^^ (k + 1)) o0, l)"
    and a: "\<And>m. 0 < m \<Longrightarrow> m \<le> k \<Longrightarrow> unat (GET_LL ((P ^^ m) o0) l) = (P ^^ (m - 1)) o0"
    and b: "\<And>j. (\<forall>m. 0 < m \<and> m \<le> k \<longrightarrow> j \<noteq> (P ^^ m) o0) \<Longrightarrow> GET_LL j l = GET_LL j l0"
    using R by (auto simp: reversed_def)
  let ?j = "(P ^^ (k + 1)) o0"
  have w: "(P ^^ k) o0 < 2 ^ 20" using less [of k] n by simp
  note G = GET_SET_LL [OF word20 [OF w]]
  have u: "unat (word_of_nat ((P ^^ k) o0) :: u32) = (P ^^ k) o0"
    using w by (simp add: unsigned_of_nat take_bit_nat_eq_self)
  have "unat (GET_LL ?j l) = P ?j" using b [of ?j] d P(3) [OF less [of "k + 1"]] by auto
  moreover have "unat (GET_LL ((P ^^ m) o0) (SET_LL ?j (word_of_nat ((P ^^ k) o0)) l)) = (P ^^ (m - 1)) o0"
    if "0 < m" "m \<le> k + 1" for m
    using that a [of m] d [of m] u G by (cases "m = k + 1") auto
  ultimately show ?thesis
    using b G by (auto simp: x reverse_step_def reversed_def)
qed

lemma reverse_pointers_ok:
  assumes P: "\<And>i. i < n \<Longrightarrow> P i < n" "inj_on P {..<n}" "\<And>i. i < n \<Longrightarrow> unat (GET_LL i (ll16 s, ll4 s)) = P i"
    and n: "n \<le> 2 ^ 20" and o: "nat (origPtr s) < n"
  obtains l16 l4 j where "reverse_pointers s = upd_sv (\<lambda>sv. sv\<lparr>save_i := nat (origPtr s), save_j := j\<rparr>) (s\<lparr>ll16 := l16, ll4 := l4\<rparr>)"
    "\<And>k. unat (GET_LL ((P ^^ (k + 1)) (nat (origPtr s))) (l16, l4)) = (P ^^ k) (nat (origPtr s))"
proof -
  let ?o = "nat (origPtr s)" and ?l = "(ll16 s, ll4 s)"
  obtain c where c: "0 < c" "(P ^^ c) ?o = ?o" "\<And>k. 0 < k \<Longrightarrow> k < c \<Longrightarrow> (P ^^ k) ?o \<noteq> ?o"
    using cycle_returns [OF P(2,1) o] by blast
  have less: "(P ^^ m) ?o < n" for m by (induction m) (use P o in auto)
  have dist: "(P ^^ (k + 1)) ?o \<noteq> (P ^^ m) ?o" if "0 < m" "m \<le> k" "k < c" for k m
    using that
  proof (induction m arbitrary: k)
    case (Suc m)
    obtain k' where k': "k = Suc k'" using Suc.prems by (cases k) auto
    show ?case
    proof (cases "m = 0")
      case True
      have "(P ^^ k) ?o \<noteq> ?o" using c(3) [of k] Suc.prems by simp
      then show ?thesis using True inj_onD [OF P(2)] less [of k] less [of 0] by auto
    next
      case False
      then have "(P ^^ (k' + 1)) ?o \<noteq> (P ^^ m) ?o" using Suc k' by simp
      then show ?thesis using inj_onD [OF P(2)] less [of "k' + 1"] less [of m] k' by auto
    qed
  qed simp
  have step: "reversed P ?o (k + 1) ?l (reverse_step x)" if "reversed P ?o k ?l x" "k < c" for k x
    by (rule reverse_step_ok [OF P(1) o P(3) n _ that(1)]) (use dist that(2) in auto)
  have R0: "reversed P ?o 0 ?l (?o, unat (GET_LL ?o ?l), ?l)" using P(3) [OF o] by (simp add: reversed_def)
  let ?b = "\<lambda>(i, j, l). i \<noteq> ?o" and ?x = "(?o, unat (GET_LL ?o ?l), ?l)"
  have R: "reversed P ?o k ?l ((reverse_step ^^ k) ?x)" if "k \<le> c" for k
    using that by (induction k) (use R0 step in auto)
  have i: "?b ((reverse_step ^^ k) ?x) \<longleftrightarrow> (P ^^ k) ?o \<noteq> ?o" if "k \<le> c" for k
    using R [OF that] by (auto simp: reversed_def)
  have W: "while_option ?b reverse_step (reverse_step ?x) = Some ((reverse_step ^^ (c - 1)) (reverse_step ?x))"
  proof (rule while_option_iterated)
    show "?b ((reverse_step ^^ k) (reverse_step ?x))" if "k < c - 1" for k
      using i [of "Suc k"] c(3) [of "Suc k"] that by (simp add: funpow_swap1)
    show "\<not> ?b ((reverse_step ^^ (c - 1)) (reverse_step ?x))"
      using i [of c] c(1,2) by (cases c) (simp_all add: funpow_swap1)
  qed
  obtain i j l16 l4 where e: "(reverse_step ^^ c) ?x = (i, j, l16, l4)" by (metis prod_cases4)
  have w: "while ?b reverse_step (reverse_step ?x) = (i, j, l16, l4)"
    using W e c(1) by (cases c) (simp_all add: while_def funpow_swap1)
  have i: "i = ?o" and g: "\<And>m. 0 < m \<Longrightarrow> m \<le> c \<Longrightarrow> unat (GET_LL ((P ^^ m) ?o) (l16, l4)) = (P ^^ (m - 1)) ?o"
    using R [of c] c(2) unfolding e by (auto simp: reversed_def)
  show thesis
  proof (rule that [of j l4 l16])
    show "reverse_pointers s = upd_sv (\<lambda>sv. sv\<lparr>save_i := ?o, save_j := j\<rparr>) (s\<lparr>ll16 := l16, ll4 := l4\<rparr>)"
      using w i by (simp add: reverse_pointers_def Let_def)
    show "unat (GET_LL ((P ^^ (k + 1)) ?o) (l16, l4)) = (P ^^ k) ?o" for k
    proof -
      have per: "(P ^^ (c * q + r)) ?o = (P ^^ r) ?o" for q r
      proof (induction q)
        case (Suc q)
        have "(P ^^ (c * q + r + c)) ?o = (P ^^ (c * q + r)) ((P ^^ c) ?o)" by (simp only: funpow_add o_apply)
        then show ?case using Suc c(2) by (simp add: algebra_simps)
      qed simp
      let ?r = "k mod c"
      have k: "k = c * (k div c) + ?r" by simp
      have "(P ^^ (k + 1)) ?o = (P ^^ (?r + 1)) ?o" "(P ^^ k) ?o = (P ^^ ?r) ?o"
        using per [of "k div c" "?r + 1"] per [of "k div c" ?r] k by (simp_all add: add.assoc)
      moreover have "?r + 1 \<le> c" using c(1) by (simp add: Suc_leI)
      ultimately show ?thesis using g [of "?r + 1"] by simp
    qed
  qed
qed

end
