(* ===== verification/BlockReady.thy ===== *)
theory BlockReady
  imports InverseBwt
begin

text \<open>
  From the decoded block to the walk that the output makes: the counts in \<open>unzftab\<close> are those of the
  stored bytes, so the checks at the end of the block pass, and after the inverse transform the
  macros \<open>BZ_GET_FAST\<close> and \<open>BZ_GET_SMALL\<close> find, at every step, the next byte of the same walk.
\<close>

section \<open>The binary search\<close>

lemma BZ2_indexIntoF_ok:
  assumes "cf 0 \<le> x" "x < cf 256"
  shows "BZ2_indexIntoF x cf < 256 \<and> cf (BZ2_indexIntoF x cf) \<le> x \<and> x < cf (BZ2_indexIntoF x cf + 1)"
proof -
  define body where "body = (\<lambda>(nb, na). let mid = drop_bit 1 (nb + na) in if x \<ge> cf mid then (mid, na) else (nb, mid))"
  have e: "BZ2_indexIntoF x cf = fst (while (\<lambda>(nb, na). int na - int nb \<noteq> 1) body (body (0, 256)))"
    by (simp only: BZ2_indexIntoF_def body_def Let_def)
  let ?I = "\<lambda>(nb, na). nb < na \<and> na \<le> 256 \<and> cf nb \<le> x \<and> x < cf na"
  have step: "?I (body (nb, na)) \<and> snd (body (nb, na)) - fst (body (nb, na)) < na - nb"
    if "?I (nb, na)" "nb + 1 < na" for nb na
    using that by (auto simp: body_def Let_def drop_bit_Suc)
  have "?I (while (\<lambda>(nb, na). int na - int nb \<noteq> 1) body (body (0, 256))) \<and>
      \<not> (\<lambda>(nb, na). int na - int nb \<noteq> 1) (while (\<lambda>(nb, na). int na - int nb \<noteq> 1) body (body (0, 256)))"
  proof (rule while_rule [where P = ?I and r = "measure (\<lambda>(nb, na). na - nb)"])
    show "?I (body (0, 256))" using step [of 0 256] assms by simp
    show "?I (body p) " if "?I p" "case p of (nb, na) \<Rightarrow> int na - int nb \<noteq> 1" for p
      using step [of "fst p" "snd p"] that by (cases p) auto
    show "(body p, p) \<in> measure (\<lambda>(nb, na). na - nb)" if "?I p" "case p of (nb, na) \<Rightarrow> int na - int nb \<noteq> 1" for p
      using step [of "fst p" "snd p"] that by (cases p) (auto split: prod.splits)
  qed auto
  then obtain nb na where w: "while (\<lambda>(nb, na). int na - int nb \<noteq> 1) body (body (0, 256)) = (nb, na)"
      "nb < na" "na \<le> 256" "cf nb \<le> x" "x < cf na" "int na - int nb = 1"
    by (cases "while (\<lambda>(nb, na). int na - int nb \<noteq> 1) body (body (0, 256))") auto
  then have "na = nb + 1" by linarith
  note w = w [unfolded this]
  then show ?thesis unfolding e using w by (simp del: Suc_eq_plus1)
qed

lemma BZ2_indexIntoF_row:
  assumes cf: "\<And>u. u \<le> 256 \<Longrightarrow> cf u = int (below L n u)" and L: "\<And>j. j < n \<Longrightarrow> L j < 256" and p: "p < n"
  shows "BZ2_indexIntoF (int p) cf = L (lf_inv L n p)"
proof -
  let ?r = "BZ2_indexIntoF (int p) cf" and ?i = "lf_inv L n p"
  have r: "?r < 256" "cf ?r \<le> int p" "int p < cf (?r + 1)"
    using BZ2_indexIntoF_ok [of cf "int p"] cf [of 0] cf [of 256] below_all [of n L 256] L p by auto
  then have "below L n ?r \<le> p" "p < below L n ?r + cnt L n ?r" using cf [of ?r] cf [of "?r + 1"] by auto
  then obtain i where "i < n" "L i = ?r" "cpos L n i = p" using symbol_at by blast
  then show ?thesis using lf_inv_cpos by auto
qed

section \<open>The walk\<close>

text \<open>Row \<open>u\<close> of the walk from the original row \<open>o0\<close>.\<close>

definition walk :: "(nat \<Rightarrow> nat) \<Rightarrow> nat \<Rightarrow> nat \<Rightarrow> nat \<Rightarrow> nat" where
  "walk L n o0 u = (lf_inv L n ^^ u) o0"

lemma walk_Suc: "walk L n o0 (Suc u) = lf_inv L n (walk L n o0 u)"
  by (simp add: walk_def)

lemma walk_less: "o0 < n \<Longrightarrow> walk L n o0 u < n"
  by (induction u) (simp_all add: walk_def lf_inv_less)

lemma walk_back:
  assumes o: "o0 < n"
  shows "\<exists>k. walk L n o0 u = (cpos L n ^^ (k + 1)) o0"
proof (induction u)
  case 0
  obtain c where "c > 0" "(cpos L n ^^ c) o0 = o0" using cycle_returns [OF cpos_inj cpos_less o] by blast
  then show ?case by (intro exI [of _ "c - 1"]) (simp add: walk_def)
next
  case (Suc u)
  have less: "(cpos L n ^^ k) o0 < n" for k by (induction k) (simp_all add: o cpos_less)
  obtain c where c: "c > 0" "(cpos L n ^^ c) o0 = o0" using cycle_returns [OF cpos_inj cpos_less o] by blast
  obtain k where k: "walk L n o0 u = (cpos L n ^^ (k + 1)) o0" using Suc by blast
  then have e: "walk L n o0 (Suc u) = (cpos L n ^^ k) o0" using lf_inv_cpos [OF less [of k]] by (simp add: walk_Suc)
  show ?case
  proof (cases k)
    case 0
    then show ?thesis using e c by (intro exI [of _ "c - 1"]) simp
  next
    case (Suc k')
    then show ?thesis using e by auto
  qed
qed

section \<open>The stored block\<close>

definition block_col :: "dstate \<Rightarrow> nat \<Rightarrow> nat" where
  "block_col s i = (if smallDecompress s then unat (ll16 s i) else unat (tt s i))"

definition data_ok :: "dstate \<Rightarrow> bool" where
  "data_ok s \<longleftrightarrow> (\<forall>i < save_nblock (dsv s). block_col s i < 256) \<and>
     (\<forall>v < 256. unzftab s v = int (cnt (block_col s) (save_nblock (dsv s)) v))"

definition src_fast :: "(nat \<Rightarrow> nat) \<Rightarrow> nat \<Rightarrow> dstate \<Rightarrow> bool" where
  "src_fast L n s \<longleftrightarrow> (\<forall>j < n. unat (tt s j AND 0xff) = L j \<and> unat (drop_bit 8 (tt s j)) = lf_inv L n j)"

definition src_small :: "(nat \<Rightarrow> nat) \<Rightarrow> nat \<Rightarrow> nat \<Rightarrow> dstate \<Rightarrow> bool" where
  "src_small L n o0 s \<longleftrightarrow> (\<forall>u \<le> 256. cftab s u = int (below L n u)) \<and>
     (\<forall>u. unat (GET_LL (walk L n o0 u) (ll16 s, ll4 s)) = walk L n o0 (u + 1))"

text \<open>The block is inverted, and \<open>u\<close> bytes of it have been fetched.\<close>

definition src_at :: "(nat \<Rightarrow> nat) \<Rightarrow> nat \<Rightarrow> dstate \<Rightarrow> bool" where
  "src_at L u s \<longleftrightarrow> (let n = save_nblock (dsv s); o0 = nat (origPtr s) in
     o0 < n \<and> n \<le> 100000 * blockSize100k s \<and> blockSize100k s \<le> 9 \<and> (\<forall>j < n. L j < 256) \<and>
     (if smallDecompress s then src_small L n o0 s \<and> unat (tPos s) = walk L n o0 u
      else src_fast L n s \<and> unat (tPos s) = walk L n o0 (u + 1)))"

lemma tpos_fine:
  assumes "unat (tPos s) < n" "n \<le> 100000 * blockSize100k s" "blockSize100k s \<le> 9"
  shows "\<not> tpos_bad s"
proof -
  have "(100000 :: u32) * word_of_nat (blockSize100k s) = word_of_nat (100000 * blockSize100k s)" by simp
  moreover have "unat (word_of_nat (100000 * blockSize100k s) :: u32) = 100000 * blockSize100k s"
    using assms(3) by (simp add: unsigned_of_nat take_bit_nat_eq_self del: of_nat_mult)
  ultimately have "unat (tPos s) < unat ((100000 :: u32) * word_of_nat (blockSize100k s))"
    using assms(1,2) by (simp del: of_nat_mult)
  then show ?thesis by (simp add: tpos_bad_def word_less_nat_alt not_le)
qed

text \<open>Byte \<open>u\<close> of the block.\<close>

definition walk_byte :: "(nat \<Rightarrow> nat) \<Rightarrow> dstate \<Rightarrow> nat \<Rightarrow> u8" where
  "walk_byte L s u = word_of_nat (L (walk L (save_nblock (dsv s)) (nat (origPtr s)) (u + 1)))"

lemma get_fast:
  assumes A: "src_at L u s" and f: "\<not> smallDecompress s"
  shows "\<exists>p. BZ_GET_FAST s = Some (walk_byte L s u, s\<lparr>tPos := p\<rparr>) \<and> src_at L (u + 1) (s\<lparr>tPos := p\<rparr>)"
proof -
  let ?n = "save_nblock (dsv s)" and ?o = "nat (origPtr s)"
  have S: "src_fast L ?n s" "unat (tPos s) = walk L ?n ?o (u + 1)" "?o < ?n"
    and b: "?n \<le> 100000 * blockSize100k s" "blockSize100k s \<le> 9" using A f by (auto simp: src_at_def Let_def)
  have p: "unat (tPos s) < ?n" using S walk_less by simp
  let ?w = "tt s (unat (tPos s))"
  have "unat (?w AND 0xff) = L (unat (tPos s))" "unat (drop_bit 8 ?w) = lf_inv L ?n (unat (tPos s))"
    using S(1) p by (auto simp: src_fast_def)
  moreover have "(ucast (?w AND 0xff) :: u8) = word_of_nat (unat (?w AND 0xff))" by simp
  ultimately show ?thesis
    using tpos_fine [OF p b] S A f
    by (auto simp: BZ_GET_FAST_def Let_def walk_byte_def src_at_def walk_Suc src_fast_def)
qed

lemma get_small:
  assumes A: "src_at L u s" and f: "smallDecompress s"
  shows "\<exists>p. BZ_GET_SMALL s = Some (walk_byte L s u, s\<lparr>tPos := p\<rparr>) \<and> src_at L (u + 1) (s\<lparr>tPos := p\<rparr>)"
proof -
  let ?n = "save_nblock (dsv s)" and ?o = "nat (origPtr s)"
  have S: "src_small L ?n ?o s" "unat (tPos s) = walk L ?n ?o u" "?o < ?n" "\<forall>j < ?n. L j < 256"
    and b: "?n \<le> 100000 * blockSize100k s" "blockSize100k s \<le> 9" using A f by (auto simp: src_at_def Let_def)
  have p: "unat (tPos s) < ?n" using S walk_less by simp
  have "unat (tPos s) < 2147483648" using p b by linarith
  then have "int (unat (tPos s)) < int 2147483648" by (simp only: of_nat_less_iff)
  then have "uint (tPos s) < 2 ^ 31" by simp
  moreover have "0 \<le> uint (tPos s)" by simp
  ultimately have "sint (tPos s) = uint (tPos s)" unfolding sint_uint
    by (intro signed_take_bit_int_eq_self) (simp_all add: order.trans [of _ 0])
  then have "sint (tPos s) = int (unat (tPos s))" by simp
  then have "BZ2_indexIntoF (sint (tPos s)) (cftab s) = L (lf_inv L ?n (unat (tPos s)))"
    using BZ2_indexIntoF_row [of "cftab s" L ?n "unat (tPos s)"] S p by (simp add: src_small_def)
  then show ?thesis
    using tpos_fine [OF p b] S A f
    by (auto simp: BZ_GET_SMALL_def Let_def walk_byte_def src_at_def walk_Suc src_small_def)
qed

section \<open>The end of the block\<close>

lemma fold_copy: "fold (\<lambda>i cf. cf(i := f (i - 1))) [1..<Suc m] cf = (\<lambda>i. if 1 \<le> i \<and> i \<le> m then f (i - 1) else cf i)"
proof (induction m)
  case (Suc m)
  have e: "[1..<Suc (Suc m)] = [1..<Suc m] @ [Suc m]" by simp
  show ?case unfolding e fold_append o_apply Suc.IH by (auto simp: fun_eq_iff)
qed (simp add: fun_eq_iff)

lemma fold_prefix:
  "i \<le> m \<Longrightarrow> fold (\<lambda>i cf. cf(i := cf i + cf (i - 1))) [1..<Suc m] cf i = (\<Sum>j \<le> i. cf j :: int)"
  "m < i \<Longrightarrow> fold (\<lambda>i cf. cf(i := cf i + cf (i - 1))) [1..<Suc m] cf i = cf i"
proof (induction m arbitrary: i)
  case 0
  case 1 then show ?case by simp
next
  case 0
  case 2 then show ?case by simp
next
  case (Suc m)
  case 1
  then show ?case
    using Suc.IH(1) [of i] Suc.IH(1) [of m] Suc.IH(2) [of "Suc m"]
    by (cases "i = Suc m") (auto simp: add.commute)
next
  case (Suc m)
  case 2
  then show ?case using Suc.IH(2) [of i] by simp
qed

lemma sum_cnt_below: "(\<Sum>j \<le> u. if 1 \<le> j then int (cnt L n (j - 1)) else 0) = int (below L n u)"
  by (induction u) simp_all

lemma build_cftab_below:
  assumes "\<And>v. v < 256 \<Longrightarrow> unzftab s v = int (cnt L n v)" and "u \<le> 256"
  shows "cftab (build_cftab s) u = int (below L n u)"
proof -
  let ?g = "\<lambda>i. if 1 \<le> i \<and> i \<le> 256 then unzftab s (i - 1) else ((cftab s)(0 := 0)) i"
  have "cftab (build_cftab s) = fold (\<lambda>i cf. cf(i := cf i + cf (i - 1))) [1..<Suc 256] ?g"
    using fold_copy [of "unzftab s" 256 "(cftab s)(0 := 0)"] by (simp add: build_cftab_def Let_def)
  then have "cftab (build_cftab s) u = (\<Sum>j \<le> u. ?g j)" using fold_prefix(1) [of u 256 ?g] assms(2) by simp
  also have "\<dots> = (\<Sum>j \<le> u. if 1 \<le> j then int (cnt L n (j - 1)) else 0)"
    by (rule sum.cong) (use assms in auto)
  finally show ?thesis unfolding sum_cnt_below .
qed

lemma build_cftab_frame: "build_cftab s = s\<lparr>cftab := cftab (build_cftab s)\<rparr>"
  by (simp add: build_cftab_def Let_def)

lemma cnt_cong: "(\<And>j. j < n \<Longrightarrow> L j = L' j) \<Longrightarrow> cnt L n v = cnt L' n v"
  unfolding cnt_def by (rule arg_cong [where f = card]) auto

text \<open>The checks of the counts never fail.\<close>

lemma checks_pass:
  assumes "data_ok s"
  shows "list_all (\<lambda>i. \<not> (unzftab s i < 0 \<or> unzftab s i > int (save_nblock (dsv s)))) [0..<256]"
    "block_checks (build_cftab s)"
proof -
  let ?n = "save_nblock (dsv s)" and ?L = "block_col s"
  have u: "unzftab s v = int (cnt ?L ?n v)" if "v < 256" for v using assms that by (simp add: data_ok_def)
  have c: "cnt ?L ?n v \<le> ?n" for v using below_cnt_le [of ?L ?n v] by linarith
  show "list_all (\<lambda>i. \<not> (unzftab s i < 0 \<or> unzftab s i > int ?n)) [0..<256]"
    using u c by (auto simp: list_all_iff not_less)
  have n: "save_nblock (dsv (build_cftab s)) = ?n" by (simp add: build_cftab_def Let_def)
  show "block_checks (build_cftab s)"
    unfolding block_checks_def list_all_iff n
  proof (intro conjI ballI)
    fix i :: nat assume "i \<in> set [0..<257]"
    then show "\<not> (cftab (build_cftab s) i < 0 \<or> int ?n < cftab (build_cftab s) i)"
      using build_cftab_below [OF u, of i] below_le [of ?L ?n i] by simp
  next
    fix i :: nat assume "i \<in> set [1..<257]"
    then have "i \<le> 256" "i - 1 \<le> 256" by auto
    then show "\<not> cftab (build_cftab s) i < cftab (build_cftab s) (i - 1)"
      using build_cftab_below [OF u, of i] build_cftab_below [OF u, of "i - 1"] below_mono [of "i - 1" i ?L ?n] by simp
  qed
qed

text \<open>The state in which the inverse transform starts.\<close>

definition out_start :: "dstate \<Rightarrow> dstate" where
  "out_start s = (build_cftab s)\<lparr>state_out_len := 0, state_out_ch := 0, calculatedBlockCRC := BZ_INITIALISE_CRC,
     dst := BZ_X_OUTPUT\<rparr>"

lemma out_start_fields [simp]:
  "smallDecompress (out_start s) = smallDecompress s" "origPtr (out_start s) = origPtr s"
  "dsv (out_start s) = dsv s" "tt (out_start s) = tt s" "ll16 (out_start s) = ll16 s" "ll4 (out_start s) = ll4 s"
  "cftab (out_start s) = cftab (build_cftab s)" "blockSize100k (out_start s) = blockSize100k s"
  "blockRandomised (out_start s) = blockRandomised s" "dst (out_start s) = BZ_X_OUTPUT"
  "state_out_len (out_start s) = 0" "calculatedBlockCRC (out_start s) = BZ_INITIALISE_CRC" "dstrm (out_start s) = dstrm s"
  by (simp_all add: out_start_def build_cftab_def Let_def)

lemma block_end_data:
  assumes D: "data_ok s" and o: "0 \<le> origPtr s" "origPtr s < int (save_nblock (dsv s))"
  shows "block_end s =
    (if smallDecompress s
     then first_byte BZ_GET_SMALL ((reverse_pointers (invert_small (out_start s)))\<lparr>tPos := word_of_int (origPtr s)\<rparr>)
     else first_byte BZ_GET_FAST
            ((invert_fast (out_start s))\<lparr>tPos := drop_bit 8 (tt (invert_fast (out_start s)) (nat (origPtr s)))\<rparr>))"
proof -
  have r: "origPtr (reverse_pointers (invert_small t)) = origPtr t" for t
    by (simp add: reverse_pointers_def invert_small_def Let_def split: prod.split)
  have f: "origPtr (invert_fast t) = origPtr t" for t
  proof -
    have "origPtr (fold invert_fast_step [0..<k] t) = origPtr t" for k
      by (induction k) (simp_all add: invert_fast_step_def Let_def)
    then show ?thesis by (simp add: invert_fast_steps)
  qed
  show ?thesis
    using o checks_pass [OF D] unfolding block_end_def Let_def out_start_def [symmetric]
    by (simp add: r f)
qed

section \<open>The first byte\<close>

text \<open>Everything the walk depends on but the position.\<close>

definition same_src :: "dstate \<Rightarrow> dstate \<Rightarrow> bool" where
  "same_src s s' \<longleftrightarrow> smallDecompress s' = smallDecompress s \<and> origPtr s' = origPtr s \<and>
     save_nblock (dsv s') = save_nblock (dsv s) \<and> blockSize100k s' = blockSize100k s \<and> tt s' = tt s \<and>
     ll16 s' = ll16 s \<and> ll4 s' = ll4 s \<and> cftab s' = cftab s \<and> blockRandomised s' = blockRandomised s"

lemma src_at_cong: "same_src s s' \<Longrightarrow> tPos s' = tPos s \<Longrightarrow> src_at L u s' = src_at L u s"
  by (simp add: src_at_def same_src_def src_small_def src_fast_def)

lemma walk_byte_cong: "same_src s s' \<Longrightarrow> walk_byte L s' u = walk_byte L s u"
  by (simp add: walk_byte_def same_src_def)

lemma same_src_trans: "same_src s s' \<Longrightarrow> same_src s' s'' \<Longrightarrow> same_src s s''"
  by (simp add: same_src_def)

definition get_byte :: "dstate \<Rightarrow> (u8 \<times> dstate) option" where
  "get_byte s = (if smallDecompress s then BZ_GET_SMALL s else BZ_GET_FAST s)"

lemma get_byte_ok:
  "src_at L u s \<Longrightarrow> \<exists>p. get_byte s = Some (walk_byte L s u, s\<lparr>tPos := p\<rparr>) \<and> src_at L (u + 1) (s\<lparr>tPos := p\<rparr>)"
  using get_fast [of L u s] get_small [of L u s] by (simp add: get_byte_def)

text \<open>The block after the inverse transform.\<close>

lemma fast_inverted:
  assumes D: "data_ok s" and o: "0 \<le> origPtr s" "origPtr s < int (save_nblock (dsv s))" and f: "\<not> smallDecompress s"
    and b: "save_nblock (dsv s) \<le> 100000 * blockSize100k s" "blockSize100k s \<le> 9"
  shows "src_at (block_col s) 0
    ((invert_fast (out_start s))\<lparr>tPos := drop_bit 8 (tt (invert_fast (out_start s)) (nat (origPtr s)))\<rparr>) \<and>
    (\<exists>t c. invert_fast (out_start s) = (out_start s)\<lparr>tt := t, cftab := c\<rparr>)"
proof -
  let ?n = "save_nblock (dsv s)" and ?L = "block_col s" and ?s = "out_start s"
  have L: "?L j < 256" if "j < ?n" for j using D that by (simp add: data_ok_def)
  have t: "tt ?s j = word_of_nat (?L j)" if "j < ?n" for j using f by (simp add: block_col_def)
  have c: "cftab ?s u = int (below ?L ?n u)" if "u < 256" for u
    using build_cftab_below [of s ?L ?n u] D that by (simp add: data_ok_def)
  have I: "invert_fast ?s = fold invert_fast_step [0..<?n] ?s" by (simp add: invert_fast_steps)
  note F = invert_fast_fold [of ?n ?L ?s ?n, OF L t c order_refl, folded I]
  have T: "tt (invert_fast ?s) j = tt_placed ?L ?n ?n j" if "j < ?n" for j using F that by blast
  have R: "invert_fast ?s = ?s\<lparr>tt := tt (invert_fast ?s), cftab := cftab (invert_fast ?s)\<rparr>" using F by blast
  have n24: "?n \<le> 2 ^ 24" using b by simp
  have S: "src_fast ?L ?n (invert_fast ?s)"
    unfolding src_fast_def
  proof (intro allI impI)
    fix j assume j: "j < ?n"
    show "unat (tt (invert_fast ?s) j AND 0xff) = ?L j \<and> unat (drop_bit 8 (tt (invert_fast ?s) j)) = lf_inv ?L ?n j"
      unfolding T [OF j]
      by (rule conjI, rule tt_placed_byte [of ?L, OF L [OF j]],
          rule tt_placed_next [of ?L, OF L [OF j] lf_inv_less [OF j] n24])
  qed
  have o': "nat (origPtr s) < ?n" using o by simp
  have p: "unat (drop_bit 8 (tt (invert_fast ?s) (nat (origPtr s)))) = walk ?L ?n (nat (origPtr s)) 1"
    using S o' by (simp add: src_fast_def walk_def)
  have g: "smallDecompress (invert_fast ?s) = smallDecompress s" "origPtr (invert_fast ?s) = origPtr s"
    "dsv (invert_fast ?s) = dsv s" "blockSize100k (invert_fast ?s) = blockSize100k s"
    by (subst R; simp)+
  have "src_at ?L 0 ((invert_fast ?s)\<lparr>tPos := drop_bit 8 (tt (invert_fast ?s) (nat (origPtr s)))\<rparr>)"
    using S p o' b L f by (simp add: src_at_def src_fast_def g)
  then show ?thesis using R by blast
qed

lemma small_inverted:
  assumes D: "data_ok s" and o: "0 \<le> origPtr s" "origPtr s < int (save_nblock (dsv s))" and f: "smallDecompress s"
    and b: "save_nblock (dsv s) \<le> 100000 * blockSize100k s" "blockSize100k s \<le> 9"
  shows "src_at (block_col s) 0
    ((reverse_pointers (invert_small (out_start s)))\<lparr>tPos := word_of_int (origPtr s)\<rparr>) \<and>
    (\<exists>i j a l c. reverse_pointers (invert_small (out_start s)) =
       upd_sv (\<lambda>sv. sv\<lparr>save_i := i, save_j := j\<rparr>) ((out_start s)\<lparr>ll16 := a, ll4 := l, cftabCopy := c\<rparr>))"
proof -
  let ?n = "save_nblock (dsv s)" and ?L = "block_col s" and ?s = "out_start s"
  have L: "?L j < 256" if "j < ?n" for j using D that by (simp add: data_ok_def)
  have t: "fst (ll16 ?s, ll4 ?s) j = word_of_nat (?L j)" if "j < ?n" for j using f by (simp add: block_col_def)
  have cb: "cftab ?s u = int (below ?L ?n u)" if "u \<le> 256" for u
    using build_cftab_below [of s ?L ?n u] D that by (simp add: data_ok_def)
  let ?copy = "fold (\<lambda>i f. f(i := cftab ?s i)) [0..<257] (cftabCopy ?s)"
  have fc: "fold (\<lambda>i f. f(i := g i)) [0..<m] h u = (if u < m then g u else h u)" for g h :: "nat \<Rightarrow> int" and m u
    by (induction m) auto
  have cc: "?copy u = int (below ?L ?n u)" if "u < 256" for u using that cb [of u] by (simp only: fc) simp
  obtain l16 l4 c where m: "fold invert_small_step [0..<?n] ((ll16 ?s, ll4 ?s), ?copy) = ((l16, l4), c)"
    by (cases "fold invert_small_step [0..<?n] ((ll16 ?s, ll4 ?s), ?copy)") (auto intro: that)
  have n20: "?n \<le> 2 ^ 20" using b by simp
  have G: "unat (GET_LL j (l16, l4)) = cpos ?L ?n j" if "j < ?n" for j
    using invert_small_fold [OF L t cc order_refl n20 m] that by blast
  have I: "invert_small ?s = ?s\<lparr>ll16 := l16, ll4 := l4, cftabCopy := c\<rparr>"
    using m by (simp add: invert_small_def Let_def)
  have o': "nat (origPtr (invert_small ?s)) < ?n" using o by (simp add: I)
  obtain a l j where R: "reverse_pointers (invert_small ?s) =
        upd_sv (\<lambda>sv. sv\<lparr>save_i := nat (origPtr s), save_j := j\<rparr>) ((invert_small ?s)\<lparr>ll16 := a, ll4 := l\<rparr>)"
      and g: "\<And>k. unat (GET_LL ((cpos ?L ?n ^^ (k + 1)) (nat (origPtr s))) (a, l)) = (cpos ?L ?n ^^ k) (nat (origPtr s))"
    by (rule reverse_pointers_ok [of ?n "cpos ?L ?n" "invert_small ?s", OF cpos_less cpos_inj _ n20 o'])
      (use G in \<open>auto simp: I\<close>)
  have less: "(cpos ?L ?n ^^ k) (nat (origPtr s)) < ?n" for k by (induction k) (use o in \<open>simp_all add: cpos_less\<close>)
  have w: "unat (GET_LL (walk ?L ?n (nat (origPtr s)) u) (a, l)) = walk ?L ?n (nat (origPtr s)) (u + 1)" for u
  proof -
    obtain k where k: "walk ?L ?n (nat (origPtr s)) u = (cpos ?L ?n ^^ (k + 1)) (nat (origPtr s))"
      using walk_back [OF less [of 0, simplified]] by blast
    show ?thesis using g [of k] lf_inv_cpos [OF less [of k], of ?L] k by (simp add: walk_Suc)
  qed
  have "unat (word_of_int (origPtr s) :: u32) = nat (origPtr s)"
  proof -
    have "nat (origPtr s) < 2 ^ 32" using o b by simp
    moreover have "(word_of_int (origPtr s) :: u32) = word_of_nat (nat (origPtr s))" using o by simp
    ultimately show ?thesis by (simp only: unsigned_of_nat) (simp add: take_bit_nat_eq_self)
  qed
  then have "src_at ?L 0 ((reverse_pointers (invert_small ?s))\<lparr>tPos := word_of_int (origPtr s)\<rparr>)"
    unfolding R using w o b L f cb by (simp add: src_at_def src_small_def I walk_def)
  moreover have "reverse_pointers (invert_small ?s) =
      upd_sv (\<lambda>sv. sv\<lparr>save_i := nat (origPtr s), save_j := j\<rparr>) (?s\<lparr>ll16 := a, ll4 := l, cftabCopy := c\<rparr>)"
    by (subst R) (simp add: I)
  ultimately show ?thesis by blast
qed

text \<open>
  The state of the randomisation after \<open>i\<close> bytes, and what is flipped in byte \<open>i\<close>.
\<close>

definition rand_step :: "nat \<times> nat \<Rightarrow> nat \<times> nat" where
  "rand_step gr = (case gr of (g, r) \<Rightarrow>
     if g = 0 then (BZ2_rNums ! r - 1, if r + 1 = 512 then 0 else r + 1) else (g - 1, r))"

definition rand_state :: "nat \<Rightarrow> nat \<times> nat" where
  "rand_state i = (rand_step ^^ i) (0, 0)"

definition rand_mask :: "nat \<Rightarrow> u8" where
  "rand_mask i = (if fst (rand_state (i + 1)) = 1 then 1 else 0)"

lemma rand_state_Suc: "rand_state (Suc i) = rand_step (rand_state i)"
  by (simp add: rand_state_def)

lemma RAND_UPD_step:
  "(rNToGo (BZ_RAND_UPD_MASK s), rTPos (BZ_RAND_UPD_MASK s)) = rand_step (rNToGo s, rTPos s)"
  by (simp add: BZ_RAND_UPD_MASK_def rand_step_def Let_def)

definition block_byte :: "(nat \<Rightarrow> nat) \<Rightarrow> dstate \<Rightarrow> nat \<Rightarrow> u8" where
  "block_byte L s u = walk_byte L s u XOR (if blockRandomised s then rand_mask u else 0)"

lemma block_byte_cong: "same_src s s' \<Longrightarrow> block_byte L s' u = block_byte L s u"
  using walk_byte_cong [of s s' L u] by (simp add: block_byte_def same_src_def)

text \<open>A block ready for output: the first byte is fetched, nothing is written.\<close>

definition out_ready :: "(nat \<Rightarrow> nat) \<Rightarrow> dstate \<Rightarrow> bool" where
  "out_ready L s \<longleftrightarrow> src_at L 1 s \<and> dst s = BZ_X_OUTPUT \<and> nblock_used s = 1 \<and> state_out_len s = 0 \<and>
     calculatedBlockCRC s = BZ_INITIALISE_CRC \<and> k0 s = block_byte L s 0 \<and>
     (blockRandomised s \<longrightarrow> (rNToGo s, rTPos s) = rand_state 1)"

lemma rand_src: "same_src s (BZ_RAND_INIT_MASK s)" "same_src s (BZ_RAND_UPD_MASK s)"
  "tPos (BZ_RAND_INIT_MASK s) = tPos s" "tPos (BZ_RAND_UPD_MASK s) = tPos s"
  by (simp_all add: same_src_def BZ_RAND_INIT_MASK_def BZ_RAND_UPD_MASK_def Let_def)

lemma rand_frame:
  "dst (BZ_RAND_INIT_MASK s) = dst s" "nblock_used (BZ_RAND_INIT_MASK s) = nblock_used s"
  "state_out_len (BZ_RAND_INIT_MASK s) = state_out_len s" "calculatedBlockCRC (BZ_RAND_INIT_MASK s) = calculatedBlockCRC s"
  "dst (BZ_RAND_UPD_MASK s) = dst s" "nblock_used (BZ_RAND_UPD_MASK s) = nblock_used s"
  "state_out_len (BZ_RAND_UPD_MASK s) = state_out_len s" "calculatedBlockCRC (BZ_RAND_UPD_MASK s) = calculatedBlockCRC s"
  "blockRandomised (BZ_RAND_UPD_MASK s) = blockRandomised s" "blockRandomised (BZ_RAND_INIT_MASK s) = blockRandomised s"
  "smallDecompress (BZ_RAND_INIT_MASK s) = smallDecompress s"
  by (simp_all add: BZ_RAND_INIT_MASK_def BZ_RAND_UPD_MASK_def Let_def)

lemma first_byte_ready:
  assumes A: "src_at L 0 s" and d: "dst s = BZ_X_OUTPUT" "state_out_len s = 0" "calculatedBlockCRC s = BZ_INITIALISE_CRC"
    and g: "\<And>t. smallDecompress t = smallDecompress s \<Longrightarrow> get t = get_byte t"
  shows "\<exists>s'. first_byte get s = Return BZ_OK s' \<and> out_ready L s' \<and> same_src s s'"
proof (cases "blockRandomised s")
  case False
  let ?s = "s\<lparr>nblock_used := 0\<rparr>"
  have c: "same_src s ?s" by (simp add: same_src_def)
  have "src_at L 0 ?s" using A src_at_cong [OF c] by simp
  from get_byte_ok [OF this] obtain p where p: "get ?s = Some (walk_byte L ?s 0, ?s\<lparr>tPos := p\<rparr>)"
      "src_at L 1 (?s\<lparr>tPos := p\<rparr>)" using g [of ?s] by auto
  let ?t = "(?s\<lparr>tPos := p\<rparr>)\<lparr>k0 := walk_byte L ?s 0, nblock_used := 1\<rparr>"
  have e: "first_byte get s = Return BZ_OK ?t" using p(1) False by (simp add: first_byte_def Let_def)
  have c1: "same_src (?s\<lparr>tPos := p\<rparr>) ?t" "same_src s ?t" "same_src ?s ?t" by (simp_all add: same_src_def)
  have "out_ready L ?t"
    using src_at_cong [OF c1(1), of L 1] p(2) d walk_byte_cong [OF c1(3), of L 0] False
    by (simp add: out_ready_def block_byte_def)
  then show ?thesis using e c1 by blast
next
  case True
  let ?s = "BZ_RAND_INIT_MASK (s\<lparr>nblock_used := 0\<rparr>)"
  have c: "same_src s ?s" by (rule same_src_trans [OF _ rand_src(1)]) (simp add: same_src_def)
  have "src_at L 0 ?s" using A src_at_cong [OF c] by (simp add: rand_src)
  from get_byte_ok [OF this] obtain p where p: "get ?s = Some (walk_byte L ?s 0, ?s\<lparr>tPos := p\<rparr>)"
      "src_at L 1 (?s\<lparr>tPos := p\<rparr>)" using g [of ?s] by (auto simp: rand_frame)
  let ?u = "BZ_RAND_UPD_MASK ((?s\<lparr>tPos := p\<rparr>)\<lparr>k0 := walk_byte L ?s 0, nblock_used := nblock_used ?s + 1\<rparr>)"
  let ?t = "?u\<lparr>k0 := k0 ?u XOR BZ_RAND_MASK ?u\<rparr>"
  have e: "first_byte get s = Return BZ_OK ?t" using p(1) True by (simp add: first_byte_def Let_def)
  have c1: "same_src (?s\<lparr>tPos := p\<rparr>) ?t"
    by (rule same_src_trans [OF same_src_trans [OF _ rand_src(2)]]) (simp_all add: same_src_def)
  have c2: "same_src s ?t" by (rule same_src_trans [OF same_src_trans [OF c] c1]) (simp add: same_src_def)
  have "blockRandomised ?t" using c2 True by (simp add: same_src_def)
  moreover have r: "(rNToGo ?u, rTPos ?u) = rand_state 1"
    unfolding RAND_UPD_step by (simp add: rand_state_def BZ_RAND_INIT_MASK_def)
  moreover have "k0 ?t = block_byte L ?t 0"
  proof -
    have "BZ_RAND_MASK ?u = rand_mask 0" using arg_cong [OF r, of fst] by (simp add: BZ_RAND_MASK_def rand_mask_def)
    moreover have "k0 ?u = walk_byte L s 0" using walk_byte_cong [OF c, of L 0] by (simp add: BZ_RAND_UPD_MASK_def Let_def)
    moreover have "block_byte L ?t 0 = walk_byte L s 0 XOR rand_mask 0"
      using block_byte_cong [OF c2, of L 0] True by (simp add: block_byte_def)
    ultimately show ?thesis by simp
  qed
  ultimately have "out_ready L ?t"
    using src_at_cong [OF c1, of L 1] p(2) d by (simp add: out_ready_def rand_src rand_frame)
  then show ?thesis using e c2 by blast
qed

lemma block_end_ready:
  assumes D: "data_ok s" and o: "0 \<le> origPtr s" "origPtr s < int (save_nblock (dsv s))"
    and b: "save_nblock (dsv s) \<le> 100000 * blockSize100k s" "blockSize100k s \<le> 9"
  shows "\<exists>s'. block_end s = Return BZ_OK s' \<and> out_ready (block_col s) s' \<and>
    smallDecompress s' = smallDecompress s \<and> save_nblock (dsv s') = save_nblock (dsv s) \<and> origPtr s' = origPtr s \<and>
    blockRandomised s' = blockRandomised s"
proof (cases "smallDecompress s")
  case True
  let ?t = "(reverse_pointers (invert_small (out_start s)))\<lparr>tPos := word_of_int (origPtr s)\<rparr>"
  obtain i j a l c where R: "reverse_pointers (invert_small (out_start s)) =
       upd_sv (\<lambda>sv. sv\<lparr>save_i := i, save_j := j\<rparr>) ((out_start s)\<lparr>ll16 := a, ll4 := l, cftabCopy := c\<rparr>)"
    and A: "src_at (block_col s) 0 ?t" using small_inverted [OF D o True b] by blast
  have "\<exists>s'. first_byte BZ_GET_SMALL ?t = Return BZ_OK s' \<and> out_ready (block_col s) s' \<and> same_src ?t s'"
    by (rule first_byte_ready [OF A]) (simp_all add: R True get_byte_def)
  then show ?thesis using block_end_data [OF D o] True by (auto simp: same_src_def R)
next
  case False
  let ?t = "(invert_fast (out_start s))\<lparr>tPos := drop_bit 8 (tt (invert_fast (out_start s)) (nat (origPtr s)))\<rparr>"
  obtain t c where R: "invert_fast (out_start s) = (out_start s)\<lparr>tt := t, cftab := c\<rparr>"
    and A: "src_at (block_col s) 0 ?t" using fast_inverted [OF D o False b] by blast
  have "\<exists>s'. first_byte BZ_GET_FAST ?t = Return BZ_OK s' \<and> out_ready (block_col s) s' \<and> same_src ?t s'"
    by (rule first_byte_ready [OF A]) (simp_all add: R False get_byte_def)
  then show ?thesis using block_end_data [OF D o] False by (auto simp: same_src_def R)
qed

end
