(* ===== verification/BlockData.thy ===== *)
theory BlockData
  imports BlockReady
begin

text \<open>
  While the symbols of a block are decoded, \<open>unzftab\<close> counts the bytes stored so far. With that, every
  call of \<open>BZ2_decompress\<close> that finishes a block leaves it ready for output.
\<close>

section \<open>Storing bytes\<close>

definition same_data :: "dstate \<Rightarrow> dstate \<Rightarrow> bool" where
  "same_data s s' \<longleftrightarrow> smallDecompress s' = smallDecompress s \<and> tt s' = tt s \<and> ll16 s' = ll16 s \<and>
     unzftab s' = unzftab s \<and> save_nblock (dsv s') = save_nblock (dsv s)"

lemma data_ok_same: "same_data s s' \<Longrightarrow> data_ok s' = data_ok s"
proof -
  assume a: "same_data s s'"
  then have "block_col s' = block_col s" by (auto simp: same_data_def block_col_def fun_eq_iff)
  then show ?thesis using a by (simp add: data_ok_def same_data_def)
qed

lemma data_ok_dsv [simp]: "save_nblock v = save_nblock (dsv s) \<Longrightarrow> data_ok (s\<lparr>dsv := v\<rparr>) = data_ok s"
  by (rule data_ok_same) (simp add: same_data_def)

lemma data_ok_fields [simp]: "data_ok (s\<lparr>bsLive := l\<rparr>) = data_ok s" "data_ok (s\<lparr>mtfa := m\<rparr>) = data_ok s"
  "data_ok (s\<lparr>dst := d\<rparr>) = data_ok s"
  by (rule data_ok_same; simp add: same_data_def)+

lemma fold_store: "fold (\<lambda>k f. f(n + k := x)) [0..<es] f = (\<lambda>j. if n \<le> j \<and> j < n + es then x else f j)"
  by (induction es) (auto simp: fun_eq_iff)

lemma cnt_stored: "cnt (\<lambda>j. if n \<le> j \<and> j < n + es then x else L j) (n + es) v = cnt L n v + (if v = x then es else 0)"
proof (induction es)
  case 0
  have "cnt (\<lambda>j. if n \<le> j \<and> j < n + 0 then x else L j) n v = cnt L n v" by (rule cnt_cong) simp
  then show ?case by simp
next
  case (Suc es)
  have "cnt (\<lambda>j. if n \<le> j \<and> j < n + Suc es then x else L j) (n + es) v =
      cnt (\<lambda>j. if n \<le> j \<and> j < n + es then x else L j) (n + es) v" by (rule cnt_cong) simp
  then show ?case using Suc by simp
qed

lemma unat_byte_up: "unat (ucast (b :: u8) :: u16) = unat b" "unat (ucast b :: u32) = unat b"
  using unsigned_less [of b, where ?'a = nat] by (simp_all add: unsigned_ucast_eq take_bit_nat_eq_self)

lemma block_col_store:
  "block_col (store_byte n es uc s) = (\<lambda>j. if n \<le> j \<and> j < n + es then unat uc else block_col s j)"
  by (auto simp: fun_eq_iff block_col_def store_byte_def fold_store unat_byte_up)

lemma store_byte_unzftab: "unzftab (store_byte n es uc s) = unzftab s"
  by (simp add: store_byte_def)

lemma data_ok_store:
  assumes D: "data_ok s" and n: "save_nblock (dsv s) = n"
    and u: "unzftab t = (unzftab s)(unat uc := unzftab s (unat uc) + int es)"
    and c: "block_col t = block_col (store_byte n es uc s)" "save_nblock (dsv t) = n + es"
  shows "data_ok t"
proof -
  have "block_col t j < 256" if "j < n + es" for j
    using that D n unsigned_less [of uc] by (auto simp: c block_col_store data_ok_def)
  moreover have "unzftab t v = int (cnt (block_col t) (n + es) v)" if "v < 256" for v
    using that D n unfolding c(1) block_col_store cnt_stored by (simp add: u data_ok_def)
  ultimately show ?thesis by (simp add: data_ok_def c)
qed

section \<open>Steps\<close>

text \<open>\<open>dst\<close> becomes \<open>BZ_X_OUTPUT\<close> only when the block is inverted.\<close>

definition live :: "dstate \<Rightarrow> bool" where
  "live s \<longleftrightarrow> data_ok s \<and> dst s \<noteq> BZ_X_OUTPUT"

lemma live_dsv [simp]: "save_nblock v = save_nblock (dsv s) \<Longrightarrow> live (s\<lparr>dsv := v\<rparr>) = live s"
  by (simp add: live_def)

lemma live_fields [simp]: "live (s\<lparr>bsLive := l\<rparr>) = live s" "live (s\<lparr>mtfa := m\<rparr>) = live s"
  by (simp_all add: live_def)

lemma live_dst: "live s \<Longrightarrow> dst s \<noteq> BZ_X_OUTPUT"
  by (simp add: live_def)

fun data_pc :: "pc \<Rightarrow> dstate \<Rightarrow> bool" where
  "data_pc (Label l) s \<longleftrightarrow> (36 \<le> l \<and> l \<le> 41 \<longrightarrow> data_ok s) \<and> (l = 38 \<or> l = 39 \<longrightarrow> -1 \<le> save_es (dsv s))"
| "data_pc MTF_LOOP s \<longleftrightarrow> live s"

fun data_after :: "outcome \<Rightarrow> bool" where
  "data_after (At pc s) \<longleftrightarrow> data_pc pc s"
| "data_after (Return r s) \<longleftrightarrow> (r = BZ_OK \<or> dst s = BZ_X_OUTPUT \<longrightarrow> r = BZ_OK \<and> (\<exists>L. out_ready L s))"
| "data_after (Fatal e) \<longleftrightarrow> True"

lemma data_mtf_begin:
  "live s \<Longrightarrow> (l = 38 \<longrightarrow> -1 \<le> save_es (dsv s)) \<Longrightarrow> l \<noteq> 39 \<Longrightarrow> data_after (mtf_begin l s)"
  by (auto simp: mtf_begin_def Let_def live_def)

lemma data_run_digit: "live s \<Longrightarrow> -1 \<le> save_es (dsv s) \<Longrightarrow> data_after (run_digit s)"
  unfolding run_digit_def Let_def
  by (auto intro!: data_mtf_begin dest: live_dst)

lemma block_col_store_cong: "block_col s' = block_col s \<Longrightarrow> block_col (store_byte n es uc s') = block_col (store_byte n es uc s)"
  by (simp add: block_col_store cong: if_cong)

lemma block_col_fields [simp]: "block_col (s\<lparr>dsv := v\<rparr>) = block_col s" "block_col (s\<lparr>unzftab := u\<rparr>) = block_col s"
  "block_col (s\<lparr>mtfa := m\<rparr>) = block_col s"
  by (simp_all add: fun_eq_iff block_col_def)

lemma store_byte_dst [simp]: "dst (store_byte n es uc s) = dst s"
  by (simp add: store_byte_def)

lemma data_run_end:
  assumes "live s" "-1 \<le> save_es (dsv s)"
  shows "data_after (run_end s)"
proof -
  obtain es where es: "save_es (dsv s) + 1 = int es" using assms(2) zero_le_imp_eq_int [of "save_es (dsv s) + 1"] by auto
  let ?n = "save_nblock (dsv s)" and ?uc = "seqToUnseq s (unat (mtfa s 0))"
  let ?u = "(unzftab s)(unat ?uc := unzftab s (unat ?uc) + int es)"
  let ?t = "store_byte ?n es ?uc ((upd_sv (\<lambda>sv. sv\<lparr>save_es := int es\<rparr>) s)\<lparr>unzftab := ?u\<rparr>)"
  have "data_ok (upd_sv (\<lambda>sv. sv\<lparr>save_nblock := ?n + es\<rparr>) ?t)"
    by (rule data_ok_store [of s, OF _ refl, where uc = ?uc and es = es])
      (use assms(1) in \<open>simp_all add: live_def store_byte_unzftab block_col_store cong: if_cong\<close>)
  then show ?thesis using live_dst [OF assms(1)] by (simp add: live_def run_end_def Let_def store_byte_fields es)
qed

lemma data_run_more: "live s \<Longrightarrow> -1 \<le> save_es (dsv s) \<Longrightarrow> data_after (run_more s)"
  by (simp add: run_more_def data_run_digit data_run_end)

lemma data_refill: "same_data s (fast_refill s)"
  by (simp add: fast_refill_def refill4_def same_data_def)

lemma live_refill [simp]: "live (fast_refill s) = live s"
  using data_ok_same [OF data_refill [of s]] by (simp add: live_def) (simp add: fast_refill_def refill4_def)

lemma data_next_symbol: "live s \<Longrightarrow> data_after (next_symbol s)"
  unfolding next_symbol_def Let_def by (auto intro!: data_mtf_begin split: option.split prod.split)

lemma data_literal:
  assumes "live s"
  shows "data_after (literal s)"
proof -
  let ?n = "save_nblock (dsv s)" and ?m = "mtf_front (save_nextSym (dsv s) - 1) (mtfa s)"
  let ?uc = "seqToUnseq s (unat (?m 0))"
  let ?t = "store_byte ?n 1 ?uc (s\<lparr>mtfa := ?m, unzftab := (unzftab s)(unat ?uc := unzftab s (unat ?uc) + 1)\<rparr>)"
  have "data_ok (upd_sv (\<lambda>sv. sv\<lparr>save_nblock := ?n + 1\<rparr>) ?t)"
    by (rule data_ok_store [of s, OF _ refl, where uc = ?uc and es = 1])
      (use assms in \<open>simp_all add: live_def store_byte_unzftab block_col_store cong: if_cong\<close>)
  then show ?thesis using live_dst [OF assms] by (simp add: live_def literal_def Let_def store_byte_fields data_next_symbol)
qed

lemma data_mtf_loop:
  assumes "live s" "loop_ok s"
  shows "data_after (mtf_loop s)"
proof -
  have "save_nblock (dsv s) \<le> 100000 * blockSize100k s" "blockSize100k s \<le> 9"
    using assms(2) by (auto simp: loop_ok_def sym_ok_def bs_ok_def)
  then have "data_after (block_end s)"
    using block_end_ready [of s] assms(1) by (cases "origPtr s < 0 \<or> origPtr s \<ge> int (save_nblock (dsv s))")
      (auto simp: block_end_def Let_def live_def)
  then show ?thesis using assms by (simp add: mtf_loop_def Let_def data_run_digit data_literal)
qed

lemma data_mtf_test:
  assumes "live s" "l2 = 39 \<longrightarrow> -1 \<le> save_es (dsv s)" "l2 \<noteq> 38"
    "\<And>s'. live s' \<Longrightarrow> save_es (dsv s') = save_es (dsv s) \<Longrightarrow> data_after (k s')"
  shows "data_after (mtf_test l2 k s)"
  using assms by (auto simp: mtf_test_def Let_def live_def)

lemma data_symbol_code:
  assumes "36 \<le> l" "l \<le> 41" "data_pc (Label l) s" "dst s \<noteq> BZ_X_OUTPUT"
  shows "data_after (symbol_code l v s)"
proof -
  have D: "live s" "l = 38 \<or> l = 39 \<longrightarrow> -1 \<le> save_es (dsv s)" using assms by (auto simp: live_def)
  have "data_after (mtf_first l2 (At MTF_LOOP) v s)" "data_after (mtf_next l2 (At MTF_LOOP) v s)" if "l2 < 38 \<or> 39 < l2" for l2
    unfolding mtf_first_def mtf_next_def using that D by (auto intro!: data_mtf_test)
  moreover have "data_after (mtf_first 39 run_more v s)" "data_after (mtf_next 39 run_more v s)" if "-1 \<le> save_es (dsv s)"
    unfolding mtf_first_def mtf_next_def using that D by (auto intro!: data_mtf_test data_run_more)
  ultimately show ?thesis using D assms(1,2) by (simp add: symbol_code_def)
qed

lemma data_ok_empty: "save_nblock (dsv s) = 0 \<Longrightarrow> (\<And>v. v < 256 \<Longrightarrow> unzftab s v = 0) \<Longrightarrow> data_ok s"
  by (simp add: data_ok_def)

lemma data_symbol_loop_init: "dst s \<noteq> BZ_X_OUTPUT \<Longrightarrow> data_after (symbol_loop_init s)"
  unfolding symbol_loop_init_def Let_def
  by (intro data_mtf_begin) (simp_all add: live_def data_ok_empty fold_zero del: set_upt)

section \<open>Every step\<close>

lemma dst_frame:
  "dst (makeMaps_d s) = dst s" "dst (build_groups s) = dst s" "dalloc s = (ok, s') \<Longrightarrow> dst s' = dst s"
proof -
  have "dst (fold (\<lambda>i s. if inUse s i
                 then s\<lparr>seqToUnseq := (seqToUnseq s)(nInUse s := word_of_nat i), nInUse := nInUse s + 1\<rparr> else s)
       [0..<k] (s\<lparr>nInUse := 0\<rparr>)) = dst s" for k
    by (induction k) auto
  then show "dst (makeMaps_d s) = dst s" by (simp add: makeMaps_d_def)
  show "dst (build_groups s) = dst s" by (simp add: build_groups_def Let_def)
  show "dalloc s = (ok, s') \<Longrightarrow> dst s' = dst s" by (auto simp: dalloc_def split: prod.splits)
qed

lemma data_table: "dst s \<noteq> BZ_X_OUTPUT \<Longrightarrow> data_after (table_code l v s)"
proof -
  assume d: "dst s \<noteq> BZ_X_OUTPUT"
  have outer: "data_after (mapping_outer i t)" if "dst t \<noteq> BZ_X_OUTPUT" for i t
    using that by (simp add: mapping_outer_def mapping_done_def Let_def dst_frame)
  have check: "data_after (coding_check t)" if "dst t \<noteq> BZ_X_OUTPUT" for t
    using that by (simp add: coding_check_def)
  have "data_after (coding_2 v s)" using check data_symbol_loop_init d by (simp add: coding_2_def Let_def dst_frame)
  moreover have "data_after (selector_3 v s)" using d by (simp add: selector_3_def selectors_done_def Let_def)
  moreover have "data_after (mapping_1 v s)" "data_after (mapping_2 v s)"
    using outer d by (simp_all add: mapping_1_def mapping_2_def Let_def)
  moreover have "data_after (selector_1 v s)" "data_after (selector_2 v s)"
    using d by (simp_all add: selector_1_def selector_2_def Let_def)
  moreover have "data_after (coding_1 v s)" "data_after (coding_3 v s)"
    using check d by (simp_all add: coding_1_def coding_3_def)
  ultimately show ?thesis unfolding table_code_def by presburger
qed

lemma data_header: "dst s \<noteq> BZ_X_OUTPUT \<Longrightarrow> data_after (header_code l v s)"
proof -
  assume d: "dst s \<noteq> BZ_X_OUTPUT"
  have "data_after (magic_4 u s)" for u
  proof -
    obtain ok s1 where a: "dalloc (s\<lparr>blockSize100k := u - 48\<rparr>) = (ok, s1)" by fastforce
    obtain ok' s2 where a': "dalloc s1 = (ok', s2)" by fastforce
    show ?thesis using d dst_frame(3) [OF a] dst_frame(3) [OF a'] by (simp add: magic_4_def Let_def a a')
  qed
  then show ?thesis using d
    by (simp add: header_code_def magic_byte_def blkhdr_1_def header_byte_def blkhdr_6_def bcrc_byte_def randbit_def
        origptr_byte_def origptr_3_def Let_def)
qed

lemma data_label_code: "dst s \<noteq> BZ_X_OUTPUT \<Longrightarrow> l \<le> 50 \<Longrightarrow> data_pc (Label l) s \<Longrightarrow> data_after (label_code l v s)"
  using data_header data_table [of s l v] data_symbol_code [of l s v]
  by (simp add: label_code_def trailer_code_def header_byte_def endhdr_6_def ccrc_shift_def ccrc_4_def)

text \<open>Reading bits leaves the block alone.\<close>

lemma same_input_data: "same_but_input s s' \<Longrightarrow> same_data s s' \<and> dsv s' = dsv s"
  by (auto simp: same_data_def dest!: same_but_input_eq)

lemma data_step:
  assumes I: "pc_inv pc s" and D: "data_pc pc s"
  shows "decompress_step pc s = At pc' s' \<Longrightarrow> data_pc pc' s'"
    "decompress_step pc s = Return r s' \<Longrightarrow> data_after (Return r s') \<or>
       r = BZ_OK \<and> dst s' \<noteq> BZ_X_OUTPUT \<and> data_pc (Label (dst s')) s'"
proof -
  have A: "data_after (decompress_step pc s) \<or>
      (\<exists>s'. decompress_step pc s = Return BZ_OK s' \<and> dst s' \<noteq> BZ_X_OUTPUT \<and> data_pc (Label (dst s')) s')"
  proof (cases pc)
    case MTF_LOOP
    then show ?thesis using data_mtf_loop I D by simp
  next
    case (Label l)
    have l: "\<not> (l < 10 \<or> 50 < l)" using I Label by (simp add: label_inv_def)
    obtain r s1 where g: "GET_BITS (label_bits l (s\<lparr>dst := l\<rparr>)) (s\<lparr>dst := l\<rparr>) = (r, s1)" by fastforce
    have b: "label_bits l (s\<lparr>dst := l\<rparr>) \<le> 24"
    proof -
      have "label_bits l s \<le> 24" using label_bits_pos [of l s] I Label by fastforce
      moreover have "label_bits l (s\<lparr>dst := l\<rparr>) = label_bits l s" by (simp add: label_bits_def)
      ultimately show ?thesis by simp
    qed
    have S: "same_but_input (s\<lparr>dst := l\<rparr>) s1"
      using GET_BITS_spec [OF g b] I Label by simp
    have D1: "data_pc (Label l) s1"
      using data_ok_same [of "s\<lparr>dst := l\<rparr>" s1] same_input_data [OF S] D Label by simp
    have d: "dst s1 = l" using same_but_input_eq [OF S] by auto
    show ?thesis
    proof (cases r)
      case None
      then show ?thesis using Label l g D1 d by simp
    next
      case (Some v)
      then have "decompress_step pc s = label_code l v s1" using Label l g by simp
      then show ?thesis using data_label_code [OF _ _ D1] l d by simp
    qed
  qed
  show "decompress_step pc s = At pc' s' \<Longrightarrow> data_pc pc' s'" using A by auto
  show "decompress_step pc s = Return r s' \<Longrightarrow> data_after (Return r s') \<or>
       r = BZ_OK \<and> dst s' \<noteq> BZ_X_OUTPUT \<and> data_pc (Label (dst s')) s'"
    using A by auto
qed

section \<open>Whole calls\<close>

lemma data_run:
  assumes "decompress_run pc s = Some (Return r s')" "pc_inv pc s" "data_pc pc s"
  shows "data_after (Return r s') \<or> r = BZ_OK \<and> dst s' \<noteq> BZ_X_OUTPUT \<and> data_pc (Label (dst s')) s'"
proof -
  have "pc_inv pc s \<longrightarrow> data_pc pc s \<longrightarrow>
      (\<forall>r s'. y = Return r s' \<longrightarrow> data_after (Return r s') \<or>
        r = BZ_OK \<and> dst s' \<noteq> BZ_X_OUTPUT \<and> data_pc (Label (dst s')) s')"
    if "decompress_run pc s = Some y" for y
  proof (rule decompress_run.raw_induct [OF _ that], intro impI allI)
    fix f pc s y r s'
    assume IH: "\<And>pc s y. f pc s = Some y \<Longrightarrow> pc_inv pc s \<longrightarrow> data_pc pc s \<longrightarrow>
        (\<forall>r s'. y = Return r s' \<longrightarrow> data_after (Return r s') \<or>
        r = BZ_OK \<and> dst s' \<noteq> BZ_X_OUTPUT \<and> data_pc (Label (dst s')) s')"
      and f: "(case decompress_step pc s of At pc' s' \<Rightarrow> f pc' s' | r \<Rightarrow> Some r) = Some y"
      and I: "pc_inv pc s" and D: "data_pc pc s" and y: "y = Return r s'"
    show "data_after (Return r s') \<or> r = BZ_OK \<and> dst s' \<noteq> BZ_X_OUTPUT \<and> data_pc (Label (dst s')) s'"
    proof (cases "decompress_step pc s")
      case (At pc' s'')
      then show ?thesis using IH [of pc' s'' y] f step_inv [OF I At] data_step(1) [OF I D At] y by simp
    next
      case (Return r0 s0)
      then show ?thesis using f y data_step(2) [OF I D] by simp
    qed (use f y in auto)
  qed
  then show ?thesis using assms by blast
qed

text \<open>What a call may rely on, and what it leaves: the invariant with the stored bytes counted.\<close>

definition dec_ready :: "dstate \<Rightarrow> bool" where
  "dec_ready s \<longleftrightarrow> dcall_ok s \<and> data_pc (Label (dst s)) s"

lemma BZ2_decompress_data:
  assumes "dec_ready s" "BZ2_decompress s = Some (Return r s')"
  shows "r \<noteq> BZ_STREAM_END \<Longrightarrow> dst s' = BZ_X_OUTPUT \<Longrightarrow> r = BZ_OK \<and> (\<exists>L. out_ready L s')"
    "r = BZ_OK \<Longrightarrow> dst s' \<noteq> BZ_X_OUTPUT \<Longrightarrow> data_pc (Label (dst s')) s'"
proof -
  define t where "t = (if dst s = BZ_X_MAGIC_1 then s\<lparr>dsv := dsave_zero\<rparr> else s)"
  have t: "dst t = dst s" by (simp add: t_def)
  have I: "pc_inv (Label (dst t)) t" "data_pc (Label (dst t)) t"
    using assms(1) by (auto simp: t_def dec_ready_def dcall_ok_def label_inv_def)
  obtain r0 s1 where R: "decompress_run (Label (dst t)) t = Some (Return r0 s1)"
    using decompress_run_total [OF I(1)] by blast
  have "BZ2_decompress s = Some (Return r0 (if r0 = BZ_STREAM_END then return_excess s1 else s1))"
    using R by (simp add: BZ2_decompress_def Let_def flip: t_def)
  then have e: "r0 = r" "s' = (if r = BZ_STREAM_END then return_excess s1 else s1)" using assms(2) by auto
  have A: "data_after (Return r s1) \<or> r = BZ_OK \<and> dst s1 \<noteq> BZ_X_OUTPUT \<and> data_pc (Label (dst s1)) s1"
    by (rule data_run [OF R [unfolded e(1)] I])
  show "r \<noteq> BZ_STREAM_END \<Longrightarrow> dst s' = BZ_X_OUTPUT \<Longrightarrow> r = BZ_OK \<and> (\<exists>L. out_ready L s')"
    using A e by auto
  show "r = BZ_OK \<Longrightarrow> dst s' \<noteq> BZ_X_OUTPUT \<Longrightarrow> data_pc (Label (dst s')) s'"
    using A e by (auto simp: out_ready_def)
qed

end
