(* ===== verification/CrcPclmul.thy ===== *)
theory CrcPclmul
  imports Crc
begin

text \<open>
  The carry-less multiplication CRC of \<^verbatim>\<open>src/crc32_pclmul.c\<close> and the dispatch of
  \<open>BZ2_crc32_update\<close>. SSE registers are 128-bit words, and each intrinsic is the function its
  documentation gives. \<open>rsum n v\<close> is the remainder modulo the generator polynomial of the polynomial whose
  coefficients are the lowest \<open>n\<close> bits of \<open>v\<close>; folding, reducing and Barrett's method are
  identities about it.
\<close>

type_synonym m128 = "128 word"

section \<open>The intrinsics\<close>

text \<open>Byte 0 of a register is the least significant one.\<close>

definition of_bytes :: "u8 list \<Rightarrow> m128" where
  "of_bytes bs = foldr (\<lambda>b acc. push_bit 8 acc OR ucast b) bs 0"

definition mm_loadu_si128 :: "u8 list \<Rightarrow> m128" where
  "mm_loadu_si128 p = of_bytes (take 16 p)"

definition mm_byte :: "m128 \<Rightarrow> nat \<Rightarrow> u8" where
  "mm_byte x k = ucast (drop_bit (8 * k) x)"

definition mm_shuffle_epi8 :: "m128 \<Rightarrow> m128 \<Rightarrow> m128" where
  "mm_shuffle_epi8 a m =
     of_bytes (map (\<lambda>k. if bit (mm_byte m k) 7 then 0 else mm_byte a (unat (mm_byte m k AND 15))) [0..<16])"

definition mm_set_epi64x :: "u64 \<Rightarrow> u64 \<Rightarrow> m128" where
  "mm_set_epi64x e1 e0 = push_bit 64 (ucast e1) OR ucast e0"

definition mm_srli_si128 :: "m128 \<Rightarrow> nat \<Rightarrow> m128" where
  "mm_srli_si128 a n = drop_bit (8 * n) a"

definition mm_slli_si128 :: "m128 \<Rightarrow> nat \<Rightarrow> m128" where
  "mm_slli_si128 a n = push_bit (8 * n) a"

text \<open>The carry-less product of the lowest \<open>n\<close> bits of \<open>a\<close> with \<open>b\<close>.\<close>

primrec clmul :: "nat \<Rightarrow> m128 \<Rightarrow> m128 \<Rightarrow> m128" where
  "clmul 0 a b = 0"
| "clmul (Suc n) a b = clmul n a b XOR (if bit a n then push_bit n b else 0)"

definition mm_clmulepi64_si128 :: "m128 \<Rightarrow> m128 \<Rightarrow> nat \<Rightarrow> m128" where
  "mm_clmulepi64_si128 a b imm =
     clmul 64 (take_bit 64 (if bit imm 0 then drop_bit 64 a else a))
              (take_bit 64 (if bit imm 4 then drop_bit 64 b else b))"

section \<open>Folding and reducing\<close>

definition K_FOLD4_HI :: u64 where "K_FOLD4_HI = 0x08833794C"
definition K_FOLD4_LO :: u64 where "K_FOLD4_LO = 0x0E6228B11"
definition K_FOLD1_HI :: u64 where "K_FOLD1_HI = 0x0C5B9CD4C"
definition K_FOLD1_LO :: u64 where "K_FOLD1_LO = 0x0E8A45605"
definition K_REDUCE_64 :: u64 where "K_REDUCE_64 = 0x0490D678D"
definition K_BARRETT_MU :: u64 where "K_BARRETT_MU = 0x104D101DF"
definition K_BARRETT_P :: u64 where "K_BARRETT_P = 0x104C11DB7"
definition K_X32_MOD_P :: u64 where "K_X32_MOD_P = 0x004C11DB7"

definition bswap_mask_data :: "u8 list" where
  "bswap_mask_data = [15, 14, 13, 12, 11, 10, 9, 8, 7, 6, 5, 4, 3, 2, 1, 0]"

definition fold_128 :: "m128 \<Rightarrow> m128 \<Rightarrow> m128 \<Rightarrow> m128" where
  "fold_128 data old k = data XOR (mm_clmulepi64_si128 old k 0x00 XOR mm_clmulepi64_si128 old k 0x11)"

definition barrett_reduce :: "m128 \<Rightarrow> u32" where
  "barrett_reduce x =
     (let mu_v = mm_set_epi64x 0 K_BARRETT_MU; p_v = mm_set_epi64x 0 K_BARRETT_P;
          t = mm_srli_si128 x 4; t = t AND mask 32;
          q = mm_clmulepi64_si128 t mu_v 0x00; q = mm_srli_si128 q 4;
          t2 = mm_clmulepi64_si128 q p_v 0x00; result = x XOR t2
      in ucast result)"

text \<open>A 16-byte block, its first byte in the most significant place.\<close>

definition load_block :: "u8 list \<Rightarrow> m128" where
  "load_block p = mm_shuffle_epi8 (mm_loadu_si128 p) (mm_loadu_si128 bswap_mask_data)"

function fold4_loop :: "m128 \<times> m128 \<times> m128 \<times> m128 \<Rightarrow> u8 list \<Rightarrow> (m128 \<times> m128 \<times> m128 \<times> m128) \<times> u8 list" where
  "fold4_loop (x0, x1, x2, x3) p =
     (if 64 \<le> length p then
        let y0 = load_block p; y1 = load_block (drop 16 p); y2 = load_block (drop 32 p);
            y3 = load_block (drop 48 p); k = mm_set_epi64x K_FOLD4_HI K_FOLD4_LO
        in fold4_loop (fold_128 y0 x0 k, fold_128 y1 x1 k, fold_128 y2 x2 k, fold_128 y3 x3 k) (drop 64 p)
      else ((x0, x1, x2, x3), p))"
  by pat_completeness auto
termination by (relation "measure (\<lambda>(x, p). length p)") auto

function fold1_loop :: "m128 \<Rightarrow> u8 list \<Rightarrow> m128 \<times> u8 list" where
  "fold1_loop x0 p =
     (if 16 \<le> length p
      then fold1_loop (fold_128 (load_block p) x0 (mm_set_epi64x K_FOLD1_HI K_FOLD1_LO)) (drop 16 p)
      else (x0, p))"
  by pat_completeness auto
termination by (relation "measure (\<lambda>(x, p). length p)") auto

declare fold4_loop.simps [simp del] fold1_loop.simps [simp del]

text \<open>From 128 to 64 bits in two steps, then Barrett twice.\<close>

definition reduce_96 :: "m128 \<Rightarrow> m128" where
  "reduce_96 x0 =
     (let hi = mm_srli_si128 x0 8; folded = mm_clmulepi64_si128 hi (mm_set_epi64x 0 K_REDUCE_64) 0x00
      in (x0 AND mask 64) XOR folded)"

definition reduce_64 :: "m128 \<Rightarrow> m128" where
  "reduce_64 x0 =
     (let hi32 = mm_srli_si128 x0 8; hi32 = hi32 AND mask 32;
          folded = mm_clmulepi64_si128 hi32 (mm_set_epi64x 0 K_REDUCE_64) 0x00;
          lo64 = x0 AND mask 64
      in lo64 XOR folded)"

definition reduce_final :: "m128 \<Rightarrow> u32" where
  "reduce_final x0 =
     (let crc_v_mod_p = barrett_reduce (reduce_64 (reduce_96 x0));
          product = mm_clmulepi64_si128 (ucast crc_v_mod_p) (mm_set_epi64x 0 K_X32_MOD_P) 0x00
      in barrett_reduce product)"

definition crc32_pclmul :: "u32 \<Rightarrow> u8 list \<Rightarrow> u32" where
  "crc32_pclmul crc_msb buf =
     (let x0 = load_block buf; x1 = load_block (drop 16 buf); x2 = load_block (drop 32 buf);
          x3 = load_block (drop 48 buf); p = drop 64 buf;
          x0 = x0 XOR mm_slli_si128 (ucast crc_msb) 12;
          ((x0, x1, x2, x3), p) = fold4_loop (x0, x1, x2, x3) p;
          k_fold1 = mm_set_epi64x K_FOLD1_HI K_FOLD1_LO;
          x0 = fold_128 x1 x0 k_fold1; x0 = fold_128 x2 x0 k_fold1; x0 = fold_128 x3 x0 k_fold1;
          (x0, p) = fold1_loop x0 p
      in crc_tail (reduce_final x0) p)"

text \<open>\<open>pclmul\<close>: whether the build defines \<open>__PCLMUL__\<close>. \<open>addr\<close> is the address of \<open>buf\<close>.\<close>

definition BZ2_crc32_update :: "bool \<Rightarrow> nat \<Rightarrow> u32 \<Rightarrow> u8 list \<Rightarrow> u32" where
  "BZ2_crc32_update pclmul addr crc buf =
     (if pclmul \<and> 64 \<le> length buf then crc32_pclmul crc buf else crc32_update_soft addr crc buf)"

section \<open>Remainders\<close>

definition xpow :: "nat \<Rightarrow> u32" where
  "xpow n = (crc_bit ^^ n) 1"

primrec rsum :: "nat \<Rightarrow> 'a::len word \<Rightarrow> u32" where
  "rsum 0 v = 0"
| "rsum (Suc n) v = (if bit v n then xpow n else 0) XOR rsum n v"

lemma crc_bits_add: "(crc_bit ^^ m) ((crc_bit ^^ n) x) = (crc_bit ^^ (m + n)) x"
  by (simp add: funpow_add)

lemma crc_bits_xpow: "(crc_bit ^^ m) (xpow n) = xpow (m + n)"
  by (simp add: xpow_def crc_bits_add)

lemma rsum_xor: "rsum n (v XOR w) = rsum n v XOR rsum n w"
  by (induction n) (auto simp: bit_xor_iff ac_simps)

lemma rsum_cong: "(\<And>i. i < n \<Longrightarrow> bit v i = bit w i) \<Longrightarrow> rsum n v = rsum n w"
  by (induction n) auto

lemma rsum_0 [simp]: "rsum n 0 = 0"
  by (induction n) auto

lemma rsum_split: "rsum (m + n) v = (crc_bit ^^ n) (rsum m (drop_bit n v)) XOR rsum n v"
  by (induction m) (auto simp: crc_bits_xor crc_bits_xpow bit_drop_bit_eq ac_simps)

lemma rsum_high: "n \<le> m \<Longrightarrow> (\<And>i. n \<le> i \<Longrightarrow> i < m \<Longrightarrow> \<not> bit v i) \<Longrightarrow> rsum m v = rsum n v"
  by (induction m rule: dec_induct) auto

lemma rsum_push:
  fixes v :: "'a::len word"
  assumes "n + k \<le> LENGTH('a)"
  shows "rsum (n + k) (push_bit k v) = (crc_bit ^^ k) (rsum n v)"
proof -
  have "rsum n (drop_bit k (push_bit k v)) = rsum n v"
    by (rule rsum_cong) (use assms in \<open>simp add: bit_drop_bit_eq bit_push_bit_iff\<close>)
  moreover have "rsum k (push_bit k v) = rsum 0 (push_bit k v)"
    by (rule rsum_high) (simp_all add: bit_push_bit_iff)
  ultimately show ?thesis by (simp add: rsum_split)
qed

lemma xpow_low: "n < 32 \<Longrightarrow> xpow n = push_bit n 1"
  unfolding xpow_def by (rule crc_bits_low) (auto simp: bit_1_iff)

lemma rsum_small: "n \<le> 32 \<Longrightarrow> rsum n (v :: u32) = take_bit n v"
proof (induction n)
  case (Suc n)
  have "(if bit v n then push_bit n 1 else 0) XOR take_bit n v = take_bit (Suc n) v"
    by (rule bit_word_eqI) (auto simp: bit_simps less_Suc_eq)
  then show ?case using Suc by (auto simp: xpow_low simp del: push_bit_of_1 split: if_splits)
qed simp

lemma rsum_u32: "rsum 32 (v :: u32) = v"
  by (simp add: rsum_small take_bit_word_eq_self)

section \<open>Carry-less products\<close>

lemma bit_clmul_above: "(\<And>i. q \<le> i \<Longrightarrow> \<not> bit b i) \<Longrightarrow> n + q \<le> Suc i \<Longrightarrow> \<not> bit (clmul n a b) i"
  by (induction n) (auto simp: bit_xor_iff bit_push_bit_iff)

lemma rsum_clmul:
  assumes "n \<le> 64" and "\<And>i. 64 \<le> i \<Longrightarrow> \<not> bit b i" and k: "rsum 64 b = xpow k"
  shows "rsum 128 (clmul n a b) = (crc_bit ^^ k) (rsum n a)"
  using assms(1)
proof (induction n)
  case (Suc n)
  have "rsum 128 (push_bit n b) = rsum (64 + n) (push_bit n b)"
    by (rule rsum_high) (use Suc.prems assms(2) in \<open>auto simp: bit_push_bit_iff\<close>)
  also have "\<dots> = (crc_bit ^^ n) (rsum 64 b)" by (rule rsum_push) (use Suc.prems in simp)
  also have "\<dots> = (crc_bit ^^ k) (xpow n)" by (simp add: k crc_bits_xpow add.commute)
  finally show ?case using Suc by (simp add: rsum_xor crc_bits_xor xor.commute)
qed simp

lemma rsum_mm_clmul:
  assumes "rsum 64 (if bit imm 4 then drop_bit 64 b else b) = xpow k"
  shows "rsum 128 (mm_clmulepi64_si128 a b imm) =
    (crc_bit ^^ k) (rsum 64 (if bit imm 0 then drop_bit 64 a else a))"
proof -
  have t: "rsum 64 (take_bit 64 v) = rsum 64 v" for v :: m128
    by (rule rsum_cong) (simp add: bit_take_bit_iff)
  show ?thesis
    unfolding mm_clmulepi64_si128_def
    by (subst rsum_clmul [where k = k]) (use assms in \<open>simp_all add: t bit_take_bit_iff\<close>)
qed

lemma set_epi64x_halves:
  "rsum 64 (mm_set_epi64x e1 e0) = rsum 64 e0" "rsum 64 (drop_bit 64 (mm_set_epi64x e1 e0)) = rsum 64 e1"
  unfolding mm_set_epi64x_def
  by (rule rsum_cong, auto simp: bit_simps dest: bit_imp_le_length)+

text \<open>The constants are powers of \<open>x\<close>.\<close>

lemma rsum_const:
  assumes "e = ucast (c :: u32)"
  shows "rsum 64 (e :: u64) = c"
proof -
  have "rsum 64 e = rsum 32 e"
    by (rule rsum_high) (auto simp: assms bit_simps dest: bit_imp_le_length)
  also have "\<dots> = rsum 32 c" by (rule rsum_cong) (simp add: assms bit_simps)
  finally show ?thesis by (simp add: rsum_u32)
qed

definition crc_zero_64 :: "u32 \<Rightarrow> u32" where
  "crc_zero_64 c = crc_zero_byte (crc_zero_byte (crc_zero_byte (crc_zero_byte
     (crc_zero_byte (crc_zero_byte (crc_zero_byte (crc_zero_byte c)))))))"

lemma xpow_step: "xpow (n + 64) = crc_zero_64 (xpow n)"
  by (simp add: crc_zero_64_def crc_zero_byte_eq crc_bits_xpow add.commute)

lemmas crc_zero_eval = crc_zero_64_def crc_zero_byte_def crc_bit_def

lemma xpow_32: "xpow 32 = 0x04C11DB7"
  using crc_bits_xpow [of 1 31] by (simp add: xpow_low crc_bit_def)

lemma xpow_64: "xpow 64 = 0x490D678D"
  using xpow_step [of 0] by (simp add: xpow_def crc_zero_eval)

lemma xpow_128: "xpow 128 = 0xE8A45605"
  using xpow_step [of 64] by (simp add: xpow_64 crc_zero_eval)

lemma xpow_192: "xpow 192 = 0xC5B9CD4C"
  using xpow_step [of 128] by (simp add: xpow_128 crc_zero_eval)

lemma xpow_256: "xpow 256 = 0x75BE46B7"
  using xpow_step [of 192] by (simp add: xpow_192 crc_zero_eval)

lemma xpow_320: "xpow 320 = 0x569700E5"
  using xpow_step [of 256] by (simp add: xpow_256 crc_zero_eval)

lemma xpow_384: "xpow 384 = 0x8C3828A8"
  using xpow_step [of 320] by (simp add: xpow_320 crc_zero_eval)

lemma xpow_448: "xpow 448 = 0x64BF7A9B"
  using xpow_step [of 384] by (simp add: xpow_384 crc_zero_eval)

lemma xpow_512: "xpow 512 = 0xE6228B11"
  using xpow_step [of 448] by (simp add: xpow_448 crc_zero_eval)

lemma xpow_576: "xpow 576 = 0x8833794C"
  using xpow_step [of 512] by (simp add: xpow_512 crc_zero_eval)


section \<open>Barrett's reduction\<close>

lemma clmul_xor: "clmul n (a XOR b) c = clmul n a c XOR clmul n b c"
  by (induction n) (auto simp: bit_xor_iff ac_simps)

lemma clmul_below: "(\<And>i. i < n \<Longrightarrow> \<not> bit a i) \<Longrightarrow> clmul n a b = 0"
  by (induction n) auto

lemma clmul_high: "p \<le> n \<Longrightarrow> (\<And>i. p \<le> i \<Longrightarrow> \<not> bit a i) \<Longrightarrow> clmul n a b = clmul p a b"
  by (induction n rule: dec_induct) auto

lemma clmul_single: "k < n \<Longrightarrow> n \<le> 128 \<Longrightarrow> clmul n (push_bit k 1) b = push_bit k b"
proof (induction n)
  case (Suc n)
  have [simp]: "bit (push_bit k 1 :: m128) n \<longleftrightarrow> n = k" using Suc.prems by (auto simp: bit_simps)
  show ?case
  proof (cases "k = n")
    case True
    have "clmul n (push_bit k 1) b = 0" by (rule clmul_below) (use True in \<open>auto simp: bit_simps\<close>)
    then show ?thesis unfolding clmul.simps(2) \<open>bit (push_bit k 1) n \<longleftrightarrow> n = k\<close> using True by simp
  next
    case False
    then show ?thesis using Suc by (simp del: push_bit_of_1)
  qed
qed simp

lemma clmul_push: "clmul (Suc n) (push_bit 1 q) b = push_bit 1 (clmul n q b)" if "n < 127"
  using that
proof (induction n)
  case (Suc n)
  have b: "bit (push_bit 1 q) (Suc n) = bit q n"
    using Suc.prems by (simp add: bit_push_bit_iff del: push_bit_Suc One_nat_def)
  have "clmul (Suc n) (push_bit 1 q) b = push_bit 1 (clmul n q b)" using Suc by simp
  then show ?case unfolding clmul.simps(2) [of "Suc n"] clmul.simps(2) [of n q] b
    by (simp add: push_bit_xor push_bit_push_bit del: push_bit_Suc One_nat_def flip: Suc_eq_plus1_left)
qed (simp add: bit_push_bit_iff del: push_bit_Suc One_nat_def)

definition mu :: m128 where
  "mu = 0x104D101DF"

definition poly :: m128 where
  "poly = 0x104C11DB7"

lemma ucast_poly: "(ucast poly :: u32) = 0x04C11DB7"
  by (simp add: poly_def)

text \<open>What the quotient contributes, as a function of the high word.\<close>

definition barrett_high :: "m128 \<Rightarrow> u32" where
  "barrett_high t = ucast (clmul 64 (take_bit 64 (drop_bit 32 (clmul 64 (take_bit 64 t) mu))) poly)"

lemma barrett_reduce_alt: "barrett_reduce x = ucast x XOR barrett_high (take_bit 32 (drop_bit 32 x))"
proof -
  have c: "take_bit 64 (mm_set_epi64x 0 K_BARRETT_MU) = mu"
    "take_bit 64 (mm_set_epi64x 0 K_BARRETT_P) = poly"
    by (simp_all add: mm_set_epi64x_def K_BARRETT_MU_def K_BARRETT_P_def mu_def poly_def)
  have u: "ucast (x XOR y) = (ucast x XOR ucast y :: u32)" for y
    by (rule bit_word_eqI) (simp add: bit_simps)
  show ?thesis
    by (simp add: barrett_reduce_def mm_clmulepi64_si128_def mm_srli_si128_def c u barrett_high_def
        flip: take_bit_eq_mask)
qed

lemma barrett_high_xor: "barrett_high (a XOR b) = barrett_high a XOR barrett_high b"
proof -
  have u: "ucast (x XOR y) = (ucast x XOR ucast y :: u32)" for x y :: m128
    by (rule bit_word_eqI) (simp add: bit_simps)
  show ?thesis by (simp add: barrett_high_def clmul_xor u)
qed

text \<open>The bits of the constant \<open>mu\<close> are the quotient bits of the long division of \<open>x\<^sup>6\<^sup>4\<close>.\<close>

primrec quotient_bits :: "u32 \<Rightarrow> bool list \<Rightarrow> bool" where
  "quotient_bits c [] = True"
| "quotient_bits c (e # es) \<longleftrightarrow> bit c 31 = e \<and> quotient_bits (crc_bit c) es"

lemma quotient_bits_nth: "quotient_bits c es \<Longrightarrow> n < length es \<Longrightarrow> bit ((crc_bit ^^ n) c) 31 = es ! n"
proof (induction es arbitrary: c n)
  case (Cons e es)
  then show ?case by (cases n) (simp_all add: funpow_swap1)
qed simp

lemma mu_bits: "n < 31 \<Longrightarrow> bit mu (31 - n) = bit ((crc_bit ^^ n) 0x04C11DB7) 31"
proof -
  assume n: "n < 31"
  have "quotient_bits 0x04C11DB7 (map (\<lambda>n. bit mu (31 - n)) [0..<31])"
    by (simp add: upt_rec crc_bit_def mu_def)
  from quotient_bits_nth [OF this, of n] n show ?thesis by simp
qed

lemma mu_less: "\<not> bit mu i" if "33 \<le> i"
proof -
  have "mu = take_bit 33 mu" by (simp add: mu_def)
  then have "bit mu i = bit (take_bit 33 mu) i" by simp
  then show ?thesis using that by (simp add: bit_take_bit_iff)
qed

lemma mu_shift:
  assumes "n < 31"
  shows "drop_bit 32 (push_bit (Suc n) mu) =
    push_bit 1 (drop_bit 32 (push_bit n mu)) XOR (if bit mu (31 - n) then 1 else 0)" (is "?l = ?r")
proof (rule bit_word_eqI)
  fix i assume "i < LENGTH(128)"
  show "bit ?l i = bit ?r i"
  proof (cases i)
    case 0
    then show ?thesis using assms by (simp add: bit_simps del: push_bit_Suc One_nat_def)
  next
    case (Suc j)
    have "32 + j - n = 32 + Suc j - Suc n" by simp
    moreover have "\<not> bit mu (32 + j - n)" if "95 \<le> j" using that assms by (intro mu_less) simp
    ultimately show ?thesis using assms Suc \<open>i < LENGTH(128)\<close>
      by (cases "95 \<le> j") (auto simp: bit_simps simp del: push_bit_Suc One_nat_def)
  qed
qed

lemma barrett_high_single:
  assumes "n < 32"
  shows "barrett_high (push_bit n 1) = (crc_bit ^^ n) 0x04C11DB7"
proof -
  have t: "take_bit 64 (push_bit n 1 :: m128) = push_bit n 1"
    using assms by (intro bit_word_eqI) (auto simp: bit_simps)
  have small: "take_bit 64 (drop_bit 32 (push_bit n mu)) = drop_bit 32 (push_bit n mu)"
  proof (rule bit_word_eqI)
    fix i
    have "\<not> bit mu (32 + i - n)" if "64 \<le> i" using that assms by (intro mu_less) simp
    then show "bit (take_bit 64 (drop_bit 32 (push_bit n mu))) i = bit (drop_bit 32 (push_bit n mu)) i"
      using assms by (cases "i < 64") (simp_all add: bit_simps)
  qed
  have "(ucast (clmul 64 (drop_bit 32 (push_bit n mu)) poly) :: u32) = (crc_bit ^^ n) 0x04C11DB7"
    using assms
  proof (induction n)
    case 0
    have "clmul 64 1 poly = poly" using clmul_single [of 0 64] by simp
    then show ?case by (simp add: mu_def ucast_poly)
  next
    case (Suc n)
    let ?q = "drop_bit 32 (push_bit n mu)" and ?P = "poly"
    have q: "\<not> bit ?q 63" using Suc.prems mu_less [of "95 - n"] by (simp add: bit_simps del: push_bit_Suc One_nat_def)
    have "clmul 64 ?q ?P = clmul 63 ?q ?P" using clmul.simps(2) [of 63 ?q] q by simp
    then have c: "clmul 64 (push_bit 1 ?q) ?P = push_bit 1 (clmul 64 ?q ?P)"
      using clmul_push [of 63 ?q ?P] by simp
    have one: "clmul 64 1 ?P = ?P" using clmul_single [of 0 64] by simp
    have "(ucast (clmul 64 (drop_bit 32 (push_bit (Suc n) mu)) ?P) :: u32) =
        push_bit 1 (ucast (clmul 64 ?q ?P)) XOR (if bit mu (31 - n) then 0x04C11DB7 else 0)"
    proof -
      have u: "ucast (push_bit 1 x XOR y) = (push_bit 1 (ucast x) XOR ucast y :: u32)" for x y :: m128
        by (rule bit_word_eqI) (auto simp: bit_simps simp del: push_bit_Suc One_nat_def)
      have "clmul 64 0 ?P = 0" by (rule clmul_below) simp
      then show ?thesis using Suc.prems mu_shift [of n]
        by (simp add: clmul_xor c one u ucast_poly del: push_bit_Suc One_nat_def push_bit_of_1)
    qed
    then show ?case
      using Suc mu_bits [of n] crc_bit_def [of "(crc_bit ^^ n) 0x04C11DB7"]
      by (simp del: push_bit_Suc One_nat_def)
  qed
  then show ?thesis using assms clmul_single [of n 64 mu] by (simp add: barrett_high_def t small del: push_bit_of_1)
qed


lemma barrett_high_eq: "n \<le> 32 \<Longrightarrow> barrett_high (take_bit n t) = (crc_bit ^^ 32) (rsum n t)"
proof (induction n)
  case 0
  have "clmul n 0 b = 0" for n b by (rule clmul_below) simp
  then show ?case by (simp add: barrett_high_def)
next
  case (Suc n)
  have "take_bit (Suc n) t = (if bit t n then push_bit n 1 else 0) XOR take_bit n t"
    using Suc.prems by (intro bit_word_eqI) (auto simp: bit_simps less_Suc_eq)
  moreover have "barrett_high 0 = 0" using barrett_high_xor [of 0 0] by simp
  moreover have "(crc_bit ^^ n) 0x04C11DB7 = (crc_bit ^^ 32) (xpow n)"
    using xpow_32 by (simp add: crc_bits_xpow add.commute flip: crc_bits_xpow [of n 32])
  ultimately show ?case
    using Suc barrett_high_single [of n] by (simp add: barrett_high_xor crc_bits_xor del: push_bit_of_1)
qed

lemma barrett_reduce_eq: "barrett_reduce x = rsum 64 x"
proof -
  have "rsum 32 x = rsum 32 (ucast x :: u32)" by (rule rsum_cong) (simp add: bit_simps)
  then have "ucast x = rsum 32 x" by (simp add: rsum_u32)
  then show ?thesis
    using rsum_split [of 32 32 x] barrett_high_eq [of 32 "drop_bit 32 x"]
    by (simp add: barrett_reduce_alt xor.commute)
qed

section \<open>The folds\<close>

lemma fold_128_eq:
  assumes "rsum 64 k0 = xpow m" "rsum 64 k1 = xpow (m + 64)"
  shows "rsum 128 (fold_128 d x (mm_set_epi64x k1 k0)) = rsum 128 d XOR (crc_bit ^^ m) (rsum 128 x)"
proof -
  have "rsum 128 (mm_clmulepi64_si128 x (mm_set_epi64x k1 k0) 0x00) = (crc_bit ^^ m) (rsum 64 x)"
    by (subst rsum_mm_clmul [where k = m]) (simp_all add: set_epi64x_halves assms)
  moreover have "rsum 128 (mm_clmulepi64_si128 x (mm_set_epi64x k1 k0) 0x11) =
      (crc_bit ^^ (m + 64)) (rsum 64 (drop_bit 64 x))"
    by (subst rsum_mm_clmul [where k = "m + 64"]) (simp_all add: set_epi64x_halves assms bit_simps bit_numeral_rec)
  ultimately show ?thesis
    using rsum_split [of 64 64 x]
    by (simp add: fold_128_def rsum_xor crc_bits_xor crc_bits_add ac_simps)
qed

lemma fold_constants:
  "rsum 64 K_FOLD4_LO = xpow 512" "rsum 64 K_FOLD4_HI = xpow (512 + 64)"
  "rsum 64 K_FOLD1_LO = xpow 128" "rsum 64 K_FOLD1_HI = xpow (128 + 64)"
  "rsum 64 K_REDUCE_64 = xpow 64" "rsum 64 K_X32_MOD_P = xpow 32"
  by (simp_all add: rsum_const [where c = "0xE6228B11"] rsum_const [where c = "0x8833794C"]
      rsum_const [where c = "0xE8A45605"] rsum_const [where c = "0xC5B9CD4C"]
      rsum_const [where c = "0x490D678D"] rsum_const [where c = "0x04C11DB7"]
      K_FOLD4_LO_def K_FOLD4_HI_def K_FOLD1_LO_def K_FOLD1_HI_def K_REDUCE_64_def K_X32_MOD_P_def
      xpow_512 xpow_576 xpow_128 xpow_192 xpow_64 xpow_32)


section \<open>The last reductions\<close>

lemma rsum_mm_clmul_lo:
  assumes "rsum 64 k0 = xpow k"
  shows "rsum 128 (mm_clmulepi64_si128 a (mm_set_epi64x 0 k0) 0) = (crc_bit ^^ k) (rsum 64 a)"
  by (subst rsum_mm_clmul [where k = k]) (simp_all add: set_epi64x_halves assms)

lemma rsum_take: "m \<le> n \<Longrightarrow> rsum m (v AND mask n) = rsum m v"
  by (rule rsum_cong) (auto simp: bit_simps dest: bit_imp_le_length)

lemma rsum_take_all:
  assumes "n \<le> m"
  shows "rsum m (v AND mask n) = rsum n v"
proof -
  have "rsum m (v AND mask n) = rsum n (v AND mask n)"
    by (rule rsum_high) (use assms in \<open>auto simp: bit_simps\<close>)
  then show ?thesis by (simp add: rsum_take)
qed

lemma rsum_reduce_96: "rsum 128 (reduce_96 x) = rsum 128 x"
  using rsum_split [of 64 64 x]
  by (simp add: reduce_96_def mm_srli_si128_def rsum_xor rsum_take_all rsum_mm_clmul_lo fold_constants xor.commute)

text \<open>The constants have at most 32 bits, so products lose none.\<close>

lemma mm_clmul_lo_bits:
  assumes "\<And>i. p \<le> i \<Longrightarrow> \<not> bit a i" and "k0 = ucast (c :: u32)" and "p \<le> 64" and "p + 32 \<le> Suc i"
  shows "\<not> bit (mm_clmulepi64_si128 a (mm_set_epi64x 0 k0) 0) i"
proof -
  let ?a = "take_bit 64 a" and ?b = "take_bit 64 (mm_set_epi64x 0 k0)"
  have "clmul 64 ?a ?b = clmul p ?a ?b"
    by (rule clmul_high) (use assms(1,3) in \<open>auto simp: bit_simps\<close>)
  moreover have "\<not> bit ?b j" if "32 \<le> j" for j
    using that bit_imp_le_length [of c j] by (auto simp: mm_set_epi64x_def assms(2) bit_simps)
  ultimately show ?thesis using bit_clmul_above [of 32 ?b p i ?a] assms(4)
    by (simp add: mm_clmulepi64_si128_def)
qed


lemma K_small: "K_REDUCE_64 = ucast (0x490D678D :: u32)" "K_X32_MOD_P = ucast (0x04C11DB7 :: u32)"
  by (simp_all add: K_REDUCE_64_def K_X32_MOD_P_def)

lemma reduce_96_bits: "\<not> bit (reduce_96 x) i" if "96 \<le> i"
proof -
  have "\<not> bit (mm_clmulepi64_si128 (drop_bit 64 x) (mm_set_epi64x 0 K_REDUCE_64) 0) i"
    by (rule mm_clmul_lo_bits [OF _ K_small(1), where p = 64])
      (use that in \<open>auto simp: bit_simps dest: bit_imp_le_length\<close>)
  then show ?thesis using that by (simp add: reduce_96_def mm_srli_si128_def bit_simps)
qed

lemma rsum_reduce_64: "rsum 64 (reduce_64 x) = rsum 96 x"
proof -
  let ?f = "mm_clmulepi64_si128 (drop_bit 64 x AND mask 32) (mm_set_epi64x 0 K_REDUCE_64) 0"
  have "rsum 128 ?f = rsum 64 ?f"
  proof (rule rsum_high)
    fix i assume "(64::nat) \<le> i"
    then show "\<not> bit ?f i"
      by (intro mm_clmul_lo_bits [OF _ K_small(1), where p = 32]) (auto simp: bit_simps)
  qed simp
  then have "rsum 64 ?f = (crc_bit ^^ 64) (rsum 32 (drop_bit 64 x))"
    using rsum_mm_clmul_lo [OF fold_constants(5), of "drop_bit 64 x AND mask 32"] by (simp add: rsum_take_all)
  then show ?thesis
    using rsum_split [of 32 64 x]
    by (simp add: reduce_64_def mm_srli_si128_def rsum_xor rsum_take xor.commute)
qed

lemma reduce_final_eq: "reduce_final x = (crc_bit ^^ 32) (rsum 128 x)"
proof -
  have r: "barrett_reduce (reduce_64 (reduce_96 x)) = rsum 128 x" (is "?v = _")
  proof -
    have "rsum 96 (reduce_96 x) = rsum 128 (reduce_96 x)"
      by (rule rsum_high [symmetric]) (use reduce_96_bits in auto)
    then show ?thesis by (simp add: barrett_reduce_eq rsum_reduce_64 rsum_reduce_96)
  qed
  have u: "rsum 64 (ucast v :: m128) = v" for v :: u32
  proof -
    have "rsum 64 (ucast v :: m128) = rsum 32 (ucast v :: m128)"
      by (rule rsum_high) (auto simp: bit_simps dest: bit_imp_le_length)
    also have "\<dots> = rsum 32 v" by (rule rsum_cong) (simp add: bit_simps)
    finally show ?thesis by (simp add: rsum_u32)
  qed
  let ?f = "mm_clmulepi64_si128 (ucast ?v) (mm_set_epi64x 0 K_X32_MOD_P) 0"
  have "rsum 128 ?f = rsum 64 ?f"
  proof (rule rsum_high)
    fix i assume "(64::nat) \<le> i"
    then show "\<not> bit ?f i"
      by (intro mm_clmul_lo_bits [OF _ K_small(2), where p = 32])
        (auto simp: bit_simps dest: bit_imp_le_length)
  qed simp
  then have "rsum 64 ?f = (crc_bit ^^ 32) ?v" using rsum_mm_clmul_lo [OF fold_constants(6)] u by simp
  then show ?thesis using r by (simp add: reduce_final_def Let_def barrett_reduce_eq)
qed

section \<open>The message\<close>

definition rbytes :: "u8 list \<Rightarrow> u32" where
  "rbytes bs = foldl (\<lambda>c b. (crc_bit ^^ 8) c XOR ucast b) 0 bs"

lemma crc_bytes_rbytes:
  "crc_bytes c bs = (crc_bit ^^ (8 * length bs)) c XOR (crc_bit ^^ 32) (rbytes bs)"
proof (induction bs rule: rev_induct)
  case (snoc b bs)
  have "push_bit 24 (ucast b) = (crc_bit ^^ 24) (ucast b)"
    using crc_bits_shift [of 24 0 b] by simp
  then have "(crc_bit ^^ 8) (push_bit 24 (ucast b)) = (crc_bit ^^ 32) (ucast b)" by (simp add: crc_bits_add)
  moreover have "8 + 8 * length bs = 8 * length (bs @ [b])" by simp
  ultimately show ?case
    using snoc by (simp add: crc_bytes_append crc_bytes_Cons crc_byte_def rbytes_def crc_bits_xor crc_bits_add
        add.commute [of 32] xor.assoc)
qed (simp add: rbytes_def)

lemma rsum_u8: "rsum 8 (b :: u8) = ucast b"
proof -
  have "rsum 8 b = rsum 8 (ucast b :: u32)" by (rule rsum_cong) (simp add: bit_simps)
  also have "\<dots> = ucast b" by (simp add: rsum_small) (rule bit_word_eqI, auto simp: bit_simps dest: bit_imp_le_length)
  finally show ?thesis .
qed

lemma of_bytes_simps [simp]:
  "of_bytes [] = 0" "of_bytes (b # bs) = push_bit 8 (of_bytes bs) OR ucast b"
  by (simp_all add: of_bytes_def)

lemma rsum_of_bytes: "length bs \<le> 16 \<Longrightarrow> rsum (8 * length bs) (of_bytes bs) = rbytes (rev bs)"
proof (induction bs)
  case (Cons b bs)
  let ?n = "8 * length bs" and ?w = "of_bytes (b # bs)"
  have "rsum (?n + 8) ?w = (crc_bit ^^ 8) (rsum ?n (drop_bit 8 ?w)) XOR rsum 8 ?w" by (rule rsum_split)
  moreover have "rsum ?n (drop_bit 8 ?w) = rsum ?n (of_bytes bs)"
    by (rule rsum_cong) (use Cons.prems in \<open>auto simp: bit_simps dest: bit_imp_le_length\<close>)
  moreover have "rsum 8 ?w = rsum 8 b" by (rule rsum_cong) (simp add: bit_simps)
  ultimately show ?case using Cons by (simp add: rbytes_def rsum_u8 add.commute)
qed (simp add: rbytes_def)

lemma mm_byte_of_bytes: "k < length bs \<Longrightarrow> length bs \<le> 16 \<Longrightarrow> mm_byte (of_bytes bs) k = bs ! k"
proof (induction bs arbitrary: k)
  case (Cons b bs)
  show ?case
  proof (cases k)
    case 0
    then show ?thesis by (intro bit_word_eqI) (auto simp: mm_byte_def bit_simps)
  next
    case (Suc j)
    have "mm_byte (of_bytes (b # bs)) (Suc j) = mm_byte (of_bytes bs) j"
    proof (rule bit_word_eqI)
      fix i assume i: "i < LENGTH(8)"
      have "\<not> bit b (8 + 8 * j + i)" using bit_imp_le_length [of b "8 + 8 * j + i"] by auto
      then show "bit (mm_byte (of_bytes (b # bs)) (Suc j)) i = bit (mm_byte (of_bytes bs) j) i"
        using i Suc Cons.prems by (auto simp: mm_byte_def bit_simps)
    qed
    then show ?thesis using Cons Suc by simp
  qed
qed simp

lemma load_block_eq:
  assumes "16 \<le> length p"
  shows "load_block p = of_bytes (rev (take 16 p))"
proof -
  let ?m = "mm_loadu_si128 bswap_mask_data"
  have m: "mm_byte ?m k = bswap_mask_data ! k" if "k < 16" for k
    using that mm_byte_of_bytes [of k bswap_mask_data] by (simp add: mm_loadu_si128_def bswap_mask_data_def)
  have "(if bit (mm_byte ?m k) 7 then 0 else mm_byte (mm_loadu_si128 p) (unat (mm_byte ?m k AND 15))) = p ! (15 - k)"
    if k: "k < 16" for k
  proof -
    have "list_all (\<lambda>k. \<not> bit (bswap_mask_data ! k) 7 \<and> unat (bswap_mask_data ! k AND 15) = 15 - k) [0..<16]"
      by (simp add: upt_rec bswap_mask_data_def)
    then have "\<not> bit (mm_byte ?m k) 7" "unat (mm_byte ?m k AND 15) = 15 - k"
      using m [OF k] k by (simp_all add: list_all_iff)
    then show ?thesis
      using mm_byte_of_bytes [of "15 - k" "take 16 p"] assms k by (simp add: mm_loadu_si128_def)
  qed
  then have "map (\<lambda>k. if bit (mm_byte ?m k) 7 then 0 else mm_byte (mm_loadu_si128 p) (unat (mm_byte ?m k AND 15))) [0..<16]
      = map (\<lambda>k. p ! (15 - k)) [0..<16]"
    by (intro map_cong) auto
  also have "\<dots> = rev (take 16 p)"
    by (rule nth_equalityI) (use assms in \<open>auto simp: rev_nth\<close>)
  finally show ?thesis by (simp only: load_block_def mm_shuffle_epi8_def)
qed

lemma rsum_load_block: "16 \<le> length p \<Longrightarrow> rsum 128 (load_block p) = rbytes (take 16 p)"
  using rsum_of_bytes [of "rev (take 16 p)"] by (simp add: load_block_eq)

lemma rbytes_append: "rbytes (xs @ ys) = (crc_bit ^^ (8 * length ys)) (rbytes xs) XOR rbytes ys"
proof (induction ys rule: rev_induct)
  case (snoc y ys)
  have "8 + 8 * length ys = 8 * length (ys @ [y])" by simp
  moreover have "rbytes (zs @ [y]) = (crc_bit ^^ 8) (rbytes zs) XOR ucast y" for zs by (simp add: rbytes_def)
  ultimately show ?case
    using snoc by (simp add: crc_bits_xor crc_bits_add xor.assoc flip: append_assoc)
qed (simp add: rbytes_def)

section \<open>The loops\<close>

text \<open>The polynomial that the four accumulators hold.\<close>

fun acc4 :: "m128 \<times> m128 \<times> m128 \<times> m128 \<Rightarrow> u32" where
  "acc4 (x0, x1, x2, x3) = (crc_bit ^^ 384) (rsum 128 x0) XOR (crc_bit ^^ 256) (rsum 128 x1) XOR
     (crc_bit ^^ 128) (rsum 128 x2) XOR rsum 128 x3"

lemma take_64:
  assumes "64 \<le> length (p :: 'a list)"
  shows "take 64 p = take 16 p @ take 16 (drop 16 p) @ take 16 (drop 32 p) @ take 16 (drop 48 p)"
  using take_add [of 16 48 p] take_add [of 16 32 "drop 16 p"] take_add [of 16 16 "drop 32 p"] by simp

lemma rbytes_64:
  assumes "64 \<le> length p"
  shows "rbytes (take 64 p) = (crc_bit ^^ 384) (rbytes (take 16 p)) XOR (crc_bit ^^ 256) (rbytes (take 16 (drop 16 p)))
    XOR (crc_bit ^^ 128) (rbytes (take 16 (drop 32 p))) XOR rbytes (take 16 (drop 48 p))"
  using assms by (simp only: take_64 rbytes_append) (simp add: crc_bits_xor crc_bits_add xor.assoc)

lemma fold4_loop_acc:
  "fold4_loop x p = (x', p') \<Longrightarrow> crc_bytes ((crc_bit ^^ 32) (acc4 x)) p = crc_bytes ((crc_bit ^^ 32) (acc4 x')) p'
     \<and> length p' < 64"
proof (induction x p rule: fold4_loop.induct)
  case (1 x0 x1 x2 x3 p)
  let ?k = "mm_set_epi64x K_FOLD4_HI K_FOLD4_LO"
  let ?y = "(fold_128 (load_block p) x0 ?k, fold_128 (load_block (drop 16 p)) x1 ?k,
    fold_128 (load_block (drop 32 p)) x2 ?k, fold_128 (load_block (drop 48 p)) x3 ?k)"
  show ?case
  proof (cases "64 \<le> length p")
    case True
    have "acc4 ?y = (crc_bit ^^ 512) (acc4 (x0, x1, x2, x3)) XOR rbytes (take 64 p)"
      using True by (simp add: fold_128_eq [OF fold_constants(1,2)] rsum_load_block rbytes_64
          crc_bits_xor crc_bits_add add.commute ac_simps)
    then have "(crc_bit ^^ 32) (acc4 ?y) = crc_bytes ((crc_bit ^^ 32) (acc4 (x0, x1, x2, x3))) (take 64 p)"
      using True by (simp add: crc_bytes_rbytes crc_bits_xor crc_bits_add add.commute)
    then have "crc_bytes ((crc_bit ^^ 32) (acc4 ?y)) (drop 64 p) = crc_bytes ((crc_bit ^^ 32) (acc4 (x0, x1, x2, x3))) p"
      by (simp flip: crc_bytes_append)
    moreover have "fold4_loop ?y (drop 64 p) = (x', p')"
      using "1.prems" True by (simp add: fold4_loop.simps [of x0 x1 x2 x3 p] Let_def)
    ultimately show ?thesis using "1.IH" [OF True refl refl refl refl refl] by simp
  qed (use "1.prems" in \<open>simp add: fold4_loop.simps [of x0 x1 x2 x3 p]\<close>)
qed

lemma fold1_loop_acc:
  "fold1_loop x p = (x', p') \<Longrightarrow>
     crc_bytes ((crc_bit ^^ 32) (rsum 128 x)) p = crc_bytes ((crc_bit ^^ 32) (rsum 128 x')) p'"
proof (induction x p rule: fold1_loop.induct)
  case (1 x p)
  let ?y = "fold_128 (load_block p) x (mm_set_epi64x K_FOLD1_HI K_FOLD1_LO)"
  show ?case
  proof (cases "16 \<le> length p")
    case True
    have "(crc_bit ^^ 32) (rsum 128 ?y) = crc_bytes ((crc_bit ^^ 32) (rsum 128 x)) (take 16 p)"
      using True by (simp add: fold_128_eq [OF fold_constants(3,4)] rsum_load_block crc_bytes_rbytes
          crc_bits_xor crc_bits_add add.commute xor.commute)
    then have "crc_bytes ((crc_bit ^^ 32) (rsum 128 ?y)) (drop 16 p) = crc_bytes ((crc_bit ^^ 32) (rsum 128 x)) p"
      by (simp flip: crc_bytes_append)
    then show ?thesis using 1 True by (simp add: fold1_loop.simps [of x p])
  qed (use "1.prems" in \<open>simp add: fold1_loop.simps [of x p]\<close>)
qed

lemma crc32_pclmul_eq:
  assumes "64 \<le> length buf"
  shows "crc32_pclmul crc buf = crc_bytes crc buf"
proof -
  let ?x0 = "load_block buf XOR mm_slli_si128 (ucast crc) 12" and ?x1 = "load_block (drop 16 buf)"
    and ?x2 = "load_block (drop 32 buf)" and ?x3 = "load_block (drop 48 buf)"
    and ?k = "mm_set_epi64x K_FOLD1_HI K_FOLD1_LO"
  obtain y0 y1 y2 y3 p where f4: "fold4_loop (?x0, ?x1, ?x2, ?x3) (drop 64 buf) = ((y0, y1, y2, y3), p)"
    by (metis prod_cases4 surj_pair)
  let ?z = "fold_128 y3 (fold_128 y2 (fold_128 y1 y0 ?k) ?k) ?k"
  obtain x' p' where f1: "fold1_loop ?z p = (x', p')" by fastforce
  have "rsum 128 (push_bit 96 (ucast crc :: m128)) = (crc_bit ^^ 96) (rsum 32 (ucast crc :: m128))"
    using rsum_push [of 32 96 "ucast crc :: m128"] by simp
  also have "rsum 32 (ucast crc :: m128) = rsum 32 crc" by (rule rsum_cong) (simp add: bit_simps)
  finally have "rsum 128 ?x0 = rbytes (take 16 buf) XOR (crc_bit ^^ 96) crc"
    using assms by (simp add: rsum_xor rsum_load_block mm_slli_si128_def rsum_u32)
  then have "(crc_bit ^^ 32) (acc4 (?x0, ?x1, ?x2, ?x3)) = crc_bytes crc (take 64 buf)"
    using assms by (simp add: rsum_load_block rbytes_64 crc_bytes_rbytes crc_bits_xor crc_bits_add ac_simps)
  moreover have "acc4 (y0, y1, y2, y3) = rsum 128 ?z"
    by (simp add: fold_128_eq [OF fold_constants(3,4)] crc_bits_xor crc_bits_add ac_simps)
  ultimately have "crc_bytes crc buf = crc_bytes ((crc_bit ^^ 32) (rsum 128 ?z)) p"
    using fold4_loop_acc [OF f4] crc_bytes_append [of crc "take 64 buf" "drop 64 buf"] by simp
  then have "crc_bytes crc buf = crc_bytes ((crc_bit ^^ 32) (rsum 128 x')) p'"
    using fold1_loop_acc [OF f1] by simp
  then show ?thesis
    by (simp add: crc32_pclmul_def Let_def f4 f1 crc_tail_eq reduce_final_eq)
qed

lemma BZ2_crc32_update_eq: "BZ2_crc32_update pclmul addr crc buf = crc_bytes crc buf"
  by (simp add: BZ2_crc32_update_def crc32_pclmul_eq crc32_update_soft_eq)

section \<open>Properties\<close>

text \<open>C6: the carry-less multiplication CRC (four-way folding, the reductions to 96 and 64 bits, Barrett's
  reduction with the constants of the file, and the byte-wise tail) computes exactly what the portable
  slicing-by-eight update computes, for every register, every alignment and every buffer of the 64 bytes
  or more it is called on.\<close>

theorem pclmul_crc_eq_portable_crc:
  assumes "64 \<le> length buf"
  shows "crc32_pclmul crc buf = crc32_update_soft addr crc buf"
  using assms by (simp add: crc32_pclmul_eq crc32_update_soft_eq)

theorem pclmul_crc_eq_portable_crc_witness:
  "crc32_pclmul 0xffffffff (replicate 100 0x61) = crc32_update_soft 3 0xffffffff (replicate 100 0x61)"
  by (rule pclmul_crc_eq_portable_crc) simp

end
