(* ===== verification/Output.thy ===== *)
theory Output
  imports BlockData CrcPclmul
begin

text \<open>
  The output stage of the decompressor, \<open>unRLE_obuf_to_output_FAST\<close> and \<open>unRLE_obuf_to_output_SMALL\<close> of
  \<^verbatim>\<open>src/bzlib.c\<close>: the bytes of the block are fetched one by one, and their run-length coding is undone
  into the caller's buffer, which may fill up at any byte.

  \<open>outst\<close> holds the fields these loops work on. The fast loop keeps them in locals (\<open>c_\<close>, \<open>cs_\<close>) and
  writes them back at \<open>return_notr\<close> only; the others work on the state itself. \<open>'p\<close> is what the next
  fetch depends on: \<open>tPos\<close>, with the position in the randomisation table for a randomised block.
  \<open>Int32\<close> counters are \<open>nat\<close>: \<open>o_len\<close> is at most 259 and \<open>o_used\<close> at most 900002.
\<close>

section \<open>State\<close>

record 'p outst =
  o_ch :: u8
  o_len :: nat
  o_used :: nat
  o_k0 :: u8
  o_pos :: 'p
  o_crc :: u32
  o_buf :: "u8 list"
  o_avail :: nat
  o_lo :: u32
  o_hi :: u32

definition load_out :: "(dstate \<Rightarrow> 'p) \<Rightarrow> dstate \<Rightarrow> 'p outst" where
  "load_out pos s = \<lparr>o_ch = state_out_ch s, o_len = state_out_len s, o_used = nblock_used s, o_k0 = k0 s, o_pos = pos s,
     o_crc = calculatedBlockCRC s, o_buf = out_buf (dstrm s), o_avail = avail_out (dstrm s),
     o_lo = total_out_lo32 (dstrm s), o_hi = total_out_hi32 (dstrm s)\<rparr>"

definition store_out :: "('p \<Rightarrow> dstate \<Rightarrow> dstate) \<Rightarrow> 'p outst \<Rightarrow> dstate \<Rightarrow> dstate" where
  "store_out set_pos x s = (set_pos (o_pos x) s)\<lparr>state_out_ch := o_ch x, state_out_len := o_len x, nblock_used := o_used x,
     k0 := o_k0 x, calculatedBlockCRC := o_crc x,
     dstrm := (dstrm s)\<lparr>out_buf := o_buf x, avail_out := o_avail x, total_out_lo32 := o_lo x, total_out_hi32 := o_hi x\<rparr>\<rparr>"

section \<open>Fetching\<close>

definition plain_get :: "(dstate \<Rightarrow> (u8 \<times> dstate) option) \<Rightarrow> dstate \<Rightarrow> u32 \<Rightarrow> (u8 \<times> u32) option" where
  "plain_get get s p = (case get (s\<lparr>tPos := p\<rparr>) of None \<Rightarrow> None | Some (b, s') \<Rightarrow> Some (b, tPos s'))"

definition BZ_GET_FAST_C :: "(nat \<Rightarrow> u32) \<Rightarrow> nat \<Rightarrow> u32 \<Rightarrow> (u8 \<times> u32) option" where
  "BZ_GET_FAST_C c_tt ro_blockSize100k c_tPos =
     (if c_tPos \<ge> 100000 * word_of_nat ro_blockSize100k then None
      else let t = c_tt (unat c_tPos) in Some (ucast (t AND 0xff), drop_bit 8 t))"

text \<open>The randomised variants: \<open>BZ_RAND_UPD_MASK\<close>, then \<open>XOR\<close> with \<open>BZ_RAND_MASK\<close>.\<close>

type_synonym rpos = "u32 \<times> nat \<times> nat"

definition rand_pos :: "dstate \<Rightarrow> rpos" where
  "rand_pos s = (tPos s, rNToGo s, rTPos s)"

definition set_rand_pos :: "rpos \<Rightarrow> dstate \<Rightarrow> dstate" where
  "set_rand_pos p s = (case p of (t, g, r) \<Rightarrow> s\<lparr>tPos := t, rNToGo := g, rTPos := r\<rparr>)"

definition rand_get :: "(dstate \<Rightarrow> (u8 \<times> dstate) option) \<Rightarrow> dstate \<Rightarrow> rpos \<Rightarrow> (u8 \<times> rpos) option" where
  "rand_get get s p =
     (case get (set_rand_pos p s) of
        None \<Rightarrow> None
      | Some (b, s') \<Rightarrow> let s' = BZ_RAND_UPD_MASK s' in Some (b XOR BZ_RAND_MASK s', rand_pos s'))"

definition next_byte :: "('p \<Rightarrow> (u8 \<times> 'p) option) \<Rightarrow> 'p outst \<Rightarrow> (u8 \<times> 'p outst) option" where
  "next_byte get x =
     (case get (o_pos x) of
        None \<Rightarrow> None
      | Some (b, p) \<Rightarrow> Some (b, x\<lparr>o_pos := p, o_used := o_used x + 1\<rparr>))"

section \<open>One run\<close>

text \<open>
  The second to the fourth byte, the count, and the first byte behind it. The result says whether a
  macro returned \<open>True\<close>.
\<close>

definition fetch_count :: "('p \<Rightarrow> (u8 \<times> 'p) option) \<Rightarrow> 'p outst \<Rightarrow> bool \<times> 'p outst" where
  "fetch_count get x =
     (case next_byte get x of
        None \<Rightarrow> (True, x)
      | Some (k1, x) \<Rightarrow>
          let x = x\<lparr>o_len := unat k1 + 4\<rparr>
          in case next_byte get x of None \<Rightarrow> (True, x) | Some (b, x) \<Rightarrow> (False, x\<lparr>o_k0 := b\<rparr>))"

definition fetch_third :: "('p \<Rightarrow> (u8 \<times> 'p) option) \<Rightarrow> nat \<Rightarrow> 'p outst \<Rightarrow> bool \<times> 'p outst" where
  "fetch_third get pp x0 =
     (let x = x0\<lparr>o_len := 3\<rparr>
      in case next_byte get x of
           None \<Rightarrow> (True, x)
         | Some (k1, x) \<Rightarrow>
             if o_used x = pp then (False, x)
             else if k1 \<noteq> o_k0 x then (False, x\<lparr>o_k0 := k1\<rparr>)
             else fetch_count get x)"

definition fetch_rest :: "('p \<Rightarrow> (u8 \<times> 'p) option) \<Rightarrow> nat \<Rightarrow> 'p outst \<Rightarrow> bool \<times> 'p outst" where
  "fetch_rest get pp x0 =
     (let x = x0\<lparr>o_len := 2\<rparr>
      in case next_byte get x of
           None \<Rightarrow> (True, x)
         | Some (k1, x) \<Rightarrow>
             if o_used x = pp then (False, x)
             else if k1 \<noteq> o_k0 x then (False, x\<lparr>o_k0 := k1\<rparr>)
             else fetch_third get pp x)"

definition fetch_run :: "('p \<Rightarrow> (u8 \<times> 'p) option) \<Rightarrow> nat \<Rightarrow> 'p outst \<Rightarrow> bool \<times> 'p outst" where
  "fetch_run get pp x0 =
     (let x = x0\<lparr>o_len := 1, o_ch := o_k0 x0\<rparr>
      in case next_byte get x of
           None \<Rightarrow> (True, x)
         | Some (k1, x) \<Rightarrow>
             if o_used x = pp then (False, x)
             else if k1 \<noteq> o_k0 x then (False, x\<lparr>o_k0 := k1\<rparr>)
             else fetch_rest get pp x)"

section \<open>The loop over single bytes\<close>

definition put_byte :: "'p outst \<Rightarrow> 'p outst" where
  "put_byte x =
     (let lo = o_lo x + 1
      in x\<lparr>o_buf := o_buf x @ [o_ch x], o_crc := BZ_UPDATE_CRC (o_crc x) (o_ch x), o_len := o_len x - 1,
          o_avail := o_avail x - 1, o_lo := lo, o_hi := (if lo = 0 then o_hi x + 1 else o_hi x)\<rparr>)"

function drain :: "'p outst \<Rightarrow> 'p outst" where
  "drain x = (if o_avail x = 0 \<or> o_len x = 0 then x else drain (put_byte x))"
  by pat_completeness auto
termination by (relation "measure o_avail") (auto simp: put_byte_def Let_def)

declare drain.simps [simp del]

lemma fetch_frame:
  "fetch_count get x = (c, y) \<Longrightarrow> o_avail y = o_avail x \<and> (\<not> c \<longrightarrow> 1 \<le> o_len y)"
  "fetch_third get pp x = (c, y) \<Longrightarrow> o_avail y = o_avail x \<and> (\<not> c \<longrightarrow> 1 \<le> o_len y)"
  "fetch_rest get pp x = (c, y) \<Longrightarrow> o_avail y = o_avail x \<and> (\<not> c \<longrightarrow> 1 \<le> o_len y)"
  "fetch_run get pp x = (c, y) \<Longrightarrow> o_avail y = o_avail x \<and> (\<not> c \<longrightarrow> 1 \<le> o_len y)"
proof -
  show C: "fetch_count get x = (c, y) \<Longrightarrow> o_avail y = o_avail x \<and> (\<not> c \<longrightarrow> 1 \<le> o_len y)" for x c y
    by (auto simp: fetch_count_def next_byte_def Let_def split: option.splits)
  show T: "fetch_third get pp x = (c, y) \<Longrightarrow> o_avail y = o_avail x \<and> (\<not> c \<longrightarrow> 1 \<le> o_len y)" for x c y
    using C by (fastforce simp: fetch_third_def next_byte_def Let_def split: option.splits if_splits)
  show R: "fetch_rest get pp x = (c, y) \<Longrightarrow> o_avail y = o_avail x \<and> (\<not> c \<longrightarrow> 1 \<le> o_len y)" for x c y
    using T by (fastforce simp: fetch_rest_def next_byte_def Let_def split: option.splits if_splits)
  show "fetch_run get pp x = (c, y) \<Longrightarrow> o_avail y = o_avail x \<and> (\<not> c \<longrightarrow> 1 \<le> o_len y)"
    using R by (fastforce simp: fetch_run_def next_byte_def Let_def split: option.splits if_splits)
qed

lemma drain_le:
  "o_avail (drain x) \<le> o_avail x"
  "0 < o_len x \<Longrightarrow> 0 < o_avail x \<Longrightarrow> o_avail (drain x) < o_avail x"
proof -
  show l: "o_avail (drain x) \<le> o_avail x" for x :: "'a outst"
    by (induction x rule: drain.induct) (subst drain.simps, auto simp: put_byte_def Let_def)
  assume "0 < o_len x" "0 < o_avail x"
  then show "o_avail (drain x) < o_avail x"
    using l [of "put_byte x"] by (subst drain.simps) (auto simp: put_byte_def Let_def)
qed

function unRLE_plain :: "('p \<Rightarrow> (u8 \<times> 'p) option) \<Rightarrow> nat \<Rightarrow> 'p outst \<Rightarrow> bool \<times> 'p outst" where
  "unRLE_plain get pp x0 =
     (let x = drain x0
      in if o_avail x = 0 then (False, x)
         else if o_used x = pp then (False, x)
         else if o_used x > pp then (True, x)
         else case fetch_run get pp x of
                (True, x) \<Rightarrow> (True, x)
              | (False, x) \<Rightarrow> unRLE_plain get pp x)"
  by pat_completeness auto
termination
proof (relation "measure (\<lambda>(get, pp, x). 2 * o_avail x + of_bool (o_len x = 0))", goal_cases)
  case (2 get pp x0 x c y)
  then have "o_avail y = o_avail (drain x0)" "1 \<le> o_len y" using fetch_frame(4) [of get pp x c y] by auto
  then show ?case using 2 drain_le [of x0] by (cases "o_len x0 = 0") auto
qed simp

section \<open>The fast loop\<close>

text \<open>
  The build (\<open>pclmul\<close>) and the address of each byte of output select the path inside
  \<open>BZ2_crc32_update\<close>. \<open>batch\<close> is entered with a positive length only, where \<open>\<le> 1\<close> is \<open>== 1\<close>.
\<close>

record cpu =
  pclmul :: bool
  addr :: "nat \<Rightarrow> nat"

definition put_run :: "cpu \<Rightarrow> 'p outst \<Rightarrow> 'p outst" where
  "put_run m x =
     (let n = o_len x - 1; n = (if n > o_avail x then o_avail x else n)
      in x\<lparr>o_buf := o_buf x @ replicate n (o_ch x),
          o_crc := BZ2_crc32_update (pclmul m) (addr m (length (o_buf x))) (o_crc x) (replicate n (o_ch x)),
          o_avail := o_avail x - n, o_len := o_len x - n\<rparr>)"

function batch :: "cpu \<Rightarrow> 'p outst \<Rightarrow> 'p outst" where
  "batch m x = (if o_avail x = 0 \<or> o_len x \<le> 1 then x else batch m (put_run m x))"
  by pat_completeness auto
termination by (relation "measure (\<lambda>(m, x). o_avail x)") (auto simp: put_run_def Let_def)

declare batch.simps [simp del]

text \<open>The label \<open>s_state_out_len_eq_one\<close>: \<open>Inl\<close> goes to \<open>return_notr\<close>.\<close>

definition eq_one :: "'p outst \<Rightarrow> 'p outst + 'p outst" where
  "eq_one x =
     (if o_avail x = 0 then Inl (x\<lparr>o_len := 1\<rparr>)
      else Inr (x\<lparr>o_buf := o_buf x @ [o_ch x], o_crc := BZ_UPDATE_CRC (o_crc x) (o_ch x), o_avail := o_avail x - 1\<rparr>))"

definition fast_emit :: "cpu \<Rightarrow> bool \<Rightarrow> 'p outst \<Rightarrow> 'p outst + 'p outst" where
  "fast_emit m eq1 x0 =
     (if eq1 then eq_one x0
      else if o_len x0 > 0 then
        let x = batch m x0 in if o_avail x = 0 then Inl x else eq_one x
      else Inr x0)"

text \<open>The rest of the body: return, with the verdict, or go round, at the label or at the top.\<close>

datatype 'p fast_next = Stop bool "'p outst" | Again bool "'p outst"

definition fast_fetch :: "('p \<Rightarrow> (u8 \<times> 'p) option) \<Rightarrow> nat \<Rightarrow> 'p outst \<Rightarrow> 'p fast_next" where
  "fast_fetch get pp x0 =
     (if o_used x0 > pp then Stop True x0
      else if o_used x0 = pp then Stop False (x0\<lparr>o_len := 0\<rparr>)
      else
        let x = x0\<lparr>o_ch := o_k0 x0\<rparr>
        in case next_byte get x of
             None \<Rightarrow> Stop True x
           | Some (k1, x) \<Rightarrow>
               if k1 \<noteq> o_k0 x then Again True (x\<lparr>o_k0 := k1\<rparr>)
               else if o_used x = pp then Again True x
               else (case fetch_rest get pp x of (True, x) \<Rightarrow> Stop True x | (False, x) \<Rightarrow> Again False x))"

lemma batch_le: "o_avail (batch m x) \<le> o_avail x"
  by (induction m x rule: batch.induct) (subst batch.simps, auto simp: put_run_def Let_def)

lemma fast_emit_le: "fast_emit m eq1 x = Inr y \<Longrightarrow> o_avail y \<le> o_avail x \<and> (eq1 \<or> 0 < o_len x \<longrightarrow> o_avail y < o_avail x)"
  using batch_le [of m x] by (auto simp: fast_emit_def eq_one_def Let_def split: if_splits)

lemma fast_fetch_frame: "fast_fetch get pp x = Again e y \<Longrightarrow> o_avail y = o_avail x \<and> (e \<or> 0 < o_len y)"
  using fetch_frame(3) by (fastforce simp: fast_fetch_def next_byte_def Let_def split: if_splits option.splits prod.splits bool.splits)

function fast_loop :: "cpu \<Rightarrow> ('p \<Rightarrow> (u8 \<times> 'p) option) \<Rightarrow> nat \<Rightarrow> bool \<Rightarrow> 'p outst \<Rightarrow> bool \<times> 'p outst" where
  "fast_loop m get pp eq1 x =
     (case fast_emit m eq1 x of
        Inl x \<Rightarrow> (False, x)
      | Inr x \<Rightarrow> (case fast_fetch get pp x of
                   Stop c x \<Rightarrow> (c, x)
                 | Again eq1 x \<Rightarrow> fast_loop m get pp eq1 x))"
  by pat_completeness auto
termination
proof (relation "measure (\<lambda>(m, get, pp, eq1, x). 2 * o_avail x + of_bool (\<not> eq1 \<and> o_len x = 0))", goal_cases)
  case (2 m get pp eq1 x y e z)
  then show ?case using fast_emit_le [of m eq1 x y] fast_fetch_frame [of get pp y e z]
    by (cases "eq1 \<or> 0 < o_len x") auto
qed simp

declare fast_loop.simps [simp del] unRLE_plain.simps [simp del]

section \<open>The two functions\<close>

definition fast_totals :: "nat \<Rightarrow> 'p outst \<Rightarrow> 'p outst" where
  "fast_totals avail_out_INIT x =
     (let lo = o_lo x + word_of_nat (avail_out_INIT - o_avail x)
      in x\<lparr>o_lo := lo, o_hi := (if lo < o_lo x then o_hi x + 1 else o_hi x)\<rparr>)"

definition unRLE_obuf_to_output_FAST :: "cpu \<Rightarrow> dstate \<Rightarrow> bool \<times> dstate" where
  "unRLE_obuf_to_output_FAST m s =
     (if blockRandomised s then
        let (c, x) = unRLE_plain (rand_get BZ_GET_FAST s) (save_nblock (dsv s) + 1) (load_out rand_pos s)
        in (c, store_out set_rand_pos x s)
      else
        let (c, x) = fast_loop m (BZ_GET_FAST_C (tt s) (blockSize100k s)) (save_nblock (dsv s) + 1) False (load_out tPos s)
        in if c then (True, s)
           else (False, store_out (\<lambda>p s. s\<lparr>tPos := p\<rparr>) (fast_totals (avail_out (dstrm s)) x) s))"

definition unRLE_obuf_to_output_SMALL :: "dstate \<Rightarrow> bool \<times> dstate" where
  "unRLE_obuf_to_output_SMALL s =
     (if blockRandomised s then
        let (c, x) = unRLE_plain (rand_get BZ_GET_SMALL s) (save_nblock (dsv s) + 1) (load_out rand_pos s)
        in (c, store_out set_rand_pos x s)
      else
        let (c, x) = unRLE_plain (plain_get BZ_GET_SMALL s) (save_nblock (dsv s) + 1) (load_out tPos s)
        in (c, store_out (\<lambda>p s. s\<lparr>tPos := p\<rparr>) x s))"

section \<open>Specification: undoing the run-length coding\<close>

text \<open>Four equal bytes are followed by a count of further ones; a block that ends where the count should be is corrupt.\<close>

fun rld :: "u8 list \<Rightarrow> u8 list option" where
  "rld [] = Some []"
| "rld [a] = Some [a]"
| "rld (a # b # bs) =
     (if a \<noteq> b then map_option (Cons a) (rld (b # bs))
      else case bs of
             [] \<Rightarrow> Some [a, a]
           | c # cs \<Rightarrow>
               if a \<noteq> c then map_option (\<lambda>r. a # a # r) (rld (c # cs))
               else case cs of
                      [] \<Rightarrow> Some [a, a, a]
                    | d # ds \<Rightarrow>
                        if a \<noteq> d then map_option (\<lambda>r. a # a # a # r) (rld (d # ds))
                        else case ds of
                               [] \<Rightarrow> None
                             | e # es \<Rightarrow> map_option (\<lambda>r. replicate (unat e + 4) a @ r) (rld es))"

definition wrote :: "u8 list \<Rightarrow> 'p outst \<Rightarrow> 'p outst \<Rightarrow> bool" where
  "wrote w x y \<longleftrightarrow> o_buf y = o_buf x @ w \<and> o_crc y = crc_bytes (o_crc x) w \<and> o_avail x = length w + o_avail y"

lemma wrote_Nil: "wrote [] x y \<longleftrightarrow> o_buf y = o_buf x \<and> o_crc y = o_crc x \<and> o_avail y = o_avail x"
  by (auto simp: wrote_def)

lemma wrote_trans: "wrote v x y \<Longrightarrow> wrote w y z \<Longrightarrow> wrote (v @ w) x z"
  by (simp add: wrote_def crc_bytes_append)

end
