(* ===== verification/OutputSpec.thy ===== *)
theory OutputSpec
  imports Output
begin

text \<open>
  Both output loops do the same: they append to the buffer as much of the undone run-length coding as
  fits, keep the rest, and update the CRC with the bytes written. The loops are verified against a
  source of bytes (\<open>byte_source\<close>); the macros over the inverse transform, with and without
  randomisation, are its interpretations.
\<close>

section \<open>Runs\<close>

text \<open>How a run goes on after its first, second, third and fourth byte: its length, and the bytes left.\<close>

definition run4 :: "u8 list \<Rightarrow> (nat \<times> u8 list) option" where
  "run4 ds = (case ds of [] \<Rightarrow> None | e # es \<Rightarrow> Some (unat e + 4, es))"

definition run3 :: "u8 \<Rightarrow> u8 list \<Rightarrow> (nat \<times> u8 list) option" where
  "run3 a ds = (case ds of [] \<Rightarrow> Some (3, []) | d # es \<Rightarrow> if d \<noteq> a then Some (3, d # es) else run4 es)"

definition run2 :: "u8 \<Rightarrow> u8 list \<Rightarrow> (nat \<times> u8 list) option" where
  "run2 a cs = (case cs of [] \<Rightarrow> Some (2, []) | c # ds \<Rightarrow> if c \<noteq> a then Some (2, c # ds) else run3 a ds)"

definition run1 :: "u8 \<Rightarrow> u8 list \<Rightarrow> (nat \<times> u8 list) option" where
  "run1 a bs = (case bs of [] \<Rightarrow> Some (1, []) | b # cs \<Rightarrow> if b \<noteq> a then Some (1, b # cs) else run2 a cs)"

lemmas run_defs = run1_def run2_def run3_def run4_def

lemma append_replicate:
  "(@) [a] = Cons a" "(@) (replicate 2 a) = (\<lambda>r. a # a # r)" "(@) (replicate 3 a) = (\<lambda>r. a # a # a # r)"
  by (simp_all add: fun_eq_iff numeral_2_eq_2 numeral_3_eq_3)

lemma rld_run:
  "rld (a # bs) = (case run1 a bs of None \<Rightarrow> None | Some (n, cs) \<Rightarrow> map_option ((@) (replicate n a)) (rld cs))"
proof (cases bs)
  case Nil
  then show ?thesis by (simp add: run1_def)
next
  case b: (Cons b cs)
  show ?thesis
  proof (cases cs)
    case Nil
    then show ?thesis using b by (auto simp: run1_def run2_def append_replicate numeral_2_eq_2)
  next
    case c: (Cons c ds)
    show ?thesis
    proof (cases ds)
      case Nil
      then show ?thesis using b c
        by (auto simp: run1_def run2_def run3_def append_replicate numeral_3_eq_3)
    next
      case d: (Cons d es)
      then show ?thesis using b c
        by (cases es) (auto simp: run1_def run2_def run3_def run4_def append_replicate)
    qed
  qed
qed

lemma run_pos: "run1 a bs = Some (n, cs) \<Longrightarrow> 1 \<le> n" "run2 a bs = Some (n, cs) \<Longrightarrow> 2 \<le> n"
  by (auto simp: run_defs split: list.splits if_splits)

lemma rld_runE:
  assumes "rld (a # bs) = Some r"
  obtains n cs r' where "run1 a bs = Some (n, cs)" "rld cs = Some r'" "r = replicate n a @ r'"
  using assms by (auto simp: rld_run split: option.splits)

section \<open>Writing\<close>

definition same_but_written :: "'p outst \<Rightarrow> 'p outst \<Rightarrow> bool" where
  "same_but_written x y \<longleftrightarrow> o_ch y = o_ch x \<and> o_used y = o_used x \<and> o_k0 y = o_k0 x \<and> o_pos y = o_pos x"

lemma crc_one: "BZ_UPDATE_CRC c b = crc_bytes c [b]"
  by (simp add: BZ_UPDATE_CRC_eq crc_bytes_Cons)

lemma drain_spec:
  "wrote (replicate (min (o_len x) (o_avail x)) (o_ch x)) x (drain x) \<and> same_but_written x (drain x) \<and>
   o_len (drain x) = o_len x - o_avail x"
proof (induction x rule: drain.induct)
  case (1 x)
  show ?case
  proof (cases "o_avail x = 0 \<or> o_len x = 0")
    case True
    then show ?thesis by (subst (1 2 3) drain.simps) (auto simp: wrote_def same_but_written_def)
  next
    case False
    let ?y = "put_byte x"
    have e: "drain x = drain ?y" using False by (subst drain.simps) simp
    have y: "o_len ?y = o_len x - 1" "o_avail ?y = o_avail x - 1" "o_ch ?y = o_ch x" "same_but_written x ?y"
        "wrote [o_ch x] x ?y"
      using False by (auto simp: put_byte_def Let_def same_but_written_def wrote_def crc_one)
    have m: "min (o_len x) (o_avail x) = Suc (min (o_len ?y) (o_avail ?y))" using False y by (auto simp: min_def)
    have "wrote ([o_ch x] @ replicate (min (o_len ?y) (o_avail ?y)) (o_ch x)) x (drain ?y)"
      by (rule wrote_trans [OF y(5)]) (use 1 False y in simp)
    then show ?thesis using 1 False y unfolding e m by (auto simp: same_but_written_def)
  qed
qed

lemma put_run_spec:
  assumes "1 < o_len x"
  shows "wrote (replicate (min (o_len x - 1) (o_avail x)) (o_ch x)) x (put_run m x) \<and>
    same_but_written x (put_run m x) \<and> o_len (put_run m x) = o_len x - min (o_len x - 1) (o_avail x)"
  using assms by (simp add: put_run_def Let_def wrote_def same_but_written_def BZ2_crc32_update_eq min_def)

lemma batch_spec:
  assumes "0 < o_len x"
  shows "wrote (replicate (min (o_len x - 1) (o_avail x)) (o_ch x)) x (batch m x) \<and>
    same_but_written x (batch m x) \<and> o_len (batch m x) = o_len x - min (o_len x - 1) (o_avail x)"
proof (cases "o_avail x = 0 \<or> o_len x \<le> 1")
  case True
  then have "batch m x = x" by (simp add: batch.simps [of m x])
  then show ?thesis using True assms by (auto simp: wrote_def same_but_written_def)
next
  case False
  have s: "batch m x = batch m (put_run m x)" using False by (simp add: batch.simps [of m x])
  have "o_avail (put_run m x) = 0 \<or> o_len (put_run m x) \<le> 1"
    using False by (auto simp: put_run_def Let_def)
  then have "batch m (put_run m x) = put_run m x" by (simp add: batch.simps [of m "put_run m x"])
  then show ?thesis using s put_run_spec [of x m] False by simp
qed

text \<open>The run of length \<open>n\<close> is written if it fits, else as much of it as does.\<close>

lemma fast_emit_spec:
  fixes x y :: "'p outst" and eq1 :: bool
  defines "n \<equiv> if eq1 then 1 else o_len x"
  shows "fast_emit m eq1 x = Inl y \<Longrightarrow> o_avail x < n \<and> wrote (replicate (o_avail x) (o_ch x)) x y \<and>
      same_but_written x y \<and> o_len y = n - o_avail x"
    "fast_emit m eq1 x = Inr y \<Longrightarrow> n \<le> o_avail x \<and> wrote (replicate n (o_ch x)) x y \<and> same_but_written x y"
proof -
  have one: "eq_one z = Inl y \<Longrightarrow> o_avail z = 0 \<and> wrote [] z y \<and> same_but_written z y \<and> o_len y = 1"
    "eq_one z = Inr y \<Longrightarrow> 0 < o_avail z \<and> wrote [o_ch z] z y \<and> same_but_written z y" for z y :: "'p outst"
    by (auto simp: eq_one_def wrote_def same_but_written_def crc_one split: if_splits)
  note B = batch_spec [of x m]
  have a: "0 < o_len x \<Longrightarrow> o_avail (batch m x) = o_avail x - (o_len x - 1)" using B by (auto simp: wrote_def)
  show "fast_emit m eq1 x = Inl y \<Longrightarrow> o_avail x < n \<and> wrote (replicate (o_avail x) (o_ch x)) x y \<and>
      same_but_written x y \<and> o_len y = n - o_avail x"
  proof -
    assume e: "fast_emit m eq1 x = Inl y"
    show ?thesis
    proof (cases eq1)
      case True
      then show ?thesis using e one(1) [of x y] by (auto simp: fast_emit_def n_def)
    next
      case False
      then have l: "0 < o_len x" using e by (auto simp: fast_emit_def split: if_splits)
      have "o_avail (batch m x) = 0"
        using e False l one(1) [of "batch m x" y] by (auto simp: fast_emit_def Let_def split: if_splits)
      then have "y = batch m x" "o_avail x \<le> o_len x - 1" using e False l a by (auto simp: fast_emit_def Let_def)
      moreover from this have "min (o_len x - 1) (o_avail x) = o_avail x" by simp
      ultimately show ?thesis using B l False by (auto simp: n_def)
    qed
  qed
  show "fast_emit m eq1 x = Inr y \<Longrightarrow> n \<le> o_avail x \<and> wrote (replicate n (o_ch x)) x y \<and> same_but_written x y"
  proof -
    assume e: "fast_emit m eq1 x = Inr y"
    show ?thesis
    proof (cases "eq1 \<or> o_len x = 0")
      case True
      then show ?thesis using e one(2) [of x y]
        by (auto simp: fast_emit_def n_def wrote_def same_but_written_def split: if_splits)
    next
      case False
      then have l: "0 < o_len x" by simp
      then have o: "eq_one (batch m x) = Inr y" using e False by (auto simp: fast_emit_def Let_def split: if_splits)
      note O = one(2) [OF o]
      then have le: "o_len x - 1 < o_avail x" using a [OF l] l by linarith
      then have W: "wrote (replicate (o_len x - 1) (o_ch x)) x (batch m x)" "same_but_written x (batch m x)"
        using B l by (auto simp: min_def)
      have "wrote (replicate (o_len x - 1) (o_ch x) @ [o_ch x]) x y"
        using wrote_trans [OF W(1)] O W(2) by (auto simp: same_but_written_def)
      moreover have "replicate (o_len x - 1) (o_ch x) @ [o_ch x] = replicate (o_len x) (o_ch x)"
        using l by (cases "o_len x") (auto simp: replicate_append_same)
      ultimately show ?thesis using le O W(2) False by (auto simp: n_def same_but_written_def)
    qed
  qed
qed

section \<open>The source of bytes\<close>

text \<open>Everything but the fields a fetch may change.\<close>

definition same_written :: "'p outst \<Rightarrow> 'p outst \<Rightarrow> bool" where
  "same_written x y \<longleftrightarrow> o_buf y = o_buf x \<and> o_crc y = o_crc x \<and> o_avail y = o_avail x"

locale byte_source =
  fixes get :: "'p \<Rightarrow> (u8 \<times> 'p) option" and ok :: "nat \<Rightarrow> 'p \<Rightarrow> bool" and byte :: "nat \<Rightarrow> u8"
  assumes get_ok: "ok u p \<Longrightarrow> \<exists>q. get p = Some (byte u, q) \<and> ok (u + 1) q"
begin

text \<open>The bytes behind the one in \<open>k0\<close>, and with it.\<close>

definition left :: "nat \<Rightarrow> 'p outst \<Rightarrow> u8 list" where
  "left pp x = map byte [o_used x..<pp - 1]"

definition todo :: "nat \<Rightarrow> 'p outst \<Rightarrow> u8 list" where
  "todo pp x = (if o_used x < pp then o_k0 x # left pp x else [])"

definition kept :: "nat \<Rightarrow> 'p outst \<Rightarrow> bool" where
  "kept pp x \<longleftrightarrow> ok (o_used x) (o_pos x) \<and> 1 \<le> o_used x \<and> o_used x \<le> pp \<and> (o_used x < pp \<longrightarrow> o_k0 x = byte (o_used x - 1))"

text \<open>A state whose bytes to come are \<open>R\<close>.\<close>

definition holds :: "nat \<Rightarrow> 'p outst \<Rightarrow> u8 list \<Rightarrow> bool" where
  "holds pp x R \<longleftrightarrow> kept pp x \<and> map_option ((@) (replicate (o_len x) (o_ch x))) (rld (todo pp x)) = Some R"

text \<open>A run of length \<open>n\<close> has been fetched, and \<open>D\<close> is left.\<close>

definition fetched :: "nat \<Rightarrow> 'p outst \<Rightarrow> nat \<Rightarrow> u8 list \<Rightarrow> 'p outst \<Rightarrow> bool" where
  "fetched pp x n D y \<longleftrightarrow> kept pp y \<and> o_len y = n \<and> o_ch y = o_ch x \<and> todo pp y = D \<and>
     same_written x y"

lemma next_byte_ok:
  assumes "ok (o_used x) (o_pos x)" "o_used x < pp"
  obtains b q where "next_byte get x = Some (b, x\<lparr>o_pos := q, o_used := o_used x + 1\<rparr>)" "ok (o_used x + 1) q"
    "left pp x = (if o_used x + 1 = pp then [] else b # left pp (x\<lparr>o_pos := q, o_used := o_used x + 1\<rparr>))" "b = byte (o_used x)"
proof -
  obtain q where g: "get (o_pos x) = Some (byte (o_used x), q)" "ok (o_used x + 1) q" using get_ok assms(1) by blast
  have "left pp x = (if o_used x + 1 = pp then [] else byte (o_used x) # left pp (x\<lparr>o_pos := q, o_used := o_used x + 1\<rparr>))"
  proof (cases "o_used x + 1 = pp")
    case False
    then have "o_used x < pp - 1" using assms(2) by simp
    then show ?thesis using False by (simp add: left_def upt_conv_Cons)
  qed (simp add: left_def)
  then show thesis using that g by (simp add: next_byte_def)
qed

lemma left_fields [simp]: "left pp (x\<lparr>o_len := n\<rparr>) = left pp x" "left pp (x\<lparr>o_ch := c\<rparr>) = left pp x"
  "left pp (x\<lparr>o_k0 := k\<rparr>) = left pp x"
  by (simp_all add: left_def)

lemma fetch_count_ok:
  assumes "ok (o_used x) (o_pos x)" "o_used x < pp" "run4 (left pp x) = Some (n, D)"
  shows "\<exists>y. fetch_count get x = (False, y) \<and> fetched pp x n D y"
proof -
  obtain b q where g: "next_byte get x = Some (b, x\<lparr>o_pos := q, o_used := o_used x + 1\<rparr>)" "ok (o_used x + 1) q"
      "left pp x = (if o_used x + 1 = pp then [] else b # left pp (x\<lparr>o_pos := q, o_used := o_used x + 1\<rparr>))" "b = byte (o_used x)"
    using next_byte_ok [OF assms(1,2)] .
  have u: "o_used x + 1 < pp" and n: "n = unat b + 4" and D: "D = left pp (x\<lparr>o_pos := q, o_used := o_used x + 1\<rparr>)"
    using g(3) assms(2,3) by (auto simp: run4_def split: if_splits)
  let ?y = "x\<lparr>o_pos := q, o_used := o_used x + 1, o_len := unat b + 4\<rparr>"
  have y: "ok (o_used ?y) (o_pos ?y)" "o_used ?y < pp" using g(2) u by simp_all
  obtain c p where h: "next_byte get ?y = Some (c, ?y\<lparr>o_pos := p, o_used := o_used ?y + 1\<rparr>)" "ok (o_used ?y + 1) p"
      "left pp ?y = (if o_used ?y + 1 = pp then [] else c # left pp (?y\<lparr>o_pos := p, o_used := o_used ?y + 1\<rparr>))" "c = byte (o_used ?y)"
    using next_byte_ok [OF y] .
  have "D = left pp ?y" unfolding D by (simp add: left_def)
  then show ?thesis using g(1) h u n
    by (auto simp: fetch_count_def Let_def fetched_def kept_def todo_def same_written_def left_def)
qed

lemma fetch_third_ok:
  assumes "ok (o_used x) (o_pos x)" "o_used x < pp" "run3 (o_k0 x) (left pp x) = Some (n, D)"
  shows "\<exists>y. fetch_third get pp x = (False, y) \<and> fetched pp x n D y"
proof -
  let ?x = "x\<lparr>o_len := 3\<rparr>"
  have x: "ok (o_used ?x) (o_pos ?x)" "o_used ?x < pp" using assms by simp_all
  obtain b q where g: "next_byte get ?x = Some (b, ?x\<lparr>o_pos := q, o_used := o_used ?x + 1\<rparr>)" "ok (o_used ?x + 1) q"
      "left pp ?x = (if o_used ?x + 1 = pp then [] else b # left pp (?x\<lparr>o_pos := q, o_used := o_used ?x + 1\<rparr>))" "b = byte (o_used ?x)"
    using next_byte_ok [OF x] .
  let ?y = "?x\<lparr>o_pos := q, o_used := o_used ?x + 1\<rparr>"
  show ?thesis
  proof (cases "o_used x + 1 = pp \<or> b \<noteq> o_k0 x")
    case True
    then show ?thesis using g assms(2,3)
      by (auto simp: fetch_third_def Let_def fetched_def kept_def todo_def same_written_def run3_def split: if_splits)
  next
    case False
    then have "run4 (left pp ?y) = Some (n, D)" "o_used ?y < pp" using g(3) assms(2,3) by (auto simp: run3_def)
    from fetch_count_ok [OF _ this(2,1)] g(2) obtain z where "fetch_count get ?y = (False, z)" "fetched pp ?y n D z" by auto
    then show ?thesis using g(1) False by (auto simp: fetch_third_def Let_def fetched_def same_written_def)
  qed
qed

lemma fetch_rest_ok:
  assumes "ok (o_used x) (o_pos x)" "o_used x < pp" "run2 (o_k0 x) (left pp x) = Some (n, D)"
  shows "\<exists>y. fetch_rest get pp x = (False, y) \<and> fetched pp x n D y"
proof -
  let ?x = "x\<lparr>o_len := 2\<rparr>"
  have x: "ok (o_used ?x) (o_pos ?x)" "o_used ?x < pp" using assms by simp_all
  obtain b q where g: "next_byte get ?x = Some (b, ?x\<lparr>o_pos := q, o_used := o_used ?x + 1\<rparr>)" "ok (o_used ?x + 1) q"
      "left pp ?x = (if o_used ?x + 1 = pp then [] else b # left pp (?x\<lparr>o_pos := q, o_used := o_used ?x + 1\<rparr>))" "b = byte (o_used ?x)"
    using next_byte_ok [OF x] .
  let ?y = "?x\<lparr>o_pos := q, o_used := o_used ?x + 1\<rparr>"
  show ?thesis
  proof (cases "o_used x + 1 = pp \<or> b \<noteq> o_k0 x")
    case True
    then show ?thesis using g assms(2,3)
      by (auto simp: fetch_rest_def Let_def fetched_def kept_def todo_def same_written_def run2_def split: if_splits)
  next
    case False
    then have "run3 (o_k0 ?y) (left pp ?y) = Some (n, D)" "o_used ?y < pp" using g(3) assms(2,3) by (auto simp: run2_def)
    from fetch_third_ok [OF _ this(2,1)] g(2) obtain z where "fetch_third get pp ?y = (False, z)" "fetched pp ?y n D z" by auto
    then show ?thesis using g(1) False by (auto simp: fetch_rest_def Let_def fetched_def same_written_def)
  qed
qed

lemma fetch_run_ok:
  assumes "ok (o_used x) (o_pos x)" "o_used x < pp" "run1 (o_k0 x) (left pp x) = Some (n, D)"
  shows "\<exists>y. fetch_run get pp x = (False, y) \<and> fetched pp (x\<lparr>o_ch := o_k0 x\<rparr>) n D y"
proof -
  let ?x = "x\<lparr>o_len := 1, o_ch := o_k0 x\<rparr>"
  have x: "ok (o_used ?x) (o_pos ?x)" "o_used ?x < pp" using assms by simp_all
  obtain b q where g: "next_byte get ?x = Some (b, ?x\<lparr>o_pos := q, o_used := o_used ?x + 1\<rparr>)" "ok (o_used ?x + 1) q"
      "left pp ?x = (if o_used ?x + 1 = pp then [] else b # left pp (?x\<lparr>o_pos := q, o_used := o_used ?x + 1\<rparr>))" "b = byte (o_used ?x)"
    using next_byte_ok [OF x] .
  let ?y = "?x\<lparr>o_pos := q, o_used := o_used ?x + 1\<rparr>"
  show ?thesis
  proof (cases "o_used x + 1 = pp \<or> b \<noteq> o_k0 x")
    case True
    then show ?thesis using g assms(2,3)
      by (auto simp: fetch_run_def Let_def fetched_def kept_def todo_def same_written_def run1_def split: if_splits)
  next
    case False
    then have "run2 (o_k0 ?y) (left pp ?y) = Some (n, D)" "o_used ?y < pp" using g(3) assms(2,3) by (auto simp: run1_def)
    from fetch_rest_ok [OF _ this(2,1)] g(2) obtain z where "fetch_rest get pp ?y = (False, z)" "fetched pp ?y n D z" by auto
    then show ?thesis using g(1) False by (auto simp: fetch_run_def Let_def fetched_def same_written_def)
  qed
qed

text \<open>At the label \<open>s_state_out_len_eq_one\<close> the length counts as 1.\<close>

definition at_label :: "bool \<Rightarrow> 'p outst \<Rightarrow> 'p outst" where
  "at_label e x = (if e then x\<lparr>o_len := 1\<rparr> else x)"

lemma fast_fetch_ok:
  assumes "ok (o_used x) (o_pos x)" "o_used x < pp" "run1 (o_k0 x) (left pp x) = Some (n, D)"
  shows "\<exists>e y. fast_fetch get pp x = Again e y \<and> fetched pp (x\<lparr>o_ch := o_k0 x\<rparr>) n D (at_label e y)"
proof -
  let ?x = "x\<lparr>o_ch := o_k0 x\<rparr>"
  have x: "ok (o_used ?x) (o_pos ?x)" "o_used ?x < pp" using assms by simp_all
  obtain b q where g: "next_byte get ?x = Some (b, ?x\<lparr>o_pos := q, o_used := o_used ?x + 1\<rparr>)" "ok (o_used ?x + 1) q"
      "left pp ?x = (if o_used ?x + 1 = pp then [] else b # left pp (?x\<lparr>o_pos := q, o_used := o_used ?x + 1\<rparr>))" "b = byte (o_used ?x)"
    using next_byte_ok [OF x] .
  let ?y = "?x\<lparr>o_pos := q, o_used := o_used ?x + 1\<rparr>"
  show ?thesis
  proof (cases "o_used x + 1 = pp \<or> b \<noteq> o_k0 x")
    case True
    then show ?thesis using g assms(2,3)
      by (auto simp: fast_fetch_def Let_def fetched_def kept_def todo_def same_written_def run1_def at_label_def left_def split: if_splits)
  next
    case False
    then have "run2 (o_k0 ?y) (left pp ?y) = Some (n, D)" "o_used ?y < pp" using g(3) assms(2,3) by (auto simp: run1_def)
    from fetch_rest_ok [OF _ this(2,1)] g(2) obtain z where "fetch_rest get pp ?y = (False, z)" "fetched pp ?y n D z" by auto
    then show ?thesis using g(1) False assms(2)
      by (auto simp: fast_fetch_def Let_def fetched_def same_written_def at_label_def)
  qed
qed

lemma fetched_holds:
  assumes "fetched pp x n D y" "rld D = Some r"
  shows "holds pp y (replicate n (o_ch x) @ r)" "same_written x y"
  using assms by (auto simp: fetched_def holds_def)

lemma wrote_same: "wrote w x y \<Longrightarrow> same_written y z \<Longrightarrow> wrote w x z"
  by (simp add: wrote_def same_written_def)

lemma holdsE:
  assumes "holds pp x R"
  obtains r where "R = replicate (o_len x) (o_ch x) @ r" "rld (todo pp x) = Some r" "kept pp x"
  using assms by (auto simp: holds_def)

lemma todo_same: "same_but_written x y \<Longrightarrow> todo pp y = todo pp x"
  by (simp add: todo_def left_def same_but_written_def)

lemma kept_same: "same_but_written x y \<Longrightarrow> kept pp x \<Longrightarrow> kept pp y"
  by (simp add: kept_def same_but_written_def)

text \<open>The loop over single bytes.\<close>

lemma drained:
  assumes "holds pp x R"
  shows "wrote (replicate (min (o_len x) (o_avail x)) (o_ch x)) x (drain x)"
    "o_avail (drain x) = 0 \<Longrightarrow> wrote (take (o_avail x) R) x (drain x) \<and> holds pp (drain x) (drop (o_avail x) R)"
    "o_avail (drain x) > 0 \<Longrightarrow> o_len x < o_avail x"
    "o_avail (drain x) > 0 \<Longrightarrow> R = replicate (o_len x) (o_ch x) @ S \<Longrightarrow> rld (todo pp (drain x)) = Some S"
    "o_len (drain x) = o_len x - o_avail x" "kept pp (drain x)"
proof -
  note D = drain_spec [of x]
  obtain r where r: "R = replicate (o_len x) (o_ch x) @ r" "rld (todo pp x) = Some r" "kept pp x"
    using holdsE [OF assms] .
  have t: "todo pp (drain x) = todo pp x" using D todo_same by blast
  show "wrote (replicate (min (o_len x) (o_avail x)) (o_ch x)) x (drain x)" "o_len (drain x) = o_len x - o_avail x"
    using D by simp_all
  show k: "kept pp (drain x)" using D r kept_same by blast
  have a: "o_avail x = min (o_len x) (o_avail x) + o_avail (drain x)" using D by (simp add: wrote_def)
  show "o_avail (drain x) > 0 \<Longrightarrow> o_len x < o_avail x" using a by linarith
  show "o_avail (drain x) > 0 \<Longrightarrow> R = replicate (o_len x) (o_ch x) @ S \<Longrightarrow> rld (todo pp (drain x)) = Some S"
    using r t by simp
  assume "o_avail (drain x) = 0"
  then have le: "o_avail x \<le> o_len x" using a by linarith
  then show "wrote (take (o_avail x) R) x (drain x) \<and> holds pp (drain x) (drop (o_avail x) R)"
    using D r t k by (auto simp: holds_def same_but_written_def min_absorb2)
qed

lemma plain_ok:
  "holds pp x R \<Longrightarrow> \<exists>y. unRLE_plain get pp x = (False, y) \<and> wrote (take (o_avail x) R) x y \<and>
     holds pp y (drop (o_avail x) R)"
proof (induction "2 * o_avail x + of_bool (o_len x = 0)" arbitrary: x R rule: less_induct)
  case less
  obtain r where r: "R = replicate (o_len x) (o_ch x) @ r" using holdsE [OF less.prems] by blast
  define z where "z = drain x"
  note D = drained [OF less.prems, folded z_def]
  show ?case
  proof (cases "o_avail z = 0")
    case True
    then show ?thesis using D(2) by (simp add: unRLE_plain.simps [of get pp x] Let_def z_def)
  next
    case False
    then have lt: "o_len x < o_avail x" and rz: "rld (todo pp z) = Some r" using D(3,4) r by simp_all
    have W: "wrote (replicate (o_len x) (o_ch x)) x z" and lz: "o_len z = 0" and az: "o_avail x = o_len x + o_avail z"
      using D(1,5) lt by (simp_all add: min_def wrote_def)
    have tk: "take (o_avail x) R = replicate (o_len x) (o_ch x) @ take (o_avail z) r" "drop (o_avail x) R = drop (o_avail z) r"
      unfolding r az by simp_all
    show ?thesis
    proof (cases "o_used z = pp")
      case True
      then have "r = []" using rz by (simp add: todo_def)
      then show ?thesis using True False W lz D(6) tk
        by (simp add: unRLE_plain.simps [of get pp x] Let_def z_def holds_def kept_def todo_def)
    next
      case used: False
      then have u: "o_used z < pp" and oz: "ok (o_used z) (o_pos z)" using D(6) by (simp_all add: kept_def)
      then obtain n D' r' where q: "run1 (o_k0 z) (left pp z) = Some (n, D')" "rld D' = Some r'" "r = replicate n (o_k0 z) @ r'"
        using rz rld_runE [of "o_k0 z" "left pp z" r] by (auto simp: todo_def)
      obtain y where y: "fetch_run get pp z = (False, y)" "fetched pp (z\<lparr>o_ch := o_k0 z\<rparr>) n D' y"
        using fetch_run_ok [OF oz u q(1)] by blast
      have e: "unRLE_plain get pp x = unRLE_plain get pp y"
        using False used u y(1) by (simp add: unRLE_plain.simps [of get pp x] Let_def z_def)
      have h: "holds pp y r" and sw: "same_written z y"
        using fetched_holds [OF y(2) q(2)] q(3) by (simp_all add: same_written_def)
      have "o_len y = n" "1 \<le> n" "o_avail y = o_avail z"
        using y(2) run_pos(1) [OF q(1)] by (simp_all add: fetched_def same_written_def)
      then have m: "2 * o_avail y + of_bool (o_len y = 0) < 2 * o_avail x + of_bool (o_len x = 0)" using az by auto
      obtain w where w: "unRLE_plain get pp y = (False, w)" "wrote (take (o_avail y) r) y w" "holds pp w (drop (o_avail y) r)"
        using less.hyps [OF m h] by blast
      have "wrote (take (o_avail x) R) x w"
        unfolding tk using wrote_trans [OF wrote_same [OF W sw] w(2)] \<open>o_avail y = o_avail z\<close> by simp
      then show ?thesis using e w \<open>o_avail y = o_avail z\<close> tk(2) by auto
    qed
  qed
qed

text \<open>The fast loop; it may stop before the end of the block is noticed, with the same bytes to come.\<close>

lemma fast_ok:
  "holds pp (at_label e x) R \<Longrightarrow> \<exists>y. fast_loop m get pp e x = (False, y) \<and> wrote (take (o_avail x) R) x y \<and>
     holds pp y (drop (o_avail x) R)"
proof (induction "2 * o_avail x + of_bool (\<not> e \<and> o_len x = 0)" arbitrary: e x R rule: less_induct)
  case less
  define n where "n = (if e then 1 else o_len x)"
  have X: "o_len (at_label e x) = n" "o_ch (at_label e x) = o_ch x" "o_pos (at_label e x) = o_pos x"
    "o_used (at_label e x) = o_used x" "todo pp (at_label e x) = todo pp x" "kept pp (at_label e x) = kept pp x"
    by (simp_all add: at_label_def n_def todo_def left_def kept_def)
  obtain r where r: "R = replicate n (o_ch x) @ r" "rld (todo pp x) = Some r" "kept pp x"
    using holdsE [OF less.prems] X by metis
  show ?case
  proof (cases "fast_emit m e x")
    case (Inl y)
    note S = fast_emit_spec(1) [OF Inl, folded n_def]
    then have "todo pp y = todo pp x" "kept pp y" using todo_same kept_same r(3) by blast+
    then have "holds pp y (drop (o_avail x) R)" "take (o_avail x) R = replicate (o_avail x) (o_ch x)"
      using S r by (auto simp: holds_def same_but_written_def)
    then show ?thesis using S Inl by (simp add: fast_loop.simps [of m get pp e x])
  next
    case (Inr z)
    note S = fast_emit_spec(2) [OF Inr, folded n_def]
    then have t: "todo pp z = todo pp x" using todo_same by blast
    have W: "wrote (replicate n (o_ch x)) x z" and az: "o_avail x = n + o_avail z" and pz: "kept pp z"
      using S r kept_same by (auto simp: wrote_def)
    have tk: "take (o_avail x) R = replicate n (o_ch x) @ take (o_avail z) r" "drop (o_avail x) R = drop (o_avail z) r"
      unfolding r(1) az by simp_all
    show ?thesis
    proof (cases "o_used z = pp")
      case True
      then have "r = []" using r t by (simp add: todo_def)
      then show ?thesis using True W pz tk Inr
        by (simp add: fast_loop.simps [of m get pp e x] fast_fetch_def holds_def kept_def todo_def wrote_def)
    next
      case used: False
      then have u: "o_used z < pp" and oz: "ok (o_used z) (o_pos z)" using pz by (simp_all add: kept_def)
      then obtain k D' r' where q: "run1 (o_k0 z) (left pp z) = Some (k, D')" "rld D' = Some r'" "r = replicate k (o_k0 z) @ r'"
        using r(2) t rld_runE [of "o_k0 z" "left pp z" r] by (auto simp: todo_def)
      obtain e' y where y: "fast_fetch get pp z = Again e' y" "fetched pp (z\<lparr>o_ch := o_k0 z\<rparr>) k D' (at_label e' y)"
        using fast_fetch_ok [OF oz u q(1)] by blast
      have e: "fast_loop m get pp e x = fast_loop m get pp e' y"
        using y(1) Inr by (simp add: fast_loop.simps [of m get pp e x])
      have h: "holds pp (at_label e' y) r" and sw: "same_written z y"
        using fetched_holds [OF y(2) q(2)] q(3) by (auto simp: same_written_def at_label_def split: if_splits)
      have a: "o_avail y = o_avail z" and l: "\<not> e' \<longrightarrow> o_len y \<noteq> 0"
        using y(2) run_pos(1) [OF q(1)] by (auto simp: fetched_def same_written_def at_label_def split: if_splits)
      have m: "2 * o_avail y + of_bool (\<not> e' \<and> o_len y = 0) < 2 * o_avail x + of_bool (\<not> e \<and> o_len x = 0)"
        using az a l by (auto simp: n_def)
      obtain w where w: "fast_loop m get pp e' y = (False, w)" "wrote (take (o_avail y) r) y w" "holds pp w (drop (o_avail y) r)"
        using less.hyps [OF m h] by blast
      have "wrote (take (o_avail x) R) x w"
        unfolding tk using wrote_trans [OF wrote_same [OF W sw] w(2)] a by simp
      then show ?thesis using e w a tk(2) by auto
    qed
  qed
qed

text \<open>
  A block that ends where the count of a run should be: the loops read beyond it, notice only when the
  run is written, and until then have room for nothing else.
\<close>

definition overrun :: "nat \<Rightarrow> 'p outst \<Rightarrow> 'p outst \<Rightarrow> bool" where
  "overrun pp x y \<longleftrightarrow> ok (o_used y) (o_pos y) \<and> o_used y = pp + 1 \<and> 1 \<le> o_len y \<and> same_written x y"

definition bad :: "nat \<Rightarrow> 'p outst \<Rightarrow> bool" where
  "bad pp x \<longleftrightarrow> kept pp x \<and> rld (todo pp x) = None \<or> ok (o_used x) (o_pos x) \<and> o_used x = pp + 1"

lemma fetch_count_bad:
  assumes "ok (o_used x) (o_pos x)" "o_used x < pp" "run4 (left pp x) = None"
  shows "\<exists>y. fetch_count get x = (False, y) \<and> overrun pp x y"
proof -
  have u: "o_used x + 1 = pp" using assms(2,3) by (auto simp: run4_def left_def split: list.splits)
  obtain q where q: "get (o_pos x) = Some (byte (o_used x), q)" "ok (o_used x + 1) q" using get_ok assms(1) by blast
  obtain r where r: "get q = Some (byte (o_used x + 1), r)" "ok (o_used x + 1 + 1) r" using get_ok q(2) by blast
  show ?thesis using u q r by (auto simp: fetch_count_def next_byte_def overrun_def same_written_def Let_def)
qed

lemma fetch_third_bad:
  assumes "ok (o_used x) (o_pos x)" "o_used x < pp" "run3 (o_k0 x) (left pp x) = None"
  shows "\<exists>y. fetch_third get pp x = (False, y) \<and> overrun pp x y"
proof -
  let ?x = "x\<lparr>o_len := 3\<rparr>"
  have x: "ok (o_used ?x) (o_pos ?x)" "o_used ?x < pp" using assms by simp_all
  obtain b q where g: "next_byte get ?x = Some (b, ?x\<lparr>o_pos := q, o_used := o_used ?x + 1\<rparr>)" "ok (o_used ?x + 1) q"
      "left pp ?x = (if o_used ?x + 1 = pp then [] else b # left pp (?x\<lparr>o_pos := q, o_used := o_used ?x + 1\<rparr>))" "b = byte (o_used ?x)"
    using next_byte_ok [OF x] .
  let ?y = "?x\<lparr>o_pos := q, o_used := o_used ?x + 1\<rparr>"
  have "o_used x + 1 < pp" "b = o_k0 x" "run4 (left pp ?y) = None"
    using g(3) assms(2,3) by (auto simp: run3_def split: if_splits)
  moreover from fetch_count_bad [OF _ _ this(3)] g(2) this(1) obtain z where "fetch_count get ?y = (False, z)" "overrun pp ?y z" by auto
  ultimately show ?thesis using g(1) by (auto simp: fetch_third_def Let_def overrun_def same_written_def)
qed

lemma fetch_rest_bad:
  assumes "ok (o_used x) (o_pos x)" "o_used x < pp" "run2 (o_k0 x) (left pp x) = None"
  shows "\<exists>y. fetch_rest get pp x = (False, y) \<and> overrun pp x y"
proof -
  let ?x = "x\<lparr>o_len := 2\<rparr>"
  have x: "ok (o_used ?x) (o_pos ?x)" "o_used ?x < pp" using assms by simp_all
  obtain b q where g: "next_byte get ?x = Some (b, ?x\<lparr>o_pos := q, o_used := o_used ?x + 1\<rparr>)" "ok (o_used ?x + 1) q"
      "left pp ?x = (if o_used ?x + 1 = pp then [] else b # left pp (?x\<lparr>o_pos := q, o_used := o_used ?x + 1\<rparr>))" "b = byte (o_used ?x)"
    using next_byte_ok [OF x] .
  let ?y = "?x\<lparr>o_pos := q, o_used := o_used ?x + 1\<rparr>"
  have "o_used x + 1 < pp" "b = o_k0 x" "run3 (o_k0 ?y) (left pp ?y) = None"
    using g(3) assms(2,3) by (auto simp: run2_def split: if_splits)
  moreover from fetch_third_bad [OF _ _ this(3)] g(2) this(1) obtain z where "fetch_third get pp ?y = (False, z)" "overrun pp ?y z" by auto
  ultimately show ?thesis using g(1) by (auto simp: fetch_rest_def Let_def overrun_def same_written_def)
qed

lemma fetch_run_bad:
  assumes "ok (o_used x) (o_pos x)" "o_used x < pp" "run1 (o_k0 x) (left pp x) = None"
  shows "\<exists>y. fetch_run get pp x = (False, y) \<and> overrun pp x y"
    "\<exists>y. fast_fetch get pp x = Again False y \<and> overrun pp x y"
proof -
  have N: "\<exists>y. next_byte get x' = Some (o_k0 x, y) \<and> ok (o_used y) (o_pos y) \<and> o_used y < pp \<and> o_used y = o_used x + 1 \<and>
      o_k0 y = o_k0 x \<and> same_written x y \<and> run2 (o_k0 x) (left pp y) = None"
    if "x' = x\<lparr>o_len := n, o_ch := c\<rparr>" for x' n c
  proof -
    have x: "ok (o_used x') (o_pos x')" "o_used x' < pp" using assms that by simp_all
    obtain b q where g: "next_byte get x' = Some (b, x'\<lparr>o_pos := q, o_used := o_used x' + 1\<rparr>)" "ok (o_used x' + 1) q"
        "left pp x' = (if o_used x' + 1 = pp then [] else b # left pp (x'\<lparr>o_pos := q, o_used := o_used x' + 1\<rparr>))" "b = byte (o_used x')"
      using next_byte_ok [OF x] .
    moreover have "o_used x + 1 < pp" "b = o_k0 x" "run2 (o_k0 x) (left pp (x'\<lparr>o_pos := q, o_used := o_used x' + 1\<rparr>)) = None"
      using g(3) assms(2,3) that by (auto simp: run1_def split: if_splits)
    ultimately show ?thesis using that by (auto simp: same_written_def)
  qed
  from N [where n = 1 and c = "o_k0 x", OF refl] obtain y where y: "next_byte get (x\<lparr>o_len := 1, o_ch := o_k0 x\<rparr>) = Some (o_k0 x, y)"
      "ok (o_used y) (o_pos y)" "o_used y < pp" "o_k0 y = o_k0 x" "same_written x y" "run2 (o_k0 y) (left pp y) = None"
    by auto
  from fetch_rest_bad [OF y(2,3,6)] obtain z where "fetch_rest get pp y = (False, z)" "overrun pp y z" by blast
  then show "\<exists>y. fetch_run get pp x = (False, y) \<and> overrun pp x y"
    using y by (auto simp: fetch_run_def Let_def overrun_def same_written_def)
  from N [where x' = "x\<lparr>o_ch := o_k0 x\<rparr>" and n = "o_len x" and c = "o_k0 x"] obtain y where y: "next_byte get (x\<lparr>o_ch := o_k0 x\<rparr>) = Some (o_k0 x, y)"
      "ok (o_used y) (o_pos y)" "o_used y < pp" "o_k0 y = o_k0 x" "same_written x y" "run2 (o_k0 y) (left pp y) = None"
    by auto
  from fetch_rest_bad [OF y(2,3,6)] obtain z where "fetch_rest get pp y = (False, z)" "overrun pp y z" by blast
  then show "\<exists>y. fast_fetch get pp x = Again False y \<and> overrun pp x y"
    using y assms(2) by (auto simp: fast_fetch_def Let_def overrun_def same_written_def)
qed

text \<open>The next run of a block that is bad: either it is the one that is cut off, or the rest is bad.\<close>

lemma bad_same: "same_but_written x y \<Longrightarrow> bad pp x \<Longrightarrow> bad pp y"
  using kept_same [of x y pp] todo_same [of x y pp] by (auto simp: bad_def same_but_written_def)

lemma bad_run:
  assumes "bad pp x" "o_used x \<le> pp"
  shows "o_used x < pp" "ok (o_used x) (o_pos x)"
    "run1 (o_k0 x) (left pp x) = None \<or> (\<exists>n D. run1 (o_k0 x) (left pp x) = Some (n, D) \<and> rld D = None)"
proof -
  have b: "kept pp x" "rld (todo pp x) = None" using assms by (auto simp: bad_def)
  show u: "o_used x < pp" using b(2) by (auto simp: todo_def split: if_splits)
  show "ok (o_used x) (o_pos x)" using b(1) by (simp add: kept_def)
  show "run1 (o_k0 x) (left pp x) = None \<or> (\<exists>n D. run1 (o_k0 x) (left pp x) = Some (n, D) \<and> rld D = None)"
    using b(2) u by (auto simp: todo_def rld_run split: option.splits)
qed

lemma fetch_bad:
  assumes "bad pp x" "o_used x \<le> pp"
  shows "\<exists>y. fetch_run get pp x = (False, y) \<and> bad pp y \<and> same_written x y \<and> 1 \<le> o_len y"
    "\<exists>e y. fast_fetch get pp x = Again e y \<and> bad pp y \<and> same_written x y \<and> (e \<or> 1 \<le> o_len y)"
proof -
  note B = bad_run [OF assms]
  have O: "overrun pp x y \<Longrightarrow> bad pp y \<and> same_written x y \<and> 1 \<le> o_len y" for y by (auto simp: overrun_def bad_def)
  have F: "fetched pp (x\<lparr>o_ch := o_k0 x\<rparr>) n D y \<Longrightarrow> rld D = None \<Longrightarrow> 1 \<le> n \<Longrightarrow> bad pp y \<and> same_written x y \<and> 1 \<le> o_len y" for n D y
    by (auto simp: fetched_def bad_def same_written_def)
  have L: "bad pp (at_label e y) = bad pp y" "same_written x (at_label e y) = same_written x y" for e y
    by (auto simp: at_label_def bad_def kept_def todo_def left_def same_written_def)
  show "\<exists>y. fetch_run get pp x = (False, y) \<and> bad pp y \<and> same_written x y \<and> 1 \<le> o_len y"
  proof (cases "run1 (o_k0 x) (left pp x)")
    case None
    then show ?thesis using fetch_run_bad(1) [OF B(2,1)] O by blast
  next
    case (Some nD)
    then obtain n D where n: "run1 (o_k0 x) (left pp x) = Some (n, D)" "rld D = None" using B(3) by auto
    then show ?thesis using fetch_run_ok [OF B(2,1) n(1)] F [OF _ n(2) run_pos(1) [OF n(1)]] by blast
  qed
  show "\<exists>e y. fast_fetch get pp x = Again e y \<and> bad pp y \<and> same_written x y \<and> (e \<or> 1 \<le> o_len y)"
  proof (cases "run1 (o_k0 x) (left pp x)")
    case None
    then show ?thesis using fetch_run_bad(2) [OF B(2,1)] O by blast
  next
    case (Some nD)
    then obtain n D where n: "run1 (o_k0 x) (left pp x) = Some (n, D)" "rld D = None" using B(3) by auto
    obtain e y where "fast_fetch get pp x = Again e y" "fetched pp (x\<lparr>o_ch := o_k0 x\<rparr>) n D (at_label e y)"
      using fast_fetch_ok [OF B(2,1) n(1)] by blast
    then show ?thesis using F [OF _ n(2) run_pos(1) [OF n(1)]] L [of e y] by (auto simp: at_label_def split: if_splits)
  qed
qed

lemma plain_bad:
  "bad pp x \<Longrightarrow> \<exists>c y w. unRLE_plain get pp x = (c, y) \<and> wrote w x y \<and> (c \<or> bad pp y \<and> o_avail y = 0)"
proof (induction "2 * o_avail x + of_bool (o_len x = 0)" arbitrary: x rule: less_induct)
  case less
  define z where "z = drain x"
  have D: "\<exists>w. wrote w x z" "bad pp z" using drain_spec [of x] bad_same less.prems by (auto simp: z_def)
  show ?case
  proof (cases "o_avail z = 0 \<or> o_used z > pp")
    case True
    then show ?thesis using D by (auto simp: unRLE_plain.simps [of get pp x] Let_def z_def)
  next
    case False
    then have u: "o_used z \<le> pp" "o_used z \<noteq> pp" using bad_run(1) [OF D(2)] by auto
    obtain y where y: "fetch_run get pp z = (False, y)" "bad pp y" "same_written z y" "1 \<le> o_len y"
      using fetch_bad(1) [OF D(2) u(1)] by blast
    have e: "unRLE_plain get pp x = unRLE_plain get pp y"
      using False u y(1) by (simp add: unRLE_plain.simps [of get pp x] Let_def z_def)
    have "2 * o_avail y + of_bool (o_len y = 0) < 2 * o_avail x + of_bool (o_len x = 0)"
      using y(3,4) drain_le [of x] False by (cases "o_len x = 0") (auto simp: same_written_def z_def)
    from less.hyps [OF this y(2)] show ?thesis unfolding e using D(1) y(3) wrote_same wrote_trans by metis
  qed
qed

lemma fast_bad:
  "bad pp x \<Longrightarrow> \<exists>c y w. fast_loop m get pp e x = (c, y) \<and> wrote w x y \<and> (c \<or> bad pp y \<and> o_avail y = 0)"
proof (induction "2 * o_avail x + of_bool (\<not> e \<and> o_len x = 0)" arbitrary: e x rule: less_induct)
  case less
  show ?case
  proof (cases "fast_emit m e x")
    case (Inl y)
    note S = fast_emit_spec(1) [OF Inl]
    then have "bad pp y" using bad_same less.prems by blast
    moreover have "o_avail y = 0" using S by (auto simp: wrote_def)
    ultimately show ?thesis using S Inl by (auto simp: fast_loop.simps [of m get pp e x])
  next
    case (Inr z)
    note S = fast_emit_spec(2) [OF Inr]
    then have D: "\<exists>w. wrote w x z" "bad pp z" using bad_same less.prems by blast+
    show ?thesis
    proof (cases "o_used z > pp")
      case True
      then show ?thesis using D Inr by (auto simp: fast_loop.simps [of m get pp e x] fast_fetch_def)
    next
      case False
      then obtain e' y where y: "fast_fetch get pp z = Again e' y" "bad pp y" "same_written z y" "e' \<or> 1 \<le> o_len y"
        using fetch_bad(2) [OF D(2)] by auto
      have e: "fast_loop m get pp e x = fast_loop m get pp e' y"
        using Inr y(1) by (simp add: fast_loop.simps [of m get pp e x])
      have "2 * o_avail y + of_bool (\<not> e' \<and> o_len y = 0) < 2 * o_avail x + of_bool (\<not> e \<and> o_len x = 0)"
        using y(3,4) fast_emit_le [OF Inr] by (cases "e \<or> 0 < o_len x") (auto simp: same_written_def)
      from less.hyps [OF this y(2)] show ?thesis unfolding e using D(1) y(3) wrote_same wrote_trans by metis
    qed
  qed
qed

end

end
