(* ===== verification/OutputRun.thy ===== *)
theory OutputRun
  imports OutputSpec
begin

text \<open>
  \<open>unRLE_obuf_to_output_FAST\<close> and \<open>unRLE_obuf_to_output_SMALL\<close> on the whole state: the sources of bytes they use,
  with and without randomisation, are interpretations of \<open>byte_source\<close>, so both write the next bytes of the
  same decoded block, whatever the sizes of the output buffers it is collected in.
\<close>

section \<open>The sources of bytes\<close>

definition tpos_ok :: "(nat \<Rightarrow> nat) \<Rightarrow> dstate \<Rightarrow> nat \<Rightarrow> u32 \<Rightarrow> bool" where
  "tpos_ok L s u p \<longleftrightarrow> src_at L u (s\<lparr>tPos := p\<rparr>)"

definition rpos_ok :: "(nat \<Rightarrow> nat) \<Rightarrow> dstate \<Rightarrow> nat \<Rightarrow> rpos \<Rightarrow> bool" where
  "rpos_ok L s u p \<longleftrightarrow> (case p of (t, gr) \<Rightarrow> src_at L u (s\<lparr>tPos := t\<rparr>) \<and> gr = rand_state u)"

lemma same_src_tPos [simp]: "same_src s (s\<lparr>tPos := p\<rparr>)"
  by (simp add: same_src_def)

interpretation plain: byte_source "plain_get get_byte s" "tpos_ok L s" "walk_byte L s" for s L
proof
  fix u p assume "tpos_ok L s u p"
  then have "\<exists>q. get_byte (s\<lparr>tPos := p\<rparr>) = Some (walk_byte L s u, (s\<lparr>tPos := p\<rparr>)\<lparr>tPos := q\<rparr>) \<and> src_at L (u + 1) (s\<lparr>tPos := q\<rparr>)"
    using get_byte_ok [of L u "s\<lparr>tPos := p\<rparr>"] walk_byte_cong [of s "s\<lparr>tPos := p\<rparr>" L u] by (auto simp: tpos_ok_def)
  then show "\<exists>q. plain_get get_byte s p = Some (walk_byte L s u, q) \<and> tpos_ok L s (u + 1) q"
    by (auto simp: plain_get_def tpos_ok_def)
qed

interpretation rand: byte_source "rand_get get_byte s" "rpos_ok L s" "\<lambda>u. walk_byte L s u XOR rand_mask u" for s L
proof
  fix u p assume A: "rpos_ok L s u p"
  obtain t g r where p: "p = (t, g, r)" by (cases p)
  have R: "(g, r) = rand_state u" using A by (auto simp: rpos_ok_def p)
  let ?s = "set_rand_pos p s"
  have S: "same_src (s\<lparr>tPos := t\<rparr>) ?s" "tPos ?s = t" "same_src s ?s" by (simp_all add: same_src_def set_rand_pos_def p)
  have "src_at L u ?s" using src_at_cong [OF S(1)] S(2) A by (simp add: rpos_ok_def p)
  then obtain q where q: "get_byte ?s = Some (walk_byte L ?s u, ?s\<lparr>tPos := q\<rparr>)" "src_at L (u + 1) (?s\<lparr>tPos := q\<rparr>)"
    using get_byte_ok by blast
  let ?t = "BZ_RAND_UPD_MASK (?s\<lparr>tPos := q\<rparr>)"
  have U: "(rNToGo ?t, rTPos ?t) = rand_state (u + 1)"
    unfolding RAND_UPD_step by (simp add: rand_state_Suc flip: R) (simp add: set_rand_pos_def p)
  have m: "BZ_RAND_MASK ?t = rand_mask u" using arg_cong [OF U, of fst] by (simp add: BZ_RAND_MASK_def rand_mask_def)
  have P: "rand_pos ?t = (q, rand_state (u + 1))" unfolding U [symmetric] by (simp add: rand_pos_def rand_src)
  have "same_src (?s\<lparr>tPos := q\<rparr>) (s\<lparr>tPos := q\<rparr>)" using S(3) by (auto simp: same_src_def)
  then have "src_at L (u + 1) (s\<lparr>tPos := q\<rparr>)" using src_at_cong q(2) by fastforce
  then show "\<exists>q. rand_get get_byte s p = Some (walk_byte L s u XOR rand_mask u, q) \<and> rpos_ok L s (u + 1) q"
    using q(1) m P walk_byte_cong [OF S(3)] by (simp add: rand_get_def Let_def rpos_ok_def)
qed

text \<open>The macros of each function are \<open>get_byte\<close>.\<close>

lemma gets_eq:
  "\<not> smallDecompress s \<Longrightarrow> BZ_GET_FAST_C (tt s) (blockSize100k s) = plain_get get_byte s"
  "\<not> smallDecompress s \<Longrightarrow> rand_get BZ_GET_FAST s = rand_get get_byte s"
  "smallDecompress s \<Longrightarrow> plain_get BZ_GET_SMALL s = plain_get get_byte s"
  "smallDecompress s \<Longrightarrow> rand_get BZ_GET_SMALL s = rand_get get_byte s"
  by (auto simp: fun_eq_iff BZ_GET_FAST_C_def plain_get_def rand_get_def BZ_GET_FAST_def tpos_bad_def get_byte_def
      set_rand_pos_def Let_def split: prod.split)

section \<open>The state between two calls\<close>

definition out_at :: "(nat \<Rightarrow> nat) \<Rightarrow> dstate \<Rightarrow> bool" where
  "out_at L s \<longleftrightarrow> src_at L (nblock_used s) s \<and> 1 \<le> nblock_used s \<and> nblock_used s \<le> save_nblock (dsv s) + 1 \<and>
     (nblock_used s \<le> save_nblock (dsv s) \<longrightarrow> k0 s = block_byte L s (nblock_used s - 1)) \<and>
     (blockRandomised s \<longrightarrow> (rNToGo s, rTPos s) = rand_state (nblock_used s))"

text \<open>The bytes of the block, and the output that is still to come.\<close>

definition block_bytes :: "(nat \<Rightarrow> nat) \<Rightarrow> dstate \<Rightarrow> u8 list" where
  "block_bytes L s = map (block_byte L s) [0..<save_nblock (dsv s)]"

definition out_left :: "(nat \<Rightarrow> nat) \<Rightarrow> dstate \<Rightarrow> u8 list option" where
  "out_left L s = map_option ((@) (replicate (state_out_len s) (state_out_ch s))) (rld (drop (nblock_used s - 1) (block_bytes L s)))"

lemma out_ready_at: "out_ready L s \<Longrightarrow> out_at L s \<and> out_left L s = rld (block_bytes L s)"
  by (cases "rld (block_bytes L s)") (auto simp: out_ready_def out_at_def out_left_def)

lemma rld_Nil: "rld xs = Some [] \<Longrightarrow> xs = []"
proof (cases xs)
  case (Cons a bs)
  assume "rld xs = Some []"
  then obtain n cs r where "run1 a bs = Some (n, cs)" "[] = replicate n a @ r" using Cons rld_runE by metis
  then show ?thesis using run_pos(1) by fastforce
qed

text \<open>The test at the end of a block: nothing is left.\<close>

lemma block_done_iff:
  assumes "out_at L s"
  shows "nblock_used s = save_nblock (dsv s) + 1 \<and> state_out_len s = 0 \<longleftrightarrow> out_left L s = Some []"
proof
  assume "nblock_used s = save_nblock (dsv s) + 1 \<and> state_out_len s = 0"
  then show "out_left L s = Some []" by (simp add: out_left_def block_bytes_def)
next
  assume "out_left L s = Some []"
  then have l: "state_out_len s = 0" and r: "rld (drop (nblock_used s - 1) (block_bytes L s)) = Some []"
    by (auto simp: out_left_def)
  from rld_Nil [OF r] have "save_nblock (dsv s) \<le> nblock_used s - 1" by (simp add: block_bytes_def)
  then show "nblock_used s = save_nblock (dsv s) + 1 \<and> state_out_len s = 0" using l assms by (auto simp: out_at_def)
qed

text \<open>What a call may change, and what it has to change.\<close>

definition total_out :: "bz_stream \<Rightarrow> u64" where
  "total_out strm = ucast (total_out_hi32 strm) * 2 ^ 32 + ucast (total_out_lo32 strm)"

definition out_frame :: "dstate \<Rightarrow> dstate \<Rightarrow> bool" where
  "out_frame s s' \<longleftrightarrow> (\<exists>c l u k p g r crc buf av lo hi.
     s' = s\<lparr>state_out_ch := c, state_out_len := l, nblock_used := u, k0 := k, tPos := p, rNToGo := g, rTPos := r,
       calculatedBlockCRC := crc,
       dstrm := (dstrm s)\<lparr>out_buf := buf, avail_out := av, total_out_lo32 := lo, total_out_hi32 := hi\<rparr>\<rparr>)"

definition emitted :: "u8 list \<Rightarrow> dstate \<Rightarrow> dstate \<Rightarrow> bool" where
  "emitted w s s' \<longleftrightarrow> out_frame s s' \<and> out_buf (dstrm s') = out_buf (dstrm s) @ w \<and>
     avail_out (dstrm s) = length w + avail_out (dstrm s') \<and>
     calculatedBlockCRC s' = crc_bytes (calculatedBlockCRC s) w \<and>
     total_out (dstrm s') = total_out (dstrm s) + word_of_nat (length w)"

section \<open>The 64-bit total\<close>

definition o_total :: "'p outst \<Rightarrow> u64" where
  "o_total x = ucast (o_hi x) * 2 ^ 32 + ucast (o_lo x)"

lemma u32_less: "unat (x :: u32) < 2 ^ 32"
  using unsigned_less [of x, where ?'a = nat] by simp

lemma hi_carry: "(ucast (x + 1 :: u32) :: u64) * 2 ^ 32 = ucast x * 2 ^ 32 + 2 ^ 32"
proof (cases "x = -1")
  case True
  have x: "x = 0xffffffff" unfolding True by simp
  have "(ucast x :: u64) = 0xffffffff" unfolding x by simp
  moreover have "x + 1 = 0" using True by simp
  ultimately show ?thesis by simp
next
  case False
  then have "unat x + 1 < 2 ^ 32"
proof -
    have "unat x \<noteq> 2 ^ 32 - 1"
    proof
      assume "unat x = 2 ^ 32 - 1"
      then have "x = word_of_nat (2 ^ 32 - 1)" by (metis of_nat_unat ucast_id)
      then show False using False by simp
    qed
    then show ?thesis using u32_less [of x] by simp
  qed
  then have u: "unat (x + 1) = unat x + 1" by (simp add: unat_plus_if' )
  have "(ucast (x + 1) :: u64) = word_of_nat (unat (x + 1))" by simp
  also have "\<dots> = ucast x + 1" unfolding u by simp
  finally show ?thesis by (simp add: distrib_right)
qed

lemma carry_total:
  fixes lo hi n :: u32
  shows "(ucast (if lo + n < lo then hi + 1 else hi) :: u64) * 2 ^ 32 + ucast (lo + n) = ucast hi * 2 ^ 32 + ucast lo + ucast n"
proof (cases "unat lo + unat n < 2 ^ 32")
  case True
  then have u: "unat (lo + n) = unat lo + unat n" by (simp add: unat_plus_if')
  then have "\<not> lo + n < lo" by (simp add: word_less_nat_alt)
  moreover have "(ucast (lo + n) :: u64) = word_of_nat (unat (lo + n))" by simp
  then have "(ucast (lo + n) :: u64) = ucast lo + ucast n" unfolding u by simp
  ultimately show ?thesis by simp
next
  case False
  then have u: "unat (lo + n) + 2 ^ 32 = unat lo + unat n" by (simp add: unat_plus_if')
  then have c: "lo + n < lo" using u32_less [of n] by (simp add: word_less_nat_alt)
  have "(ucast (lo + n) :: u64) + 2 ^ 32 = word_of_nat (unat (lo + n) + 2 ^ 32)" by simp
  then have "2 ^ 32 + (ucast (lo + n) :: u64) = ucast lo + ucast n" unfolding u by (simp add: add.commute)
  then show ?thesis using c by (simp only: hi_carry if_True add.assoc)
qed
lemma put_byte_total: "0 < o_avail x \<Longrightarrow> o_total (put_byte x) = o_total x + 1 \<and> o_avail (put_byte x) = o_avail x - 1"
proof -
  have "o_lo x + 1 = 0 \<longleftrightarrow> o_lo x + 1 < o_lo x"
  proof
    show "o_lo x + 1 = 0 \<Longrightarrow> o_lo x + 1 < o_lo x" by (cases "o_lo x = 0") (simp_all add: word_neq_0_conv)
    show "o_lo x + 1 < o_lo x \<Longrightarrow> o_lo x + 1 = 0" using unatSuc [of "o_lo x"] by (fastforce simp: word_less_nat_alt add.commute)
  qed
  then show ?thesis using carry_total [of "o_lo x" 1 "o_hi x"] by (simp add: put_byte_def Let_def o_total_def)
qed

lemma drain_total: "o_total (drain x) = o_total x + word_of_nat (o_avail x - o_avail (drain x))"
proof (induction x rule: drain.induct)
  case (1 x)
  show ?case
  proof (cases "o_avail x = 0 \<or> o_len x = 0")
    case True
    then show ?thesis by (simp add: drain.simps [of x])
  next
    case False
    then have e: "drain x = drain (put_byte x)" and a: "0 < o_avail x" by (simp_all add: drain.simps [of x])
    have "o_avail x - o_avail (drain x) = Suc (o_avail (put_byte x) - o_avail (drain x))"
      using a put_byte_total [OF a] drain_le(1) [of "put_byte x"] e by simp
    then show ?thesis using 1 False put_byte_total [OF a] e by simp
  qed
qed

lemma fetch_total:
  "fetch_count get x = (c, y) \<Longrightarrow> o_total y = o_total x"
  "fetch_third get pp x = (c, y) \<Longrightarrow> o_total y = o_total x"
  "fetch_rest get pp x = (c, y) \<Longrightarrow> o_total y = o_total x"
  "fetch_run get pp x = (c, y) \<Longrightarrow> o_total y = o_total x"
proof -
  show C: "fetch_count get x = (c, y) \<Longrightarrow> o_total y = o_total x" for x c y
    by (auto simp: fetch_count_def next_byte_def Let_def o_total_def split: option.splits)
  show T: "fetch_third get pp x = (c, y) \<Longrightarrow> o_total y = o_total x" for x c y
    using C by (fastforce simp: fetch_third_def next_byte_def Let_def o_total_def split: option.splits if_splits)
  show R: "fetch_rest get pp x = (c, y) \<Longrightarrow> o_total y = o_total x" for x c y
    using T by (fastforce simp: fetch_rest_def next_byte_def Let_def o_total_def split: option.splits if_splits)
  show "fetch_run get pp x = (c, y) \<Longrightarrow> o_total y = o_total x"
    using R by (fastforce simp: fetch_run_def next_byte_def Let_def o_total_def split: option.splits if_splits)
qed

lemma plain_total:
  "unRLE_plain get pp x = (c, y) \<Longrightarrow> o_avail y \<le> o_avail x \<and> o_total y = o_total x + word_of_nat (o_avail x - o_avail y)"
proof (induction get pp x arbitrary: c y rule: unRLE_plain.induct)
  case (1 get pp x)
  let ?z = "drain x"
  have D: "o_avail ?z \<le> o_avail x" "o_total ?z = o_total x + word_of_nat (o_avail x - o_avail ?z)"
    using drain_le(1) drain_total by blast+
  obtain d w where F: "fetch_run get pp ?z = (d, w)" by fastforce
  have w: "o_avail w = o_avail ?z" "o_total w = o_total ?z" using fetch_frame(4) [OF F] fetch_total(4) [OF F] by simp_all
  show ?case
  proof (cases "o_avail ?z = 0 \<or> o_used ?z \<ge> pp \<or> d")
    case True
    then have "y = ?z \<or> y = w" using 1(2) F by (auto simp: unRLE_plain.simps [of get pp x] Let_def split: if_splits)
    then show ?thesis using D w by auto
  next
    case False
    then have e: "unRLE_plain get pp w = (c, y)" using 1(2) F by (simp add: unRLE_plain.simps [of get pp x] Let_def)
    have "o_avail y \<le> o_avail w \<and> o_total y = o_total w + word_of_nat (o_avail w - o_avail y)"
      by (rule 1(1) [OF refl _ _ _ F [symmetric] _ e]) (use False in auto)
    moreover have "o_avail x - o_avail y = (o_avail x - o_avail ?z) + (o_avail ?z - o_avail y)" if "o_avail y \<le> o_avail ?z"
      using that D by linarith
    ultimately show ?thesis using D w by simp
  qed
qed

lemma batch_total: "o_lo (batch m x) = o_lo x \<and> o_hi (batch m x) = o_hi x"
  by (induction m x rule: batch.induct) (subst (1 2) batch.simps, auto simp: put_run_def Let_def)

lemma fetch_rest_total: "fetch_rest get pp x = (c, y) \<Longrightarrow> o_lo y = o_lo x \<and> o_hi y = o_hi x"
  by (fastforce simp: fetch_rest_def fetch_third_def fetch_count_def next_byte_def Let_def split: option.splits if_splits)

lemma fast_total: "fast_loop m get pp e x = (c, y) \<Longrightarrow> o_lo y = o_lo x \<and> o_hi y = o_hi x"
proof (induction m get pp e x arbitrary: c y rule: fast_loop.induct)
  case (1 m get pp e x)
  have E: "fast_emit m e x = Inl z \<or> fast_emit m e x = Inr z \<Longrightarrow> o_lo z = o_lo x \<and> o_hi z = o_hi x" for z
    using batch_total [of m x] by (auto simp: fast_emit_def eq_one_def Let_def split: if_splits)
  have F: "fast_fetch get pp z = Stop d w \<or> fast_fetch get pp z = Again d w \<Longrightarrow> o_lo w = o_lo z \<and> o_hi w = o_hi z" for z d w
    using fetch_rest_total [of get pp]
    by (fastforce simp: fast_fetch_def next_byte_def Let_def split: if_splits option.splits prod.splits bool.splits)
  show ?case
  proof (cases "fast_emit m e x")
    case (Inl z)
    then show ?thesis using 1(2) E by (simp add: fast_loop.simps [of m get pp e x])
  next
    case (Inr z)
    then show ?thesis using 1 E F
      by (cases "fast_fetch get pp z") (fastforce simp: fast_loop.simps [of m get pp e x])+
  qed
qed

lemma fast_totals_total:
  assumes "n - o_avail x < 2 ^ 32"
  shows "o_total (fast_totals n x) = o_total x + word_of_nat (n - o_avail x)"
proof -
  let ?n = "word_of_nat (n - o_avail x) :: u32"
  have "unat ?n = n - o_avail x" using assms by (simp add: unsigned_of_nat take_bit_nat_eq_self)
  then have "(ucast ?n :: u64) = word_of_nat (n - o_avail x)" by (metis of_nat_unat)
  then show ?thesis using carry_total [of "o_lo x" ?n "o_hi x"] by (simp add: fast_totals_def Let_def o_total_def)
qed

section \<open>The whole state\<close>

abbreviation set_tPos :: "u32 \<Rightarrow> dstate \<Rightarrow> dstate" where
  "set_tPos p s \<equiv> s\<lparr>tPos := p\<rparr>"

lemma set_tPos_only: "\<exists>t g r. set_tPos p s = s\<lparr>tPos := t, rNToGo := g, rTPos := r\<rparr>"
  by (intro exI [of _ p] exI [of _ "rNToGo s"] exI [of _ "rTPos s"]) simp

lemma emitted_store:
  assumes "wrote w (load_out pos s) y" "o_total y = o_total (load_out pos s) + word_of_nat (length w)"
    and "\<And>p. \<exists>t g r. set_pos p s = s\<lparr>tPos := t, rNToGo := g, rTPos := r\<rparr>"
  shows "emitted w s (store_out set_pos y s)"
proof -
  obtain t g r where p: "set_pos (o_pos y) s = s\<lparr>tPos := t, rNToGo := g, rTPos := r\<rparr>" using assms(3) by blast
  let ?s = "store_out set_pos y s"
  have e: "?s = s\<lparr>state_out_ch := o_ch y, state_out_len := o_len y, nblock_used := o_used y, k0 := o_k0 y,
      tPos := t, rNToGo := g, rTPos := r, calculatedBlockCRC := o_crc y,
      dstrm := (dstrm s)\<lparr>out_buf := o_buf y, avail_out := o_avail y, total_out_lo32 := o_lo y, total_out_hi32 := o_hi y\<rparr>\<rparr>"
    by (simp add: store_out_def p)
  have "out_frame s ?s" unfolding out_frame_def by (intro exI, rule e)
  then show ?thesis using assms(1,2)
    by (auto simp: e emitted_def wrote_def load_out_def total_out_def o_total_def)
qed

lemma out_frame_refl: "out_frame s s"
proof -
  have "s = s\<lparr>state_out_ch := state_out_ch s, state_out_len := state_out_len s, nblock_used := nblock_used s,
      k0 := k0 s, tPos := tPos s, rNToGo := rNToGo s, rTPos := rTPos s, calculatedBlockCRC := calculatedBlockCRC s,
      dstrm := (dstrm s)\<lparr>out_buf := out_buf (dstrm s), avail_out := avail_out (dstrm s),
        total_out_lo32 := total_out_lo32 (dstrm s), total_out_hi32 := total_out_hi32 (dstrm s)\<rparr>\<rparr>" by simp
  then show ?thesis unfolding out_frame_def by (intro exI)
qed

lemma out_frame_src: "out_frame s s' \<Longrightarrow> same_src s s' \<and> dsv s' = dsv s"
  by (auto simp: out_frame_def same_src_def)

lemma drop_block: "map f [u..<n] = drop u (map f [0..<n])"
  by (simp add: drop_map)

text \<open>The bytes not yet taken into a run, as the loops see them and as a part of the block.\<close>

lemma todo_block:
  assumes "1 \<le> u" "u < n + 1 \<longrightarrow> k = f (u - 1)"
  shows "(if u < n + 1 then k # map f [u..<n + 1 - 1] else []) = drop (u - 1) (map f [0..<n])"
proof (cases "u \<le> n")
  case True
  then have "drop (u - 1) (map f [0..<n]) = map f [u - 1..<n]" by (simp add: drop_map)
  also have "\<dots> = f (u - 1) # map f [u..<n]" using True assms(1) by (simp add: upt_conv_Cons)
  finally show ?thesis using True assms by simp
qed (use assms in simp)

lemma plain_holds:
  assumes "\<not> blockRandomised s" "out_at L s" "out_left L s = Some R"
  shows "plain.holds L s (save_nblock (dsv s) + 1) (load_out tPos s) R"
proof -
  have b: "block_byte L s = walk_byte L s" using assms(1) by (simp add: fun_eq_iff block_byte_def)
  have k: "plain.kept L s (save_nblock (dsv s) + 1) (load_out tPos s)"
    using assms(2) by (auto simp: plain.kept_def load_out_def tpos_ok_def out_at_def b)
  moreover have "plain.todo L s (save_nblock (dsv s) + 1) (load_out tPos s) = drop (nblock_used s - 1) (block_bytes L s)"
    unfolding plain.todo_def plain.left_def block_bytes_def b
    using todo_block [of "nblock_used s" "save_nblock (dsv s)" "k0 s" "walk_byte L s"] assms(2) b
    by (auto simp: load_out_def out_at_def)
  ultimately show ?thesis using assms(3) by (simp add: plain.holds_def out_left_def load_out_def)
qed

lemma plain_stored:
  assumes "\<not> blockRandomised s" "plain.holds L s (save_nblock (dsv s) + 1) y R" "emitted w s s'"
    and s': "s' = store_out set_tPos z s" "o_used z = o_used y" "o_k0 z = o_k0 y" "o_pos z = o_pos y" "o_len z = o_len y" "o_ch z = o_ch y"
  shows "out_at L s' \<and> out_left L s' = Some R"
proof -
  have S: "same_src s s'" "dsv s' = dsv s" using assms(3) out_frame_src by (auto simp: emitted_def)
  have F: "nblock_used s' = o_used y" "k0 s' = o_k0 y" "tPos s' = o_pos y" "state_out_len s' = o_len y" "state_out_ch s' = o_ch y"
    by (simp_all add: s' store_out_def)
  have b: "block_byte L s' = walk_byte L s"
    using S(1) assms(1) block_byte_cong [OF S(1)] by (auto simp: fun_eq_iff block_byte_def)
  have K: "plain.kept L s (save_nblock (dsv s) + 1) y" using assms(2) by (simp add: plain.holds_def)
  have "same_src (s\<lparr>tPos := o_pos y\<rparr>) s'" using S(1) by (simp add: same_src_def)
  then have "src_at L (o_used y) s'" using src_at_cong K F(3) by (fastforce simp: plain.kept_def tpos_ok_def)
  then have A: "out_at L s'" using K S assms(1) F by (auto simp: out_at_def plain.kept_def b same_src_def)
  moreover have "plain.todo L s (save_nblock (dsv s) + 1) y = drop (nblock_used s' - 1) (block_bytes L s')"
    unfolding plain.todo_def plain.left_def block_bytes_def b S(2)
    using todo_block [of "nblock_used s'" "save_nblock (dsv s)" "k0 s'" "walk_byte L s"] A b S(2) F
    by (auto simp: out_at_def)
  ultimately show ?thesis using assms(2) F by (simp add: plain.holds_def out_left_def)
qed

lemma rand_holds:
  assumes "blockRandomised s" "out_at L s" "out_left L s = Some R"
  shows "rand.holds L s (save_nblock (dsv s) + 1) (load_out rand_pos s) R"
proof -
  have b: "block_byte L s = (\<lambda>u. walk_byte L s u XOR rand_mask u)" using assms(1) by (simp add: fun_eq_iff block_byte_def)
  have k: "rand.kept L s (save_nblock (dsv s) + 1) (load_out rand_pos s)"
    using assms(1,2) by (auto simp: rand.kept_def load_out_def rpos_ok_def out_at_def b rand_pos_def)
  moreover have "rand.todo L s (save_nblock (dsv s) + 1) (load_out rand_pos s) = drop (nblock_used s - 1) (block_bytes L s)"
    unfolding rand.todo_def rand.left_def block_bytes_def b
    using todo_block [of "nblock_used s" "save_nblock (dsv s)" "k0 s" "block_byte L s"] assms(2) b
    by (auto simp: load_out_def out_at_def)
  ultimately show ?thesis using assms(3) by (simp add: rand.holds_def out_left_def load_out_def)
qed

lemma rand_stored:
  assumes "blockRandomised s" "rand.holds L s (save_nblock (dsv s) + 1) y R" "emitted w s s'"
    and s': "s' = store_out set_rand_pos y s"
  shows "out_at L s' \<and> out_left L s' = Some R"
proof -
  have S: "same_src s s'" "dsv s' = dsv s" using assms(3) out_frame_src by (auto simp: emitted_def)
  obtain t g r where p: "o_pos y = (t, g, r)" by (cases "o_pos y")
  have F: "nblock_used s' = o_used y" "k0 s' = o_k0 y" "tPos s' = t" "rNToGo s' = g" "rTPos s' = r"
      "state_out_len s' = o_len y" "state_out_ch s' = o_ch y"
    by (simp_all add: s' store_out_def set_rand_pos_def p)
  have b: "block_byte L s' = (\<lambda>u. walk_byte L s u XOR rand_mask u)"
    using S(1) assms(1) block_byte_cong [OF S(1)] by (auto simp: fun_eq_iff block_byte_def)
  have K: "rand.kept L s (save_nblock (dsv s) + 1) y" using assms(2) by (simp add: rand.holds_def)
  have "same_src (s\<lparr>tPos := t\<rparr>) s'" using S(1) by (simp add: same_src_def)
  then have "src_at L (o_used y) s'" using src_at_cong K F(3) by (fastforce simp: rand.kept_def rpos_ok_def p)
  then have A: "out_at L s'" using K S F by (auto simp: out_at_def rand.kept_def b same_src_def rpos_ok_def p)
  moreover have "rand.todo L s (save_nblock (dsv s) + 1) y = drop (nblock_used s' - 1) (block_bytes L s')"
    unfolding rand.todo_def rand.left_def block_bytes_def b S(2)
    using todo_block [of "nblock_used s'" "save_nblock (dsv s)" "k0 s'" "block_byte L s'"] A b S(2) F
    by (auto simp: out_at_def)
  ultimately show ?thesis using assms(2) F by (simp add: rand.holds_def out_left_def)
qed

text \<open>The loop over single bytes, with and without randomisation.\<close>

lemma rand_written:
  assumes "blockRandomised s" "out_at L s" "out_left L s = Some R"
  shows "\<exists>y. unRLE_plain (rand_get get_byte s) (save_nblock (dsv s) + 1) (load_out rand_pos s) = (False, y) \<and>
    (let s' = store_out set_rand_pos y s in
     emitted (take (avail_out (dstrm s)) R) s s' \<and> out_at L s' \<and> out_left L s' = Some (drop (avail_out (dstrm s)) R))"
proof -
  have a: "o_avail (load_out rand_pos s) = avail_out (dstrm s)" by (simp add: load_out_def)
  obtain y where y: "unRLE_plain (rand_get get_byte s) (save_nblock (dsv s) + 1) (load_out rand_pos s) = (False, y)"
      "wrote (take (avail_out (dstrm s)) R) (load_out rand_pos s) y"
      "rand.holds L s (save_nblock (dsv s) + 1) y (drop (avail_out (dstrm s)) R)"
    using rand.plain_ok [OF rand_holds [OF assms]] unfolding a by blast
  have "emitted (take (avail_out (dstrm s)) R) s (store_out set_rand_pos y s)"
    using plain_total [OF y(1)] y(2)
    by (intro emitted_store) (auto simp: wrote_def set_rand_pos_def split: prod.split)
  then show ?thesis using rand_stored [OF assms(1) y(3) _ refl] y(1) by (auto simp: Let_def)
qed

lemma plain_written:
  assumes "\<not> blockRandomised s" "out_at L s" "out_left L s = Some R"
  shows "\<exists>y. unRLE_plain (plain_get get_byte s) (save_nblock (dsv s) + 1) (load_out tPos s) = (False, y) \<and>
    (let s' = store_out set_tPos y s in
     emitted (take (avail_out (dstrm s)) R) s s' \<and> out_at L s' \<and> out_left L s' = Some (drop (avail_out (dstrm s)) R))"
proof -
  have a: "o_avail (load_out tPos s) = avail_out (dstrm s)" by (simp add: load_out_def)
  obtain y where y: "unRLE_plain (plain_get get_byte s) (save_nblock (dsv s) + 1) (load_out tPos s) = (False, y)"
      "wrote (take (avail_out (dstrm s)) R) (load_out tPos s) y"
      "plain.holds L s (save_nblock (dsv s) + 1) y (drop (avail_out (dstrm s)) R)"
    using plain.plain_ok [OF plain_holds [OF assms]] unfolding a by blast
  have "emitted (take (avail_out (dstrm s)) R) s (store_out set_tPos y s)"
    using plain_total [OF y(1)] y(2)
    by (intro emitted_store set_tPos_only) (auto simp: wrote_def)
  then show ?thesis using plain_stored [OF assms(1) y(3) _ refl] y(1) by (auto simp: Let_def)
qed

text \<open>The fast loop.\<close>

lemma fast_written:
  assumes "\<not> blockRandomised s" "out_at L s" "out_left L s = Some R" and a32: "avail_out (dstrm s) < 2 ^ 32"
  shows "\<exists>y. fast_loop m (plain_get get_byte s) (save_nblock (dsv s) + 1) False (load_out tPos s) = (False, y) \<and>
    (let s' = store_out set_tPos (fast_totals (avail_out (dstrm s)) y) s in
     emitted (take (avail_out (dstrm s)) R) s s' \<and> out_at L s' \<and> out_left L s' = Some (drop (avail_out (dstrm s)) R))"
proof -
  let ?n = "avail_out (dstrm s)"
  have a: "o_avail (load_out tPos s) = ?n" by (simp add: load_out_def)
  have "plain.holds L s (save_nblock (dsv s) + 1) (plain.at_label False (load_out tPos s)) R"
    using plain_holds [OF assms(1-3)] by (simp add: plain.at_label_def)
  from plain.fast_ok [OF this, of m] obtain y
    where y: "fast_loop m (plain_get get_byte s) (save_nblock (dsv s) + 1) False (load_out tPos s) = (False, y)"
      "wrote (take ?n R) (load_out tPos s) y" "plain.holds L s (save_nblock (dsv s) + 1) y (drop ?n R)"
    unfolding a by blast
  let ?z = "fast_totals ?n y"
  have "wrote (take ?n R) (load_out tPos s) ?z" using y(2) by (simp add: wrote_def fast_totals_def Let_def)
  moreover have l: "length (take ?n R) = ?n - o_avail y" using y(2) a by (auto simp: wrote_def)
  have "o_total ?z = o_total (load_out tPos s) + word_of_nat (length (take ?n R))"
    using fast_totals_total [of ?n y] fast_total [OF y(1)] a32 unfolding l by (simp add: o_total_def)
  ultimately have E: "emitted (take ?n R) s (store_out set_tPos ?z s)"
    by (rule emitted_store) (rule set_tPos_only)
  then have "out_at L (store_out set_tPos ?z s) \<and> out_left L (store_out set_tPos ?z s) = Some (drop ?n R)"
    by (intro plain_stored [OF assms(1) y(3) E refl]) (simp_all add: fast_totals_def Let_def)
  then show ?thesis using E y(1) by (auto simp: Let_def)
qed

text \<open>
  \<open>unRLE m\<close> is the choice \<open>BZ2_bzDecompress\<close> makes. It writes the next bytes of the decoded block, as many
  as there is room for, and keeps the rest for the next call.
\<close>

definition unRLE :: "cpu \<Rightarrow> dstate \<Rightarrow> bool \<times> dstate" where
  "unRLE m s = (if smallDecompress s then unRLE_obuf_to_output_SMALL s else unRLE_obuf_to_output_FAST m s)"

lemma unRLE_ok:
  assumes "out_at L s" "out_left L s = Some R" "avail_out (dstrm s) < 2 ^ 32"
  shows "\<exists>s'. unRLE m s = (False, s') \<and> emitted (take (avail_out (dstrm s)) R) s s' \<and> out_at L s' \<and>
    out_left L s' = Some (drop (avail_out (dstrm s)) R)"
proof (cases "blockRandomised s")
  case True
  then show ?thesis using rand_written [OF True assms(1,2)] gets_eq(2,4) [of s]
    by (cases "smallDecompress s") (auto simp: unRLE_def unRLE_obuf_to_output_SMALL_def unRLE_obuf_to_output_FAST_def Let_def)
next
  case False
  then show ?thesis using plain_written [OF False assms(1,2)] fast_written [OF False assms, of m] gets_eq(1,3) [of s]
    by (cases "smallDecompress s") (auto simp: unRLE_def unRLE_obuf_to_output_SMALL_def unRLE_obuf_to_output_FAST_def Let_def)
qed

section \<open>Blocks that end inside a run\<close>

definition out_bad :: "(nat \<Rightarrow> nat) \<Rightarrow> dstate \<Rightarrow> bool" where
  "out_bad L s \<longleftrightarrow> out_at L s \<and> out_left L s = None \<or>
     src_at L (nblock_used s) s \<and> (blockRandomised s \<longrightarrow> (rNToGo s, rTPos s) = rand_state (nblock_used s)) \<and>
     nblock_used s = save_nblock (dsv s) + 2"

lemma plain_bad_load:
  assumes "\<not> blockRandomised s" "out_bad L s"
  shows "plain.bad L s (save_nblock (dsv s) + 1) (load_out tPos s)"
proof (cases "nblock_used s = save_nblock (dsv s) + 2")
  case True
  then show ?thesis using assms by (auto simp: out_bad_def plain.bad_def load_out_def tpos_ok_def out_at_def)
next
  case False
  then have A: "out_at L s" "out_left L s = None" using assms by (auto simp: out_bad_def)
  have b: "block_byte L s = walk_byte L s" using assms(1) by (simp add: fun_eq_iff block_byte_def)
  have "plain.kept L s (save_nblock (dsv s) + 1) (load_out tPos s)"
    using A(1) by (auto simp: plain.kept_def load_out_def tpos_ok_def out_at_def b)
  moreover have "plain.todo L s (save_nblock (dsv s) + 1) (load_out tPos s) = drop (nblock_used s - 1) (block_bytes L s)"
    unfolding plain.todo_def plain.left_def block_bytes_def b
    using todo_block [of "nblock_used s" "save_nblock (dsv s)" "k0 s" "walk_byte L s"] A(1) b
    by (auto simp: load_out_def out_at_def)
  ultimately show ?thesis using A(2) by (simp add: plain.bad_def out_left_def)
qed

lemma plain_bad_stored:
  assumes "\<not> blockRandomised s" "plain.bad L s (save_nblock (dsv s) + 1) y" "emitted w s s'"
    and s': "s' = store_out set_tPos z s" "o_used z = o_used y" "o_k0 z = o_k0 y" "o_pos z = o_pos y"
  shows "out_bad L s'"
proof -
  have S: "same_src s s'" "dsv s' = dsv s" using assms(3) out_frame_src by (auto simp: emitted_def)
  have F: "nblock_used s' = o_used y" "k0 s' = o_k0 y" "tPos s' = o_pos y" by (simp_all add: s' store_out_def)
  have b: "block_byte L s' = walk_byte L s"
    using S(1) assms(1) block_byte_cong [OF S(1)] by (auto simp: fun_eq_iff block_byte_def)
  have "same_src (s\<lparr>tPos := o_pos y\<rparr>) s'" using S(1) by (simp add: same_src_def)
  then have src: "src_at L (o_used y) s'" if "tpos_ok L s (o_used y) (o_pos y)"
    using src_at_cong that F(3) by (fastforce simp: tpos_ok_def)
  show ?thesis
  proof (cases "o_used y = save_nblock (dsv s) + 2")
    case True
    then have "tpos_ok L s (o_used y) (o_pos y)" using assms(2) by (auto simp: plain.bad_def plain.kept_def)
    then show ?thesis using True src S assms(1) F by (simp add: out_bad_def same_src_def)
  next
    case False
    then have K: "plain.kept L s (save_nblock (dsv s) + 1) y" "rld (plain.todo L s (save_nblock (dsv s) + 1) y) = None"
      using assms(2) by (auto simp: plain.bad_def)
    have A: "out_at L s'" using K(1) S assms(1) F src by (auto simp: out_at_def plain.kept_def b same_src_def)
    moreover have "plain.todo L s (save_nblock (dsv s) + 1) y = drop (nblock_used s' - 1) (block_bytes L s')"
      unfolding plain.todo_def plain.left_def block_bytes_def b S(2)
      using todo_block [of "nblock_used s'" "save_nblock (dsv s)" "k0 s'" "walk_byte L s"] A b S(2) F
      by (auto simp: out_at_def)
    ultimately show ?thesis using K(2) by (simp add: out_bad_def out_left_def)
  qed
qed

lemma rand_bad_load:
  assumes "blockRandomised s" "out_bad L s"
  shows "rand.bad L s (save_nblock (dsv s) + 1) (load_out rand_pos s)"
proof (cases "nblock_used s = save_nblock (dsv s) + 2")
  case True
  then show ?thesis using assms by (auto simp: out_bad_def rand.bad_def load_out_def rpos_ok_def out_at_def rand_pos_def)
next
  case False
  then have A: "out_at L s" "out_left L s = None" using assms by (auto simp: out_bad_def)
  have b: "block_byte L s = (\<lambda>u. walk_byte L s u XOR rand_mask u)" using assms(1) by (simp add: fun_eq_iff block_byte_def)
  have "rand.kept L s (save_nblock (dsv s) + 1) (load_out rand_pos s)"
    using A(1) assms(1) by (auto simp: rand.kept_def load_out_def rpos_ok_def out_at_def b rand_pos_def)
  moreover have "rand.todo L s (save_nblock (dsv s) + 1) (load_out rand_pos s) = drop (nblock_used s - 1) (block_bytes L s)"
    unfolding rand.todo_def rand.left_def block_bytes_def b
    using todo_block [of "nblock_used s" "save_nblock (dsv s)" "k0 s" "block_byte L s"] A(1) b
    by (auto simp: load_out_def out_at_def)
  ultimately show ?thesis using A(2) by (simp add: rand.bad_def out_left_def)
qed

lemma rand_bad_stored:
  assumes "blockRandomised s" "rand.bad L s (save_nblock (dsv s) + 1) y" "emitted w s s'"
    and s': "s' = store_out set_rand_pos y s"
  shows "out_bad L s'"
proof -
  have S: "same_src s s'" "dsv s' = dsv s" using assms(3) out_frame_src by (auto simp: emitted_def)
  obtain t g r where p: "o_pos y = (t, g, r)" by (cases "o_pos y")
  have F: "nblock_used s' = o_used y" "k0 s' = o_k0 y" "tPos s' = t" "rNToGo s' = g" "rTPos s' = r"
    by (simp_all add: s' store_out_def set_rand_pos_def p)
  have b: "block_byte L s' = (\<lambda>u. walk_byte L s u XOR rand_mask u)"
    using S(1) assms(1) block_byte_cong [OF S(1)] by (auto simp: fun_eq_iff block_byte_def)
  have "same_src (s\<lparr>tPos := t\<rparr>) s'" using S(1) by (simp add: same_src_def)
  then have src: "src_at L (o_used y) s' \<and> (g, r) = rand_state (o_used y)" if "rpos_ok L s (o_used y) (o_pos y)"
    using src_at_cong that F(3) by (fastforce simp: rpos_ok_def p)
  show ?thesis
  proof (cases "o_used y = save_nblock (dsv s) + 2")
    case True
    then have "rpos_ok L s (o_used y) (o_pos y)" using assms(2) by (auto simp: rand.bad_def rand.kept_def)
    then show ?thesis using True src S F by (simp add: out_bad_def same_src_def)
  next
    case False
    then have K: "rand.kept L s (save_nblock (dsv s) + 1) y" "rld (rand.todo L s (save_nblock (dsv s) + 1) y) = None"
      using assms(2) by (auto simp: rand.bad_def)
    have A: "out_at L s'" using K(1) S assms(1) F src by (auto simp: out_at_def rand.kept_def b same_src_def)
    moreover have "rand.todo L s (save_nblock (dsv s) + 1) y = drop (nblock_used s' - 1) (block_bytes L s')"
      unfolding rand.todo_def rand.left_def block_bytes_def b S(2)
      using todo_block [of "nblock_used s'" "save_nblock (dsv s)" "k0 s'" "block_byte L s'"] A b S(2) F
      by (auto simp: out_at_def)
    ultimately show ?thesis using K(2) by (simp add: out_bad_def out_left_def)
  qed
qed

lemma unRLE_bad:
  assumes "out_bad L s" "avail_out (dstrm s) < 2 ^ 32"
  shows "\<exists>c s'. unRLE m s = (c, s') \<and> out_frame s s' \<and>
    (c \<or> out_bad L s' \<and> avail_out (dstrm s') = 0) \<and> (s' = s \<or> (\<exists>w. emitted w s s'))"
proof (cases "blockRandomised s")
  case True
  obtain c y w where y: "unRLE_plain (rand_get get_byte s) (save_nblock (dsv s) + 1) (load_out rand_pos s) = (c, y)"
      "wrote w (load_out rand_pos s) y" "c \<or> rand.bad L s (save_nblock (dsv s) + 1) y \<and> o_avail y = 0"
    using rand.plain_bad [OF rand_bad_load [OF True assms(1)]] by blast
  let ?s = "store_out set_rand_pos y s"
  have E: "emitted w s ?s"
    using plain_total [OF y(1)] y(2)
    by (intro emitted_store) (auto simp: wrote_def set_rand_pos_def split: prod.split)
  have "unRLE m s = (c, ?s)" using True y(1) gets_eq(2,4) [of s]
    by (cases "smallDecompress s") (simp_all add: unRLE_def unRLE_obuf_to_output_SMALL_def unRLE_obuf_to_output_FAST_def)
  moreover have "out_bad L ?s \<and> avail_out (dstrm ?s) = 0" if "\<not> c"
    using that y(3) rand_bad_stored [OF True _ E refl] by (simp add: store_out_def)
  ultimately show ?thesis using E by (auto simp: emitted_def)
next
  case False
  show ?thesis
  proof (cases "smallDecompress s")
    case small: True
    obtain c y w where y: "unRLE_plain (plain_get get_byte s) (save_nblock (dsv s) + 1) (load_out tPos s) = (c, y)"
        "wrote w (load_out tPos s) y" "c \<or> plain.bad L s (save_nblock (dsv s) + 1) y \<and> o_avail y = 0"
      using plain.plain_bad [OF plain_bad_load [OF False assms(1)]] by blast
    let ?s = "store_out set_tPos y s"
    have E: "emitted w s ?s" using plain_total [OF y(1)] y(2) by (intro emitted_store set_tPos_only) (auto simp: wrote_def)
    have "unRLE m s = (c, ?s)" using False y(1) gets_eq(3) [OF small] small
      by (simp add: unRLE_def unRLE_obuf_to_output_SMALL_def)
    moreover have "out_bad L ?s \<and> avail_out (dstrm ?s) = 0" if "\<not> c"
      using that y(3) plain_bad_stored [OF False _ E refl] by (simp add: store_out_def)
    ultimately show ?thesis using E by (auto simp: emitted_def)
  next
    case fast: False
    let ?n = "avail_out (dstrm s)"
    have a: "o_avail (load_out tPos s) = ?n" by (simp add: load_out_def)
    obtain c y w where y: "fast_loop m (plain_get get_byte s) (save_nblock (dsv s) + 1) False (load_out tPos s) = (c, y)"
        "wrote w (load_out tPos s) y" "c \<or> plain.bad L s (save_nblock (dsv s) + 1) y \<and> o_avail y = 0"
      using plain.fast_bad [OF plain_bad_load [OF False assms(1)], of m False] by blast
    let ?z = "fast_totals ?n y"
    let ?s = "store_out set_tPos ?z s"
    have "wrote w (load_out tPos s) ?z" using y(2) by (simp add: wrote_def fast_totals_def Let_def)
    moreover have l: "length w = ?n - o_avail y" using y(2) a by (auto simp: wrote_def)
    have "o_total ?z = o_total (load_out tPos s) + word_of_nat (length w)"
      using fast_totals_total [of ?n y] fast_total [OF y(1)] assms(2) unfolding l by (simp add: o_total_def)
    ultimately have E: "emitted w s ?s" by (rule emitted_store) (rule set_tPos_only)
    have r: "unRLE m s = (if c then (True, s) else (False, ?s))" using False fast y(1) gets_eq(1) [OF fast]
      by (simp add: unRLE_def unRLE_obuf_to_output_FAST_def)
    show ?thesis
    proof (cases c)
      case True
      then show ?thesis using r out_frame_refl [of s] by auto
    next
      case False
      then have "out_bad L ?s" "avail_out (dstrm ?s) = 0"
        using y(3) plain_bad_stored [OF \<open>\<not> blockRandomised s\<close> _ E refl]
        by (simp_all add: store_out_def fast_totals_def Let_def)
      moreover have "out_frame s ?s" using E by (simp add: emitted_def)
      moreover have "unRLE m s = (False, ?s)" using r False by simp
      ultimately show ?thesis using E by blast
    qed
  qed
qed

end
