(* ===== verification/DecompressApi.thy ===== *)
theory DecompressApi
  imports OutputRun
begin

text \<open>
  The decompressor's interface in \<^verbatim>\<open>src/bzlib.c\<close>: \<open>BZ2_bzDecompressInit\<close>, \<open>BZ2_bzDecompress\<close> and
  \<open>BZ2_bzDecompressEnd\<close>. A handle is the caller's \<open>bz_stream\<close>, at an address, with the \<open>DState\<close> its \<open>state\<close>
  points to, if any; \<open>DState\<close> holds the address of the stream it belongs to (\<open>s->strm\<close>). The caller may
  change the buffers of the stream between calls, so each call takes them from the handle. \<open>NULL\<close> for
  the handle is \<open>None\<close>. What \<open>BZALLOC\<close> returns holds arbitrary values (\<open>junk\<close>); a \<open>NULL\<close> allocator is
  replaced by \<open>malloc\<close> and \<open>free\<close>, whose outcomes \<open>allocs\<close> stands for as well. Messages of \<open>verbosity\<close> are
  left out.
\<close>

section \<open>Handles\<close>

record dhandle =
  h_addr :: nat
  h_strm :: bz_stream
  h_state :: "(nat \<times> dstate) option"

text \<open>The result of a call: it returns, or \<open>AssertH\<close> ends the process.\<close>

datatype 'h api = Ret int 'h | Abort int

definition bz_config_ok :: "nat \<Rightarrow> nat \<Rightarrow> nat \<Rightarrow> bool" where
  "bz_config_ok sizeof_int sizeof_short sizeof_char =
     (if sizeof_int \<noteq> 4 then False else if sizeof_short \<noteq> 2 then False else if sizeof_char \<noteq> 1 then False else True)"

definition reset_totals :: "bz_stream \<Rightarrow> bz_stream" where
  "reset_totals strm = strm\<lparr>total_in_lo32 := 0, total_in_hi32 := 0, total_out_lo32 := 0, total_out_hi32 := 0\<rparr>"

definition BZ2_bzDecompressInit :: "dstate \<Rightarrow> dhandle option \<Rightarrow> int \<Rightarrow> int \<Rightarrow> int \<times> dhandle option" where
  "BZ2_bzDecompressInit junk h verbosity small =
     (if \<not> bz_config_ok 4 2 1 then (BZ_CONFIG_ERROR, h)
      else case h of
        None \<Rightarrow> (BZ_PARAM_ERROR, None)
      | Some h \<Rightarrow>
          if small \<noteq> 0 \<and> small \<noteq> 1 then (BZ_PARAM_ERROR, Some h)
          else if verbosity < 0 \<or> verbosity > 4 then (BZ_PARAM_ERROR, Some h)
          else
            let (ok, strm) = bz_alloc (h_strm h)
            in if \<not> ok then (BZ_MEM_ERROR, Some (h\<lparr>h_strm := strm\<rparr>))
               else
                 let strm = reset_totals strm;
                     s = junk\<lparr>dstrm := strm, dst := BZ_X_MAGIC_1, bsLive := 0, bsBuff := 0, calculatedCombinedCRC := 0,
                       smallDecompress := (small = 1), ll4_ptr := False, ll16_ptr := False, tt_ptr := False,
                       currBlockNo := 0, dverbosity := verbosity\<rparr>
                 in (BZ_OK, Some (h\<lparr>h_strm := strm, h_state := Some (h_addr h, s)\<rparr>)))"

section \<open>Decompression\<close>

text \<open>The output state of the loop: \<open>Inl\<close> returns, \<open>Inr\<close> goes on to the next block.\<close>

definition output_state :: "cpu \<Rightarrow> dstate \<Rightarrow> (int \<times> dstate) + dstate" where
  "output_state m s0 =
     (let (corrupt, s) = (if smallDecompress s0 then unRLE_obuf_to_output_SMALL s0 else unRLE_obuf_to_output_FAST m s0)
      in if corrupt then Inl (BZ_DATA_ERROR, s)
         else if nblock_used s = save_nblock (dsv s) + 1 \<and> state_out_len s = 0 then
           let s = s\<lparr>calculatedBlockCRC := BZ_FINALISE_CRC (calculatedBlockCRC s)\<rparr>
           in if calculatedBlockCRC s \<noteq> storedBlockCRC s then Inl (BZ_DATA_ERROR, s)
              else
                let s = s\<lparr>calculatedCombinedCRC := push_bit 1 (calculatedCombinedCRC s) OR drop_bit 31 (calculatedCombinedCRC s)\<rparr>;
                    s = s\<lparr>calculatedCombinedCRC := calculatedCombinedCRC s XOR calculatedBlockCRC s\<rparr>
                in Inr (s\<lparr>dst := BZ_X_BLKHDR_1\<rparr>)
         else Inl (BZ_OK, s))"

definition end_of_stream :: "int \<Rightarrow> dstate \<Rightarrow> int" where
  "end_of_stream r s = (if calculatedCombinedCRC s \<noteq> storedCombinedCRC s then BZ_DATA_ERROR else r)"

partial_function (option) bzDecompress_loop :: "cpu \<Rightarrow> dstate \<Rightarrow> dstate api option" where
  "bzDecompress_loop m s0 =
     (if dst s0 = BZ_X_IDLE then Some (Ret BZ_SEQUENCE_ERROR s0)
      else case (if dst s0 = BZ_X_OUTPUT then output_state m s0 else Inr s0) of
             Inl (r, s) \<Rightarrow> Some (Ret r s)
           | Inr s \<Rightarrow>
               if dst s \<ge> BZ_X_MAGIC_1 then
                 (case BZ2_decompress s of
                    Some (Return r s) \<Rightarrow>
                      if r = BZ_STREAM_END then Some (Ret (end_of_stream r s) s)
                      else if dst s \<noteq> BZ_X_OUTPUT then Some (Ret r s)
                      else bzDecompress_loop m s
                  | Some (Fatal n) \<Rightarrow> Some (Abort n)
                  | _ \<Rightarrow> None)
               else bzDecompress_loop m s)"

definition BZ2_bzDecompress :: "cpu \<Rightarrow> dhandle option \<Rightarrow> dhandle option api option" where
  "BZ2_bzDecompress m h =
     (case h of
        None \<Rightarrow> Some (Ret BZ_PARAM_ERROR h)
      | Some h \<Rightarrow>
          (case h_state h of
             None \<Rightarrow> Some (Ret BZ_PARAM_ERROR (Some h))
           | Some (owner, s) \<Rightarrow>
               if owner \<noteq> h_addr h then Some (Ret BZ_PARAM_ERROR (Some h))
               else
                 (case bzDecompress_loop m (s\<lparr>dstrm := h_strm h\<rparr>) of
                    None \<Rightarrow> None
                  | Some (Abort n) \<Rightarrow> Some (Abort n)
                  | Some (Ret r s) \<Rightarrow> Some (Ret r (Some (h\<lparr>h_strm := dstrm s, h_state := Some (owner, s)\<rparr>))))))"

text \<open>The blocks that \<open>BZ2_bzDecompressEnd\<close> hands to \<open>BZFREE\<close>, in order.\<close>

datatype dblock = Tt | Ll16 | Ll4 | State

definition BZ2_bzDecompressEnd :: "dhandle option \<Rightarrow> int \<times> dblock list \<times> dhandle option" where
  "BZ2_bzDecompressEnd h =
     (case h of
        None \<Rightarrow> (BZ_PARAM_ERROR, [], h)
      | Some h \<Rightarrow>
          (case h_state h of
             None \<Rightarrow> (BZ_PARAM_ERROR, [], Some h)
           | Some (owner, s) \<Rightarrow>
               if owner \<noteq> h_addr h then (BZ_PARAM_ERROR, [], Some h)
               else (BZ_OK, (if tt_ptr s then [Tt] else []) @ (if ll16_ptr s then [Ll16] else []) @
                   (if ll4_ptr s then [Ll4] else []) @ [State], Some (h\<lparr>h_state := None\<rparr>))))"

text \<open>The blocks of memory a state holds: each pointer that is not \<open>NULL\<close>, and the state itself.\<close>

definition held_blocks :: "dstate \<Rightarrow> dblock list" where
  "held_blocks s = filter (\<lambda>x. case x of Tt \<Rightarrow> tt_ptr s | Ll16 \<Rightarrow> ll16_ptr s | Ll4 \<Rightarrow> ll4_ptr s | State \<Rightarrow> True) [Tt, Ll16, Ll4, State]"

lemma held_blocks_eq:
  "held_blocks s = (if tt_ptr s then [Tt] else []) @ (if ll16_ptr s then [Ll16] else []) @ (if ll4_ptr s then [Ll4] else []) @ [State]"
  by (simp add: held_blocks_def)

section \<open>The state between calls\<close>

text \<open>
  \<open>phase_ok\<close> holds before the first call, and after every call that returned \<open>BZ_OK\<close>: the stream has
  ended, or a decoded block is being written, or the parser waits at a label.
\<close>

definition phase_ok :: "dstate \<Rightarrow> bool" where
  "phase_ok s \<longleftrightarrow> read_ok s \<and>
     (dst s = BZ_X_IDLE \<or>
      dst s = BZ_X_OUTPUT \<and> bs_ok s \<and> (\<exists>L. out_at L s \<or> out_bad L s) \<or>
      dst s \<noteq> BZ_X_IDLE \<and> dst s \<noteq> BZ_X_OUTPUT \<and> dec_ready s)"

text \<open>The block of \<open>L\<close>, of which \<open>D\<close> has been written so far.\<close>

definition delivered :: "(nat \<Rightarrow> nat) \<Rightarrow> u8 list \<Rightarrow> dstate \<Rightarrow> bool" where
  "delivered L D s \<longleftrightarrow> out_at L s \<and> calculatedBlockCRC s = crc_bytes BZ_INITIALISE_CRC D \<and>
     (\<exists>R. out_left L s = Some R \<and> rld (block_bytes L s) = Some (D @ R))"

lemma out_frame_fields:
  "out_frame s s' \<Longrightarrow> dst s' = dst s \<and> bsLive s' = bsLive s \<and> bsBuff s' = bsBuff s \<and> dsv s' = dsv s \<and>
     storedBlockCRC s' = storedBlockCRC s \<and> calculatedCombinedCRC s' = calculatedCombinedCRC s \<and>
     in_buf (dstrm s') = in_buf (dstrm s) \<and> next_in (dstrm s') = next_in (dstrm s) \<and>
     avail_in (dstrm s') = avail_in (dstrm s) \<and> blockSize100k s' = blockSize100k s"
  by (auto simp: out_frame_def)

lemma out_frame_ok: "out_frame s s' \<Longrightarrow> read_ok s' = read_ok s \<and> bs_ok s' = bs_ok s \<and> bits_ahead s' = bits_ahead s"
  by (auto dest!: out_frame_fields simp: read_ok_def bs_ok_def bits_ahead_def in_ok_def)

lemma block_bytes_cong: "same_src s s' \<Longrightarrow> block_bytes L s' = block_bytes L s"
  using block_byte_cong [of s s' L] by (simp add: block_bytes_def same_src_def cong: map_cong)

text \<open>A block that can be decoded: the rest that fits is written, and the end of the block checks the CRC.\<close>

definition next_block :: "dstate \<Rightarrow> dstate" where
  "next_block s = s\<lparr>calculatedBlockCRC := BZ_FINALISE_CRC (calculatedBlockCRC s),
     calculatedCombinedCRC := (push_bit 1 (calculatedCombinedCRC s) OR drop_bit 31 (calculatedCombinedCRC s)) XOR
       BZ_FINALISE_CRC (calculatedBlockCRC s), dst := BZ_X_BLKHDR_1\<rparr>"

lemma output_state_ok:
  assumes "out_at L s" "out_left L s = Some R" "avail_out (dstrm s) < 2 ^ 32"
  obtains s' where "unRLE m s = (False, s')" "emitted (take (avail_out (dstrm s)) R) s s'" "out_at L s'"
    "out_left L s' = Some (drop (avail_out (dstrm s)) R)"
    "output_state m s =
       (if length R > avail_out (dstrm s) then Inl (BZ_OK, s')
        else if BZ_FINALISE_CRC (calculatedBlockCRC s') \<noteq> storedBlockCRC s'
        then Inl (BZ_DATA_ERROR, s'\<lparr>calculatedBlockCRC := BZ_FINALISE_CRC (calculatedBlockCRC s')\<rparr>)
        else Inr (next_block s'))"
proof -
  obtain s' where s': "unRLE m s = (False, s')" "emitted (take (avail_out (dstrm s)) R) s s'" "out_at L s'"
      "out_left L s' = Some (drop (avail_out (dstrm s)) R)"
    using unRLE_ok [OF assms] by blast
  show thesis
    by (rule that [OF s']) (use s'(1,4) block_done_iff [OF s'(3)] in
      \<open>auto simp: output_state_def Let_def next_block_def simp flip: unRLE_def\<close>)
qed

text \<open>What is delivered of a block is checked against its CRC, no more and no less.\<close>

lemma delivered_step:
  assumes "delivered L D s" "avail_out (dstrm s) < 2 ^ 32"
  shows "\<exists>w s'. out_buf (dstrm s') = out_buf (dstrm s) @ w \<and> length w \<le> avail_out (dstrm s) \<and>
    (output_state m s = Inl (BZ_OK, s') \<and> delivered L (D @ w) s' \<and> avail_out (dstrm s') = 0 \<or>
     rld (block_bytes L s) = Some (D @ w) \<and>
     (if BZ_FINALISE_CRC (crc_bytes BZ_INITIALISE_CRC (D @ w)) = storedBlockCRC s
      then output_state m s = Inr s' \<and> dst s' = BZ_X_BLKHDR_1
      else output_state m s = Inl (BZ_DATA_ERROR, s')))"
proof -
  let ?a = "avail_out (dstrm s)"
  obtain R where D: "out_at L s" "calculatedBlockCRC s = crc_bytes BZ_INITIALISE_CRC D" "out_left L s = Some R"
      "rld (block_bytes L s) = Some (D @ R)" using assms(1) by (auto simp: delivered_def)
  obtain t where t: "emitted (take ?a R) s t" "out_at L t" "out_left L t = Some (drop ?a R)"
    "output_state m s =
       (if length R > ?a then Inl (BZ_OK, t)
        else if BZ_FINALISE_CRC (calculatedBlockCRC t) \<noteq> storedBlockCRC t
        then Inl (BZ_DATA_ERROR, t\<lparr>calculatedBlockCRC := BZ_FINALISE_CRC (calculatedBlockCRC t)\<rparr>)
        else Inr (next_block t))"
    using output_state_ok [OF D(1,3) assms(2)] by metis
  have b: "out_buf (dstrm t) = out_buf (dstrm s) @ take ?a R" "calculatedBlockCRC t = crc_bytes BZ_INITIALISE_CRC (D @ take ?a R)"
      "storedBlockCRC t = storedBlockCRC s" "?a = length (take ?a R) + avail_out (dstrm t)" "same_src s t"
    using t(1) D(2) out_frame_fields [of s t] out_frame_src [of s t] by (auto simp: emitted_def crc_bytes_append)
  show ?thesis
  proof (cases "length R > ?a")
    case True
    have "rld (block_bytes L t) = Some ((D @ take ?a R) @ drop ?a R)" using D(4) block_bytes_cong [OF b(5)] by simp
    then have "delivered L (D @ take ?a R) t" using t(2,3) b(2) by (auto simp: delivered_def)
    then show ?thesis using t(4) b True by (intro exI [of _ "take ?a R"] exI [of _ t]) auto
  next
    case False
    then have r: "take ?a R = R" by simp
    show ?thesis
    proof (cases "BZ_FINALISE_CRC (calculatedBlockCRC t) = storedBlockCRC t")
      case True
      then show ?thesis using False b D(4) t(4) unfolding r
        by (intro exI [of _ R] exI [of _ "next_block t"]) (auto simp: next_block_def)
    next
      case bad: False
      then show ?thesis using False b D(4) t(4) unfolding r
        by (intro exI [of _ R] exI [of _ "t\<lparr>calculatedBlockCRC := BZ_FINALISE_CRC (calculatedBlockCRC t)\<rparr>"]) auto
    qed
  qed
qed

section \<open>Every call returns\<close>

text \<open>From one state of the caller's stream to a later one, bytes are added to the output, and the room shrinks by as many.\<close>

definition gave :: "bz_stream \<Rightarrow> bz_stream \<Rightarrow> bool" where
  "gave t t' \<longleftrightarrow> (\<exists>w. out_buf t' = out_buf t @ w \<and> avail_out t = length w + avail_out t')"

lemma gave_same: "out_buf t' = out_buf t \<Longrightarrow> avail_out t' = avail_out t \<Longrightarrow> gave t t'"
  by (simp add: gave_def)

lemma gave_trans: "gave t t' \<Longrightarrow> gave t' t'' \<Longrightarrow> gave t t''"
  unfolding gave_def by (metis add.assoc append.assoc length_append)

lemma gave_room: "gave t t' \<Longrightarrow> avail_out t' \<le> avail_out t"
  by (auto simp: gave_def)

lemma emitted_gave: "emitted w s s' \<Longrightarrow> gave (dstrm s) (dstrm s')"
  by (auto simp: emitted_def gave_def)

lemma output_state_bad:
  assumes "out_bad L s" "avail_out (dstrm s) < 2 ^ 32"
  shows "\<exists>s'. out_frame s s' \<and> gave (dstrm s) (dstrm s') \<and> (output_state m s = Inl (BZ_DATA_ERROR, s') \<or>
    output_state m s = Inl (BZ_OK, s') \<and> out_bad L s' \<and> avail_out (dstrm s') = 0)"
proof -
  obtain c t where t: "unRLE m s = (c, t)" "out_frame s t" "c \<or> out_bad L t \<and> avail_out (dstrm t) = 0" "t = s \<or> (\<exists>w. emitted w s t)"
    using unRLE_bad [OF assms, of m] by blast
  have "\<not> (nblock_used t = save_nblock (dsv t) + 1 \<and> state_out_len t = 0)" if "\<not> c"
  proof (rule notI)
    assume d: "nblock_used t = save_nblock (dsv t) + 1 \<and> state_out_len t = 0"
    then have "out_at L t" "out_left L t = None" using t(3) that by (auto simp: out_bad_def)
    then show False using block_done_iff d by auto
  qed
  then have "output_state m s = Inl (if c then BZ_DATA_ERROR else BZ_OK, t)"
    using t(1) by (cases c) (auto simp: output_state_def Let_def simp flip: unRLE_def)
  moreover have "gave (dstrm s) (dstrm t)" using t(4) emitted_gave gave_same by blast
  ultimately show ?thesis using t(2,3) by (cases c) auto
qed

lemma output_state_phase:
  assumes "phase_ok s" "dst s = BZ_X_OUTPUT" "avail_out (dstrm s) < 2 ^ 32"
  shows "output_state m s = Inl (r, s') \<Longrightarrow> (r = BZ_OK \<or> r = BZ_DATA_ERROR) \<and>
      (r = BZ_OK \<longrightarrow> phase_ok s' \<and> avail_out (dstrm s') = 0) \<and> gave (dstrm s) (dstrm s')"
    "output_state m s = Inr s' \<Longrightarrow> dec_ready s' \<and> dst s' = BZ_X_BLKHDR_1 \<and> bits_ahead s' = bits_ahead s \<and>
      gave (dstrm s) (dstrm s')"
proof -
  have P: "read_ok s" "bs_ok s" using assms(1,2) by (auto simp: phase_ok_def)
  obtain L where L: "out_at L s \<or> out_bad L s" using assms(1,2) by (auto simp: phase_ok_def)
  have "(\<forall>r s'. output_state m s = Inl (r, s') \<longrightarrow> (r = BZ_OK \<or> r = BZ_DATA_ERROR) \<and>
      (r = BZ_OK \<longrightarrow> phase_ok s' \<and> avail_out (dstrm s') = 0) \<and> gave (dstrm s) (dstrm s')) \<and>
    (\<forall>s'. output_state m s = Inr s' \<longrightarrow> dec_ready s' \<and> dst s' = BZ_X_BLKHDR_1 \<and> bits_ahead s' = bits_ahead s \<and>
      gave (dstrm s) (dstrm s'))"
  proof (cases "out_bad L s")
    case True
    obtain t where t: "out_frame s t" "gave (dstrm s) (dstrm t)" "output_state m s = Inl (BZ_DATA_ERROR, t) \<or>
        output_state m s = Inl (BZ_OK, t) \<and> out_bad L t \<and> avail_out (dstrm t) = 0"
      using output_state_bad [OF True assms(3), of m] by blast
    moreover have "phase_ok t" if "out_bad L t"
      using that P assms(2) out_frame_ok [OF t(1)] out_frame_fields [OF t(1)] by (auto simp: phase_ok_def)
    ultimately show ?thesis by auto
  next
    case False
    then obtain R where A: "out_at L s" "out_left L s = Some R" using L by (auto simp: out_bad_def)
    obtain t where t: "emitted (take (avail_out (dstrm s)) R) s t" "out_at L t"
      "out_left L t = Some (drop (avail_out (dstrm s)) R)"
      "output_state m s =
         (if length R > avail_out (dstrm s) then Inl (BZ_OK, t)
          else if BZ_FINALISE_CRC (calculatedBlockCRC t) \<noteq> storedBlockCRC t
          then Inl (BZ_DATA_ERROR, t\<lparr>calculatedBlockCRC := BZ_FINALISE_CRC (calculatedBlockCRC t)\<rparr>)
          else Inr (next_block t))"
      using output_state_ok [OF A assms(3)] by metis
    have F: "out_frame s t" using t(1) by (simp add: emitted_def)
    note G = out_frame_ok [OF F] out_frame_fields [OF F]
    have "phase_ok t" using P assms(2) G t(2) by (auto simp: phase_ok_def)
    moreover have "avail_out (dstrm t) = 0" if "length R > avail_out (dstrm s)" using t(1) that by (auto simp: emitted_def)
    moreover have "dec_ready (next_block t) \<and> bits_ahead (next_block t) = bits_ahead s"
      using P G by (auto simp: dec_ready_def dcall_ok_def label_inv_def next_block_def read_ok_def bs_ok_def bits_ahead_def)
    moreover have "gave (dstrm s) (dstrm t)" by (rule emitted_gave [OF t(1)])
    ultimately show ?thesis unfolding t(4) by (auto simp: next_block_def)
  qed
  then show "output_state m s = Inl (r, s') \<Longrightarrow> (r = BZ_OK \<or> r = BZ_DATA_ERROR) \<and>
      (r = BZ_OK \<longrightarrow> phase_ok s' \<and> avail_out (dstrm s') = 0) \<and> gave (dstrm s) (dstrm s')"
    "output_state m s = Inr s' \<Longrightarrow> dec_ready s' \<and> dst s' = BZ_X_BLKHDR_1 \<and> bits_ahead s' = bits_ahead s \<and>
      gave (dstrm s) (dstrm s')" by blast+
qed

text \<open>A call of the parser that gets to the output state has read something.\<close>

lemma decompress_reads:
  assumes "dcall_ok s" "BZ2_decompress s = Some (Return r s')" "r \<noteq> BZ_STREAM_END" "dst s' = BZ_X_OUTPUT"
  shows "bits_ahead s' < bits_ahead s"
proof -
  define t where "t = (if dst s = BZ_X_MAGIC_1 then s\<lparr>dsv := dsave_zero\<rparr> else s)"
  have t: "dst t = dst s" "bits_ahead t = bits_ahead s" by (simp_all add: t_def bits_ahead_def)
  have I: "pc_inv (Label (dst t)) t" using assms(1) by (auto simp: t_def dcall_ok_def label_inv_def)
  then have d: "dst t \<ge> 10" by (simp add: label_inv_def)
  obtain r0 s0 where R: "decompress_run (Label (dst t)) t = Some (Return r0 s0)"
    using decompress_run_total [OF I] by blast
  then have "r0 = r" "s0 = s'"
    using assms(2,3) by (auto simp: BZ2_decompress_def Let_def simp flip: t_def split: if_splits)
  note R = R [unfolded this]
  from label_step [OF I] show ?thesis
  proof (elim disjE exE conjE)
    fix u assume "decompress_step (Label (dst t)) t = Return BZ_OK u" "dst u = dst t"
    then have "s' = u" using R decompress_run_At(2) by fastforce
    then show ?thesis using \<open>dst u = dst t\<close> d assms(4) by simp
  next
    fix v s1 assume e: "decompress_step (Label (dst t)) t = label_code (dst t) v s1"
      and b: "bits_ahead s1 + label_bits (dst t) t = bits_ahead t"
      and O: "outcome_ok (bits_ahead s1) False (label_code (dst t) v s1)"
    have pos: "1 \<le> label_bits (dst t) t" using label_bits_pos I by simp
    show ?thesis
    proof (cases "label_code (dst t) v s1")
      case (At pc u)
      then have "pc_inv pc u" "bits_ahead u \<le> bits_ahead s1" using O by simp_all
      moreover have "decompress_run pc u = Some (Return r s')" using R decompress_run_At(1) At e by fastforce
      ultimately have "bits_ahead s' \<le> bits_ahead s1" using decompress_run_total [of pc u] by (auto simp: run_result_def)
      then show ?thesis using b pos t by linarith
    next
      case (Return r1 u)
      then have u: "bits_ahead u \<le> bits_ahead s1" "s' = u" using O R decompress_run_At(2) e by fastforce+
      show ?thesis using u(1) b pos t unfolding u(2) by linarith
    qed (use O in simp)
  qed
qed

text \<open>What a call leaves: an ended stream, or, after \<open>BZ_OK\<close>, no more input or no more room.\<close>

definition call_result :: "int \<Rightarrow> dstate \<Rightarrow> bool" where
  "call_result r s \<longleftrightarrow> (r = BZ_OK \<longrightarrow> phase_ok s \<and> (avail_in (dstrm s) = 0 \<or> avail_out (dstrm s) = 0)) \<and>
     (r = BZ_STREAM_END \<longrightarrow> dst s = BZ_X_IDLE \<and> read_ok s \<and> calculatedCombinedCRC s = storedCombinedCRC s)"

lemma parser_call:
  assumes "dec_ready s" "avail_out (dstrm s) < 2 ^ 32"
  obtains r s' where "BZ2_decompress s = Some (Return r s')" "gave (dstrm s) (dstrm s')"
    "r = BZ_STREAM_END \<Longrightarrow> call_result (end_of_stream r s') s'"
    "r \<noteq> BZ_STREAM_END \<Longrightarrow> dst s' \<noteq> BZ_X_OUTPUT \<Longrightarrow> call_result r s'"
    "r \<noteq> BZ_STREAM_END \<Longrightarrow> dst s' = BZ_X_OUTPUT \<Longrightarrow> phase_ok s' \<and> bits_ahead s' < bits_ahead s"
proof -
  have C: "dcall_ok s" using assms(1) by (simp add: dec_ready_def)
  obtain r s' where B: "BZ2_decompress s = Some (Return r s')" "read_ok s'"
      "r = BZ_OK \<Longrightarrow> out_inv s' \<or> dcall_ok s' \<and> avail_in (dstrm s') = 0"
      "r = BZ_STREAM_END \<Longrightarrow> dst s' = BZ_X_IDLE \<and> bsLive s' = 0"
    using BZ2_decompress_ok [OF C] by metis
  note D = BZ2_decompress_data [OF assms(1) B(1)]
  show thesis
  proof (rule that [OF B(1)])
    show "gave (dstrm s) (dstrm s')" using decompress_output_side [OF B(1)] by (simp add: gave_same)
    show "r = BZ_STREAM_END \<Longrightarrow> call_result (end_of_stream r s') s'"
      using B by (auto simp: call_result_def end_of_stream_def)
    show "call_result r s'" if "r \<noteq> BZ_STREAM_END" "dst s' \<noteq> BZ_X_OUTPUT"
      using that B D(2) by (auto simp: call_result_def phase_ok_def dec_ready_def out_inv_def)
    show "phase_ok s' \<and> bits_ahead s' < bits_ahead s" if r: "r \<noteq> BZ_STREAM_END" "dst s' = BZ_X_OUTPUT"
    proof
      have "r = BZ_OK" and "\<exists>L. out_ready L s'" using D(1) r by auto
      moreover from this have "out_inv s'" using B(3) r by (auto simp: dcall_ok_def label_inv_def)
      ultimately show "phase_ok s'" using B(2) r out_ready_at by (auto simp: phase_ok_def out_inv_def)
      show "bits_ahead s' < bits_ahead s" by (rule decompress_reads [OF C B(1) r])
    qed
  qed
qed

lemma loop_total:
  "phase_ok s \<Longrightarrow> avail_out (dstrm s) < 2 ^ 32 \<Longrightarrow>
     \<exists>r s'. bzDecompress_loop m s = Some (Ret r s') \<and> call_result r s' \<and> gave (dstrm s) (dstrm s')"
proof (induction "bits_ahead s" arbitrary: s rule: less_induct)
  case less
  have parse: "\<exists>r s'. bzDecompress_loop m s = Some (Ret r s') \<and> call_result r s' \<and> gave (dstrm s) (dstrm s')"
    if t: "dst s \<noteq> BZ_X_IDLE" "(if dst s = BZ_X_OUTPUT then output_state m s else Inr s) = Inr t" "dec_ready t"
      "bits_ahead t = bits_ahead s" "avail_out (dstrm t) < 2 ^ 32" "gave (dstrm s) (dstrm t)" for t
  proof -
    have d: "dst t \<ge> BZ_X_MAGIC_1" using t(3) by (simp add: dec_ready_def dcall_ok_def label_inv_def)
    obtain r s' where B: "BZ2_decompress t = Some (Return r s')" "gave (dstrm t) (dstrm s')"
        "r = BZ_STREAM_END \<Longrightarrow> call_result (end_of_stream r s') s'"
        "r \<noteq> BZ_STREAM_END \<Longrightarrow> dst s' \<noteq> BZ_X_OUTPUT \<Longrightarrow> call_result r s'"
        "r \<noteq> BZ_STREAM_END \<Longrightarrow> dst s' = BZ_X_OUTPUT \<Longrightarrow> phase_ok s' \<and> bits_ahead s' < bits_ahead t"
      using parser_call [OF t(3,5)] by metis
    have e: "bzDecompress_loop m s = (if r = BZ_STREAM_END then Some (Ret (end_of_stream r s') s')
        else if dst s' \<noteq> BZ_X_OUTPUT then Some (Ret r s') else bzDecompress_loop m s')"
      using t(1,2) d B(1) by (simp add: bzDecompress_loop.simps [of m s])
    show ?thesis
    proof (cases "r \<noteq> BZ_STREAM_END \<and> dst s' = BZ_X_OUTPUT")
      case True
      have "avail_out (dstrm s') < 2 ^ 32" using gave_room [OF B(2)] t(5) by linarith
      then obtain r1 s1 where "bzDecompress_loop m s' = Some (Ret r1 s1)" "call_result r1 s1" "gave (dstrm s') (dstrm s1)"
        using less.hyps [of s'] B(5) t(4) True by auto
      then show ?thesis using e True gave_trans [OF gave_trans [OF t(6) B(2)]] by auto
    next
      case False
      then show ?thesis using B(3,4) e gave_trans [OF t(6) B(2)] by (cases "r = BZ_STREAM_END") auto
    qed
  qed
  consider "dst s = BZ_X_IDLE" | "dst s = BZ_X_OUTPUT" | "dst s \<noteq> BZ_X_IDLE" "dst s \<noteq> BZ_X_OUTPUT" "dec_ready s"
    using less.prems(1) by (auto simp: phase_ok_def)
  then show ?case
  proof cases
    case 1
    then show ?thesis by (simp add: bzDecompress_loop.simps [of m s] call_result_def gave_same)
  next
    case 2
    show ?thesis
    proof (cases "output_state m s")
      case (Inl rs)
      then show ?thesis using 2 output_state_phase(1) [OF less.prems(1) 2 less.prems(2)]
        by (cases rs) (fastforce simp: bzDecompress_loop.simps [of m s] call_result_def)
    next
      case (Inr t)
      note P = output_state_phase(2) [OF less.prems(1) 2 less.prems(2) Inr]
      have "avail_out (dstrm t) < 2 ^ 32" using P gave_room [of "dstrm s" "dstrm t"] less.prems(2) by linarith
      then show ?thesis using parse [of t] P 2 Inr by simp
    qed
  next
    case 3
    then show ?thesis using parse [of s] less.prems by (simp add: gave_same)
  qed
qed

section \<open>The handle\<close>

text \<open>The caller may change the buffers between calls, if what he passes is a part of the input buffer.\<close>

definition handle_ok :: "dhandle \<Rightarrow> bool" where
  "handle_ok h \<longleftrightarrow> in_ok (h_strm h) \<and> avail_out (h_strm h) < 2 ^ 32 \<and>
     (case h_state h of None \<Rightarrow> True | Some (owner, s) \<Rightarrow> owner = h_addr h \<and> phase_ok s)"

lemma phase_ok_strm:
  assumes "phase_ok s" "in_ok strm"
  shows "phase_ok (s\<lparr>dstrm := strm\<rparr>)"
proof -
  let ?s = "s\<lparr>dstrm := strm\<rparr>"
  have c: "same_src s ?s" by (simp add: same_src_def)
  have e: "s\<lparr>dstrm := strm\<rparr> = s\<lparr>bsBuff := bsBuff s, bsLive := bsLive s, dstrm := strm\<rparr>" by simp
  have r: "read_ok ?s" "bs_ok ?s = bs_ok s" using assms by (auto simp: phase_ok_def read_ok_def bs_ok_def)
  have l: "label_inv k ?s = label_inv k s" for k unfolding e by (rule label_inv_input)
  have d: "data_ok ?s = data_ok s" by (rule data_ok_same) (simp add: same_data_def)
  have a: "out_at L ?s = out_at L s" "out_left L ?s = out_left L s" for L
    using src_at_cong [OF c] block_byte_cong [OF c] block_bytes_cong [OF c] by (simp_all add: out_at_def out_left_def)
  then have "out_bad L ?s = out_bad L s" for L using src_at_cong [OF c] by (simp add: out_bad_def)
  moreover have "dec_ready ?s" if "dec_ready s"
    using that r(1) l d by (simp add: dec_ready_def dcall_ok_def)
  ultimately show ?thesis using assms(1) r a by (auto simp: phase_ok_def)
qed

lemma BZ2_bzDecompressInit_ok:
  assumes "BZ2_bzDecompressInit junk (Some h) verbosity small = (r, h')"
  shows "r = (if small \<in> {0, 1} \<and> 0 \<le> verbosity \<and> verbosity \<le> 4 then if fst (bz_alloc (h_strm h)) then BZ_OK else BZ_MEM_ERROR
         else BZ_PARAM_ERROR)"
    "r = BZ_OK \<Longrightarrow> in_ok (h_strm h) \<Longrightarrow> avail_out (h_strm h) < 2 ^ 32 \<Longrightarrow> \<exists>k. h' = Some k \<and> handle_ok k \<and> h_state k \<noteq> None"
proof -
  obtain ok strm where A: "bz_alloc (h_strm h) = (ok, strm)" by fastforce
  then have s: "next_in strm = next_in (h_strm h)" "avail_in strm = avail_in (h_strm h)" "in_buf strm = in_buf (h_strm h)"
      "avail_out strm = avail_out (h_strm h)"
    by (auto simp: bz_alloc_def split: list.splits)
  show "r = (if small \<in> {0, 1} \<and> 0 \<le> verbosity \<and> verbosity \<le> 4 then if fst (bz_alloc (h_strm h)) then BZ_OK else BZ_MEM_ERROR
         else BZ_PARAM_ERROR)"
    using assms A by (auto simp: BZ2_bzDecompressInit_def bz_config_ok_def Let_def split: if_splits)
  assume r: "r = BZ_OK" and "in_ok (h_strm h)" "avail_out (h_strm h) < 2 ^ 32"
  then have i: "in_ok (reset_totals strm)" "avail_out (reset_totals strm) < 2 ^ 32"
    using s by (simp_all add: in_ok_def reset_totals_def)
  show "\<exists>k. h' = Some k \<and> handle_ok k \<and> h_state k \<noteq> None"
    using assms A r i
    by (auto simp: BZ2_bzDecompressInit_def bz_config_ok_def Let_def handle_ok_def phase_ok_def dec_ready_def dcall_ok_def
        read_ok_def label_inv_def split: if_splits)
qed

lemma BZ2_bzDecompress_handle:
  assumes "handle_ok h" "h_state h \<noteq> None"
  obtains r k owner s where "BZ2_bzDecompress m (Some h) = Some (Ret r (Some k))" "h_state k = Some (owner, s)" "call_result r s"
    "h_addr k = h_addr h" "owner = h_addr h" "h_strm k = dstrm s" "gave (h_strm h) (h_strm k)"
proof -
  obtain owner s where h: "h_state h = Some (owner, s)" using assms(2) by auto
  have i: "in_ok (h_strm h)" "avail_out (h_strm h) < 2 ^ 32" "owner = h_addr h" "phase_ok s"
    using assms(1) h by (auto simp: handle_ok_def)
  obtain r s' where L: "bzDecompress_loop m (s\<lparr>dstrm := h_strm h\<rparr>) = Some (Ret r s')" "call_result r s'"
      "gave (h_strm h) (dstrm s')"
    using loop_total [OF phase_ok_strm [OF i(4,1)], of m] i(2) by auto
  show thesis
    by (rule that [of r "h\<lparr>h_strm := dstrm s', h_state := Some (owner, s')\<rparr>" owner s'])
      (use L h i in \<open>simp_all add: BZ2_bzDecompress_def\<close>)
qed

end
