(* ===== verification/DecompressProps.thy ===== *)
theory DecompressProps
  imports DecompressApi
begin

text \<open>
  The properties of the decompressor, each with a small concrete instance: \<open>dstate_zero\<close> is a state in
  memory that happens to be zero, \<open>one_byte\<close> one with a block of a single byte ready for output.
\<close>

definition strm_zero :: bz_stream where
  "strm_zero = \<lparr>in_buf = [], next_in = 0, avail_in = 0, total_in_lo32 = 0, total_in_hi32 = 0, out_buf = [],
     avail_out = 0, total_out_lo32 = 0, total_out_hi32 = 0, allocs = []\<rparr>"

definition dstate_zero :: dstate where
  "dstate_zero = \<lparr>dstrm = strm_zero, dst = 0, state_out_ch = 0, state_out_len = 0, blockRandomised = False,
     rNToGo = 0, rTPos = 0, bsBuff = 0, bsLive = 0, blockSize100k = 0, smallDecompress = False, currBlockNo = 0,
     dverbosity = 0, origPtr = 0, tPos = 0, k0 = 0, unzftab = (\<lambda>_. 0), nblock_used = 0, cftab = (\<lambda>_. 0),
     cftabCopy = (\<lambda>_. 0), tt = (\<lambda>_. 0), tt_ptr = False, ll16 = (\<lambda>_. 0), ll16_ptr = False, ll4 = (\<lambda>_. 0),
     ll4_ptr = False, storedBlockCRC = 0, storedCombinedCRC = 0, calculatedBlockCRC = 0, calculatedCombinedCRC = 0,
     nInUse = 0, inUse = (\<lambda>_. False), inUse16 = (\<lambda>_. False), seqToUnseq = (\<lambda>_. 0), mtfa = (\<lambda>_. 0),
     selector = (\<lambda>_. 0), selectorMtf = (\<lambda>_. 0),
     dtab = \<lparr>dlen = (\<lambda>_ _. 0), dlimit = (\<lambda>_ _. 0), dbase = (\<lambda>_ _. 0), dperm = (\<lambda>_ _. 0), minLens = (\<lambda>_. 0),
       decode_fast = (\<lambda>_ _. 0), decode_overflow = (\<lambda>_ _. 0), decode_overflow_used = (\<lambda>_. 0)\<rparr>,
     dsv = dsave_zero\<rparr>"

definition one_byte :: dstate where
  "one_byte = dstate_zero\<lparr>dst := BZ_X_OUTPUT, blockSize100k := 1, tt := (\<lambda>_. 97), dsv := dsave_zero\<lparr>save_nblock := 1\<rparr>,
     nblock_used := 1, k0 := 97, calculatedBlockCRC := BZ_INITIALISE_CRC, dstrm := strm_zero\<lparr>avail_out := 5\<rparr>\<rparr>"

lemma lf_inv_one: "lf_inv L 1 0 = 0"
  using lf_inv_less [of 0 1 L] by simp

lemma lf_inv_one' [simp]: "lf_inv L (Suc 0) 0 = 0"
  using lf_inv_one by simp

lemma walk_one [simp]: "walk L (Suc 0) 0 u = 0"
  by (induction u) (simp_all add: walk_def)

lemma one_byte_fields: "smallDecompress one_byte = False" "save_nblock (dsv one_byte) = 1" "blockSize100k one_byte = 1"
  "origPtr one_byte = 0" "tPos one_byte = 0" "tt one_byte = (\<lambda>_. 97)" "nblock_used one_byte = 1" "k0 one_byte = 97"
  "blockRandomised one_byte = False" "state_out_len one_byte = 0" "calculatedBlockCRC one_byte = BZ_INITIALISE_CRC"
  "dst one_byte = BZ_X_OUTPUT" "avail_out (dstrm one_byte) = 5" "bsLive one_byte = 0" "in_buf (dstrm one_byte) = []"
  "next_in (dstrm one_byte) = 0" "avail_in (dstrm one_byte) = 0"
  by (simp_all add: one_byte_def dstate_zero_def dsave_zero_def strm_zero_def)

lemma one_byte_delivered: "delivered (\<lambda>_. 97) [] one_byte"
proof -
  have A: "src_at (\<lambda>_. 97) 1 one_byte"
    by (simp add: src_at_def src_fast_def one_byte_fields)
  have b: "block_bytes (\<lambda>_. 97) one_byte = [97]"
    by (simp add: block_bytes_def one_byte_fields block_byte_def walk_byte_def)
  have "k0 one_byte = block_byte (\<lambda>_. 97) one_byte 0" by (simp add: one_byte_fields block_byte_def walk_byte_def)
  then have "out_at (\<lambda>_. 97) one_byte" using A by (simp add: out_at_def one_byte_fields)
  then show ?thesis by (simp add: delivered_def out_left_def b one_byte_fields)
qed

section \<open>Reading bits\<close>

text \<open>C28: \<open>GET_BITS\<close> takes the next \<open>n\<close> bits off the bits that are pending (buffered, or in the input
  that is left), whatever refills happen in between. When fewer are pending it reports that the input has run
  out, with all of the input consumed and every pending bit kept for the next call.\<close>

theorem GET_BITS_takes_pending_bits:
  assumes "GET_BITS n s = (r, s')" "n \<le> 24" "in_ok (dstrm s)" "bsLive s \<le> 64"
  shows "in_ok (dstrm s') \<and> bsLive s' \<le> 64 \<and>
    (if n \<le> length (pending s)
     then r = Some (of_bits (take n (pending s))) \<and> pending s' = drop n (pending s)
     else r = None \<and> pending s' = pending s \<and> avail_in (dstrm s') = 0)"
  using GET_BITS_spec [OF assms(1,2)] assms(3,4) by (auto simp: read_ok_def)

definition some_input :: dstate where
  "some_input = dstate_zero\<lparr>dstrm := strm_zero\<lparr>in_buf := [0x42, 0x5a, 0x68], avail_in := 3\<rparr>\<rparr>"

theorem GET_BITS_takes_pending_bits_witness:
  "fst (GET_BITS 8 some_input) = Some 66"
proof -
  obtain r s' where g: "GET_BITS 8 some_input = (r, s')" by fastforce
  have p: "pending some_input = bytes_bits [0x42, 0x5a, 0x68]"
    by (simp add: pending_def some_input_def dstate_zero_def strm_zero_def in_bytes_def in_byte_def upt_rec to_bits_def)
  have "r = Some (of_bits (take 8 (pending some_input)))"
    using GET_BITS_takes_pending_bits [OF g] p by (simp add: some_input_def dstate_zero_def strm_zero_def in_ok_def)
  also have "of_bits (take 8 (pending some_input)) = 66"
    unfolding p by (simp add: to_bits_def upt_rec)
  finally show ?thesis using g by simp
qed

section \<open>The parser\<close>

text \<open>C4: A call of \<open>BZ2_decompress\<close> in a state of its invariant returns, with a result and never through
  an assertion. It reads forward only. If it returns \<open>BZ_OK\<close>, a block has been decoded or all input is consumed and
  the parser is at a label of its invariant again; at the end of the stream the bit buffer is empty, and what has
  been handed back of the input had been read in the same call.\<close>

theorem BZ2_decompress_returns:
  assumes "dcall_ok s"
  shows "\<exists>r s'. BZ2_decompress s = Some (Return r s') \<and> in_ok (dstrm s') \<and> next_in (dstrm s) \<le> next_in (dstrm s') \<and>
    (r = BZ_OK \<longrightarrow> out_inv s' \<or> dcall_ok s' \<and> avail_in (dstrm s') = 0) \<and>
    (r = BZ_STREAM_END \<longrightarrow> dst s' = BZ_X_IDLE \<and> bsLive s' = 0)"
  using BZ2_decompress_ok [OF assms] by (metis read_ok_def)

theorem BZ2_decompress_returns_witness:
  "BZ2_decompress (some_input\<lparr>dst := BZ_X_MAGIC_1\<rparr>) \<noteq> None"
proof -
  have "dcall_ok (some_input\<lparr>dst := BZ_X_MAGIC_1\<rparr>)"
    by (simp add: dcall_ok_def label_inv_def read_ok_def in_ok_def some_input_def dstate_zero_def strm_zero_def)
  from BZ2_decompress_returns [OF this] show ?thesis by auto
qed

text \<open>C24: At the end of a block whose bytes are counted in \<open>unzftab\<close>, with the original pointer in range, all
  consistency checks pass, the inverse transform is built in the mode of the stream, and the first byte is fetched: the
  function returns \<open>BZ_OK\<close> with the block ready for output, of which nothing has been delivered yet.\<close>

theorem block_end_gets_block_ready:
  assumes "data_ok s" "0 \<le> origPtr s" "origPtr s < int (save_nblock (dsv s))"
    and "save_nblock (dsv s) \<le> 100000 * blockSize100k s" "blockSize100k s \<le> 9"
  shows "\<exists>s'. block_end s = Return BZ_OK s' \<and> dst s' = BZ_X_OUTPUT \<and> smallDecompress s' = smallDecompress s \<and>
    out_at (block_col s) s' \<and> (\<forall>B. rld (block_bytes (block_col s) s') = Some B \<longrightarrow> delivered (block_col s) [] s')"
proof -
  obtain s' where s': "block_end s = Return BZ_OK s'" "out_ready (block_col s) s'" "smallDecompress s' = smallDecompress s"
    using block_end_ready [OF assms] by blast
  then show ?thesis using out_ready_at [OF s'(2)] by (auto simp: out_ready_def delivered_def)
qed

definition one_symbol :: dstate where
  "one_symbol = dstate_zero\<lparr>blockSize100k := 1, tt := (\<lambda>_. 97), dsv := dsave_zero\<lparr>save_nblock := 1\<rparr>,
     unzftab := (\<lambda>v. if v = 97 then 1 else 0)\<rparr>"

theorem block_end_gets_block_ready_witness:
  "(case block_end one_symbol of Return r s \<Rightarrow> r = BZ_OK \<and> dst s = BZ_X_OUTPUT | _ \<Rightarrow> False)"
proof -
  have c: "block_col one_symbol = (\<lambda>_. 97)"
    by (simp add: fun_eq_iff block_col_def one_symbol_def dstate_zero_def)
  have "cnt (\<lambda>_. 97) (Suc 0) v = (if v = 97 then 1 else 0)" for v by (simp add: cnt_def)
  then have "data_ok one_symbol"
    unfolding data_ok_def c by (simp add: one_symbol_def)
  from block_end_gets_block_ready [OF this] show ?thesis
    by (auto simp: one_symbol_def dstate_zero_def)
qed

section \<open>The output\<close>

text \<open>C5: While a block is written, of which \<open>D\<close> has been delivered, a visit to the output state appends the next
  bytes \<open>w\<close> of the undone run-length coding. Either the output is full, and the rest stays for the next call, or
  \<open>D @ w\<close> is the whole block, and the parser goes on exactly if the stored CRC is the CRC of all these bytes.\<close>

theorem output_delivers_block:
  assumes "delivered L D s" "avail_out (dstrm s) < 2 ^ 32"
  shows "\<exists>w s'. out_buf (dstrm s') = out_buf (dstrm s) @ w \<and> length w \<le> avail_out (dstrm s) \<and>
    (output_state m s = Inl (BZ_OK, s') \<and> delivered L (D @ w) s' \<and> avail_out (dstrm s') = 0 \<or>
     rld (block_bytes L s) = Some (D @ w) \<and>
     (if BZ_FINALISE_CRC (crc_bytes BZ_INITIALISE_CRC (D @ w)) = storedBlockCRC s
      then output_state m s = Inr s' \<and> dst s' = BZ_X_BLKHDR_1
      else output_state m s = Inl (BZ_DATA_ERROR, s')))"
  using delivered_step [OF assms] .

theorem output_delivers_block_witness:
  "\<exists>w s'. out_buf (dstrm s') = out_buf (dstrm one_byte) @ w \<and> length w \<le> 5 \<and>
    (output_state \<lparr>pclmul = True, addr = id\<rparr> one_byte = Inl (BZ_OK, s') \<and> delivered (\<lambda>_. 97) ([] @ w) s' \<and>
       avail_out (dstrm s') = 0 \<or>
     rld (block_bytes (\<lambda>_. 97) one_byte) = Some ([] @ w) \<and>
     (if BZ_FINALISE_CRC (crc_bytes BZ_INITIALISE_CRC ([] @ w)) = storedBlockCRC one_byte
      then output_state \<lparr>pclmul = True, addr = id\<rparr> one_byte = Inr s' \<and> dst s' = BZ_X_BLKHDR_1
      else output_state \<lparr>pclmul = True, addr = id\<rparr> one_byte = Inl (BZ_DATA_ERROR, s')))"
  using output_delivers_block [OF one_byte_delivered, of "\<lparr>pclmul = True, addr = id\<rparr>"]
  by (simp only: one_byte_fields) simp

text \<open>A block whose run-length coding is cut off is never accepted: no visit to the output state goes on to the
  next block; it ends in \<open>BZ_DATA_ERROR\<close>, or the output is full and the block is still bad.\<close>

theorem cut_off_run_rejected:
  assumes "out_at L s" "rld (drop (nblock_used s - 1) (block_bytes L s)) = None" "avail_out (dstrm s) < 2 ^ 32"
  shows "\<exists>s'. output_state m s = Inl (BZ_DATA_ERROR, s') \<or>
    output_state m s = Inl (BZ_OK, s') \<and> out_bad L s' \<and> avail_out (dstrm s') = 0"
proof -
  have "out_bad L s" using assms(1,2) by (simp add: out_bad_def out_left_def)
  then show ?thesis using output_state_bad assms(3) by metis
qed

definition cut_off :: dstate where
  "cut_off = one_byte\<lparr>dsv := dsave_zero\<lparr>save_nblock := 4\<rparr>, tt := (\<lambda>i. 97 + 256 * word_of_nat i)\<rparr>"

lemma lf_inv_const: "i < n \<Longrightarrow> lf_inv (\<lambda>_. 97) n i = i"
proof -
  assume i: "i < n"
  have "cpos (\<lambda>_. 97) n i = i" by (simp add: cpos_def cnt_def below_def)
  then show ?thesis using lf_inv_cpos [OF i, of "\<lambda>_. 97"] by simp
qed

lemma cut_off_at: "out_at (\<lambda>_. 97) cut_off" "block_bytes (\<lambda>_. 97) cut_off = [97, 97, 97, 97]"
proof -
  have w: "walk (\<lambda>_. 97) 4 0 u = 0" for u by (induction u) (simp_all add: walk_def lf_inv_const)
  have f: "save_nblock (dsv cut_off) = 4" "origPtr cut_off = 0" "blockSize100k cut_off = 1" "smallDecompress cut_off = False"
    "nblock_used cut_off = 1" "k0 cut_off = 97" "blockRandomised cut_off = False" "tPos cut_off = 0"
    "tt cut_off = (\<lambda>i. 97 + 256 * word_of_nat i)"
    by (simp_all add: cut_off_def one_byte_fields)
  have "src_fast (\<lambda>_. 97) 4 cut_off"
    unfolding src_fast_def
  proof (intro allI impI)
    fix j :: nat assume j: "j < 4"
    then have "j \<in> {0, 1, 2, 3}" by auto
    then show "unat (tt cut_off j AND 0xff) = 97 \<and> unat (drop_bit 8 (tt cut_off j)) = lf_inv (\<lambda>_. 97) 4 j"
      unfolding lf_inv_const [OF j] f by (elim insertE) simp_all
  qed
  then have "src_at (\<lambda>_. 97) 1 cut_off" by (simp add: src_at_def f w)
  then show "out_at (\<lambda>_. 97) cut_off" by (simp add: out_at_def f block_byte_def walk_byte_def)
  show "block_bytes (\<lambda>_. 97) cut_off = [97, 97, 97, 97]"
    by (simp add: block_bytes_def f block_byte_def walk_byte_def upt_rec)
qed

theorem cut_off_run_rejected_witness:
  "\<exists>s'. output_state \<lparr>pclmul = True, addr = id\<rparr> cut_off = Inl (BZ_DATA_ERROR, s') \<or>
    output_state \<lparr>pclmul = True, addr = id\<rparr> cut_off = Inl (BZ_OK, s') \<and> out_bad (\<lambda>_. 97) s' \<and> avail_out (dstrm s') = 0"
proof (rule cut_off_run_rejected [OF cut_off_at(1)])
  have "nblock_used cut_off = 1" "avail_out (dstrm cut_off) = 5" by (simp_all add: cut_off_def one_byte_fields)
  then show "rld (drop (nblock_used cut_off - 1) (block_bytes (\<lambda>_. 97) cut_off)) = None" "avail_out (dstrm cut_off) < 2 ^ 32"
    by (simp_all add: cut_off_at(2))
qed

lemma below_cong: "(\<And>i. i < n \<Longrightarrow> L i = L' i) \<Longrightarrow> below L n v = below L' n v"
  by (induction v) (simp_all add: cnt_cong [of n L L'])

lemma lf_inv_cong:
  assumes "\<And>i. i < n \<Longrightarrow> L i = L' i" "j < n"
  shows "lf_inv L n j = lf_inv L' n j"
proof -
  have c: "cpos L n i = cpos L' n i" if "i < n" for i
    using that below_cong [of n L L', OF assms(1)] cnt_cong [of i L L'] assms(1) by (simp add: cpos_def)
  have "cpos L' n (lf_inv L n j) = j" using cpos_lf_inv [OF assms(2), of L] c lf_inv_less [OF assms(2), of L] by simp
  then show ?thesis using lf_inv_cpos [OF lf_inv_less [OF assms(2), of L], of L'] by simp
qed

lemma block_bytes_col:
  assumes "save_nblock (dsv s) = save_nblock (dsv t)" "origPtr s = origPtr t" "blockRandomised s = blockRandomised t"
    and L: "\<And>i. i < save_nblock (dsv t) \<Longrightarrow> L i = L' i" and o: "nat (origPtr t) < save_nblock (dsv t)"
  shows "block_bytes L s = block_bytes L' t"
proof -
  let ?n = "save_nblock (dsv t)" and ?o = "nat (origPtr t)"
  have w: "walk L ?n ?o u = walk L' ?n ?o u" for u
  proof (induction u)
    case (Suc u)
    then show ?case using lf_inv_cong [of ?n L L', OF L walk_less [OF o]] by (simp add: walk_Suc)
  qed (simp add: walk_def)
  have "block_byte L s u = block_byte L' t u" for u
    using L [OF walk_less [OF o]] by (simp add: block_byte_def walk_byte_def assms(1-3) w)
  then show ?thesis by (simp add: block_bytes_def assms(1))
qed

text \<open>C25: The two modes deliver the same: from the same decoded block the inverse transforms of the fast and of the
  small mode give the same bytes, and with the same room in the output both functions write the same of them and
  agree on whether the block is corrupt.\<close>

theorem fast_and_small_agree:
  assumes "data_ok s" "data_ok t" "\<not> smallDecompress s" "smallDecompress t"
    and "block_end s = Return BZ_OK s'" "block_end t = Return BZ_OK t'"
    and "\<forall>i < save_nblock (dsv s). unat (tt s i) = unat (ll16 t i)"
    and "save_nblock (dsv t) = save_nblock (dsv s)" "origPtr t = origPtr s" "blockRandomised t = blockRandomised s"
    and "0 \<le> origPtr s" "origPtr s < int (save_nblock (dsv s))"
    and "save_nblock (dsv s) \<le> 100000 * blockSize100k s" "blockSize100k s \<le> 9"
    and "save_nblock (dsv s) \<le> 100000 * blockSize100k t" "blockSize100k t \<le> 9"
    and "rld (block_bytes (block_col s) s') = Some B" "avail_out (dstrm s') < 2 ^ 32"
    and "avail_out (dstrm t') = avail_out (dstrm s')" "out_buf (dstrm t') = out_buf (dstrm s')"
  shows "\<exists>s'' t''. unRLE_obuf_to_output_FAST m s' = (False, s'') \<and> unRLE_obuf_to_output_SMALL t' = (False, t'') \<and>
    out_buf (dstrm s'') = out_buf (dstrm s') @ take (avail_out (dstrm s')) B \<and>
    out_buf (dstrm t'') = out_buf (dstrm s'') \<and> calculatedBlockCRC t'' = calculatedBlockCRC s''"
proof -
  let ?a = "avail_out (dstrm s')"
  have S: "out_ready (block_col s) s'" "\<not> smallDecompress s'" "save_nblock (dsv s') = save_nblock (dsv s)"
      "origPtr s' = origPtr s" "blockRandomised s' = blockRandomised s"
    using block_end_ready [OF assms(1,11-14)] assms(3,5) by auto
  have T: "out_ready (block_col t) t'" "smallDecompress t'" "save_nblock (dsv t') = save_nblock (dsv s)"
      "origPtr t' = origPtr s" "blockRandomised t' = blockRandomised s"
    using block_end_ready [of t] assms by auto
  have c: "block_col t i = block_col s i" if "i < save_nblock (dsv s)" for i
    using that assms(3,4,7) by (simp add: block_col_def)
  have b: "block_bytes (block_col t) t' = block_bytes (block_col s) s'"
    by (rule block_bytes_col) (use S T c assms(11,12) in auto)
  obtain s'' where "unRLE m s' = (False, s'')" "emitted (take ?a B) s' s''"
    using unRLE_ok [of "block_col s" s' B m] out_ready_at [OF S(1)] assms(17,18) by auto
  moreover obtain t'' where "unRLE m t' = (False, t'')" "emitted (take ?a B) t' t''"
    using unRLE_ok [of "block_col t" t' B m] out_ready_at [OF T(1)] assms(17-19) b by auto
  moreover have "calculatedBlockCRC t' = calculatedBlockCRC s'" using S(1) T(1) by (simp add: out_ready_def)
  ultimately show ?thesis using S(2) T(2) assms(20) by (auto simp: unRLE_def emitted_def)
qed

lemma block_end_output_side: "block_end s = Return r s' \<Longrightarrow> out_buf (dstrm s') = out_buf (dstrm s) \<and> avail_out (dstrm s') = avail_out (dstrm s)"
  using moved_block_end [of s] by (auto simp: moved_def)

lemma one_symbol_ok:
  assumes "s = one_symbol \<or> s = one_symbol\<lparr>smallDecompress := True, ll16 := (\<lambda>_. 97)\<rparr>"
  shows "data_ok s" "block_col s = (\<lambda>_. 97)" "save_nblock (dsv s) = 1" "origPtr s = 0" "blockRandomised s = False"
    "blockSize100k s = 1" "dstrm s = strm_zero"
proof -
  show c: "block_col s = (\<lambda>_. 97)"
    using assms by (auto simp: fun_eq_iff block_col_def one_symbol_def dstate_zero_def)
  have "cnt (\<lambda>_. 97) (Suc 0) v = (if v = 97 then 1 else 0)" for v by (simp add: cnt_def)
  then show "data_ok s"
    unfolding data_ok_def c using assms by (auto simp: one_symbol_def)
  show "save_nblock (dsv s) = 1" "origPtr s = 0" "blockRandomised s = False" "blockSize100k s = 1" "dstrm s = strm_zero"
    using assms by (auto simp: one_symbol_def dstate_zero_def)
qed

theorem fast_and_small_agree_witness:
  "\<exists>s' t' s'' t''. block_end one_symbol = Return BZ_OK s' \<and>
     block_end (one_symbol\<lparr>smallDecompress := True, ll16 := (\<lambda>_. 97)\<rparr>) = Return BZ_OK t' \<and>
     unRLE_obuf_to_output_FAST \<lparr>pclmul = True, addr = id\<rparr> s' = (False, s'') \<and>
     unRLE_obuf_to_output_SMALL t' = (False, t'') \<and> out_buf (dstrm t'') = out_buf (dstrm s'')"
proof -
  let ?s = one_symbol and ?t = "one_symbol\<lparr>smallDecompress := True, ll16 := (\<lambda>_. 97)\<rparr>"
  note S = one_symbol_ok [of ?s, simplified] and T = one_symbol_ok [of ?t, simplified]
  have f: "\<not> smallDecompress ?s" "smallDecompress ?t" by (simp_all add: one_symbol_def dstate_zero_def)
  obtain s' where s': "block_end ?s = Return BZ_OK s'" "save_nblock (dsv s') = save_nblock (dsv ?s)"
      "blockRandomised s' = False" "origPtr s' = 0"
    using block_end_ready [of ?s] S by auto
  obtain t' where t': "block_end ?t = Return BZ_OK t'"
    using block_end_ready [of ?t] T by auto
  note E = block_end_output_side [OF s'(1)] block_end_output_side [OF t'(1)]
  have b: "block_bytes (block_col ?s) s' = [97]"
    using s' S by (simp add: block_bytes_def block_byte_def walk_byte_def)
  have "\<exists>s'' t''. unRLE_obuf_to_output_FAST \<lparr>pclmul = True, addr = id\<rparr> s' = (False, s'') \<and>
    unRLE_obuf_to_output_SMALL t' = (False, t'') \<and>
    out_buf (dstrm s'') = out_buf (dstrm s') @ take (avail_out (dstrm s')) [97] \<and>
    out_buf (dstrm t'') = out_buf (dstrm s'') \<and> calculatedBlockCRC t'' = calculatedBlockCRC s''"
    by (rule fast_and_small_agree [OF S(1) T(1) f s'(1) t'])
      (use E S T b in \<open>simp_all add: strm_zero_def, simp_all add: one_symbol_def dstate_zero_def\<close>)
  then show ?thesis using s'(1) t' by blast
qed

section \<open>The interface\<close>

text \<open>C34: \<open>BZ2_bzDecompressInit\<close> returns \<open>BZ_PARAM_ERROR\<close> exactly for a bad argument, \<open>BZ_MEM_ERROR\<close> exactly when
  the allocation fails, and otherwise \<open>BZ_OK\<close> with a handle in which the state machine may be run, whatever the memory
  held that it was given.\<close>

theorem BZ2_bzDecompressInit_correct:
  "BZ2_bzDecompressInit junk None verbosity small = (BZ_PARAM_ERROR, None) \<and>
   (\<exists>k. BZ2_bzDecompressInit junk (Some h) verbosity small =
      (if small \<in> {0, 1} \<and> 0 \<le> verbosity \<and> verbosity \<le> 4
       then if fst (bz_alloc (h_strm h)) then BZ_OK else BZ_MEM_ERROR else BZ_PARAM_ERROR, Some k) \<and>
      (fst (BZ2_bzDecompressInit junk (Some h) verbosity small) = BZ_OK \<and> in_ok (h_strm h) \<and> avail_out (h_strm h) < 2 ^ 32
       \<longrightarrow> handle_ok k \<and> h_state k \<noteq> None))"
proof -
  obtain r h' where I: "BZ2_bzDecompressInit junk (Some h) verbosity small = (r, h')" by fastforce
  then have "h' \<noteq> None"
    by (auto simp: BZ2_bzDecompressInit_def Let_def split: if_splits prod.splits)
  then show ?thesis
    using BZ2_bzDecompressInit_ok [OF I] I by (auto simp: BZ2_bzDecompressInit_def bz_config_ok_def)
qed

definition fresh :: dhandle where
  "fresh = \<lparr>h_addr = 7, h_strm = strm_zero, h_state = None\<rparr>"

theorem BZ2_bzDecompressInit_correct_witness:
  "\<exists>k. BZ2_bzDecompressInit dstate_zero (Some fresh) 0 0 = (BZ_OK, Some k) \<and> handle_ok k \<and> h_state k \<noteq> None"
  using BZ2_bzDecompressInit_correct [of dstate_zero 0 0 fresh]
  by (auto simp: fresh_def strm_zero_def bz_alloc_def in_ok_def)

text \<open>C15: \<open>BZ2_bzDecompress\<close> always returns and never trips an assertion. After \<open>BZ_OK\<close> it has made all the progress it
  could: the input is used up or the output is full, and the handle is good for the next call. \<open>BZ_STREAM_END\<close> is
  returned only if the combined CRC agrees, and from then on every call returns \<open>BZ_SEQUENCE_ERROR\<close>.\<close>

theorem BZ2_bzDecompress_returns:
  assumes "handle_ok h" "h_state h \<noteq> None"
  shows "\<exists>r k. BZ2_bzDecompress m (Some h) = Some (Ret r (Some k)) \<and>
    (r = BZ_OK \<longrightarrow> (avail_in (h_strm k) = 0 \<or> avail_out (h_strm k) = 0) \<and>
       (in_ok (h_strm k) \<and> avail_out (h_strm k) < 2 ^ 32 \<longrightarrow> handle_ok k)) \<and>
    (r = BZ_STREAM_END \<longrightarrow> (\<exists>s. h_state k = Some (h_addr h, s) \<and> calculatedCombinedCRC s = storedCombinedCRC s) \<and>
       (\<exists>k'. BZ2_bzDecompress m (Some k) = Some (Ret BZ_SEQUENCE_ERROR (Some k'))))"
proof -
  obtain r k owner s where B: "BZ2_bzDecompress m (Some h) = Some (Ret r (Some k))" "h_state k = Some (owner, s)"
      "call_result r s" "h_addr k = h_addr h" "owner = h_addr h" "h_strm k = dstrm s"
    using BZ2_bzDecompress_handle [OF assms] by metis
  have "BZ2_bzDecompress m (Some k) = Some (Ret BZ_SEQUENCE_ERROR (Some (k\<lparr>h_strm := h_strm k, h_state := Some (owner, s\<lparr>dstrm := h_strm k\<rparr>)\<rparr>)))"
    if "dst s = BZ_X_IDLE"
    using that B(2,4,5) by (simp add: BZ2_bzDecompress_def bzDecompress_loop.simps [of m "s\<lparr>dstrm := h_strm k\<rparr>"])
  then show ?thesis using B by (auto simp: call_result_def handle_ok_def)
qed

theorem BZ2_bzDecompress_returns_witness:
  "\<exists>r k. BZ2_bzDecompress \<lparr>pclmul = True, addr = id\<rparr>
     (Some (fresh\<lparr>h_state := Some (7, dstate_zero\<lparr>dst := BZ_X_MAGIC_1\<rparr>)\<rparr>)) = Some (Ret r (Some k))"
proof -
  let ?h = "fresh\<lparr>h_state := Some (7, dstate_zero\<lparr>dst := BZ_X_MAGIC_1\<rparr>)\<rparr>"
  have "handle_ok ?h" "h_state ?h \<noteq> None"
    by (simp_all add: handle_ok_def fresh_def in_ok_def strm_zero_def phase_ok_def dec_ready_def dcall_ok_def label_inv_def
        read_ok_def dstate_zero_def)
  from BZ2_bzDecompress_returns [OF this, of "\<lparr>pclmul = True, addr = id\<rparr>"] show ?thesis by blast
qed

end
