(* ===== verification/EState.thy ===== *)
theory EState
  imports CrcPclmul DState "HOL-Library.Signed_Division"
begin

text \<open>
  The state of a compressor: \<open>EState\<close> of \<^verbatim>\<open>src/qbz2_internal.h\<close>, and what the compressor uses of its
  surroundings.

  \<open>arr1\<close> is one piece of memory that the code uses as \<open>ptr\<close> (32-bit) and, from the same place, as \<open>mtfv\<close> (16-bit);
  it is kept as 16-bit cells, in the byte order of x86. The bytes of the block lie at the start of \<open>arr2\<close> and those of
  the coded block (\<open>zbits\<close>) behind them: two arrays here. \<open>eftab\<close> is the scratch memory \<open>ftab\<close> of the sorting; \<open>len_pack\<close> and \<open>rfreq\<close> are
  recomputed before they are read and are locals here. Indices and counts are \<open>nat\<close>; \<open>state_in_ch\<close> is \<open>UInt32\<close> and at most 256.
\<close>

record estate =
  estrm :: bz_stream
  emode :: nat
  est :: nat
  avail_in_expect :: nat
  arr1 :: "nat \<Rightarrow> u16"
  eftab :: "nat \<Rightarrow> u32"
  eorigPtr :: int
  block :: "nat \<Rightarrow> u8"
  zbits :: "nat \<Rightarrow> u8"
  workFactor :: int
  state_in_ch :: nat
  state_in_len :: nat
  nblock :: nat
  nblockMAX :: nat
  numZ :: nat
  state_out_pos :: nat
  enInUse :: nat
  einUse :: "nat \<Rightarrow> bool"
  unseqToSeq :: "nat \<Rightarrow> u8"
  ebsBuff :: u64
  ebsLive :: int
  blockCRC :: u32
  combinedCRC :: u32
  everbosity :: int
  blockNo :: nat
  eblockSize100k :: nat
  nMTF :: nat
  mtfFreq :: "nat \<Rightarrow> int"
  eselector :: "nat \<Rightarrow> nat"
  eselectorMtf :: "nat \<Rightarrow> nat"
  elen :: "nat \<Rightarrow> nat \<Rightarrow> nat"
  ecode :: "nat \<Rightarrow> nat \<Rightarrow> nat"

abbreviation (input) BZ_M_IDLE :: nat where "BZ_M_IDLE \<equiv> 1"
abbreviation (input) BZ_M_RUNNING :: nat where "BZ_M_RUNNING \<equiv> 2"
abbreviation (input) BZ_M_FLUSHING :: nat where "BZ_M_FLUSHING \<equiv> 3"
abbreviation (input) BZ_M_FINISHING :: nat where "BZ_M_FINISHING \<equiv> 4"

abbreviation (input) BZ_S_OUTPUT :: nat where "BZ_S_OUTPUT \<equiv> 1"
abbreviation (input) BZ_S_INPUT :: nat where "BZ_S_INPUT \<equiv> 2"

text \<open>
  The build (\<open>esse2\<close>, \<open>epclmul\<close>) and the address of a buffer on the stack select the paths of the search and of the CRC update. \<open>libsais\<close> gives
  the suffix array of a byte string, or reports failure; \<open>malloc_ok\<close> is the outcome of allocating for \<open>n\<close> bytes.
\<close>

record host =
  esse2 :: bool
  epclmul :: bool
  stack_buf :: nat
  libsais :: "u8 list \<Rightarrow> nat list option"
  malloc_ok :: "nat \<Rightarrow> bool"

section \<open>Views of the memory\<close>

definition ptr :: "estate \<Rightarrow> nat \<Rightarrow> nat" where
  "ptr s i = unat (arr1 s (2 * i)) + 65536 * unat (arr1 s (2 * i + 1))"

definition set_ptr :: "nat \<Rightarrow> nat \<Rightarrow> estate \<Rightarrow> estate" where
  "set_ptr i v s = s\<lparr>arr1 := (arr1 s)(2 * i := word_of_nat v, 2 * i + 1 := word_of_nat (v div 65536))\<rparr>"

definition mtfv :: "estate \<Rightarrow> nat \<Rightarrow> nat" where
  "mtfv s i = unat (arr1 s i)"

definition set_mtfv :: "nat \<Rightarrow> nat \<Rightarrow> estate \<Rightarrow> estate" where
  "set_mtfv i v s = s\<lparr>arr1 := (arr1 s)(i := word_of_nat v)\<rparr>"

definition block_list :: "estate \<Rightarrow> u8 list" where
  "block_list s = map (block s) [0..<nblock s]"

definition put_block :: "u8 \<Rightarrow> estate \<Rightarrow> estate" where
  "put_block b s = s\<lparr>block := (block s)(nblock s := b), nblock := nblock s + 1\<rparr>"

lemma block_list_put [simp]: "block_list (put_block b s) = block_list s @ [b]"
proof -
  have "map ((block s)(nblock s := b)) [0..<nblock s] = map (block s) [0..<nblock s]" by (rule map_cong) auto
  then show ?thesis by (simp add: block_list_def put_block_def)
qed

text \<open>All of \<open>ptr\<close> at once.\<close>

definition set_ptrs :: "(nat \<Rightarrow> nat) \<Rightarrow> estate \<Rightarrow> estate" where
  "set_ptrs f s = s\<lparr>arr1 := (\<lambda>c. word_of_nat (if even c then f (c div 2) else f (c div 2) div 65536))\<rparr>"

lemma ptr_set_ptrs: "f i < 2 ^ 32 \<Longrightarrow> ptr (set_ptrs f s) i = f i"
  by (simp add: ptr_def set_ptrs_def unsigned_of_nat take_bit_eq_mod mod_less)

text \<open>Storing what is there changes nothing.\<close>

lemma set_ptrs_ptr: "set_ptrs (ptr s) s = s"
proof -
  have "word_of_nat (unat a + 65536 * unat b) = a" "word_of_nat ((unat a + 65536 * unat b) div 65536) = b" for a b :: u16
  proof -
    have a: "unat a < 65536" using unsigned_less [of a, where ?'a = nat] by simp
    have "(unat a + 65536 * unat b) div 65536 = unat b" using a by simp
    then show "word_of_nat ((unat a + 65536 * unat b) div 65536) = b" by simp
    have "(65536 :: u16) = word_of_nat 65536" by simp
    also have "\<dots> = 0" by (simp only: word_of_nat_eq_0_iff) simp
    finally have "(65536 :: u16) * b = 0" by (simp only: mult_zero_left)
    then show "word_of_nat (unat a + 65536 * unat b) = a" by simp
  qed
  then have "(\<lambda>c. word_of_nat (if even c then ptr s (c div 2) else ptr s (c div 2) div 65536)) = arr1 s"
    by (auto simp: fun_eq_iff ptr_def elim!: evenE oddE)
  then show ?thesis by (simp add: set_ptrs_def)
qed

lemma ptr_set_ptr: "v < 2 ^ 32 \<Longrightarrow> ptr (set_ptr i v s) j = (if j = i then v else ptr s j)"
proof -
  assume v: "v < 2 ^ 32"
  have "unat (word_of_nat v :: u16) + 65536 * unat (word_of_nat (v div 65536) :: u16) = v"
    using v by (simp add: unsigned_of_nat take_bit_eq_mod mod_less)
  moreover have "2 * j + 1 \<noteq> 2 * i" "2 * j \<noteq> 2 * i + 1" by presburger+
  ultimately show ?thesis by (auto simp: ptr_def set_ptr_def)
qed

end
