(* ===== verification/Rle.thy ===== *)
theory Rle
  imports EState Output
begin

text \<open>
  The input side of the compressor in \<^verbatim>\<open>src/bzlib.c\<close>: bytes are collected into runs of at most 255,
  and a finished run goes into the block in the coding that the decompressor undoes (\<open>rld\<close>), with the CRC
  and the set of bytes used kept up to date.
\<close>

section \<open>The operations\<close>

definition prepare_new_block :: "estate \<Rightarrow> estate" where
  "prepare_new_block s = s\<lparr>nblock := 0, numZ := 0, state_out_pos := 0, blockCRC := BZ_INITIALISE_CRC,
     einUse := fold (\<lambda>i f. f(i := False)) [0..<256] (einUse s), blockNo := blockNo s + 1\<rparr>"

definition init_RL :: "estate \<Rightarrow> estate" where
  "init_RL s = s\<lparr>state_in_ch := 256, state_in_len := 0\<rparr>"

definition isempty_RL :: "estate \<Rightarrow> bool" where
  "isempty_RL s = (if state_in_ch s < 256 \<and> state_in_len s > 0 then False else True)"

definition run_crc :: "host \<Rightarrow> estate \<Rightarrow> u32" where
  "run_crc m s =
     (let ch = word_of_nat (state_in_ch s)
      in if state_in_len s \<ge> 8 then BZ2_crc32_update (epclmul m) (stack_buf m) (blockCRC s) (replicate (state_in_len s) ch)
         else fold (\<lambda>i crc. BZ_UPDATE_CRC crc ch) [0..<state_in_len s] (blockCRC s))"

definition add_pair_to_block :: "host \<Rightarrow> estate \<Rightarrow> estate" where
  "add_pair_to_block m s0 =
     (let ch = word_of_nat (state_in_ch s0);
          s = s0\<lparr>blockCRC := run_crc m s0, einUse := (einUse s0)(state_in_ch s0 := True)\<rparr>
      in if state_in_len s = 1 then put_block ch s
         else if state_in_len s = 2 then put_block ch (put_block ch s)
         else if state_in_len s = 3 then put_block ch (put_block ch (put_block ch s))
         else
           let s = s\<lparr>einUse := (einUse s)(state_in_len s - 4 := True)\<rparr>
           in put_block (word_of_nat (state_in_len s - 4)) (put_block ch (put_block ch (put_block ch (put_block ch s)))))"

definition flush_RL :: "host \<Rightarrow> estate \<Rightarrow> estate" where
  "flush_RL m s = init_RL (if state_in_ch s < 256 then add_pair_to_block m s else s)"

definition ADD_CHAR_TO_BLOCK :: "host \<Rightarrow> nat \<Rightarrow> estate \<Rightarrow> estate" where
  "ADD_CHAR_TO_BLOCK m zchh s =
     (if zchh \<noteq> state_in_ch s \<and> state_in_len s = 1 then
        let ch = word_of_nat (state_in_ch s);
            s = s\<lparr>blockCRC := BZ_UPDATE_CRC (blockCRC s) ch, einUse := (einUse s)(state_in_ch s := True)\<rparr>
        in (put_block ch s)\<lparr>state_in_ch := zchh\<rparr>
      else if zchh \<noteq> state_in_ch s \<or> state_in_len s = 255 then
        (if state_in_ch s < 256 then add_pair_to_block m s else s)\<lparr>state_in_ch := zchh, state_in_len := 1\<rparr>
      else s\<lparr>state_in_len := state_in_len s + 1\<rparr>)"

definition take_input :: "estate \<Rightarrow> estate" where
  "take_input s =
     (let strm = estrm s; lo = total_in_lo32 strm + 1
      in s\<lparr>estrm := strm\<lparr>next_in := next_in strm + 1, avail_in := avail_in strm - 1, total_in_lo32 := lo,
             total_in_hi32 := (if lo = 0 then total_in_hi32 strm + 1 else total_in_hi32 strm)\<rparr>\<rparr>)"

lemma fields_put_block [frame, simp]:
  "estrm (put_block b s) = estrm s" "nblockMAX (put_block b s) = nblockMAX s" "avail_in_expect (put_block b s) = avail_in_expect s"
  "nblock (put_block b s) = nblock s + 1" "emode (put_block b s) = emode s" "blockCRC (put_block b s) = blockCRC s"
  "einUse (put_block b s) = einUse s" "state_in_ch (put_block b s) = state_in_ch s" "state_in_len (put_block b s) = state_in_len s"
  by (simp_all add: put_block_def)

lemma fields_add_pair [frame, simp]:
  "estrm (add_pair_to_block m s) = estrm s" "nblockMAX (add_pair_to_block m s) = nblockMAX s"
  "avail_in_expect (add_pair_to_block m s) = avail_in_expect s" "emode (add_pair_to_block m s) = emode s"
  by (simp_all add: add_pair_to_block_def Let_def)

lemma fields_ADD_CHAR [frame, simp]:
  "estrm (ADD_CHAR_TO_BLOCK m c s) = estrm s" "nblockMAX (ADD_CHAR_TO_BLOCK m c s) = nblockMAX s"
  "avail_in_expect (ADD_CHAR_TO_BLOCK m c s) = avail_in_expect s" "emode (ADD_CHAR_TO_BLOCK m c s) = emode s"
  by (simp_all add: ADD_CHAR_TO_BLOCK_def Let_def)

text \<open>The two loops, with and without the count of what the flush or finish has announced.\<close>

function copy_running :: "host \<Rightarrow> estate \<Rightarrow> bool \<times> estate" where
  "copy_running m s =
     (if nblock s \<ge> nblockMAX s then (False, s)
      else if avail_in (estrm s) = 0 then (False, s)
      else let s = take_input (ADD_CHAR_TO_BLOCK m (unat (in_byte (estrm s) 0)) s)
           in (True, snd (copy_running m s)))"
  by pat_completeness auto
termination by (relation "measure (\<lambda>(m, s). avail_in (estrm s))") (auto simp: take_input_def Let_def)

function copy_expected :: "host \<Rightarrow> estate \<Rightarrow> bool \<times> estate" where
  "copy_expected m s =
     (if nblock s \<ge> nblockMAX s then (False, s)
      else if avail_in (estrm s) = 0 then (False, s)
      else if avail_in_expect s = 0 then (False, s)
      else let s = take_input (ADD_CHAR_TO_BLOCK m (unat (in_byte (estrm s) 0)) s);
               s = s\<lparr>avail_in_expect := avail_in_expect s - 1\<rparr>
           in (True, snd (copy_expected m s)))"
  by pat_completeness auto
termination by (relation "measure (\<lambda>(m, s). avail_in (estrm s))") (auto simp: take_input_def Let_def)

declare copy_running.simps [simp del] copy_expected.simps [simp del]

definition copy_input_until_stop :: "host \<Rightarrow> estate \<Rightarrow> bool \<times> estate" where
  "copy_input_until_stop m s = (if emode s = BZ_M_RUNNING then copy_running m s else copy_expected m s)"

section \<open>Runs\<close>

text \<open>The coding of a run, and of a list of runs in which neighbours differ unless the first is full.\<close>

definition code_run :: "nat \<times> u8 \<Rightarrow> u8 list" where
  "code_run r = (case r of (n, c) \<Rightarrow> if n < 4 then replicate n c else replicate 4 c @ [word_of_nat (n - 4)])"

definition expand :: "nat \<times> u8 \<Rightarrow> u8 list" where
  "expand r = (case r of (n, c) \<Rightarrow> replicate n c)"

fun runs_ok :: "(nat \<times> u8) list \<Rightarrow> bool" where
  "runs_ok [] = True"
| "runs_ok [(n, c)] = (1 \<le> n \<and> n \<le> 255)"
| "runs_ok ((n, c) # (n', c') # rs) = (1 \<le> n \<and> n \<le> 255 \<and> (c \<noteq> c' \<or> n = 255) \<and> runs_ok ((n', c') # rs))"

abbreviation code_runs :: "(nat \<times> u8) list \<Rightarrow> u8 list" where
  "code_runs rs \<equiv> concat (map code_run rs)"

abbreviation expand_runs :: "(nat \<times> u8) list \<Rightarrow> u8 list" where
  "expand_runs rs \<equiv> concat (map expand rs)"

lemma runs_ok_ConsD: "runs_ok (r # rs) \<Longrightarrow> runs_ok rs"
  by (cases r; cases rs) auto

lemma code_runs_hd: "runs_ok ((n, c) # rs) \<Longrightarrow> \<exists>t. code_runs ((n, c) # rs) = c # t"
proof -
  assume "runs_ok ((n, c) # rs)"
  then obtain k where n: "n = Suc k" by (cases rs; cases n) auto
  have "replicate 4 c = c # replicate 3 c" by (simp add: numeral_eq_Suc)
  then show ?thesis unfolding n by (auto simp: code_run_def simp del: of_nat_Suc)
qed

lemma rld_code_run:
  assumes "runs_ok ((n, c) # rs)"
  shows "rld (code_run (n, c) @ code_runs rs) = map_option ((@) (replicate n c)) (rld (code_runs rs))"
proof (cases "n < 4")
  case False
  have "n - 4 < 256" "n \<le> 255" using assms by (cases rs; auto)+
  have "unat (word_of_nat k :: u8) = k" if "k < 256" for k using that by (simp add: unsigned_of_nat take_bit_nat_eq_self)
  define w where "w = (word_of_nat (n - 4) :: u8)"
  have u: "unat w + 4 = n" unfolding w_def using \<open>\<And>k. k < 256 \<Longrightarrow> unat (word_of_nat k :: u8) = k\<close> [OF \<open>n - 4 < 256\<close>] False
    by (simp only:)
  have "replicate 4 c = [c, c, c, c]" by (simp add: numeral_eq_Suc)
  then have "code_run (n, c) @ code_runs rs = c # c # c # c # w # code_runs rs"
    using False unfolding w_def by (simp add: code_run_def)
  then show ?thesis using u by simp
next
  case True
  have n: "n = 1 \<or> n = 2 \<or> n = 3" using True assms by (cases rs) auto
  have d: "code_runs rs = [] \<or> (\<exists>b t. code_runs rs = b # t \<and> b \<noteq> c)"
  proof (cases rs)
    case (Cons r rs')
    then show ?thesis using assms True code_runs_hd [of "fst r" "snd r" rs'] by (cases r) auto
  qed simp
  have "code_run (n, c) = replicate n c" using True by (simp add: code_run_def)
  moreover have "rld (replicate n c @ D) = map_option ((@) (replicate n c)) (rld D)"
    if "D = [] \<or> (\<exists>b t. D = b # t \<and> b \<noteq> c)" for D
    using n that by (cases "rld D") (auto simp: numeral_2_eq_2 numeral_3_eq_3 replicate_append_same)
  ultimately show ?thesis using d by simp
qed

text \<open>The coding is undone by \<open>rld\<close>.\<close>

lemma rld_code_runs: "runs_ok rs \<Longrightarrow> rld (code_runs rs) = Some (expand_runs rs)"
proof (induction rs)
  case (Cons r rs)
  then show ?case using rld_code_run [of "fst r" "snd r" rs] runs_ok_ConsD [OF Cons.prems]
    by (cases r) (simp add: expand_def)
qed simp

lemma runs_ok_append:
  "runs_ok (rs @ [(n, c)]) \<longleftrightarrow> runs_ok rs \<and> 1 \<le> n \<and> n \<le> 255 \<and> (rs = [] \<or> snd (last rs) \<noteq> c \<or> fst (last rs) = 255)"
proof (induction rs rule: runs_ok.induct)
  case (3 n1 c1 n2 c2 rs)
  then show ?case by (cases rs) auto
qed auto

section \<open>What the block holds\<close>

text \<open>
  \<open>rs\<close> are the runs in the block. The run being collected (\<open>pending_run\<close>) fits behind them; \<open>inUse\<close> has the bytes
  of the block, and the CRC is the one of the bytes it stands for.
\<close>

definition pending_run :: "estate \<Rightarrow> (nat \<times> u8) list" where
  "pending_run s = (if state_in_ch s < 256 then [(state_in_len s, word_of_nat (state_in_ch s))] else [])"

definition rle_at :: "(nat \<times> u8) list \<Rightarrow> estate \<Rightarrow> bool" where
  "rle_at rs s \<longleftrightarrow> runs_ok (rs @ pending_run s) \<and> block_list s = code_runs rs \<and>
     (state_in_ch s < 256 \<or> state_in_ch s = 256 \<and> state_in_len s = 0 \<and> rs = []) \<and>
     blockCRC s = crc_bytes BZ_INITIALISE_CRC (expand_runs rs) \<and>
     (\<forall>i < 256. einUse s i \<longleftrightarrow> word_of_nat i \<in> set (block_list s))"

lemma block_list_fields [frame, simp]:
  "block_list (s\<lparr>state_in_len := n\<rparr>) = block_list s" "block_list (s\<lparr>state_in_ch := c\<rparr>) = block_list s"
  "block_list (s\<lparr>blockCRC := x\<rparr>) = block_list s" "block_list (s\<lparr>einUse := u\<rparr>) = block_list s"
  "block_list (s\<lparr>estrm := t\<rparr>) = block_list s" "block_list (s\<lparr>avail_in_expect := k\<rparr>) = block_list s"
  by (simp_all add: block_list_def)

text \<open>All that has been taken in since the block was begun.\<close>

definition taken :: "(nat \<times> u8) list \<Rightarrow> estate \<Rightarrow> u8 list" where
  "taken rs s = expand_runs rs @ expand_runs (pending_run s)"

lemma u8_eq: "i < 256 \<Longrightarrow> j < 256 \<Longrightarrow> (word_of_nat i :: u8) = word_of_nat j \<longleftrightarrow> i = j"
proof -
  assume "i < 256" "j < 256"
  then have "unat (word_of_nat i :: u8) = i" "unat (word_of_nat j :: u8) = j"
    by (simp_all add: unsigned_of_nat take_bit_nat_eq_self)
  then show ?thesis by metis
qed

lemma crc_step_bytes: "fold (\<lambda>i crc. BZ_UPDATE_CRC crc c) [0..<n] crc = crc_bytes crc (replicate n c)"
proof (induction n)
  case (Suc n)
  have "replicate (Suc n) c = replicate n c @ [c]" by (simp add: replicate_append_same)
  then show ?case using Suc by (simp only: crc_bytes_append) (simp add: BZ_UPDATE_CRC_eq crc_bytes_Cons)
qed simp

lemma run_crc_bytes: "run_crc m s = crc_bytes (blockCRC s) (replicate (state_in_len s) (word_of_nat (state_in_ch s)))"
  by (simp add: run_crc_def Let_def BZ2_crc32_update_eq crc_step_bytes)

text \<open>A run goes into the block.\<close>

lemma add_pair_spec:
  assumes "rle_at rs s" "state_in_ch s < 256"
  shows "block_list (add_pair_to_block m s) = code_runs (rs @ pending_run s)"
    "blockCRC (add_pair_to_block m s) = crc_bytes BZ_INITIALISE_CRC (expand_runs (rs @ pending_run s))"
    "\<forall>i < 256. einUse (add_pair_to_block m s) i \<longleftrightarrow> word_of_nat i \<in> set (block_list (add_pair_to_block m s))"
    "nblock (add_pair_to_block m s) \<le> nblock s + 5"
proof -
  let ?n = "state_in_len s" and ?c = "state_in_ch s"
  have n: "1 \<le> ?n" "?n \<le> 255" using assms by (auto simp: rle_at_def pending_run_def runs_ok_append)
  have b: "block_list s = code_runs rs" "\<forall>i < 256. einUse s i \<longleftrightarrow> word_of_nat i \<in> set (block_list s)"
    using assms by (simp_all add: rle_at_def)
  have r: "replicate 2 x = [x, x]" "replicate 3 x = [x, x, x]" "replicate 4 x = [x, x, x, x]" for x :: u8
    by (simp_all add: numeral_eq_Suc)
  show blk: "block_list (add_pair_to_block m s) = code_runs (rs @ pending_run s)"
  proof -
    have "?n = 1 \<or> ?n = 2 \<or> ?n = 3 \<or> 4 \<le> ?n" using n by linarith
    then show ?thesis using assms(2) b(1)
      by (elim disjE) (simp_all add: add_pair_to_block_def Let_def pending_run_def code_run_def r)
  qed
  show "blockCRC (add_pair_to_block m s) = crc_bytes BZ_INITIALISE_CRC (expand_runs (rs @ pending_run s))"
    using assms run_crc_bytes [of m s]
    by (auto simp: add_pair_to_block_def Let_def pending_run_def expand_def crc_bytes_append rle_at_def)
  show "nblock (add_pair_to_block m s) \<le> nblock s + 5"
    by (simp add: add_pair_to_block_def Let_def)
  show "\<forall>i < 256. einUse (add_pair_to_block m s) i \<longleftrightarrow> word_of_nat i \<in> set (block_list (add_pair_to_block m s))"
  proof (intro allI impI)
    fix i :: nat assume i: "i < 256"
    have e: "einUse (add_pair_to_block m s) i \<longleftrightarrow> einUse s i \<or> i = ?c \<or> (4 \<le> ?n \<and> i = ?n - 4)"
      using n by (auto simp: add_pair_to_block_def Let_def)
    have "word_of_nat i \<in> set (code_run (?n, word_of_nat ?c)) \<longleftrightarrow> i = ?c \<or> (4 \<le> ?n \<and> i = ?n - 4)"
    proof (cases "?n < 4")
      case True
      then show ?thesis using n u8_eq [OF i assms(2)] by (auto simp: code_run_def)
    next
      case False
      have "?n - 4 < 256" using n by linarith
      then show ?thesis using False u8_eq [OF i assms(2)] u8_eq [OF i, of "?n - 4"] by (auto simp: code_run_def)
    qed
    then show "einUse (add_pair_to_block m s) i \<longleftrightarrow> word_of_nat i \<in> set (block_list (add_pair_to_block m s))"
      unfolding e blk using b i assms(2) by (simp add: pending_run_def)
  qed
qed

lemma ADD_CHAR_ok:
  assumes "rle_at rs s" "c < 256"
  shows "\<exists>rs'. rle_at rs' (ADD_CHAR_TO_BLOCK m c s) \<and> taken rs' (ADD_CHAR_TO_BLOCK m c s) = taken rs s @ [word_of_nat c] \<and>
    nblock (ADD_CHAR_TO_BLOCK m c s) \<le> nblock s + 5 \<and> state_in_ch (ADD_CHAR_TO_BLOCK m c s) < 256"
proof -
  let ?s = "ADD_CHAR_TO_BLOCK m c s"
  have R: "runs_ok (rs @ pending_run s)" using assms by (simp add: rle_at_def)
  consider (more) "c = state_in_ch s" "state_in_len s \<noteq> 255"
    | (next_run) "c \<noteq> state_in_ch s \<or> state_in_len s = 255" by blast
  then show ?thesis
  proof cases
    case more
    have e: "?s = s\<lparr>state_in_len := state_in_len s + 1\<rparr>" using more by (simp add: ADD_CHAR_TO_BLOCK_def)
    have l: "1 \<le> state_in_len s" "state_in_len s < 255"
      using R more assms(2) by (auto simp: pending_run_def runs_ok_append)
    have "rle_at rs ?s" unfolding e using assms(1) l more assms(2)
      by (auto simp: rle_at_def pending_run_def runs_ok_append)
    moreover have "taken rs ?s = taken rs s @ [word_of_nat c]"
      unfolding e using more assms(2) by (simp add: taken_def pending_run_def expand_def replicate_append_same)
    moreover have "nblock ?s \<le> nblock s + 5 \<and> state_in_ch ?s < 256" unfolding e using more assms(2) by simp
    ultimately show ?thesis by blast
  next
    case next_run
    let ?t = "if state_in_ch s < 256 then add_pair_to_block m s else s"
    have p: "block_list ?t = code_runs (rs @ pending_run s)"
        "blockCRC ?t = crc_bytes BZ_INITIALISE_CRC (expand_runs (rs @ pending_run s))"
        "\<forall>i < 256. einUse ?t i \<longleftrightarrow> word_of_nat i \<in> set (block_list ?t)" "nblock ?t \<le> nblock s + 5"
      using add_pair_spec [OF assms(1), of m] assms(1) by (auto simp: rle_at_def pending_run_def)
    have e: "?s = ?t\<lparr>state_in_ch := c, state_in_len := 1\<rparr>"
    proof (cases "c \<noteq> state_in_ch s \<and> state_in_len s = 1")
      case True
      then have "state_in_ch s < 256" using assms(1) by (auto simp: rle_at_def)
      then show ?thesis using True
        by (simp add: ADD_CHAR_TO_BLOCK_def add_pair_to_block_def Let_def run_crc_def put_block_def)
    next
      case False
      then show ?thesis using next_run by (auto simp: ADD_CHAR_TO_BLOCK_def)
    qed
    let ?rs = "rs @ pending_run s"
    have "runs_ok (?rs @ [(1, word_of_nat c)])"
      unfolding runs_ok_append using R next_run assms u8_eq [of "state_in_ch s" c]
      by (cases "state_in_ch s < 256") (auto simp: pending_run_def rle_at_def)
    moreover have "pending_run ?s = [(1, word_of_nat c)]" using assms(2) by (simp add: e pending_run_def)
    ultimately have "rle_at ?rs ?s" using p assms(2) by (simp add: e rle_at_def)
    moreover have "taken ?rs ?s = taken rs s @ [word_of_nat c]"
      using assms(2) by (simp add: e taken_def pending_run_def expand_def)
    ultimately show ?thesis using p(4) assms(2) by (auto simp: e)
  qed
qed

section \<open>The loops\<close>

text \<open>What the caller passes is a part of the input buffer; if there is no input, \<open>next_in\<close> may be anything.\<close>

definition src_ok :: "bz_stream \<Rightarrow> bool" where
  "src_ok strm \<longleftrightarrow> avail_in strm = 0 \<or> in_ok strm"

lemma in_bytes_take:
  assumes "in_ok strm" "0 < avail_in strm"
  shows "in_bytes strm = in_byte strm 0 # in_bytes (strm\<lparr>next_in := next_in strm + 1, avail_in := avail_in strm - 1,
      total_in_lo32 := lo, total_in_hi32 := hi\<rparr>)"
    "in_ok (strm\<lparr>next_in := next_in strm + 1, avail_in := avail_in strm - 1, total_in_lo32 := lo, total_in_hi32 := hi\<rparr>)"
proof -
  have "in_bytes (strm\<lparr>next_in := next_in strm + 1, avail_in := avail_in strm - 1, total_in_lo32 := lo, total_in_hi32 := hi\<rparr>) =
      in_bytes (strm\<lparr>next_in := next_in strm + int 1, avail_in := avail_in strm - 1\<rparr>)"
    by (simp add: in_bytes_def in_byte_def)
  then show "in_bytes strm = in_byte strm 0 # in_bytes (strm\<lparr>next_in := next_in strm + 1, avail_in := avail_in strm - 1,
      total_in_lo32 := lo, total_in_hi32 := hi\<rparr>)"
    using in_bytes_split [of strm 1] assms by (simp add: in_ok_def)
  show "in_ok (strm\<lparr>next_in := next_in strm + 1, avail_in := avail_in strm - 1, total_in_lo32 := lo, total_in_hi32 := hi\<rparr>)"
    using assms by (simp add: in_ok_def nat_add_distrib)
qed

lemma rle_at_fields [simp]: "rle_at rs (s\<lparr>estrm := t\<rparr>) = rle_at rs s" "rle_at rs (s\<lparr>avail_in_expect := k\<rparr>) = rle_at rs s"
  by (simp_all add: rle_at_def pending_run_def)

lemma taken_fields [simp]: "taken rs (s\<lparr>estrm := t\<rparr>) = taken rs s" "taken rs (s\<lparr>avail_in_expect := k\<rparr>) = taken rs s"
  by (simp_all add: taken_def pending_run_def)

text \<open>The relation between the states before and after some bytes \<open>w\<close> have been taken in.\<close>

definition took :: "u8 list \<Rightarrow> estate \<Rightarrow> estate \<Rightarrow> bool" where
  "took w s s' \<longleftrightarrow> (\<forall>rs. rle_at rs s \<longrightarrow> (\<exists>rs'. rle_at rs' s' \<and> taken rs' s' = taken rs s @ w)) \<and>
     in_bytes (estrm s) = w @ in_bytes (estrm s') \<and> src_ok (estrm s') \<and>
     nblock s' \<le> max (nblock s) (nblockMAX s + 4) \<and> nblockMAX s' = nblockMAX s \<and> emode s' = emode s \<and>
     out_buf (estrm s') = out_buf (estrm s) \<and> avail_out (estrm s') = avail_out (estrm s)"

lemma took_refl: "src_ok (estrm s) \<Longrightarrow> took [] s s"
  by (auto simp: took_def)

lemma took_trans:
  assumes "took v s s'" "took w s' s''"
  shows "took (v @ w) s s''"
proof -
  have "\<exists>rs'. rle_at rs' s'' \<and> taken rs' s'' = taken rs s @ v @ w" if rs: "rle_at rs s" for rs
  proof -
    obtain r1 where "rle_at r1 s'" "taken r1 s' = taken rs s @ v" using assms(1) rs by (auto simp: took_def)
    moreover from this obtain r2 where "rle_at r2 s''" "taken r2 s'' = taken r1 s' @ w" using assms(2) by (auto simp: took_def)
    ultimately show ?thesis by auto
  qed
  moreover have "nblock s'' \<le> max (nblock s) (nblockMAX s + 4)" using assms by (auto simp: took_def)
  ultimately show ?thesis using assms by (simp add: took_def)
qed

lemma took_one:
  assumes "src_ok (estrm s)" "0 < avail_in (estrm s)" "nblock s < nblockMAX s"
  shows "took [in_byte (estrm s) 0] s (take_input (ADD_CHAR_TO_BLOCK m (unat (in_byte (estrm s) 0)) s))"
proof -
  let ?b = "in_byte (estrm s) 0"
  let ?t = "ADD_CHAR_TO_BLOCK m (unat ?b) s"
  have b: "unat ?b < 256" using unsigned_less [of ?b, where ?'a = nat] by simp
  have "\<exists>rs'. rle_at rs' (take_input ?t) \<and> taken rs' (take_input ?t) = taken rs s @ [?b]" if rs: "rle_at rs s" for rs
    using ADD_CHAR_ok [OF rs b, of m] by (auto simp: take_input_def Let_def)
  moreover have "nblock ?t \<le> nblockMAX s + 4"
    using assms(3) by (auto simp: ADD_CHAR_TO_BLOCK_def add_pair_to_block_def Let_def)
  ultimately show ?thesis
    using in_bytes_take [OF _ assms(2)] assms(1,2) by (auto simp: took_def take_input_def Let_def src_ok_def)
qed

lemma copy_running_ok:
  assumes "src_ok (estrm s)"
  shows "\<exists>w. took w s (snd (copy_running m s)) \<and> fst (copy_running m s) = (w \<noteq> []) \<and>
    (nblock (snd (copy_running m s)) \<ge> nblockMAX s \<or> avail_in (estrm (snd (copy_running m s))) = 0)"
  using assms
proof (induction m s rule: copy_running.induct)
  case (1 m s)
  show ?case
  proof (cases "nblock s \<ge> nblockMAX s \<or> avail_in (estrm s) = 0")
    case True
    then have "copy_running m s = (False, s)" by (auto simp: copy_running.simps [of m s])
    then show ?thesis using True took_refl 1 by (intro exI [of _ "[]"]) auto
  next
    case False
    let ?t = "take_input (ADD_CHAR_TO_BLOCK m (unat (in_byte (estrm s) 0)) s)"
    have T: "took [in_byte (estrm s) 0] s ?t" using took_one False 1 by simp
    then have "src_ok (estrm ?t)" "nblockMAX ?t = nblockMAX s" by (simp_all add: took_def)
    then obtain w where w: "took w ?t (snd (copy_running m ?t))"
        "nblock (snd (copy_running m ?t)) \<ge> nblockMAX s \<or> avail_in (estrm (snd (copy_running m ?t))) = 0"
      using 1(1) False by auto
    have "copy_running m s = (True, snd (copy_running m ?t))"
      using False by (simp add: copy_running.simps [of m s] Let_def)
    then show ?thesis using took_trans [OF T w(1)] w(2) by (intro exI [of _ "in_byte (estrm s) 0 # w"]) auto
  qed
qed

lemma copy_expected_ok:
  assumes "src_ok (estrm s)"
  shows "\<exists>w. took w s (snd (copy_expected m s)) \<and> fst (copy_expected m s) = (w \<noteq> []) \<and>
    avail_in_expect s = length w + avail_in_expect (snd (copy_expected m s)) \<and>
    (nblock (snd (copy_expected m s)) \<ge> nblockMAX s \<or> avail_in (estrm (snd (copy_expected m s))) = 0 \<or>
     avail_in_expect (snd (copy_expected m s)) = 0)"
  using assms
proof (induction m s rule: copy_expected.induct)
  case (1 m s)
  show ?case
  proof (cases "nblock s \<ge> nblockMAX s \<or> avail_in (estrm s) = 0 \<or> avail_in_expect s = 0")
    case True
    then have "copy_expected m s = (False, s)" by (auto simp: copy_expected.simps [of m s])
    then show ?thesis using True took_refl 1 by (intro exI [of _ "[]"]) auto
  next
    case False
    let ?u = "take_input (ADD_CHAR_TO_BLOCK m (unat (in_byte (estrm s) 0)) s)"
    let ?t = "?u\<lparr>avail_in_expect := avail_in_expect ?u - 1\<rparr>"
    have e: "avail_in_expect ?u = avail_in_expect s" by (simp add: take_input_def Let_def)
    have "took [in_byte (estrm s) 0] s ?u" using took_one False 1 by simp
    then have T: "took [in_byte (estrm s) 0] s ?t" by (simp add: took_def)
    then have "src_ok (estrm ?t)" "nblockMAX ?t = nblockMAX s" by (simp_all add: took_def)
    then obtain w where w: "took w ?t (snd (copy_expected m ?t))"
        "avail_in_expect ?t = length w + avail_in_expect (snd (copy_expected m ?t))"
        "nblock (snd (copy_expected m ?t)) \<ge> nblockMAX s \<or> avail_in (estrm (snd (copy_expected m ?t))) = 0 \<or>
         avail_in_expect (snd (copy_expected m ?t)) = 0"
      using 1(1) False by auto
    have "copy_expected m s = (True, snd (copy_expected m ?t))"
      using False by (simp add: copy_expected.simps [of m s] Let_def)
    then show ?thesis using took_trans [OF T w(1)] w(2,3) e False by (intro exI [of _ "in_byte (estrm s) 0 # w"]) auto
  qed
qed

section \<open>The end of a block\<close>

text \<open>A new block begins with the run that is pending.\<close>

lemma prepare_new_block_ok:
  assumes "rle_at rs s"
  shows "rle_at [] (prepare_new_block s)" "taken [] (prepare_new_block s) = expand_runs (pending_run s)"
proof -
  have f: "fold (\<lambda>i f. f(i := False)) [0..<n] u i = (if i < n then False else u i)" for n u i
    by (induction n) auto
  have p: "pending_run (prepare_new_block s) = pending_run s" by (simp add: prepare_new_block_def pending_run_def)
  have u: "einUse (prepare_new_block s) = fold (\<lambda>i f. f(i := False)) [0..<256] (einUse s)"
    by (simp add: prepare_new_block_def)
  have "\<forall>i < 256. \<not> einUse (prepare_new_block s) i" unfolding u f by simp
  moreover have "runs_ok (pending_run s)" using assms by (auto simp: rle_at_def pending_run_def runs_ok_append)
  ultimately show "rle_at [] (prepare_new_block s)"
    using assms p by (auto simp: rle_at_def block_list_def prepare_new_block_def)
  show "taken [] (prepare_new_block s) = expand_runs (pending_run s)" by (simp add: taken_def p)
qed

text \<open>After a flush the block holds all that has been taken in.\<close>

lemma flush_RL_ok:
  assumes "rle_at rs s"
  shows "rld (block_list (flush_RL m s)) = Some (taken rs s)"
    "blockCRC (flush_RL m s) = crc_bytes BZ_INITIALISE_CRC (taken rs s)"
    "\<forall>i < 256. einUse (flush_RL m s) i \<longleftrightarrow> word_of_nat i \<in> set (block_list (flush_RL m s))"
    "nblock (flush_RL m s) \<le> nblock s + 5" "isempty_RL (flush_RL m s)"
proof -
  have "block_list (flush_RL m s) = code_runs (rs @ pending_run s) \<and>
      blockCRC (flush_RL m s) = crc_bytes BZ_INITIALISE_CRC (expand_runs (rs @ pending_run s)) \<and>
      (\<forall>i < 256. einUse (flush_RL m s) i \<longleftrightarrow> word_of_nat i \<in> set (block_list (flush_RL m s))) \<and>
      nblock (flush_RL m s) \<le> nblock s + 5"
    using add_pair_spec [OF assms, of m] assms
    by (auto simp: flush_RL_def init_RL_def rle_at_def pending_run_def)
  then show "rld (block_list (flush_RL m s)) = Some (taken rs s)"
    "blockCRC (flush_RL m s) = crc_bytes BZ_INITIALISE_CRC (taken rs s)"
    "\<forall>i < 256. einUse (flush_RL m s) i \<longleftrightarrow> word_of_nat i \<in> set (block_list (flush_RL m s))"
    "nblock (flush_RL m s) \<le> nblock s + 5"
    using rld_code_runs [of "rs @ pending_run s"] assms by (auto simp: rle_at_def taken_def)
  show "isempty_RL (flush_RL m s)" by (simp add: isempty_RL_def flush_RL_def init_RL_def)
qed

text \<open>A block that is full is coded without its pending run.\<close>

lemma full_block_ok:
  assumes "rle_at rs s"
  shows "rld (block_list s) = Some (expand_runs rs)" "blockCRC s = crc_bytes BZ_INITIALISE_CRC (expand_runs rs)"
proof -
  have "runs_ok rs" using assms by (auto simp: rle_at_def pending_run_def runs_ok_append split: if_splits)
  then show "rld (block_list s) = Some (expand_runs rs)" using rld_code_runs assms by (simp add: rle_at_def)
  show "blockCRC s = crc_bytes BZ_INITIALISE_CRC (expand_runs rs)" using assms by (simp add: rle_at_def)
qed

end
