(* ===== verification/BitWriter.thy ===== *)
theory BitWriter
  imports EState BitReader
begin

text \<open>
  The bit writer of \<^verbatim>\<open>src/compress.c\<close>: bits are collected at the upper end of \<open>bsBuff\<close> and go out four bytes
  at a time. \<open>out_bits\<close> is the bit string written so far, in \<open>zbits\<close> and in the buffer; writing appends to it.
\<close>

section \<open>The operations\<close>

definition BZ2_bsInitWrite :: "estate \<Rightarrow> estate" where
  "BZ2_bsInitWrite s = s\<lparr>ebsLive := 0, ebsBuff := 0\<rparr>"

function bsFinishWrite :: "estate \<Rightarrow> estate" where
  "bsFinishWrite s =
     (if ebsLive s > 0 then
        bsFinishWrite (s\<lparr>zbits := (zbits s)(numZ s := ucast (drop_bit 56 (ebsBuff s))), numZ := numZ s + 1,
          ebsBuff := push_bit 8 (ebsBuff s), ebsLive := ebsLive s - 8\<rparr>)
      else s)"
  by pat_completeness auto
termination by (relation "measure (\<lambda>s. nat (ebsLive s))") auto

function bsNEEDW :: "estate \<Rightarrow> estate" where
  "bsNEEDW s =
     (if ebsLive s \<ge> 32 then
        bsNEEDW (s\<lparr>zbits := (zbits s)(numZ s := ucast (drop_bit 56 (ebsBuff s)),
            numZ s + 1 := ucast (drop_bit 48 (ebsBuff s)), numZ s + 2 := ucast (drop_bit 40 (ebsBuff s)),
            numZ s + 3 := ucast (drop_bit 32 (ebsBuff s))), numZ := numZ s + 4,
          ebsBuff := push_bit 32 (ebsBuff s), ebsLive := ebsLive s - 32\<rparr>)
      else s)"
  by pat_completeness auto
termination by (relation "measure (\<lambda>s. nat (ebsLive s))") auto

declare bsFinishWrite.simps [simp del] bsNEEDW.simps [simp del]

definition bsW :: "nat \<Rightarrow> u32 \<Rightarrow> estate \<Rightarrow> estate" where
  "bsW n v s0 =
     (let s = bsNEEDW s0
      in s\<lparr>ebsBuff := ebsBuff s OR push_bit (nat (64 - ebsLive s - int n)) (ucast v), ebsLive := ebsLive s + int n\<rparr>)"

definition bsPutUInt32 :: "u32 \<Rightarrow> estate \<Rightarrow> estate" where
  "bsPutUInt32 u s =
     (let s = bsW 8 (drop_bit 24 u AND 0xff) s; s = bsW 8 (drop_bit 16 u AND 0xff) s; s = bsW 8 (drop_bit 8 u AND 0xff) s
      in bsW 8 (u AND 0xff) s)"

definition bsPutUChar :: "u8 \<Rightarrow> estate \<Rightarrow> estate" where
  "bsPutUChar c s = bsW 8 (ucast c) s"

section \<open>The bits written\<close>

definition zbytes :: "estate \<Rightarrow> u8 list" where
  "zbytes s = map (zbits s) [0..<numZ s]"

definition out_bits :: "estate \<Rightarrow> bool list" where
  "out_bits s = bytes_bits (zbytes s) @ to_bits (nat (ebsLive s)) (drop_bit (64 - nat (ebsLive s)) (ebsBuff s))"

text \<open>Below the live bits the buffer is zero.\<close>

definition write_ok :: "estate \<Rightarrow> bool" where
  "write_ok s \<longleftrightarrow> 0 \<le> ebsLive s \<and> ebsLive s \<le> 64 \<and> take_bit (64 - nat (ebsLive s)) (ebsBuff s) = 0"

lemma zbytes_put1:
  "zbytes (s\<lparr>zbits := (zbits s)(numZ s := b), numZ := numZ s + 1, ebsBuff := x, ebsLive := l\<rparr>) = zbytes s @ [b]"
proof -
  have "map ((zbits s)(numZ s := b)) [0..<numZ s] = map (zbits s) [0..<numZ s]" by (rule map_cong) auto
  then show ?thesis by (simp add: zbytes_def)
qed

lemma zbytes_put4:
  "zbytes (s\<lparr>zbits := (zbits s)(numZ s := b0, numZ s + 1 := b1, numZ s + 2 := b2, numZ s + 3 := b3), numZ := numZ s + 4,
     ebsBuff := x, ebsLive := l\<rparr>) = zbytes s @ [b0, b1, b2, b3]"
proof -
  have "[0..<numZ s + 4] = [0..<numZ s] @ [numZ s, numZ s + 1, numZ s + 2, numZ s + 3]"
    by (simp add: numeral_eq_Suc)
  moreover have "map ((zbits s)(numZ s := b0, numZ s + 1 := b1, numZ s + 2 := b2, numZ s + 3 := b3)) [0..<numZ s] =
      map (zbits s) [0..<numZ s]" by (rule map_cong) auto
  ultimately show ?thesis by (simp add: zbytes_def)
qed

lemma to_bits_ucast8: "to_bits 8 (ucast (drop_bit k b) :: u8) = to_bits 8 (drop_bit k b)" for b :: u64
  by (rule nth_equalityI) (auto simp: nth_to_bits bit_simps)

lemma to_bits_word_split: "to_bits (m + n) b = to_bits m (drop_bit n b) @ to_bits n b" for b :: "'a::len word"
  by (rule nth_equalityI) (auto simp: nth_to_bits nth_append bit_simps ac_simps)

lemma bsNEEDW_ok: "write_ok s \<Longrightarrow> write_ok (bsNEEDW s) \<and> out_bits (bsNEEDW s) = out_bits s \<and> ebsLive (bsNEEDW s) < 32"
proof (induction s rule: bsNEEDW.induct)
  case (1 s)
  show ?case
  proof (cases "ebsLive s \<ge> 32")
    case False
    then show ?thesis using 1 by (simp add: bsNEEDW.simps [of s])
  next
    case True
    define L where "L = nat (ebsLive s)"
    have L: "32 \<le> L" "L \<le> 64" "nat (ebsLive s - 32) = L - 32" using True 1(2) by (auto simp: L_def write_ok_def)
    let ?b = "ebsBuff s"
    let ?t = "s\<lparr>zbits := (zbits s)(numZ s := ucast (drop_bit 56 ?b),
            numZ s + 1 := ucast (drop_bit 48 ?b), numZ s + 2 := ucast (drop_bit 40 ?b),
            numZ s + 3 := ucast (drop_bit 32 ?b)), numZ := numZ s + 4,
          ebsBuff := push_bit 32 ?b, ebsLive := ebsLive s - 32\<rparr>"
    have z: "take_bit (64 - L) ?b = 0" using 1(2) by (simp add: write_ok_def L_def)
    have "take_bit (64 - (L - 32)) (push_bit 32 ?b) = push_bit 32 (take_bit (64 - L) ?b)"
      using L by (simp add: take_bit_push_bit)
    then have w: "write_ok ?t" using L z True 1(2) by (simp add: write_ok_def)
    have "drop_bit (64 - (L - 32)) (push_bit 32 ?b) = take_bit (L - 32) (drop_bit (64 - L) ?b)"
      using L by (intro bit_word_eqI) (auto simp: bit_simps)
    then have a: "to_bits (L - 32) (drop_bit (64 - (L - 32)) (push_bit 32 ?b)) = to_bits (L - 32) (drop_bit (64 - L) ?b)"
      by (simp add: to_bits_def bit_simps)
    have "to_bits 8 (drop_bit 56 ?b) @ to_bits 8 (drop_bit 48 ?b) @ to_bits 8 (drop_bit 40 ?b) @ to_bits 8 (drop_bit 32 ?b) =
        to_bits 32 (drop_bit 32 ?b)"
      using to_bits_word_split [of 8 24 "drop_bit 32 ?b"] to_bits_word_split [of 8 16 "drop_bit 32 ?b"]
        to_bits_word_split [of 8 8 "drop_bit 32 ?b"] by (simp add: drop_bit_drop_bit)
    moreover have "to_bits L (drop_bit (64 - L) ?b) = to_bits 32 (drop_bit 32 ?b) @ to_bits (L - 32) (drop_bit (64 - L) ?b)"
      using to_bits_word_split [of 32 "L - 32" "drop_bit (64 - L) ?b"] L by (simp add: drop_bit_drop_bit)
    ultimately have "out_bits ?t = out_bits s"
      unfolding out_bits_def zbytes_put4 by (simp add: to_bits_ucast8 L(3) a flip: L_def)
    then show ?thesis using 1(1) [OF True w] True by (simp add: bsNEEDW.simps [of s])
  qed
qed

lemma bsW_ok:
  assumes "write_ok s" "n \<le> 32" "take_bit n v = v"
  shows "write_ok (bsW n v s)" "out_bits (bsW n v s) = out_bits s @ to_bits n v"
proof -
  let ?s = "bsNEEDW s"
  define L where "L = nat (ebsLive ?s)"
  have N: "write_ok ?s" "out_bits ?s = out_bits s" "L < 32" "ebsLive ?s = int L"
    using bsNEEDW_ok [OF assms(1)] by (auto simp: L_def write_ok_def)
  let ?b = "ebsBuff ?s" and ?v = "ucast v :: u64"
  have z: "take_bit (64 - L) ?b = 0" using N by (simp add: write_ok_def)
  have nz: "\<not> bit ?b i" if "i < 64 - L" for i using that z by (metis bit_0_eq bit_take_bit_iff bot_apply bot_bool_def)
  have nv: "i < n" if "bit v i" for i using that assms(3) by (metis bit_take_bit_iff)
  have f: "nat (64 - int L - int n) = 64 - L - n" "nat (int L + int n) = L + n" using N assms(2) by linarith+
  show "write_ok (bsW n v s)"
    using N assms(2) nz nv
    by (auto simp: bsW_def Let_def write_ok_def f intro!: bit_word_eqI simp: bit_simps)
  have d: "drop_bit (64 - (L + n)) (?b OR push_bit (64 - L - n) ?v) = push_bit n (drop_bit (64 - L) ?b) OR take_bit n ?v"
  proof (rule bit_word_eqI)
    fix i :: nat
    have k: "64 - (L + n) + i < 64 - L \<longleftrightarrow> i < n" using N assms(2) by linarith
    show "bit (drop_bit (64 - (L + n)) (?b OR push_bit (64 - L - n) ?v)) i = bit (push_bit n (drop_bit (64 - L) ?b) OR take_bit n ?v) i"
    proof (cases "i < n")
      case True
      then show ?thesis using nz [of "64 - (L + n) + i"] k N(3) assms(2) nv by (auto simp: bit_simps)
    next
      case False
      then have "64 - L + (i - n) = 64 - (L + n) + i" using N assms(2) by linarith
      then show ?thesis using False nv [of i] by (auto simp: bit_simps dest: bit_imp_le_length)
    qed
  qed
  have "to_bits (L + n) (drop_bit (64 - (L + n)) (?b OR push_bit (64 - L - n) ?v)) = to_bits L (drop_bit (64 - L) ?b) @ to_bits n ?v"
    unfolding d using to_bits_push [of L n "drop_bit (64 - L) ?b" ?v] N assms(2) by simp
  moreover have "to_bits n ?v = to_bits n v"
    by (rule nth_equalityI) (use assms(2) in \<open>auto simp: nth_to_bits bit_simps\<close>)
  ultimately show "out_bits (bsW n v s) = out_bits s @ to_bits n v"
    using N(2) by (simp add: bsW_def Let_def out_bits_def zbytes_def N(4) f)
qed

section \<open>Writing as a relation\<close>

text \<open>Only the four fields of the writer change, and the bits written grow by \<open>bs\<close>.\<close>

definition only_bits :: "estate \<Rightarrow> estate \<Rightarrow> bool" where
  "only_bits s s' \<longleftrightarrow> (\<exists>z n b l. s' = s\<lparr>zbits := z, numZ := n, ebsBuff := b, ebsLive := l\<rparr>)"

lemma only_bits_refl: "only_bits s s"
proof -
  have "s = s\<lparr>zbits := zbits s, numZ := numZ s, ebsBuff := ebsBuff s, ebsLive := ebsLive s\<rparr>" by simp
  then show ?thesis unfolding only_bits_def by (intro exI)
qed

lemma only_bits_trans: "only_bits s s' \<Longrightarrow> only_bits s' s'' \<Longrightarrow> only_bits s s''"
  unfolding only_bits_def by (elim exE, simp) blast

lemma only_bits_fields:
  assumes "only_bits s s'"
  shows "estrm s' = estrm s" "emode s' = emode s" "est s' = est s" "arr1 s' = arr1 s" "eorigPtr s' = eorigPtr s" "block s' = block s"
    "nblock s' = nblock s" "enInUse s' = enInUse s" "einUse s' = einUse s" "unseqToSeq s' = unseqToSeq s" "nMTF s' = nMTF s"
    "mtfFreq s' = mtfFreq s" "eselector s' = eselector s" "eselectorMtf s' = eselectorMtf s" "elen s' = elen s" "ecode s' = ecode s"
    "blockCRC s' = blockCRC s" "combinedCRC s' = combinedCRC s" "blockNo s' = blockNo s" "eblockSize100k s' = eblockSize100k s"
    "state_in_ch s' = state_in_ch s" "state_in_len s' = state_in_len s" "avail_in_expect s' = avail_in_expect s"
    "nblockMAX s' = nblockMAX s" "state_out_pos s' = state_out_pos s" "mtfv s' = mtfv s" "block_list s' = block_list s"
  using assms by (auto simp: only_bits_def mtfv_def block_list_def fun_eq_iff)

lemma only_bits_put: "only_bits s (s\<lparr>ebsBuff := b, ebsLive := l\<rparr>)"
proof -
  have "s\<lparr>ebsBuff := b, ebsLive := l\<rparr> = s\<lparr>zbits := zbits s, numZ := numZ s, ebsBuff := b, ebsLive := l\<rparr>" by simp
  then show ?thesis unfolding only_bits_def by (intro exI)
qed

lemma only_bits_NEEDW: "only_bits s (bsNEEDW s)"
proof (induction s rule: bsNEEDW.induct)
  case (1 s)
  show ?case
  proof (cases "ebsLive s \<ge> 32")
    case True
    have "only_bits s (s\<lparr>zbits := z, numZ := n, ebsBuff := b, ebsLive := l\<rparr>)" for z n b l
      unfolding only_bits_def by (intro exI) (rule refl)
    from only_bits_trans [OF this 1(1) [OF True]] show ?thesis using True by (simp add: bsNEEDW.simps [of s])
  qed (simp add: bsNEEDW.simps [of s] only_bits_refl)
qed

lemma only_bits_W: "only_bits s (bsW n v s)"
  unfolding bsW_def Let_def by (rule only_bits_trans [OF only_bits_NEEDW only_bits_put])

lemma only_bits_Finish: "only_bits s (bsFinishWrite s)"
proof (induction s rule: bsFinishWrite.induct)
  case (1 s)
  show ?case
  proof (cases "ebsLive s > 0")
    case True
    have "only_bits s (s\<lparr>zbits := z, numZ := n, ebsBuff := b, ebsLive := l\<rparr>)" for z n b l
      unfolding only_bits_def by (intro exI) (rule refl)
    from only_bits_trans [OF this 1 [OF True]] show ?thesis using True by (simp add: bsFinishWrite.simps [of s])
  qed (simp add: bsFinishWrite.simps [of s] only_bits_refl)
qed

definition emits :: "bool list \<Rightarrow> estate \<Rightarrow> estate \<Rightarrow> bool" where
  "emits bs s s' \<longleftrightarrow> only_bits s s' \<and> (write_ok s \<longrightarrow> write_ok s' \<and> out_bits s' = out_bits s @ bs)"

lemma emits_refl: "emits [] s s"
  by (simp add: emits_def only_bits_refl)

lemma emits_trans: "emits xs s s' \<Longrightarrow> emits ys s' s'' \<Longrightarrow> emits (xs @ ys) s s''"
  using only_bits_trans by (auto simp: emits_def)

lemma emits_bsW: "n \<le> 32 \<Longrightarrow> take_bit n v = v \<Longrightarrow> emits (to_bits n v) s (bsW n v s)"
  using bsW_ok only_bits_W by (simp add: emits_def)

text \<open>The same for a value given as a number.\<close>

lemma to_bits_nat: "n \<le> 32 \<Longrightarrow> to_bits n (word_of_nat v :: u32) = to_bits n v"
  by (rule nth_equalityI) (auto simp: nth_to_bits bit_simps possible_bit_def)

lemma emits_nat: "n \<le> 32 \<Longrightarrow> v < 2 ^ n \<Longrightarrow> emits (to_bits n v) s (bsW n (word_of_nat v) s)"
proof -
  assume a: "n \<le> 32" "v < 2 ^ n"
  have "take_bit n (word_of_nat v :: u32) = word_of_nat (take_bit n v)" by (rule take_bit_of_nat)
  then show ?thesis using emits_bsW [OF a(1), of "word_of_nat v" s] a to_bits_nat [OF a(1), of v] by (simp add: take_bit_nat_eq_self)
qed

lemma emits_fold: "(\<And>x s. x \<in> set xs \<Longrightarrow> emits (f x) s (g x s)) \<Longrightarrow> emits (concat (map f xs)) s (fold g xs s)"
proof (induction xs arbitrary: s)
  case (Cons x xs)
  have "emits (f x) s (g x s)" using Cons.prems by simp
  from emits_trans [OF this Cons.IH] Cons.prems show ?case by simp
qed (simp add: emits_refl)

lemma emits_bit: "emits [b] s (bsW 1 (if b then 1 else 0) s)"
proof -
  have "take_bit 1 (if b then 1 else 0 :: u32) = (if b then 1 else 0)" by simp
  moreover have "to_bits 1 (if b then 1 else 0 :: u32) = [b]" by (simp add: to_bits_def)
  ultimately show ?thesis using emits_bsW [of 1 "if b then 1 else 0" s] by simp
qed

lemma emits_bsPutUChar: "emits (to_bits 8 c) s (bsPutUChar c s)"
proof -
  have "take_bit 8 (ucast c :: u32) = ucast c" by (rule bit_word_eqI) (auto simp: bit_simps dest: bit_imp_le_length)
  moreover have "to_bits 8 (ucast c :: u32) = to_bits 8 c" by (rule nth_equalityI) (auto simp: nth_to_bits bit_simps)
  ultimately show ?thesis using emits_bsW [of 8 "ucast c" s] by (simp add: bsPutUChar_def)
qed

lemma emits_bsPutUInt32: "emits (to_bits 32 u) s (bsPutUInt32 u s)"
proof -
  have e: "emits (to_bits 8 (drop_bit k u)) s (bsW 8 (drop_bit k u AND 0xff) s)" for k s
  proof -
    have m: "(0xff :: u32) = mask 8" by (simp add: mask_eq_exp_minus_1)
    have "take_bit 8 (drop_bit k u AND 0xff) = drop_bit k u AND 0xff" unfolding m by (rule bit_word_eqI) (auto simp: bit_simps)
    moreover have "to_bits 8 (drop_bit k u AND 0xff) = to_bits 8 (drop_bit k u)"
      unfolding m by (rule nth_equalityI) (auto simp: nth_to_bits bit_simps)
    ultimately show ?thesis using emits_bsW [of 8 "drop_bit k u AND 0xff" s] by simp
  qed
  have "to_bits 32 u = to_bits 8 (drop_bit 24 u) @ to_bits 8 (drop_bit 16 u) @ to_bits 8 (drop_bit 8 u) @ to_bits 8 (drop_bit 0 u)"
    using to_bits_word_split [of 8 24 u] to_bits_word_split [of 8 16 u] to_bits_word_split [of 8 8 u] by simp
  then show ?thesis unfolding bsPutUInt32_def Let_def
    using emits_trans [OF e [of 24 s] emits_trans [OF e [of 16] emits_trans [OF e [of 8] e [of 0]]]] by simp
qed

text \<open>At the end the last byte is filled up with zeros.\<close>

lemma bsFinishWrite_ok:
  "write_ok s \<Longrightarrow> \<exists>k < 8. bytes_bits (zbytes (bsFinishWrite s)) = out_bits s @ replicate k False"
proof -
  have "- 8 < ebsLive s \<Longrightarrow> ebsLive s \<le> 64 \<Longrightarrow> take_bit (64 - nat (ebsLive s)) (ebsBuff s) = 0 \<Longrightarrow>
      bytes_bits (zbytes (bsFinishWrite s)) = bytes_bits (zbytes s) @
        to_bits (8 * ((nat (ebsLive s) + 7) div 8)) (drop_bit (64 - 8 * ((nat (ebsLive s) + 7) div 8)) (ebsBuff s))" for s
  proof (induction s rule: bsFinishWrite.induct)
    case (1 s)
    show ?case
    proof (cases "ebsLive s > 0")
      case False
      then show ?thesis by (simp add: bsFinishWrite.simps [of s] to_bits_def)
    next
      case True
      define L where "L = nat (ebsLive s)"
      have L: "0 < L" "L \<le> 64" "nat (ebsLive s - 8) = L - 8" using True 1(3) by (auto simp: L_def)
      let ?b = "ebsBuff s"
      let ?t = "s\<lparr>zbits := (zbits s)(numZ s := ucast (drop_bit 56 ?b)), numZ := numZ s + 1,
          ebsBuff := push_bit 8 ?b, ebsLive := ebsLive s - 8\<rparr>"
      have z: "take_bit (64 - L) ?b = 0" using 1(4) by (simp add: L_def)
      have nz: "\<not> bit ?b i" if "i < 64 - L" for i using that z by (metis bit_0_eq bit_take_bit_iff bot_apply bot_bool_def)
      have z': "take_bit (64 - (L - 8)) (push_bit 8 ?b) = 0" using nz L by (intro bit_word_eqI) (auto simp: bit_simps)
      let ?k = "(L + 7) div 8" and ?k' = "(L - 8 + 7) div 8"
      have "?k = Suc ?k'" using L(1) by (cases "L \<le> 8") (auto simp: div_eq_dividend_iff le_div_geq not_le)
      moreover have "8 * ?k \<le> 64" using div_le_mono [of "L + 7" 71 8] L(2) by simp
      ultimately have k: "?k = Suc ?k'" "8 * ?k \<le> 64" .
      have IH: "bytes_bits (zbytes (bsFinishWrite ?t)) = bytes_bits (zbytes ?t) @ to_bits (8 * ?k') (drop_bit (64 - 8 * ?k') (push_bit 8 ?b))"
        using 1(1) [OF True] True 1(3) z' L by simp
      have "drop_bit (64 - 8 * ?k') (push_bit 8 ?b) = take_bit (8 * ?k') (drop_bit (64 - 8 * ?k) ?b)"
      proof -
        have "drop_bit (64 - m) (push_bit 8 ?b) = take_bit m (drop_bit (56 - m) ?b)" if "m \<le> 56" for m
          using that by (intro bit_word_eqI) (auto simp: bit_simps)
        moreover have "8 * ?k' \<le> 56" "64 - 8 * ?k = 56 - 8 * ?k'" using k by linarith+
        ultimately show ?thesis by simp
      qed
      then have a: "to_bits (8 * ?k') (drop_bit (64 - 8 * ?k') (push_bit 8 ?b)) = to_bits (8 * ?k') (drop_bit (64 - 8 * ?k) ?b)"
        by (simp add: to_bits_def bit_simps)
      have "to_bits (8 * ?k) (drop_bit (64 - 8 * ?k) ?b) = to_bits 8 (drop_bit 56 ?b) @ to_bits (8 * ?k') (drop_bit (64 - 8 * ?k) ?b)"
        using to_bits_word_split [of 8 "8 * ?k'" "drop_bit (64 - 8 * ?k) ?b"] k by (simp add: drop_bit_drop_bit)
      moreover have "bytes_bits (zbytes ?t) = bytes_bits (zbytes s) @ to_bits 8 (drop_bit 56 ?b)"
        unfolding zbytes_put1 by (simp add: to_bits_ucast8)
      ultimately show ?thesis using IH a True by (simp add: bsFinishWrite.simps [of s] flip: L_def)
    qed
  qed
  moreover assume w: "write_ok s"
  ultimately have e: "bytes_bits (zbytes (bsFinishWrite s)) = bytes_bits (zbytes s) @
        to_bits (8 * ((nat (ebsLive s) + 7) div 8)) (drop_bit (64 - 8 * ((nat (ebsLive s) + 7) div 8)) (ebsBuff s))"
    by (auto simp: write_ok_def)
  define L k where "L = nat (ebsLive s)" and "k = 8 * ((L + 7) div 8) - L"
  have k: "8 * ((L + 7) div 8) = L + k" "k < 8" "L + k \<le> 64" using w by (auto simp: k_def L_def write_ok_def)
  have nz: "\<not> bit (ebsBuff s) i" if "i < 64 - L" for i
    using that w by (metis L_def write_ok_def bit_0_eq bit_take_bit_iff bot_apply bot_bool_def)
  have "to_bits (L + k) (drop_bit (64 - (L + k)) (ebsBuff s)) = to_bits L (drop_bit (64 - L) (ebsBuff s)) @ replicate k False"
  proof -
    have "to_bits k (drop_bit (64 - (L + k)) (ebsBuff s)) = replicate k False"
      by (rule nth_equalityI) (use k(3) nz in \<open>auto simp: nth_to_bits bit_simps\<close>)
    then show ?thesis using to_bits_word_split [of L k "drop_bit (64 - (L + k)) (ebsBuff s)"] k(3) by (simp add: drop_bit_drop_bit)
  qed
  then show ?thesis using e k(1,2) by (auto simp: out_bits_def simp flip: L_def)
qed

end
