(* ===== verification/Mtf.thy ===== *)
theory Mtf
  imports EState BitReader
begin

text \<open>
  \<open>generateMTFValues\<close> of \<^verbatim>\<open>src/compress.c\<close>: move-to-front and the coding of zero runs, from the sorted block
  to the symbols in \<open>mtfv\<close>. \<open>mtfv\<close> overwrites \<open>ptr\<close> while it is being read; the lemmas show that it never
  catches up. Both searches are modelled, the one with SSE2 (\<open>mtf_simd\<close>) and the scalar one (\<open>mtf_scalar\<close>); a search
  that runs off the array would be \<open>None\<close>.
\<close>

section \<open>The operations\<close>

definition makeMaps_e :: "estate \<Rightarrow> estate" where
  "makeMaps_e s =
     fold (\<lambda>i s. if einUse s i
                 then s\<lparr>unseqToSeq := (unseqToSeq s)(i := word_of_nat (enInUse s)), enInUse := enInUse s + 1\<rparr> else s)
       [0..<256] (s\<lparr>enInUse := 0\<rparr>)"

text \<open>\<open>wr\<close> and the state.\<close>

definition push_sym :: "nat \<Rightarrow> nat \<times> estate \<Rightarrow> nat \<times> estate" where
  "push_sym v a = (case a of (wr, s) \<Rightarrow>
     (wr + 1, (set_mtfv wr v s)\<lparr>mtfFreq := (mtfFreq s)(v := mtfFreq s v + 1)\<rparr>))"

function run_digits :: "nat \<Rightarrow> nat \<times> estate \<Rightarrow> nat \<times> estate" where
  "run_digits zPend a =
     (let a = push_sym (if zPend AND 1 \<noteq> 0 then BZ_RUNB else BZ_RUNA) a
      in if zPend < 2 then a else run_digits ((zPend - 2) div 2) a)"
  by pat_completeness auto
termination by (relation "measure fst") auto

declare run_digits.simps [simp del]

definition zpend_out :: "nat \<Rightarrow> nat \<times> estate \<Rightarrow> nat \<times> estate" where
  "zpend_out zPend a = (if zPend > 0 then run_digits (zPend - 1) a else a)"

text \<open>The search with SSE2, 16 bytes at a time.\<close>

definition movemask :: "(nat \<Rightarrow> u8) \<Rightarrow> nat \<Rightarrow> u8 \<Rightarrow> u32" where
  "movemask yy pos c = fold (\<lambda>k m. if yy (pos + k) = c then m OR push_bit k 1 else m) [0..<16] 0"

definition ctz :: "u32 \<Rightarrow> nat" where
  "ctz m = length (takeWhile (\<lambda>k. \<not> bit m k) [0..<32])"

partial_function (option) mtf_search :: "(nat \<Rightarrow> u8) \<Rightarrow> u8 \<Rightarrow> nat \<Rightarrow> nat option" where
  "mtf_search yy c pos =
     (let m = movemask yy pos c in if m \<noteq> 0 then Some (pos + ctz m) else mtf_search yy c (pos + 16))"

definition mtf_simd :: "(nat \<Rightarrow> u8) \<Rightarrow> u8 \<Rightarrow> (nat \<times> (nat \<Rightarrow> u8)) option" where
  "mtf_simd yy c =
     (case mtf_search yy c 0 of
        None \<Rightarrow> None
      | Some pos \<Rightarrow> Some (pos, (\<lambda>k. if 1 \<le> k \<and> k \<le> pos then yy (k - 1) else yy k)(0 := c)))"

text \<open>The scalar search, which shifts as it goes.\<close>

partial_function (option) ryy_loop :: "u8 \<Rightarrow> u8 \<Rightarrow> nat \<Rightarrow> (nat \<Rightarrow> u8) \<Rightarrow> (u8 \<times> nat \<times> (nat \<Rightarrow> u8)) option" where
  "ryy_loop rll_i rtmp j yy =
     (if rll_i \<noteq> rtmp then ryy_loop rll_i (yy (j + 1)) (j + 1) (yy(j + 1 := rtmp)) else Some (rtmp, j, yy))"

declare mtf_search.simps [code] ryy_loop.simps [code]

definition mtf_scalar :: "(nat \<Rightarrow> u8) \<Rightarrow> u8 \<Rightarrow> (nat \<times> (nat \<Rightarrow> u8)) option" where
  "mtf_scalar yy c =
     (let rtmp = yy 1; yy = yy(1 := yy 0)
      in case ryy_loop c rtmp 1 yy of None \<Rightarrow> None | Some (rtmp, j, yy) \<Rightarrow> Some (j, yy(0 := rtmp)))"

text \<open>One byte of the block. The locals are \<open>yy\<close>, \<open>zPend\<close>, \<open>wr\<close>.\<close>

type_synonym mtf_locals = "(nat \<Rightarrow> u8) \<times> nat \<times> nat \<times> estate"

definition mtf_step :: "((nat \<Rightarrow> u8) \<Rightarrow> u8 \<Rightarrow> (nat \<times> (nat \<Rightarrow> u8)) option) \<Rightarrow> nat \<Rightarrow> mtf_locals \<Rightarrow> mtf_locals option" where
  "mtf_step search i x =
     (case x of (yy, zPend, wr, s) \<Rightarrow>
        let j = int (ptr s i) - 1; j = (if j < 0 then j + int (nblock s) else j);
            ll_i = unseqToSeq s (unat (block s (nat j)))
        in if yy 0 = ll_i then Some (yy, zPend + 1, wr, s)
           else
             let a = zpend_out zPend (wr, s)
             in case search yy ll_i of
                  None \<Rightarrow> None
                | Some (pos, yy) \<Rightarrow> (case push_sym (pos + 1) a of (wr, s) \<Rightarrow> Some (yy, 0, wr, s)))"

fun mtf_steps :: "((nat \<Rightarrow> u8) \<Rightarrow> u8 \<Rightarrow> (nat \<times> (nat \<Rightarrow> u8)) option) \<Rightarrow> nat list \<Rightarrow> mtf_locals \<Rightarrow> mtf_locals option" where
  "mtf_steps search [] x = Some x"
| "mtf_steps search (i # is) x = (case mtf_step search i x of None \<Rightarrow> None | Some x \<Rightarrow> mtf_steps search is x)"

definition generateMTFValues :: "((nat \<Rightarrow> u8) \<Rightarrow> u8 \<Rightarrow> (nat \<times> (nat \<Rightarrow> u8)) option) \<Rightarrow> estate \<Rightarrow> estate option" where
  "generateMTFValues search s0 =
     (let s = makeMaps_e s0; EOB = enInUse s + 1;
          s = s\<lparr>mtfFreq := fold (\<lambda>i f. f(i := 0)) [0..<EOB + 1] (mtfFreq s)\<rparr>;
          yy = (\<lambda>i. if i < enInUse s then word_of_nat i else 0xFF)
      in case mtf_steps search [0..<nblock s] (yy, 0, 0, s) of
           None \<Rightarrow> None
         | Some (yy, zPend, wr, s) \<Rightarrow>
             (case push_sym EOB (zpend_out zPend (wr, s)) of (wr, s) \<Rightarrow> Some (s\<lparr>nMTF := wr\<rparr>)))"

section \<open>Specification\<close>

text \<open>The position of a byte, and the list with it moved to the front.\<close>

definition pos_of :: "'a list \<Rightarrow> 'a \<Rightarrow> nat" where
  "pos_of ys c = length (takeWhile (\<lambda>y. y \<noteq> c) ys)"

definition to_front :: "nat \<Rightarrow> 'a list \<Rightarrow> 'a list" where
  "to_front p ys = ys ! p # take p ys @ drop (p + 1) ys"

fun mtf_pos :: "'a list \<Rightarrow> 'a list \<Rightarrow> nat list" where
  "mtf_pos ys [] = []"
| "mtf_pos ys (c # cs) = pos_of ys c # mtf_pos (to_front (pos_of ys c) ys) cs"

text \<open>A run of zeros in bijective base two, least digit first, and the coding of all positions.\<close>

function zdigits :: "nat \<Rightarrow> nat list" where
  "zdigits z = (if z = 0 then [] else (z - 1) mod 2 # zdigits ((z - 1) div 2))"
  by pat_completeness auto
termination by (relation "measure id") auto

declare zdigits.simps [simp del]

lemma zdigits_0 [simp]: "zdigits 0 = []"
  by (subst zdigits.simps) simp

fun zcode :: "nat \<Rightarrow> nat list \<Rightarrow> nat list" where
  "zcode z [] = zdigits z"
| "zcode z (p # ps) = (if p = 0 then zcode (z + 1) ps else zdigits z @ (p + 1) # zcode 0 ps)"

text \<open>The way back.\<close>

fun unmtf :: "'a list \<Rightarrow> nat list \<Rightarrow> 'a list" where
  "unmtf ys [] = []"
| "unmtf ys (p # ps) = ys ! p # unmtf (to_front p ys) ps"

fun unzcode :: "nat \<Rightarrow> nat \<Rightarrow> nat list \<Rightarrow> nat list" where
  "unzcode N z [] = replicate z 0"
| "unzcode N z (d # ds) = (if d \<le> BZ_RUNB then unzcode (2 * N) (z + (d + 1) * N) ds
     else replicate z 0 @ (d - 1) # unzcode 1 0 ds)"

lemma pos_of_less: "c \<in> set ys \<Longrightarrow> pos_of ys c < length ys \<and> ys ! pos_of ys c = c"
  by (induction ys) (auto simp: pos_of_def)

lemma to_front_0: "ys \<noteq> [] \<Longrightarrow> to_front 0 ys = ys"
  by (cases ys) (auto simp: to_front_def)

lemma set_to_front: "p < length ys \<Longrightarrow> set (to_front p ys) = set ys"
proof -
  assume p: "p < length ys"
  have "set ys = set (take p ys @ ys ! p # drop (Suc p) ys)" using id_take_nth_drop [OF p] by simp
  then show ?thesis by (auto simp: to_front_def)
qed

lemma length_to_front: "p < length ys \<Longrightarrow> length (to_front p ys) = length ys"
  by (simp add: to_front_def)

lemma unmtf_mtf_pos: "set cs \<subseteq> set ys \<Longrightarrow> unmtf ys (mtf_pos ys cs) = cs"
proof (induction cs arbitrary: ys)
  case (Cons c cs)
  then show ?case using pos_of_less [of c ys] set_to_front [of "pos_of ys c" ys] by simp
qed simp

lemma mtf_pos_less: "set cs \<subseteq> set ys \<Longrightarrow> p \<in> set (mtf_pos ys cs) \<Longrightarrow> p < length ys"
proof (induction cs arbitrary: ys)
  case (Cons c cs)
  have "pos_of ys c < length ys" using pos_of_less [of c ys] Cons.prems by simp
  moreover from this have "set (to_front (pos_of ys c) ys) = set ys" "length (to_front (pos_of ys c) ys) = length ys"
    using set_to_front length_to_front by blast+
  ultimately show ?case using Cons.IH [of "to_front (pos_of ys c) ys"] Cons.prems by auto
qed simp

lemma length_mtf_pos [simp]: "length (mtf_pos ys cs) = length cs"
  by (induction cs arbitrary: ys) auto

text \<open>Reading the digits of a run gives it back.\<close>

lemma unzcode_zdigits: "unzcode N y (zdigits z @ ds) = unzcode (2 ^ length (zdigits z) * N) (y + z * N) ds"
proof (induction z arbitrary: N y rule: zdigits.induct)
  case (1 z)
  show ?case
  proof (cases z)
    case 0
    then show ?thesis by simp
  next
    case (Suc k)
    define m h where "m = k mod 2" and "h = k div 2"
    have d: "zdigits z = m # zdigits h" using Suc by (subst zdigits.simps) (simp add: m_def h_def)
    have m: "m \<le> 1" and z: "z = m + 1 + 2 * h" using Suc unfolding m_def h_def by presburger+
    have "unzcode (2 * N) (y + (m + 1) * N) (zdigits h @ ds) =
        unzcode (2 ^ length (zdigits h) * (2 * N)) (y + (m + 1) * N + h * (2 * N)) ds"
      using 1 [of "2 * N" "y + (m + 1) * N"] Suc by (simp add: h_def)
    then show ?thesis using m unfolding d by (simp add: z algebra_simps)
  qed
qed

lemma unzcode_zcode: "unzcode 1 0 (zcode z ps) = replicate z 0 @ ps"
proof (induction z ps rule: zcode.induct)
  case (1 z)
  then show ?case using unzcode_zdigits [of 1 0 z "[]"] by simp
next
  case (2 z p ps)
  then show ?case using unzcode_zdigits [of 1 0 z "(p + 1) # zcode 0 ps"]
    by (auto simp: replicate_app_Cons_same)
qed

lemma zdigits_le: "length (zdigits z) \<le> z"
proof (induction z rule: zdigits.induct)
  case (1 z)
  then show ?case by (subst zdigits.simps) auto
qed

lemma zcode_le: "length (zcode z ps) \<le> z + length ps"
proof (induction z ps rule: zcode.induct)
  case (2 z p ps)
  then show ?case using zdigits_le [of z] by auto
qed (simp add: zdigits_le)

section \<open>Both searches find the first occurrence\<close>

definition move_up :: "nat \<Rightarrow> (nat \<Rightarrow> 'a) \<Rightarrow> (nat \<Rightarrow> 'a)" where
  "move_up p yy = (\<lambda>k. if k = 0 then yy p else if k \<le> p then yy (k - 1) else yy k)"

lemma bit_movemask: "bit (movemask yy pos c) k \<longleftrightarrow> k < 16 \<and> yy (pos + k) = c"
proof -
  have "n \<le> 16 \<Longrightarrow> bit (fold (\<lambda>k m. if yy (pos + k) = c then m OR push_bit k 1 else m) [0..<n] (0 :: u32)) k \<longleftrightarrow>
      k < n \<and> yy (pos + k) = c" for n
    by (induction n) (auto simp: bit_simps less_Suc_eq)
  from this [of 16] show ?thesis by (simp add: movemask_def)
qed

lemma ctz_eq:
  assumes "bit m k" "\<forall>j < k. \<not> bit m j"
  shows "ctz m = k"
proof -
  have "k < 32" using bit_imp_le_length [OF assms(1)] by simp
  then have "[0..<32] = [0..<k] @ k # [Suc k..<32]" by (metis less_imp_le_nat upt_add_eq_append upt_conv_Cons le_add_diff_inverse zero_le)
  moreover have "takeWhile (\<lambda>k. \<not> bit m k) ([0..<k] @ k # [Suc k..<32]) = [0..<k]"
    using assms by (subst takeWhile_append2) auto
  ultimately show ?thesis by (simp add: ctz_def)
qed

lemma mtf_search_ok:
  "\<lbrakk> yy p = c; \<forall>i < p. yy i \<noteq> c; pos \<le> p \<rbrakk> \<Longrightarrow> mtf_search yy c pos = Some p"
proof (induction "p - pos" arbitrary: pos rule: less_induct)
  case less
  show ?case
  proof (cases "p < pos + 16")
    case True
    have "bit (movemask yy pos c) (p - pos)" using True less.prems by (simp add: bit_movemask)
    moreover have "\<forall>j < p - pos. \<not> bit (movemask yy pos c) j" using less.prems by (auto simp: bit_movemask)
    ultimately have "movemask yy pos c \<noteq> 0" "ctz (movemask yy pos c) = p - pos" using ctz_eq by auto
    then show ?thesis using less.prems by (simp add: mtf_search.simps [of yy c pos] Let_def)
  next
    case False
    have "movemask yy pos c = 0" using False less.prems by (intro bit_word_eqI) (auto simp: bit_movemask)
    moreover have "mtf_search yy c (pos + 16) = Some p" using less.hyps [of "pos + 16"] less.prems False by simp
    ultimately show ?thesis by (simp add: mtf_search.simps [of yy c pos])
  qed
qed

lemma mtf_simd_ok: "\<lbrakk> yy p = c; \<forall>i < p. yy i \<noteq> c \<rbrakk> \<Longrightarrow> mtf_simd yy c = Some (p, move_up p yy)"
  using mtf_search_ok [of yy p c 0] by (auto simp: mtf_simd_def move_up_def fun_eq_iff)

text \<open>The scalar search has shifted the first \<open>j\<close> elements when it looks at \<open>yy[j]\<close>.\<close>

definition shifted :: "nat \<Rightarrow> (nat \<Rightarrow> 'a) \<Rightarrow> (nat \<Rightarrow> 'a)" where
  "shifted j yy = (\<lambda>k. if 1 \<le> k \<and> k \<le> j then yy (k - 1) else yy k)"

lemma shifted_Suc: "(shifted j yy)(Suc j := yy j) = shifted (Suc j) yy" "shifted j yy (Suc j) = yy (Suc j)"
  "yy(Suc 0 := yy 0) = shifted 1 yy"
  by (auto simp: shifted_def fun_eq_iff)

lemma ryy_loop_ok:
  "\<lbrakk> yy p = c; \<forall>i < p. yy i \<noteq> c; 1 \<le> j; j \<le> p \<rbrakk> \<Longrightarrow> ryy_loop c (yy j) j (shifted j yy) = Some (c, p, shifted p yy)"
proof (induction "p - j" arbitrary: j rule: less_induct)
  case less
  show ?case
  proof (cases "j = p")
    case True
    then show ?thesis using less.prems by (subst ryy_loop.simps) simp
  next
    case False
    have "j < p" using False less.prems by simp
    then have n: "c \<noteq> yy j" using less.prems by blast
    then show ?thesis using less.hyps [of "Suc j"] less.prems False
      by (subst ryy_loop.simps) (simp add: shifted_Suc)
  qed
qed

lemma mtf_scalar_ok: "\<lbrakk> yy p = c; \<forall>i < p. yy i \<noteq> c; 0 < p \<rbrakk> \<Longrightarrow> mtf_scalar yy c = Some (p, move_up p yy)"
  using ryy_loop_ok [of yy p c 1]
  by (simp add: mtf_scalar_def Let_def shifted_Suc(3)) (auto simp: shifted_def move_up_def fun_eq_iff)

section \<open>The maps of the bytes in use\<close>

definition used_bytes :: "estate \<Rightarrow> nat list" where
  "used_bytes s = filter (einUse s) [0..<256]"

lemma makeMaps_e_ok:
  "makeMaps_e s = s\<lparr>enInUse := length (used_bytes s), unseqToSeq := unseqToSeq (makeMaps_e s)\<rparr>"
  "i < 256 \<Longrightarrow> einUse s i \<Longrightarrow> unat (unseqToSeq (makeMaps_e s) i) < length (used_bytes s) \<and>
     used_bytes s ! unat (unseqToSeq (makeMaps_e s) i) = i"
proof -
  define step :: "nat \<Rightarrow> estate \<Rightarrow> estate" where "step = (\<lambda>i s. if einUse s i
      then s\<lparr>unseqToSeq := (unseqToSeq s)(i := word_of_nat (enInUse s)), enInUse := enInUse s + 1\<rparr> else s)"
  define U where "U n = filter (einUse s) [0..<n]" for n
  have I: "\<exists>u. fold step [0..<n] (s\<lparr>enInUse := 0\<rparr>) = s\<lparr>enInUse := length (U n), unseqToSeq := u\<rparr> \<and>
      (\<forall>i < n. einUse s i \<longrightarrow> unat (u i) < length (U n) \<and> U n ! unat (u i) = i)" if "n \<le> 256" for n
    using that
  proof (induction n)
    case 0
    have "fold step [0..<0] (s\<lparr>enInUse := 0\<rparr>) = s\<lparr>enInUse := length (U 0), unseqToSeq := unseqToSeq s\<rparr>"
      by (simp add: U_def)
    moreover have "\<forall>i < 0. einUse s i \<longrightarrow> unat (unseqToSeq s i) < length (U 0) \<and> U 0 ! unat (unseqToSeq s i) = i" by simp
    ultimately show ?case by (intro exI, rule conjI)
  next
    case (Suc n)
    obtain u where u: "fold step [0..<n] (s\<lparr>enInUse := 0\<rparr>) = s\<lparr>enInUse := length (U n), unseqToSeq := u\<rparr>"
        "\<forall>i < n. einUse s i \<longrightarrow> unat (u i) < length (U n) \<and> U n ! unat (u i) = i" using Suc by auto
    have l: "length (U n) \<le> n" unfolding U_def using length_filter_le [of "einUse s" "[0..<n]"] by simp
    show ?case
    proof (cases "einUse s n")
      case True
      have "unat (word_of_nat (length (U n)) :: u8) = length (U n)"
        using l Suc.prems by (simp add: unsigned_of_nat take_bit_nat_eq_self)
      have "step n (s\<lparr>enInUse := length (U n), unseqToSeq := u\<rparr>) =
          s\<lparr>enInUse := length (U (Suc n)), unseqToSeq := u(n := word_of_nat (length (U n)))\<rparr>"
        using True by (simp add: step_def U_def)
      then have "fold step [0..<Suc n] (s\<lparr>enInUse := 0\<rparr>) =
          s\<lparr>enInUse := length (U (Suc n)), unseqToSeq := u(n := word_of_nat (length (U n)))\<rparr>" using u(1) by simp
      moreover have "\<forall>i < Suc n. einUse s i \<longrightarrow> unat ((u(n := word_of_nat (length (U n)))) i) < length (U (Suc n)) \<and>
          U (Suc n) ! unat ((u(n := word_of_nat (length (U n)))) i) = i"
        using u(2) True \<open>unat (word_of_nat (length (U n)) :: u8) = length (U n)\<close>
        by (auto simp: U_def nth_append less_Suc_eq)
      ultimately show ?thesis by blast
    next
      case False
      moreover have "step n (s\<lparr>enInUse := length (U n), unseqToSeq := u\<rparr>) = s\<lparr>enInUse := length (U (Suc n)), unseqToSeq := u\<rparr>"
        using False by (simp add: step_def U_def)
      ultimately show ?thesis using u by (intro exI [of _ u]) (auto simp: U_def less_Suc_eq)
    qed
  qed
  have e: "makeMaps_e s = fold step [0..<256] (s\<lparr>enInUse := 0\<rparr>)" by (simp add: makeMaps_e_def step_def)
  have "U 256 = used_bytes s" by (simp add: U_def used_bytes_def)
  with I [of 256] obtain u where u: "makeMaps_e s = s\<lparr>enInUse := length (used_bytes s), unseqToSeq := u\<rparr>"
      "\<forall>i < 256. einUse s i \<longrightarrow> unat (u i) < length (used_bytes s) \<and> used_bytes s ! unat (u i) = i" by (auto simp: e)
  show "makeMaps_e s = s\<lparr>enInUse := length (used_bytes s), unseqToSeq := unseqToSeq (makeMaps_e s)\<rparr>"
    using u(1) by simp
  show "i < 256 \<Longrightarrow> einUse s i \<Longrightarrow> unat (unseqToSeq (makeMaps_e s) i) < length (used_bytes s) \<and>
     used_bytes s ! unat (unseqToSeq (makeMaps_e s) i) = i" using u by simp
qed

lemma length_used_bytes: "length (used_bytes s) \<le> 256"
  using length_filter_le [of "einUse s" "[0..<256]"] by (simp add: used_bytes_def)

section \<open>The symbols written\<close>

text \<open>\<open>E\<close> has been written to \<open>mtfv\<close> and counted in \<open>mtfFreq\<close>; the memory behind it is as in \<open>s0\<close>.\<close>

definition written :: "estate \<Rightarrow> nat list \<Rightarrow> nat \<times> estate \<Rightarrow> bool" where
  "written s0 E a \<longleftrightarrow> (case a of (wr, s) \<Rightarrow> wr = length E \<and> map (\<lambda>k. unat (arr1 s k)) [0..<wr] = E \<and> (\<forall>k \<ge> wr. arr1 s k = arr1 s0 k) \<and>
     s = s0\<lparr>arr1 := arr1 s, mtfFreq := (\<lambda>v. mtfFreq s0 v + int (count_list E v))\<rparr>)"

lemma writtenI:
  "\<lbrakk> wr = length E; map (\<lambda>k. unat (r k)) [0..<wr] = E; \<forall>k \<ge> wr. r k = arr1 s0 k \<rbrakk> \<Longrightarrow>
   written s0 E (wr, s0\<lparr>arr1 := r, mtfFreq := (\<lambda>v. mtfFreq s0 v + int (count_list E v))\<rparr>)"
  unfolding written_def by simp

lemma written_push:
  assumes "written s0 E a" "v < 65536"
  shows "written s0 (E @ [v]) (push_sym v a)"
proof -
  obtain wr s where a: "a = (wr, s)" by (cases a)
  have w: "wr = length E" "map (\<lambda>k. unat (arr1 s k)) [0..<wr] = E" "\<forall>k \<ge> wr. arr1 s k = arr1 s0 k"
      "s = s0\<lparr>arr1 := arr1 s, mtfFreq := (\<lambda>v. mtfFreq s0 v + int (count_list E v))\<rparr>"
    using assms(1) by (auto simp only: a written_def prod.case)
  let ?f = "(\<lambda>u. mtfFreq s0 u + int (count_list (E @ [v]) u))" and ?r = "(arr1 s)(wr := word_of_nat v)"
  have f: "(mtfFreq s)(v := mtfFreq s v + 1) = ?f"
    using arg_cong [OF w(4), of mtfFreq] by (auto simp: fun_eq_iff)
  have e: "push_sym v a = (wr + 1, s\<lparr>arr1 := ?r, mtfFreq := ?f\<rparr>)"
    by (simp add: a push_sym_def set_mtfv_def f)
  have "unat (word_of_nat v :: u16) = v" using assms(2) by (simp add: unsigned_of_nat take_bit_nat_eq_self)
  moreover have "map (\<lambda>k. unat (?r k)) [0..<wr] = map (\<lambda>k. unat (arr1 s k)) [0..<wr]" by (rule map_cong) auto
  ultimately have "map (\<lambda>k. unat (?r k)) [0..<wr + 1] = E @ [v]" using w(2) by simp
  moreover have "s\<lparr>arr1 := ?r, mtfFreq := ?f\<rparr> = s0\<lparr>arr1 := ?r, mtfFreq := ?f\<rparr>"
    by (subst w(4)) simp
  moreover have "\<forall>k \<ge> wr + 1. ?r k = arr1 s0 k" "wr + 1 = length (E @ [v])" using w by simp_all
  ultimately have "written s0 (E @ [v]) (wr + 1, s0\<lparr>arr1 := ?r, mtfFreq := ?f\<rparr>)"
    by (intro writtenI) simp_all
  then show ?thesis unfolding e \<open>s\<lparr>arr1 := ?r, mtfFreq := ?f\<rparr> = _\<close> .
qed

lemma written_run: "written s0 E a \<Longrightarrow> written s0 (E @ zdigits (z + 1)) (run_digits z a)"
proof (induction z a arbitrary: E rule: run_digits.induct)
  case (1 z a)
  let ?v = "if z AND 1 \<noteq> 0 then BZ_RUNB else BZ_RUNA"
  have v: "?v = z mod 2" by (auto simp: and_one_eq mod2_eq_if)
  have w: "written s0 (E @ [z mod 2]) (push_sym ?v a)" unfolding v using written_push [OF 1(2), of "z mod 2"] by simp
  have d: "zdigits (z + 1) = z mod 2 # zdigits (z div 2)" by (subst zdigits.simps) simp
  show ?case
  proof (cases "z < 2")
    case True
    then have "run_digits z a = push_sym ?v a" by (subst run_digits.simps) simp
    moreover have "z mod 2 = z" "z div 2 = 0" using True by simp_all
    ultimately show ?thesis using w by (simp only: d zdigits_0)
  next
    case False
    then have "run_digits z a = run_digits ((z - 2) div 2) (push_sym ?v a)" by (subst run_digits.simps) (simp add: Let_def)
    moreover have "(z - 2) div 2 + 1 = z div 2" using False by simp
    ultimately show ?thesis using 1(1) [OF refl False w] by (simp only: d append_assoc append_Cons append_Nil)
  qed
qed

lemma written_zpend: "written s0 E a \<Longrightarrow> written s0 (E @ zdigits z) (zpend_out z a)"
  using written_run [of s0 E a "z - 1"] by (auto simp: zpend_out_def)

section \<open>The stage as a whole\<close>

text \<open>The byte before position \<open>ptr[i]\<close>, cyclically, and its sequence number.\<close>

definition bwt_byte :: "estate \<Rightarrow> nat \<Rightarrow> u8" where
  "bwt_byte s i = (let j = int (ptr s i) - 1 in block s (nat (if j < 0 then j + int (nblock s) else j)))"

definition seq_byte :: "estate \<Rightarrow> nat \<Rightarrow> u8" where
  "seq_byte s i = unseqToSeq s (unat (bwt_byte s i))"

lemma mtf_step_eq:
  "mtf_step search i (yy, z, wr, s) =
     (if yy 0 = seq_byte s i then Some (yy, z + 1, wr, s)
      else case search yy (seq_byte s i) of
        None \<Rightarrow> None
      | Some (pos, yy) \<Rightarrow> (case push_sym (pos + 1) (zpend_out z (wr, s)) of (wr, s) \<Rightarrow> Some (yy, 0, wr, s)))"
  by (simp add: mtf_step_def Let_def seq_byte_def bwt_byte_def)

lemma map_move_up: "p < N \<Longrightarrow> map (move_up p yy) [0..<N] = to_front p (map yy [0..<N])"
  by (rule nth_equalityI) (auto simp: to_front_def move_up_def nth_Cons nth_append min_def split: nat.splits)

lemma pos_ofI: "\<lbrakk> p < length ys; ys ! p = c; \<forall>i < p. ys ! i \<noteq> c \<rbrakk> \<Longrightarrow> pos_of ys c = p"
proof -
  assume a: "p < length ys" "ys ! p = c" "\<forall>i < p. ys ! i \<noteq> c"
  have "takeWhile (\<lambda>y. y \<noteq> c) ys = take p ys" using a by (intro takeWhile_eq_take_P_nth) auto
  then show ?thesis using a by (simp add: pos_of_def)
qed

lemma pos_of_before: "i < pos_of ys c \<Longrightarrow> ys ! i \<noteq> c"
  unfolding pos_of_def using nth_mem [of i "takeWhile (\<lambda>y. y \<noteq> c) ys"] set_takeWhileD takeWhile_nth [of i "\<lambda>y. y \<noteq> c" ys]
  by metis

lemma bwt_byte_makeMaps [simp]: "bwt_byte (makeMaps_e s) = bwt_byte s"
  by (subst makeMaps_e_ok(1)) (simp add: bwt_byte_def ptr_def fun_eq_iff Let_def)

lemma seq_byte_makeMaps: "seq_byte (makeMaps_e s) i = unseqToSeq (makeMaps_e s) (unat (bwt_byte s i))"
  by (simp add: seq_byte_def)

text \<open>The symbols of a block, and the way back to the bytes.\<close>

definition mtf_syms :: "estate \<Rightarrow> nat list" where
  "mtf_syms s = zcode 0 (mtf_pos (map word_of_nat [0..<length (used_bytes s)]) (map (seq_byte (makeMaps_e s)) [0..<nblock s])) @
     [length (used_bytes s) + 1]"

definition un_mtf_syms :: "nat list \<Rightarrow> nat list \<Rightarrow> u8 list" where
  "un_mtf_syms used E =
     map (\<lambda>q. word_of_nat (used ! unat q)) (unmtf (map word_of_nat [0..<length used] :: u8 list) (unzcode 1 0 (butlast E)))"

lemma seq_byte_in:
  assumes "einUse s (unat (bwt_byte s i))"
  shows "seq_byte (makeMaps_e s) i \<in> set (map word_of_nat [0..<length (used_bytes s)])"
    "word_of_nat (used_bytes s ! unat (seq_byte (makeMaps_e s) i)) = bwt_byte s i"
proof -
  let ?q = "seq_byte (makeMaps_e s) i"
  have "unat ?q < length (used_bytes s) \<and> used_bytes s ! unat ?q = unat (bwt_byte s i)"
    using makeMaps_e_ok(2) [of "unat (bwt_byte s i)" s] assms unsigned_less [of "bwt_byte s i", where ?'a = nat]
    by (simp add: seq_byte_makeMaps)
  then show "?q \<in> set (map word_of_nat [0..<length (used_bytes s)])"
      "word_of_nat (used_bytes s ! unat ?q) = bwt_byte s i"
    by (auto intro!: image_eqI [of _ _ "unat ?q"])
qed

lemma un_mtf_mtf_syms:
  assumes "\<forall>i < nblock s. einUse s (unat (bwt_byte s i))"
  shows "un_mtf_syms (used_bytes s) (mtf_syms s) = map (bwt_byte s) [0..<nblock s]"
proof -
  have "set (map (seq_byte (makeMaps_e s)) [0..<nblock s]) \<subseteq> set (map word_of_nat [0..<length (used_bytes s)])"
    using seq_byte_in(1) assms by auto
  from unmtf_mtf_pos [OF this] show ?thesis
    using seq_byte_in(2) assms by (simp add: un_mtf_syms_def mtf_syms_def unzcode_zcode [where z = 0, simplified])
qed

lemma length_mtf_syms: "length (mtf_syms s) \<le> nblock s + 1"
  using zcode_le [of 0 "mtf_pos (map word_of_nat [0..<length (used_bytes s)]) (map (seq_byte (makeMaps_e s)) [0..<nblock s])"]
  by (simp add: mtf_syms_def)

text \<open>The contract of a search, the same for both builds.\<close>

locale mtf_finder =
  fixes search :: "(nat \<Rightarrow> u8) \<Rightarrow> u8 \<Rightarrow> (nat \<times> (nat \<Rightarrow> u8)) option"
  assumes finds: "\<lbrakk> yy p = c; \<forall>i < p. yy i \<noteq> c; 0 < p \<rbrakk> \<Longrightarrow> search yy c = Some (p, move_up p yy)"
begin

lemma steps:
  assumes "written s0 E (wr, s)" "length E + z \<le> i" "i \<le> n" "Y = map yy [0..<N]" "N \<le> 256"
    "\<And>k. i \<le> k \<Longrightarrow> k < n \<Longrightarrow> seq_byte s0 k \<in> set Y"
  shows "\<exists>yy' z' a' E'. mtf_steps search [i..<n] (yy, z, wr, s) = Some (yy', z', a') \<and> written s0 E' a' \<and>
    E' @ zdigits z' = E @ zcode z (mtf_pos Y (map (seq_byte s0) [i..<n])) \<and> length E' + z' \<le> n"
  using assms
proof (induction "n - i" arbitrary: i E wr s z yy Y)
  case 0
  then show ?case by auto
next
  case (Suc m)
  let ?c = "seq_byte s0 i" and ?r = "map (seq_byte s0) [Suc i..<n]"
  have up: "[i..<n] = i # [Suc i..<n]" using Suc.hyps(2) by (simp add: upt_conv_Cons)
  have mi: "m = n - Suc i" "Suc i \<le> n" using Suc.hyps(2) by linarith+
  have w: "wr = length E" "\<forall>k \<ge> wr. arr1 s k = arr1 s0 k"
      and e: "s = s0\<lparr>arr1 := arr1 s, mtfFreq := (\<lambda>v. mtfFreq s0 v + int (count_list E v))\<rparr>"
    using Suc.prems(1) unfolding written_def prod.case by blast+
  have f: "block s = block s0" "nblock s = nblock s0" "unseqToSeq s = unseqToSeq s0"
    by (subst e, simp)+
  have "seq_byte s i = ?c" using w f Suc.prems(2) by (simp add: seq_byte_def bwt_byte_def ptr_def Let_def)
  note step = mtf_step_eq [of search i yy z wr s, unfolded this]
  define p where "p = pos_of Y ?c"
  have "?c \<in> set Y" using Suc by simp
  from pos_of_less [OF this] have p: "p < N" "yy p = ?c" using Suc.prems(4) by (auto simp: p_def)
  have bef: "\<forall>k < p. yy k \<noteq> ?c" using pos_of_before [of _ Y ?c] p Suc.prems(4) by (auto simp: p_def)
  have mp: "mtf_pos Y (map (seq_byte s0) [i..<n]) = p # mtf_pos (to_front p Y) ?r" by (simp add: up p_def)
  show ?case
  proof (cases "p = 0")
    case True
    then have "mtf_step search i (yy, z, wr, s) = Some (yy, z + 1, wr, s)" using p step by simp
    moreover have "to_front p Y = Y" using True p Suc.prems(4) by (simp add: to_front_0)
    ultimately show ?thesis using Suc.hyps(1) [of "Suc i" E wr s "z + 1" Y yy] Suc.prems Suc.hyps(2) True
      unfolding mp by (simp add: up)
  next
    case False
    let ?E = "E @ zdigits z @ [p + 1]"
    obtain wr' s' where a: "push_sym (p + 1) (zpend_out z (wr, s)) = (wr', s')" by (cases "push_sym (p + 1) (zpend_out z (wr, s))")
    have "yy 0 \<noteq> ?c" using bef False by simp
    then have s: "mtf_step search i (yy, z, wr, s) = Some (move_up p yy, 0, wr', s')"
      using step finds [of yy p ?c] p(2) bef False a by simp
    have "written s0 ?E (wr', s')"
      using written_push [OF written_zpend [OF Suc.prems(1)], of "p + 1" z] p(1) Suc.prems(5) a by simp
    moreover have "length ?E + 0 \<le> Suc i" using Suc.prems(2) zdigits_le [of z] by simp
    moreover have "to_front p Y = map (move_up p yy) [0..<N]" using map_move_up [OF p(1), of yy] Suc.prems(4) by simp
    moreover have "set (to_front p Y) = set Y" using set_to_front [of p Y] p(1) Suc.prems(4) by simp
    ultimately obtain yy' z' a' E' where
        "mtf_steps search [Suc i..<n] (move_up p yy, 0, wr', s') = Some (yy', z', a')" "written s0 E' a'"
        "E' @ zdigits z' = ?E @ zcode 0 (mtf_pos (to_front p Y) ?r)" "length E' + z' \<le> n"
      using Suc.hyps(1) [of "Suc i" ?E wr' s' 0 "to_front p Y" "move_up p yy"] Suc.prems mi by auto
    then show ?thesis using s False unfolding mp by (intro exI [of _ yy'] exI [of _ z'] exI [of _ a'] exI [of _ E']) (simp add: up)
  qed
qed

lemma generates:
  assumes "\<forall>i < nblock s. einUse s (unat (bwt_byte s i))"
  shows "\<exists>s'. generateMTFValues search s = Some s' \<and> map (mtfv s') [0..<nMTF s'] = mtf_syms s \<and>
    nMTF s' = length (mtf_syms s) \<and>
    (\<forall>v \<le> length (used_bytes s) + 1. mtfFreq s' v = int (count_list (mtf_syms s) v)) \<and>
    s' = (makeMaps_e s)\<lparr>arr1 := arr1 s', mtfFreq := mtfFreq s', nMTF := nMTF s'\<rparr>"
proof -
  define N where "N = length (used_bytes s)"
  have N: "N \<le> 256" using length_used_bytes by (simp add: N_def)
  define m where "m = makeMaps_e s"
  have mN: "enInUse m = N" "nblock m = nblock s"
    unfolding m_def N_def by (subst makeMaps_e_ok(1), simp)+
  define g where "g = fold (\<lambda>i f. f(i := 0)) [0..<N + 2] (mtfFreq m)"
  have g: "g v = 0" if "v < N + 2" for v
  proof -
    have "fold (\<lambda>i f. f(i := 0)) [0..<n] (mtfFreq m) v = (if v < n then 0 else mtfFreq m v)" for n
      by (induction n) auto
    then show ?thesis using that by (simp only: g_def if_True)
  qed
  define s0 where "s0 = m\<lparr>mtfFreq := g\<rparr>"
  have sb: "seq_byte s0 = seq_byte m" by (simp add: fun_eq_iff seq_byte_def bwt_byte_def ptr_def s0_def Let_def)
  let ?Y = "map word_of_nat [0..<N] :: u8 list"
  define yy :: "nat \<Rightarrow> u8" where "yy = (\<lambda>i. if i < N then word_of_nat i else 0xFF)"
  have Y: "?Y = map yy [0..<N]" by (simp add: yy_def)
  have inY: "seq_byte s0 k \<in> set ?Y" if "k < nblock s" for k
    using seq_byte_in(1) assms that unfolding sb m_def N_def by blast
  have "written s0 [] (0, s0)" by (simp add: written_def)
  from steps [OF this, of 0 0 "nblock s" ?Y yy N, OF _ _ Y N inY] obtain yy' z' a' E' where
      r: "mtf_steps search [0..<nblock s] (yy, 0, 0, s0) = Some (yy', z', a')" "written s0 E' a'"
      "E' @ zdigits z' = zcode 0 (mtf_pos ?Y (map (seq_byte m) [0..<nblock s]))"
    by (auto simp: sb)
  have W: "written s0 (mtf_syms s) (push_sym (N + 1) (zpend_out z' a'))"
    using written_push [OF written_zpend [OF r(2)], of "N + 1" z'] r(3) N by (simp add: mtf_syms_def N_def m_def)
  obtain wr t where p: "push_sym (N + 1) (zpend_out z' a') = (wr, t)" by (cases "push_sym (N + 1) (zpend_out z' a')")
  have w: "wr = length (mtf_syms s)" "map (\<lambda>k. unat (arr1 t k)) [0..<wr] = mtf_syms s"
      and e: "t = s0\<lparr>arr1 := arr1 t, mtfFreq := (\<lambda>v. mtfFreq s0 v + int (count_list (mtf_syms s) v))\<rparr>"
    using W unfolding p written_def prod.case by blast+
  have "generateMTFValues search s = Some (t\<lparr>nMTF := wr\<rparr>)"
    using r(1) p mN by (cases a') (simp add: generateMTFValues_def Let_def s0_def g_def yy_def flip: m_def)
  moreover have "map (mtfv (t\<lparr>nMTF := wr\<rparr>)) [0..<wr] = mtf_syms s"
    using w(2) by (simp add: mtfv_def [abs_def])
  moreover have "mtfFreq t v = int (count_list (mtf_syms s) v)" if "v \<le> N + 1" for v
    by (subst e) (use g that in \<open>simp add: s0_def\<close>)
  moreover have "t\<lparr>nMTF := wr\<rparr> = m\<lparr>arr1 := arr1 t, mtfFreq := mtfFreq t, nMTF := wr\<rparr>"
    using arg_cong [OF e, of mtfFreq] by (subst e) (simp add: s0_def)
  ultimately show ?thesis using w(1)
    by (intro exI [of _ "t\<lparr>nMTF := wr\<rparr>"]) (simp add: N_def m_def)
qed

end

interpretation simd: mtf_finder mtf_simd
  by unfold_locales (rule mtf_simd_ok)

interpretation scalar: mtf_finder mtf_scalar
  by unfold_locales (rule mtf_scalar_ok)

end
