(* ===== verification/SendMtf.thy ===== *)
theory SendMtf
  imports BitWriter Mtf HuffCorrect
begin

text \<open>
  \<open>sendMTFValues\<close> of \<^verbatim>\<open>src/compress.c\<close>: the choice of the coding tables, the selectors, and everything
  of a block behind its header. The pieces are in the order of the code; both the unrolled paths for full groups
  with six tables and the general ones are modelled. \<open>fave\<close> and \<open>totc\<close> only feed messages and are left out.
  \<open>rfreq\<close> is a local here, since it is cleared before it is used; a search of the selector transform that leaves
  its array would be \<open>None\<close>, and the first failing assertion is kept in \<open>failed\<close>.
\<close>

section \<open>The initial tables\<close>

abbreviation (input) BZ_LESSER_ICOST :: nat where "BZ_LESSER_ICOST \<equiv> 0"
abbreviation (input) BZ_GREATER_ICOST :: nat where "BZ_GREATER_ICOST \<equiv> 15"

definition fill_len :: "nat \<Rightarrow> (nat \<Rightarrow> nat \<Rightarrow> nat) \<Rightarrow> (nat \<Rightarrow> nat \<Rightarrow> nat)" where
  "fill_len alphaSize len = (\<lambda>t v. if t < BZ_N_GROUPS \<and> v < alphaSize then BZ_GREATER_ICOST else len t v)"

definition choose_nGroups :: "nat \<Rightarrow> nat" where
  "choose_nGroups n = (if n < 200 then 2 else if n < 600 then 3 else if n < 1200 then 4 else if n < 2400 then 5 else 6)"

text \<open>\<open>while (aFreq < tFreq && ge < alphaSize-1)\<close>\<close>

function seed_ge :: "(nat \<Rightarrow> int) \<Rightarrow> int \<Rightarrow> int \<Rightarrow> int \<Rightarrow> int \<Rightarrow> int \<times> int" where
  "seed_ge freq alphaSize tFreq ge aFreq =
     (if aFreq < tFreq \<and> ge < alphaSize - 1 then seed_ge freq alphaSize tFreq (ge + 1) (aFreq + freq (nat (ge + 1))) else (ge, aFreq))"
  by pat_completeness auto
termination by (relation "measure (\<lambda>(freq, a, t, ge, _). nat (a - ge))") auto

declare seed_ge.simps [simp del]

definition seed_group :: "(nat \<Rightarrow> int) \<Rightarrow> nat \<Rightarrow> nat \<Rightarrow> nat \<Rightarrow> int \<Rightarrow> int \<Rightarrow> int \<times> int" where
  "seed_group freq alphaSize nGroups nPart remF gs =
     (let tFreq = remF sdiv int nPart; (ge, aFreq) = seed_ge freq (int alphaSize) tFreq (gs - 1) 0
      in if ge > gs \<and> nPart \<noteq> nGroups \<and> nPart \<noteq> 1 \<and> (nGroups - nPart) mod 2 = 1
         then (ge - 1, aFreq - freq (nat ge)) else (ge, aFreq))"

fun seed_tables :: "(nat \<Rightarrow> int) \<Rightarrow> nat \<Rightarrow> nat \<Rightarrow> nat \<Rightarrow> int \<Rightarrow> int \<Rightarrow> (nat \<Rightarrow> nat \<Rightarrow> nat) \<Rightarrow> (nat \<Rightarrow> nat \<Rightarrow> nat)" where
  "seed_tables freq alphaSize nGroups 0 remF gs len = len"
| "seed_tables freq alphaSize nGroups (Suc k) remF gs len =
     (let (ge, aFreq) = seed_group freq alphaSize nGroups (Suc k) remF gs;
          len = len(k := (\<lambda>v. if v < alphaSize then (if int v \<ge> gs \<and> int v \<le> ge then BZ_LESSER_ICOST else BZ_GREATER_ICOST) else len k v))
      in seed_tables freq alphaSize nGroups k (remF - aFreq) (ge + 1) len)"

section \<open>One pass of the refinement\<close>

definition group_end :: "nat \<Rightarrow> nat \<Rightarrow> nat" where
  "group_end n gs = (if gs + BZ_G_SIZE - 1 \<ge> n then n - 1 else gs + BZ_G_SIZE - 1)"

definition full_group :: "nat \<Rightarrow> nat \<Rightarrow> nat \<Rightarrow> bool" where
  "full_group nGroups gs ge \<longleftrightarrow> nGroups = 6 \<and> 50 = ge - gs + 1"

text \<open>The costs of a group: two to a word for a full group, and one by one.\<close>

definition len_pack :: "(nat \<Rightarrow> nat \<Rightarrow> nat) \<Rightarrow> nat \<Rightarrow> nat \<Rightarrow> u32" where
  "len_pack len v k = push_bit 16 (word_of_nat (len (2 * k + 1) v)) OR word_of_nat (len (2 * k) v)"

definition cost_fast :: "(nat \<Rightarrow> nat \<Rightarrow> nat) \<Rightarrow> (nat \<Rightarrow> nat) \<Rightarrow> nat \<Rightarrow> nat \<Rightarrow> u16" where
  "cost_fast len sym_at gs t =
     (let c = fold (\<lambda>nn c. c + len_pack len (sym_at (gs + nn)) (t div 2)) [0..<50] 0
      in if even t then ucast (c AND 0xffff) else ucast (drop_bit 16 c))"

definition cost_general :: "(nat \<Rightarrow> nat \<Rightarrow> nat) \<Rightarrow> (nat \<Rightarrow> nat) \<Rightarrow> nat \<Rightarrow> nat \<Rightarrow> nat \<Rightarrow> nat \<Rightarrow> u16" where
  "cost_general len sym_at nGroups gs ge =
     fold (\<lambda>i cost. fold (\<lambda>t cost. cost(t := cost t + word_of_nat (len t (sym_at i)))) [0..<nGroups] cost) [gs..<ge + 1] (\<lambda>_. 0)"

definition group_cost :: "(nat \<Rightarrow> nat \<Rightarrow> nat) \<Rightarrow> (nat \<Rightarrow> nat) \<Rightarrow> nat \<Rightarrow> nat \<Rightarrow> nat \<Rightarrow> nat \<Rightarrow> u16" where
  "group_cost len sym_at nGroups gs ge =
     (if full_group nGroups gs ge then cost_fast len sym_at gs else cost_general len sym_at nGroups gs ge)"

definition best_table :: "nat \<Rightarrow> (nat \<Rightarrow> u16) \<Rightarrow> int \<times> int" where
  "best_table nGroups cost =
     fold (\<lambda>t (bc, bt). if uint (cost t) < bc then (uint (cost t), int t) else (bc, bt)) [0..<nGroups] (999999999, -1)"

definition count_group :: "nat \<Rightarrow> (nat \<Rightarrow> nat) \<Rightarrow> nat \<Rightarrow> nat \<Rightarrow> nat \<Rightarrow> (nat \<Rightarrow> nat \<Rightarrow> nat) \<Rightarrow> (nat \<Rightarrow> nat \<Rightarrow> nat)" where
  "count_group nGroups sym_at gs ge bt rfreq =
     (if full_group nGroups gs ge
      then fold (\<lambda>nn r. r(bt := (r bt)(sym_at (gs + nn) := r bt (sym_at (gs + nn)) + 1))) [0..<50] rfreq
      else fold (\<lambda>i r. r(bt := (r bt)(sym_at i := r bt (sym_at i) + 1))) [gs..<ge + 1] rfreq)"

text \<open>\<open>nSelectors\<close>, \<open>selector\<close> and \<open>rfreq\<close> through the groups.\<close>

function group_loop ::
  "(nat \<Rightarrow> nat \<Rightarrow> nat) \<Rightarrow> (nat \<Rightarrow> nat) \<Rightarrow> nat \<Rightarrow> nat \<Rightarrow> nat \<Rightarrow> nat \<times> (nat \<Rightarrow> nat) \<times> (nat \<Rightarrow> nat \<Rightarrow> nat) \<Rightarrow>
     nat \<times> (nat \<Rightarrow> nat) \<times> (nat \<Rightarrow> nat \<Rightarrow> nat)" where
  "group_loop len sym_at n nGroups gs (nSelectors, sel, rfreq) =
     (if gs \<ge> n then (nSelectors, sel, rfreq)
      else
        let ge = group_end n gs; cost = group_cost len sym_at nGroups gs ge; (bc, bt) = best_table nGroups cost;
            sel = sel(nSelectors := nat bt); rfreq = count_group nGroups sym_at gs ge (nat bt) rfreq
        in group_loop len sym_at n nGroups (ge + 1) (nSelectors + 1, sel, rfreq))"
  by pat_completeness auto
termination by (relation "measure (\<lambda>(_, _, n, _, gs, _). n - gs)") (auto simp: group_end_def)

declare group_loop.simps [simp del]

definition refine_pass :: "nat \<Rightarrow> nat \<Rightarrow> nat \<times> estate \<times> int option \<Rightarrow> nat \<times> estate \<times> int option" where
  "refine_pass nGroups alphaSize a = (case a of (_, s, failed) \<Rightarrow>
     let rfreq = (\<lambda>t v. 0);
         (nSelectors, sel, rfreq) = group_loop (elen s) (mtfv s) (nMTF s) nGroups 0 (0, eselector s, rfreq);
         (len, failed) =
           fold (\<lambda>t (len, failed). case BZ2_hbMakeCodeLengths (len t) (rfreq t) alphaSize 17 failed of
                   (l, failed) \<Rightarrow> (len(t := l), failed)) [0..<nGroups] (elen s, failed)
     in (nSelectors, s\<lparr>eselector := sel, elen := len\<rparr>, failed))"

section \<open>Selectors and codes\<close>

text \<open>\<open>while ( ll_i != tmp )\<close>, shifting as it goes.\<close>

partial_function (option) sel_search :: "nat \<Rightarrow> nat \<Rightarrow> nat \<Rightarrow> (nat \<Rightarrow> nat) \<Rightarrow> (nat \<times> nat \<times> (nat \<Rightarrow> nat)) option" where
  "sel_search ll_i j tmp pos =
     (if ll_i \<noteq> tmp then sel_search ll_i (j + 1) (pos (j + 1)) (pos(j + 1 := tmp)) else Some (j, tmp, pos))"

declare sel_search.simps [code]

fun sel_loop :: "nat list \<Rightarrow> (nat \<Rightarrow> nat) \<Rightarrow> estate \<Rightarrow> estate option" where
  "sel_loop [] pos s = Some s"
| "sel_loop (i # is) pos s =
     (case sel_search (eselector s i) 0 (pos 0) pos of
        None \<Rightarrow> None
      | Some (j, tmp, pos) \<Rightarrow> sel_loop is (pos(0 := tmp)) (s\<lparr>eselectorMtf := (eselectorMtf s)(i := j)\<rparr>))"

definition sel_mtf :: "nat \<Rightarrow> estate \<Rightarrow> estate option" where
  "sel_mtf nSelectors s = sel_loop [0..<nSelectors] (\<lambda>i. i) s"

definition assign_code :: "nat \<Rightarrow> nat \<Rightarrow> estate \<times> int option \<Rightarrow> estate \<times> int option" where
  "assign_code alphaSize t a = (case a of (s, failed) \<Rightarrow>
     let (minLen, maxLen) =
           fold (\<lambda>i (minLen, maxLen).
                   let maxLen = (if elen s t i > maxLen then elen s t i else maxLen);
                       minLen = (if elen s t i < minLen then elen s t i else minLen)
                   in (minLen, maxLen)) [0..<alphaSize] (32, 0);
         failed = AssertH (\<not> maxLen > 17) 3004 failed; failed = AssertH (\<not> minLen < 1) 3005 failed
     in (s\<lparr>ecode := (ecode s)(t := BZ2_hbAssignCodes (ecode s t) (elen s t) minLen maxLen alphaSize)\<rparr>, failed))"

section \<open>The output\<close>

definition put_bit :: "bool \<Rightarrow> estate \<Rightarrow> estate" where
  "put_bit b s = (if b then bsW 1 1 s else bsW 1 0 s)"

definition put_mapping :: "estate \<Rightarrow> estate" where
  "put_mapping s0 =
     (let inUse16 = (\<lambda>i. \<exists>j \<in> {0..<16}. einUse s0 (i * 16 + j));
          s = fold (\<lambda>i s. put_bit (inUse16 i) s) [0..<16] s0
      in fold (\<lambda>i s. if inUse16 i then fold (\<lambda>j s. put_bit (einUse s0 (i * 16 + j)) s) [0..<16] s else s) [0..<16] s)"

definition put_selectors :: "nat \<Rightarrow> nat \<Rightarrow> estate \<Rightarrow> estate" where
  "put_selectors nGroups nSelectors s =
     (let s = bsW 3 (word_of_nat nGroups) s; s = bsW 15 (word_of_nat nSelectors) s
      in fold (\<lambda>i s. bsW 1 0 (fold (\<lambda>_ s. bsW 1 1 s) [0..<eselectorMtf s i] s)) [0..<nSelectors] s)"

text \<open>\<open>curr\<close> and the state.\<close>

function put_up :: "nat \<Rightarrow> nat \<times> estate \<Rightarrow> nat \<times> estate" where
  "put_up l a = (if fst a < l then put_up l (fst a + 1, bsW 2 2 (snd a)) else a)"
  by pat_completeness auto
termination by (relation "measure (\<lambda>(l, a). l - fst a)") auto

function put_down :: "nat \<Rightarrow> nat \<times> estate \<Rightarrow> nat \<times> estate" where
  "put_down l a = (if fst a > l then put_down l (fst a - 1, bsW 2 3 (snd a)) else a)"
  by pat_completeness auto
termination by (relation "measure (\<lambda>(l, a). fst a - l)") auto

declare put_up.simps [simp del] put_down.simps [simp del]

definition put_table :: "nat \<Rightarrow> nat \<Rightarrow> estate \<Rightarrow> estate" where
  "put_table alphaSize t s =
     (let curr = elen s t 0; s1 = bsW 5 (word_of_nat curr) s
      in snd (fold (\<lambda>i a. case put_down (elen s t i) (put_up (elen s t i) a) of (curr, s') \<Rightarrow> (curr, bsW 1 0 s'))
                [0..<alphaSize] (curr, s1)))"

definition put_symbol :: "nat \<Rightarrow> nat \<Rightarrow> estate \<Rightarrow> estate" where
  "put_symbol t v s = bsW (elen s t v) (word_of_nat (ecode s t v)) s"

function put_groups :: "nat \<Rightarrow> nat \<Rightarrow> nat \<Rightarrow> nat \<Rightarrow> estate \<times> int option \<Rightarrow> nat \<times> estate \<times> int option" where
  "put_groups n nGroups gs selCtr (s, failed) =
     (if gs \<ge> n then (selCtr, s, failed)
      else
        let ge = group_end n gs; failed = AssertH (eselector s selCtr < nGroups) 3006 failed; sel = eselector s selCtr;
            s = (if full_group nGroups gs ge
                 then fold (\<lambda>nn s. put_symbol sel (mtfv s (gs + nn)) s) [0..<50] s
                 else fold (\<lambda>i s. put_symbol sel (mtfv s i) s) [gs..<ge + 1] s)
        in put_groups n nGroups (ge + 1) (selCtr + 1) (s, failed))"
  by pat_completeness auto
termination by (relation "measure (\<lambda>(n, _, gs, _, _). n - gs)") (auto simp: group_end_def)

declare put_groups.simps [simp del]

definition sendMTFValues :: "estate \<times> int option \<Rightarrow> (estate \<times> int option) option" where
  "sendMTFValues a = (case a of (s, failed) \<Rightarrow>
     let alphaSize = enInUse s + 2;
         len = fill_len alphaSize (elen s);
         failed = AssertH (nMTF s > 0) 3001 failed;
         nGroups = choose_nGroups (nMTF s);
         s = s\<lparr>elen := seed_tables (mtfFreq s) alphaSize nGroups nGroups (int (nMTF s)) 0 len\<rparr>;
         (nSelectors, s, failed) = (refine_pass nGroups alphaSize ^^ BZ_N_ITERS) (0, s, failed);
         failed = AssertH (nGroups < 8) 3002 failed;
         failed = AssertH (nSelectors < 32768 \<and> nSelectors \<le> BZ_MAX_SELECTORS) 3003 failed
     in case sel_mtf nSelectors s of
          None \<Rightarrow> None
        | Some s \<Rightarrow>
            let (s, failed) = fold (assign_code alphaSize) [0..<nGroups] (s, failed);
                s = put_mapping s; s = put_selectors nGroups nSelectors s;
                s = fold (put_table alphaSize) [0..<nGroups] s;
                (selCtr, s, failed) = put_groups (nMTF s) nGroups 0 0 (s, failed);
                failed = AssertH (selCtr = nSelectors) 3007 failed
            in Some (s, failed))"

end
