(* ===== verification/SendTables.thy ===== *)
theory SendTables
  imports SendMtf HuffCodes
begin

text \<open>
  What the table selection of \<open>sendMTFValues\<close> gives: the packed costs are the plain ones, every group gets a table
  that is cheapest for it, and after the passes every table holds a complete code with lengths from 1 to 17.
\<close>

section \<open>Costs\<close>

text \<open>The cost of the symbols \<open>vs\<close> with lengths \<open>l\<close>.\<close>

definition cost_of :: "(nat \<Rightarrow> nat) \<Rightarrow> nat list \<Rightarrow> nat" where
  "cost_of l vs = sum_list (map l vs)"

definition group_syms :: "(nat \<Rightarrow> nat) \<Rightarrow> nat \<Rightarrow> nat \<Rightarrow> nat list" where
  "group_syms sym_at gs ge = map sym_at [gs..<ge + 1]"

lemma fold_cost_row:
  "fold (\<lambda>t cost. cost(t := cost t + w t)) [0..<n] c = (\<lambda>t. if t < n then c t + w t else c t :: 'a::plus)"
  by (induction n) (auto simp: fun_eq_iff less_Suc_eq)

lemma fold_costs:
  "fold (\<lambda>i cost t. if t < n then cost t + word_of_nat (f i t) else cost t) xs c =
     (\<lambda>t. if t < n then c t + word_of_nat (sum_list (map (\<lambda>i. f i t) xs)) else c t :: u16)"
  by (induction xs arbitrary: c) (auto simp: fun_eq_iff)

lemma cost_general_eq:
  "cost_general len sym_at nGroups gs ge t =
     (if t < nGroups then word_of_nat (cost_of (len t) (group_syms sym_at gs ge)) else 0)"
  by (simp add: cost_general_def fold_cost_row fold_costs cost_of_def group_syms_def comp_def)

lemma len_pack_eq:
  assumes "len (2 * k + 1) v < 65536" "len (2 * k) v < 65536"
  shows "len_pack len v k = word_of_nat (65536 * len (2 * k + 1) v + len (2 * k) v)"
proof -
  let ?h = "len (2 * k + 1) v" and ?l = "len (2 * k) v"
  have "take_bit 16 ?l = ?l" using assms(2) by (simp add: take_bit_nat_eq_self)
  then have b: "\<not> bit ?l n" if "n \<ge> 16" for n using that by (metis bit_take_bit_iff linorder_not_less)
  have "push_bit 16 (word_of_nat ?h :: u32) AND word_of_nat ?l = 0"
    using b by (intro bit_word_eqI) (auto simp: bit_simps)
  then have "len_pack len v k = push_bit 16 (word_of_nat ?h) + word_of_nat ?l"
    by (simp add: len_pack_def disjunctive_add_eq_or)
  then show ?thesis by (simp add: push_bit_eq_mult)
qed

lemma fold_packed:
  assumes "\<And>v. v \<in> set vs \<Longrightarrow> len (2 * k + 1) v < 65536 \<and> len (2 * k) v < 65536"
  shows "fold (\<lambda>v c. c + len_pack len v k) vs c =
    c + word_of_nat (65536 * cost_of (len (2 * k + 1)) vs + cost_of (len (2 * k)) vs)"
  using assms
proof (induction vs arbitrary: c)
  case (Cons v vs)
  then show ?case using len_pack_eq [of len k v] by (simp add: cost_of_def algebra_simps)
qed (simp add: cost_of_def)

lemma unat_word_of_nat: "n < 2 ^ 32 \<Longrightarrow> unat (word_of_nat n :: u32) = n"
  by (simp add: unsigned_of_nat take_bit_nat_eq_self)

lemma unpack:
  assumes "h < 65536" "l < 65536"
  shows "(ucast ((word_of_nat (65536 * h + l) :: u32) AND 0xffff) :: u16) = word_of_nat l"
    "(ucast (drop_bit 16 (word_of_nat (65536 * h + l) :: u32)) :: u16) = word_of_nat h"
proof -
  have "65536 * h + l < 2 ^ 32" using assms by simp
  then have u: "unat (word_of_nat (65536 * h + l) :: u32) = 65536 * h + l"
    by (rule unat_word_of_nat)
  have m: "(0xffff :: u32) = mask 16" by (simp add: mask_eq_exp_minus_1)
  have "unat ((word_of_nat (65536 * h + l) :: u32) AND 0xffff) = l"
    unfolding m take_bit_eq_mask [symmetric] unsigned_take_bit_eq u using assms by (simp add: take_bit_eq_mod)
  then show "(ucast ((word_of_nat (65536 * h + l) :: u32) AND 0xffff) :: u16) = word_of_nat l"
    by (metis of_nat_unat)
  have "unat (drop_bit 16 (word_of_nat (65536 * h + l) :: u32)) = h"
    unfolding unat_drop_bit_eq u using assms by (simp add: drop_bit_eq_div)
  then show "(ucast (drop_bit 16 (word_of_nat (65536 * h + l) :: u32)) :: u16) = word_of_nat h"
    by (metis of_nat_unat)
qed

lemma cost_of_le: "(\<And>v. v \<in> set vs \<Longrightarrow> l v \<le> m) \<Longrightarrow> cost_of l vs \<le> m * length vs"
  by (induction vs) (auto simp: cost_of_def add_mono)

lemma cost_fast_eq:
  assumes "\<And>t v. t < 6 \<Longrightarrow> v \<in> set (group_syms sym_at gs (gs + 49)) \<Longrightarrow> len t v \<le> 20" and "t < 6"
  shows "cost_fast len sym_at gs t = word_of_nat (cost_of (len t) (group_syms sym_at gs (gs + 49)))"
proof -
  let ?vs = "group_syms sym_at gs (gs + 49)" and ?k = "t div 2"
  have vs: "?vs = map (\<lambda>nn. sym_at (gs + nn)) [0..<50]"
    unfolding group_syms_def by (rule nth_equalityI) simp_all
  have k: "2 * ?k + 1 < 6" using assms(2) by presburger
  have "fold (\<lambda>v c. c + len_pack len v ?k) ?vs 0 = word_of_nat (65536 * cost_of (len (2 * ?k + 1)) ?vs + cost_of (len (2 * ?k)) ?vs)"
    using fold_packed [of ?vs len ?k 0] assms(1) [of "2 * ?k + 1"] assms(1) [of "2 * ?k"] k by fastforce
  then have "fold (\<lambda>nn c. c + len_pack len (sym_at (gs + nn)) ?k) [0..<50] 0 =
      word_of_nat (65536 * cost_of (len (2 * ?k + 1)) ?vs + cost_of (len (2 * ?k)) ?vs)"
    unfolding vs fold_map comp_def .
  moreover have "cost_of (len (2 * ?k + 1)) ?vs < 65536" "cost_of (len (2 * ?k)) ?vs < 65536"
    using cost_of_le [of ?vs "len (2 * ?k + 1)" 20] cost_of_le [of ?vs "len (2 * ?k)" 20]
      assms(1) [of "2 * ?k + 1"] assms(1) [of "2 * ?k"] k by (force simp: group_syms_def)+
  ultimately have "cost_fast len sym_at gs t =
      (if even t then word_of_nat (cost_of (len (2 * ?k)) ?vs) else word_of_nat (cost_of (len (2 * ?k + 1)) ?vs))"
    unfolding cost_fast_def Let_def by (simp only: unpack)
  moreover have "2 * ?k = t" if "even t" using that by simp
  moreover have "2 * ?k + 1 = t" if "odd t" using that by simp
  ultimately show ?thesis by (cases "even t") simp_all
qed

lemma group_cost_eq:
  assumes "\<And>t v. t < nGroups \<Longrightarrow> v \<in> set (group_syms sym_at gs ge) \<Longrightarrow> len t v \<le> 20" "t < nGroups" "gs \<le> ge" "ge < gs + 50"
  shows "uint (group_cost len sym_at nGroups gs ge t) = int (cost_of (len t) (group_syms sym_at gs ge))"
proof -
  have "cost_of (len t) (group_syms sym_at gs ge) \<le> 20 * length (group_syms sym_at gs ge)"
    using assms(1,2) by (intro cost_of_le) blast
  then have "cost_of (len t) (group_syms sym_at gs ge) < 2 ^ 16" using assms(3,4) by (simp add: group_syms_def)
  then have "uint (word_of_nat (cost_of (len t) (group_syms sym_at gs ge)) :: u16) = int (cost_of (len t) (group_syms sym_at gs ge))"
    by (simp add: unsigned_of_nat take_bit_nat_eq_self)
  moreover have "group_cost len sym_at nGroups gs ge t = word_of_nat (cost_of (len t) (group_syms sym_at gs ge))"
  proof (cases "full_group nGroups gs ge")
    case True
    then have "nGroups = 6" "ge = gs + 49" using assms(3) by (auto simp: full_group_def)
    then show ?thesis using True cost_fast_eq [of sym_at gs len t] assms(1,2) by (simp add: group_cost_def)
  qed (use assms(2) in \<open>simp add: group_cost_def cost_general_eq\<close>)
  ultimately show ?thesis by simp
qed

section \<open>The choice\<close>

lemma best_table_ok:
  "1 \<le> n \<Longrightarrow> \<exists>b < n. best_table n cost = (uint (cost b), int b) \<and> (\<forall>t < n. cost b \<le> cost t)"
proof (induction n rule: nat_induct_at_least)
  case base
  have "uint (cost 0) < 2 ^ 16" using uint_lt2p [of "cost 0"] by simp
  then show ?case by (simp add: best_table_def)
next
  case (Suc n)
  then obtain b where b: "b < n" "best_table n cost = (uint (cost b), int b)" "\<forall>t < n. cost b \<le> cost t" by auto
  have e: "best_table (Suc n) cost = (if uint (cost n) < uint (cost b) then (uint (cost n), int n) else (uint (cost b), int b))"
    using b(2) by (simp add: best_table_def)
  show ?case
  proof (cases "cost n < cost b")
    case True
    then have "\<forall>t < Suc n. cost n \<le> cost t" using b(3) less_Suc_eq by (auto intro: less_imp_le order.strict_trans2)
    then show ?thesis using e True by (intro exI [of _ n]) (simp add: word_less_def)
  next
    case False
    then show ?thesis using e b by (intro exI [of _ b]) (auto simp: word_less_def word_le_def less_Suc_eq not_less)
  qed
qed

definition count_syms :: "nat \<Rightarrow> nat list \<Rightarrow> (nat \<Rightarrow> nat \<Rightarrow> nat) \<Rightarrow> (nat \<Rightarrow> nat \<Rightarrow> nat)" where
  "count_syms bt vs r = fold (\<lambda>v r. r(bt := (r bt)(v := r bt v + 1))) vs r"

lemma count_group_eq:
  "gs \<le> ge \<Longrightarrow> count_group nGroups sym_at gs ge bt r = count_syms bt (group_syms sym_at gs ge) r"
proof (cases "full_group nGroups gs ge")
  case True
  assume "gs \<le> ge"
  with True have "ge + 1 = gs + 50" by (auto simp: full_group_def)
  then have "group_syms sym_at gs ge = map (\<lambda>nn. sym_at (gs + nn)) [0..<50]"
    unfolding group_syms_def by (intro nth_equalityI) simp_all
  then show ?thesis using True by (simp add: count_group_def count_syms_def fold_map comp_def)
qed (simp add: count_group_def count_syms_def group_syms_def fold_map comp_def)

lemma count_syms_eq: "count_syms bt vs r t v = r t v + (if t = bt then count_list vs v else 0)"
  by (induction vs arbitrary: r) (auto simp: count_syms_def)

lemma sum_count_list_le: "(\<Sum>v < a. count_list vs v) \<le> length vs" for a :: nat
proof (induction vs)
  case (Cons x vs)
  have "(\<Sum>v < a. count_list (x # vs) v) = (\<Sum>v < a. count_list vs v + of_bool (x = v))" by (rule sum.cong) auto
  also have "\<dots> = (\<Sum>v < a. count_list vs v) + (\<Sum>v < a. of_bool (x = v))" by (rule sum.distrib)
  also have "(\<Sum>v < a. of_bool (x = v) :: nat) \<le> 1" by (simp add: of_bool_def)
  finally show ?case using Cons by simp
qed simp

section \<open>The groups of a pass\<close>

definition n_selectors :: "nat \<Rightarrow> nat" where
  "n_selectors n = (n + 49) div 50"

text \<open>The symbols of group \<open>k\<close>.\<close>

definition nth_group :: "(nat \<Rightarrow> nat) \<Rightarrow> nat \<Rightarrow> nat \<Rightarrow> nat list" where
  "nth_group sym_at n k = group_syms sym_at (50 * k) (group_end n (50 * k))"

lemma group_end_bounds: "gs < n \<Longrightarrow> gs \<le> group_end n gs \<and> group_end n gs < gs + 50 \<and> group_end n gs < n"
  by (auto simp: group_end_def)

definition passed :: "(nat \<Rightarrow> nat \<Rightarrow> nat) \<Rightarrow> (nat \<Rightarrow> nat) \<Rightarrow> nat \<Rightarrow> nat \<Rightarrow> nat \<Rightarrow> nat \<times> (nat \<Rightarrow> nat) \<times> (nat \<Rightarrow> nat \<Rightarrow> nat) \<Rightarrow> bool" where
  "passed len sym_at n nGroups gs a \<longleftrightarrow> (case a of (k, sel, r) \<Rightarrow>
     k = n_selectors (min n gs) \<and> (\<forall>j < k. sel j < nGroups) \<and> (\<forall>t a. (\<Sum>v < a. r t v) \<le> min n gs) \<and>
     ((\<forall>t i. t < nGroups \<longrightarrow> i < n \<longrightarrow> len t (sym_at i) \<le> 20) \<longrightarrow>
       (\<forall>j < k. \<forall>t < nGroups. cost_of (len (sel j)) (nth_group sym_at n j) \<le> cost_of (len t) (nth_group sym_at n j))))"

lemma passed_step:
  assumes P: "passed len sym_at n nGroups (50 * k) (k, sel, r)" and gs: "50 * k < n" and g: "1 \<le> nGroups"
    and b: "best_table nGroups (group_cost len sym_at nGroups (50 * k) (group_end n (50 * k))) = (bc, bt)"
  shows "passed len sym_at n nGroups (50 * (k + 1))
    (k + 1, sel(k := nat bt), count_group nGroups sym_at (50 * k) (group_end n (50 * k)) (nat bt) r)"
proof -
  let ?ge = "group_end n (50 * k)" and ?cost = "group_cost len sym_at nGroups (50 * k) (group_end n (50 * k))"
  note ge = group_end_bounds [OF gs]
  obtain t0 where t0: "t0 < nGroups" "bt = int t0" "\<forall>t < nGroups. ?cost t0 \<le> ?cost t"
    using best_table_ok [OF g, of ?cost] b by auto
  have "n_selectors (min n (50 * (k + 1))) = k + 1"
    using gs by (auto simp: n_selectors_def min_def)
  moreover have "\<forall>j < k + 1. (sel(k := nat bt)) j < nGroups" using P t0 by (auto simp: passed_def less_Suc_eq)
  moreover have "(\<Sum>v < a. count_group nGroups sym_at (50 * k) ?ge (nat bt) r t v) \<le> min n (50 * (k + 1))" for t a
  proof -
    have "(\<Sum>v < a. count_group nGroups sym_at (50 * k) ?ge (nat bt) r t v) \<le>
        (\<Sum>v < a. r t v) + (\<Sum>v < a. count_list (group_syms sym_at (50 * k) ?ge) v)"
      using ge by (simp add: count_group_eq count_syms_eq sum.distrib sum_mono)
    also have "\<dots> \<le> 50 * k + length (group_syms sym_at (50 * k) ?ge)"
      using P gs by (intro add_mono sum_count_list_le) (auto simp: passed_def min_def split: if_splits dest: spec)
    also have "\<dots> = ?ge + 1" using ge by (simp add: group_syms_def)
    also have "\<dots> \<le> min n (50 * (k + 1))" using ge by simp
    finally show ?thesis .
  qed
  moreover have "cost_of (len ((sel(k := nat bt)) j)) (nth_group sym_at n j) \<le> cost_of (len t) (nth_group sym_at n j)"
    if L: "\<forall>t i. t < nGroups \<longrightarrow> i < n \<longrightarrow> len t (sym_at i) \<le> 20" and j: "j < k + 1" and t: "t < nGroups" for j t
  proof (cases "j = k")
    case True
    have "len t v \<le> 20" if "t < nGroups" "v \<in> set (group_syms sym_at (50 * k) ?ge)" for t v
      using L that ge by (auto simp: group_syms_def)
    then have "uint (?cost t) = int (cost_of (len t) (nth_group sym_at n k))" if "t < nGroups" for t
      using group_cost_eq [of nGroups sym_at "50 * k" ?ge len t] ge that by (simp add: nth_group_def)
    then show ?thesis using t0 t True by (auto simp: word_le_def)
  next
    case False
    then show ?thesis using P L j t by (auto simp: passed_def)
  qed
  ultimately show ?thesis by (simp add: passed_def)
qed

lemma group_loop_passed:
  assumes "passed len sym_at n nGroups (50 * k) (k, sel, r)" "1 \<le> nGroups"
  shows "passed len sym_at n nGroups n (group_loop len sym_at n nGroups (50 * k) (k, sel, r))"
  using assms
proof (induction "n - 50 * k" arbitrary: k sel r rule: less_induct)
  case less
  show ?case
  proof (cases "50 * k \<ge> n")
    case True
    then have "passed len sym_at n nGroups n (k, sel, r)" using less.prems by (simp add: passed_def min_def)
    then show ?thesis using True by (subst group_loop.simps) simp
  next
    case False
    let ?ge = "group_end n (50 * k)"
    obtain bc bt where b: "best_table nGroups (group_cost len sym_at nGroups (50 * k) ?ge) = (bc, bt)" by fastforce
    let ?a = "(k + 1, sel(k := nat bt), count_group nGroups sym_at (50 * k) ?ge (nat bt) r)"
    have P: "passed len sym_at n nGroups (50 * (k + 1)) ?a" using passed_step [OF less.prems(1) _ less.prems(2) b] False by simp
    have e: "group_loop len sym_at n nGroups (50 * k) (k, sel, r) = group_loop len sym_at n nGroups (?ge + 1) ?a"
      using False b by (subst group_loop.simps) (simp add: Let_def)
    show ?thesis
    proof (cases "50 * k + 49 \<ge> n")
      case True
      then have "?ge + 1 = n" using False by (simp add: group_end_def)
      then have "group_loop len sym_at n nGroups (50 * k) (k, sel, r) = ?a"
        unfolding e by (subst group_loop.simps) simp
      then show ?thesis using P True by (simp add: passed_def min_def split: if_splits)
    next
      case False
      then have "?ge + 1 = 50 * (k + 1)" by (simp add: group_end_def)
      moreover have "n - 50 * (k + 1) < n - 50 * k" using False by simp
      ultimately show ?thesis using less.hyps [OF _ P less.prems(2)] e by simp
    qed
  qed
qed

section \<open>The tables\<close>

lemma make_lengths_fold:
  assumes n: "2 \<le> n" "n \<le> 258" and r: "\<And>t. (\<Sum>v < n. r t v) \<le> 8000000"
  shows "\<exists>len'. fold (\<lambda>t (len, failed). case BZ2_hbMakeCodeLengths (len t) (r t) n 17 failed of
                   (l, failed) \<Rightarrow> (len(t := l), failed)) [0..<m] (len, failed) = (len', failed) \<and>
    (\<forall>t < m. code_lengths n 17 (len' t)) \<and> (\<forall>t \<ge> m. len' t = len t)"
proof (induction m)
  case (Suc m)
  let ?f = "\<lambda>t (len, failed). case BZ2_hbMakeCodeLengths (len t) (r t) n 17 failed of (l, failed) \<Rightarrow> (len(t := l), failed)"
  obtain len1 where 1: "fold ?f [0..<m] (len, failed) = (len1, failed)" "\<forall>t < m. code_lengths n 17 (len1 t)" "\<forall>t \<ge> m. len1 t = len t"
    using Suc by (elim exE conjE)
  obtain l f where l: "BZ2_hbMakeCodeLengths (len1 m) (r m) n 17 failed = (l, f)" by fastforce
  have "(\<Sum>v < n. max 1 (r m v)) \<le> (\<Sum>v < n. 1 + r m v)" by (rule sum_mono) simp
  also have "\<dots> = n + (\<Sum>v < n. r m v)" by (simp only: sum.distrib) simp
  finally have "(\<Sum>v < n. max 1 (r m v)) < 2 ^ 23" using r [of m] n(2) by simp
  from hbMakeCodeLengths_17 [OF n this l] have h: "code_lengths n 17 l" "f = failed" .
  have "fold ?f [0..<Suc m] (len, failed) = (len1(m := l), failed)" using 1(1) l h(2) by simp
  moreover have "(\<forall>t < Suc m. code_lengths n 17 ((len1(m := l)) t)) \<and> (\<forall>t \<ge> Suc m. (len1(m := l)) t = len t)"
    using 1(2,3) h(1) by (auto simp: less_Suc_eq)
  ultimately show ?case by blast
qed simp

text \<open>What holds of the tables and selectors after a pass.\<close>

definition tables_ok :: "nat \<Rightarrow> nat \<Rightarrow> nat \<Rightarrow> estate \<Rightarrow> bool" where
  "tables_ok nGroups alphaSize nSelectors s \<longleftrightarrow>
     nSelectors = n_selectors (nMTF s) \<and> (\<forall>k < nSelectors. eselector s k < nGroups) \<and>
     (\<forall>t < nGroups. code_lengths alphaSize 17 (elen s t))"

lemma refine_pass_ok:
  assumes "1 \<le> nGroups" "2 \<le> alphaSize" "alphaSize \<le> 258" "nMTF s \<le> 8000000"
  shows "\<exists>sel len. refine_pass nGroups alphaSize (k, s, failed) = (n_selectors (nMTF s), s\<lparr>eselector := sel, elen := len\<rparr>, failed) \<and>
    tables_ok nGroups alphaSize (n_selectors (nMTF s)) (s\<lparr>eselector := sel, elen := len\<rparr>)"
proof -
  obtain k' sel r where g: "group_loop (elen s) (mtfv s) (nMTF s) nGroups 0 (0, eselector s, \<lambda>t v. 0) = (k', sel, r)"
    by (cases "group_loop (elen s) (mtfv s) (nMTF s) nGroups 0 (0, eselector s, \<lambda>t v. 0)")
  have "passed (elen s) (mtfv s) (nMTF s) nGroups (50 * 0) (0, eselector s, \<lambda>t v. 0)"
    by (simp add: passed_def n_selectors_def)
  from group_loop_passed [OF this assms(1)] g have P: "passed (elen s) (mtfv s) (nMTF s) nGroups (nMTF s) (k', sel, r)" by simp
  then have "\<forall>t a. (\<Sum>v < a. r t v) \<le> nMTF s" by (simp add: passed_def)
  then have "(\<Sum>v < alphaSize. r t v) \<le> 8000000" for t using assms(4) order_trans by blast
  then have "\<And>t. (\<Sum>v < alphaSize. r t v) \<le> 8000000" .
  with make_lengths_fold [where r = r and m = nGroups and len = "elen s" and failed = failed, OF assms(2,3)] obtain len where
      l: "fold (\<lambda>t (len, failed). case BZ2_hbMakeCodeLengths (len t) (r t) alphaSize 17 failed of
                   (l, failed) \<Rightarrow> (len(t := l), failed)) [0..<nGroups] (elen s, failed) = (len, failed)"
      "\<forall>t < nGroups. code_lengths alphaSize 17 (len t)" by auto
  have "refine_pass nGroups alphaSize (k, s, failed) = (k', s\<lparr>eselector := sel, elen := len\<rparr>, failed)"
    using g l(1) by (simp add: refine_pass_def)
  moreover have "k' = n_selectors (nMTF s)" "\<forall>j < k'. sel j < nGroups" using P by (simp_all add: passed_def)
  ultimately show ?thesis using l(2) by (intro exI [of _ sel] exI [of _ len]) (simp add: tables_ok_def)
qed

lemma refine_passes_ok:
  assumes "1 \<le> nGroups" "2 \<le> alphaSize" "alphaSize \<le> 258" "nMTF s \<le> 8000000"
  shows "\<exists>sel len. (refine_pass nGroups alphaSize ^^ BZ_N_ITERS) (k, s, failed) =
      (n_selectors (nMTF s), s\<lparr>eselector := sel, elen := len\<rparr>, failed) \<and>
    tables_ok nGroups alphaSize (n_selectors (nMTF s)) (s\<lparr>eselector := sel, elen := len\<rparr>)"
proof -
  have "\<exists>sel len. (refine_pass nGroups alphaSize ^^ Suc m) (k, s, failed) =
      (n_selectors (nMTF s), s\<lparr>eselector := sel, elen := len\<rparr>, failed) \<and>
    tables_ok nGroups alphaSize (n_selectors (nMTF s)) (s\<lparr>eselector := sel, elen := len\<rparr>)" for m
  proof (induction m)
    case 0
    show ?case using refine_pass_ok [OF assms, of k failed] by simp
  next
    case (Suc m)
    then obtain sel len where 1: "(refine_pass nGroups alphaSize ^^ Suc m) (k, s, failed) =
      (n_selectors (nMTF s), s\<lparr>eselector := sel, elen := len\<rparr>, failed)" by blast
    have "nMTF (s\<lparr>eselector := sel, elen := len\<rparr>) \<le> 8000000" using assms(4) by simp
    from refine_pass_ok [OF assms(1-3) this, of "n_selectors (nMTF s)" failed] 1 show ?case
      by (simp only: funpow.simps comp_apply) simp
  qed
  from this [of 3] show ?thesis by simp
qed

lemma choose_nGroups_bounds: "2 \<le> choose_nGroups n \<and> choose_nGroups n \<le> 6"
  by (simp add: choose_nGroups_def)

end
