(* ===== verification/SendBits.thy ===== *)
theory SendBits
  imports SendTables
begin

text \<open>
  What \<open>sendMTFValues\<close> writes: the map of the bytes in use, the selectors moved to front, the code
  lengths as differences, and the symbols of each group in the code of its table. \<open>body_bits\<close> is that bit string.
\<close>

section \<open>The selectors\<close>

lemma sel_search_ok:
  "\<lbrakk> yy p = c; \<forall>i < p. yy i \<noteq> c; j \<le> p \<rbrakk> \<Longrightarrow> sel_search c j (yy j) (shifted j yy) = Some (p, c, shifted p yy)"
proof (induction "p - j" arbitrary: j rule: less_induct)
  case less
  show ?case
  proof (cases "j = p")
    case True
    then show ?thesis using less.prems by (subst sel_search.simps) simp
  next
    case False
    have "j < p" using False less.prems by simp
    then have n: "c \<noteq> yy j" using less.prems by blast
    then show ?thesis using less.hyps [of "Suc j"] less.prems False
      by (subst sel_search.simps) (simp add: shifted_Suc)
  qed
qed

lemma shifted_0: "shifted 0 yy = yy"
  by (auto simp: shifted_def fun_eq_iff)

lemma sel_loop_ok:
  assumes "map yy [0..<G] = Y" "\<And>k. i \<le> k \<Longrightarrow> k < n \<Longrightarrow> eselector s k \<in> set Y" "i \<le> n"
  shows "\<exists>g. sel_loop [i..<n] yy s = Some (s\<lparr>eselectorMtf := g\<rparr>) \<and>
    map g [i..<n] = mtf_pos Y (map (eselector s) [i..<n]) \<and> (\<forall>k < i. g k = eselectorMtf s k)"
  using assms
proof (induction "n - i" arbitrary: i s yy Y)
  case 0
  then show ?case by (intro exI [of _ "eselectorMtf s"]) simp
next
  case (Suc m)
  have mi: "m = n - Suc i" "Suc i \<le> n" using Suc.hyps(2) by linarith+
  have up: "[i..<n] = i # [Suc i..<n]" using mi by (simp add: upt_conv_Cons)
  let ?c = "eselector s i"
  define p where "p = pos_of Y ?c"
  have "?c \<in> set Y" using Suc.prems(2) mi by simp
  from pos_of_less [OF this] have p: "p < G" "yy p = ?c" using Suc.prems(1) by (auto simp: p_def)
  have bef: "\<forall>k < p. yy k \<noteq> ?c" using pos_of_before [of _ Y ?c] p Suc.prems(1) by (auto simp: p_def)
  have f: "sel_search ?c 0 (yy 0) yy = Some (p, ?c, shifted p yy)"
    using sel_search_ok [OF p(2) bef, of 0] by (simp add: shifted_0)
  have u: "(shifted p yy)(0 := ?c) = move_up p yy" using p(2) by (auto simp: shifted_def move_up_def fun_eq_iff)
  let ?t = "s\<lparr>eselectorMtf := (eselectorMtf s)(i := p)\<rparr>"
  have "map (move_up p yy) [0..<G] = to_front p Y" using map_move_up [OF p(1), of yy] Suc.prems(1) by simp
  moreover have "set (to_front p Y) = set Y" using set_to_front [of p Y] p(1) Suc.prems(1) by auto
  ultimately obtain g where g: "sel_loop [Suc i..<n] (move_up p yy) ?t = Some (?t\<lparr>eselectorMtf := g\<rparr>)"
      "map g [Suc i..<n] = mtf_pos (to_front p Y) (map (eselector s) [Suc i..<n])" "\<forall>k < Suc i. g k = eselectorMtf ?t k"
    using Suc.hyps(1) [of "Suc i" "move_up p yy" "to_front p Y" ?t] Suc.prems mi by auto
  have "sel_loop [i..<n] yy s = Some (s\<lparr>eselectorMtf := g\<rparr>)" using g(1) f u by (simp add: up)
  moreover have "map g [i..<n] = mtf_pos Y (map (eselector s) [i..<n])" using g(2,3) by (simp add: up p_def)
  moreover have "\<forall>k < i. g k = eselectorMtf s k" using g(3) by simp
  ultimately show ?case by blast
qed

lemma sel_mtf_ok:
  assumes "\<forall>k < n. eselector s k < G"
  shows "\<exists>g. sel_mtf n s = Some (s\<lparr>eselectorMtf := g\<rparr>) \<and> map g [0..<n] = mtf_pos [0..<G] (map (eselector s) [0..<n])"
  using sel_loop_ok [of "\<lambda>i. i" G "[0..<G]" 0 n s] assms by (auto simp: sel_mtf_def)

section \<open>The codes\<close>

lemma minmax_fold:
  "fold (\<lambda>i (minLen, maxLen).
           let maxLen = (if l i > maxLen then l i else maxLen); minLen = (if l i < minLen then l i else minLen)
           in (minLen, maxLen)) [0..<n] (32, 0) = (mn, mx) \<Longrightarrow>
   (\<forall>i < n. mn \<le> l i \<and> l i \<le> mx) \<and> (mx = 0 \<or> (\<exists>i < n. mx = l i)) \<and> (mn = 32 \<or> (\<exists>i < n. mn = (l i :: nat)))"
proof (induction n arbitrary: mn mx)
  case (Suc n)
  obtain a b where ab: "fold (\<lambda>i (minLen, maxLen).
           let maxLen = (if l i > maxLen then l i else maxLen); minLen = (if l i < minLen then l i else minLen)
           in (minLen, maxLen)) [0..<n] (32, 0) = (a, b)" by fastforce
  have "mx = (if l n > b then l n else b)" "mn = (if l n < a then l n else a)" using Suc.prems ab by (auto simp: Let_def)
  then show ?case using Suc.IH [OF ab] by (auto simp: less_Suc_eq intro: less_imp_le order_trans)
qed simp

lemma assign_code_ok:
  assumes "code_lengths n 17 (elen s t)"
  shows "\<exists>c. assign_code n t (s, failed) = (s\<lparr>ecode := (ecode s)(t := c)\<rparr>, failed) \<and> (\<forall>v < n. c v = ccode (elen s t) n v)"
proof -
  obtain mn mx where m: "fold (\<lambda>i (minLen, maxLen).
           let maxLen = (if elen s t i > maxLen then elen s t i else maxLen);
               minLen = (if elen s t i < minLen then elen s t i else minLen)
           in (minLen, maxLen)) [0..<n] (32, 0) = (mn, mx)" by fastforce
  from minmax_fold [OF this] have b: "\<forall>i < n. mn \<le> elen s t i \<and> elen s t i \<le> mx" "mx \<le> 17" "1 \<le> mn"
    using assms by (auto simp: code_lengths_def)
  then have "assign_code n t (s, failed) =
      (s\<lparr>ecode := (ecode s)(t := (\<lambda>i. if i < n then ccode (elen s t) n i else ecode s t i))\<rparr>, failed)"
    using m AssignCodes_eq [of n mn "elen s t" mx "ecode s t"] by (simp add: assign_code_def AssertH_def Let_def)
  then show ?thesis by (intro exI, rule conjI) simp
qed

lemma assign_codes_ok:
  assumes "\<forall>t < G. code_lengths n 17 (elen s t)"
  shows "\<exists>c. fold (assign_code n) [0..<G] (s, failed) = (s\<lparr>ecode := c\<rparr>, failed) \<and> (\<forall>t < G. \<forall>v < n. c t v = ccode (elen s t) n v)"
  using assms
proof (induction G)
  case 0
  show ?case by (intro exI [of _ "ecode s"]) simp
next
  case (Suc G)
  then obtain c where c: "fold (assign_code n) [0..<G] (s, failed) = (s\<lparr>ecode := c\<rparr>, failed)"
      "\<forall>t < G. \<forall>v < n. c t v = ccode (elen s t) n v" by auto
  have "code_lengths n 17 (elen (s\<lparr>ecode := c\<rparr>) G)" using Suc.prems by simp
  from assign_code_ok [OF this, of failed] obtain d where
      d: "assign_code n G (s\<lparr>ecode := c\<rparr>, failed) = (s\<lparr>ecode := c(G := d)\<rparr>, failed)" "\<forall>v < n. d v = ccode (elen s G) n v"
    by auto
  then have "fold (assign_code n) [0..<Suc G] (s, failed) = (s\<lparr>ecode := c(G := d)\<rparr>, failed)" using c(1) by simp
  moreover have "\<forall>t < Suc G. \<forall>v < n. (c(G := d)) t v = ccode (elen s t) n v" using c(2) d(2) by (simp add: less_Suc_eq)
  ultimately show ?case by blast
qed

section \<open>The bits\<close>

definition mapping_bits :: "(nat \<Rightarrow> bool) \<Rightarrow> bool list" where
  "mapping_bits u =
     map (\<lambda>i. \<exists>j \<in> {0..<16}. u (i * 16 + j)) [0..<16] @
     concat (map (\<lambda>i. if \<exists>j \<in> {0..<16}. u (i * 16 + j) then map (\<lambda>j. u (i * 16 + j)) [0..<16] else []) [0..<16])"

definition selector_bits :: "nat \<Rightarrow> nat list \<Rightarrow> bool list" where
  "selector_bits nGroups js = to_bits 3 nGroups @ to_bits 15 (length js) @ concat (map (\<lambda>j. replicate j True @ [False]) js)"

definition delta_bits :: "nat \<Rightarrow> nat \<Rightarrow> bool list" where
  "delta_bits a b = concat (replicate (b - a) [True, False]) @ concat (replicate (a - b) [True, True])"

fun lens_bits :: "nat \<Rightarrow> nat list \<Rightarrow> bool list" where
  "lens_bits a [] = []"
| "lens_bits a (l # ls) = delta_bits a l @ False # lens_bits l ls"

definition table_bits :: "nat list \<Rightarrow> bool list" where
  "table_bits ls = to_bits 5 (hd ls) @ lens_bits (hd ls) ls"

definition symbol_bits :: "(nat \<Rightarrow> nat) \<Rightarrow> nat \<Rightarrow> nat \<Rightarrow> bool list" where
  "symbol_bits len n v = to_bits (len v) (ccode len n v)"

definition data_bits :: "(nat \<Rightarrow> nat \<Rightarrow> nat) \<Rightarrow> nat \<Rightarrow> (nat \<Rightarrow> nat) \<Rightarrow> (nat \<Rightarrow> nat) \<Rightarrow> nat \<Rightarrow> bool list" where
  "data_bits len alphaSize sel sym_at n =
     concat (map (\<lambda>k. concat (map (symbol_bits (len (sel k)) alphaSize) (nth_group sym_at n k))) [0..<n_selectors n])"

text \<open>Everything \<open>sendMTFValues\<close> writes, by the fields it leaves behind.\<close>

definition body_bits :: "estate \<Rightarrow> bool list" where
  "body_bits s =
     mapping_bits (einUse s) @
     selector_bits (choose_nGroups (nMTF s)) (map (eselectorMtf s) [0..<n_selectors (nMTF s)]) @
     concat (map (\<lambda>t. table_bits (map (elen s t) [0..<enInUse s + 2])) [0..<choose_nGroups (nMTF s)]) @
     data_bits (elen s) (enInUse s + 2) (eselector s) (mtfv s) (nMTF s)"

lemma emits_only: "emits bs s s' \<Longrightarrow> only_bits s s'"
  by (simp add: emits_def)

lemma emits_fold_only:
  "(\<And>x t. x \<in> set xs \<Longrightarrow> only_bits s t \<Longrightarrow> emits (f x) t (g x t)) \<Longrightarrow> emits (concat (map f xs)) s (fold g xs s)"
proof (induction xs arbitrary: s)
  case (Cons x xs)
  have e: "emits (f x) s (g x s)" using Cons.prems [of x s] only_bits_refl by simp
  have "emits (f y) t (g y t)" if "y \<in> set xs" "only_bits (g x s) t" for y t
    using Cons.prems [of y t] that only_bits_trans [OF emits_only [OF e]] by simp
  from emits_trans [OF e Cons.IH [OF this]] show ?case by simp
qed (simp add: emits_refl)

lemma emits_put_bit: "emits [b] s (put_bit b s)"
  using emits_bit [of b s] by (cases b) (simp_all add: put_bit_def)

lemma emits_bits: "emits (map f xs) s (fold (\<lambda>x s. put_bit (f x) s) xs s)"
  using emits_fold [of xs "\<lambda>x. [f x]" "\<lambda>x s. put_bit (f x) s"] emits_put_bit by (simp add: concat_map_singleton)

lemma emits_mapping: "emits (mapping_bits (einUse s)) s (put_mapping s)"
  unfolding put_mapping_def mapping_bits_def Let_def
  by (rule emits_trans [OF emits_bits]) (rule emits_fold, auto simp: emits_bits emits_refl)

lemma emits_two: "emits [True, b] s (bsW 2 (if b then 3 else 2) s)"
proof -
  have "to_bits 2 w = [bit w 1, bit w 0]" for w :: u32 by (simp add: numeral_2_eq_2 to_bits_Suc)
  then have "to_bits 2 (3 :: u32) = [True, True]" "to_bits 2 (2 :: u32) = [True, False]" by simp_all
  moreover have "take_bit 2 (3 :: u32) = 3" "take_bit 2 (2 :: u32) = 2" by simp_all
  ultimately show ?thesis using emits_bsW [of 2 "if b then 3 else 2" s] by (cases b) auto
qed

lemma emits_unary: "emits (replicate j True @ [False]) s (bsW 1 0 (fold (\<lambda>_ s. bsW 1 1 s) [0..<j] s))"
proof -
  have "emits (concat (map (\<lambda>_. [True]) [0..<j])) s (fold (\<lambda>_ s. bsW 1 1 s) [0..<j] s)"
    by (rule emits_fold) (use emits_bit [of True] in simp)
  moreover have "concat (map (\<lambda>_. [True]) [0..<j]) = replicate j True" by (induction j) (simp_all add: replicate_append_same)
  ultimately show ?thesis using emits_trans emits_bit [of False] by simp
qed

lemma emits_selectors:
  assumes "nGroups < 8" "nSel < 2 ^ 15"
  shows "emits (selector_bits nGroups (map (eselectorMtf s) [0..<nSel])) s (put_selectors nGroups nSel s)"
proof -
  let ?t = "bsW 15 (word_of_nat nSel) (bsW 3 (word_of_nat nGroups) s)"
  have t: "emits (to_bits 3 nGroups @ to_bits 15 nSel) s ?t" using emits_trans [OF emits_nat emits_nat] assms by simp
  have "emits (concat (map (\<lambda>i. replicate (eselectorMtf s i) True @ [False]) [0..<nSel])) ?t
      (fold (\<lambda>i s. bsW 1 0 (fold (\<lambda>_ s. bsW 1 1 s) [0..<eselectorMtf s i] s)) [0..<nSel] ?t)"
  proof (rule emits_fold_only)
    fix i u assume "only_bits ?t u"
    then have "eselectorMtf u = eselectorMtf s" using only_bits_fields(14) emits_only [OF t] by simp
    then show "emits (replicate (eselectorMtf s i) True @ [False]) u (bsW 1 0 (fold (\<lambda>_ s. bsW 1 1 s) [0..<eselectorMtf u i] u))"
      using emits_unary by simp
  qed
  from emits_trans [OF t this] show ?thesis by (simp add: put_selectors_def selector_bits_def Let_def comp_def)
qed

lemma put_up_ok: "fst (put_up l (c, s)) = max c l \<and> emits (concat (replicate (l - c) [True, False])) s (snd (put_up l (c, s)))"
proof (induction "l - c" arbitrary: c s)
  case 0
  then show ?case by (subst (1 2) put_up.simps) (simp add: emits_refl)
next
  case (Suc k)
  let ?t = "bsW 2 2 s"
  have "c < l" using Suc.hyps(2) by simp
  then have e: "put_up l (c, s) = put_up l (c + 1, ?t)" by (subst put_up.simps) simp
  have "fst (put_up l (c + 1, ?t)) = max (c + 1) l \<and> emits (concat (replicate (l - (c + 1)) [True, False])) ?t (snd (put_up l (c + 1, ?t)))"
    using Suc.hyps(1) [of "c + 1" ?t] Suc.hyps(2) by simp
  moreover have "concat (replicate (l - c) [True, False]) = [True, False] @ concat (replicate (l - (c + 1)) [True, False])"
    using Suc.hyps(2) by (metis Suc_eq_plus1 add_diff_cancel_left' concat.simps(2) diff_diff_left plus_1_eq_Suc replicate_Suc)
  ultimately show ?case using emits_trans [OF emits_two [of False s]] Suc.hyps(2) unfolding e by auto
qed

lemma put_down_ok: "fst (put_down l (c, s)) = min c l \<and> emits (concat (replicate (c - l) [True, True])) s (snd (put_down l (c, s)))"
proof (induction "c - l" arbitrary: c s)
  case 0
  then show ?case by (subst (1 2) put_down.simps) (simp add: emits_refl)
next
  case (Suc k)
  let ?t = "bsW 2 3 s"
  have "l < c" using Suc.hyps(2) by simp
  then have e: "put_down l (c, s) = put_down l (c - 1, ?t)" by (subst put_down.simps) simp
  have "fst (put_down l (c - 1, ?t)) = min (c - 1) l \<and> emits (concat (replicate (c - 1 - l) [True, True])) ?t (snd (put_down l (c - 1, ?t)))"
    using Suc.hyps(1) [of "c - 1" ?t] Suc.hyps(2) by simp
  moreover have "c - l = Suc (c - 1 - l)" using Suc.hyps(2) by simp
  then have "concat (replicate (c - l) [True, True]) = [True, True] @ concat (replicate (c - 1 - l) [True, True])" by simp
  ultimately show ?case using emits_trans [OF emits_two [of True s]] Suc.hyps(2) unfolding e by auto
qed

lemma put_delta_ok:
  "\<exists>s'. put_down l (put_up l (c, s)) = (l, s') \<and> emits (delta_bits c l) s s'"
proof -
  obtain s1 where 1: "put_up l (c, s) = (max c l, s1)" "emits (concat (replicate (l - c) [True, False])) s s1"
    using put_up_ok [of l c s] by (metis prod.collapse)
  obtain s2 where 2: "put_down l (max c l, s1) = (l, s2)" "emits (concat (replicate (max c l - l) [True, True])) s1 s2"
    using put_down_ok [of l "max c l" s1] by (metis min.absorb2 max.cobounded2 prod.collapse)
  have "max c l - l = c - l" by simp
  then show ?thesis using 1 2 emits_trans [OF 1(2) 2(2)] by (auto simp: delta_bits_def)
qed

lemma put_lens_ok:
  "\<exists>c' s'. fold (\<lambda>l a. case put_down l (put_up l a) of (c, s') \<Rightarrow> (c, bsW 1 0 s')) ls (c, s) = (c', s') \<and> emits (lens_bits c ls) s s'"
proof (induction ls arbitrary: c s)
  case (Cons l ls)
  obtain s1 where 1: "put_down l (put_up l (c, s)) = (l, s1)" "emits (delta_bits c l) s s1" using put_delta_ok by blast
  obtain c' s' where 2: "fold (\<lambda>l a. case put_down l (put_up l a) of (c, s') \<Rightarrow> (c, bsW 1 0 s')) ls (l, bsW 1 0 s1) = (c', s')"
      "emits (lens_bits l ls) (bsW 1 0 s1) s'" using Cons by blast
  have "emits [False] s1 (bsW 1 0 s1)" using emits_bit [of False s1] by simp
  from emits_trans [OF 1(2) emits_trans [OF this 2(2)]] have "emits (delta_bits c l @ [False] @ lens_bits l ls) s s'" .
  then show ?case using 1(1) 2(1) by simp
qed (simp add: emits_refl)

lemma emits_table:
  assumes "0 < n" "elen s t 0 < 32"
  shows "emits (table_bits (map (elen s t) [0..<n])) s (put_table n t s)"
proof -
  let ?ls = "map (elen s t) [0..<n]" and ?s1 = "bsW 5 (word_of_nat (elen s t 0)) s"
  have h: "hd ?ls = elen s t 0" using assms(1) by (simp add: upt_conv_Cons)
  obtain c' s' where 1: "fold (\<lambda>l a. case put_down l (put_up l a) of (c, s') \<Rightarrow> (c, bsW 1 0 s')) ?ls (elen s t 0, ?s1) = (c', s')"
      "emits (lens_bits (elen s t 0) ?ls) ?s1 s'" using put_lens_ok by blast
  have "put_table n t s = s'" using 1(1) by (simp add: put_table_def Let_def fold_map comp_def)
  moreover have "emits (to_bits 5 (elen s t 0)) s ?s1" using emits_nat [of 5 "elen s t 0" s] assms(2) by simp
  ultimately show ?thesis using emits_trans [OF _ 1(2)] by (simp add: table_bits_def h)
qed

section \<open>The symbols of the groups\<close>

definition codes_ok :: "nat \<Rightarrow> nat \<Rightarrow> estate \<Rightarrow> bool" where
  "codes_ok nGroups alphaSize s \<longleftrightarrow> (\<forall>t < nGroups. code_lengths alphaSize 17 (elen s t) \<and>
     (\<forall>v < alphaSize. ecode s t v = ccode (elen s t) alphaSize v))"

lemma emits_symbol:
  assumes "codes_ok nGroups alphaSize s" "t < nGroups" "v < alphaSize"
  shows "emits (symbol_bits (elen s t) alphaSize v) s (put_symbol t v s)"
proof -
  have L: "code_lengths alphaSize 17 (elen s t)" and c: "ecode s t v = ccode (elen s t) alphaSize v"
    using assms by (auto simp: codes_ok_def)
  have "ccode (elen s t) alphaSize v < 2 ^ elen s t v"
    using ccode_less [OF assms(3), of "elen s t" 17] L by (auto simp: code_lengths_def)
  moreover have "elen s t v \<le> 32" using L assms(3) by (auto simp: code_lengths_def intro: le_trans)
  ultimately show ?thesis using emits_nat by (simp add: symbol_bits_def put_symbol_def c)
qed

lemma emits_group:
  assumes C: "codes_ok nGroups alphaSize s" and t: "t < nGroups" and v: "\<And>i. gs \<le> i \<Longrightarrow> i \<le> ge \<Longrightarrow> mtfv s i < alphaSize" and g: "gs \<le> ge"
  shows "emits (concat (map (symbol_bits (elen s t) alphaSize) (group_syms (mtfv s) gs ge))) s
    (if full_group nGroups gs ge then fold (\<lambda>nn s. put_symbol t (mtfv s (gs + nn)) s) [0..<50] s
     else fold (\<lambda>i s. put_symbol t (mtfv s i) s) [gs..<ge + 1] s)"
proof -
  have f: "fold (\<lambda>nn s. put_symbol t (mtfv s (gs + nn)) s) [0..<50] s = fold (\<lambda>i s. put_symbol t (mtfv s i) s) [gs..<ge + 1] s"
    if "full_group nGroups gs ge"
  proof -
    have "ge + 1 = gs + 50" using that g by (auto simp: full_group_def)
    then have "[gs..<ge + 1] = map (\<lambda>nn. gs + nn) [0..<50]" by (intro nth_equalityI) simp_all
    then show ?thesis by (simp add: fold_map comp_def)
  qed
  have "emits (concat (map (\<lambda>i. symbol_bits (elen s t) alphaSize (mtfv s i)) [gs..<ge + 1])) s
      (fold (\<lambda>i s. put_symbol t (mtfv s i) s) [gs..<ge + 1] s)"
  proof (rule emits_fold_only)
    fix i u assume i: "i \<in> set [gs..<ge + 1]" and u: "only_bits s u"
    note F = only_bits_fields [OF u]
    have "codes_ok nGroups alphaSize u" using C F by (simp add: codes_ok_def)
    moreover have "gs \<le> i" "i \<le> ge" using i g by auto
    then have "mtfv u i < alphaSize" using v F by simp
    ultimately show "emits (symbol_bits (elen s t) alphaSize (mtfv s i)) u (put_symbol t (mtfv u i) u)"
      using emits_symbol [of nGroups alphaSize u t "mtfv u i"] t F by simp
  qed
  then show ?thesis using f by (auto simp: group_syms_def comp_def)
qed

lemma put_groups_ok:
  assumes "codes_ok nGroups alphaSize s" "\<forall>k < n_selectors n. eselector s k < nGroups" "\<forall>i < n. mtfv s i < alphaSize" "50 * k < n + 50"
  shows "\<exists>s'. put_groups n nGroups (min n (50 * k)) k (s, failed) = (n_selectors n, s', failed) \<and>
    emits (concat (map (\<lambda>k. concat (map (symbol_bits (elen s (eselector s k)) alphaSize) (nth_group (mtfv s) n k)))
      [k..<n_selectors n])) s s'"
  using assms
proof (induction "n - 50 * k" arbitrary: k s rule: less_induct)
  case less
  show ?case
  proof (cases "n \<le> 50 * k")
    case True
    then have "n_selectors n = k" using less.prems(4) by (simp add: n_selectors_def)
    moreover have "put_groups n nGroups (min n (50 * k)) k (s, failed) = (k, s, failed)"
      using True by (subst put_groups.simps) simp
    ultimately show ?thesis by (simp add: emits_refl)
  next
    case False
    let ?gs = "50 * k" and ?ge = "group_end n (50 * k)" and ?t = "eselector s k"
    have gs: "min n ?gs = ?gs" using False by simp
    note ge = group_end_bounds [of ?gs n]
    have k: "k < n_selectors n" using False by (simp add: n_selectors_def)
    then have t: "?t < nGroups" using less.prems(2) by simp
    define u where "u = (if full_group nGroups ?gs ?ge then fold (\<lambda>nn s. put_symbol ?t (mtfv s (?gs + nn)) s) [0..<50] s
        else fold (\<lambda>i s. put_symbol ?t (mtfv s i) s) [?gs..<?ge + 1] s)"
    have E: "emits (concat (map (symbol_bits (elen s ?t) alphaSize) (nth_group (mtfv s) n k))) s u"
      unfolding u_def nth_group_def using emits_group [OF less.prems(1) t] less.prems(3) ge False by simp
    note F = only_bits_fields [OF emits_only [OF E]]
    have e1: "?ge + 1 = min n (50 * (k + 1))" using False by (auto simp: group_end_def min_def)
    have "put_groups n nGroups ?gs k (s, failed) = put_groups n nGroups (?ge + 1) (k + 1) (u, failed)"
      using False t by (subst put_groups.simps) (simp add: AssertH_def Let_def u_def)
    then have st: "put_groups n nGroups (min n ?gs) k (s, failed) = put_groups n nGroups (min n (50 * (k + 1))) (k + 1) (u, failed)"
      unfolding gs e1 .
    have "codes_ok nGroups alphaSize u" using less.prems(1) F by (simp add: codes_ok_def)
    moreover have "n - 50 * (k + 1) < n - 50 * k" using False by simp
    ultimately obtain s' where s': "put_groups n nGroups (min n (50 * (k + 1))) (k + 1) (u, failed) = (n_selectors n, s', failed)"
        "emits (concat (map (\<lambda>k. concat (map (symbol_bits (elen s (eselector s k)) alphaSize) (nth_group (mtfv s) n k)))
          [k + 1..<n_selectors n])) u s'"
      using less.hyps [of "k + 1" u] less.prems F False by auto
    have "[k..<n_selectors n] = k # [k + 1..<n_selectors n]" using k by (simp add: upt_conv_Cons)
    then show ?thesis using s' emits_trans [OF E s'(2)] st by simp
  qed
qed

section \<open>The routine as a whole\<close>

text \<open>The fields of \<open>s'\<close> that \<open>sendMTFValues\<close> sets are consistent.\<close>

definition sent_ok :: "estate \<Rightarrow> bool" where
  "sent_ok s \<longleftrightarrow> (let G = choose_nGroups (nMTF s); n = n_selectors (nMTF s) in
     tables_ok G (enInUse s + 2) n s \<and> codes_ok G (enInUse s + 2) s \<and>
     map (eselectorMtf s) [0..<n] = mtf_pos [0..<G] (map (eselector s) [0..<n]))"

lemma body_bits_only:
  assumes "only_bits s s'"
  shows "body_bits s' = body_bits s" "sent_ok s' = sent_ok s"
  using only_bits_fields [OF assms] by (simp_all add: body_bits_def sent_ok_def Let_def tables_ok_def codes_ok_def)

lemma sendMTFValues_emits:
  assumes n: "0 < nMTF s" "nMTF s \<le> 900100" and u: "enInUse s \<le> 256" and v: "\<forall>i < nMTF s. mtfv s i < enInUse s + 2"
  shows "\<exists>len sel selM code s'. sendMTFValues (s, failed) = Some (s', failed) \<and>
    emits (body_bits s') (s\<lparr>elen := len, eselector := sel, eselectorMtf := selM, ecode := code\<rparr>) s' \<and> sent_ok s'"
proof -
  let ?G = "choose_nGroups (nMTF s)" and ?a = "enInUse s + 2" and ?S = "n_selectors (nMTF s)"
  have G: "1 \<le> ?G" "?G < 8" using choose_nGroups_bounds [of "nMTF s"] by linarith+
  have S: "?S \<le> BZ_MAX_SELECTORS" "?S < 32768" using n(2) by (simp_all add: n_selectors_def)
  define s1 where "s1 = s\<lparr>elen := seed_tables (mtfFreq s) ?a ?G ?G (int (nMTF s)) 0 (fill_len ?a (elen s))\<rparr>"
  have "nMTF s1 \<le> 8000000" using n by (simp add: s1_def)
  then obtain sel len where r: "(refine_pass ?G ?a ^^ BZ_N_ITERS) (0, s1, failed) =
      (?S, s1\<lparr>eselector := sel, elen := len\<rparr>, failed)" "tables_ok ?G ?a ?S (s1\<lparr>eselector := sel, elen := len\<rparr>)"
    using refine_passes_ok [of ?G ?a s1 0 failed] G(1) u by (auto simp: s1_def)
  define s2 where "s2 = s\<lparr>elen := len, eselector := sel\<rparr>"
  have s2: "s1\<lparr>eselector := sel, elen := len\<rparr> = s2" by (simp add: s1_def s2_def)
  have T: "\<forall>k < ?S. eselector s2 k < ?G" "\<forall>t < ?G. code_lengths ?a 17 (elen s2 t)"
    using r(2) unfolding s2 by (simp_all add: tables_ok_def)
  obtain selM where m: "sel_mtf ?S s2 = Some (s2\<lparr>eselectorMtf := selM\<rparr>)" "map selM [0..<?S] = mtf_pos [0..<?G] (map (eselector s2) [0..<?S])"
    using sel_mtf_ok [OF T(1)] by auto
  have "\<forall>t < ?G. code_lengths ?a 17 (elen (s2\<lparr>eselectorMtf := selM\<rparr>) t)" using T(2) by simp
  from assign_codes_ok [OF this, of failed] obtain code where
      c: "fold (assign_code ?a) [0..<?G] (s2\<lparr>eselectorMtf := selM\<rparr>, failed) = (s2\<lparr>eselectorMtf := selM, ecode := code\<rparr>, failed)"
        "\<forall>t < ?G. \<forall>v < ?a. code t v = ccode (elen s2 t) ?a v" by auto
  define s3 where "s3 = s2\<lparr>eselectorMtf := selM, ecode := code\<rparr>"
  have C: "codes_ok ?G ?a s3" using T(2) c(2) by (simp add: codes_ok_def s3_def)
  have ok3: "sent_ok s3" using r(2) C m(2) unfolding s2 by (simp add: sent_ok_def s3_def s2_def tables_ok_def Let_def)
  define s4 s5 s6 where "s4 = put_mapping s3" and "s5 = put_selectors ?G ?S s4" and "s6 = fold (put_table ?a) [0..<?G] s5"
  note e4 = emits_mapping [of s3, folded s4_def]
  have e5: "emits (selector_bits ?G (map (eselectorMtf s3) [0..<?S])) s4 s5"
    using emits_selectors [of ?G ?S s4] G(2) S(2) only_bits_fields(14) [OF emits_only [OF e4]] by (simp add: s5_def)
  note e45 = emits_trans [OF e4 e5]
  have e6: "emits (concat (map (\<lambda>t. table_bits (map (elen s3 t) [0..<?a])) [0..<?G])) s5 s6"
    unfolding s6_def
  proof (rule emits_fold_only)
    fix t w assume t: "t \<in> set [0..<?G]" and w: "only_bits s5 w"
    have "elen w = elen s3" using only_bits_fields(15) w emits_only [OF e45] by simp
    moreover have "elen s3 t 0 \<le> 17" using C t by (simp add: codes_ok_def code_lengths_def)
    ultimately show "emits (table_bits (map (elen s3 t) [0..<?a])) w (put_table ?a t w)"
      using emits_table [of ?a w t] by simp
  qed
  note e456 = emits_trans [OF e45 e6]
  note F = only_bits_fields [OF emits_only [OF e456]]
  have "codes_ok ?G ?a s6" "\<forall>k < n_selectors (nMTF s6). eselector s6 k < ?G" "\<forall>i < nMTF s6. mtfv s6 i < ?a"
    using C T(1) v F by (simp_all add: codes_ok_def s3_def s2_def mtfv_def)
  from put_groups_ok [OF this, of 0 failed] obtain s7 where
      g: "put_groups (nMTF s6) ?G 0 0 (s6, failed) = (?S, s7, failed)" "emits (data_bits (elen s3) ?a (eselector s3) (mtfv s3) (nMTF s3)) s6 s7"
    using F by (auto simp: data_bits_def s3_def s2_def)
  have n3: "nMTF s3 = nMTF s" "enInUse s3 = enInUse s" by (simp_all add: s3_def s2_def)
  have e: "emits (body_bits s3) s3 s7"
    using emits_trans [OF e456 g(2)] by (simp add: body_bits_def n3)
  have "sendMTFValues (s, failed) = Some (s7, failed)"
    using n(1) G(2) S m(1) c(1) g(1) r(1) F(11)
    by (simp add: sendMTFValues_def Let_def AssertH_def s2 del: add_2_eq_Suc' flip: s1_def s3_def s4_def s5_def s6_def)
  moreover have "s3 = s\<lparr>elen := len, eselector := sel, eselectorMtf := selM, ecode := code\<rparr>"
    by (simp add: s3_def s2_def)
  moreover have "body_bits s7 = body_bits s3" "sent_ok s7" using body_bits_only [OF emits_only [OF e]] ok3 by simp_all
  ultimately show ?thesis using e by (intro exI [of _ len] exI [of _ sel] exI [of _ selM] exI [of _ code] exI [of _ s7]) simp
qed

end
