(* ===== verification/BlockSort.thy ===== *)
theory BlockSort
  imports EState HuffLengths "HOL-Library.Monad_Syntax"
begin

text \<open>
  \<^verbatim>\<open>src/blocksort.c\<close>: the sorting of a block. \<open>fmap\<close> is the array being sorted, \<open>eclass\<close> the class of each rotation and
  \<open>bhtab\<close> a bit table that marks the first place of each bucket. The loops whose exit depends on what the arrays hold are
  partial functions: a loop that does not end is \<open>None\<close>. \<open>libsais\<close> is third-party code and a parameter of \<open>host\<close>.
  Positions that the code lets run below zero are \<open>int\<close>.
\<close>

section \<open>Small ranges\<close>

definition fswap :: "int \<Rightarrow> int \<Rightarrow> (nat \<Rightarrow> nat) \<Rightarrow> (nat \<Rightarrow> nat)" where
  "fswap a b fmap = fmap(nat a := fmap (nat b), nat b := fmap (nat a))"

text \<open>\<open>for ( j = i+d; j <= hi && ec_tmp > eclass[fmap[j]]; j += d )\<close> with \<open>d = h + 1\<close>.\<close>

function shift_loop :: "nat \<Rightarrow> (nat \<Rightarrow> nat) \<Rightarrow> int \<Rightarrow> nat \<Rightarrow> int \<Rightarrow> (nat \<Rightarrow> nat) \<Rightarrow> int \<times> (nat \<Rightarrow> nat)" where
  "shift_loop h eclass hi ec_tmp j fmap =
     (if j \<le> hi \<and> ec_tmp > eclass (fmap (nat j))
      then shift_loop h eclass hi ec_tmp (j + int (h + 1)) (fmap(nat (j - int (h + 1)) := fmap (nat j)))
      else (j, fmap))"
  by pat_completeness auto
termination by (relation "measure (\<lambda>(h, _, hi, _, j, _). nat (hi + 1 - j))") auto

declare shift_loop.simps [simp del]

definition simple_step :: "nat \<Rightarrow> (nat \<Rightarrow> nat) \<Rightarrow> int \<Rightarrow> int \<Rightarrow> (nat \<Rightarrow> nat) \<Rightarrow> (nat \<Rightarrow> nat)" where
  "simple_step h eclass hi i fmap =
     (let tmp = fmap (nat i); ec_tmp = eclass tmp; (j, fmap) = shift_loop h eclass hi ec_tmp (i + int (h + 1)) fmap
      in fmap(nat (j - int (h + 1)) := tmp))"

definition fallbackSimpleSort :: "(nat \<Rightarrow> nat) \<Rightarrow> int \<Rightarrow> int \<Rightarrow> (nat \<Rightarrow> nat) \<Rightarrow> (nat \<Rightarrow> nat)" where
  "fallbackSimpleSort eclass lo hi fmap =
     (if lo = hi then fmap
      else
        let fmap = (if hi - lo > 3 then fold (simple_step 3 eclass hi) (rev [lo..hi - 4]) fmap else fmap)
        in fold (simple_step 0 eclass hi) (rev [lo..hi - 1]) fmap)"

section \<open>Three-way quicksort\<close>

abbreviation (input) FALLBACK_QSORT_SMALL_THRESH :: int where "FALLBACK_QSORT_SMALL_THRESH \<equiv> 10"
abbreviation (input) FALLBACK_QSORT_STACK_SIZE :: nat where "FALLBACK_QSORT_STACK_SIZE \<equiv> 100"

text \<open>The two inner loops. \<open>eq\<close> is \<open>ltLo\<close> in one and \<open>gtHi\<close> in the other.\<close>

function scan_lo :: "(nat \<Rightarrow> nat) \<Rightarrow> nat \<Rightarrow> int \<Rightarrow> int \<times> int \<times> (nat \<Rightarrow> nat) \<Rightarrow> int \<times> int \<times> (nat \<Rightarrow> nat)" where
  "scan_lo eclass med unHi (unLo, ltLo, fmap) =
     (if unLo > unHi then (unLo, ltLo, fmap)
      else
        let n = int (eclass (fmap (nat unLo))) - int med
        in if n = 0 then scan_lo eclass med unHi (unLo + 1, ltLo + 1, fswap unLo ltLo fmap)
           else if n > 0 then (unLo, ltLo, fmap)
           else scan_lo eclass med unHi (unLo + 1, ltLo, fmap))"
  by pat_completeness auto
termination by (relation "measure (\<lambda>(_, _, unHi, unLo, _). nat (unHi + 1 - unLo))") auto

function scan_hi :: "(nat \<Rightarrow> nat) \<Rightarrow> nat \<Rightarrow> int \<Rightarrow> int \<times> int \<times> (nat \<Rightarrow> nat) \<Rightarrow> int \<times> int \<times> (nat \<Rightarrow> nat)" where
  "scan_hi eclass med unLo (unHi, gtHi, fmap) =
     (if unLo > unHi then (unHi, gtHi, fmap)
      else
        let n = int (eclass (fmap (nat unHi))) - int med
        in if n = 0 then scan_hi eclass med unLo (unHi - 1, gtHi - 1, fswap unHi gtHi fmap)
           else if n < 0 then (unHi, gtHi, fmap)
           else scan_hi eclass med unLo (unHi - 1, gtHi, fmap))"
  by pat_completeness auto
termination by (relation "measure (\<lambda>(_, _, unLo, unHi, _). nat (unHi + 1 - unLo))") auto

declare scan_lo.simps [simp del] scan_hi.simps [simp del]

lemma scan_lo_mono: "scan_lo eclass med unHi (unLo, ltLo, fmap) = (unLo', ltLo', fmap') \<Longrightarrow> unLo \<le> unLo'"
proof (induction eclass med unHi "(unLo, ltLo, fmap)" arbitrary: unLo ltLo fmap rule: scan_lo.induct)
  case 1
  from 1(3) 1(1,2) show ?case by (subst (asm) scan_lo.simps) (fastforce simp: Let_def split: if_splits)
qed

lemma scan_hi_mono: "scan_hi eclass med unLo (unHi, gtHi, fmap) = (unHi', gtHi', fmap') \<Longrightarrow> unHi' \<le> unHi"
proof (induction eclass med unLo "(unHi, gtHi, fmap)" arbitrary: unHi gtHi fmap rule: scan_hi.induct)
  case 1
  from 1(3) 1(1,2) show ?case by (subst (asm) scan_hi.simps) (fastforce simp: Let_def split: if_splits)
qed

text \<open>\<open>unLo\<close>, \<open>unHi\<close>, \<open>ltLo\<close>, \<open>gtHi\<close> and the array.\<close>

function partition_loop :: "(nat \<Rightarrow> nat) \<Rightarrow> nat \<Rightarrow> int \<times> int \<times> int \<times> int \<times> (nat \<Rightarrow> nat) \<Rightarrow> int \<times> int \<times> int \<times> int \<times> (nat \<Rightarrow> nat)" where
  "partition_loop eclass med (unLo, unHi, ltLo, gtHi, fmap) =
     (case scan_lo eclass med unHi (unLo, ltLo, fmap) of (unLo, ltLo, fmap) \<Rightarrow>
        case scan_hi eclass med unLo (unHi, gtHi, fmap) of (unHi, gtHi, fmap) \<Rightarrow>
          if unLo > unHi then (unLo, unHi, ltLo, gtHi, fmap)
          else partition_loop eclass med (unLo + 1, unHi - 1, ltLo, gtHi, fswap unLo unHi fmap))"
  by pat_completeness auto
termination
  by (relation "measure (\<lambda>(_, _, unLo, unHi, _). nat (unHi + 1 - unLo))") (auto dest!: scan_lo_mono scan_hi_mono sym [of "(_, _, _)"])

declare partition_loop.simps [simp del]

definition fvswap :: "int \<Rightarrow> int \<Rightarrow> int \<Rightarrow> (nat \<Rightarrow> nat) \<Rightarrow> (nat \<Rightarrow> nat)" where
  "fvswap zzp1 zzp2 zzn fmap = fold (\<lambda>k fmap. fswap (zzp1 + k) (zzp2 + k) fmap) [0..zzn - 1] fmap"

definition choose_med :: "(nat \<Rightarrow> nat) \<Rightarrow> (nat \<Rightarrow> nat) \<Rightarrow> int \<Rightarrow> int \<Rightarrow> u32 \<Rightarrow> nat" where
  "choose_med eclass fmap lo hi r =
     (let r3 = r mod 3
      in if r3 = 0 then eclass (fmap (nat lo)) else if r3 = 1 then eclass (fmap (nat (drop_bit 1 (lo + hi)))) else eclass (fmap (nat hi)))"

text \<open>The stack is a list, its top first.\<close>

definition qsort3_step ::
  "(nat \<Rightarrow> nat) \<Rightarrow> int \<Rightarrow> int \<Rightarrow> (int \<times> int) list \<Rightarrow> u32 \<Rightarrow> (nat \<Rightarrow> nat) \<Rightarrow> (int \<times> int) list \<times> u32 \<times> (nat \<Rightarrow> nat)" where
  "qsort3_step eclass lo hi stack r fmap =
     (if hi - lo < FALLBACK_QSORT_SMALL_THRESH then (stack, r, fallbackSimpleSort eclass lo hi fmap)
      else
        let r = (r * 7621 + 1) mod 32768; med = choose_med eclass fmap lo hi r;
            (unLo, unHi, ltLo, gtHi, fmap) = partition_loop eclass med (lo, hi, lo, hi, fmap)
        in if gtHi < ltLo then (stack, r, fmap)
           else
             let n = (if ltLo - lo < unLo - ltLo then ltLo - lo else unLo - ltLo); fmap = fvswap lo (unLo - n) n fmap;
                 m = (if hi - gtHi < gtHi - unHi then hi - gtHi else gtHi - unHi); fmap = fvswap unLo (hi - m + 1) m fmap;
                 n = lo + unLo - ltLo - 1; m = hi - (gtHi - unHi) + 1
             in if n - lo > hi - m then ((m, hi) # (lo, n) # stack, r, fmap) else ((lo, n) # (m, hi) # stack, r, fmap))"

partial_function (option) qsort3_loop ::
  "(nat \<Rightarrow> nat) \<Rightarrow> (int \<times> int) list \<Rightarrow> u32 \<Rightarrow> (nat \<Rightarrow> nat) \<Rightarrow> int option \<Rightarrow> ((nat \<Rightarrow> nat) \<times> int option) option" where
  "qsort3_loop eclass stack r fmap failed =
     (case stack of
        [] \<Rightarrow> Some (fmap, failed)
      | (lo, hi) # rest \<Rightarrow>
          let failed = AssertH (length stack < FALLBACK_QSORT_STACK_SIZE - 1) 1004 failed
          in case qsort3_step eclass lo hi rest r fmap of (stack, r, fmap) \<Rightarrow> qsort3_loop eclass stack r fmap failed)"

definition fallbackQSort3 ::
  "(nat \<Rightarrow> nat) \<Rightarrow> int \<Rightarrow> int \<Rightarrow> (nat \<Rightarrow> nat) \<times> int option \<Rightarrow> ((nat \<Rightarrow> nat) \<times> int option) option" where
  "fallbackQSort3 eclass loSt hiSt a = (case a of (fmap, failed) \<Rightarrow> qsort3_loop eclass [(loSt, hiSt)] 0 fmap failed)"

section \<open>The bit table\<close>

definition SET_BH :: "nat \<Rightarrow> (nat \<Rightarrow> u32) \<Rightarrow> (nat \<Rightarrow> u32)" where
  "SET_BH zz bh = bh(zz div 32 := bh (zz div 32) OR push_bit (zz mod 32) 1)"

definition CLEAR_BH :: "nat \<Rightarrow> (nat \<Rightarrow> u32) \<Rightarrow> (nat \<Rightarrow> u32)" where
  "CLEAR_BH zz bh = bh(zz div 32 := bh (zz div 32) AND NOT (push_bit (zz mod 32) 1))"

definition ISSET_BH :: "(nat \<Rightarrow> u32) \<Rightarrow> nat \<Rightarrow> bool" where
  "ISSET_BH bh zz \<longleftrightarrow> bh (zz div 32) AND push_bit (zz mod 32) 1 \<noteq> 0"

definition WORD_BH :: "(nat \<Rightarrow> u32) \<Rightarrow> nat \<Rightarrow> u32" where
  "WORD_BH bh zz = bh (zz div 32)"

definition UNALIGNED_BH :: "nat \<Rightarrow> bool" where
  "UNALIGNED_BH zz \<longleftrightarrow> zz mod 32 \<noteq> 0"

text \<open>\<open>while (P k) k += d\<close>\<close>

partial_function (option) skip :: "(nat \<Rightarrow> bool) \<Rightarrow> nat \<Rightarrow> nat \<Rightarrow> nat option" where
  "skip P d k = (if P k then skip P d (k + d) else Some k)"

text \<open>The end of a run of set bits, and of a run of cleared ones.\<close>

definition skip_set :: "(nat \<Rightarrow> u32) \<Rightarrow> nat \<Rightarrow> nat option" where
  "skip_set bh k = do {
     k \<leftarrow> skip (\<lambda>k. ISSET_BH bh k \<and> UNALIGNED_BH k) 1 k;
     if ISSET_BH bh k then do { k \<leftarrow> skip (\<lambda>k. WORD_BH bh k = 0xffffffff) 32 k; skip (ISSET_BH bh) 1 k } else Some k }"

definition skip_clear :: "(nat \<Rightarrow> u32) \<Rightarrow> nat \<Rightarrow> nat option" where
  "skip_clear bh k = do {
     k \<leftarrow> skip (\<lambda>k. \<not> ISSET_BH bh k \<and> UNALIGNED_BH k) 1 k;
     if \<not> ISSET_BH bh k then do { k \<leftarrow> skip (\<lambda>k. WORD_BH bh k = 0) 32 k; skip (\<lambda>k. \<not> ISSET_BH bh k) 1 k } else Some k }"

section \<open>The sort by doubling\<close>

definition bucket_counts :: "(nat \<Rightarrow> u8) \<Rightarrow> nat \<Rightarrow> nat \<Rightarrow> int" where
  "bucket_counts eclass8 n =
     fold (\<lambda>i f. f(unat (eclass8 i) := f (unat (eclass8 i)) + 1)) [0..<n] (fold (\<lambda>i f. f(i := 0)) [0..<257] (\<lambda>_. 0))"

definition bucket_ends :: "(nat \<Rightarrow> int) \<Rightarrow> nat \<Rightarrow> int" where
  "bucket_ends ftab = fold (\<lambda>i f. f(i := f i + f (i - 1))) [1..<257] ftab"

text \<open>The rotations are put into the buckets of their first bytes.\<close>

definition bucket_sort :: "(nat \<Rightarrow> u8) \<Rightarrow> nat \<Rightarrow> (nat \<Rightarrow> int) \<times> (nat \<Rightarrow> nat) \<Rightarrow> (nat \<Rightarrow> int) \<times> (nat \<Rightarrow> nat)" where
  "bucket_sort eclass8 n a =
     fold (\<lambda>i (ftab, fmap). let j = unat (eclass8 i); k = ftab j - 1 in (ftab(j := k), fmap(nat k := i))) [0..<n] a"

definition init_bhtab :: "nat \<Rightarrow> (nat \<Rightarrow> int) \<Rightarrow> (nat \<Rightarrow> u32) \<Rightarrow> (nat \<Rightarrow> u32)" where
  "init_bhtab n ftab bh =
     (let bh = fold (\<lambda>i bh. bh(i := 0)) [0..<2 + n div 32] bh;
          bh = fold (\<lambda>i bh. SET_BH (nat (ftab i)) bh) [0..<256] bh
      in fold (\<lambda>i bh. CLEAR_BH (n + 2 * i + 1) (SET_BH (n + 2 * i) bh)) [0..<32] bh)"

text \<open>The class of a rotation is the start of the bucket of the rotation \<open>H\<close> places behind it.\<close>

definition set_classes :: "nat \<Rightarrow> nat \<Rightarrow> (nat \<Rightarrow> u32) \<Rightarrow> (nat \<Rightarrow> nat) \<Rightarrow> (nat \<Rightarrow> nat) \<Rightarrow> (nat \<Rightarrow> nat)" where
  "set_classes n H bh fmap eclass =
     snd (fold (\<lambda>i (j, eclass).
                  let j = (if ISSET_BH bh i then i else j); k = int (fmap i) - int H; k = (if k < 0 then k + int n else k)
                  in (j, eclass(nat k := j))) [0..<n] (0, eclass))"

text \<open>A new bucket starts where the class changes. \<open>cc\<close> is -1 at first.\<close>

definition mark_classes :: "(nat \<Rightarrow> nat) \<Rightarrow> (nat \<Rightarrow> nat) \<Rightarrow> int \<Rightarrow> int \<Rightarrow> (nat \<Rightarrow> u32) \<Rightarrow> (nat \<Rightarrow> u32)" where
  "mark_classes eclass fmap l r bh =
     snd (fold (\<lambda>i (cc, bh). let cc1 = int (eclass (fmap (nat i))) in if cc \<noteq> cc1 then (cc1, SET_BH (nat i) bh) else (cc, bh))
            [l..r] (-1, bh))"

type_synonym sort_state = "(nat \<Rightarrow> nat) \<times> (nat \<Rightarrow> u32) \<times> nat \<times> int option"

text \<open>
  One round of the loop over the buckets, on \<open>fmap\<close>, \<open>bhtab\<close>, \<open>nNotDone\<close> and the failed assertion: it is left
  (\<open>Inl\<close>) or goes on behind \<open>r\<close> (\<open>Inr\<close>).
\<close>

definition bucket_step :: "nat \<Rightarrow> (nat \<Rightarrow> nat) \<Rightarrow> int \<Rightarrow> sort_state \<Rightarrow> (sort_state + int \<times> sort_state) option" where
  "bucket_step n eclass r a = (case a of (fmap, bh, nNotDone, failed) \<Rightarrow> do {
     k \<leftarrow> skip_set bh (nat (r + 1));
     let l = int k - 1;
     if l \<ge> int n then Some (Inl a)
     else do {
       k \<leftarrow> skip_clear bh k;
       let r = int k - 1;
       if r \<ge> int n then Some (Inl a)
       else if r > l then do {
         (fmap, failed) \<leftarrow> fallbackQSort3 eclass l r (fmap, failed);
         Some (Inr (r, fmap, mark_classes eclass fmap l r bh, nNotDone + nat (r - l + 1), failed))
       } else Some (Inr (r, a))
     }
   })"

partial_function (option) bucket_loop :: "nat \<Rightarrow> (nat \<Rightarrow> nat) \<Rightarrow> int \<Rightarrow> sort_state \<Rightarrow> sort_state option" where
  "bucket_loop n eclass r a =
     (case bucket_step n eclass r a of
        None \<Rightarrow> None
      | Some x \<Rightarrow> (case x of Inl a \<Rightarrow> Some a | Inr y \<Rightarrow> (case y of (r, a) \<Rightarrow> bucket_loop n eclass r a)))"

partial_function (option) depth_loop ::
  "nat \<Rightarrow> nat \<Rightarrow> (nat \<Rightarrow> nat) \<Rightarrow> (nat \<Rightarrow> nat) \<Rightarrow> (nat \<Rightarrow> u32) \<Rightarrow> int option \<Rightarrow>
     ((nat \<Rightarrow> nat) \<times> (nat \<Rightarrow> nat) \<times> (nat \<Rightarrow> u32) \<times> int option) option" where
  "depth_loop n H fmap eclass bh failed =
     (let eclass = set_classes n H bh fmap eclass
      in case bucket_loop n eclass (-1) (fmap, bh, 0, failed) of
           None \<Rightarrow> None
         | Some a \<Rightarrow> (case a of (fmap, bh, nNotDone, failed) \<Rightarrow>
             if H * 2 > n \<or> nNotDone = 0 then Some (fmap, eclass, bh, failed) else depth_loop n (H * 2) fmap eclass bh failed))"

text \<open>\<open>eclass8\<close> is the same memory as \<open>eclass\<close>: the bytes of the block, read as words, and the words, read as bytes.\<close>

definition words_of :: "(nat \<Rightarrow> u8) \<Rightarrow> (nat \<Rightarrow> nat)" where
  "words_of b i = unat (b (4 * i)) + 256 * unat (b (4 * i + 1)) + 65536 * unat (b (4 * i + 2)) + 16777216 * unat (b (4 * i + 3))"

definition bytes_of :: "(nat \<Rightarrow> nat) \<Rightarrow> (nat \<Rightarrow> u8)" where
  "bytes_of w i = word_of_nat (w (i div 4) div 256 ^ (i mod 4))"

fun rebuild_loop :: "nat list \<Rightarrow> (nat \<Rightarrow> nat) \<Rightarrow> (nat \<Rightarrow> int) \<Rightarrow> nat \<Rightarrow> (nat \<Rightarrow> u8) \<Rightarrow> (nat \<times> (nat \<Rightarrow> u8)) option" where
  "rebuild_loop [] fmap ftabCopy j eclass8 = Some (j, eclass8)"
| "rebuild_loop (i # is) fmap ftabCopy j eclass8 =
     (case skip (\<lambda>j. ftabCopy j = 0) 1 j of
        None \<Rightarrow> None
      | Some j \<Rightarrow> rebuild_loop is fmap (ftabCopy(j := ftabCopy j - 1)) j (eclass8(fmap i := word_of_nat j)))"

definition fallbackSort ::
  "nat \<Rightarrow> (nat \<Rightarrow> nat) \<Rightarrow> (nat \<Rightarrow> u8) \<Rightarrow> (nat \<Rightarrow> u32) \<Rightarrow> int option \<Rightarrow>
     ((nat \<Rightarrow> nat) \<times> (nat \<Rightarrow> u8) \<times> (nat \<Rightarrow> u32) \<times> int option) option" where
  "fallbackSort n fmap eclass8 bhtab failed = do {
     let ftabCopy = bucket_counts eclass8 n;
     let (ftab, fmap) = bucket_sort eclass8 n (bucket_ends ftabCopy, fmap);
     let bh = init_bhtab n ftab bhtab;
     (fmap, eclass, bh, failed) \<leftarrow> depth_loop n 1 fmap (words_of eclass8) bh failed;
     (j, eclass8) \<leftarrow> rebuild_loop [0..<n] fmap ftabCopy 0 (bytes_of eclass);
     Some (fmap, eclass8, bh, AssertH (j < 256) 1005 failed)
   }"

section \<open>Suffix sorting of the doubled block\<close>

definition sais_bwt :: "host \<Rightarrow> estate \<Rightarrow> estate" where
  "sais_bwt h s =
     (let n = nblock s; dlen = 2 * n
      in if \<not> malloc_ok h dlen \<or> \<not> malloc_ok h (dlen * 4) then s
         else case libsais h (block_list s @ block_list s) of
           None \<Rightarrow> s
         | Some SA \<Rightarrow>
             (case fold (\<lambda>i (j, orig, s). if SA ! i < n
                           then (j + 1, if SA ! i = 0 then int j else orig, set_ptr j (SA ! i) s) else (j, orig, s))
                     [0..<dlen] (0, -1, s) of
                (_, orig, s) \<Rightarrow> s\<lparr>eorigPtr := orig\<rparr>))"

definition BZ2_blockSort :: "host \<Rightarrow> estate \<times> int option \<Rightarrow> (estate \<times> int option) option" where
  "BZ2_blockSort h a = (case a of (s, failed) \<Rightarrow>
     if nblock s < 10000 then do {
       (fmap, blk, bh, failed) \<leftarrow> fallbackSort (nblock s) (ptr s) (block s) (eftab s) failed;
       let s = (set_ptrs fmap s)\<lparr>block := blk, eftab := bh\<rparr>;
       let s = s\<lparr>eorigPtr := (case filter (\<lambda>i. ptr s i = 0) [0..<nblock s] of [] \<Rightarrow> -1 | i # _ \<Rightarrow> int i)\<rparr>;
       Some (s, AssertH (eorigPtr s \<noteq> -1) 1003 failed)
     } else
       let s = sais_bwt h s in Some (s, AssertH (eorigPtr s \<noteq> -1) 1003 failed))"

declare qsort3_loop.simps [code] skip.simps [code] bucket_loop.simps [code] depth_loop.simps [code]

end
