(* ===== verification/QSort3.thy ===== *)
theory QSort3
  imports BlockSort "HOL-Library.Multiset"
begin

text \<open>
  The two sorting routines below the sort by doubling are total and correct: \<open>fallbackSimpleSort\<close> and
  \<open>fallbackQSort3\<close> put a range of \<open>fmap\<close> in order of its classes, by rearranging that range only; the stack of
  the quicksort stays below its bound, because the smaller part is always sorted first.
\<close>

section \<open>Rearranging a range\<close>

definition places :: "int \<Rightarrow> int \<Rightarrow> nat set" where
  "places lo hi = {k. lo \<le> int k \<and> int k \<le> hi}"

lemma finite_places [simp]: "finite (places lo hi)"
proof (rule finite_subset)
  show "places lo hi \<subseteq> {..nat hi}" by (auto simp: places_def)
qed simp

definition rearr :: "int \<Rightarrow> int \<Rightarrow> (nat \<Rightarrow> nat) \<Rightarrow> (nat \<Rightarrow> nat) \<Rightarrow> bool" where
  "rearr lo hi f g \<longleftrightarrow> (\<forall>k. k \<notin> places lo hi \<longrightarrow> g k = f k) \<and> image_mset g (mset_set (places lo hi)) = image_mset f (mset_set (places lo hi))"

lemma rearr_refl [simp]: "rearr lo hi f f"
  by (simp add: rearr_def)

lemma rearr_trans: "rearr lo hi f g \<Longrightarrow> rearr lo hi g h \<Longrightarrow> rearr lo hi f h"
  by (simp add: rearr_def)

lemma rearr_image: "rearr lo hi f g \<Longrightarrow> g ` places lo hi = f ` places lo hi"
  unfolding rearr_def by (metis finite_places finite_set_mset_mset_set set_image_mset)

lemma rearr_mem: "rearr lo hi f g \<Longrightarrow> k \<in> places lo hi \<Longrightarrow> \<exists>j \<in> places lo hi. g k = f j"
  using rearr_image by blast

lemma rearr_sub:
  assumes R: "rearr l h f g" and s: "lo \<le> l" "h \<le> hi"
  shows "rearr lo hi f g"
proof -
  have sub: "places l h \<subseteq> places lo hi" using s by (auto simp: places_def)
  have e: "mset_set (places lo hi) = mset_set (places l h) + mset_set (places lo hi - places l h)"
    using sub by (metis Diff_partition Diff_disjoint finite_Diff finite_places mset_set_Union)
  have "image_mset g (mset_set (places lo hi - places l h)) = image_mset f (mset_set (places lo hi - places l h))"
    using R by (intro image_mset_cong) (auto simp: rearr_def)
  then show ?thesis using R sub unfolding rearr_def e by auto
qed

lemma rearr_fswap:
  assumes "nat a \<in> places lo hi" "nat b \<in> places lo hi"
  shows "rearr lo hi f (fswap a b f)"
proof -
  let ?R = "places lo hi" and ?a = "nat a" and ?b = "nat b"
  have "image_mset (fswap a b f) (mset_set ?R) = image_mset f (mset_set ?R)"
  proof (cases "?a = ?b")
    case True
    then show ?thesis by (simp add: fswap_def)
  next
    case False
    let ?S = "?R - {?a} - {?b}"
    have e: "mset_set ?R = {#?a, ?b#} + mset_set ?S"
      using assms False by (simp add: mset_set.remove [of ?R ?a] mset_set.remove [of "?R - {?a}" ?b])
    have "image_mset (fswap a b f) (mset_set ?S) = image_mset f (mset_set ?S)"
      by (rule image_mset_cong) (auto simp: fswap_def)
    then show ?thesis using False by (simp add: e fswap_def add_mset_commute)
  qed
  then show ?thesis using assms by (auto simp: rearr_def fswap_def)
qed

definition sorted_on :: "(nat \<Rightarrow> nat) \<Rightarrow> int \<Rightarrow> int \<Rightarrow> (nat \<Rightarrow> nat) \<Rightarrow> bool" where
  "sorted_on eclass lo hi f \<longleftrightarrow> (\<forall>a b. lo \<le> int a \<and> a \<le> b \<and> int b \<le> hi \<longrightarrow> eclass (f a) \<le> eclass (f b))"

lemma sorted_on_single: "hi \<le> lo \<Longrightarrow> sorted_on eclass lo hi f"
  unfolding sorted_on_def
proof (intro allI impI, elim conjE)
  fix a b :: nat assume "hi \<le> lo" "lo \<le> int a" "a \<le> b" "int b \<le> hi"
  then have "a = b" by linarith
  then show "eclass (f a) \<le> eclass (f b)" by simp
qed

section \<open>Insertion sort\<close>

lemma shift_loop_rearr:
  "\<lbrakk> 0 \<le> lo; lo \<le> j - int (h + 1); j - int (h + 1) \<le> hi; shift_loop h eclass hi e j f = (j', f') \<rbrakk> \<Longrightarrow>
   j \<le> j' \<and> j' - int (h + 1) \<le> hi \<and> rearr lo hi (f(nat (j - int (h + 1)) := tmp)) (f'(nat (j' - int (h + 1)) := tmp))"
proof (induction h eclass hi e j f arbitrary: f' rule: shift_loop.induct)
  case (1 h eclass hi e j f)
  show ?case
  proof (cases "j \<le> hi \<and> e > eclass (f (nat j))")
    case False
    then have "j' = j \<and> f' = f" using 1(5) by (subst (asm) shift_loop.simps) (auto split: if_splits)
    then show ?thesis using 1 by simp
  next
    case True
    let ?d = "int (h + 1)"
    let ?f = "f(nat (j - ?d) := f (nat j))"
    have s: "shift_loop h eclass hi e (j + ?d) ?f = (j', f')" using 1(5) True by (subst (asm) shift_loop.simps) simp
    have IH: "j + ?d \<le> j' \<and> j' - ?d \<le> hi \<and> rearr lo hi (?f(nat (j + ?d - ?d) := tmp)) (f'(nat (j' - ?d) := tmp))"
      by (rule 1(1) [OF True 1(2) _ _ s]) (use 1(2-4) True in simp_all)
    have ne: "nat (j - ?d) \<noteq> nat j" using 1(2,3) by simp
    have "?f(nat (j + ?d - ?d) := tmp) = fswap (j - ?d) j (f(nat (j - ?d) := tmp))"
      using ne by (auto simp: fswap_def fun_eq_iff)
    moreover have "nat (j - ?d) \<in> places lo hi" "nat j \<in> places lo hi" using 1(2-4) True by (auto simp: places_def)
    ultimately have R: "rearr lo hi (f(nat (j - ?d) := tmp)) (?f(nat (j + ?d - ?d) := tmp))" using rearr_fswap by metis
    have "rearr lo hi (f(nat (j - ?d) := tmp)) (f'(nat (j' - ?d) := tmp))" by (rule rearr_trans [OF R]) (use IH in blast)
    moreover have "j \<le> j'" using IH by simp
    ultimately show ?thesis using IH by blast
  qed
qed

lemma simple_step_rearr:
  assumes "0 \<le> lo" "lo \<le> i" "i \<le> hi"
  shows "rearr lo hi f (simple_step h eclass hi i f)"
proof -
  obtain j' f' where s: "shift_loop h eclass hi (eclass (f (nat i))) (i + int (h + 1)) f = (j', f')" by fastforce
  have "f(nat i := f (nat i)) = f" by simp
  then show ?thesis
    using shift_loop_rearr [OF assms(1) _ _ s, of "f (nat i)"] assms s by (simp add: simple_step_def Let_def)
qed

lemma fold_rearr: "(\<And>i g. i \<in> set is \<Longrightarrow> rearr lo hi g (F i g)) \<Longrightarrow> rearr lo hi f (fold F is f)"
proof (induction "is" arbitrary: f)
  case (Cons i "is")
  have "rearr lo hi f (F i f)" using Cons.prems by simp
  moreover have "rearr lo hi (F i f) (fold F is (F i f))" using Cons by simp
  ultimately show ?case using rearr_trans by simp
qed simp

text \<open>A step with \<open>d = 1\<close> inserts an element into a sorted range.\<close>

lemma shift1_sorted:
  assumes "0 \<le> i" and g: "g = (\<lambda>k. if i \<le> int k \<and> int k < j - 1 then f (k + 1) else f k)"
    and "i + 1 \<le> j" "j \<le> hi + 1" "\<And>k. i < int k \<Longrightarrow> int k < j \<Longrightarrow> eclass (f k) \<le> e"
    and "shift_loop 0 eclass hi e j g = (j', g')"
  shows "j \<le> j' \<and> j' \<le> hi + 1 \<and> g' = (\<lambda>k. if i \<le> int k \<and> int k < j' - 1 then f (k + 1) else f k) \<and>
    (\<forall>k. i < int k \<longrightarrow> int k < j' \<longrightarrow> eclass (f k) \<le> e) \<and> (j' \<le> hi \<longrightarrow> e \<le> eclass (f (nat j')))"
  using assms
proof (induction "nat (hi + 1 - j)" arbitrary: j g rule: less_induct)
  case less
  have gj: "g (nat j) = f (nat j)" using less.prems(1,2,3) by simp
  show ?case
  proof (cases "j \<le> hi \<and> e > eclass (f (nat j))")
    case False
    then have "j' = j \<and> g' = g" using less.prems(6) gj by (subst (asm) shift_loop.simps) (auto split: if_splits)
    then show ?thesis using less.prems False by auto
  next
    case True
    have s: "shift_loop 0 eclass hi e (j + 1) (g(nat (j - 1) := f (nat j))) = (j', g')"
      using less.prems(6) True gj by (subst (asm) shift_loop.simps) simp
    have "g(nat (j - 1) := f (nat j)) = (\<lambda>k. if i \<le> int k \<and> int k < j + 1 - 1 then f (k + 1) else f k)"
    proof
      fix k
      have "nat j = nat (j - 1) + 1" using less.prems(1,3) by simp
      then show "(g(nat (j - 1) := f (nat j))) k = (if i \<le> int k \<and> int k < j + 1 - 1 then f (k + 1) else f k)"
        using less.prems(1,3) by (auto simp: less.prems(2))
    qed
    moreover have "eclass (f k) \<le> e" if "i < int k" "int k < j + 1" for k
    proof (cases "int k = j")
      case False
      then show ?thesis using less.prems(5) that by simp
    qed (use True in auto)
    ultimately show ?thesis using less.hyps [OF _ less.prems(1) _ _ _ _ s] less.prems(3) True by force
  qed
qed

lemma simple_step_sorted:
  assumes "0 \<le> i" "i \<le> hi" "sorted_on eclass (i + 1) hi f"
  shows "sorted_on eclass i hi (simple_step 0 eclass hi i f)"
proof -
  let ?e = "eclass (f (nat i))"
  obtain j' g' where s: "shift_loop 0 eclass hi ?e (i + 1) f = (j', g')" by fastforce
  have f: "f = (\<lambda>k. if i \<le> int k \<and> int k < i + 1 - 1 then f (k + 1) else f k)" by auto
  have r: "i + 1 \<le> j' \<and> j' \<le> hi + 1 \<and> g' = (\<lambda>k. if i \<le> int k \<and> int k < j' - 1 then f (k + 1) else f k) \<and>
    (\<forall>k. i < int k \<longrightarrow> int k < j' \<longrightarrow> eclass (f k) \<le> ?e) \<and> (j' \<le> hi \<longrightarrow> ?e \<le> eclass (f (nat j')))"
    by (rule shift1_sorted [OF assms(1) f _ _ _ s]) (use assms in auto)
  have st: "simple_step 0 eclass hi i f = g'(nat (j' - 1) := f (nat i))" using s by (simp add: simple_step_def Let_def)
  have so: "eclass (f a) \<le> eclass (f b)" if "i + 1 \<le> int a" "a \<le> b" "int b \<le> hi" for a b
    using assms(3) that by (auto simp: sorted_on_def)
  have up: "?e \<le> eclass (f b)" if "j' \<le> int b" "int b \<le> hi" for b
  proof -
    have "?e \<le> eclass (f (nat j'))" using r that by simp
    moreover have "i + 1 \<le> int (nat j')" "nat j' \<le> b" using r assms(1) that by linarith+
    then have "eclass (f (nat j')) \<le> eclass (f b)" using so that by blast
    ultimately show ?thesis by (rule order_trans)
  qed
  define G where "G = g'(nat (j' - 1) := f (nat i))"
  have v: "G k = (if int k = j' - 1 then f (nat i) else if i \<le> int k \<and> int k < j' - 1 then f (k + 1) else f k)" for k
    using r assms(1) by (auto simp: G_def)
  show ?thesis unfolding st G_def [symmetric] sorted_on_def
  proof (intro allI impI, elim conjE)
    fix a b assume ab: "i \<le> int a" "a \<le> b" "int b \<le> hi"
    consider "int b < j' - 1" | "int b = j' - 1" | "int b > j' - 1" "int a < j' - 1" | "int b > j' - 1" "int a = j' - 1"
      | "int b > j' - 1" "int a > j' - 1" by linarith
    then show "eclass (G a) \<le> eclass (G b)"
    proof cases
      case 1
      then show ?thesis using so [of "a + 1" "b + 1"] ab r by (simp add: v)
    next
      case 2
      then show ?thesis using r ab by (auto simp: v)
    next
      case 3
      then show ?thesis using so [of "a + 1" b] ab by (simp add: v)
    next
      case 4
      then show ?thesis using up ab by (simp add: v)
    next
      case 5
      then show ?thesis using so [of a b] ab r by (simp add: v)
    qed
  qed
qed

lemma fold_simple_sorted:
  "0 \<le> lo \<Longrightarrow> lo \<le> hi \<Longrightarrow> sorted_on eclass lo hi (fold (simple_step 0 eclass hi) (rev [lo..hi - 1]) f)"
proof (induction "nat (hi - lo)" arbitrary: lo f)
  case 0
  then show ?case by (simp add: sorted_on_single)
next
  case (Suc n)
  have "[lo..hi - 1] = lo # [lo + 1..hi - 1]" using Suc.hyps(2) by (simp add: upto_rec1)
  moreover have "sorted_on eclass (lo + 1) hi (fold (simple_step 0 eclass hi) (rev [lo + 1..hi - 1]) f)"
    using Suc.hyps(1) [of "lo + 1" f] Suc.hyps(2) Suc.prems by simp
  ultimately show ?case using simple_step_sorted Suc.prems by simp
qed

lemma fallbackSimpleSort_ok:
  assumes "0 \<le> lo"
  shows "rearr lo hi f (fallbackSimpleSort eclass lo hi f)" "sorted_on eclass lo hi (fallbackSimpleSort eclass lo hi f)"
proof -
  have r: "rearr lo hi f (fold (simple_step h eclass hi) (rev [lo..hi - m]) f)" if "0 \<le> m" for h m f
    by (rule fold_rearr) (use simple_step_rearr assms that in auto)
  show "rearr lo hi f (fallbackSimpleSort eclass lo hi f)"
  proof -
    have "rearr lo hi f (if hi - lo > 3 then fold (simple_step 3 eclass hi) (rev [lo..hi - 4]) f else f)"
      using r [where m = 4 and h = 3] by simp
    from rearr_trans [OF this r [where m = 1 and h = 0]] show ?thesis by (simp add: fallbackSimpleSort_def Let_def)
  qed
  show "sorted_on eclass lo hi (fallbackSimpleSort eclass lo hi f)"
  proof (cases "lo < hi")
    case True
    then show ?thesis unfolding fallbackSimpleSort_def Let_def using fold_simple_sorted assms by simp
  next
    case False
    then show ?thesis by (simp add: sorted_on_single)
  qed
qed

section \<open>Partitioning\<close>

lemma fswap_int:
  "0 \<le> a \<Longrightarrow> 0 \<le> b \<Longrightarrow> fswap a b f k = (if int k = b then f (nat a) else if int k = a then f (nat b) else f k)"
  by (auto simp: fswap_def)

text \<open>Equal, smaller, unknown, greater, equal.\<close>

definition part_inv ::
  "(nat \<Rightarrow> nat) \<Rightarrow> nat \<Rightarrow> int \<Rightarrow> int \<Rightarrow> int \<Rightarrow> int \<Rightarrow> int \<Rightarrow> int \<Rightarrow> (nat \<Rightarrow> nat) \<Rightarrow> bool" where
  "part_inv eclass med lo hi unLo unHi ltLo gtHi f \<longleftrightarrow>
     0 \<le> lo \<and> lo \<le> ltLo \<and> ltLo \<le> unLo \<and> unLo \<le> unHi + 1 \<and> unHi \<le> gtHi \<and> gtHi \<le> hi \<and>
     (\<forall>k. lo \<le> int k \<longrightarrow> int k < ltLo \<longrightarrow> eclass (f k) = med) \<and>
     (\<forall>k. ltLo \<le> int k \<longrightarrow> int k < unLo \<longrightarrow> eclass (f k) < med) \<and>
     (\<forall>k. unHi < int k \<longrightarrow> int k \<le> gtHi \<longrightarrow> med < eclass (f k)) \<and>
     (\<forall>k. gtHi < int k \<longrightarrow> int k \<le> hi \<longrightarrow> eclass (f k) = med)"

lemma int_all_nat: "0 \<le> a \<Longrightarrow> (\<forall>k. a \<le> int k \<longrightarrow> P k) \<Longrightarrow> P (nat a)"
  by auto

lemma scan_lo_inv:
  "\<lbrakk> part_inv eclass med lo hi unLo unHi ltLo gtHi f; scan_lo eclass med unHi (unLo, ltLo, f) = (unLo', ltLo', f') \<rbrakk> \<Longrightarrow>
   part_inv eclass med lo hi unLo' unHi ltLo' gtHi f' \<and> rearr lo hi f f' \<and>
   (unLo' \<le> unHi \<longrightarrow> med < eclass (f' (nat unLo')))"
proof (induction eclass med unHi "(unLo, ltLo, f)" arbitrary: unLo ltLo f rule: scan_lo.induct)
  case (1 eclass med unHi unLo ltLo f)
  note I = 1(3)[unfolded part_inv_def]
  have z: "0 \<le> unLo" "0 \<le> ltLo" using I by linarith+
  let ?n = "int (eclass (f (nat unLo))) - int med"
  consider "unLo > unHi" | "unLo \<le> unHi" "?n = 0" | "unLo \<le> unHi" "?n > 0" | "unLo \<le> unHi" "?n < 0" by linarith
  then show ?case
  proof cases
    case 1
    then show ?thesis using \<open>part_inv _ _ _ _ _ _ _ _ _\<close> \<open>scan_lo _ _ _ _ = _\<close> by (subst (asm) scan_lo.simps) simp
  next
    case 3
    then show ?thesis using \<open>part_inv _ _ _ _ _ _ _ _ _\<close> \<open>scan_lo _ _ _ _ = _\<close> by (subst (asm) scan_lo.simps) (simp add: Let_def)
  next
    case 2
    have u: "eclass (f (nat unLo)) = med" using 2 by simp
    let ?g = "fswap unLo ltLo f"
    have s: "scan_lo eclass med unHi (unLo + 1, ltLo + 1, ?g) = (unLo', ltLo', f')"
      using \<open>scan_lo _ _ _ _ = _\<close> 2 by (subst (asm) scan_lo.simps) (simp add: Let_def)
    have lt: "eclass (f (nat ltLo)) < med" if "ltLo < unLo" using I that z by simp
    have P: "part_inv eclass med lo hi (unLo + 1) unHi (ltLo + 1) gtHi ?g"
      unfolding part_inv_def using I 2 u lt z by (auto simp: fswap_int)
    have R: "rearr lo hi f ?g" by (rule rearr_fswap) (use I 2 z in \<open>auto simp: places_def\<close>)
    show ?thesis using 1(1) [OF _ refl _ P s] 2 rearr_trans [OF R] by auto
  next
    case 4
    have s: "scan_lo eclass med unHi (unLo + 1, ltLo, f) = (unLo', ltLo', f')"
      using \<open>scan_lo _ _ _ _ = _\<close> 4 by (subst (asm) scan_lo.simps) (simp add: Let_def)
    have P: "part_inv eclass med lo hi (unLo + 1) unHi ltLo gtHi f"
    proof -
      have "eclass (f k) < med" if "ltLo \<le> int k" "int k < unLo + 1" for k
      proof (cases "int k = unLo")
        case True
        then have "k = nat unLo" by simp
        then show ?thesis using 4 by simp
      qed (use I that in auto)
      then show ?thesis unfolding part_inv_def using I 4 by auto
    qed
    show ?thesis using 1(2) [OF _ refl _ _ P s] 4 by auto
  qed
qed

lemma scan_hi_inv:
  "\<lbrakk> part_inv eclass med lo hi unLo unHi ltLo gtHi f; scan_hi eclass med unLo (unHi, gtHi, f) = (unHi', gtHi', f') \<rbrakk> \<Longrightarrow>
   part_inv eclass med lo hi unLo unHi' ltLo gtHi' f' \<and> rearr lo hi f f' \<and> (\<forall>k. int k \<le> unHi' \<longrightarrow> f' k = f k) \<and> unHi' \<le> unHi \<and>
   (unLo \<le> unHi' \<longrightarrow> eclass (f' (nat unHi')) < med)"
proof (induction eclass med unLo "(unHi, gtHi, f)" arbitrary: unHi gtHi f rule: scan_hi.induct)
  case (1 eclass med unLo unHi gtHi f)
  note I = 1(3)[unfolded part_inv_def]
  have z: "0 \<le> unLo" using I by linarith
  let ?n = "int (eclass (f (nat unHi))) - int med"
  consider "unLo > unHi" | "unLo \<le> unHi" "?n = 0" | "unLo \<le> unHi" "?n < 0" | "unLo \<le> unHi" "?n > 0" by linarith
  then show ?case
  proof cases
    case 1
    then show ?thesis using \<open>part_inv _ _ _ _ _ _ _ _ _\<close> \<open>scan_hi _ _ _ _ = _\<close> by (subst (asm) scan_hi.simps) simp
  next
    case 3
    then show ?thesis using \<open>part_inv _ _ _ _ _ _ _ _ _\<close> \<open>scan_hi _ _ _ _ = _\<close> by (subst (asm) scan_hi.simps) (simp add: Let_def)
  next
    case 2
    have zz: "0 \<le> unHi" "0 \<le> gtHi" using I z 2 by linarith+
    have u: "eclass (f (nat unHi)) = med" using 2 by simp
    let ?g = "fswap unHi gtHi f"
    have s: "scan_hi eclass med unLo (unHi - 1, gtHi - 1, ?g) = (unHi', gtHi', f')"
      using \<open>scan_hi _ _ _ _ = _\<close> 2 by (subst (asm) scan_hi.simps) (simp add: Let_def)
    have gt: "med < eclass (f (nat gtHi))" if "unHi < gtHi" using I that zz by simp
    have P: "part_inv eclass med lo hi unLo (unHi - 1) ltLo (gtHi - 1) ?g"
      unfolding part_inv_def using I 2 u gt zz by (auto simp: fswap_int)
    have R: "rearr lo hi f ?g" by (rule rearr_fswap) (use I 2 z zz in \<open>auto simp: places_def\<close>)
    have IH: "part_inv eclass med lo hi unLo unHi' ltLo gtHi' f' \<and> rearr lo hi ?g f' \<and> (\<forall>k. int k \<le> unHi' \<longrightarrow> f' k = ?g k) \<and>
        unHi' \<le> unHi - 1 \<and> (unLo \<le> unHi' \<longrightarrow> eclass (f' (nat unHi')) < med)"
      using 1(1) [OF _ refl _ P s] 2 by auto
    moreover have "?g k = f k" if "int k \<le> unHi'" for k
    proof -
      have "int k < unHi" "int k < gtHi" using IH I that by linarith+
      then show ?thesis using zz by (simp add: fswap_int)
    qed
    ultimately show ?thesis using rearr_trans [OF R] by auto
  next
    case 4
    have s: "scan_hi eclass med unLo (unHi - 1, gtHi, f) = (unHi', gtHi', f')"
      using \<open>scan_hi _ _ _ _ = _\<close> 4 by (subst (asm) scan_hi.simps) (simp add: Let_def)
    have P: "part_inv eclass med lo hi unLo (unHi - 1) ltLo gtHi f"
    proof -
      have "med < eclass (f k)" if "unHi - 1 < int k" "int k \<le> gtHi" for k
      proof (cases "int k = unHi")
        case True
        then have "k = nat unHi" by simp
        then show ?thesis using 4 by simp
      qed (use I that in auto)
      then show ?thesis unfolding part_inv_def using I 4 by auto
    qed
    show ?thesis using 1(2) [OF _ refl _ _ P s] 4 by auto
  qed
qed

lemma partition_loop_inv:
  "\<lbrakk> part_inv eclass med lo hi unLo unHi ltLo gtHi f;
     partition_loop eclass med (unLo, unHi, ltLo, gtHi, f) = (unLo', unHi', ltLo', gtHi', f') \<rbrakk> \<Longrightarrow>
   part_inv eclass med lo hi unLo' unHi' ltLo' gtHi' f' \<and> rearr lo hi f f' \<and> unHi' = unLo' - 1"
proof (induction eclass med "(unLo, unHi, ltLo, gtHi, f)" arbitrary: unLo unHi ltLo gtHi f rule: partition_loop.induct)
  case (1 eclass med unLo unHi ltLo gtHi f)
  obtain u l f1 where a: "scan_lo eclass med unHi (unLo, ltLo, f) = (u, l, f1)" by (cases "scan_lo eclass med unHi (unLo, ltLo, f)")
  obtain v g f2 where b: "scan_hi eclass med u (unHi, gtHi, f1) = (v, g, f2)" by (cases "scan_hi eclass med u (unHi, gtHi, f1)")
  note A = scan_lo_inv [OF 1(2) a]
  note B = scan_hi_inv [OF conjunct1 [OF A] b]
  have I: "part_inv eclass med lo hi u v l g f2" and R: "rearr lo hi f f2" using A B rearr_trans by blast+
  note I' = I[unfolded part_inv_def]
  show ?case
  proof (cases "u > v")
    case True
    then have "(unLo', unHi', ltLo', gtHi', f') = (u, v, l, g, f2)"
      using 1(3) a b by (subst (asm) partition_loop.simps) simp
    then show ?thesis using I R True I' by simp
  next
    case False
    have s: "partition_loop eclass med (u + 1, v - 1, l, g, fswap u v f2) = (unLo', unHi', ltLo', gtHi', f')"
      using 1(3) a b False by (subst (asm) partition_loop.simps) simp
    have z: "0 \<le> u" "0 \<le> v" using I' False by linarith+
    have "f2 (nat u) = f1 (nat u)" using B False z by simp
    then have uv: "med < eclass (f2 (nat u))" "eclass (f2 (nat v)) < med" using A B False by auto
    then have "u \<noteq> v" by auto
    then have P: "part_inv eclass med lo hi (u + 1) (v - 1) l g (fswap u v f2)"
      unfolding part_inv_def using I' uv z False by (auto simp: fswap_int)
    have "rearr lo hi f2 (fswap u v f2)" by (rule rearr_fswap) (use I' z False in \<open>auto simp: places_def\<close>)
    with R have "rearr lo hi f (fswap u v f2)" by (rule rearr_trans)
    moreover have "part_inv eclass med lo hi unLo' unHi' ltLo' gtHi' f' \<and> rearr lo hi (fswap u v f2) f' \<and> unHi' = unLo' - 1"
      using 1(1) [OF a [symmetric] refl b [symmetric] refl _ P s] False by blast
    ultimately show ?thesis using rearr_trans by blast
  qed
qed

lemma fvswap_Suc: "fvswap p1 p2 (int (Suc m)) f = fswap (p1 + int m) (p2 + int m) (fvswap p1 p2 (int m) f)"
  by (simp add: fvswap_def upto_rec2)

lemma fvswap_at:
  assumes "0 \<le> p1" "p1 + int m \<le> p2"
  shows "fvswap p1 p2 (int m) f k =
    (if p1 \<le> int k \<and> int k < p1 + int m then f (nat (int k + p2 - p1))
     else if p2 \<le> int k \<and> int k < p2 + int m then f (nat (int k + p1 - p2)) else f k)"
  using assms(2)
proof (induction m arbitrary: k)
  case (Suc m)
  have z: "0 \<le> p1 + int m" "0 \<le> p2 + int m" using assms(1) Suc.prems by linarith+
  have le: "p1 + int m \<le> p2" using Suc.prems by simp
  have a: "fvswap p1 p2 (int m) f (nat (p1 + int m)) = f (nat (p1 + int m))"
    "fvswap p1 p2 (int m) f (nat (p2 + int m)) = f (nat (p2 + int m))"
    using Suc.IH [OF le] z Suc.prems by auto
  consider "int k = p2 + int m" | "int k = p1 + int m" | "int k \<noteq> p2 + int m" "int k \<noteq> p1 + int m" by blast
  then show ?case
    unfolding fvswap_Suc fswap_int [OF z] a
  proof cases
    case 1
    then show "(if int k = p2 + int m then f (nat (p1 + int m)) else if int k = p1 + int m then f (nat (p2 + int m))
        else fvswap p1 p2 (int m) f k) = (if p1 \<le> int k \<and> int k < p1 + int (Suc m) then f (nat (int k + p2 - p1))
        else if p2 \<le> int k \<and> int k < p2 + int (Suc m) then f (nat (int k + p1 - p2)) else f k)"
      using Suc.prems by (auto simp: add.commute)
  next
    case 2
    then have "nat (int k + p2 - p1) = nat (p2 + int m)" by simp
    with 2 show "(if int k = p2 + int m then f (nat (p1 + int m)) else if int k = p1 + int m then f (nat (p2 + int m))
        else fvswap p1 p2 (int m) f k) = (if p1 \<le> int k \<and> int k < p1 + int (Suc m) then f (nat (int k + p2 - p1))
        else if p2 \<le> int k \<and> int k < p2 + int (Suc m) then f (nat (int k + p1 - p2)) else f k)" using Suc.prems by auto
  next
    case 3
    then show "(if int k = p2 + int m then f (nat (p1 + int m)) else if int k = p1 + int m then f (nat (p2 + int m))
        else fvswap p1 p2 (int m) f k) = (if p1 \<le> int k \<and> int k < p1 + int (Suc m) then f (nat (int k + p2 - p1))
        else if p2 \<le> int k \<and> int k < p2 + int (Suc m) then f (nat (int k + p1 - p2)) else f k)"
      using Suc.IH [OF le, of k] Suc.prems by (simp split: if_splits)
  qed
qed (simp add: fvswap_def)

lemma fvswap_rearr:
  assumes "0 \<le> p1" "p1 + n \<le> p2" "lo \<le> p1" "p2 + n - 1 \<le> hi"
  shows "rearr lo hi f (fvswap p1 p2 n f)"
  unfolding fvswap_def
  by (rule fold_rearr, rule rearr_fswap) (use assms in \<open>auto simp: places_def\<close>)

text \<open>The equal elements are moved from both ends to the middle.\<close>

lemma moved_left:
  assumes P: "part_inv eclass med lo hi unLo unHi ltLo gtHi f" and n: "n = min (ltLo - lo) (unLo - ltLo)"
  shows "rearr lo (unLo - 1) f (fvswap lo (unLo - n) n f)"
    "\<forall>k. lo \<le> int k \<longrightarrow> int k < lo + unLo - ltLo \<longrightarrow> eclass (fvswap lo (unLo - n) n f k) < med"
    "\<forall>k. lo + unLo - ltLo \<le> int k \<longrightarrow> int k < unLo \<longrightarrow> eclass (fvswap lo (unLo - n) n f k) = med"
proof -
  note I = P[unfolded part_inv_def]
  have b: "0 \<le> n" "lo + n \<le> unLo - n" "0 \<le> lo" using I n by linarith+
  show "rearr lo (unLo - 1) f (fvswap lo (unLo - n) n f)" using fvswap_rearr [of lo n "unLo - n"] b by simp
  have at: "fvswap lo (unLo - n) n f k = (if lo \<le> int k \<and> int k < lo + n then f (nat (int k + (unLo - n) - lo))
     else if unLo - n \<le> int k \<and> int k < unLo then f (nat (int k + lo - (unLo - n))) else f k)" for k
    using fvswap_at [of lo "nat n" "unLo - n" f k] b by simp
  have eq: "eclass (f (nat x)) = med" if "lo \<le> x" "x < ltLo" for x using I b that by simp
  have lt: "eclass (f (nat x)) < med" if "ltLo \<le> x" "x < unLo" for x using I b that by simp
  show "\<forall>k. lo \<le> int k \<longrightarrow> int k < lo + unLo - ltLo \<longrightarrow> eclass (fvswap lo (unLo - n) n f k) < med"
    "\<forall>k. lo + unLo - ltLo \<le> int k \<longrightarrow> int k < unLo \<longrightarrow> eclass (fvswap lo (unLo - n) n f k) = med"
  proof (safe)
    fix k :: nat assume k: "lo \<le> int k" "int k < lo + unLo - ltLo"
    show "eclass (fvswap lo (unLo - n) n f k) < med"
    proof (cases "int k < lo + n")
      case True
      then show ?thesis unfolding at using k lt [of "int k + (unLo - n) - lo"] n by simp
    next
      case False
      then show ?thesis unfolding at using k lt [of "int k"] n b by auto
    qed
  next
    fix k :: nat assume k: "lo + unLo - ltLo \<le> int k" "int k < unLo"
    show "eclass (fvswap lo (unLo - n) n f k) = med"
    proof (cases "unLo - n \<le> int k")
      case True
      then show ?thesis unfolding at using k eq [of "int k + lo - (unLo - n)"] n b by simp
    next
      case False
      then show ?thesis unfolding at using k eq [of "int k"] n b by auto
    qed
  qed
qed

lemma moved_right:
  assumes P: "part_inv eclass med lo hi unLo unHi ltLo gtHi f" and u: "unHi = unLo - 1" and m: "m = min (hi - gtHi) (gtHi - unHi)"
  shows "rearr unLo hi f (fvswap unLo (hi - m + 1) m f)"
    "\<forall>k. unLo \<le> int k \<longrightarrow> int k \<le> hi - (gtHi - unHi) \<longrightarrow> eclass (fvswap unLo (hi - m + 1) m f k) = med"
    "\<forall>k. hi - (gtHi - unHi) < int k \<longrightarrow> int k \<le> hi \<longrightarrow> med < eclass (fvswap unLo (hi - m + 1) m f k)"
proof -
  note I = P[unfolded part_inv_def]
  have b: "0 \<le> m" "unLo + m \<le> hi - m + 1" "0 \<le> unLo" using I u m by linarith+
  show "rearr unLo hi f (fvswap unLo (hi - m + 1) m f)" using fvswap_rearr [of unLo m "hi - m + 1"] b by simp
  have at: "fvswap unLo (hi - m + 1) m f k = (if unLo \<le> int k \<and> int k < unLo + m then f (nat (int k + (hi - m + 1) - unLo))
     else if hi - m + 1 \<le> int k \<and> int k < hi + 1 then f (nat (int k + unLo - (hi - m + 1))) else f k)" for k
    using fvswap_at [of unLo "nat m" "hi - m + 1" f k] b by simp
  have gt: "med < eclass (f (nat x))" if "unHi < x" "x \<le> gtHi" for x using I u b that by simp
  have eq: "eclass (f (nat x)) = med" if "gtHi < x" "x \<le> hi" for x using I u b that by simp
  show "\<forall>k. unLo \<le> int k \<longrightarrow> int k \<le> hi - (gtHi - unHi) \<longrightarrow> eclass (fvswap unLo (hi - m + 1) m f k) = med"
    "\<forall>k. hi - (gtHi - unHi) < int k \<longrightarrow> int k \<le> hi \<longrightarrow> med < eclass (fvswap unLo (hi - m + 1) m f k)"
  proof (safe)
    fix k :: nat assume k: "unLo \<le> int k" "int k \<le> hi - (gtHi - unHi)"
    show "eclass (fvswap unLo (hi - m + 1) m f k) = med"
    proof (cases "int k < unLo + m")
      case True
      then show ?thesis unfolding at using k eq [of "int k + (hi - m + 1) - unLo"] m u by simp
    next
      case False
      then show ?thesis unfolding at using k eq [of "int k"] m u b by auto
    qed
  next
    fix k :: nat assume k: "hi - (gtHi - unHi) < int k" "int k \<le> hi"
    show "med < eclass (fvswap unLo (hi - m + 1) m f k)"
    proof (cases "hi - m + 1 \<le> int k")
      case True
      then show ?thesis unfolding at using k gt [of "int k + unLo - (hi - m + 1)"] m u b by simp
    next
      case False
      then show ?thesis unfolding at using k gt [of "int k"] m u b by auto
    qed
  qed
qed

section \<open>One step of the quicksort\<close>

definition split3 :: "(nat \<Rightarrow> nat) \<Rightarrow> int \<Rightarrow> int \<Rightarrow> int \<Rightarrow> int \<Rightarrow> nat \<Rightarrow> (nat \<Rightarrow> nat) \<Rightarrow> bool" where
  "split3 eclass lo hi n m med g \<longleftrightarrow> lo - 1 \<le> n \<and> n + 2 \<le> m \<and> m \<le> hi + 1 \<and>
     (\<forall>k. lo \<le> int k \<longrightarrow> int k \<le> n \<longrightarrow> eclass (g k) < med) \<and>
     (\<forall>k. n < int k \<longrightarrow> int k < m \<longrightarrow> eclass (g k) = med) \<and>
     (\<forall>k. m \<le> int k \<longrightarrow> int k \<le> hi \<longrightarrow> med < eclass (g k))"

lemma choose_med_in:
  assumes "0 \<le> lo" "lo \<le> hi"
  shows "\<exists>k \<in> places lo hi. choose_med eclass f lo hi r = eclass (f k)"
proof -
  have d: "lo \<le> drop_bit 1 (lo + hi)" "drop_bit 1 (lo + hi) \<le> hi" using assms(2) by (simp_all add: drop_bit_eq_div)
  consider "choose_med eclass f lo hi r = eclass (f (nat lo))" | "choose_med eclass f lo hi r = eclass (f (nat (drop_bit 1 (lo + hi))))"
    | "choose_med eclass f lo hi r = eclass (f (nat hi))" unfolding choose_med_def Let_def by presburger
  then have "\<exists>x. lo \<le> x \<and> x \<le> hi \<and> choose_med eclass f lo hi r = eclass (f (nat x))"
    using d assms(2) by cases blast+
  then obtain x where "lo \<le> x" "x \<le> hi" "choose_med eclass f lo hi r = eclass (f (nat x))" by blast
  then show ?thesis using assms by (intro bexI [of _ "nat x"]) (simp_all add: places_def)
qed

lemma qsort3_step_cases:
  assumes lo: "0 \<le> lo" and big: "hi - lo \<ge> 10" and st: "qsort3_step eclass lo hi stack r f = (stack', r', g)"
  shows "rearr lo hi f g"
    "(stack' = stack \<and> sorted_on eclass lo hi g) \<or>
     (\<exists>n m med. split3 eclass lo hi n m med g \<and>
        stack' = (if n - lo > hi - m then (m, hi) # (lo, n) # stack else (lo, n) # (m, hi) # stack))"
proof -
  define r1 where "r1 = (r * 7621 + 1) mod 32768"
  define med where "med = choose_med eclass f lo hi r1"
  obtain unLo unHi ltLo gtHi f1 where p: "partition_loop eclass med (lo, hi, lo, hi, f) = (unLo, unHi, ltLo, gtHi, f1)"
    by (cases "partition_loop eclass med (lo, hi, lo, hi, f)")
  have "part_inv eclass med lo hi lo hi lo hi f" using lo big by (simp add: part_inv_def)
  from partition_loop_inv [OF this p] have P: "part_inv eclass med lo hi unLo unHi ltLo gtHi f1" and R: "rearr lo hi f f1"
    and u: "unHi = unLo - 1" by blast+
  note I = P[unfolded part_inv_def]
  define n where "n = min (ltLo - lo) (unLo - ltLo)"
  define m where "m = min (hi - gtHi) (gtHi - unHi)"
  define f2 where "f2 = fvswap lo (unLo - n) n f1"
  define f3 where "f3 = fvswap unLo (hi - m + 1) m f2"
  define n' where "n' = lo + unLo - ltLo - 1"
  define m' where "m' = hi - (gtHi - unHi) + 1"
  note L = moved_left [OF P n_def, folded f2_def]
  have P2: "part_inv eclass med lo hi unLo unHi ltLo gtHi f1" by (rule P)
  have same: "f2 k = f1 k" if "unLo \<le> int k" for k using L(1) that by (auto simp: rearr_def places_def)
  have e3: "f3 k = (if unLo \<le> int k then fvswap unLo (hi - m + 1) m f1 k else f2 k)" for k
  proof -
    have b: "0 \<le> m" "unLo + m \<le> hi - m + 1" "0 \<le> unLo" using I u m_def by linarith+
    show ?thesis
      unfolding f3_def using fvswap_at [of unLo "nat m" "hi - m + 1" _ k] b same by auto
  qed
  note G = moved_right [OF P u m_def]
  have R3: "rearr lo hi f f3"
  proof -
    have "rearr lo hi f1 f2" using rearr_sub [OF L(1), of lo hi] I u by simp
    moreover have "rearr unLo hi f2 f3" unfolding f3_def
      by (rule fvswap_rearr) (use I u m_def in linarith)+
    then have "rearr lo hi f2 f3" using rearr_sub [of unLo hi f2 f3 lo hi] I by simp
    ultimately show ?thesis using R rearr_trans by blast
  qed
  have vals: "\<forall>k. lo \<le> int k \<longrightarrow> int k \<le> n' \<longrightarrow> eclass (f3 k) < med"
      "\<forall>k. n' < int k \<longrightarrow> int k < m' \<longrightarrow> eclass (f3 k) = med"
      "\<forall>k. m' \<le> int k \<longrightarrow> int k \<le> hi \<longrightarrow> med < eclass (f3 k)"
    using L(2,3) G(2,3) I u unfolding n'_def m'_def by (auto simp: e3)
  have big': "(hi - lo < 10) = False" using big by simp
  have nm: "(if ltLo - lo < unLo - ltLo then ltLo - lo else unLo - ltLo) = n" "(if hi - gtHi < gtHi - unHi then hi - gtHi else gtHi - unHi) = m"
    by (simp_all add: n_def m_def)
  have step: "(stack', r', g) = (if gtHi < ltLo then (stack, r1, f1)
      else if n' - lo > hi - m' then ((m', hi) # (lo, n') # stack, r1, f3) else ((lo, n') # (m', hi) # stack, r1, f3))"
    unfolding st [symmetric] qsort3_step_def Let_def big' if_False r1_def [symmetric] med_def [symmetric] p prod.case nm
      f2_def [symmetric] f3_def [symmetric] n'_def [symmetric] m'_def [symmetric] by (rule refl)
  show "rearr lo hi f g" using step R R3 by (auto split: if_splits)
  show "(stack' = stack \<and> sorted_on eclass lo hi g) \<or>
     (\<exists>n m med. split3 eclass lo hi n m med g \<and>
        stack' = (if n - lo > hi - m then (m, hi) # (lo, n) # stack else (lo, n) # (m, hi) # stack))"
  proof (cases "gtHi < ltLo")
    case True
    then have "eclass (f1 k) = med" if "lo \<le> int k" "int k \<le> hi" for k
      using I u that by (cases "int k < ltLo") auto
    then show ?thesis using step True by (auto simp: sorted_on_def)
  next
    case False
    obtain k where k: "k \<in> places lo hi" "eclass (f k) = med" using choose_med_in [of lo hi eclass f r1] lo big by (auto simp: med_def)
    then obtain j where "j \<in> places lo hi" "eclass (f3 j) = med" using rearr_image [OF R3] by (metis imageE image_eqI)
    then have j: "lo \<le> int j" "int j \<le> hi" "eclass (f3 j) = med" by (auto simp: places_def)
    then have "n' < int j" "int j < m'" using vals by (meson less_irrefl not_le)+
    then have "split3 eclass lo hi n' m' med f3" using vals I u by (simp add: split3_def n'_def m'_def)
    then show ?thesis using step False by (auto split: if_splits)
  qed
qed

section \<open>The whole quicksort\<close>

lemma split3_sorted:
  assumes S: "split3 eclass lo hi n m med g" and lo: "sorted_on eclass lo n h" and hi: "sorted_on eclass m hi h"
    and L: "h ` places lo n = g ` places lo n" and R: "h ` places m hi = g ` places m hi"
    and M: "\<And>k. n < int k \<Longrightarrow> int k < m \<Longrightarrow> h k = g k"
  shows "sorted_on eclass lo hi h"
proof -
  note S = S[unfolded split3_def]
  have l: "eclass (h k) < med" if "lo \<le> int k" "int k \<le> n" for k
  proof -
    have "h k \<in> h ` places lo n" using that by (simp add: places_def)
    then have "h k \<in> g ` places lo n" by (simp only: L)
    then show ?thesis using S by (auto simp: places_def)
  qed
  have r: "med < eclass (h k)" if "m \<le> int k" "int k \<le> hi" for k
  proof -
    have "h k \<in> h ` places m hi" using that by (simp add: places_def)
    then have "h k \<in> g ` places m hi" by (simp only: R)
    then show ?thesis using S by (auto simp: places_def)
  qed
  have e: "eclass (h k) = med" if "n < int k" "int k < m" for k using M that S by simp
  show ?thesis unfolding sorted_on_def
  proof (intro allI impI, elim conjE)
    fix a b assume ab: "lo \<le> int a" "a \<le> b" "int b \<le> hi"
    consider "int b \<le> n" | "m \<le> int a" | "int a \<le> n" "n < int b" | "n < int a" "int a < m" by linarith
    then show "eclass (h a) \<le> eclass (h b)"
    proof cases
      case 1
      then show ?thesis using lo ab by (auto simp: sorted_on_def)
    next
      case 2
      then show ?thesis using hi ab by (auto simp: sorted_on_def)
    next
      case 3
      then show ?thesis using l [of a] e [of b] r [of b] ab by (cases "int b < m") simp_all
    next
      case 4
      then show ?thesis using e [of a] e [of b] r [of b] ab by (cases "int b < m") simp_all
    qed
  qed
qed

lemma rearr_off: "rearr l h f g \<Longrightarrow> k \<notin> places l h \<Longrightarrow> g k = f k"
  by (simp add: rearr_def)

lemma rearr_disjoint_image: "rearr l h f g \<Longrightarrow> places l h \<inter> A = {} \<Longrightarrow> g ` A = f ` A"
  by (rule image_cong) (auto simp: rearr_def)

text \<open>Both orders of sorting the two outer parts.\<close>

lemma split3_both:
  assumes S: "split3 eclass lo hi n m med g"
    and 1: "rearr l1 h1 g g1" "sorted_on eclass l1 h1 g1" and 2: "rearr l2 h2 g1 g2" "sorted_on eclass l2 h2 g2"
    and parts: "(l1, h1, l2, h2) = (lo, n, m, hi) \<or> (l1, h1, l2, h2) = (m, hi, lo, n)"
  shows "rearr lo hi g g2 \<and> sorted_on eclass lo hi g2"
proof -
  have b: "lo - 1 \<le> n" "n + 2 \<le> m" "m \<le> hi + 1" using S by (simp_all add: split3_def)
  have "rearr lo hi g g1" "rearr lo hi g1 g2" using rearr_sub [OF 1(1)] rearr_sub [OF 2(1)] parts b by auto
  then have R: "rearr lo hi g g2" by (rule rearr_trans)
  have d: "places l1 h1 \<inter> places l2 h2 = {}" using parts b by (auto simp: places_def)
  have i1: "g2 ` places l1 h1 = g ` places l1 h1"
    using rearr_disjoint_image [OF 2(1), of "places l1 h1"] rearr_image [OF 1(1)] d by (simp add: Int_commute)
  have i2: "g2 ` places l2 h2 = g ` places l2 h2"
    using rearr_disjoint_image [OF 1(1), of "places l2 h2"] rearr_image [OF 2(1)] d by simp
  have "g2 k = g1 k" if "k \<in> places l1 h1" for k using rearr_off [OF 2(1)] d that by blast
  then have s1: "sorted_on eclass l1 h1 g2" using 1(2) by (auto simp: sorted_on_def places_def)
  have M: "g2 k = g k" if "n < int k" "int k < m" for k
    using rearr_off [OF 1(1), of k] rearr_off [OF 2(1), of k] parts that by (auto simp: places_def)
  have "sorted_on eclass lo hi g2"
    using parts
  proof
    assume "(l1, h1, l2, h2) = (lo, n, m, hi)"
    then show ?thesis using split3_sorted [OF S, of g2] s1 2(2) i1 i2 M by simp
  next
    assume "(l1, h1, l2, h2) = (m, hi, lo, n)"
    then show ?thesis using split3_sorted [OF S, of g2] s1 2(2) i1 i2 M by simp
  qed
  then show ?thesis using R by simp
qed

definition sorts :: "(nat \<Rightarrow> nat) \<Rightarrow> int \<Rightarrow> int \<Rightarrow> (int \<times> int) list \<Rightarrow> u32 \<Rightarrow> (nat \<Rightarrow> nat) \<Rightarrow> int option \<Rightarrow> bool" where
  "sorts eclass lo hi rest r f failed \<longleftrightarrow>
     (\<exists>g r'. qsort3_loop eclass ((lo, hi) # rest) r f failed = qsort3_loop eclass rest r' g failed \<and>
        rearr lo hi f g \<and> sorted_on eclass lo hi g)"

lemma qsort3_loop_sorts:
  "\<lbrakk> 0 \<le> lo; nat (hi - lo + 1) \<le> 2 ^ b; length rest + b < 98 \<rbrakk> \<Longrightarrow> sorts eclass lo hi rest r f failed"
proof (induction "nat (hi - lo + 1)" arbitrary: lo hi b rest r f rule: less_induct)
  case less
  have A: "AssertH (length ((lo, hi) # rest) < FALLBACK_QSORT_STACK_SIZE - 1) 1004 failed = failed"
    using less.prems by (simp add: AssertH_def)
  obtain stack' r' g where st: "qsort3_step eclass lo hi rest r f = (stack', r', g)" by (cases "qsort3_step eclass lo hi rest r f")
  have loop: "qsort3_loop eclass ((lo, hi) # rest) r f failed = qsort3_loop eclass stack' r' g failed"
    using st A by (subst qsort3_loop.simps) (simp add: Let_def)
  show ?case
  proof (cases "hi - lo < 10")
    case True
    then have "stack' = rest" "g = fallbackSimpleSort eclass lo hi f" using st by (simp_all add: qsort3_step_def)
    then show ?thesis using fallbackSimpleSort_ok [OF less.prems(1)] loop unfolding sorts_def by blast
  next
    case False
    then have big: "hi - lo \<ge> 10" by simp
    note C = qsort3_step_cases [OF less.prems(1) big st]
    show ?thesis
    proof (cases "stack' = rest \<and> sorted_on eclass lo hi g")
      case True
      then show ?thesis using C(1) loop unfolding sorts_def by blast
    next
      case False
      then obtain n m med where S: "split3 eclass lo hi n m med g"
          and st': "stack' = (if n - lo > hi - m then (m, hi) # (lo, n) # rest else (lo, n) # (m, hi) # rest)" using C(2) by blast
      have bd: "lo - 1 \<le> n" "n + 2 \<le> m" "m \<le> hi + 1" using S by (simp_all add: split3_def)
      obtain c where c: "b = Suc c" using less.prems(2) big by (cases b) auto
      define l1 h1 l2 h2 where d: "l1 = (if n - lo > hi - m then m else lo)" "h1 = (if n - lo > hi - m then hi else n)"
          "l2 = (if n - lo > hi - m then lo else m)" "h2 = (if n - lo > hi - m then n else hi)"
      have st2: "stack' = (l1, h1) # (l2, h2) # rest" using st' by (simp add: d)
      have z: "0 \<le> l1" "0 \<le> l2" using less.prems(1) bd by (auto simp: d)
      have "2 * (h1 - l1 + 1) \<le> hi - lo + 1" using bd by (auto simp: d)
      then have "nat (2 * (h1 - l1 + 1)) \<le> nat (hi - lo + 1)" by (rule nat_mono)
      then have "2 * nat (h1 - l1 + 1) \<le> nat (hi - lo + 1)" by (simp add: nat_mult_distrib del: nat_2)
      moreover have "nat (hi - lo + 1) \<le> 2 * 2 ^ c" using less.prems(2) c by simp
      ultimately have sz1: "nat (h1 - l1 + 1) \<le> 2 ^ c" "nat (h1 - l1 + 1) < nat (hi - lo + 1)" using big by linarith+
      have sz2: "nat (h2 - l2 + 1) \<le> 2 ^ b" "nat (h2 - l2 + 1) < nat (hi - lo + 1)" using less.prems(2) big bd by (auto simp: d)
      have "sorts eclass l1 h1 ((l2, h2) # rest) r' g failed"
        by (rule less.hyps [OF sz1(2) z(1) sz1(1)]) (use less.prems(3) c in simp)
      then obtain g1 r1 where 1: "qsort3_loop eclass stack' r' g failed = qsort3_loop eclass ((l2, h2) # rest) r1 g1 failed"
          "rearr l1 h1 g g1" "sorted_on eclass l1 h1 g1" unfolding sorts_def st2 by blast
      have "sorts eclass l2 h2 rest r1 g1 failed" by (rule less.hyps [OF sz2(2) z(2) sz2(1) less.prems(3)])
      then obtain g2 r2 where 2: "qsort3_loop eclass ((l2, h2) # rest) r1 g1 failed = qsort3_loop eclass rest r2 g2 failed"
          "rearr l2 h2 g1 g2" "sorted_on eclass l2 h2 g2" unfolding sorts_def by blast
      have "rearr lo hi g g2 \<and> sorted_on eclass lo hi g2"
        by (rule split3_both [OF S 1(2,3) 2(2,3)]) (simp add: d)
      then have "rearr lo hi f g2" "sorted_on eclass lo hi g2" using rearr_trans [OF C(1)] by blast+
      moreover have "qsort3_loop eclass ((lo, hi) # rest) r f failed = qsort3_loop eclass rest r2 g2 failed"
        using loop 1(1) 2(1) by simp
      ultimately show ?thesis unfolding sorts_def by blast
    qed
  qed
qed

lemma fallbackQSort3_ok:
  assumes "0 \<le> lo" "hi - lo < 2 ^ 97"
  shows "\<exists>g. fallbackQSort3 eclass lo hi (f, failed) = Some (g, failed) \<and> rearr lo hi f g \<and> sorted_on eclass lo hi g"
proof -
  have "nat (hi - lo + 1) \<le> nat (2 ^ 97)" using assms(2) by (intro nat_mono) linarith
  then have "nat (hi - lo + 1) \<le> 2 ^ 97" by (simp add: nat_power_eq)
  from qsort3_loop_sorts [OF assms(1) this, of "[]" eclass 0 f failed]
  obtain g r' where "qsort3_loop eclass [(lo, hi)] 0 f failed = qsort3_loop eclass [] r' g failed"
      "rearr lo hi f g" "sorted_on eclass lo hi g" unfolding sorts_def by auto
  then show ?thesis by (simp add: fallbackQSort3_def qsort3_loop.simps [of eclass "[]"])
qed

end
