(* ===== verification/CompressApi.thy ===== *)
theory CompressApi
  imports Rle SendBits QSort3 DecompressApi
begin

text \<open>
  \<open>BZ2_compressBlock\<close> of \<^verbatim>\<open>src/compress.c\<close> and the compressor's interface in \<^verbatim>\<open>src/bzlib.c\<close>. A handle is the caller's
  stream with the \<open>EState\<close> its \<open>state\<close> points to, as for the decompressor; between the calls the stream is kept in the
  handle. A failed assertion ends the process (\<open>Abort\<close>); a loop that does not end would be \<open>None\<close>. Messages of
  \<open>verbosity\<close> are left out.
\<close>

section \<open>One block\<close>

definition magic_bytes :: "u8 list \<Rightarrow> estate \<Rightarrow> estate" where
  "magic_bytes bs s = fold bsPutUChar bs s"

text \<open>The CRCs of a block that is not empty, then the sort.\<close>

definition close_block :: "host \<Rightarrow> estate \<Rightarrow> (estate \<times> int option) option" where
  "close_block h s =
     (let s = s\<lparr>blockCRC := BZ_FINALISE_CRC (blockCRC s)\<rparr>;
          s = s\<lparr>combinedCRC := push_bit 1 (combinedCRC s) OR drop_bit 31 (combinedCRC s)\<rparr>;
          s = s\<lparr>combinedCRC := combinedCRC s XOR blockCRC s\<rparr>;
          s = (if blockNo s > 1 then s\<lparr>numZ := 0\<rparr> else s)
      in BZ2_blockSort h (s, None))"

definition put_header :: "estate \<Rightarrow> estate" where
  "put_header s =
     (if blockNo s = 1
      then magic_bytes [0x42, 0x5a, 0x68, 0x30 + word_of_nat (eblockSize100k s)] (BZ2_bsInitWrite s) else s)"

definition put_block_header :: "estate \<Rightarrow> estate" where
  "put_block_header s =
     (let s = magic_bytes [0x31, 0x41, 0x59, 0x26, 0x53, 0x59] s; s = bsPutUInt32 (blockCRC s) s; s = bsW 1 0 s
      in bsW 24 (word_of_int (eorigPtr s)) s)"

definition put_trailer :: "estate \<Rightarrow> estate" where
  "put_trailer s =
     (let s = magic_bytes [0x17, 0x72, 0x45, 0x38, 0x50, 0x90] s in bsFinishWrite (bsPutUInt32 (combinedCRC s) s))"

definition BZ2_compressBlock :: "host \<Rightarrow> estate \<Rightarrow> bool \<Rightarrow> (estate \<times> int option) option" where
  "BZ2_compressBlock h s is_last_block = do {
     (s, failed) \<leftarrow> (if nblock s > 0 then close_block h s else Some (s, None));
     if failed \<noteq> None then Some (s, failed)
     else do {
       let s = put_header s;
       (s, failed) \<leftarrow>
         (if nblock s > 0 then do {
            s \<leftarrow> generateMTFValues (if esse2 h then mtf_simd else mtf_scalar) (put_block_header s);
            sendMTFValues (s, failed)
          } else Some (s, failed));
       Some (if is_last_block then put_trailer s else s, failed)
     }
   }"

section \<open>The loop between input and output\<close>

definition copy_output_until_stop :: "estate \<Rightarrow> bool \<times> estate" where
  "copy_output_until_stop s =
     (let avail = int (numZ s) - int (state_out_pos s); strm = estrm s
      in if avail \<le> 0 \<or> avail_out strm = 0 then (False, s)
         else
           let n = (if nat avail > avail_out strm then avail_out strm else nat avail);
               bs = map (\<lambda>i. zbits s (state_out_pos s + i)) [0..<n];
               old = total_out_lo32 strm; lo = old + word_of_nat n
           in (True, s\<lparr>state_out_pos := state_out_pos s + n,
                 estrm := strm\<lparr>out_buf := out_buf strm @ bs, avail_out := avail_out strm - n, total_out_lo32 := lo,
                   total_out_hi32 := (if lo < old then total_out_hi32 strm + 1 else total_out_hi32 strm)\<rparr>\<rparr>))"

text \<open>One round of \<open>handle_compress\<close>: the output half and the input half.\<close>

datatype 's round = Stop 's | Go 's | Fail int

definition compress_output :: "bool \<times> estate \<Rightarrow> (bool \<times> estate) round" where
  "compress_output a = (case a of (progress, s) \<Rightarrow>
     if est s = BZ_S_OUTPUT then
       let (p, s) = copy_output_until_stop s; progress = (progress \<or> p)
       in if state_out_pos s < numZ s then Stop (progress, s)
          else if emode s = BZ_M_FINISHING \<and> avail_in_expect s = 0 \<and> isempty_RL s then Stop (progress, s)
          else
            let s = (prepare_new_block s)\<lparr>est := BZ_S_INPUT\<rparr>
            in if emode s = BZ_M_FLUSHING \<and> avail_in_expect s = 0 \<and> isempty_RL s then Stop (progress, s)
               else Go (progress, s)
     else Go (progress, s))"

definition run_block :: "host \<Rightarrow> bool \<Rightarrow> bool \<times> estate \<Rightarrow> (bool \<times> estate) round option" where
  "run_block h is_last a = (case a of (progress, s) \<Rightarrow>
     case BZ2_compressBlock h s is_last of
       None \<Rightarrow> None
     | Some (s, failed) \<Rightarrow> Some (case failed of Some n \<Rightarrow> Fail n | None \<Rightarrow> Go (progress, s\<lparr>est := BZ_S_OUTPUT\<rparr>)))"

definition compress_input :: "host \<Rightarrow> bool \<times> estate \<Rightarrow> (bool \<times> estate) round option" where
  "compress_input h a = (case a of (progress, s) \<Rightarrow>
     if est s = BZ_S_INPUT then
       let (p, s) = copy_input_until_stop h s; progress = (progress \<or> p)
       in if emode s \<noteq> BZ_M_RUNNING \<and> avail_in_expect s = 0
          then run_block h (emode s = BZ_M_FINISHING) (progress, flush_RL h s)
          else if nblock s \<ge> nblockMAX s then run_block h False (progress, s)
          else if avail_in (estrm s) = 0 then Some (Stop (progress, s))
          else Some (Go (progress, s))
     else Some (Go (progress, s)))"

definition compress_round :: "host \<Rightarrow> bool \<times> estate \<Rightarrow> (bool \<times> estate) round option" where
  "compress_round h a = (case compress_output a of Go a \<Rightarrow> compress_input h a | r \<Rightarrow> Some r)"

partial_function (option) handle_compress :: "host \<Rightarrow> bool \<times> estate \<Rightarrow> (bool \<times> estate) round option" where
  "handle_compress h a =
     (case compress_round h a of
        None \<Rightarrow> None
      | Some r \<Rightarrow> (case r of Go a \<Rightarrow> handle_compress h a | Stop a \<Rightarrow> Some (Stop a) | Fail n \<Rightarrow> Some (Fail n)))"

declare handle_compress.simps [code]

section \<open>The interface\<close>

record chandle =
  c_addr :: nat
  c_strm :: bz_stream
  c_state :: "(nat \<times> estate) option"

text \<open>The pieces of memory that are given back to \<open>BZFREE\<close>.\<close>

datatype cblock = Arr1 | Arr2 | Ftab | EStateBlock

definition BZ2_bzCompressInit ::
  "estate \<Rightarrow> chandle option \<Rightarrow> int \<Rightarrow> int \<Rightarrow> int \<Rightarrow> int \<times> cblock list \<times> chandle option" where
  "BZ2_bzCompressInit junk h size100k verb wFactor =
     (if \<not> bz_config_ok 4 2 1 then (BZ_CONFIG_ERROR, [], h)
      else case h of
        None \<Rightarrow> (BZ_PARAM_ERROR, [], None)
      | Some h \<Rightarrow>
          if size100k < 1 \<or> size100k > 9 \<or> wFactor < 0 \<or> wFactor > 250 then (BZ_PARAM_ERROR, [], Some h)
          else
            let wFactor = (if wFactor = 0 then 30 else wFactor); (ok, strm) = bz_alloc (c_strm h)
            in if \<not> ok then (BZ_MEM_ERROR, [], Some (h\<lparr>c_strm := strm\<rparr>))
               else
                 let (ok1, strm) = bz_alloc strm; (ok2, strm) = bz_alloc strm; (ok3, strm) = bz_alloc strm
                 in if \<not> ok1 \<or> \<not> ok2 \<or> \<not> ok3
                    then (BZ_MEM_ERROR, (if ok1 then [Arr1] else []) @ (if ok2 then [Arr2] else []) @ (if ok3 then [Ftab] else []) @ [EStateBlock],
                      Some (h\<lparr>c_strm := strm\<rparr>))
                    else
                      let strm = reset_totals strm;
                          s = junk\<lparr>estrm := strm, blockNo := 0, est := BZ_S_INPUT, emode := BZ_M_RUNNING, combinedCRC := 0,
                            eblockSize100k := nat size100k, nblockMAX := 100000 * nat size100k - 19, everbosity := verb, workFactor := wFactor\<rparr>;
                          s = prepare_new_block (init_RL s)
                      in (BZ_OK, [], Some (h\<lparr>c_strm := strm, c_state := Some (c_addr h, s)\<rparr>)))"

definition more_to_do :: "estate \<Rightarrow> bool" where
  "more_to_do s \<longleftrightarrow> avail_in_expect s > 0 \<or> \<not> isempty_RL s \<or> state_out_pos s < numZ s"

text \<open>The three modes behind \<open>preswitch\<close>.\<close>

definition run_mode :: "host \<Rightarrow> estate \<Rightarrow> estate api option" where
  "run_mode h s =
     (case handle_compress h (False, s) of
        None \<Rightarrow> None
      | Some (Fail n) \<Rightarrow> Some (Abort n)
      | Some (Stop (progress, s)) \<Rightarrow> Some (Ret (if progress then BZ_RUN_OK else BZ_PARAM_ERROR) s)
      | Some (Go _) \<Rightarrow> None)"

definition flush_mode :: "host \<Rightarrow> int \<Rightarrow> estate \<Rightarrow> estate api option" where
  "flush_mode h action s =
     (if action \<noteq> BZ_FLUSH then Some (Ret BZ_SEQUENCE_ERROR s)
      else if avail_in_expect s \<noteq> avail_in (estrm s) then Some (Ret BZ_SEQUENCE_ERROR s)
      else case handle_compress h (False, s) of
        None \<Rightarrow> None
      | Some (Fail n) \<Rightarrow> Some (Abort n)
      | Some (Stop (progress, s)) \<Rightarrow>
          Some (if more_to_do s then Ret BZ_FLUSH_OK s else Ret BZ_RUN_OK (s\<lparr>emode := BZ_M_RUNNING\<rparr>))
      | Some (Go _) \<Rightarrow> None)"

definition finish_mode :: "host \<Rightarrow> int \<Rightarrow> estate \<Rightarrow> estate api option" where
  "finish_mode h action s =
     (if action \<noteq> BZ_FINISH then Some (Ret BZ_SEQUENCE_ERROR s)
      else if avail_in_expect s \<noteq> avail_in (estrm s) then Some (Ret BZ_SEQUENCE_ERROR s)
      else case handle_compress h (False, s) of
        None \<Rightarrow> None
      | Some (Fail n) \<Rightarrow> Some (Abort n)
      | Some (Stop (progress, s)) \<Rightarrow>
          Some (if \<not> progress then Ret BZ_SEQUENCE_ERROR s else if more_to_do s then Ret BZ_FINISH_OK s
            else Ret BZ_STREAM_END (s\<lparr>emode := BZ_M_IDLE\<rparr>))
      | Some (Go _) \<Rightarrow> None)"

definition compress_switch :: "host \<Rightarrow> int \<Rightarrow> estate \<Rightarrow> estate api option" where
  "compress_switch h action s =
     (if emode s = BZ_M_IDLE then Some (Ret BZ_SEQUENCE_ERROR s)
      else if emode s = BZ_M_RUNNING then
        (if action = BZ_RUN then run_mode h s
         else if action = BZ_FLUSH then flush_mode h action (s\<lparr>avail_in_expect := avail_in (estrm s), emode := BZ_M_FLUSHING\<rparr>)
         else if action = BZ_FINISH then finish_mode h action (s\<lparr>avail_in_expect := avail_in (estrm s), emode := BZ_M_FINISHING\<rparr>)
         else Some (Ret BZ_PARAM_ERROR s))
      else if emode s = BZ_M_FLUSHING then flush_mode h action s
      else if emode s = BZ_M_FINISHING then finish_mode h action s
      else Some (Ret BZ_OK s))"

definition BZ2_bzCompress :: "host \<Rightarrow> chandle option \<Rightarrow> int \<Rightarrow> chandle option api option" where
  "BZ2_bzCompress m h action =
     (case h of
        None \<Rightarrow> Some (Ret BZ_PARAM_ERROR h)
      | Some h \<Rightarrow>
          (case c_state h of
             None \<Rightarrow> Some (Ret BZ_PARAM_ERROR (Some h))
           | Some (owner, s) \<Rightarrow>
               if owner \<noteq> c_addr h then Some (Ret BZ_PARAM_ERROR (Some h))
               else
                 (case compress_switch m action (s\<lparr>estrm := c_strm h\<rparr>) of
                    None \<Rightarrow> None
                  | Some (Abort n) \<Rightarrow> Some (Abort n)
                  | Some (Ret r s) \<Rightarrow> Some (Ret r (Some (h\<lparr>c_strm := estrm s, c_state := Some (owner, s)\<rparr>))))))"

definition BZ2_bzCompressEnd :: "chandle option \<Rightarrow> int \<times> cblock list \<times> chandle option" where
  "BZ2_bzCompressEnd h =
     (case h of
        None \<Rightarrow> (BZ_PARAM_ERROR, [], h)
      | Some h \<Rightarrow>
          (case c_state h of
             None \<Rightarrow> (BZ_PARAM_ERROR, [], Some h)
           | Some (owner, s) \<Rightarrow>
               if owner \<noteq> c_addr h then (BZ_PARAM_ERROR, [], Some h)
               else (BZ_OK, [Arr1, Arr2, Ftab, EStateBlock], Some (h\<lparr>c_state := None\<rparr>))))"

end
