(* ===== verification/BhTable.thy ===== *)
theory BhTable
  imports BlockSort
begin

text \<open>
  The bit table of \<open>fallbackSort\<close> as a set of places, and its two scans: \<open>skip_set\<close> and \<open>skip_clear\<close> find the end of
  a run although they look at whole words on the way.
\<close>

section \<open>Single bits\<close>

lemma ISSET_BH_bit: "ISSET_BH bh z \<longleftrightarrow> bit (bh (z div 32)) (z mod 32)"
proof -
  have "z mod 32 < 32" by simp
  then have "bh (z div 32) AND push_bit (z mod 32) 1 = (if bit (bh (z div 32)) (z mod 32) then push_bit (z mod 32) 1 else 0)"
    by (intro bit_word_eqI) (auto simp: bit_simps)
  moreover have "push_bit (z mod 32) 1 \<noteq> (0 :: u32)" by (simp add: push_bit_eq_mult)
  ultimately show ?thesis by (simp add: ISSET_BH_def)
qed

lemma same_place: "z div 32 = k div 32 \<Longrightarrow> z mod 32 = k mod 32 \<longleftrightarrow> z = k" for z k :: nat
  by (metis div_mult_mod_eq)

lemma bit_single: "bit (2 ^ m :: u32) j \<longleftrightarrow> j = m \<and> m < 32"
  by (auto simp: bit_simps)

lemma ISSET_SET [simp]: "ISSET_BH (SET_BH z bh) k \<longleftrightarrow> k = z \<or> ISSET_BH bh k"
proof (cases "k div 32 = z div 32")
  case True
  then have "k mod 32 = z mod 32 \<longleftrightarrow> k = z" using same_place by metis
  then show ?thesis by (simp add: ISSET_BH_bit SET_BH_def True bit_or_iff bit_single disj_commute)
next
  case False
  then have "k \<noteq> z" by auto
  then show ?thesis using False by (simp add: ISSET_BH_bit SET_BH_def)
qed

lemma ISSET_CLEAR [simp]: "ISSET_BH (CLEAR_BH z bh) k \<longleftrightarrow> k \<noteq> z \<and> ISSET_BH bh k"
proof (cases "k div 32 = z div 32")
  case True
  then have "k mod 32 = z mod 32 \<longleftrightarrow> k = z" using same_place by metis
  then show ?thesis by (simp add: ISSET_BH_bit CLEAR_BH_def True bit_and_iff bit_not_iff bit_single conj_commute)
next
  case False
  then have "k \<noteq> z" by auto
  then show ?thesis using False by (simp add: ISSET_BH_bit CLEAR_BH_def)
qed

lemma word_all_set:
  assumes "k mod 32 = 0"
  shows "WORD_BH bh k = 0xffffffff \<longleftrightarrow> (\<forall>j < 32. ISSET_BH bh (k + j))"
proof -
  have kj: "(k + j) div 32 = k div 32" "(k + j) mod 32 = j" if "j < 32" for j
    using assms that by (auto simp: div_add1_eq mod_add_eq [symmetric])
  have "(0xffffffff :: u32) = mask 32" by (simp add: mask_eq_exp_minus_1)
  then have "WORD_BH bh k = 0xffffffff \<longleftrightarrow> (\<forall>j < 32. bit (bh (k div 32)) j)"
    by (simp only: WORD_BH_def) (auto simp: bit_eq_iff bit_simps)
  then show ?thesis using kj by (simp add: ISSET_BH_bit)
qed

lemma word_all_clear:
  assumes "k mod 32 = 0"
  shows "WORD_BH bh k = 0 \<longleftrightarrow> (\<forall>j < 32. \<not> ISSET_BH bh (k + j))"
proof -
  have kj: "(k + j) div 32 = k div 32" "(k + j) mod 32 = j" if "j < 32" for j
    using assms that by (auto simp: div_add1_eq mod_add_eq [symmetric])
  have "WORD_BH bh k = 0 \<longleftrightarrow> (\<forall>j < 32. \<not> bit (bh (k div 32)) j)"
    by (simp only: WORD_BH_def) (auto simp: bit_eq_iff dest: bit_imp_le_length)
  then show ?thesis using kj by (simp add: ISSET_BH_bit)
qed

section \<open>Scans\<close>

lemma skip_ok: "\<lbrakk> \<And>i. i < m \<Longrightarrow> P (k + d * i); \<not> P (k + d * m) \<rbrakk> \<Longrightarrow> skip P d k = Some (k + d * m)"
proof (induction m arbitrary: k)
  case 0
  then show ?case by (subst skip.simps) simp
next
  case (Suc m)
  have "P k" using Suc.prems(1) [of 0] by simp
  moreover have "skip P d (k + d) = Some (k + d + d * m)"
    using Suc.prems(1) [of "Suc i" for i] Suc.prems(2) by (intro Suc.IH) (simp_all add: algebra_simps)
  ultimately show ?case by (subst skip.simps) (simp add: algebra_simps)
qed

lemma skip1_ok: "\<lbrakk> k \<le> e; \<And>i. k \<le> i \<Longrightarrow> i < e \<Longrightarrow> P i; \<not> P e \<rbrakk> \<Longrightarrow> skip P 1 k = Some e"
  using skip_ok [of "e - k" P k 1] by simp

text \<open>Bit by bit to a multiple of 32, word by word, and bit by bit to the end.\<close>

lemma scan_ok:
  assumes W: "\<And>k. k mod 32 = 0 \<Longrightarrow> W k \<longleftrightarrow> (\<forall>j < 32. Q (k + j))"
    and run: "k \<le> e" "\<And>i. k \<le> i \<Longrightarrow> i < e \<Longrightarrow> Q i" "\<not> Q e"
  shows "(do { k \<leftarrow> skip (\<lambda>k. Q k \<and> UNALIGNED_BH k) 1 k;
     if Q k then do { k \<leftarrow> skip W 32 k; skip Q 1 k } else Some k }) = Some e"
proof -
  define a where "a = 32 * ((k + 31) div 32)"
  have a: "k \<le> a" "a < k + 32" "a mod 32 = 0" by (auto simp: a_def)
  have un: "UNALIGNED_BH i" if "k \<le> i" "i < a" for i
  proof -
    have "i mod 32 \<noteq> 0"
    proof
      assume "i mod 32 = 0"
      then obtain q where "i = 32 * q" by (metis mod_0_imp_dvd dvdE)
      then show False using that by (simp add: a_def)
    qed
    then show ?thesis by (simp add: UNALIGNED_BH_def)
  qed
  show ?thesis
  proof (cases "e \<le> a")
    case True
    show ?thesis
    proof (cases "e = a \<or> e < a")
      case True
      have "skip (\<lambda>k. Q k \<and> UNALIGNED_BH k) 1 k = Some e"
        by (rule skip1_ok) (use run un \<open>e \<le> a\<close> in auto)
      then show ?thesis using run(3) by simp
    qed (use True in simp)
  next
    case False
    have 1: "skip (\<lambda>k. Q k \<and> UNALIGNED_BH k) 1 k = Some a"
      by (rule skip1_ok) (use run un a False in \<open>auto simp: UNALIGNED_BH_def\<close>)
    define m where "m = (e - a) div 32"
    have m: "a + 32 * m \<le> e" "e < a + 32 * m + 32" using False by (auto simp: m_def)
    have "skip W 32 a = Some (a + 32 * m)"
    proof (rule skip_ok)
      fix i assume i: "i < m"
      then have "a + 32 * i + j < e" if "j < 32" for j using m that by simp
      then show "W (a + 32 * i)" using W [of "a + 32 * i"] a run(2) by auto
    next
      have "a + 32 * m + (e - (a + 32 * m)) = e" "e - (a + 32 * m) < 32" using m by auto
      then show "\<not> W (a + 32 * m)" using W [of "a + 32 * m"] a(3) run(3) by auto
    qed
    moreover have "skip Q 1 (a + 32 * m) = Some e" by (rule skip1_ok) (use m run a in auto)
    moreover have "Q a" using run(2) a(1) False by simp
    ultimately show ?thesis using 1 by simp
  qed
qed

lemma skip_set_ok: "\<lbrakk> k \<le> e; \<And>i. k \<le> i \<Longrightarrow> i < e \<Longrightarrow> ISSET_BH bh i; \<not> ISSET_BH bh e \<rbrakk> \<Longrightarrow> skip_set bh k = Some e"
  unfolding skip_set_def by (rule scan_ok [OF word_all_set])

lemma skip_clear_ok: "\<lbrakk> k \<le> e; \<And>i. k \<le> i \<Longrightarrow> i < e \<Longrightarrow> \<not> ISSET_BH bh i; ISSET_BH bh e \<rbrakk> \<Longrightarrow> skip_clear bh k = Some e"
  unfolding skip_clear_def by (rule scan_ok [OF word_all_clear]) simp_all

text \<open>The first place from \<open>k\<close> on that satisfies \<open>P\<close>.\<close>

lemma first_place: "P m \<Longrightarrow> k \<le> m \<Longrightarrow> \<exists>e \<ge> k. e \<le> m \<and> P e \<and> (\<forall>i. k \<le> i \<longrightarrow> i < e \<longrightarrow> \<not> P i)" for m k :: nat
  using exists_least_iff [of "\<lambda>e. k \<le> e \<and> P e"] by (metis leI le_trans less_imp_le_nat)

section \<open>Marking\<close>

lemma mark_fold:
  "\<exists>bh'. fold (\<lambda>i (cc, bh). let cc1 = int (eclass (f (nat i))) in if cc \<noteq> cc1 then (cc1, SET_BH (nat i) bh) else (cc, bh))
      [int p..int (p + m)] (-1, bh) = (int (eclass (f (p + m))), bh') \<and>
    (\<forall>k. ISSET_BH bh' k \<longleftrightarrow> ISSET_BH bh k \<or> k = p \<or> (p < k \<and> k \<le> p + m \<and> eclass (f (k - 1)) \<noteq> eclass (f k)))"
proof (induction m)
  case 0
  show ?case by (auto simp: Let_def)
next
  case (Suc m)
  let ?F = "\<lambda>i (cc, bh). let cc1 = int (eclass (f (nat i))) in if cc \<noteq> cc1 then (cc1, SET_BH (nat i) bh) else (cc, bh)"
  obtain bh' where I: "fold ?F [int p..int (p + m)] (-1, bh) = (int (eclass (f (p + m))), bh')"
    and B: "\<And>k. ISSET_BH bh' k \<longleftrightarrow> ISSET_BH bh k \<or> k = p \<or> (p < k \<and> k \<le> p + m \<and> eclass (f (k - 1)) \<noteq> eclass (f k))"
    using Suc by blast
  let ?k = "p + Suc m" and ?bh = "if eclass (f (p + m)) = eclass (f (p + Suc m)) then bh' else SET_BH (p + Suc m) bh'"
  have up: "[int p..int ?k] = [int p..int (p + m)] @ [int ?k]" by (simp add: upto_rec2 add.assoc)
  have n: "nat (int ?k) = ?k" by (rule nat_int)
  have "fold ?F [int p..int ?k] (-1, bh) = (int (eclass (f ?k)), ?bh)"
    unfolding up fold_append comp_apply I by (simp add: Let_def n del: of_nat_add of_nat_Suc)
  moreover have "ISSET_BH ?bh k \<longleftrightarrow> ISSET_BH bh k \<or> k = p \<or> (p < k \<and> k \<le> ?k \<and> eclass (f (k - 1)) \<noteq> eclass (f k))" for k
  proof (cases "k = ?k")
    case True
    then show ?thesis by (simp add: B)
  next
    case False
    then have "k \<le> ?k \<longleftrightarrow> k \<le> p + m" by linarith
    then show ?thesis using False by (simp add: B)
  qed
  ultimately show ?case by blast
qed

lemma mark_classes_ok:
  "p \<le> q \<Longrightarrow> ISSET_BH (mark_classes eclass f (int p) (int q) bh) k \<longleftrightarrow>
    ISSET_BH bh k \<or> k = p \<or> (p < k \<and> k \<le> q \<and> eclass (f (k - 1)) \<noteq> eclass (f k))"
proof -
  assume "p \<le> q"
  then have q: "p + (q - p) = q" by simp
  obtain bh' where I: "fold (\<lambda>i (cc, bh). let cc1 = int (eclass (f (nat i))) in if cc \<noteq> cc1 then (cc1, SET_BH (nat i) bh) else (cc, bh))
      [int p..int q] (-1, bh) = (int (eclass (f q)), bh')"
    and B: "\<forall>k. ISSET_BH bh' k \<longleftrightarrow> ISSET_BH bh k \<or> k = p \<or> (p < k \<and> k \<le> q \<and> eclass (f (k - 1)) \<noteq> eclass (f k))"
    using mark_fold [of eclass f p "q - p" bh] unfolding q by (elim exE conjE)
  then show ?thesis by (simp only: mark_classes_def snd_conv)
qed

end
