(* ===== verification/BucketInit.thy ===== *)
theory BucketInit
  imports BhTable HuffCodes
begin

text \<open>
  The first step of \<open>fallbackSort\<close>: a counting sort of the rotations by their first byte, with the bits set at the
  starts of the buckets. \<open>cnt\<close> and \<open>below\<close> (of \<open>HuffCodes\<close>) count the equal and the smaller elements of an array.
\<close>

text \<open>\<open>f\<close> is in order of \<open>v\<close>, and the bits are where \<open>v\<close> changes.\<close>

definition level :: "nat \<Rightarrow> (nat \<Rightarrow> nat) \<Rightarrow> (nat \<Rightarrow> nat) \<Rightarrow> (nat \<Rightarrow> u32) \<Rightarrow> bool" where
  "level n v f bh \<longleftrightarrow> (\<forall>i. 0 < i \<longrightarrow> i < n \<longrightarrow> v (f (i - 1)) \<le> v (f i) \<and> (ISSET_BH bh i \<longleftrightarrow> v (f (i - 1)) \<noteq> v (f i)))"

text \<open>The two sentinels the scans rely on, and the first bucket.\<close>

definition fenced :: "nat \<Rightarrow> (nat \<Rightarrow> u32) \<Rightarrow> bool" where
  "fenced n bh \<longleftrightarrow> ISSET_BH bh 0 \<and> ISSET_BH bh n \<and> \<not> ISSET_BH bh (n + 1)"

abbreviation byte_of :: "(nat \<Rightarrow> u8) \<Rightarrow> nat \<Rightarrow> nat" where
  "byte_of b i \<equiv> unat (b i)"

lemma byte_of_less: "byte_of b i < 256"
  using unsigned_less [of "b i", where ?'a = nat] by simp

lemma bucket_counts_eq: "c < 257 \<Longrightarrow> bucket_counts b n c = int (cnt (byte_of b) n c)"
proof -
  assume c: "c < 257"
  have "fold (\<lambda>i f. f(byte_of b i := f (byte_of b i) + 1)) [0..<n] f c = f c + int (cnt (byte_of b) n c)" for f :: "nat \<Rightarrow> int"
    by (induction n) auto
  moreover have "fold (\<lambda>i f. f(i := 0)) [0..<257] (\<lambda>_. 0) c = (0 :: int)" using c by (simp add: fold_zero)
  ultimately show ?thesis by (simp only: bucket_counts_def)
qed

lemma bucket_ends_eq:
  assumes "c < 257"
  shows "bucket_ends (bucket_counts b n) c = int (below (byte_of b) n c + cnt (byte_of b) n c)"
proof -
  have s: "(\<Sum>j \<le> c. int (cnt (byte_of b) n j)) = int (below (byte_of b) n (Suc c))" for c by (induction c) auto
  have "[1..<257] = [1..<Suc 256]" by simp
  then have "bucket_ends (bucket_counts b n) c = (\<Sum>j \<le> c. bucket_counts b n j)"
    using assms by (simp only: bucket_ends_def fold_prefix_sums) simp
  also have "\<dots> = (\<Sum>j \<le> c. int (cnt (byte_of b) n j))" by (rule sum.cong) (use assms in \<open>auto simp: bucket_counts_eq\<close>)
  finally show ?thesis by (simp add: s)
qed

text \<open>The place of rotation \<open>i\<close>: its bucket is filled from the end.\<close>

definition place :: "(nat \<Rightarrow> u8) \<Rightarrow> nat \<Rightarrow> nat \<Rightarrow> nat" where
  "place b n i = below (byte_of b) n (byte_of b i) + cnt (byte_of b) n (byte_of b i) - 1 - cnt (byte_of b) i (byte_of b i)"

lemma place_bounds:
  assumes "i < n"
  shows "below (byte_of b) n (byte_of b i) \<le> place b n i"
    "place b n i < below (byte_of b) n (byte_of b i) + cnt (byte_of b) n (byte_of b i)" "place b n i < n"
  using cnt_less [OF assms, of "byte_of b"] below_cnt_le [of "byte_of b" n "byte_of b i"] by (auto simp: place_def)

lemma below_step: "c < d \<Longrightarrow> below l n c + cnt l n c \<le> below l n d"
proof -
  assume "c < d"
  then have "below l n (Suc c) \<le> below l n d" using below_mono [of "Suc c" d] by simp
  then show ?thesis by simp
qed

lemma place_less: "i < n \<Longrightarrow> j < n \<Longrightarrow> byte_of b i < byte_of b j \<Longrightarrow> place b n i < place b n j"
  using place_bounds(2) [of i n b] place_bounds(1) [of j n b] below_step [of "byte_of b i" "byte_of b j" "byte_of b" n] by linarith

lemma place_inj: "inj_on (place b n) {..<n}"
proof (rule inj_onI)
  fix i j assume ij: "i \<in> {..<n}" "j \<in> {..<n}" "place b n i = place b n j"
  have "byte_of b i = byte_of b j" using place_less [of i n j b] place_less [of j n i b] ij by (metis lessThan_iff less_irrefl linorder_neqE_nat)
  then have "cnt (byte_of b) i (byte_of b i) = cnt (byte_of b) j (byte_of b j)"
    using ij cnt_less [of i n "byte_of b"] cnt_less [of j n "byte_of b"] unfolding place_def by auto
  then show "i = j" using \<open>byte_of b i = byte_of b j\<close> cnt_less [of i j "byte_of b"] cnt_less [of j i "byte_of b"]
    by (metis less_irrefl linorder_neqE_nat)
qed

lemma place_bij: "bij_betw (place b n) {..<n} {..<n}"
proof -
  have "place b n ` {..<n} \<subseteq> {..<n}" using place_bounds(3) by auto
  then have "place b n ` {..<n} = {..<n}" using place_inj by (intro endo_inj_surj) auto
  then show ?thesis using place_inj by (simp add: bij_betw_def)
qed

lemma bucket_sort_fold:
  assumes "m \<le> n"
  shows "\<exists>ftab fmap. bucket_sort b m (bucket_ends (bucket_counts b n), f) = (ftab, fmap) \<and>
    (\<forall>c < 256. ftab c = int (below (byte_of b) n c + cnt (byte_of b) n c) - int (cnt (byte_of b) m c)) \<and>
    (\<forall>i < m. fmap (place b n i) = i)"
  using assms
proof (induction m)
  case 0
  show ?case by (simp add: bucket_sort_def bucket_ends_eq)
next
  case (Suc m)
  obtain ftab fmap where I: "bucket_sort b m (bucket_ends (bucket_counts b n), f) = (ftab, fmap)"
    "\<forall>c < 256. ftab c = int (below (byte_of b) n c + cnt (byte_of b) n c) - int (cnt (byte_of b) m c)"
    "\<forall>i < m. fmap (place b n i) = i" using Suc by auto
  let ?c = "byte_of b m"
  have "ftab ?c - 1 = int (place b n m)"
    using I(2) byte_of_less [of b m] cnt_less [of m n "byte_of b"] Suc.prems by (simp add: place_def)
  then have k: "ftab ?c - 1 = int (place b n m)" "nat (ftab ?c - 1) = place b n m" by simp_all
  have "bucket_sort b (Suc m) (bucket_ends (bucket_counts b n), f) = (ftab(?c := ftab ?c - 1), fmap(place b n m := m))"
    using I(1) by (simp add: bucket_sort_def Let_def k(2))
  moreover have "\<forall>i < Suc m. (fmap(place b n m := m)) (place b n i) = i"
  proof (intro allI impI)
    fix i assume i: "i < Suc m"
    have "place b n i \<noteq> place b n m" if "i < m" using inj_onD [OF place_inj, of b n i m] that Suc.prems by auto
    then show "(fmap(place b n m := m)) (place b n i) = i" using I(3) i by (auto simp: less_Suc_eq)
  qed
  moreover have "\<forall>c < 256. (ftab(?c := ftab ?c - 1)) c = int (below (byte_of b) n c + cnt (byte_of b) n c) - int (cnt (byte_of b) (Suc m) c)"
    using I(2) by auto
  ultimately show ?case by blast
qed

lemma bucket_sort_ok:
  assumes "bucket_sort b n (bucket_ends (bucket_counts b n), f0) = (ftab, f)"
  shows "\<And>c. c < 256 \<Longrightarrow> ftab c = int (below (byte_of b) n c)" "\<And>i. i < n \<Longrightarrow> f (place b n i) = i"
    "bij_betw f {..<n} {..<n}" "\<And>k. k < n \<Longrightarrow> place b n (f k) = k"
proof -
  show t: "\<And>c. c < 256 \<Longrightarrow> ftab c = int (below (byte_of b) n c)" and p: "\<And>i. i < n \<Longrightarrow> f (place b n i) = i"
    using bucket_sort_fold [of n n b f0] assms by auto
  show q: "place b n (f k) = k" if "k < n" for k
  proof -
    obtain i where "i < n" "place b n i = k" using place_bij [of b n] \<open>k < n\<close> by (metis bij_betw_imp_surj_on imageE lessThan_iff)
    then show ?thesis using p by auto
  qed
  have "f ` {..<n} = {..<n}"
  proof
    show "f ` {..<n} \<subseteq> {..<n}"
    proof
      fix x assume "x \<in> f ` {..<n}"
      then obtain k where k: "k < n" "x = f k" by auto
      then obtain i where "i < n" "place b n i = k" using place_bij [of b n] by (metis bij_betw_imp_surj_on imageE lessThan_iff)
      then show "x \<in> {..<n}" using p k by auto
    qed
    show "{..<n} \<subseteq> f ` {..<n}" using p place_bounds(3) by (metis image_eqI lessThan_iff subsetI)
  qed
  then show "bij_betw f {..<n} {..<n}" by (simp add: bij_betw_def eq_card_imp_inj_on)
qed

section \<open>The bit table at the start\<close>

lemma ISSET_zero: "bh (k div 32) = 0 \<Longrightarrow> \<not> ISSET_BH bh k"
  by (simp add: ISSET_BH_def)

lemma fold_clear: "fold (\<lambda>i bh. bh(i := (0 :: u32))) [0..<m] bh = (\<lambda>i. if i < m then 0 else bh i)"
  by (induction m) (auto simp: fun_eq_iff less_Suc_eq)

lemma fold_SET: "ISSET_BH (fold (\<lambda>i bh. SET_BH (g i) bh) xs bh) k \<longleftrightarrow> k \<in> g ` set xs \<or> ISSET_BH bh k"
  by (induction xs arbitrary: bh) auto

lemma fold_fence:
  "ISSET_BH (fold (\<lambda>i bh. CLEAR_BH (n + 2 * i + 1) (SET_BH (n + 2 * i) bh)) [0..<m] bh) k \<longleftrightarrow>
    (if n \<le> k \<and> k < n + 2 * m then even (k - n) else ISSET_BH bh k)"
proof (induction m)
  case (Suc m)
  show ?case using Suc by (auto simp: less_Suc_eq)
qed auto

lemma init_bhtab_ok:
  assumes "\<And>c. c < 256 \<Longrightarrow> ftab c = int (s c)"
  shows "k \<le> n \<Longrightarrow> ISSET_BH (init_bhtab n ftab bh) k \<longleftrightarrow> k = n \<or> k \<in> s ` {..<256}"
    "\<not> ISSET_BH (init_bhtab n ftab bh) (n + 1)"
proof -
  have e: "ISSET_BH (init_bhtab n ftab bh) k \<longleftrightarrow> (if n \<le> k \<and> k < n + 64 then even (k - n)
      else k \<in> s ` {..<256} \<or> ISSET_BH (\<lambda>i. if i < 2 + n div 32 then 0 else bh i) k)" for k
  proof -
    have "(\<lambda>i. nat (ftab i)) ` set [0..<256] = s ` {..<256}" using assms by (force intro!: image_cong)
    then show ?thesis unfolding init_bhtab_def Let_def fold_fence fold_SET fold_clear by simp
  qed
  have "\<not> ISSET_BH (\<lambda>i. if i < 2 + n div 32 then 0 else bh i) k" if "k \<le> n" for k
    by (rule ISSET_zero) (use div_le_mono [OF that, of 32] in simp)
  then show "k \<le> n \<Longrightarrow> ISSET_BH (init_bhtab n ftab bh) k \<longleftrightarrow> k = n \<or> k \<in> s ` {..<256}"
    unfolding e by auto
  show "\<not> ISSET_BH (init_bhtab n ftab bh) (n + 1)" unfolding e by simp
qed

lemma first_level:
  assumes B: "bucket_sort b n (bucket_ends (bucket_counts b n), f0) = (ftab, f)" and n: "0 < n"
  shows "level n (byte_of b) f (init_bhtab n ftab bh)" "fenced n (init_bhtab n ftab bh)"
proof -
  note K = bucket_sort_ok [OF B]
  let ?S = "below (byte_of b) n"
  have I: "ISSET_BH (init_bhtab n ftab bh) k \<longleftrightarrow> k = n \<or> k \<in> ?S ` {..<256}" if "k \<le> n" for k
    using init_bhtab_ok(1) [of ftab ?S k n bh] K(1) that by blast
  have "0 \<in> ?S ` {..<256}" by (rule image_eqI [of _ _ 0]) simp_all
  then show "fenced n (init_bhtab n ftab bh)"
    using I [of 0] I [of n] init_bhtab_ok(2) [of ftab ?S n bh] K(1) by (simp add: fenced_def)
  show "level n (byte_of b) f (init_bhtab n ftab bh)"
    unfolding level_def
  proof (intro allI impI)
    fix i assume i: "0 < i" "i < n"
    let ?x = "f (i - 1)" and ?y = "f i"
    have "i - 1 < n" using i by simp
    then have xy: "?x < n" "?y < n" using bij_betw_apply [OF K(3)] i(2) by auto
    have p: "place b n ?x = i - 1" "place b n ?y = i" using K(4) i by simp_all
    have le: "byte_of b ?x \<le> byte_of b ?y" using place_less [OF xy(2,1), of b] p i by linarith
    have "i \<in> ?S ` {..<256} \<longleftrightarrow> byte_of b ?x \<noteq> byte_of b ?y"
    proof
      assume "i \<in> ?S ` {..<256}"
      then obtain c where c: "?S c = i" by auto
      have "byte_of b ?x < c"
      proof (rule ccontr)
        assume "\<not> ?thesis"
        then have "?S c \<le> ?S (byte_of b ?x)" by (simp add: below_mono)
        then show False using place_bounds(1) [OF xy(1), of b] p c i by simp
      qed
      moreover have "c \<le> byte_of b ?y"
      proof (rule ccontr)
        assume "\<not> ?thesis"
        then have "?S (byte_of b ?y) + cnt (byte_of b) n (byte_of b ?y) \<le> ?S c" by (simp add: below_step)
        then show False using place_bounds(2) [OF xy(2), of b] p c by simp
      qed
      ultimately show "byte_of b ?x \<noteq> byte_of b ?y" by simp
    next
      assume "byte_of b ?x \<noteq> byte_of b ?y"
      then have "byte_of b ?x < byte_of b ?y" using le by simp
      from below_step [OF this, of "byte_of b" n] have "i \<le> ?S (byte_of b ?y)" using place_bounds(2) [OF xy(1), of b] p by linarith
      moreover have "?S (byte_of b ?y) \<le> i" using place_bounds(1) [OF xy(2), of b] p by simp
      ultimately show "i \<in> ?S ` {..<256}" using byte_of_less [of b ?y] by (intro image_eqI [of _ _ "byte_of b ?y"]) simp_all
    qed
    then show "byte_of b ?x \<le> byte_of b ?y \<and> (ISSET_BH (init_bhtab n ftab bh) i \<longleftrightarrow> byte_of b ?x \<noteq> byte_of b ?y)"
      using le I [of i] i by simp
  qed
qed

end
