(* ===== verification/Doubling.thy ===== *)
theory Doubling
  imports BucketInit QSort3
begin

text \<open>
  One pass of the sort by doubling. Rotations are compared by the numbers their first bytes spell in base 256
  (\<open>rval\<close>): of all \<open>n\<close> bytes this is the order of the rotations. A pass takes an array in order of the first \<open>H\<close> bytes, with
  its buckets marked, to one in order of the first \<open>2 * H\<close> bytes.
\<close>

section \<open>The order of the rotations\<close>

primrec rval :: "(nat \<Rightarrow> u8) \<Rightarrow> nat \<Rightarrow> nat \<Rightarrow> nat \<Rightarrow> nat" where
  "rval b n 0 x = 0"
| "rval b n (Suc H) x = rval b n H x * 256 + unat (b ((x + H) mod n))"

lemma rval_less: "rval b n H x < 256 ^ H"
proof (induction H)
  case (Suc H)
  then show ?case using byte_of_less [of b "(x + H) mod n"] by simp
qed simp

lemma rval_add: "rval b n (H + K) x = rval b n H x * 256 ^ K + rval b n K ((x + H) mod n)"
proof (induction K)
  case (Suc K)
  have "((x + H) mod n + K) mod n = (x + (H + K)) mod n" by (simp add: mod_add_left_eq add.assoc)
  then show ?case using Suc by (simp add: algebra_simps)
qed simp

lemma base_le: "b < M \<Longrightarrow> b' < M \<Longrightarrow> a * M + b \<le> a' * M + b' \<longleftrightarrow> a < a' \<or> a = a' \<and> b \<le> (b' :: nat)"
proof -
  assume m: "b < M" "b' < M"
  consider "a < a'" | "a = a'" | "a' < a" by linarith
  then show ?thesis
  proof cases
    case 1
    then have "Suc a * M \<le> a' * M" by (intro mult_le_mono1) simp
    then show ?thesis using 1 m by simp
  next
    case 3
    then have "Suc a' * M \<le> a * M" by (intro mult_le_mono1) simp
    then show ?thesis using 3 m by simp
  qed simp
qed

lemma rval_add_le:
  "rval b n (H + K) x \<le> rval b n (H + K) y \<longleftrightarrow>
     rval b n H x < rval b n H y \<or> rval b n H x = rval b n H y \<and> rval b n K ((x + H) mod n) \<le> rval b n K ((y + H) mod n)"
  unfolding rval_add by (rule base_le [OF rval_less rval_less])

lemma rval_prefix_le: "rval b n (H + K) x \<le> rval b n (H + K) y \<Longrightarrow> rval b n H x \<le> rval b n H y"
  using rval_add_le by auto

section \<open>The classes\<close>

primrec bucket_start :: "(nat \<Rightarrow> u32) \<Rightarrow> nat \<Rightarrow> nat" where
  "bucket_start bh 0 = 0"
| "bucket_start bh (Suc i) = (if ISSET_BH bh (Suc i) then Suc i else bucket_start bh i)"

lemma bucket_start_le: "bucket_start bh i \<le> i"
  by (induction i) auto

lemma bucket_start_order:
  assumes L: "level n v f bh" and ij: "i \<le> j" "j < n"
  shows "v (f i) \<le> v (f j) \<and> bucket_start bh i \<le> bucket_start bh j \<and> (bucket_start bh i = bucket_start bh j \<longleftrightarrow> v (f i) = v (f j))"
  using ij
proof (induction j rule: dec_induct)
  case (step j)
  have s: "v (f j) \<le> v (f (Suc j)) \<and> (ISSET_BH bh (Suc j) \<longleftrightarrow> v (f j) \<noteq> v (f (Suc j)))"
    using L step.prems by (auto simp: level_def dest: spec [of _ "Suc j"])
  have IH: "v (f i) \<le> v (f j) \<and> bucket_start bh i \<le> bucket_start bh j \<and> (bucket_start bh i = bucket_start bh j \<longleftrightarrow> v (f i) = v (f j))"
    using step by simp
  show ?case using s IH bucket_start_le [of bh i] bucket_start_le [of bh j] step.hyps by auto
qed simp

lemma fold_upto: "fold F [0..<Suc m] a = F m (fold F [0..<m] a)"
  by simp

lemma set_classes_fold:
  assumes "H \<le> n" "inj_on f {..<n}" "\<forall>i < n. f i < n" "m \<le> n"
  shows "\<exists>e. fold (\<lambda>i (j, eclass).
      let j = (if ISSET_BH bh i then i else j); k = int (f i) - int H; k = (if k < 0 then k + int n else k)
      in (j, eclass(nat k := j))) [0..<m] (0, e0) = (bucket_start bh (m - 1), e) \<and>
    (\<forall>i < m. e ((f i + n - H) mod n) = bucket_start bh i)"
  using assms(4)
proof (induction m)
  case (Suc m)
  let ?F = "\<lambda>i (j, eclass).
      let j = (if ISSET_BH bh i then i else j); k = int (f i) - int H; k = (if k < 0 then k + int n else k)
      in (j, eclass(nat k := j))"
  obtain e where I: "fold ?F [0..<m] (0, e0) = (bucket_start bh (m - 1), e)" "\<forall>i < m. e ((f i + n - H) mod n) = bucket_start bh i"
    using Suc.IH Suc.prems Suc_leD by blast
  let ?k = "int (f m) - int H"
  have fm: "f m < n" using assms(3) Suc.prems by simp
  have k: "nat (if ?k < 0 then ?k + int n else ?k) = (f m + n - H) mod n"
  proof (cases "f m < H")
    case True
    then have "(f m + n - H) mod n = f m + n - H" by (intro mod_less) (use assms(1) in linarith)
    then show ?thesis using True assms(1) by simp
  next
    case False
    then have e: "f m + n - H = (f m - H) + n" by linarith
    have "(f m - H) mod n = f m - H" using fm by (intro mod_less) linarith
    then have "(f m + n - H) mod n = f m - H" unfolding e by (simp only: mod_add_self2)
    then show ?thesis using False by simp
  qed
  have j: "(if ISSET_BH bh m then m else bucket_start bh (m - 1)) = bucket_start bh m" by (cases m) simp_all
  have "fold ?F [0..<Suc m] (0, e0) = (bucket_start bh m, e((f m + n - H) mod n := bucket_start bh m))"
    unfolding fold_upto I(1) by (simp only: prod.case Let_def j k)
  moreover have "(e((f m + n - H) mod n := bucket_start bh m)) ((f i + n - H) mod n) = bucket_start bh i" if "i < Suc m" for i
  proof (cases "i = m")
    case False
    then have i: "i < m" using that by simp
    have "(f i + n - H) mod n \<noteq> (f m + n - H) mod n"
    proof
      assume e: "(f i + n - H) mod n = (f m + n - H) mod n"
      have "((f x + n - H) mod n + H) mod n = f x" if "x < n" for x
        using assms(1,3) that by (simp add: mod_add_left_eq)
      then have "f i = f m" using e i Suc.prems by (metis Suc_le_eq less_trans)
      then have "i = m" by (rule inj_onD [OF assms(2)]) (use i Suc.prems in auto)
      then show False using i by simp
    qed
    then show ?thesis using I(2) i by simp
  qed simp
  ultimately show ?case unfolding diff_Suc_1 by blast
qed simp

text \<open>The classes compare the rotations \<open>H\<close> places further on.\<close>

lemma set_classes_ok:
  assumes L: "level n v f bh" and H: "H \<le> n" and f: "bij_betw f {..<n} {..<n}" and xy: "x < n" "y < n"
  shows "set_classes n H bh f e0 x \<le> set_classes n H bh f e0 y \<longleftrightarrow> v ((x + H) mod n) \<le> v ((y + H) mod n)"
proof -
  have i: "inj_on f {..<n}" "\<forall>i < n. f i < n" using f by (auto simp: bij_betw_def)
  from set_classes_fold [OF H i, of n bh e0] obtain e where
      e: "set_classes n H bh f e0 = e" "\<forall>i < n. e ((f i + n - H) mod n) = bucket_start bh i"
    by (auto simp: set_classes_def)
  have at: "\<exists>i < n. f i = (x + H) mod n \<and> e x = bucket_start bh i" if "x < n" for x
  proof -
    have "(x + H) mod n \<in> f ` {..<n}" using f that by (simp add: bij_betw_def)
    then obtain i where i: "i < n" "f i = (x + H) mod n" by auto
    have "((x + H) mod n + n - H) mod n = x"
    proof (cases "x + H < n")
      case False
      then have "(x + H) mod n = x + H - n" using H that by (simp add: mod_if)
      then show ?thesis using False H that by simp
    qed (use that in simp)
    then show ?thesis using i e(2) by (metis)
  qed
  obtain i j where ij: "i < n" "f i = (x + H) mod n" "e x = bucket_start bh i" "j < n" "f j = (y + H) mod n" "e y = bucket_start bh j"
    using at [OF xy(1)] at [OF xy(2)] by auto
  show ?thesis
  proof (cases "i \<le> j")
    case True
    then show ?thesis using bucket_start_order [OF L True] ij e(1) by simp
  next
    case False
    then show ?thesis using bucket_start_order [OF L, of j i] ij e(1) by auto
  qed
qed

end
