(* ===== verification/SortPass.thy ===== *)
theory SortPass
  imports Doubling
begin

text \<open>
  The loop over the buckets of one pass. Up to a place \<open>p\<close> the array is in the finer order \<open>v2\<close>, from there on still in
  the order \<open>v1\<close>; a round sorts the next bucket with more than one element by its classes and marks the new buckets in it.
\<close>

definition step_ok :: "(nat \<Rightarrow> nat) \<Rightarrow> (nat \<Rightarrow> nat) \<Rightarrow> (nat \<Rightarrow> u32) \<Rightarrow> nat \<Rightarrow> bool" where
  "step_ok v f bh i \<longleftrightarrow> v (f (i - 1)) \<le> v (f i) \<and> (ISSET_BH bh i \<longleftrightarrow> v (f (i - 1)) \<noteq> v (f i))"

lemma level_step_ok: "level n v f bh \<longleftrightarrow> (\<forall>i. 0 < i \<longrightarrow> i < n \<longrightarrow> step_ok v f bh i)"
  by (simp add: level_def step_ok_def)

definition mid :: "nat \<Rightarrow> (nat \<Rightarrow> nat) \<Rightarrow> (nat \<Rightarrow> nat) \<Rightarrow> nat \<Rightarrow> (nat \<Rightarrow> nat) \<Rightarrow> (nat \<Rightarrow> u32) \<Rightarrow> bool" where
  "mid n v1 v2 p f bh \<longleftrightarrow> p \<le> n \<and> bij_betw f {..<n} {..<n} \<and> fenced n bh \<and> ISSET_BH bh p \<and>
     (\<forall>i. 0 < i \<longrightarrow> i < p \<longrightarrow> step_ok v2 f bh i) \<and> (\<forall>i. 0 < i \<longrightarrow> p \<le> i \<longrightarrow> i < n \<longrightarrow> step_ok v1 f bh i)"

definition refines :: "nat \<Rightarrow> (nat \<Rightarrow> nat) \<Rightarrow> (nat \<Rightarrow> nat) \<Rightarrow> (nat \<Rightarrow> nat) \<Rightarrow> bool" where
  "refines n v1 v2 ec \<longleftrightarrow> (\<forall>x < n. \<forall>y < n. v2 x \<le> v2 y \<longleftrightarrow> v1 x < v1 y \<or> v1 x = v1 y \<and> ec x \<le> ec y)"

lemma refines_less: "refines n v1 v2 ec \<Longrightarrow> x < n \<Longrightarrow> y < n \<Longrightarrow> v1 x < v1 y \<Longrightarrow> v2 x < v2 y"
  unfolding refines_def by (metis leD leI less_imp_le_nat less_irrefl_nat less_asym')

lemma refines_eq: "refines n v1 v2 ec \<Longrightarrow> x < n \<Longrightarrow> y < n \<Longrightarrow> v1 x = v1 y \<Longrightarrow> (v2 x \<le> v2 y \<longleftrightarrow> ec x \<le> ec y) \<and> (v2 x \<noteq> v2 y \<longleftrightarrow> ec x \<noteq> ec y)"
  unfolding refines_def by (metis dual_order.eq_iff less_irrefl_nat)

lemma step_ok_less: "refines n v1 v2 ec \<Longrightarrow> f (i - 1) < n \<Longrightarrow> f i < n \<Longrightarrow> ISSET_BH bh i \<Longrightarrow> v1 (f (i - 1)) < v1 (f i) \<Longrightarrow> step_ok v2 f bh i"
  using refines_less [of n v1 v2 ec "f (i - 1)" "f i"] by (simp add: step_ok_def)

lemma rearr_bij:
  assumes R: "rearr (int l) (int r) f g" and "r < n" and B: "bij_betw f {..<n} {..<n}"
  shows "bij_betw g {..<n} {..<n}"
proof -
  have P: "places (int l) (int r) \<subseteq> {..<n}" using assms(2) by (auto simp: places_def)
  let ?P = "places (int l) (int r)"
  have "g ` {..<n} = g ` ?P \<union> g ` ({..<n} - ?P)" using P by blast
  also have "\<dots> = f ` ?P \<union> f ` ({..<n} - ?P)" using rearr_image [OF R] rearr_disjoint_image [OF R] by (metis Diff_disjoint)
  also have "\<dots> = f ` {..<n}" using P by blast
  finally have "g ` {..<n} = {..<n}" using B by (simp add: bij_betw_def)
  then show ?thesis by (simp add: bij_betw_def eq_card_imp_inj_on)
qed

lemma same_bucket:
  fixes l i :: nat
  assumes "\<And>i. l < i \<Longrightarrow> i \<le> r \<Longrightarrow> v (f (i - 1)) = v (f i)" "l \<le> i" "i \<le> r"
  shows "v (f i) = v (f l)"
  using assms(2,3)
proof (induction i rule: dec_induct)
  case (step i)
  then show ?case using assms(1) [of "Suc i"] by simp
qed simp

text \<open>The bucket \<open>l .. r\<close> is sorted and split.\<close>

lemma bucket_sorted:
  assumes M: "mid n v1 v2 p f bh" and V: "refines n v1 v2 ec"
    and b: "p \<le> l" "l < r" "r < n" "\<And>i. p \<le> i \<Longrightarrow> i \<le> l \<Longrightarrow> ISSET_BH bh i" "\<And>i. l < i \<Longrightarrow> i \<le> r \<Longrightarrow> \<not> ISSET_BH bh i"
      "ISSET_BH bh (Suc r)"
    and G: "rearr (int l) (int r) f g" "sorted_on ec (int l) (int r) g"
  shows "mid n v1 v2 (Suc r) g (mark_classes ec g (int l) (int r) bh)"
proof -
  let ?bh = "mark_classes ec g (int l) (int r) bh"
  have I: "ISSET_BH ?bh k \<longleftrightarrow> ISSET_BH bh k \<or> (l < k \<and> k \<le> r \<and> ec (g (k - 1)) \<noteq> ec (g k))" for k
    using mark_classes_ok [of l r ec g bh k] b(1,2) b(4) [of l] by (auto simp: less_imp_le)
  have m: "bij_betw f {..<n} {..<n}" "fenced n bh" "\<And>i. 0 < i \<Longrightarrow> i < p \<Longrightarrow> step_ok v2 f bh i"
      "\<And>i. 0 < i \<Longrightarrow> p \<le> i \<Longrightarrow> i < n \<Longrightarrow> step_ok v1 f bh i" using M by (auto simp: mid_def)
  have bij: "bij_betw g {..<n} {..<n}" by (rule rearr_bij [OF G(1) b(3) m(1)])
  then have gn: "g i < n" if "i < n" for i using that bij_betw_apply by fastforce
  have off: "g i = f i" if "i < l \<or> r < i" for i using rearr_off [OF G(1)] that by (auto simp: places_def)
  have f1: "v1 (f i) = v1 (f l)" if "l \<le> i" "i \<le> r" for i
  proof (rule same_bucket [OF _ that])
    fix j assume "l < j" "j \<le> r"
    then show "v1 (f (j - 1)) = v1 (f j)" using m(4) [of j] b by (simp add: step_ok_def)
  qed
  have g1: "v1 (g i) = v1 (f i)" for i
  proof (cases "l \<le> i \<and> i \<le> r")
    case True
    then have "i \<in> places (int l) (int r)" by (simp add: places_def)
    from rearr_mem [OF G(1) this] obtain j where "l \<le> j" "j \<le> r" "g i = f j" by (auto simp: places_def)
    then show ?thesis using f1 True by metis
  next
    case False
    then have "g i = f i" using off by auto
    then show ?thesis by simp
  qed
  have lo: "step_ok v2 g ?bh i" if i: "0 < i" "i \<le> r" for i
  proof -
    have n: "g (i - 1) < n" "g i < n" using gn i b by simp_all
    consider "i < p" | "p \<le> i" "i \<le> l" | "l < i" by linarith
    then show ?thesis
    proof cases
      case 1
      then have "i - 1 < l" "i < l" using b(1) by linarith+
      then have "g (i - 1) = f (i - 1)" "g i = f i" using off by blast+
      then show ?thesis using m(3) [OF i(1) 1] I [of i] 1 b by (simp add: step_ok_def)
    next
      case 2
      then have "v1 (g (i - 1)) < v1 (g i)" unfolding g1 using m(4) [of i] b i by (simp add: step_ok_def)
      then show ?thesis using step_ok_less [OF V n] I [of i] b(4) [of i] 2 by simp
    next
      case 3
      then have "v1 (g (i - 1)) = v1 (g i)" unfolding g1 using f1 [of i] f1 [of "i - 1"] i by simp
      note e = refines_eq [OF V n this]
      have "ec (g (i - 1)) \<le> ec (g i)" using G(2) 3 i by (simp add: sorted_on_def)
      then show ?thesis using e I [of i] b(5) [of i] 3 i by (simp add: step_ok_def)
    qed
  qed
  have hi: "step_ok v1 g ?bh i" if "r < i" "i < n" for i
    using m(4) [of i] b that I [of i] by (simp add: step_ok_def g1)
  have "fenced n ?bh" using m(2) b(3) I by (simp add: fenced_def)
  then show ?thesis using bij lo hi b(3,6) I [of "Suc r"] by (simp add: mid_def less_Suc_eq_le Suc_le_eq)
qed

text \<open>At the end of the pass only single elements are left.\<close>

lemma all_single:
  assumes M: "mid n v1 v2 p f bh" and V: "refines n v1 v2 ec" and s: "\<And>i. p \<le> i \<Longrightarrow> i < n \<Longrightarrow> ISSET_BH bh i"
  shows "level n v2 f bh"
  unfolding level_step_ok
proof (intro allI impI)
  fix i assume i: "0 < i" "i < n"
  have "f i < n" "f (i - 1) < n" using M i bij_betw_apply [of f "{..<n}" "{..<n}"] by (auto simp: mid_def)
  note n = this
  show "step_ok v2 f bh i"
  proof (cases "i < p")
    case False
    then have "ISSET_BH bh i" "step_ok v1 f bh i" using s [of i] M i by (auto simp: mid_def)
    then show ?thesis by (intro step_ok_less [OF V n(2,1)]) (simp_all add: step_ok_def)
  qed (use M i in \<open>simp add: mid_def\<close>)
qed

lemma bucket_loop_ok:
  assumes "mid n v1 v2 p f bh" and V: "refines n v1 v2 ec" and n: "n < 2 ^ 90" and "k = 0 \<longrightarrow> (\<forall>i < p. ISSET_BH bh i)"
  shows "\<exists>f' bh' k'. bucket_loop n ec (int p - 1) (f, bh, k, failed) = Some (f', bh', k', failed) \<and>
    bij_betw f' {..<n} {..<n} \<and> fenced n bh' \<and> level n v2 f' bh' \<and> (k' = 0 \<longrightarrow> (\<forall>i < n. ISSET_BH bh' i))"
  using assms(1,4)
proof (induction "n - p" arbitrary: p f bh k rule: less_induct)
  case less
  note M = less.prems(1)
  have fence: "ISSET_BH bh n" "\<not> ISSET_BH bh (n + 1)" "p \<le> n" using M by (auto simp: mid_def fenced_def)
  obtain e where e: "p \<le> e" "e \<le> n + 1" "\<not> ISSET_BH bh e" "\<And>i. p \<le> i \<Longrightarrow> i < e \<Longrightarrow> ISSET_BH bh i"
    using first_place [of "\<lambda>i. \<not> ISSET_BH bh i" "n + 1" p] fence by auto
  have se: "skip_set bh p = Some e" by (rule skip_set_ok) (use e in auto)
  show ?case
  proof (cases "e = n + 1")
    case True
    then have "bucket_step n ec (int p - 1) (f, bh, k, failed) = Some (Inl (f, bh, k, failed))"
      using se by (simp add: bucket_step_def Let_def)
    then have "bucket_loop n ec (int p - 1) (f, bh, k, failed) = Some (f, bh, k, failed)" by (subst bucket_loop.simps) simp
    moreover have "level n v2 f bh" by (rule all_single [OF M V]) (use e True in auto)
    moreover have "k = 0 \<longrightarrow> (\<forall>i < n. ISSET_BH bh i)" using less.prems(2) e(4) True by (metis leI less_SucI Suc_eq_plus1)
    ultimately show ?thesis using M by (auto simp: mid_def)
  next
    case False
    then have en: "e < n" using e fence by (metis Suc_eq_plus1 le_SucE le_neq_implies_less)
    have pe: "p < e" using e M by (metis le_neq_implies_less mid_def)
    obtain q where q: "e \<le> q" "q \<le> n" "ISSET_BH bh q" "\<And>i. e \<le> i \<Longrightarrow> i < q \<Longrightarrow> \<not> ISSET_BH bh i"
      using first_place [of "ISSET_BH bh" n e] fence en by auto
    have sq: "skip_clear bh e = Some q" by (rule skip_clear_ok) (use q in auto)
    have eq: "e < q" using e q by (metis le_neq_implies_less)
    define l r where "l = e - 1" and "r = q - 1"
    have lr: "int e - 1 = int l" "int q - 1 = int r" "l < r" "r < n" "p \<le> l" "q = Suc r" "e = Suc l"
      using pe eq q by (auto simp: l_def r_def)
    obtain g where g: "fallbackQSort3 ec (int l) (int r) (f, failed) = Some (g, failed)" "rearr (int l) (int r) f g" "sorted_on ec (int l) (int r) g"
      using fallbackQSort3_ok [of "int l" "int r" ec f failed] lr n by auto
    let ?bh = "mark_classes ec g (int l) (int r) bh" and ?k = "k + nat (int r - int l + 1)"
    have "bucket_step n ec (int p - 1) (f, bh, k, failed) = Some (Inr (int r, g, ?bh, ?k, failed))"
      using se sq lr g(1) en by (simp add: bucket_step_def Let_def)
    then have "bucket_loop n ec (int p - 1) (f, bh, k, failed) = bucket_loop n ec (int q - 1) (g, ?bh, ?k, failed)"
      unfolding lr(2) by (subst bucket_loop.simps) simp
    moreover have "mid n v1 v2 q g ?bh" unfolding lr(6)
      by (rule bucket_sorted [OF M V _ _ _ _ _ _ g(2,3)]) (use lr e q in auto)
    moreover have "?k \<noteq> 0" using lr by simp
    moreover have "n - q < n - p" using pe eq q by linarith
    ultimately show ?thesis using less.hyps [of q g ?bh ?k] by metis
  qed
qed

lemma pass_ok:
  assumes "level n v1 f bh" "fenced n bh" "bij_betw f {..<n} {..<n}" "refines n v1 v2 ec" "n < 2 ^ 90"
  shows "\<exists>f' bh' k'. bucket_loop n ec (-1) (f, bh, 0, failed) = Some (f', bh', k', failed) \<and>
    bij_betw f' {..<n} {..<n} \<and> fenced n bh' \<and> level n v2 f' bh' \<and> (k' = 0 \<longrightarrow> (\<forall>i < n. ISSET_BH bh' i))"
proof -
  have "mid n v1 v2 0 f bh" using assms by (simp add: mid_def level_step_ok fenced_def)
  from bucket_loop_ok [OF this assms(4,5), of 0 failed] show ?thesis by simp
qed

end
