(* ===== verification/FallbackSort.thy ===== *)
theory FallbackSort
  imports SortPass
begin

text \<open>
  \<open>fallbackSort\<close> as a whole: the passes end with the rotations in order, and the block that the classes have overwritten
  is rebuilt from the counts of its bytes.
\<close>

section \<open>Rotations in lexicographic order\<close>

text \<open>The rotation at \<open>x\<close> comes before the one at \<open>y\<close>: they agree up to a place where it has the smaller byte.\<close>

definition rot_less :: "(nat \<Rightarrow> u8) \<Rightarrow> nat \<Rightarrow> nat \<Rightarrow> nat \<Rightarrow> bool" where
  "rot_less b n x y \<longleftrightarrow> (\<exists>k < n. (\<forall>j < k. b ((x + j) mod n) = b ((y + j) mod n)) \<and> b ((x + k) mod n) < b ((y + k) mod n))"

definition rot_sorted :: "(nat \<Rightarrow> u8) \<Rightarrow> nat \<Rightarrow> (nat \<Rightarrow> nat) \<Rightarrow> bool" where
  "rot_sorted b n f \<longleftrightarrow> bij_betw f {..<n} {..<n} \<and> (\<forall>i j. i < j \<longrightarrow> j < n \<longrightarrow> \<not> rot_less b n (f j) (f i))"

lemma base_less: "b < M \<Longrightarrow> b' < M \<Longrightarrow> a * M + b < a' * M + b' \<longleftrightarrow> a < a' \<or> a = a' \<and> b < (b' :: nat)"
  unfolding not_le [symmetric] by (subst base_le) auto

lemma base_eq: "b < M \<Longrightarrow> b' < M \<Longrightarrow> a * M + b = a' * M + b' \<longleftrightarrow> a = a' \<and> b = (b' :: nat)"
  unfolding order.eq_iff [of "a * M + b"] by (subst (1 2) base_le) auto

lemma rval_eq: "rval b n H x = rval b n H y \<longleftrightarrow> (\<forall>j < H. b ((x + j) mod n) = b ((y + j) mod n))"
proof (induction H)
  case (Suc H)
  show ?case unfolding rval.simps base_eq [OF byte_of_less byte_of_less] Suc.IH word_unat_eq_iff [symmetric] by (auto simp: less_Suc_eq)
qed simp

lemma rval_less_rot:
  "rval b n H x < rval b n H y \<longleftrightarrow> (\<exists>k < H. (\<forall>j < k. b ((x + j) mod n) = b ((y + j) mod n)) \<and> b ((x + k) mod n) < b ((y + k) mod n))"
proof (induction H)
  case (Suc H)
  show ?case unfolding rval.simps base_less [OF byte_of_less byte_of_less] Suc.IH rval_eq word_less_nat_alt [symmetric]
    by (auto simp: less_Suc_eq)
qed simp

lemma level_sorted: "level n v f bh \<Longrightarrow> i \<le> j \<Longrightarrow> j < n \<Longrightarrow> v (f i) \<le> v (f j)"
  using bucket_start_order by blast

section \<open>The passes\<close>

lemma classes_refine:
  assumes "level n (rval b n H) f bh" "H \<le> n" "bij_betw f {..<n} {..<n}"
  shows "refines n (rval b n H) (rval b n (H + H)) (set_classes n H bh f e0)"
  unfolding refines_def using rval_add_le [of b n H H] set_classes_ok [OF assms] by auto

lemma rval_le_prefix: "K \<le> H \<Longrightarrow> rval b n H x \<le> rval b n H y \<Longrightarrow> rval b n K x \<le> rval b n K y"
  using rval_prefix_le [of b n K "H - K" x y] by simp

lemma rval_less_extend: "H \<le> K \<Longrightarrow> rval b n H x < rval b n H y \<Longrightarrow> rval b n K x < rval b n K y"
  using rval_le_prefix [of H K b n y x] by (meson not_le)

lemma depth_loop_ok:
  assumes "level n (rval b n H) f bh" "fenced n bh" "bij_betw f {..<n} {..<n}" "0 < H" "H \<le> n" and n: "n < 2 ^ 90"
  shows "\<exists>f' ec' bh'. depth_loop n H f ec bh failed = Some (f', ec', bh', failed) \<and> bij_betw f' {..<n} {..<n} \<and>
    (\<forall>i j. i < j \<longrightarrow> j < n \<longrightarrow> rval b n n (f' i) \<le> rval b n n (f' j))"
  using assms(1-5)
proof (induction "n - H" arbitrary: H f bh ec rule: less_induct)
  case less
  let ?ec = "set_classes n H bh f ec"
  obtain f' bh' k where p: "bucket_loop n ?ec (-1) (f, bh, 0, failed) = Some (f', bh', k, failed)" "bij_betw f' {..<n} {..<n}"
      "fenced n bh'" "level n (rval b n (H + H)) f' bh'" "k = 0 \<longrightarrow> (\<forall>i < n. ISSET_BH bh' i)"
    using pass_ok [OF less.prems(1-3) classes_refine [OF less.prems(1,5,3)] n] by blast
  show ?case
  proof (cases "H * 2 > n \<or> k = 0")
    case True
    have "depth_loop n H f ec bh failed = Some (f', ?ec, bh', failed)"
      using p(1) True by (subst depth_loop.simps) (simp add: Let_def)
    moreover have "rval b n n (f' i) \<le> rval b n n (f' j)" if ij: "i < j" "j < n" for i j
    proof (cases "n < H * 2")
      case True
      then show ?thesis using rval_le_prefix [of n "H + H" b n] level_sorted [OF p(4), of i j] ij by simp
    next
      case False
      then have s: "ISSET_BH bh' j" using True p(5) ij by auto
      have "j - 1 < n" using ij by simp
      then have "rval b n (H + H) (f' i) \<le> rval b n (H + H) (f' (j - 1))" using ij by (intro level_sorted [OF p(4)]) simp_all
      also have "\<dots> < rval b n (H + H) (f' j)" using p(4) s ij unfolding level_def by (metis gr_implies_not0 le_neq_implies_less neq0_conv)
      finally show ?thesis using rval_less_extend [of "H + H" n b n] False by (simp add: less_imp_le)
    qed
    ultimately show ?thesis using p(2) by blast
  next
    case False
    then have "depth_loop n H f ec bh failed = depth_loop n (H + H) f' ?ec bh' failed"
      using p(1) by (subst depth_loop.simps) (simp add: Let_def mult_2_right)
    moreover have "n - (H + H) < n - H" using False less.prems(4) by linarith
    ultimately show ?thesis using less.hyps [OF _ p(4,3,2), of ?ec] False less.prems(4) by auto
  qed
qed

section \<open>The block is rebuilt\<close>

lemma cnt_bij: "bij_betw f {..<n} {..<n} \<Longrightarrow> cnt (\<lambda>i. l (f i)) n c = cnt l n c"
proof -
  assume B: "bij_betw f {..<n} {..<n}"
  have "{i. i < n \<and> l i = c} = f ` {i. i < n \<and> l (f i) = c}"
  proof
    show "{i. i < n \<and> l i = c} \<subseteq> f ` {i. i < n \<and> l (f i) = c}"
    proof
      fix x assume x: "x \<in> {i. i < n \<and> l i = c}"
      then have "x \<in> f ` {..<n}" using B by (simp add: bij_betw_def)
      then obtain i where "i < n" "x = f i" by blast
      then show "x \<in> f ` {i. i < n \<and> l (f i) = c}" using x by auto
    qed
    show "f ` {i. i < n \<and> l (f i) = c} \<subseteq> {i. i < n \<and> l i = c}"
      using bij_betw_apply [OF B] by (simp add: image_subset_iff)
  qed
  moreover have "inj_on f {i. i < n \<and> l (f i) = c}" using B by (auto simp: bij_betw_def intro: inj_on_subset)
  ultimately show ?thesis by (simp only: cnt_def card_image)
qed

lemma rebuild_loop_ok:
  assumes g: "\<And>i j. i \<le> j \<Longrightarrow> j < n \<Longrightarrow> byte_of b (f i) \<le> byte_of b (f j)" and "m \<le> n"
    and "\<And>c. c < 256 \<Longrightarrow> ft c = int (cnt (\<lambda>i. byte_of b (f i)) n c) - int (cnt (\<lambda>i. byte_of b (f i)) m c)"
    and "\<And>i. m \<le> i \<Longrightarrow> i < n \<Longrightarrow> j \<le> byte_of b (f i)" and "j < 256"
  shows "\<exists>j' e'. rebuild_loop [m..<n] f ft j e = Some (j', e') \<and> j' < 256 \<and> (\<forall>x. e' x = (if x \<in> f ` {m..<n} then b x else e x))"
  using assms(2-5)
proof (induction "n - m" arbitrary: m ft j e)
  case 0
  then show ?case by simp
next
  case (Suc d)
  let ?g = "\<lambda>i. byte_of b (f i)"
  have m: "m < n" "d = n - Suc m" using Suc.hyps(2) Suc.prems(1) by linarith+
  have "cnt ?g m c = cnt ?g n c" if "c < ?g m" for c
  proof -
    have "?g i \<noteq> c" if "m \<le> i" "i < n" for i using g [OF that] \<open>c < ?g m\<close> by linarith
    then have "{i. i < m \<and> ?g i = c} = {i. i < n \<and> ?g i = c}" using m(1) by (auto intro: less_trans) (metis not_le)
    then show ?thesis by (simp only: cnt_def)
  qed
  then have z: "ft c = 0" if "c < ?g m" for c using Suc.prems(2) [of c] byte_of_less [of b "f m"] that by simp
  have nz: "ft (?g m) \<noteq> 0" using Suc.prems(2) [of "?g m"] byte_of_less [of b "f m"] cnt_less [OF m(1), of ?g] by simp
  have sk: "skip (\<lambda>j. ft j = 0) 1 j = Some (?g m)" by (rule skip1_ok) (use z nz Suc.prems(3) [of m] m in auto)
  have "\<exists>j' e'. rebuild_loop [Suc m..<n] f (ft(?g m := ft (?g m) - 1)) (?g m) (e(f m := b (f m))) = Some (j', e') \<and> j' < 256 \<and>
      (\<forall>x. e' x = (if x \<in> f ` {Suc m..<n} then b x else (e(f m := b (f m))) x))"
    by (rule Suc.hyps(1) [OF m(2)]) (use m Suc.prems(2) g [of m] byte_of_less in auto)
  then obtain j' e' where "rebuild_loop [Suc m..<n] f (ft(?g m := ft (?g m) - 1)) (?g m) (e(f m := b (f m))) = Some (j', e')" "j' < 256"
      "\<And>x. e' x = (if x \<in> f ` {Suc m..<n} then b x else (e(f m := b (f m))) x)" by blast
  moreover have "{m..<n} = insert m {Suc m..<n}" using m by auto
  ultimately show ?case using sk by (simp add: upt_conv_Cons m(1))
qed

section \<open>The whole sort\<close>

lemma fallbackSort_sorts:
  assumes n: "0 < n" "n < 2 ^ 90"
  shows "\<exists>f b' bh'. fallbackSort n f0 b bh failed = Some (f, b', bh', failed) \<and> rot_sorted b n f \<and> (\<forall>i < n. b' i = b i)"
proof -
  obtain ftab f1 where B: "bucket_sort b n (bucket_ends (bucket_counts b n), f0) = (ftab, f1)" by (cases "bucket_sort b n (bucket_ends (bucket_counts b n), f0)")
  note K = bucket_sort_ok [OF B] and F = first_level [OF B n(1), of bh]
  have v: "rval b n 1 x = byte_of b x" if "x < n" for x using that by simp
  have "level n (rval b n 1) f1 (init_bhtab n ftab bh)"
    unfolding level_def
  proof (intro allI impI)
    fix i assume i: "0 < i" "i < n"
    then have "f1 (i - 1) < n" "f1 i < n" using bij_betw_apply [OF K(3)] by auto
    then show "rval b n 1 (f1 (i - 1)) \<le> rval b n 1 (f1 i) \<and> (ISSET_BH (init_bhtab n ftab bh) i \<longleftrightarrow> rval b n 1 (f1 (i - 1)) \<noteq> rval b n 1 (f1 i))"
      using F(1) i v by (simp only: level_def)
  qed
  from depth_loop_ok [OF this F(2) K(3) zero_less_one _ n(2), of "words_of b" failed]
  obtain f ec bh' where D: "depth_loop n 1 f1 (words_of b) (init_bhtab n ftab bh) failed = Some (f, ec, bh', failed)"
      "bij_betw f {..<n} {..<n}" "\<And>i j. i < j \<Longrightarrow> j < n \<Longrightarrow> rval b n n (f i) \<le> rval b n n (f j)" using n(1) by auto
  have fn: "f i < n" if "i < n" for i using bij_betw_apply [OF D(2)] that by auto
  have g: "byte_of b (f i) \<le> byte_of b (f j)" if "i \<le> j" "j < n" for i j
  proof (cases "i = j")
    case False
    then have "rval b n 1 (f i) \<le> rval b n 1 (f j)" using D(3) [of i j] that rval_le_prefix [of 1 n b n "f i" "f j"] by simp
    then show ?thesis using v fn that by simp
  qed simp
  have "\<exists>j' e'. rebuild_loop [0..<n] f (bucket_counts b n) 0 (bytes_of ec) = Some (j', e') \<and> j' < 256 \<and>
      (\<forall>x. e' x = (if x \<in> f ` {0..<n} then b x else bytes_of ec x))"
    by (rule rebuild_loop_ok) (use g in \<open>auto simp: bucket_counts_eq cnt_bij [OF D(2), of "byte_of b"]\<close>)
  then obtain j b' where R: "rebuild_loop [0..<n] f (bucket_counts b n) 0 (bytes_of ec) = Some (j, b')" "j < 256"
      "\<And>x. b' x = (if x \<in> f ` {0..<n} then b x else bytes_of ec x)" by blast
  have "fallbackSort n f0 b bh failed = Some (f, b', bh', failed)"
    using B D(1) R(1,2) by (simp add: fallbackSort_def Let_def AssertH_def)
  moreover have "f ` {0..<n} = {..<n}" using D(2) by (simp add: bij_betw_def atLeast0LessThan)
  then have "\<forall>i < n. b' i = b i" using R(3) by simp
  moreover have "rot_sorted b n f" unfolding rot_sorted_def rot_less_def rval_less_rot [symmetric] using D(2,3) by (simp add: not_less)
  ultimately show ?thesis by blast
qed

end
