(* ===== verification/SortBlock.thy ===== *)
theory SortBlock
  imports FallbackSort
begin

text \<open>
  \<open>BZ2_blockSort\<close>: short blocks are sorted by \<open>fallbackSort\<close>, the others from the suffix array of the doubled block.
\<close>

section \<open>The contract of \<open>libsais\<close>\<close>

text \<open>\<open>SA\<close> lists the suffixes of \<open>xs\<close> in lexicographic order.\<close>

definition suffix_array :: "u8 list \<Rightarrow> nat list \<Rightarrow> bool" where
  "suffix_array xs SA \<longleftrightarrow> mset SA = mset [0..<length xs] \<and>
     sorted_wrt (\<lambda>i j. (drop i xs, drop j xs) \<in> lexord {(a, b). a < b}) SA"

definition sais_ok :: "host \<Rightarrow> bool" where
  "sais_ok h \<longleftrightarrow> (\<forall>xs SA. libsais h xs = Some SA \<longrightarrow> suffix_array xs SA)"

lemma lexord_flip: "(xs, ys) \<in> lexord {(a, b). a < b} \<Longrightarrow> (ys, xs) \<notin> lexord {(a, b). a < (b :: u8)}"
  by (rule lexord_asymmetric) (auto intro: asymI)

lemma doubled_nth: "x < n \<Longrightarrow> k < n \<Longrightarrow> length bs = n \<Longrightarrow> drop x (bs @ bs) ! k = bs ! ((x + k) mod n)"
  by (auto simp: nth_append mod_if add.commute)

text \<open>Of two rotations the smaller one has the smaller suffix of the doubled block.\<close>

lemma rot_less_suffix:
  assumes "rot_less b n x y" "x < n" "y < n"
  shows "(drop x (map b [0..<n] @ map b [0..<n]), drop y (map b [0..<n] @ map b [0..<n])) \<in> lexord {(a, b). a < b}"
proof -
  let ?bs = "map b [0..<n]"
  have at: "drop z (?bs @ ?bs) ! k = b ((z + k) mod n)" if "z < n" "k < n" for z k
    using doubled_nth [OF that, of ?bs] that by simp
  obtain k where k: "k < n" "\<And>j. j < k \<Longrightarrow> b ((x + j) mod n) = b ((y + j) mod n)" "b ((x + k) mod n) < b ((y + k) mod n)"
    using assms(1) unfolding rot_less_def by blast
  define X Y where "X = drop x (?bs @ ?bs)" and "Y = drop y (?bs @ ?bs)"
  have XY: "k < length X" "k < length Y" using assms(2,3) k(1) by (auto simp: X_def Y_def)
  have "take k X = take k Y"
  proof (rule nth_equalityI)
    fix j assume "j < length (take k X)"
    then have j: "j < k" by simp
    then have "j < n" using k(1) by simp
    then show "take k X ! j = take k Y ! j"
      using k(2) [OF j] at [OF assms(2), of j] at [OF assms(3), of j] by (simp only: nth_take j X_def Y_def)
  qed (use XY in simp)
  moreover have "X ! k < Y ! k" using k(1,3) at assms(2,3) by (simp only: X_def Y_def)
  ultimately have "(X, Y) \<in> lexord {(a, b). a < b}"
    unfolding lexord_take_index_conv using XY by (intro disjI2 exI [of _ k]) simp
  then show ?thesis by (simp only: X_def Y_def)
qed

lemma suffix_array_rotations:
  assumes S: "suffix_array (map b [0..<n] @ map b [0..<n]) SA"
  shows "length (filter (\<lambda>x. x < n) SA) = n" "set (filter (\<lambda>x. x < n) SA) = {..<n}" "distinct (filter (\<lambda>x. x < n) SA)"
    "\<And>i j. i < j \<Longrightarrow> j < n \<Longrightarrow> \<not> rot_less b n (filter (\<lambda>x. x < n) SA ! j) (filter (\<lambda>x. x < n) SA ! i)"
proof -
  let ?L = "filter (\<lambda>x. x < n) SA" and ?T = "map b [0..<n] @ map b [0..<n]"
  have m: "mset SA = mset [0..<n + n]" using S by (simp add: suffix_array_def)
  have d: "distinct SA" "set SA = {..<n + n}"
    using mset_eq_imp_distinct_iff [OF m] mset_eq_setD [OF m] by (simp_all only: distinct_upt set_upt atLeast0LessThan)
  show s: "set ?L = {..<n}" "distinct ?L" by (auto simp only: set_filter d(2) distinct_filter d(1))
  then show l: "length ?L = n" using distinct_card [of ?L] by simp
  fix i j assume ij: "i < j" "j < n"
  have "sorted_wrt (\<lambda>i j. (drop i ?T, drop j ?T) \<in> lexord {(a, b). a < b}) ?L"
    using S by (simp add: suffix_array_def sorted_wrt_filter)
  then have less: "(drop (?L ! i) ?T, drop (?L ! j) ?T) \<in> lexord {(a, b). a < b}" using ij l by (simp add: sorted_wrt_iff_nth_less)
  have "?L ! i < n" "?L ! j < n" using nth_mem [of i ?L] nth_mem [of j ?L] ij unfolding s(1) l by simp_all
  then show "\<not> rot_less b n (?L ! j) (?L ! i)" using rot_less_suffix lexord_flip less by blast
qed

section \<open>The rotations are stored\<close>

definition store_one :: "nat \<Rightarrow> nat \<times> int \<times> estate \<Rightarrow> nat \<times> int \<times> estate" where
  "store_one x a = (case a of (j, orig, s) \<Rightarrow> (j + 1, if x = 0 then int j else orig, set_ptr j x s))"

lemma fold_guarded: "fold (\<lambda>x a. if P x then F x a else a) xs a = fold F (filter P xs) a"
  by (induction xs arbitrary: a) auto

lemma sais_store:
  "fold (\<lambda>i (j, orig, s). if SA ! i < n then (j + 1, if SA ! i = 0 then int j else orig, set_ptr j (SA ! i) s) else (j, orig, s)) [0..<length SA] a =
     fold store_one (filter (\<lambda>x. x < n) SA) a"
proof -
  have "(\<lambda>i (j, orig, s). if SA ! i < n then (j + 1, if SA ! i = 0 then int j else orig, set_ptr j (SA ! i) s) else (j, orig, s)) =
      (\<lambda>i. (\<lambda>x a. if x < n then store_one x a else a) (SA ! i))"
    by (auto simp: fun_eq_iff store_one_def)
  then have "fold (\<lambda>i (j, orig, s). if SA ! i < n then (j + 1, if SA ! i = 0 then int j else orig, set_ptr j (SA ! i) s) else (j, orig, s)) [0..<length SA] a =
      fold (\<lambda>x a. if x < n then store_one x a else a) (map (\<lambda>i. SA ! i) [0..<length SA]) a"
    by (simp only: fold_map comp_def)
  then show ?thesis unfolding map_nth fold_guarded .
qed

lemma set_ptr_arr1: "s' = s\<lparr>arr1 := A\<rparr> \<Longrightarrow> set_ptr i v s' = s\<lparr>arr1 := arr1 (set_ptr i v s')\<rparr>"
  by (simp add: set_ptr_def)

lemma store_fold:
  assumes "\<And>x. x \<in> set L \<Longrightarrow> x < 2 ^ 32"
  shows "\<exists>orig s'. fold store_one L (0, -1, s) = (length L, orig, s') \<and> s' = s\<lparr>arr1 := arr1 s'\<rparr> \<and>
    (\<forall>k < length L. ptr s' k = L ! k) \<and> (0 \<in> set L \<longrightarrow> (\<exists>k < length L. L ! k = 0 \<and> orig = int k))"
  using assms
proof (induction L rule: rev_induct)
  case (snoc x L)
  obtain orig s' where I: "fold store_one L (0, -1, s) = (length L, orig, s')" "s' = s\<lparr>arr1 := arr1 s'\<rparr>"
    "\<And>k. k < length L \<Longrightarrow> ptr s' k = L ! k" "0 \<in> set L \<longrightarrow> (\<exists>k < length L. L ! k = 0 \<and> orig = int k)"
    using snoc.IH snoc.prems by auto
  let ?o = "if x = 0 then int (length L) else orig" and ?s = "set_ptr (length L) x s'"
  have "fold store_one (L @ [x]) (0, -1, s) = (length (L @ [x]), ?o, ?s)" using I(1) by (simp add: store_one_def)
  moreover have "?s = s\<lparr>arr1 := arr1 ?s\<rparr>" by (rule set_ptr_arr1 [OF I(2)])
  moreover have "\<forall>k < length (L @ [x]). ptr ?s k = (L @ [x]) ! k" using I(3) snoc.prems by (auto simp: ptr_set_ptr nth_append)
  moreover have "0 \<in> set (L @ [x]) \<longrightarrow> (\<exists>k < length (L @ [x]). (L @ [x]) ! k = 0 \<and> ?o = int k)"
  proof (cases "x = 0")
    case True
    then show ?thesis by (auto intro!: exI [of _ "length L"])
  next
    case False
    then show ?thesis using I(4) by (auto simp: nth_append intro: less_SucI)
  qed
  ultimately show ?case by blast
qed simp

section \<open>The sort of a block\<close>

definition block_sorted :: "estate \<Rightarrow> estate \<Rightarrow> bool" where
  "block_sorted s s' \<longleftrightarrow> rot_sorted (block s) (nblock s) (ptr s') \<and> (\<forall>i < nblock s. block s' i = block s i) \<and>
     0 \<le> eorigPtr s' \<and> eorigPtr s' < int (nblock s) \<and> ptr s' (nat (eorigPtr s')) = 0 \<and>
     s' = s\<lparr>arr1 := arr1 s', block := block s', eftab := eftab s', eorigPtr := eorigPtr s'\<rparr>"

lemma rot_sorted_cong: "(\<And>i. i < n \<Longrightarrow> f i = g i) \<Longrightarrow> rot_sorted b n f = rot_sorted b n g"
proof -
  assume e: "\<And>i. i < n \<Longrightarrow> f i = g i"
  then have "bij_betw f {..<n} {..<n} = bij_betw g {..<n} {..<n}" by (intro bij_betw_cong) simp
  moreover have "(\<forall>i j. i < j \<longrightarrow> j < n \<longrightarrow> \<not> rot_less b n (f j) (f i)) = (\<forall>i j. i < j \<longrightarrow> j < n \<longrightarrow> \<not> rot_less b n (g j) (g i))"
    using e by (metis less_trans)
  ultimately show ?thesis by (simp only: rot_sorted_def)
qed

lemma sais_bwt_sorts:
  assumes n: "0 < nblock s" "nblock s < 2 ^ 32" and h: "sais_ok h" "malloc_ok h (2 * nblock s)" "malloc_ok h (2 * nblock s * 4)"
    and SA: "libsais h (block_list s @ block_list s) = Some SA"
  shows "block_sorted s (sais_bwt h s)"
proof -
  let ?n = "nblock s" let ?L = "filter (\<lambda>x. x < ?n) SA"
  have S: "suffix_array (map (block s) [0..<?n] @ map (block s) [0..<?n]) SA"
    using h(1) SA by (simp add: sais_ok_def block_list_def)
  note R = suffix_array_rotations [OF S]
  have len: "2 * ?n = length SA" using S unfolding suffix_array_def by (metis length_append length_map length_upt mult_2 minus_nat.diff_0 mset_eq_length)
  from store_fold [of ?L s] obtain orig s' where F: "fold store_one ?L (0, -1, s) = (?n, orig, s')" "s' = s\<lparr>arr1 := arr1 s'\<rparr>"
    "\<And>k. k < ?n \<Longrightarrow> ptr s' k = ?L ! k" "0 \<in> set ?L \<longrightarrow> (\<exists>k < ?n. ?L ! k = 0 \<and> orig = int k)" unfolding R(1) using n(2) by auto
  obtain k where k: "k < ?n" "?L ! k = 0" "orig = int k" using F(4) n(1) unfolding R(2) by auto
  have s': "sais_bwt h s = s'\<lparr>eorigPtr := orig\<rparr>"
    using h(2,3) unfolding sais_bwt_def Let_def len
    by (simp only: SA not_not simp_thms if_False if_True option.case sais_store F(1) prod.case)
  have p: "ptr (s'\<lparr>eorigPtr := orig\<rparr>) = ptr s'" by (simp add: ptr_def fun_eq_iff)
  have "bij_betw (\<lambda>i. ?L ! i) {..<?n} {..<?n}" using bij_betw_nth [OF R(3), of "{..<?n}" "{..<?n}"] R(1,2) by simp
  then have "rot_sorted (block s) ?n (\<lambda>i. ?L ! i)" using R(4) by (simp add: rot_sorted_def)
  then have "rot_sorted (block s) ?n (ptr s')" using rot_sorted_cong [of ?n "ptr s'" "\<lambda>i. ?L ! i" "block s"] F(3) by simp
  moreover have e: "block s' = block s" "eftab s' = eftab s" by (subst F(2), simp)+
  moreover have "s'\<lparr>eorigPtr := orig\<rparr> = s\<lparr>arr1 := arr1 s', block := block s', eftab := eftab s', eorigPtr := orig\<rparr>"
    unfolding e by (subst F(2)) simp
  ultimately show ?thesis using k F(3) [OF k(1)] unfolding block_sorted_def s' p by simp
qed

lemma BZ2_blockSort_sorts:
  assumes n: "0 < nblock s" "nblock s < 2 ^ 32" and h: "sais_ok h"
    and long: "10000 \<le> nblock s \<Longrightarrow> malloc_ok h (2 * nblock s) \<and> malloc_ok h (2 * nblock s * 4) \<and> libsais h (block_list s @ block_list s) \<noteq> None"
  shows "\<exists>s'. BZ2_blockSort h (s, failed) = Some (s', failed) \<and> block_sorted s s'"
proof (cases "nblock s < 10000")
  case True
  let ?n = "nblock s"
  obtain f b' bh where F: "fallbackSort ?n (ptr s) (block s) (eftab s) failed = Some (f, b', bh, failed)" "rot_sorted (block s) ?n f" "\<forall>i < ?n. b' i = block s i"
    using fallbackSort_sorts [of ?n "ptr s" "block s" "eftab s" failed] n True by auto
  have fn: "f i < ?n" if "i < ?n" for i using F(2) that unfolding rot_sorted_def by (auto dest: bij_betw_apply)
  let ?s = "(set_ptrs f s)\<lparr>block := b', eftab := bh\<rparr>"
  have p: "ptr ?s i = f i" if "i < ?n" for i using fn [OF that] n(2) ptr_set_ptrs [of f i s] by (simp add: ptr_def)
  have nb: "nblock ?s = ?n" "nblock (set_ptrs f s) = ?n" by (simp_all add: set_ptrs_def)
  have "0 \<in> f ` {..<?n}" using F(2) n(1) by (simp add: rot_sorted_def bij_betw_def)
  then obtain k where "k < ?n" "f k = 0" by auto
  then have "filter (\<lambda>i. ptr ?s i = 0) [0..<?n] \<noteq> []" using p by (auto simp: filter_empty_conv)
  then obtain i zs where i: "filter (\<lambda>i. ptr ?s i = 0) [0..<?n] = i # zs" by (meson list.exhaust)
  then have "i \<in> set (filter (\<lambda>i. ptr ?s i = 0) [0..<?n])" by (simp only: list.set_intros)
  then have i': "i < ?n" "ptr ?s i = 0" by auto
  let ?t = "?s\<lparr>eorigPtr := int i\<rparr>"
  have pt: "ptr ?t = ptr ?s" by (simp add: ptr_def fun_eq_iff)
  have "BZ2_blockSort h (s, failed) = Some (?t, failed)"
    using True F(1) i by (simp add: BZ2_blockSort_def Let_def nb AssertH_def)
  moreover have "block_sorted s ?t"
    using F(2,3) i' rot_sorted_cong [of ?n "ptr ?s" f "block s"] p unfolding block_sorted_def pt by (simp add: set_ptrs_def)
  ultimately show ?thesis by blast
next
  case False
  then have l: "malloc_ok h (2 * nblock s)" "malloc_ok h (2 * nblock s * 4)" "libsais h (block_list s @ block_list s) \<noteq> None" using long by auto
  then obtain SA where SA: "libsais h (block_list s @ block_list s) = Some SA" by auto
  have "block_sorted s (sais_bwt h s)" by (rule sais_bwt_sorts [OF n h l(1,2) SA])
  moreover from this have "BZ2_blockSort h (s, failed) = Some (sais_bwt h s, failed)"
    using False by (simp add: BZ2_blockSort_def Let_def AssertH_def block_sorted_def)
  ultimately show ?thesis by blast
qed

end
