(* ===== verification/CompressBlock.thy ===== *)
theory CompressBlock
  imports CompressApi SortBlock
begin

text \<open>
  What \<open>BZ2_compressBlock\<close> writes: the bit string of a block in terms of the fields it leaves in the state, with the
  facts that tie those fields to the block: sorted rotations, their move-to-front coding, and complete prefix codes.
\<close>

section \<open>The bits of a stream\<close>

definition head_bits :: "estate \<Rightarrow> bool list" where
  "head_bits s = (if blockNo s = 1 then bytes_bits [0x42, 0x5a, 0x68, 0x30 + word_of_nat (eblockSize100k s)] else [])"

definition block_bits :: "estate \<Rightarrow> bool list" where
  "block_bits s = bytes_bits [0x31, 0x41, 0x59, 0x26, 0x53, 0x59] @ to_bits 32 (blockCRC s) @ False #
     to_bits 24 (word_of_int (eorigPtr s) :: u32) @ body_bits s"

definition trailer_bits :: "estate \<Rightarrow> bool list" where
  "trailer_bits s = bytes_bits [0x17, 0x72, 0x45, 0x38, 0x50, 0x90] @ to_bits 32 (combinedCRC s)"

section \<open>What the block leaves alone\<close>

definition same_outer :: "estate \<Rightarrow> estate \<Rightarrow> bool" where
  "same_outer s s' \<longleftrightarrow> estrm s' = estrm s \<and> emode s' = emode s \<and> est s' = est s \<and> avail_in_expect s' = avail_in_expect s \<and>
     state_in_ch s' = state_in_ch s \<and> state_in_len s' = state_in_len s \<and> nblock s' = nblock s \<and> nblockMAX s' = nblockMAX s \<and>
     state_out_pos s' = state_out_pos s \<and> blockNo s' = blockNo s \<and> eblockSize100k s' = eblockSize100k s \<and> einUse s' = einUse s"

lemma same_outer_refl: "same_outer s s"
  by (simp add: same_outer_def)

lemma same_outer_trans: "same_outer s s' \<Longrightarrow> same_outer s' s'' \<Longrightarrow> same_outer s s''"
  by (simp add: same_outer_def)

lemma same_outer_bits: "only_bits s s' \<Longrightarrow> same_outer s s'"
  by (simp add: same_outer_def only_bits_fields)

lemma same_outer_fields [simp]:
  "same_outer s (s\<lparr>arr1 := a\<rparr>)" "same_outer s (s\<lparr>blockCRC := c\<rparr>)"
  by (simp_all add: same_outer_def)

section \<open>The pieces\<close>

definition crcs_closed :: "estate \<Rightarrow> estate" where
  "crcs_closed s = s\<lparr>blockCRC := BZ_FINALISE_CRC (blockCRC s),
     combinedCRC := (push_bit 1 (combinedCRC s) OR drop_bit 31 (combinedCRC s)) XOR BZ_FINALISE_CRC (blockCRC s)\<rparr>"

definition sort_ready :: "host \<Rightarrow> estate \<Rightarrow> bool" where
  "sort_ready h s \<longleftrightarrow> sais_ok h \<and> (10000 \<le> nblock s \<longrightarrow> malloc_ok h (2 * nblock s) \<and> malloc_ok h (2 * nblock s * 4) \<and>
     libsais h (block_list s @ block_list s) \<noteq> None)"

lemma close_block_ok:
  assumes "0 < nblock s" "nblock s < 2 ^ 32" "sort_ready h s" "numZ s = 0"
  shows "\<exists>s'. close_block h s = Some (s', None) \<and> block_sorted (crcs_closed s) s'"
proof -
  let ?s = "crcs_closed s"
  have f: "nblock ?s = nblock s" "block_list ?s = block_list s" by (simp_all add: crcs_closed_def block_list_def)
  have "(let t = s\<lparr>blockCRC := BZ_FINALISE_CRC (blockCRC s)\<rparr>;
          t = t\<lparr>combinedCRC := push_bit 1 (combinedCRC t) OR drop_bit 31 (combinedCRC t)\<rparr>;
          t = t\<lparr>combinedCRC := combinedCRC t XOR blockCRC t\<rparr>
      in if blockNo t > 1 then t\<lparr>numZ := 0\<rparr> else t) = ?s"
    using assms(4) by (simp add: crcs_closed_def Let_def)
  then have "close_block h s = BZ2_blockSort h (?s, None)" by (simp add: close_block_def Let_def)
  moreover have "\<exists>s'. BZ2_blockSort h (?s, None) = Some (s', None) \<and> block_sorted ?s s'"
    by (rule BZ2_blockSort_sorts) (use assms in \<open>simp_all add: f sort_ready_def\<close>)
  ultimately show ?thesis by simp
qed

lemma emits_magic: "emits (bytes_bits bs) s (magic_bytes bs s)"
proof -
  have "bytes_bits bs = concat (map (to_bits 8) bs)" by (induction bs) auto
  then show ?thesis unfolding magic_bytes_def using emits_fold [of bs "to_bits 8" bsPutUChar s] emits_bsPutUChar by simp
qed

lemma start_bits: "numZ s = 0 \<Longrightarrow> write_ok (BZ2_bsInitWrite s) \<and> out_bits (BZ2_bsInitWrite s) = []"
  by (simp add: BZ2_bsInitWrite_def write_ok_def out_bits_def zbytes_def to_bits_def)

text \<open>The bits that are there when a block begins.\<close>

definition bits_before :: "estate \<Rightarrow> bool list" where
  "bits_before s = (if blockNo s = 1 then [] else out_bits s)"

lemma put_header_ok:
  assumes "numZ s = 0" "blockNo s = 1 \<or> write_ok s"
  shows "write_ok (put_header s) \<and> out_bits (put_header s) = bits_before s @ head_bits s \<and> only_bits s (put_header s)"
proof (cases "blockNo s = 1")
  case True
  have "BZ2_bsInitWrite s = s\<lparr>ebsBuff := 0, ebsLive := 0\<rparr>" by (simp add: BZ2_bsInitWrite_def)
  then have i: "only_bits s (BZ2_bsInitWrite s)" using only_bits_put [of s 0 0] by metis
  then have f: "eblockSize100k (BZ2_bsInitWrite s) = eblockSize100k s" by (rule only_bits_fields)
  have e: "emits (head_bits s) (BZ2_bsInitWrite s) (put_header s)"
    unfolding put_header_def head_bits_def by (simp only: True refl if_True emits_magic)
  then show ?thesis using start_bits [OF assms(1)] only_bits_trans [OF i emits_only [OF e]] True by (simp add: emits_def bits_before_def)
next
  case False
  then show ?thesis using assms by (simp add: put_header_def bits_before_def head_bits_def only_bits_refl)
qed

lemma emits_block_header:
  "emits (bytes_bits [0x31, 0x41, 0x59, 0x26, 0x53, 0x59] @ to_bits 32 (blockCRC s) @ False # to_bits 24 (word_of_int (eorigPtr s) :: u32)) s
     (put_block_header s)"
  if "0 \<le> eorigPtr s" "eorigPtr s < 2 ^ 24"
proof -
  let ?m = "[0x31, 0x41, 0x59, 0x26, 0x53, 0x59] :: u8 list"
  let ?s1 = "magic_bytes ?m s" let ?s2 = "bsPutUInt32 (blockCRC s) ?s1" let ?s3 = "bsW 1 0 ?s2"
  have 1: "emits (bytes_bits ?m) s ?s1" by (rule emits_magic)
  have 3: "emits [False] ?s2 ?s3" using emits_bit [of False ?s2] by simp
  note 123 = emits_trans [OF emits_trans [OF 1 emits_bsPutUInt32] 3]
  have f: "blockCRC ?s1 = blockCRC s" "eorigPtr ?s3 = eorigPtr s"
    using only_bits_fields(17) [OF emits_only [OF 1]] only_bits_fields(5) [OF emits_only [OF 123]] by simp_all
  have "(word_of_int (eorigPtr s) :: u32) = word_of_nat (nat (eorigPtr s))" using that by simp
  then have 4: "emits (to_bits 24 (word_of_int (eorigPtr s) :: u32)) ?s3 (bsW 24 (word_of_int (eorigPtr s)) ?s3)"
    using emits_nat [of 24 "nat (eorigPtr s)" ?s3] to_bits_nat [of 24 "nat (eorigPtr s)"] that by (simp add: nat_less_iff)
  show ?thesis using emits_trans [OF 123 4] f by (simp add: put_block_header_def Let_def)
qed

text \<open>The symbols are in the alphabet.\<close>

lemma zcode_less: "(\<And>p. p \<in> set ps \<Longrightarrow> p < N) \<Longrightarrow> v \<in> set (zcode z ps) \<Longrightarrow> v < N + 2"
proof (induction z ps rule: zcode.induct)
  case (1 z)
  have "v \<in> set (zdigits z) \<Longrightarrow> v < 2" for v z by (induction z rule: zdigits.induct) (subst (asm) zdigits.simps, auto split: if_splits)
  then show ?case using 1 by fastforce
next
  case (2 z p ps)
  have d: "v \<in> set (zdigits z) \<Longrightarrow> v < 2" for v z by (induction z rule: zdigits.induct) (subst (asm) zdigits.simps, auto split: if_splits)
  show ?case using 2 d [of v z] by (fastforce split: if_splits)
qed

lemma mtf_syms_less:
  assumes "\<forall>i < nblock s. einUse s (unat (bwt_byte s i))" "v \<in> set (mtf_syms s)"
  shows "v < length (used_bytes s) + 2"
proof -
  let ?Y = "map word_of_nat [0..<length (used_bytes s)] :: u8 list" and ?b = "map (seq_byte (makeMaps_e s)) [0..<nblock s]"
  have "set ?b \<subseteq> set ?Y" using seq_byte_in(1) assms(1) by auto
  then have "p < length (used_bytes s)" if "p \<in> set (mtf_pos ?Y ?b)" for p using mtf_pos_less [of ?b ?Y p] that by simp
  then show ?thesis using assms(2) zcode_less [of "mtf_pos ?Y ?b" "length (used_bytes s)" v 0] by (auto simp: mtf_syms_def)
qed

text \<open>The bytes before the rotations are bytes of the block.\<close>

lemma block_sorted_fields:
  assumes "block_sorted s s'"
  shows "nblock s' = nblock s" "einUse s' = einUse s" "same_outer s s'" "blockCRC s' = blockCRC s" "combinedCRC s' = combinedCRC s"
    "numZ s' = numZ s" "write_ok s' = write_ok s" "out_bits s' = out_bits s"
proof -
  have e: "s' = s\<lparr>arr1 := arr1 s', block := block s', eftab := eftab s', eorigPtr := eorigPtr s'\<rparr>"
    using assms unfolding block_sorted_def by (elim conjE)
  show "nblock s' = nblock s" "einUse s' = einUse s" "blockCRC s' = blockCRC s" "combinedCRC s' = combinedCRC s" "numZ s' = numZ s"
    by (subst e, simp)+
  show "same_outer s s'" unfolding same_outer_def by (intro conjI) (subst e, simp)+
  show "write_ok s' = write_ok s" "out_bits s' = out_bits s"
    by (subst e, simp add: write_ok_def out_bits_def zbytes_def)+
qed

lemma bwt_byte_used:
  assumes S: "block_sorted s s'" and u: "\<forall>i < nblock s. einUse s (unat (block s i))" and i: "i < nblock s"
  shows "einUse s' (unat (bwt_byte s' i))"
proof -
  note n = block_sorted_fields(1,2) [OF S]
  have "ptr s' i < nblock s" using S i by (auto simp: block_sorted_def rot_sorted_def dest: bij_betw_apply)
  then have "nat (if int (ptr s' i) - 1 < 0 then int (ptr s' i) - 1 + int (nblock s') else int (ptr s' i) - 1) < nblock s" using n by auto
  then show ?thesis using u S n by (simp add: bwt_byte_def Let_def block_sorted_def)
qed

section \<open>The coded block\<close>

text \<open>The sorted block has become symbols, the tables in the state are good codes for them, and the bytes marked are those marked in the block.\<close>

definition block_coded :: "estate \<Rightarrow> estate \<Rightarrow> bool" where
  "block_coded s s' \<longleftrightarrow> sent_ok s' \<and> einUse s' = einUse s \<and> (\<exists>s1. block_sorted (crcs_closed s) s1 \<and> eorigPtr s' = eorigPtr s1 \<and>
     nMTF s' = length (mtf_syms s1) \<and> map (mtfv s') [0..<nMTF s'] = mtf_syms s1 \<and> enInUse s' = length (used_bytes s1))"

lemma same_outer_generates:
  assumes e: "s' = (makeMaps_e s)\<lparr>arr1 := a, mtfFreq := f, nMTF := n\<rparr>"
  shows "same_outer s s'" "write_ok s' = write_ok s" "out_bits s' = out_bits s" "eorigPtr s' = eorigPtr s" "blockCRC s' = blockCRC s"
    "combinedCRC s' = combinedCRC s" "enInUse s' = length (used_bytes s)" "numZ s' = numZ s"
proof -
  obtain u k where m: "makeMaps_e s = s\<lparr>enInUse := length (used_bytes s), unseqToSeq := u\<rparr>" using makeMaps_e_ok(1) by blast
  show "same_outer s s'" "eorigPtr s' = eorigPtr s" "blockCRC s' = blockCRC s"
    "combinedCRC s' = combinedCRC s" "enInUse s' = length (used_bytes s)" "numZ s' = numZ s"
    unfolding e m by (simp_all add: same_outer_def)
  show "write_ok s' = write_ok s" "out_bits s' = out_bits s" unfolding e m by (simp_all add: write_ok_def out_bits_def zbytes_def)
qed

text \<open>Both builds of the search do the same.\<close>

lemma generates_either:
  assumes "\<forall>i < nblock s. einUse s (unat (bwt_byte s i))"
  shows "\<exists>s'. generateMTFValues (if esse2 h then mtf_simd else mtf_scalar) s = Some s' \<and>
    map (mtfv s') [0..<nMTF s'] = mtf_syms s \<and> nMTF s' = length (mtf_syms s) \<and>
    s' = (makeMaps_e s)\<lparr>arr1 := arr1 s', mtfFreq := mtfFreq s', nMTF := nMTF s'\<rparr>"
  using simd.generates [OF assms] scalar.generates [OF assms] by (cases "esse2 h") (auto simp only: if_True if_False)

lemma makeMaps_e_bits:
  "makeMaps_e (s\<lparr>zbits := z, numZ := n, ebsBuff := b, ebsLive := l\<rparr>) = (makeMaps_e s)\<lparr>zbits := z, numZ := n, ebsBuff := b, ebsLive := l\<rparr>"
proof -
  define F :: "nat \<Rightarrow> estate \<Rightarrow> estate" where
    "F = (\<lambda>i s. if einUse s i then s\<lparr>unseqToSeq := (unseqToSeq s)(i := word_of_nat (enInUse s)), enInUse := enInUse s + 1\<rparr> else s)"
  have "fold F xs (t\<lparr>zbits := z, numZ := n, ebsBuff := b, ebsLive := l\<rparr>) = (fold F xs t)\<lparr>zbits := z, numZ := n, ebsBuff := b, ebsLive := l\<rparr>" for xs t
  proof (induction xs arbitrary: t)
    case (Cons x xs)
    have "F x (t\<lparr>zbits := z, numZ := n, ebsBuff := b, ebsLive := l\<rparr>) = (F x t)\<lparr>zbits := z, numZ := n, ebsBuff := b, ebsLive := l\<rparr>"
      by (simp add: F_def)
    then show ?case using Cons by simp
  qed simp
  moreover have "makeMaps_e t = fold F [0..<256] (t\<lparr>enInUse := 0\<rparr>)" for t by (simp only: makeMaps_e_def F_def)
  moreover have "s\<lparr>zbits := z, numZ := n, ebsBuff := b, ebsLive := l, enInUse := 0\<rparr> =
      (s\<lparr>enInUse := 0\<rparr>)\<lparr>zbits := z, numZ := n, ebsBuff := b, ebsLive := l\<rparr>" by simp
  ultimately show ?thesis by (simp only:)
qed

lemma mtf_syms_bits:
  assumes "only_bits s s'"
  shows "mtf_syms s' = mtf_syms s" "bwt_byte s' = bwt_byte s" "used_bytes s' = used_bytes s"
proof -
  obtain z n b l where e: "s' = s\<lparr>zbits := z, numZ := n, ebsBuff := b, ebsLive := l\<rparr>" using assms unfolding only_bits_def by blast
  show b: "bwt_byte s' = bwt_byte s" and "used_bytes s' = used_bytes s"
    unfolding e by (simp_all add: bwt_byte_def used_bytes_def ptr_def Let_def fun_eq_iff)
  have "unseqToSeq (makeMaps_e s') = unseqToSeq (makeMaps_e s)" unfolding e makeMaps_e_bits by simp
  then have "seq_byte (makeMaps_e s') = seq_byte (makeMaps_e s)" by (simp add: fun_eq_iff seq_byte_makeMaps b)
  then show "mtf_syms s' = mtf_syms s" unfolding mtf_syms_def by (simp add: e used_bytes_def)
qed

lemma block_part_ok:
  assumes n: "0 < nblock s" "nblock s \<le> 900095" and u: "\<forall>i < nblock s. einUse s (unat (block s i))"
    and S: "block_sorted (crcs_closed s) s1" and w: "write_ok s2" and o: "only_bits s1 s2"
  shows "\<exists>s4 s'. generateMTFValues (if esse2 h then mtf_simd else mtf_scalar) (put_block_header s2) = Some s4 \<and>
    sendMTFValues (s4, None) = Some (s', None) \<and> same_outer s s' \<and> write_ok s' \<and> out_bits s' = out_bits s2 @ block_bits s' \<and>
    blockCRC s' = blockCRC (crcs_closed s) \<and> combinedCRC s' = combinedCRC (crcs_closed s) \<and> block_coded s s'"
proof -
  note F1 = block_sorted_fields [OF S] and F2 = only_bits_fields [OF o]
  have c: "nblock (crcs_closed s) = nblock s" "same_outer s (crcs_closed s)" "einUse (crcs_closed s) = einUse s" "block (crcs_closed s) = block s"
    by (simp_all add: crcs_closed_def same_outer_def)
  have op: "0 \<le> eorigPtr s1" "eorigPtr s1 < int (nblock s)" using S by (simp_all add: block_sorted_def c)
  define s3 where "s3 = put_block_header s2"
  have e3: "emits (bytes_bits [0x31, 0x41, 0x59, 0x26, 0x53, 0x59] @ to_bits 32 (blockCRC s2) @ False # to_bits 24 (word_of_int (eorigPtr s2) :: u32)) s2 s3"
    unfolding s3_def by (rule emits_block_header) (use op n F2 in auto)
  note o3 = only_bits_trans [OF o emits_only [OF e3]]
  note F3 = only_bits_fields [OF o3]
  have u3: "\<forall>i < nblock s3. einUse s3 (unat (bwt_byte s3 i))"
    using bwt_byte_used [OF S] u F1(1) F3(7,9) mtf_syms_bits(2) [OF o3] by (simp add: c)
  obtain s4 where g: "generateMTFValues (if esse2 h then mtf_simd else mtf_scalar) s3 = Some s4"
      "map (mtfv s4) [0..<nMTF s4] = mtf_syms s3" "nMTF s4 = length (mtf_syms s3)"
      "s4 = (makeMaps_e s3)\<lparr>arr1 := arr1 s4, mtfFreq := mtfFreq s4, nMTF := nMTF s4\<rparr>"
    using generates_either [OF u3] by blast
  note F4 = same_outer_generates [OF g(4)]
  have len: "0 < nMTF s4" "nMTF s4 \<le> 900100"
    using length_mtf_syms [of s3] n F3(7) F1(1) g(3) c by (auto simp: mtf_syms_def)
  have "mtfv s4 i < enInUse s4 + 2" if "i < nMTF s4" for i
  proof -
    have "mtfv s4 i \<in> set (map (mtfv s4) [0..<nMTF s4])" using that by simp
    then show ?thesis unfolding g(2) F4(7) by (rule mtf_syms_less [OF u3])
  qed
  then obtain len sel selM code s5 where d: "sendMTFValues (s4, None) = Some (s5, None)"
      "emits (body_bits s5) (s4\<lparr>elen := len, eselector := sel, eselectorMtf := selM, ecode := code\<rparr>) s5" "sent_ok s5"
    using sendMTFValues_emits [OF len, of None] length_used_bytes [of s3] F4(7) by auto
  let ?t = "s4\<lparr>elen := len, eselector := sel, eselectorMtf := selM, ecode := code\<rparr>"
  have ft: "same_outer s4 ?t" "write_ok ?t = write_ok s4" "out_bits ?t = out_bits s4" "mtfv ?t = mtfv s4"
    by (simp_all add: same_outer_def write_ok_def out_bits_def zbytes_def mtfv_def fun_eq_iff)
  note F5 = only_bits_fields [OF emits_only [OF d(2)]]
  have w3: "write_ok s3" "out_bits s3 = out_bits s2 @ bytes_bits [0x31, 0x41, 0x59, 0x26, 0x53, 0x59] @ to_bits 32 (blockCRC s2) @ False # to_bits 24 (word_of_int (eorigPtr s2) :: u32)"
    using e3 w unfolding emits_def by blast+
  have so: "same_outer s s5"
    using same_outer_trans [OF c(2) same_outer_trans [OF F1(3) same_outer_trans [OF same_outer_bits [OF o3]
      same_outer_trans [OF F4(1) same_outer_trans [OF ft(1) same_outer_bits [OF emits_only [OF d(2)]]]]]]] .
  have b: "blockCRC s5 = blockCRC s2" "eorigPtr s5 = eorigPtr s2" "combinedCRC s5 = combinedCRC s1" "blockCRC s5 = blockCRC s1" "eorigPtr s5 = eorigPtr s1"
    using F5(17,5,18) F4 F3 F2 only_bits_fields(5,17) [OF emits_only [OF e3]] by simp_all
  have "write_ok s5" "out_bits s5 = out_bits s3 @ body_bits s5" using d(2) w3(1) F4(2,3) ft(2,3) unfolding emits_def by simp_all
  moreover from this(2) have "out_bits s5 = out_bits s2 @ block_bits s5" unfolding w3(2) block_bits_def b by (simp only: append_assoc append_Cons)
  moreover have "einUse s5 = einUse s" using so by (simp add: same_outer_def)
  then have "block_coded s s5" unfolding block_coded_def
    using S d(3) b(5) F5(11,26,8) g(2,3) ft(4) F4(7) mtf_syms_bits [OF o3] by auto
  ultimately show ?thesis using g(1) d(1) so b F1(4,5) by (auto simp flip: s3_def)
qed

section \<open>The whole routine\<close>

definition coded_bits :: "estate \<Rightarrow> estate \<Rightarrow> bool list" where
  "coded_bits s s' = bits_before s @ head_bits s' @ (if 0 < nblock s then block_bits s' else [])"

definition compressed :: "estate \<Rightarrow> bool \<Rightarrow> estate \<Rightarrow> bool" where
  "compressed s is_last s' \<longleftrightarrow> same_outer s s' \<and> (0 < nblock s \<longrightarrow> block_coded s s') \<and>
     blockCRC s' = (if 0 < nblock s then blockCRC (crcs_closed s) else blockCRC s) \<and>
     combinedCRC s' = (if 0 < nblock s then combinedCRC (crcs_closed s) else combinedCRC s) \<and>
     (if is_last then \<exists>k < 8. bytes_bits (zbytes s') = coded_bits s s' @ trailer_bits s' @ replicate k False
      else write_ok s' \<and> out_bits s' = coded_bits s s')"

definition block_ready :: "host \<Rightarrow> estate \<Rightarrow> bool" where
  "block_ready h s \<longleftrightarrow> numZ s = 0 \<and> (blockNo s = 1 \<or> write_ok s) \<and> nblock s \<le> 900095 \<and>
     (\<forall>i < nblock s. einUse s (unat (block s i))) \<and> (0 < nblock s \<longrightarrow> sort_ready h s)"

text \<open>The trailer, and the last byte filled up.\<close>

lemma put_trailer_ok:
  assumes "write_ok s"
  shows "\<exists>k < 8. bytes_bits (zbytes (put_trailer s)) = out_bits s @ trailer_bits s @ replicate k False" "only_bits s (put_trailer s)"
proof -
  let ?m = "[0x17, 0x72, 0x45, 0x38, 0x50, 0x90] :: u8 list"
  let ?s1 = "magic_bytes ?m s" let ?s2 = "bsPutUInt32 (combinedCRC ?s1) ?s1"
  have e: "put_trailer s = bsFinishWrite ?s2" by (simp add: put_trailer_def Let_def)
  have 1: "emits (bytes_bits ?m) s ?s1" by (rule emits_magic)
  have c: "combinedCRC ?s1 = combinedCRC s" by (rule only_bits_fields(18) [OF emits_only [OF 1]])
  have 2: "emits (trailer_bits s) s ?s2"
    using emits_trans [OF 1 emits_bsPutUInt32, of "combinedCRC s"] unfolding trailer_bits_def c .
  then have w: "write_ok ?s2" "out_bits ?s2 = out_bits s @ trailer_bits s" using assms by (simp_all only: emits_def simp_thms)
  then show "\<exists>k < 8. bytes_bits (zbytes (put_trailer s)) = out_bits s @ trailer_bits s @ replicate k False"
    using bsFinishWrite_ok [OF w(1)] by (simp only: e w(2) append_assoc)
  show "only_bits s (put_trailer s)" unfolding e by (rule only_bits_trans [OF emits_only [OF 2] only_bits_Finish])
qed

lemma compressed_last:
  assumes C: "compressed s False s'"
  shows "compressed s True (put_trailer s')"
proof -
  have w: "write_ok s'" "out_bits s' = coded_bits s s'" using C by (simp_all add: compressed_def)
  note T = put_trailer_ok [OF w(1)] and F = only_bits_fields [OF put_trailer_ok(2) [OF w(1)]]
  have bits: "coded_bits s (put_trailer s') = coded_bits s s'" "trailer_bits (put_trailer s') = trailer_bits s'"
    using F body_bits_only(1) [OF T(2)] by (simp_all add: coded_bits_def head_bits_def block_bits_def trailer_bits_def)
  have "block_coded s (put_trailer s')" if "block_coded s s'"
    using that F body_bits_only(2) [OF T(2)] by (simp add: block_coded_def)
  then show ?thesis
    using C T(1) same_outer_trans [OF _ same_outer_bits [OF T(2)]] F(17,18) w(2) unfolding compressed_def bits by auto
qed

lemma compressBlock_open:
  assumes R: "block_ready h s"
  shows "\<exists>s'. BZ2_compressBlock h s is_last = Some (if is_last then put_trailer s' else s', None) \<and> compressed s False s'"
proof (cases "0 < nblock s")
  case False
  have h: "write_ok (put_header s)" "out_bits (put_header s) = bits_before s @ head_bits s" "only_bits s (put_header s)"
    using put_header_ok [of s] R by (simp_all add: block_ready_def)
  have "nblock (put_header s) = nblock s" by (rule only_bits_fields(7) [OF h(3)])
  then have "BZ2_compressBlock h s is_last = Some (if is_last then put_trailer (put_header s) else put_header s, None)"
    using False by (simp add: BZ2_compressBlock_def Let_def)
  moreover have "compressed s False (put_header s)"
    using False h same_outer_bits [OF h(3)] only_bits_fields [OF h(3)] by (simp add: compressed_def coded_bits_def head_bits_def)
  ultimately show ?thesis by blast
next
  case True
  have n: "nblock s < 2 ^ 32" using R by (simp add: block_ready_def)
  obtain s1 where s1: "close_block h s = Some (s1, None)" "block_sorted (crcs_closed s) s1"
    using close_block_ok [OF True n] R True by (auto simp: block_ready_def)
  note F1 = block_sorted_fields [OF s1(2)]
  have c: "same_outer s (crcs_closed s)" "numZ (crcs_closed s) = numZ s" "write_ok (crcs_closed s) = write_ok s" "out_bits (crcs_closed s) = out_bits s"
    by (simp_all add: crcs_closed_def same_outer_def write_ok_def out_bits_def zbytes_def)
  note o = same_outer_trans [OF c(1) F1(3)]
  have f: "blockNo s1 = blockNo s" "nblock s1 = nblock s" "eblockSize100k s1 = eblockSize100k s" using o by (simp_all add: same_outer_def)
  have b: "bits_before s1 = bits_before s" using F1(8) c f by (simp add: bits_before_def)
  have h: "write_ok (put_header s1)" "out_bits (put_header s1) = bits_before s @ head_bits s1" "only_bits s1 (put_header s1)"
    using put_header_ok [of s1] R f F1 c b by (simp_all add: block_ready_def)
  obtain s4 s' where p: "generateMTFValues (if esse2 h then mtf_simd else mtf_scalar) (put_block_header (put_header s1)) = Some s4"
    "sendMTFValues (s4, None) = Some (s', None)" "same_outer s s'" "write_ok s'" "out_bits s' = out_bits (put_header s1) @ block_bits s'"
    "blockCRC s' = blockCRC (crcs_closed s)" "combinedCRC s' = combinedCRC (crcs_closed s)" "block_coded s s'"
    using block_part_ok [OF True _ _ s1(2) h(1,3), of h] R by (auto simp: block_ready_def)
  have n1: "nblock (put_header s1) = nblock s" using only_bits_fields(7) [OF h(3)] f by simp
  have hd: "head_bits s1 = head_bits s'" using p(3) f by (simp add: head_bits_def same_outer_def)
  have "BZ2_compressBlock h s is_last = Some (if is_last then put_trailer s' else s', None)"
    using True s1(1) p(1,2) n1 by (simp add: BZ2_compressBlock_def Let_def)
  moreover have "out_bits s' = coded_bits s s'" using p(5) True unfolding h(2) hd coded_bits_def by simp
  then have "compressed s False s'" using True p by (simp add: compressed_def)
  ultimately show ?thesis by blast
qed

lemma compressBlock_ok:
  assumes "block_ready h s"
  shows "\<exists>s'. BZ2_compressBlock h s is_last = Some (s', None) \<and> compressed s is_last s'"
proof -
  obtain s' where s': "BZ2_compressBlock h s is_last = Some (if is_last then put_trailer s' else s', None)" "compressed s False s'"
    using compressBlock_open [OF assms] by blast
  then show ?thesis using compressed_last [OF s'(2)] by (cases is_last) auto
qed

end
