(* ===== verification/CompressRun.thy ===== *)
theory CompressRun
  imports CompressBlock
begin

text \<open>
  The loop between input and output (\<open>handle_compress\<close>) against the format of a stream: \<open>X\<close> are all bytes taken in since
  the handle was made and \<open>Y\<close> all bytes given out; the blocks closed so far, with what is pending in the state,
  account for both.
\<close>

section \<open>The format of a stream\<close>

text \<open>The bits \<open>bs\<close> code the bytes \<open>w\<close>: there is a block that decodes to \<open>w\<close>, whose map marks exactly the bytes in it, and \<open>bs\<close> are the bits of its coding
  with the CRC of \<open>w\<close>.\<close>

definition block_image :: "nat \<Rightarrow> u8 list \<Rightarrow> bool list \<Rightarrow> bool" where
  "block_image k w bs \<longleftrightarrow> (\<exists>s s'. 0 < nblock s \<and> nblock s \<le> 100000 * k \<and> nblock s \<le> 900095 \<and>
     (\<forall>i < 256. einUse s i \<longleftrightarrow> word_of_nat i \<in> set (block_list s)) \<and> rld (block_list s) = Some w \<and> block_coded s s' \<and>
     blockCRC s' = BZ_FINALISE_CRC (crc_bytes BZ_INITIALISE_CRC w) \<and> bs = block_bits s')"

definition crc_step :: "u32 \<Rightarrow> u8 list \<Rightarrow> u32" where
  "crc_step c w = (push_bit 1 c OR drop_bit 31 c) XOR BZ_FINALISE_CRC (crc_bytes BZ_INITIALISE_CRC w)"

definition stream_crc :: "(u8 list \<times> bool list) list \<Rightarrow> u32" where
  "stream_crc bl = fold (\<lambda>b c. crc_step c (fst b)) bl 0"

definition blocks_ok :: "nat \<Rightarrow> (u8 list \<times> bool list) list \<Rightarrow> bool" where
  "blocks_ok k bl \<longleftrightarrow> (\<forall>b \<in> set bl. block_image k (fst b) (snd b))"

abbreviation block_data :: "(u8 list \<times> bool list) list \<Rightarrow> u8 list" where
  "block_data bl \<equiv> concat (map fst bl)"

definition stream_bits :: "nat \<Rightarrow> (u8 list \<times> bool list) list \<Rightarrow> bool list" where
  "stream_bits k bl = bytes_bits [0x42, 0x5a, 0x68, 0x30 + word_of_nat k] @ concat (map snd bl)"

definition end_bits :: "(u8 list \<times> bool list) list \<Rightarrow> bool list" where
  "end_bits bl = bytes_bits [0x17, 0x72, 0x45, 0x38, 0x50, 0x90] @ to_bits 32 (stream_crc bl)"

text \<open>\<open>Y\<close> is a whole stream for \<open>X\<close>.\<close>

definition whole_stream :: "nat \<Rightarrow> u8 list \<Rightarrow> u8 list \<Rightarrow> bool" where
  "whole_stream k X Y \<longleftrightarrow> (\<exists>bl. blocks_ok k bl \<and> X = block_data bl \<and>
     (\<exists>pad < 8. bytes_bits Y = stream_bits k bl @ end_bits bl @ replicate pad False))"

lemma marked_bytes: "(\<forall>i < 256. einUse s i \<longleftrightarrow> word_of_nat i \<in> set (block_list s)) \<Longrightarrow> \<forall>i < nblock s. einUse s (unat (block s i))"
  using unsigned_less [where ?'a = nat and ?'b = 8] by (auto simp: block_list_def)

lemma stream_bits_snoc: "stream_bits k (bl @ [(w, bs)]) = stream_bits k bl @ bs"
  by (simp add: stream_bits_def)

lemma stream_crc_snoc: "stream_crc (bl @ [(w, bs)]) = crc_step (stream_crc bl) w"
  by (simp add: stream_crc_def)

section \<open>The state between the blocks\<close>

definition pending_ok :: "estate \<Rightarrow> bool" where
  "pending_ok s \<longleftrightarrow> runs_ok (pending_run s) \<and> (state_in_ch s < 256 \<or> state_in_ch s = 256 \<and> state_in_len s = 0)"

definition in_phase :: "nat \<Rightarrow> u8 list \<Rightarrow> u8 list \<Rightarrow> estate \<Rightarrow> bool" where
  "in_phase k X Y s \<longleftrightarrow> est s = BZ_S_INPUT \<and> numZ s = 0 \<and> state_out_pos s = 0 \<and> 1 \<le> blockNo s \<and> nblock s \<le> nblockMAX s + 4 \<and>
     (\<exists>bl rs. blocks_ok k bl \<and> rle_at rs s \<and> X = block_data bl @ taken rs s \<and> combinedCRC s = stream_crc bl \<and>
       (if blockNo s = 1 then bl = [] \<and> Y = [] else write_ok s \<and> bytes_bits Y @ out_bits s = stream_bits k bl))"

definition is_end :: "estate \<Rightarrow> bool" where
  "is_end s \<longleftrightarrow> emode s = BZ_M_FINISHING \<and> isempty_RL s"

text \<open>How much of the end of the stream has been given out.\<close>

definition end_pos :: "estate \<Rightarrow> nat" where
  "end_pos s = (if is_end s then state_out_pos s else 0)"

definition out_phase :: "nat \<Rightarrow> u8 list \<Rightarrow> u8 list \<Rightarrow> estate \<Rightarrow> bool" where
  "out_phase k X Y s \<longleftrightarrow> est s = BZ_S_OUTPUT \<and> pending_ok s \<and> state_out_pos s \<le> numZ s \<and> 1 \<le> blockNo s \<and>
     (isempty_RL s \<longrightarrow> emode s \<noteq> BZ_M_RUNNING \<and> avail_in_expect s = 0) \<and> (is_end s \<longrightarrow> 0 < numZ s) \<and>
     (\<exists>bl Y0. blocks_ok k bl \<and> X = block_data bl @ expand_runs (pending_run s) \<and> combinedCRC s = stream_crc bl \<and>
       Y = Y0 @ take (state_out_pos s) (zbytes s) \<and>
       (if is_end s then \<exists>pad < 8. bytes_bits Y0 @ bytes_bits (zbytes s) = stream_bits k bl @ end_bits bl @ replicate pad False
        else write_ok s \<and> bytes_bits Y0 @ out_bits s = stream_bits k bl))"

definition comp_inv :: "nat \<Rightarrow> u8 list \<Rightarrow> u8 list \<Rightarrow> estate \<Rightarrow> bool" where
  "comp_inv k X Y s \<longleftrightarrow> 1 \<le> k \<and> k \<le> 9 \<and> nblockMAX s = 100000 * k - 19 \<and> eblockSize100k s = k \<and>
     emode s \<in> {BZ_M_RUNNING, BZ_M_FLUSHING, BZ_M_FINISHING} \<and> (in_phase k X Y s \<or> out_phase k X Y s)"

text \<open>What the sort needs of its surroundings.\<close>

definition host_ok :: "host \<Rightarrow> bool" where
  "host_ok h \<longleftrightarrow> sais_ok h \<and> (\<forall>n. malloc_ok h n) \<and> (\<forall>xs. libsais h xs \<noteq> None)"

lemma host_sort_ready: "host_ok h \<Longrightarrow> sort_ready h s"
  by (simp add: host_ok_def sort_ready_def)

section \<open>Frames of the input side\<close>

definition rle_frame :: "estate \<Rightarrow> estate \<Rightarrow> bool" where
  "rle_frame s s' \<longleftrightarrow> est s' = est s \<and> emode s' = emode s \<and> numZ s' = numZ s \<and> state_out_pos s' = state_out_pos s \<and> blockNo s' = blockNo s \<and>
     combinedCRC s' = combinedCRC s \<and> eblockSize100k s' = eblockSize100k s \<and> nblockMAX s' = nblockMAX s \<and>
     write_ok s' = write_ok s \<and> out_bits s' = out_bits s \<and> zbytes s' = zbytes s"

lemma rle_frame_refl: "rle_frame s s"
  by (simp add: rle_frame_def)

lemma rle_frame_trans: "rle_frame s s' \<Longrightarrow> rle_frame s' s'' \<Longrightarrow> rle_frame s s''"
  by (simp add: rle_frame_def)

lemma rle_frameI:
  "s' = s\<lparr>estrm := a, avail_in_expect := b, block := c, nblock := d, state_in_ch := e, state_in_len := f, blockCRC := g, einUse := i\<rparr> \<Longrightarrow> rle_frame s s'"
  by (simp add: rle_frame_def write_ok_def out_bits_def zbytes_def)

lemma rle_frame_upd [simp]:
  "rle_frame s (s\<lparr>state_in_len := n\<rparr>)" "rle_frame s (s\<lparr>state_in_ch := m\<rparr>)" "rle_frame s (s\<lparr>blockCRC := c\<rparr>)" "rle_frame s (s\<lparr>einUse := u\<rparr>)"
  "rle_frame s (s\<lparr>estrm := t\<rparr>)" "rle_frame s (s\<lparr>avail_in_expect := a\<rparr>)" "rle_frame s (put_block x s)" "rle_frame s (s\<lparr>state_in_ch := m, state_in_len := n\<rparr>)"
  "rle_frame s (s\<lparr>blockCRC := c, einUse := u\<rparr>)"
  by (simp_all add: rle_frame_def write_ok_def out_bits_def zbytes_def put_block_def)

lemma rle_frame_add_pair: "rle_frame s (add_pair_to_block m s)"
  by (simp add: rle_frame_def add_pair_to_block_def Let_def put_block_def write_ok_def out_bits_def zbytes_def)

lemma rle_frame_ADD_CHAR: "rle_frame s (ADD_CHAR_TO_BLOCK m c s)"
proof -
  have "rle_frame s ((add_pair_to_block m s)\<lparr>state_in_ch := c, state_in_len := 1\<rparr>)"
    by (rule rle_frame_trans [OF rle_frame_add_pair rle_frame_upd(8)])
  moreover have "rle_frame s ((put_block x (s\<lparr>blockCRC := y, einUse := u\<rparr>))\<lparr>state_in_ch := c\<rparr>)" for x y u
    by (rule rle_frame_trans [OF rle_frame_trans [OF rle_frame_upd(9) rle_frame_upd(7)] rle_frame_upd(2)])
  ultimately show ?thesis
    using rle_frame_upd(1) [of s] rle_frame_upd(8) [of s] unfolding ADD_CHAR_TO_BLOCK_def Let_def
    by (simp only: if_True if_False split: if_split) blast
qed

lemma rle_frame_flush: "rle_frame s (flush_RL m s)"
  unfolding flush_RL_def init_RL_def using rle_frame_trans [OF rle_frame_add_pair rle_frame_upd(8)] by simp

lemma rle_frame_take: "rle_frame s (take_input s)"
  by (simp add: take_input_def Let_def)

lemma rle_frame_running: "rle_frame s (snd (copy_running m s))"
proof (induction m s rule: copy_running.induct)
  case (1 m s)
  from rle_frame_trans [OF rle_frame_trans [OF rle_frame_ADD_CHAR rle_frame_take] 1]
  show ?case by (subst copy_running.simps) (simp add: Let_def rle_frame_refl)
qed

lemma rle_frame_expected: "rle_frame s (snd (copy_expected m s))"
proof (induction m s rule: copy_expected.induct)
  case (1 m s)
  let ?u = "take_input (ADD_CHAR_TO_BLOCK m (unat (in_byte (estrm s) 0)) s)"
  have "rle_frame s (?u\<lparr>avail_in_expect := avail_in_expect ?u - 1\<rparr>)"
    by (rule rle_frame_trans [OF rle_frame_trans [OF rle_frame_ADD_CHAR rle_frame_take] rle_frame_upd(6)])
  from rle_frame_trans [OF this 1] show ?case by (subst copy_expected.simps) (simp add: Let_def rle_frame_refl)
qed

lemma rle_frame_copy: "rle_frame s (snd (copy_input_until_stop m s))"
  by (simp add: copy_input_until_stop_def rle_frame_running rle_frame_expected)

section \<open>The output half\<close>

definition io_step :: "u8 list \<Rightarrow> u8 list \<Rightarrow> estate \<Rightarrow> estate \<Rightarrow> bool" where
  "io_step w bs s s' \<longleftrightarrow> in_bytes (estrm s) = w @ in_bytes (estrm s') \<and> (src_ok (estrm s) \<longrightarrow> src_ok (estrm s')) \<and>
     out_buf (estrm s') = out_buf (estrm s) @ bs \<and> avail_out (estrm s) = avail_out (estrm s') + length bs"

lemma io_step_refl: "estrm s' = estrm s \<Longrightarrow> io_step [] [] s s'"
  by (simp add: io_step_def)

lemma io_step_trans: "io_step w bs s s' \<Longrightarrow> io_step w' bs' s' s'' \<Longrightarrow> io_step (w @ w') (bs @ bs') s s''"
  by (simp add: io_step_def)

lemma io_step_avail: "io_step w bs s s' \<Longrightarrow> avail_in (estrm s) = length w + avail_in (estrm s')"
proof -
  assume "io_step w bs s s'"
  then have "length (in_bytes (estrm s)) = length (w @ in_bytes (estrm s'))" by (simp only: io_step_def)
  then show ?thesis by (simp add: in_bytes_def)
qed

lemma copy_output_ok:
  assumes "state_out_pos s \<le> numZ s"
  shows "\<exists>n t. copy_output_until_stop s = (n \<noteq> 0, s\<lparr>state_out_pos := state_out_pos s + n, estrm := t\<rparr>) \<and>
    n = min (numZ s - state_out_pos s) (avail_out (estrm s)) \<and> avail_in t = avail_in (estrm s) \<and>
    io_step [] (take n (drop (state_out_pos s) (zbytes s))) s (s\<lparr>state_out_pos := state_out_pos s + n, estrm := t\<rparr>)"
proof (cases "numZ s = state_out_pos s \<or> avail_out (estrm s) = 0")
  case True
  then have "copy_output_until_stop s = (False, s)" by (auto simp: copy_output_until_stop_def Let_def)
  moreover have "s\<lparr>state_out_pos := state_out_pos s + 0, estrm := estrm s\<rparr> = s" by simp
  moreover have "io_step [] [] s s" by (rule io_step_refl) simp
  moreover have "min (numZ s - state_out_pos s) (avail_out (estrm s)) = 0" using True by auto
  ultimately show ?thesis by (intro exI [of _ 0] exI [of _ "estrm s"]) simp
next
  case False
  define n where "n = min (numZ s - state_out_pos s) (avail_out (estrm s))"
  have n: "n \<noteq> 0" "n \<le> avail_out (estrm s)" "state_out_pos s + n \<le> numZ s" using False assms by (auto simp: n_def)
  have m: "(if nat (int (numZ s) - int (state_out_pos s)) > avail_out (estrm s) then avail_out (estrm s)
      else nat (int (numZ s) - int (state_out_pos s))) = n" using assms by (auto simp: n_def min_def nat_diff_distrib)
  have b: "map (\<lambda>i. zbits s (state_out_pos s + i)) [0..<n] = take n (drop (state_out_pos s) (zbytes s))"
    by (rule nth_equalityI) (use n in \<open>auto simp: zbytes_def\<close>)
  have c: "\<not> (int (numZ s) - int (state_out_pos s) \<le> 0 \<or> avail_out (estrm s) = 0)" using False assms by auto
  obtain t where t: "copy_output_until_stop s = (True, s\<lparr>state_out_pos := state_out_pos s + n, estrm := t\<rparr>)"
      "t = (estrm s)\<lparr>out_buf := out_buf (estrm s) @ take n (drop (state_out_pos s) (zbytes s)), avail_out := avail_out (estrm s) - n,
        total_out_lo32 := total_out_lo32 t, total_out_hi32 := total_out_hi32 t\<rparr>"
    using c unfolding copy_output_until_stop_def Let_def m b by simp
  have l: "length (take n (drop (state_out_pos s) (zbytes s))) = n" using n by (simp add: zbytes_def)
  have "io_step [] (take n (drop (state_out_pos s) (zbytes s))) s (s\<lparr>state_out_pos := state_out_pos s + n, estrm := t\<rparr>)"
    unfolding io_step_def l using n(2) by (subst (1 2 3 4) t(2)) (simp add: in_bytes_def in_byte_def src_ok_def in_ok_def)
  moreover have "avail_in t = avail_in (estrm s)" by (subst t(2)) simp
  ultimately show ?thesis using t(1) n(1) n_def by (intro exI [of _ n] exI [of _ t]) simp
qed

text \<open>Why the loop is left.\<close>

definition stopped :: "estate \<Rightarrow> bool" where
  "stopped s \<longleftrightarrow> est s = BZ_S_OUTPUT \<and> state_out_pos s < numZ s \<and> avail_out (estrm s) = 0 \<or>
     est s = BZ_S_OUTPUT \<and> is_end s \<and> avail_in_expect s = 0 \<and> state_out_pos s = numZ s \<or>
     est s = BZ_S_INPUT \<and> emode s = BZ_M_FLUSHING \<and> avail_in_expect s = 0 \<and> isempty_RL s \<and> numZ s = 0 \<or>
     est s = BZ_S_INPUT \<and> emode s = BZ_M_RUNNING \<and> avail_in (estrm s) = 0 \<and> numZ s = 0"

lemma prepare_pending:
  assumes "pending_ok s"
  shows "rle_at [] (prepare_new_block s) \<and> taken [] (prepare_new_block s) = expand_runs (pending_run s)"
proof -
  have f: "fold (\<lambda>i f. f(i := False)) [0..<n] u i = (if i < n then False else u i)" for n u i
    by (induction n) auto
  have p: "pending_run (prepare_new_block s) = pending_run s" by (simp add: prepare_new_block_def pending_run_def)
  have "einUse (prepare_new_block s) = fold (\<lambda>i f. f(i := False)) [0..<256] (einUse s)" by (simp add: prepare_new_block_def)
  then have "\<forall>i < 256. \<not> einUse (prepare_new_block s) i" unfolding f by simp
  then show ?thesis using assms p by (auto simp: pending_ok_def rle_at_def block_list_def prepare_new_block_def taken_def)
qed

lemma rle_est [simp]: "rle_at rs (s\<lparr>est := e\<rparr>) = rle_at rs s" "taken rs (s\<lparr>est := e\<rparr>) = taken rs s"
  by (simp_all add: rle_at_def taken_def pending_run_def block_list_def)

text \<open>All of a block has been given out: the next one begins.\<close>

lemma next_block:
  assumes O: "out_phase k X Y s" and e: "state_out_pos s = numZ s" "\<not> is_end s"
  shows "in_phase k X Y ((prepare_new_block s)\<lparr>est := BZ_S_INPUT\<rparr>)"
proof -
  let ?t = "(prepare_new_block s)\<lparr>est := BZ_S_INPUT\<rparr>"
  obtain bl Y0 where b: "blocks_ok k bl" "X = block_data bl @ expand_runs (pending_run s)" "combinedCRC s = stream_crc bl"
      "Y = Y0 @ take (state_out_pos s) (zbytes s)" "write_ok s" "bytes_bits Y0 @ out_bits s = stream_bits k bl"
    using O e(2) unfolding out_phase_def by auto
  have z: "Y = Y0 @ zbytes s" using b(4) e(1) by (simp add: zbytes_def)
  have o: "out_bits ?t = to_bits (nat (ebsLive s)) (drop_bit (64 - nat (ebsLive s)) (ebsBuff s))"
    by (simp add: out_bits_def zbytes_def prepare_new_block_def bytes_bits_def)
  have "bytes_bits Y @ out_bits ?t = stream_bits k bl" using b(6) unfolding z o by (simp add: out_bits_def bytes_bits_def)
  moreover have "write_ok ?t" using b(5) by (simp add: write_ok_def prepare_new_block_def)
  moreover have "rle_at [] ?t \<and> taken [] ?t = expand_runs (pending_run s)"
    using prepare_pending [of s] O by (simp add: out_phase_def)
  moreover have "blockNo ?t \<noteq> 1" "1 \<le> blockNo ?t" "nblock ?t = 0" "numZ ?t = 0" "state_out_pos ?t = 0" "combinedCRC ?t = stream_crc bl"
    using O b(3) by (simp_all add: prepare_new_block_def out_phase_def)
  moreover have "\<exists>bl rs. blocks_ok k bl \<and> rle_at rs ?t \<and> X = block_data bl @ taken rs ?t \<and> combinedCRC ?t = stream_crc bl \<and>
       (if blockNo ?t = 1 then bl = [] \<and> Y = [] else write_ok ?t \<and> bytes_bits Y @ out_bits ?t = stream_bits k bl)"
    using b(1,2) calculation by (intro exI [of _ bl] exI [of _ "[]"]) simp
  ultimately show ?thesis by (simp add: in_phase_def)
qed

lemma out_phase_copy:
  assumes O: "out_phase k X Y s" and n: "state_out_pos s + n \<le> numZ s"
  shows "out_phase k X (Y @ take n (drop (state_out_pos s) (zbytes s))) (s\<lparr>state_out_pos := state_out_pos s + n, estrm := t\<rparr>)"
proof -
  let ?t = "s\<lparr>state_out_pos := state_out_pos s + n, estrm := t\<rparr>"
  have f: "zbytes ?t = zbytes s" "out_bits ?t = out_bits s" "write_ok ?t = write_ok s" "isempty_RL ?t = isempty_RL s" "is_end ?t = is_end s"
      "pending_ok ?t = pending_ok s" "pending_run ?t = pending_run s"
    by (simp_all add: zbytes_def out_bits_def write_ok_def isempty_RL_def is_end_def pending_ok_def pending_run_def)
  obtain bl Y0 where b: "blocks_ok k bl" "X = block_data bl @ expand_runs (pending_run s)" "combinedCRC s = stream_crc bl"
      "Y = Y0 @ take (state_out_pos s) (zbytes s)"
      "if is_end s then \<exists>pad < 8. bytes_bits Y0 @ bytes_bits (zbytes s) = stream_bits k bl @ end_bits bl @ replicate pad False
        else write_ok s \<and> bytes_bits Y0 @ out_bits s = stream_bits k bl"
    using O unfolding out_phase_def by blast
  have "Y @ take n (drop (state_out_pos s) (zbytes s)) = Y0 @ take (state_out_pos s + n) (zbytes s)"
    unfolding b(4) by (simp add: take_add)
  then have "\<exists>bl Y1. blocks_ok k bl \<and> X = block_data bl @ expand_runs (pending_run s) \<and> combinedCRC s = stream_crc bl \<and>
       Y @ take n (drop (state_out_pos s) (zbytes s)) = Y1 @ take (state_out_pos s + n) (zbytes s) \<and>
       (if is_end s then \<exists>pad < 8. bytes_bits Y1 @ bytes_bits (zbytes s) = stream_bits k bl @ end_bits bl @ replicate pad False
        else write_ok s \<and> bytes_bits Y1 @ out_bits s = stream_bits k bl)"
    using b by blast
  then show ?thesis using O n unfolding out_phase_def f by simp
qed

end
