(* ===== verification/CompressLoop.thy ===== *)
theory CompressLoop
  imports CompressRun
begin

text \<open>
  \<open>handle_compress\<close> always returns; when it does, the input is used up, the output is full or the announced end is reached,
  and the bytes given out are those of the stream for the bytes taken in.
\<close>

text \<open>What a call of the loop keeps.\<close>

definition goes :: "nat \<Rightarrow> u8 list \<Rightarrow> u8 list \<Rightarrow> u8 list \<Rightarrow> u8 list \<Rightarrow> estate \<Rightarrow> estate \<Rightarrow> bool" where
  "goes k X Y w bs s s' \<longleftrightarrow> io_step w bs s s' \<and> comp_inv k (X @ w) (Y @ bs) s' \<and> emode s' = emode s \<and> end_pos s' \<le> end_pos s + length bs \<and>
     (est s = BZ_S_OUTPUT \<and> is_end s \<longrightarrow> est s' = BZ_S_OUTPUT \<and> is_end s' \<and> numZ s' = numZ s) \<and>
     (emode s \<noteq> BZ_M_RUNNING \<longrightarrow> avail_in_expect s = avail_in (estrm s) \<longrightarrow> avail_in_expect s' = avail_in (estrm s'))"

lemma goes_trans: "goes k X Y w bs s s' \<Longrightarrow> goes k (X @ w) (Y @ bs) w' bs' s' s'' \<Longrightarrow> goes k X Y (w @ w') (bs @ bs') s s''"
  using io_step_trans [of w bs s s' w' bs' s''] by (simp add: goes_def)

section \<open>Output\<close>

lemma compress_output_ok:
  assumes I: "comp_inv k X Y s" and o: "est s = BZ_S_OUTPUT"
  shows "\<exists>bs s'. goes k X Y [] bs s s' \<and>
    (compress_output (p, s) = Stop (p \<or> bs \<noteq> [], s') \<and> stopped s' \<or>
     compress_output (p, s) = Go (p \<or> bs \<noteq> [], s') \<and> est s' = BZ_S_INPUT \<and> nblock s' = 0 \<and> \<not> isempty_RL s)"
proof -
  have O: "out_phase k X Y s" using I o by (auto simp: comp_inv_def in_phase_def)
  then have le: "state_out_pos s \<le> numZ s" by (simp add: out_phase_def)
  obtain n t where c: "copy_output_until_stop s = (n \<noteq> 0, s\<lparr>state_out_pos := state_out_pos s + n, estrm := t\<rparr>)"
      "n = min (numZ s - state_out_pos s) (avail_out (estrm s))" "avail_in t = avail_in (estrm s)"
      "io_step [] (take n (drop (state_out_pos s) (zbytes s))) s (s\<lparr>state_out_pos := state_out_pos s + n, estrm := t\<rparr>)"
    using copy_output_ok [OF le] by blast
  let ?bs = "take n (drop (state_out_pos s) (zbytes s))" and ?s = "s\<lparr>state_out_pos := state_out_pos s + n, estrm := t\<rparr>"
  have n: "state_out_pos s + n \<le> numZ s" using c(2) le by simp
  have l: "length ?bs = n" using n by (simp add: zbytes_def)
  then have b: "n \<noteq> 0 \<longleftrightarrow> ?bs \<noteq> []" by (metis length_0_conv)
  note O1 = out_phase_copy [OF O n, of t]
  have f: "isempty_RL ?s = isempty_RL s" "is_end ?s = is_end s" by (simp_all add: isempty_RL_def is_end_def)
  have "end_pos ?s \<le> end_pos s + length ?bs" using f(2) l by (simp add: end_pos_def)
  then have g: "goes k X Y [] ?bs s ?s" using I c(3,4) O1 f(2) by (simp add: goes_def comp_inv_def)
  have a: "avail_out (estrm s) = avail_out t + n" using c(4) l by (simp add: io_step_def)
  show ?thesis
  proof (cases "state_out_pos s + n < numZ s")
    case True
    then have "compress_output (p, s) = Stop (p \<or> ?bs \<noteq> [], ?s)" using o c(1) b by (simp add: compress_output_def Let_def)
    moreover have "avail_out t = 0" using True c(2) a by linarith
    then have "stopped ?s" using True o by (simp add: stopped_def)
    ultimately show ?thesis using g by blast
  next
    case False
    then have all: "state_out_pos ?s = numZ ?s" using n by simp
    show ?thesis
    proof (cases "is_end s")
      case True
      then have e: "avail_in_expect s = 0" using O by (simp add: out_phase_def is_end_def)
      then have "compress_output (p, s) = Stop (p \<or> ?bs \<noteq> [], ?s)"
        using o c(1) b True False f by (simp add: compress_output_def Let_def is_end_def)
      moreover have "stopped ?s" using o e True f all by (simp add: stopped_def)
      ultimately show ?thesis using g by blast
    next
      case nend: False
      let ?t = "(prepare_new_block ?s)\<lparr>est := BZ_S_INPUT\<rparr>"
      have "in_phase k X (Y @ ?bs) ?t" by (rule next_block [OF O1 all]) (simp add: f nend)
      moreover have k: "emode ?t = emode s" "nblockMAX ?t = nblockMAX s" "eblockSize100k ?t = eblockSize100k s" "avail_in_expect ?t = avail_in_expect s"
          "estrm ?t = t" "isempty_RL ?t = isempty_RL s" "nblock ?t = 0" "numZ ?t = 0" "est ?t = BZ_S_INPUT" "end_pos ?t = 0"
        by (simp_all add: prepare_new_block_def isempty_RL_def end_pos_def)
      ultimately have g2: "goes k X Y [] ?bs s ?t" using I c(3,4) k(1-5,10) nend unfolding goes_def comp_inv_def io_step_def by simp
      have fin: "\<not> (emode s = BZ_M_FINISHING \<and> avail_in_expect s = 0 \<and> isempty_RL s)" using nend by (simp add: is_end_def)
      show ?thesis
      proof (cases "emode s = BZ_M_FLUSHING \<and> avail_in_expect s = 0 \<and> isempty_RL s")
        case True
        then have "compress_output (p, s) = Stop (p \<or> ?bs \<noteq> [], ?t)"
          using o c(1) b False fin f k by (simp add: compress_output_def Let_def)
        moreover have "stopped ?t" using True k by (simp add: stopped_def)
        ultimately show ?thesis using g2 by blast
      next
        case nf: False
        then have "compress_output (p, s) = Go (p \<or> ?bs \<noteq> [], ?t)"
          using o c(1) b False fin f k by (simp add: compress_output_def Let_def)
        moreover have "\<not> isempty_RL s"
          using O fin nf I unfolding out_phase_def comp_inv_def by auto
        ultimately show ?thesis using g2 k by blast
      qed
    qed
  qed
qed

section \<open>Input\<close>

lemma copy_nothing: "\<not> fst (copy_input_until_stop h s) \<Longrightarrow> snd (copy_input_until_stop h s) = s"
  unfolding copy_input_until_stop_def
  by (subst (asm) copy_running.simps, subst (asm) copy_expected.simps, subst copy_running.simps, subst copy_expected.simps)
     (auto simp: Let_def split: if_splits)

lemma copy_input_ok:
  assumes "src_ok (estrm s)"
  shows "\<exists>w s'. copy_input_until_stop h s = (w \<noteq> [], s') \<and> took w s s' \<and> rle_frame s s' \<and> (w = [] \<longrightarrow> s' = s) \<and>
    (nblock s' \<ge> nblockMAX s' \<or> avail_in (estrm s') = 0 \<or> emode s \<noteq> BZ_M_RUNNING \<and> avail_in_expect s' = 0) \<and>
    (emode s \<noteq> BZ_M_RUNNING \<longrightarrow> avail_in_expect s = avail_in (estrm s) \<longrightarrow> avail_in_expect s' = avail_in (estrm s'))"
proof -
  let ?r = "copy_input_until_stop h s"
  have "\<exists>w. took w s (snd ?r) \<and> fst ?r = (w \<noteq> []) \<and>
    (nblock (snd ?r) \<ge> nblockMAX s \<or> avail_in (estrm (snd ?r)) = 0 \<or> emode s \<noteq> BZ_M_RUNNING \<and> avail_in_expect (snd ?r) = 0) \<and>
    (emode s \<noteq> BZ_M_RUNNING \<longrightarrow> avail_in_expect s = length w + avail_in_expect (snd ?r))"
    using copy_running_ok [OF assms, of h] copy_expected_ok [OF assms, of h]
    by (cases "emode s = BZ_M_RUNNING") (auto simp: copy_input_until_stop_def)
  then obtain w where w: "took w s (snd ?r)" "fst ?r = (w \<noteq> [])"
    "nblock (snd ?r) \<ge> nblockMAX s \<or> avail_in (estrm (snd ?r)) = 0 \<or> emode s \<noteq> BZ_M_RUNNING \<and> avail_in_expect (snd ?r) = 0"
    "emode s \<noteq> BZ_M_RUNNING \<longrightarrow> avail_in_expect s = length w + avail_in_expect (snd ?r)" by blast
  have "length (in_bytes (estrm s)) = length (w @ in_bytes (estrm (snd ?r)))" using w(1) by (simp only: took_def)
  then have "avail_in (estrm s) = length w + avail_in (estrm (snd ?r))" by simp
  then show ?thesis using w rle_frame_copy [of s h] copy_nothing [of h s] by (intro exI [of _ w] exI [of _ "snd ?r"]) (auto simp: prod_eq_iff rle_frame_def)
qed

text \<open>A block is closed.\<close>

lemma crcs_closed_step:
  "blockCRC s = crc_bytes BZ_INITIALISE_CRC w \<Longrightarrow> combinedCRC (crcs_closed s) = crc_step (combinedCRC s) w \<and>
     blockCRC (crcs_closed s) = BZ_FINALISE_CRC (crc_bytes BZ_INITIALISE_CRC w)"
  by (simp add: crcs_closed_def crc_step_def)

lemma close_ok:
  assumes C: "compressed s is_last s'" and n: "nblock s \<le> 100000 * k" "nblock s \<le> 900095" "\<forall>i < 256. einUse s i \<longleftrightarrow> word_of_nat i \<in> set (block_list s)"
    and d: "rld (block_list s) = Some w" "blockCRC s = crc_bytes BZ_INITIALISE_CRC w"
    and b: "blocks_ok k bl" "combinedCRC s = stream_crc bl" "eblockSize100k s = k"
      "if blockNo s = 1 then bl = [] \<and> Y = [] else write_ok s \<and> bytes_bits Y @ out_bits s = stream_bits k bl"
  shows "\<exists>bl'. blocks_ok k bl' \<and> block_data bl' = block_data bl @ w \<and> combinedCRC s' = stream_crc bl' \<and>
    (if is_last then \<exists>pad < 8. bytes_bits Y @ bytes_bits (zbytes s') = stream_bits k bl' @ end_bits bl' @ replicate pad False
     else write_ok s' \<and> bytes_bits Y @ out_bits s' = stream_bits k bl')"
proof -
  let ?bl = "if 0 < nblock s then bl @ [(w, block_bits s')] else bl"
  have nil: "block_list s = []" if "nblock s = 0" using that by (simp add: block_list_def)
  have w: "w = []" if "nblock s = 0" using nil [OF that] d(1) by simp
  have img: "block_image k w (block_bits s')" if "0 < nblock s"
    using C d crcs_closed_step [OF d(2)] that n unfolding compressed_def block_image_def by (intro exI [of _ s] exI [of _ s']) simp
  have 1: "blocks_ok k ?bl" using b(1) img by (auto simp: blocks_ok_def)
  have 2: "block_data ?bl = block_data bl @ w" using w by auto
  have 3: "combinedCRC s' = stream_crc ?bl" using C b(2) crcs_closed_step [OF d(2)] by (simp add: compressed_def stream_crc_snoc)
  have so: "same_outer s s'" using C by (simp add: compressed_def)
  have h: "head_bits s' = (if blockNo s = 1 then bytes_bits [0x42, 0x5a, 0x68, 0x30 + word_of_nat k] else [])"
    using so b(3) by (simp add: head_bits_def same_outer_def)
  have 4: "bytes_bits Y @ coded_bits s s' = stream_bits k ?bl"
  proof (cases "blockNo s = 1")
    case True
    then have "bl = []" "Y = []" using b(4) by simp_all
    then show ?thesis using True unfolding coded_bits_def h bits_before_def by (simp add: stream_bits_def bytes_bits_def)
  next
    case False
    then have y: "bytes_bits Y @ out_bits s = stream_bits k bl" using b(4) by simp
    show ?thesis using False unfolding coded_bits_def h bits_before_def by (simp add: y [symmetric] stream_bits_snoc)
  qed
  have t: "trailer_bits s' = end_bits ?bl" by (simp only: trailer_bits_def end_bits_def 3)
  have "if is_last then \<exists>pad < 8. bytes_bits Y @ bytes_bits (zbytes s') = stream_bits k ?bl @ end_bits ?bl @ replicate pad False
     else write_ok s' \<and> bytes_bits Y @ out_bits s' = stream_bits k ?bl"
  proof (cases is_last)
    case True
    then obtain pad where "pad < 8" "bytes_bits (zbytes s') = coded_bits s s' @ trailer_bits s' @ replicate pad False"
      using C unfolding compressed_def by auto
    then show ?thesis using True unfolding t 4 [symmetric] by auto
  next
    case False
    then show ?thesis using C 4 by (simp add: compressed_def)
  qed
  then show ?thesis using 1 2 3 by blast
qed

lemma pending_fields: "same_outer s s' \<Longrightarrow> pending_run s' = pending_run s \<and> isempty_RL s' = isempty_RL s \<and> pending_ok s' = pending_ok s"
  by (simp add: same_outer_def pending_run_def isempty_RL_def pending_ok_def)

lemma run_block_ok:
  assumes h: "host_ok h" and n: "nblock s \<le> 900095" and nk: "nblock s \<le> 100000 * k" and u: "\<forall>i < 256. einUse s i \<longleftrightarrow> word_of_nat i \<in> set (block_list s)"
    and z: "numZ s = 0" "state_out_pos s = 0" "1 \<le> blockNo s" and d: "rld (block_list s) = Some w" "blockCRC s = crc_bytes BZ_INITIALISE_CRC w"
    and b: "blocks_ok k bl" "combinedCRC s = stream_crc bl" "eblockSize100k s = k"
      "if blockNo s = 1 then bl = [] \<and> Y = [] else write_ok s \<and> bytes_bits Y @ out_bits s = stream_bits k bl"
    and p: "pending_ok s" "isempty_RL s \<Longrightarrow> emode s \<noteq> BZ_M_RUNNING \<and> avail_in_expect s = 0" "is_last = is_end s"
  shows "\<exists>s'. run_block h is_last (q, s) = Some (Go (q, s')) \<and> out_phase k (block_data bl @ w @ expand_runs (pending_run s)) Y s' \<and>
    estrm s' = estrm s \<and> emode s' = emode s \<and> avail_in_expect s' = avail_in_expect s \<and> nblockMAX s' = nblockMAX s \<and>
    eblockSize100k s' = eblockSize100k s \<and> isempty_RL s' = isempty_RL s \<and> end_pos s' = 0"
proof -
  have used: "\<forall>i < nblock s. einUse s (unat (block s i))" by (rule marked_bytes [OF u])
  have "blockNo s = 1 \<or> write_ok s" using b(4) by (cases "blockNo s = 1") simp_all
  with used have "block_ready h s" using n z host_sort_ready [OF h] by (simp add: block_ready_def)
  from compressBlock_ok [OF this, of is_last] obtain t where
      t: "BZ2_compressBlock h s is_last = Some (t, None)" "compressed s is_last t" by blast
  let ?t = "t\<lparr>est := BZ_S_OUTPUT\<rparr>"
  have so: "same_outer s t" using t(2) by (simp add: compressed_def)
  note pf = pending_fields [OF so]
  have r: "run_block h is_last (q, s) = Some (Go (q, ?t))" using t(1) by (simp add: run_block_def)
  obtain bl' where B: "blocks_ok k bl'" "block_data bl' = block_data bl @ w" "combinedCRC t = stream_crc bl'"
    "if is_last then \<exists>pad < 8. bytes_bits Y @ bytes_bits (zbytes t) = stream_bits k bl' @ end_bits bl' @ replicate pad False
     else write_ok t \<and> bytes_bits Y @ out_bits t = stream_bits k bl'"
    using close_ok [OF t(2) nk n u d b] by blast
  have f: "zbytes ?t = zbytes t" "out_bits ?t = out_bits t" "write_ok ?t = write_ok t" "isempty_RL ?t = isempty_RL s" "is_end ?t = is_end s"
      "pending_ok ?t = pending_ok s" "pending_run ?t = pending_run s" "state_out_pos ?t = 0" "blockNo ?t = blockNo s" "emode ?t = emode s"
      "avail_in_expect ?t = avail_in_expect s" "combinedCRC ?t = combinedCRC t"
    using pf so z(2) by (simp_all add: zbytes_def out_bits_def write_ok_def isempty_RL_def is_end_def pending_ok_def pending_run_def same_outer_def)
  have nz: "0 < numZ t" if "is_end s"
  proof -
    have is_last using p(3) that by simp
    then obtain pad where "bytes_bits (zbytes t) = coded_bits s t @ trailer_bits t @ replicate pad False" using t(2) unfolding compressed_def by auto
    from arg_cong [OF this, of length] show ?thesis by (simp add: trailer_bits_def zbytes_def)
  qed
  have "out_phase k (block_data bl @ w @ expand_runs (pending_run s)) Y ?t"
    unfolding out_phase_def f using p z(3) B nz by (auto intro!: exI [of _ bl'] exI [of _ Y])
  then show ?thesis using r so f(4,8) by (intro exI [of _ ?t]) (simp add: same_outer_def end_pos_def)
qed

lemma compress_input_ok:
  assumes h: "host_ok h" and I: "comp_inv k X Y s" and i: "est s = BZ_S_INPUT" and ok: "src_ok (estrm s)"
    and e: "emode s \<noteq> BZ_M_RUNNING \<longrightarrow> avail_in_expect s = avail_in (estrm s)"
  shows "\<exists>w s'. goes k X Y w [] s s' \<and>
    (compress_input h (p, s) = Some (Stop (p \<or> w \<noteq> [], s')) \<and> stopped s' \<or>
     compress_input h (p, s) = Some (Go (p \<or> w \<noteq> [], s')) \<and> est s' = BZ_S_OUTPUT \<and> (nblock s = 0 \<longrightarrow> w \<noteq> [] \<or> isempty_RL s'))"
proof -
  obtain w s1 where c: "copy_input_until_stop h s = (w \<noteq> [], s1)" "took w s s1" "rle_frame s s1" and nop: "w = [] \<longrightarrow> s1 = s" and c':
    "nblock s1 \<ge> nblockMAX s1 \<or> avail_in (estrm s1) = 0 \<or> emode s \<noteq> BZ_M_RUNNING \<and> avail_in_expect s1 = 0"
    "emode s \<noteq> BZ_M_RUNNING \<longrightarrow> avail_in_expect s = avail_in (estrm s) \<longrightarrow> avail_in_expect s1 = avail_in (estrm s1)"
    using copy_input_ok [OF ok, of h] by blast
  note c = c c'
  have inp: "in_phase k X Y s" using I i by (auto simp: comp_inv_def out_phase_def)
  then obtain bl rs where b: "blocks_ok k bl" "rle_at rs s" "X = block_data bl @ taken rs s" "combinedCRC s = stream_crc bl"
      "if blockNo s = 1 then bl = [] \<and> Y = [] else write_ok s \<and> bytes_bits Y @ out_bits s = stream_bits k bl"
    unfolding in_phase_def by blast
  obtain rs1 where r1: "rle_at rs1 s1" "taken rs1 s1 = taken rs s @ w" using c(2) b(2) by (auto simp: took_def)
  have k: "1 \<le> k" "k \<le> 9" "nblockMAX s = 100000 * k - 19" "eblockSize100k s = k" "emode s \<in> {BZ_M_RUNNING, BZ_M_FLUSHING, BZ_M_FINISHING}"
    using I by (auto simp: comp_inv_def)
  have f1: "est s1 = est s" "emode s1 = emode s" "numZ s1 = 0" "state_out_pos s1 = 0" "blockNo s1 = blockNo s" "combinedCRC s1 = combinedCRC s"
    "eblockSize100k s1 = k" "nblockMAX s1 = nblockMAX s" "write_ok s1 = write_ok s" "out_bits s1 = out_bits s" "1 \<le> blockNo s"
    using c(3) inp k(4) by (simp_all add: rle_frame_def in_phase_def)
  have n1: "nblock s1 \<le> nblockMAX s + 4" using c(2) inp by (auto simp: took_def in_phase_def)
  have io1: "io_step w [] s s1" using c(2) by (simp add: took_def io_step_def)
  have st: "if blockNo s1 = 1 then bl = [] \<and> Y = [] else write_ok s1 \<and> bytes_bits Y @ out_bits s1 = stream_bits k bl"
    using b(5) by (simp only: f1)
  have cc: "combinedCRC s1 = stream_crc bl" using b(4) f1 by simp
  let ?q = "p \<or> w \<noteq> []"
  show ?thesis
  proof (cases "emode s \<noteq> BZ_M_RUNNING \<and> avail_in_expect s1 = 0")
    case True
    let ?s2 = "flush_RL h s1"
    note F = flush_RL_ok [OF r1(1), of h] and fr = rle_frame_flush [of s1 h]
    have fx: "estrm ?s2 = estrm s1" "avail_in_expect ?s2 = 0" "pending_run ?s2 = []" "pending_ok ?s2"
      using True by (auto simp: flush_RL_def init_RL_def pending_run_def pending_ok_def)
    have f2: "emode ?s2 = emode s" "numZ ?s2 = 0" "state_out_pos ?s2 = 0" "blockNo ?s2 = blockNo s" "combinedCRC ?s2 = stream_crc bl"
      "eblockSize100k ?s2 = k" "nblockMAX ?s2 = nblockMAX s" "write_ok ?s2 = write_ok s" "out_bits ?s2 = out_bits s"
      using fr f1 cc by (simp_all add: rle_frame_def)
    have st2: "if blockNo ?s2 = 1 then bl = [] \<and> Y = [] else write_ok ?s2 \<and> bytes_bits Y @ out_bits ?s2 = stream_bits k bl"
      using b(5) by (simp only: f2)
    have nb: "nblock ?s2 \<le> 900095" "nblock ?s2 \<le> 100000 * k" using F(4) n1 k by simp_all
    have le: "is_end ?s2 \<longleftrightarrow> emode s = BZ_M_FINISHING" using F(5) f2 by (simp add: is_end_def)
    have em: "emode ?s2 \<noteq> BZ_M_RUNNING \<and> avail_in_expect ?s2 = 0" using True fx f2 by simp
    obtain s' where s': "run_block h (is_end ?s2) (?q, ?s2) = Some (Go (?q, s'))"
      "out_phase k (block_data bl @ taken rs1 s1 @ expand_runs (pending_run ?s2)) Y s'" "estrm s' = estrm ?s2" "emode s' = emode ?s2"
      "avail_in_expect s' = avail_in_expect ?s2" "nblockMAX s' = nblockMAX ?s2" "eblockSize100k s' = eblockSize100k ?s2" "isempty_RL s' = isempty_RL ?s2" "end_pos s' = 0"
      using run_block_ok [where q = ?q, OF h nb F(3) f2(2,3) _ F(1,2) b(1) f2(5,6) st2 fx(4) em refl] f1(11) f2(4) by auto
    have "compress_input h (p, s) = Some (Go (?q, s'))"
      using i c(1) True s'(1) f1(2) le by (simp add: compress_input_def Let_def)
    moreover have "comp_inv k (X @ w) Y s'" using s' k f2 b(3) r1(2) fx(3) by (simp add: comp_inv_def)
    then have "goes k X Y w [] s s'" using io1 s' fx f2 c(5) e True i by (simp add: goes_def io_step_def)
    moreover have "est s' = BZ_S_OUTPUT" using s'(2) by (simp add: out_phase_def)
    ultimately show ?thesis using s'(8) F(5) by blast
  next
    case nfl: False
    then have nfl': "(emode s1 \<noteq> BZ_M_RUNNING \<and> avail_in_expect s1 = 0) = False" using f1(2) by simp
    show ?thesis
    proof (cases "nblock s1 \<ge> nblockMAX s1")
      case True
      have "rs1 \<noteq> []" using True r1(1) f1(8) k by (auto simp: rle_at_def block_list_def)
      then have pn: "state_in_ch s1 < 256" using r1(1) by (auto simp: rle_at_def)
      have pok: "pending_ok s1" "\<not> isempty_RL s1"
        using r1(1) pn by (auto simp: rle_at_def pending_ok_def pending_run_def runs_ok_append isempty_RL_def)
      have nb: "nblock s1 \<le> 900095" "nblock s1 \<le> 100000 * k" using n1 k by simp_all
      have u: "\<forall>i < 256. einUse s1 i \<longleftrightarrow> word_of_nat i \<in> set (block_list s1)" using r1(1) by (simp add: rle_at_def)
      note D = full_block_ok [OF r1(1)]
      have le: "is_end s1 = False" using pok(2) by (simp add: is_end_def)
      obtain s' where s': "run_block h False (?q, s1) = Some (Go (?q, s'))"
        "out_phase k (block_data bl @ expand_runs rs1 @ expand_runs (pending_run s1)) Y s'" "estrm s' = estrm s1" "emode s' = emode s1"
        "avail_in_expect s' = avail_in_expect s1" "nblockMAX s' = nblockMAX s1" "eblockSize100k s' = eblockSize100k s1" "end_pos s' = 0"
        using run_block_ok [where q = ?q and is_last = False, OF h nb u f1(3,4) _ D b(1) cc f1(7) st pok(1)] pok(2) le f1(5,11) by auto
      have "compress_input h (p, s) = Some (Go (?q, s'))"
        using i c(1) True s'(1) unfolding compress_input_def Let_def by (simp only: prod.case refl if_True nfl' if_False)
      moreover have "X @ w = block_data bl @ expand_runs rs1 @ expand_runs (pending_run s1)" using b(3) r1(2) by (simp add: taken_def)
      then have "comp_inv k (X @ w) Y s'" using s' k f1 by (simp add: comp_inv_def)
      then have "goes k X Y w [] s s'" using io1 s' f1 c(5) e i by (simp add: goes_def io_step_def)
      moreover have "est s' = BZ_S_OUTPUT" using s'(2) by (simp add: out_phase_def)
      moreover have "w \<noteq> []" if "nblock s = 0"
      proof
        assume "w = []"
        then have "nblock s1 = 0" using nop that by simp
        then show False using True f1(8) k by simp
      qed
      ultimately show ?thesis by (intro exI [of _ w] exI [of _ s']) simp
    next
      case False
      then have a: "avail_in (estrm s1) = 0" using c(4) nfl by blast
      have run: "emode s = BZ_M_RUNNING" using nfl c(5) e a by auto
      have "compress_input h (p, s) = Some (Stop (?q, s1))"
        using i c(1) run False a f1(2) by (simp add: compress_input_def Let_def)
      moreover have "stopped s1" using f1 i run a by (simp add: stopped_def)
      moreover have "in_phase k (X @ w) Y s1"
        unfolding in_phase_def using f1 i n1 b(1,3) r1 cc st by (auto intro!: exI [of _ bl] exI [of _ rs1])
      then have "goes k X Y w [] s s1" using io1 k f1 run i by (simp add: goes_def comp_inv_def end_pos_def)
      ultimately show ?thesis by blast
    qed
  qed
qed

section \<open>The loop\<close>

lemma handle_Go: "compress_round h a = Some (Go b) \<Longrightarrow> handle_compress h a = handle_compress h b"
  by (subst handle_compress.simps) simp

lemma handle_Stop: "compress_round h a = Some (Stop b) \<Longrightarrow> handle_compress h a = Some (Stop b)"
  by (subst handle_compress.simps) simp

lemma goes_mode: "goes k X Y w bs s s' \<Longrightarrow> emode s \<noteq> BZ_M_RUNNING \<longrightarrow> avail_in_expect s = avail_in (estrm s) \<Longrightarrow>
    emode s' \<noteq> BZ_M_RUNNING \<longrightarrow> avail_in_expect s' = avail_in (estrm s')"
  by (simp add: goes_def)

lemma goes_avail: "goes k X Y w bs s s' \<Longrightarrow> avail_in (estrm s) = length w + avail_in (estrm s')"
  using io_step_avail by (auto simp: goes_def)

lemma handle_from_output:
  assumes h: "host_ok h" and "comp_inv k X Y s" "est s = BZ_S_OUTPUT" "src_ok (estrm s)"
    "emode s \<noteq> BZ_M_RUNNING \<longrightarrow> avail_in_expect s = avail_in (estrm s)"
  shows "\<exists>w bs s'. handle_compress h (p, s) = Some (Stop (p \<or> w @ bs \<noteq> [], s')) \<and> goes k X Y w bs s s' \<and> stopped s'"
  using assms(2-)
proof (induction "2 * avail_in (estrm s) + (if isempty_RL s then 0 else 1)" arbitrary: X Y s p rule: less_induct)
  case less
  obtain bs s1 where 1: "goes k X Y [] bs s s1"
    "compress_output (p, s) = Stop (p \<or> bs \<noteq> [], s1) \<and> stopped s1 \<or>
     compress_output (p, s) = Go (p \<or> bs \<noteq> [], s1) \<and> est s1 = BZ_S_INPUT \<and> nblock s1 = 0 \<and> \<not> isempty_RL s"
    using compress_output_ok [OF less.prems(1,2)] by blast
  from 1(2) show ?case
  proof
    assume a: "compress_output (p, s) = Stop (p \<or> bs \<noteq> [], s1) \<and> stopped s1"
    then have "handle_compress h (p, s) = Some (Stop (p \<or> bs \<noteq> [], s1))" by (intro handle_Stop) (simp add: compress_round_def)
    then show ?thesis using 1(1) a by (intro exI [of _ "[]"] exI [of _ bs] exI [of _ s1]) simp
  next
    assume a: "compress_output (p, s) = Go (p \<or> bs \<noteq> [], s1) \<and> est s1 = BZ_S_INPUT \<and> nblock s1 = 0 \<and> \<not> isempty_RL s"
    have I1: "comp_inv k X (Y @ bs) s1" "src_ok (estrm s1)" using 1(1) less.prems(3) by (simp_all add: goes_def io_step_def)
    note e1 = goes_mode [OF 1(1) less.prems(4)]
    obtain w s2 where 2: "goes k X (Y @ bs) w [] s1 s2"
      "compress_input h (p \<or> bs \<noteq> [], s1) = Some (Stop ((p \<or> bs \<noteq> []) \<or> w \<noteq> [], s2)) \<and> stopped s2 \<or>
       compress_input h (p \<or> bs \<noteq> [], s1) = Some (Go ((p \<or> bs \<noteq> []) \<or> w \<noteq> [], s2)) \<and> est s2 = BZ_S_OUTPUT \<and> (nblock s1 = 0 \<longrightarrow> w \<noteq> [] \<or> isempty_RL s2)"
      using compress_input_ok [OF h I1(1) _ I1(2) e1] a by blast
    have r: "compress_round h (p, s) = compress_input h (p \<or> bs \<noteq> [], s1)" using a by (simp add: compress_round_def)
    have g: "goes k X Y w bs s s2" using goes_trans [OF 1(1), of w "[]" s2] 2(1) by simp
    from 2(2) show ?thesis
    proof
      assume b: "compress_input h (p \<or> bs \<noteq> [], s1) = Some (Stop ((p \<or> bs \<noteq> []) \<or> w \<noteq> [], s2)) \<and> stopped s2"
      then have "handle_compress h (p, s) = Some (Stop ((p \<or> bs \<noteq> []) \<or> w \<noteq> [], s2))" by (intro handle_Stop) (simp only: r)
      then have "handle_compress h (p, s) = Some (Stop (p \<or> w @ bs \<noteq> [], s2))" by (simp add: disj_ac)
      then show ?thesis using g b by blast
    next
      assume b: "compress_input h (p \<or> bs \<noteq> [], s1) = Some (Go ((p \<or> bs \<noteq> []) \<or> w \<noteq> [], s2)) \<and> est s2 = BZ_S_OUTPUT \<and>
        (nblock s1 = 0 \<longrightarrow> w \<noteq> [] \<or> isempty_RL s2)"
      let ?p = "(p \<or> bs \<noteq> []) \<or> w \<noteq> []"
      have hc: "handle_compress h (p, s) = handle_compress h (?p, s2)" by (rule handle_Go) (simp only: r b)
      have av: "avail_in (estrm s) = length w + avail_in (estrm s2)" by (rule goes_avail [OF g])
      have ne: "\<not> isempty_RL s" using a by blast
      have m: "2 * avail_in (estrm s2) + (if isempty_RL s2 then 0 else 1) < 2 * avail_in (estrm s) + (if isempty_RL s then 0 else 1)"
      proof (cases "w = []")
        case True
        then show ?thesis using a b ne av by simp
      next
        case False
        then show ?thesis using av ne by (cases w) auto
      qed
      have I2: "comp_inv k (X @ w) (Y @ bs) s2" "src_ok (estrm s2)" using g less.prems(3) by (simp_all add: goes_def io_step_def)
      obtain w' bs' s' where 3: "handle_compress h (?p, s2) = Some (Stop (?p \<or> w' @ bs' \<noteq> [], s'))"
        "goes k (X @ w) (Y @ bs) w' bs' s2 s'" "stopped s'"
        using less.hyps [OF m I2(1) _ I2(2) goes_mode [OF g less.prems(4)], of ?p] b by blast
      have "(?p \<or> w' @ bs' \<noteq> []) = (p \<or> (w @ w') @ bs @ bs' \<noteq> [])" by auto
      then have "handle_compress h (p, s) = Some (Stop (p \<or> (w @ w') @ bs @ bs' \<noteq> [], s'))" using 3(1) hc by simp
      moreover have "goes k X Y (w @ w') (bs @ bs') s s'" by (rule goes_trans [OF g 3(2)])
      ultimately show ?thesis using 3(3) by blast
    qed
  qed
qed

lemma handle_compress_ok:
  assumes h: "host_ok h" and I: "comp_inv k X Y s" and i: "src_ok (estrm s)"
    and e: "emode s \<noteq> BZ_M_RUNNING \<longrightarrow> avail_in_expect s = avail_in (estrm s)"
  shows "\<exists>w bs s'. handle_compress h (p, s) = Some (Stop (p \<or> w @ bs \<noteq> [], s')) \<and> goes k X Y w bs s s' \<and> stopped s'"
proof (cases "est s = BZ_S_OUTPUT")
  case True
  then show ?thesis by (rule handle_from_output [OF h I _ i e])
next
  case False
  then have s: "est s = BZ_S_INPUT" using I by (auto simp: comp_inv_def in_phase_def out_phase_def)
  have r: "compress_round h (p, s) = compress_input h (p, s)" using s by (simp add: compress_round_def compress_output_def)
  obtain w s1 where 1: "goes k X Y w [] s s1"
    "compress_input h (p, s) = Some (Stop (p \<or> w \<noteq> [], s1)) \<and> stopped s1 \<or>
     compress_input h (p, s) = Some (Go (p \<or> w \<noteq> [], s1)) \<and> est s1 = BZ_S_OUTPUT \<and> (nblock s = 0 \<longrightarrow> w \<noteq> [] \<or> isempty_RL s1)"
    using compress_input_ok [OF h I s i e] by blast
  from 1(2) show ?thesis
  proof
    assume a: "compress_input h (p, s) = Some (Stop (p \<or> w \<noteq> [], s1)) \<and> stopped s1"
    then have "handle_compress h (p, s) = Some (Stop (p \<or> w \<noteq> [], s1))" by (intro handle_Stop) (simp only: r)
    then show ?thesis using 1(1) a by (intro exI [of _ w] exI [of _ "[]"] exI [of _ s1]) simp
  next
    assume a: "compress_input h (p, s) = Some (Go (p \<or> w \<noteq> [], s1)) \<and> est s1 = BZ_S_OUTPUT \<and> (nblock s = 0 \<longrightarrow> w \<noteq> [] \<or> isempty_RL s1)"
    have hc: "handle_compress h (p, s) = handle_compress h (p \<or> w \<noteq> [], s1)" by (rule handle_Go) (simp only: r a)
    have I1: "comp_inv k (X @ w) Y s1" "src_ok (estrm s1)" using 1(1) i by (simp_all add: goes_def io_step_def)
    obtain w' bs' s' where 2: "handle_compress h (p \<or> w \<noteq> [], s1) = Some (Stop ((p \<or> w \<noteq> []) \<or> w' @ bs' \<noteq> [], s'))"
      "goes k (X @ w) Y w' bs' s1 s'" "stopped s'"
      using handle_from_output [OF h I1(1) _ I1(2) goes_mode [OF 1(1) e], of "p \<or> w \<noteq> []"] a by blast
    have "((p \<or> w \<noteq> []) \<or> w' @ bs' \<noteq> []) = (p \<or> (w @ w') @ bs' \<noteq> [])" by auto
    then have "handle_compress h (p, s) = Some (Stop (p \<or> (w @ w') @ bs' \<noteq> [], s'))" using 2(1) hc by simp
    moreover have "goes k X Y (w @ w') bs' s s'" using goes_trans [OF 1(1), of w' bs' s'] 2(2) by simp
    ultimately show ?thesis using 2(3) by blast
  qed
qed

end
