(* ===== verification/CompressCall.thy ===== *)
theory CompressCall
  imports CompressLoop
begin

text \<open>
  One call of \<open>BZ2_bzCompress\<close> on a good handle, in each of the modes behind \<open>preswitch\<close>: what it takes in and gives out, and what each
  return code promises. \<open>X\<close> and \<open>Y\<close> are the bytes taken in and given out by the calls before.
\<close>

section \<open>A good handle\<close>

definition chandle_ok :: "nat \<Rightarrow> u8 list \<Rightarrow> u8 list \<Rightarrow> chandle \<Rightarrow> bool" where
  "chandle_ok k X Y h \<longleftrightarrow> (\<exists>s. c_state h = Some (c_addr h, s) \<and> comp_inv k X Y s)"

lemma in_phase_fields [simp]:
  "in_phase k X Y (s\<lparr>estrm := t\<rparr>) = in_phase k X Y s"
  "in_phase k X Y (s\<lparr>avail_in_expect := a\<rparr>) = in_phase k X Y s"
  "in_phase k X Y (s\<lparr>emode := e\<rparr>) = in_phase k X Y s"
  by (simp_all add: in_phase_def rle_at_def taken_def pending_run_def block_list_def write_ok_def out_bits_def zbytes_def)

lemma comp_inv_estrm [simp]: "comp_inv k X Y (s\<lparr>estrm := t\<rparr>) = comp_inv k X Y s"
  by (simp add: comp_inv_def out_phase_def pending_ok_def pending_run_def isempty_RL_def is_end_def write_ok_def out_bits_def zbytes_def)

text \<open>A running compressor may be told to flush or to finish at any time.\<close>

lemma comp_inv_switch:
  assumes I: "comp_inv k X Y s" and m: "emode s = BZ_M_RUNNING" "e \<in> {BZ_M_FLUSHING, BZ_M_FINISHING}"
  shows "comp_inv k X Y (s\<lparr>avail_in_expect := a, emode := e\<rparr>)"
proof -
  let ?t = "s\<lparr>avail_in_expect := a, emode := e\<rparr>"
  have "out_phase k X Y ?t" if O: "out_phase k X Y s"
  proof -
    have ne: "\<not> isempty_RL s" using O m(1) by (auto simp: out_phase_def)
    have f: "zbytes ?t = zbytes s" "out_bits ?t = out_bits s" "write_ok ?t = write_ok s" "isempty_RL ?t = isempty_RL s"
        "pending_ok ?t = pending_ok s" "pending_run ?t = pending_run s"
      by (simp_all add: zbytes_def out_bits_def write_ok_def isempty_RL_def pending_ok_def pending_run_def)
    have "\<not> is_end s" "\<not> is_end ?t" using ne f by (simp_all add: is_end_def)
    then show ?thesis using O ne unfolding out_phase_def f by simp
  qed
  then show ?thesis using I m(2) by (auto simp: comp_inv_def)
qed

lemma isempty_none:
  assumes "runs_ok (rs @ pending_run s)" "isempty_RL s"
  shows "pending_run s = []"
  using assms by (auto simp: pending_run_def isempty_RL_def runs_ok_append split: if_splits)

section \<open>What the codes promise\<close>

text \<open>All bytes so far are in blocks that are coded; at most 64 bits of them are still held back.\<close>

definition flushed :: "nat \<Rightarrow> u8 list \<Rightarrow> u8 list \<Rightarrow> bool" where
  "flushed k X Y \<longleftrightarrow> X = [] \<and> Y = [] \<or>
     (\<exists>bl bits. blocks_ok k bl \<and> X = block_data bl \<and> length bits \<le> 64 \<and> bytes_bits Y @ bits = stream_bits k bl)"

lemma flushed_in_phase:
  assumes I: "in_phase k X Y s" and e: "isempty_RL s" "numZ s = 0"
  shows "flushed k X Y"
proof -
  obtain bl rs where b: "blocks_ok k bl" "rle_at rs s" "X = block_data bl @ taken rs s"
      "if blockNo s = 1 then bl = [] \<and> Y = [] else write_ok s \<and> bytes_bits Y @ out_bits s = stream_bits k bl"
    using I unfolding in_phase_def by blast
  have p: "pending_run s = []" using b(2) e(1) isempty_none by (auto simp: rle_at_def)
  then have "rs = []" using b(2) by (auto simp: rle_at_def pending_run_def split: if_splits)
  then have x: "X = block_data bl" using b(3) p by (simp add: taken_def)
  show ?thesis
  proof (cases "blockNo s = 1")
    case True
    then show ?thesis using b(4) x by (simp add: flushed_def)
  next
    case False
    then have w: "write_ok s" "bytes_bits Y @ out_bits s = stream_bits k bl" using b(4) by simp_all
    have "length (out_bits s) \<le> 64" using w(1) e(2) by (auto simp: out_bits_def zbytes_def bytes_bits_def write_ok_def)
    then show ?thesis using w(2) b(1) x unfolding flushed_def by blast
  qed
qed

lemma whole_stream_end:
  assumes I: "comp_inv k X Y s" and e: "est s = BZ_S_OUTPUT" "is_end s" "state_out_pos s = numZ s"
  shows "whole_stream k X Y"
proof -
  have O: "out_phase k X Y s" using I e(1) by (auto simp: comp_inv_def in_phase_def)
  then obtain bl Y0 pad where b: "blocks_ok k bl" "X = block_data bl @ expand_runs (pending_run s)"
      "Y = Y0 @ take (state_out_pos s) (zbytes s)" "pad < 8"
      "bytes_bits Y0 @ bytes_bits (zbytes s) = stream_bits k bl @ end_bits bl @ replicate pad False"
    using e(2) unfolding out_phase_def by auto
  have "pending_run s = []"
    using O e(2) isempty_none [of "[]" s] by (simp add: out_phase_def pending_ok_def is_end_def)
  moreover have "Y = Y0 @ zbytes s" using b(3) e(3) by (simp add: zbytes_def)
  ultimately show ?thesis using b unfolding whole_stream_def by (intro exI [of _ bl]) (auto simp: bytes_bits_def)
qed

text \<open>One call: \<open>w\<close> is taken in, \<open>bs\<close> is given out.\<close>

definition call_ok :: "nat \<Rightarrow> u8 list \<Rightarrow> u8 list \<Rightarrow> int \<Rightarrow> estate \<Rightarrow> int \<Rightarrow> u8 list \<Rightarrow> u8 list \<Rightarrow> estate \<Rightarrow> bool" where
  "call_ok k X Y action s r w bs s' \<longleftrightarrow> io_step w bs s s' \<and>
     (if r = BZ_STREAM_END
      then action = BZ_FINISH \<and> emode s' = BZ_M_IDLE \<and> avail_in (estrm s') = 0 \<and> whole_stream k (X @ w) (Y @ bs)
      else comp_inv k (X @ w) (Y @ bs) s') \<and>
     (r = BZ_RUN_OK \<longrightarrow> action = BZ_RUN \<and> (avail_in (estrm s') = 0 \<or> avail_out (estrm s') = 0) \<or>
        action = BZ_FLUSH \<and> avail_in (estrm s') = 0 \<and> flushed k (X @ w) (Y @ bs)) \<and>
     (r = BZ_FLUSH_OK \<longrightarrow> action = BZ_FLUSH \<and> emode s' = BZ_M_FLUSHING \<and> avail_out (estrm s') = 0 \<and> avail_in_expect s' = avail_in (estrm s')) \<and>
     (r = BZ_FINISH_OK \<longrightarrow> action = BZ_FINISH \<and> emode s' = BZ_M_FINISHING \<and> avail_out (estrm s') = 0 \<and> w @ bs \<noteq> [] \<and>
        avail_in_expect s' = avail_in (estrm s')) \<and>
     (r = BZ_PARAM_ERROR \<or> r = BZ_SEQUENCE_ERROR \<longrightarrow> w = [] \<and> bs = []) \<and> (r = BZ_PARAM_ERROR \<longrightarrow> action \<noteq> BZ_FLUSH \<and> action \<noteq> BZ_FINISH) \<and>
     r \<in> {BZ_STREAM_END, BZ_RUN_OK, BZ_FLUSH_OK, BZ_FINISH_OK, BZ_PARAM_ERROR, BZ_SEQUENCE_ERROR}"

lemma call_refused: "comp_inv k X Y s \<Longrightarrow> r = BZ_PARAM_ERROR \<and> action \<noteq> BZ_FLUSH \<and> action \<noteq> BZ_FINISH \<or> r = BZ_SEQUENCE_ERROR \<Longrightarrow> call_ok k X Y action s r [] [] s"
  using io_step_refl [of s s] by (auto simp: call_ok_def)

lemma stopped_more: "stopped s \<Longrightarrow> emode s \<noteq> BZ_M_RUNNING \<Longrightarrow> comp_inv k X Y s \<Longrightarrow>
    (avail_out (estrm s) = 0 \<and> more_to_do s \<and> state_out_pos s < numZ s) \<or>
    (\<not> more_to_do s \<and> avail_in_expect s = 0 \<and> isempty_RL s \<and>
      (est s = BZ_S_OUTPUT \<and> is_end s \<and> state_out_pos s = numZ s \<or> est s = BZ_S_INPUT \<and> emode s = BZ_M_FLUSHING \<and> numZ s = 0))"
  by (auto simp: stopped_def more_to_do_def is_end_def comp_inv_def in_phase_def)

section \<open>The three modes\<close>

lemma run_mode_ok:
  assumes h: "host_ok h" and I: "comp_inv k X Y s" and i: "src_ok (estrm s)" and m: "emode s = BZ_M_RUNNING"
  shows "\<exists>r w bs s'. run_mode h s = Some (Ret r s') \<and> call_ok k X Y BZ_RUN s r w bs s'"
proof -
  obtain w bs s' where H: "handle_compress h (False, s) = Some (Stop (w @ bs \<noteq> [], s'))" "goes k X Y w bs s s'" "stopped s'"
    using handle_compress_ok [OF h I i, of False] m by auto
  have "avail_in (estrm s') = 0 \<or> avail_out (estrm s') = 0" using H(2,3) m by (auto simp: stopped_def goes_def is_end_def)
  then have "call_ok k X Y BZ_RUN s (if w @ bs \<noteq> [] then BZ_RUN_OK else BZ_PARAM_ERROR) w bs s'"
    using H(2) by (simp add: call_ok_def goes_def)
  moreover have "run_mode h s = Some (Ret (if w @ bs \<noteq> [] then BZ_RUN_OK else BZ_PARAM_ERROR) s')"
    by (simp add: run_mode_def H(1))
  ultimately show ?thesis by blast
qed

lemma flush_mode_ok:
  assumes h: "host_ok h" and I: "comp_inv k X Y s" and i: "src_ok (estrm s)" and m: "emode s = BZ_M_FLUSHING"
  shows "\<exists>r w bs s'. flush_mode h action s = Some (Ret r s') \<and> call_ok k X Y action s r w bs s'"
proof (cases "action \<noteq> BZ_FLUSH \<or> avail_in_expect s \<noteq> avail_in (estrm s)")
  case True
  then have "flush_mode h action s = Some (Ret BZ_SEQUENCE_ERROR s)" by (auto simp: flush_mode_def)
  then show ?thesis using call_refused [OF I, of BZ_SEQUENCE_ERROR action] by blast
next
  case False
  then have a: "action = BZ_FLUSH" "avail_in_expect s = avail_in (estrm s)" by simp_all
  obtain w bs s' where H: "handle_compress h (False, s) = Some (Stop (w @ bs \<noteq> [], s'))" "goes k X Y w bs s s'" "stopped s'"
    using handle_compress_ok [OF h I i, of False] a(2) by auto
  have g: "comp_inv k (X @ w) (Y @ bs) s'" "emode s' = BZ_M_FLUSHING" "avail_in_expect s' = avail_in (estrm s')" "io_step w bs s s'"
    using H(2) a(2) m by (simp_all add: goes_def)
  have c: "(avail_out (estrm s') = 0 \<and> more_to_do s') \<or>
    (\<not> more_to_do s' \<and> avail_in_expect s' = 0 \<and> isempty_RL s' \<and> est s' = BZ_S_INPUT \<and> numZ s' = 0)"
    using stopped_more [OF H(3) _ g(1)] g(2) by (auto simp: is_end_def)
  show ?thesis
  proof (cases "more_to_do s'")
    case True
    then have "flush_mode h action s = Some (Ret BZ_FLUSH_OK s')" using a by (simp add: flush_mode_def H(1))
    moreover have "call_ok k X Y action s BZ_FLUSH_OK w bs s'" using g c a True by (simp add: call_ok_def)
    ultimately show ?thesis by blast
  next
    case False
    have f: "flush_mode h action s = Some (Ret BZ_RUN_OK (s'\<lparr>emode := BZ_M_RUNNING\<rparr>))" using a False by (simp add: flush_mode_def H(1))
    have I': "in_phase k (X @ w) (Y @ bs) s'" using g(1) c False by (auto simp: comp_inv_def out_phase_def)
    have "comp_inv k (X @ w) (Y @ bs) (s'\<lparr>emode := BZ_M_RUNNING\<rparr>)" using g(1) I' by (simp add: comp_inv_def)
    moreover have "flushed k (X @ w) (Y @ bs)" using flushed_in_phase [OF I'] c False by simp
    moreover have "io_step w bs s (s'\<lparr>emode := BZ_M_RUNNING\<rparr>)" using g(4) by (simp add: io_step_def)
    ultimately have "call_ok k X Y action s BZ_RUN_OK w bs (s'\<lparr>emode := BZ_M_RUNNING\<rparr>)"
      using g(3) c False a(1) by (simp add: call_ok_def)
    then show ?thesis using f by blast
  qed
qed

lemma finish_mode_ok:
  assumes h: "host_ok h" and I: "comp_inv k X Y s" and i: "src_ok (estrm s)" and m: "emode s = BZ_M_FINISHING"
  shows "\<exists>r w bs s'. finish_mode h action s = Some (Ret r s') \<and> call_ok k X Y action s r w bs s'"
proof (cases "action \<noteq> BZ_FINISH \<or> avail_in_expect s \<noteq> avail_in (estrm s)")
  case True
  then have "finish_mode h action s = Some (Ret BZ_SEQUENCE_ERROR s)" by (auto simp: finish_mode_def)
  then show ?thesis using call_refused [OF I, of BZ_SEQUENCE_ERROR action] by blast
next
  case False
  then have a: "action = BZ_FINISH" "avail_in_expect s = avail_in (estrm s)" by simp_all
  obtain w bs s' where H: "handle_compress h (False, s) = Some (Stop (w @ bs \<noteq> [], s'))" "goes k X Y w bs s s'" "stopped s'"
    using handle_compress_ok [OF h I i, of False] a(2) by auto
  have g: "comp_inv k (X @ w) (Y @ bs) s'" "emode s' = BZ_M_FINISHING" "avail_in_expect s' = avail_in (estrm s')" "io_step w bs s s'"
    using H(2) a(2) m by (simp_all add: goes_def)
  have c: "(avail_out (estrm s') = 0 \<and> more_to_do s') \<or>
    (\<not> more_to_do s' \<and> avail_in_expect s' = 0 \<and> est s' = BZ_S_OUTPUT \<and> is_end s' \<and> state_out_pos s' = numZ s')"
    using stopped_more [OF H(3) _ g(1)] g(2) by auto
  consider (none) "w @ bs = []" | (more) "w @ bs \<noteq> []" "more_to_do s'" | (all) "w @ bs \<noteq> []" "\<not> more_to_do s'" by blast
  then show ?thesis
  proof cases
    case none
    then have "finish_mode h action s = Some (Ret BZ_SEQUENCE_ERROR s')" using a by (simp add: finish_mode_def H(1))
    moreover have "call_ok k X Y action s BZ_SEQUENCE_ERROR w bs s'" using g none by (simp add: call_ok_def)
    ultimately show ?thesis by blast
  next
    case more
    then have "finish_mode h action s = Some (Ret BZ_FINISH_OK s')" using a by (simp add: finish_mode_def H(1))
    moreover have "call_ok k X Y action s BZ_FINISH_OK w bs s'" using g c a more by (simp add: call_ok_def)
    ultimately show ?thesis by blast
  next
    case all
    then have f: "finish_mode h action s = Some (Ret BZ_STREAM_END (s'\<lparr>emode := BZ_M_IDLE\<rparr>))" using a by (simp add: finish_mode_def H(1))
    have "whole_stream k (X @ w) (Y @ bs)" using whole_stream_end [OF g(1)] c all by blast
    moreover have "io_step w bs s (s'\<lparr>emode := BZ_M_IDLE\<rparr>)" using g(4) by (simp add: io_step_def)
    ultimately have "call_ok k X Y action s BZ_STREAM_END w bs (s'\<lparr>emode := BZ_M_IDLE\<rparr>)"
      using g(3) c all a(1) by (simp add: call_ok_def)
    then show ?thesis using f by blast
  qed
qed

text \<open>The end can be asked for: the compressor is running, or it was asked before, and there is something left to do.\<close>

definition can_finish :: "estate \<Rightarrow> bool" where
  "can_finish s \<longleftrightarrow> emode s = BZ_M_RUNNING \<or> emode s = BZ_M_FINISHING \<and> avail_in_expect s = avail_in (estrm s) \<and> more_to_do s"

lemma finish_from:
  assumes h: "host_ok h" and I: "comp_inv k X Y s" and i: "src_ok (estrm s)" and m: "emode s = BZ_M_FINISHING" "avail_in_expect s = avail_in (estrm s)"
    and more: "est s = BZ_S_OUTPUT \<longrightarrow> is_end s \<longrightarrow> state_out_pos s < numZ s"
  shows "\<exists>r w bs s'. finish_mode h BZ_FINISH s = Some (Ret r s') \<and> io_step w bs s s' \<and>
    (r = BZ_STREAM_END \<and> avail_in (estrm s') = 0 \<and> whole_stream k (X @ w) (Y @ bs) \<or>
     r = BZ_FINISH_OK \<and> avail_out (estrm s') = 0 \<and> w @ bs \<noteq> [] \<and> comp_inv k (X @ w) (Y @ bs) s' \<and> can_finish s' \<or>
     r = BZ_SEQUENCE_ERROR \<and> avail_out (estrm s) = 0 \<and> w @ bs = [])"
proof -
  obtain w bs s' where H: "handle_compress h (False, s) = Some (Stop (w @ bs \<noteq> [], s'))" "goes k X Y w bs s s'" "stopped s'"
    using handle_compress_ok [OF h I i, of False] m(2) by auto
  have g: "comp_inv k (X @ w) (Y @ bs) s'" "emode s' = BZ_M_FINISHING" "avail_in_expect s' = avail_in (estrm s')" "io_step w bs s s'"
      "end_pos s' \<le> end_pos s + length bs" "est s = BZ_S_OUTPUT \<and> is_end s \<longrightarrow> numZ s' = numZ s"
    using H(2) m by (simp_all add: goes_def)
  have c: "(avail_out (estrm s') = 0 \<and> more_to_do s') \<or>
    (\<not> more_to_do s' \<and> avail_in_expect s' = 0 \<and> est s' = BZ_S_OUTPUT \<and> is_end s' \<and> state_out_pos s' = numZ s')"
    using stopped_more [OF H(3) _ g(1)] g(2) by auto
  have f: "finish_mode h BZ_FINISH s = Some (if w @ bs = [] then Ret BZ_SEQUENCE_ERROR s' else if more_to_do s' then Ret BZ_FINISH_OK s'
      else Ret BZ_STREAM_END (s'\<lparr>emode := BZ_M_IDLE\<rparr>))"
    using m by (simp add: finish_mode_def H(1))
  consider (none) "w @ bs = []" | (more) "w @ bs \<noteq> []" "more_to_do s'" | (all) "w @ bs \<noteq> []" "\<not> more_to_do s'" by blast
  then show ?thesis
  proof cases
    case none
    have "more_to_do s'"
    proof (rule ccontr)
      assume n: "\<not> more_to_do s'"
      then have e: "est s' = BZ_S_OUTPUT" "is_end s'" "state_out_pos s' = numZ s'" using c by blast+
      then have "0 < numZ s'" using g(1) by (auto simp: comp_inv_def in_phase_def out_phase_def)
      then have p: "0 < end_pos s" "numZ s' \<le> end_pos s" using g(5) e none by (simp_all add: end_pos_def)
      then have o: "is_end s" "est s = BZ_S_OUTPUT" using I by (auto simp: end_pos_def comp_inv_def in_phase_def out_phase_def split: if_splits)
      then show False using more p(2) g(6) by (simp add: end_pos_def)
    qed
    then have "avail_out (estrm s) = 0" using c g(4) none by (auto simp: io_step_def)
    then show ?thesis using f none g(4) by (intro exI [of _ BZ_SEQUENCE_ERROR] exI [of _ w] exI [of _ bs] exI [of _ s']) auto
  next
    case more
    then show ?thesis using f g c by (intro exI [of _ BZ_FINISH_OK] exI [of _ w] exI [of _ bs] exI [of _ s']) (auto simp: can_finish_def)
  next
    case all
    have "io_step w bs s (s'\<lparr>emode := BZ_M_IDLE\<rparr>)" using g(4) by (simp add: io_step_def)
    moreover have "whole_stream k (X @ w) (Y @ bs)" using whole_stream_end [OF g(1)] c all by blast
    ultimately show ?thesis using f all c g(3)
      by (intro exI [of _ BZ_STREAM_END] exI [of _ w] exI [of _ bs] exI [of _ "s'\<lparr>emode := BZ_M_IDLE\<rparr>"]) auto
  qed
qed

lemma finish_call:
  assumes h: "host_ok h" and I: "comp_inv k X Y s" and i: "src_ok (estrm s)" and f: "can_finish s"
  shows "\<exists>r w bs s'. compress_switch h BZ_FINISH s = Some (Ret r s') \<and> io_step w bs s s' \<and>
    (r = BZ_STREAM_END \<and> avail_in (estrm s') = 0 \<and> whole_stream k (X @ w) (Y @ bs) \<or>
     r = BZ_FINISH_OK \<and> avail_out (estrm s') = 0 \<and> w @ bs \<noteq> [] \<and> comp_inv k (X @ w) (Y @ bs) s' \<and> can_finish s' \<or>
     r = BZ_SEQUENCE_ERROR \<and> avail_out (estrm s) = 0 \<and> w @ bs = [])"
proof (cases "emode s = BZ_M_RUNNING")
  case True
  let ?s = "s\<lparr>avail_in_expect := avail_in (estrm s), emode := BZ_M_FINISHING\<rparr>"
  have I': "comp_inv k X Y ?s" using comp_inv_switch [OF I True] by simp
  have "\<not> is_end ?s" if "est s = BZ_S_OUTPUT"
    using I that True by (auto simp: comp_inv_def in_phase_def out_phase_def is_end_def isempty_RL_def)
  then obtain r w bs s' where C: "finish_mode h BZ_FINISH ?s = Some (Ret r s')" "io_step w bs ?s s'"
    "r = BZ_STREAM_END \<and> avail_in (estrm s') = 0 \<and> whole_stream k (X @ w) (Y @ bs) \<or>
     r = BZ_FINISH_OK \<and> avail_out (estrm s') = 0 \<and> w @ bs \<noteq> [] \<and> comp_inv k (X @ w) (Y @ bs) s' \<and> can_finish s' \<or>
     r = BZ_SEQUENCE_ERROR \<and> avail_out (estrm ?s) = 0 \<and> w @ bs = []"
    using finish_from [OF h I'] i by auto
  have "compress_switch h BZ_FINISH s = Some (Ret r s')" using True C(1) by (simp add: compress_switch_def)
  moreover have "io_step w bs s s'" using C(2) by (simp add: io_step_def)
  ultimately show ?thesis using C(3) by (intro exI [of _ r] exI [of _ w] exI [of _ bs] exI [of _ s']) simp
next
  case False
  then have m: "emode s = BZ_M_FINISHING" "avail_in_expect s = avail_in (estrm s)" "more_to_do s" using f by (auto simp: can_finish_def)
  have "state_out_pos s < numZ s" if "est s = BZ_S_OUTPUT" "is_end s"
    using m(3) that I by (auto simp: more_to_do_def is_end_def comp_inv_def in_phase_def out_phase_def)
  then show ?thesis using finish_from [OF h I i m(1,2)] m(1) by (simp add: compress_switch_def)
qed

lemma call_ok_start:
  assumes "call_ok k X Y action s r w bs s'" "estrm s = estrm s0"
  shows "call_ok k X Y action s0 r w bs s'"
  using assms by (simp add: call_ok_def io_step_def)

lemma compress_switch_ok:
  assumes h: "host_ok h" and I: "comp_inv k X Y s" and i: "src_ok (estrm s)"
  shows "\<exists>r w bs s'. compress_switch h action s = Some (Ret r s') \<and> call_ok k X Y action s r w bs s'"
proof -
  let ?s = "\<lambda>e. s\<lparr>avail_in_expect := avail_in (estrm s), emode := e\<rparr>"
  consider (run) "emode s = BZ_M_RUNNING" | (flush) "emode s = BZ_M_FLUSHING" | (finish) "emode s = BZ_M_FINISHING"
    using I by (auto simp: comp_inv_def)
  then show ?thesis
  proof cases
    case run
    consider (r) "action = BZ_RUN" | (fl) "action = BZ_FLUSH" | (fi) "action = BZ_FINISH"
      | (bad) "action \<noteq> BZ_RUN" "action \<noteq> BZ_FLUSH" "action \<noteq> BZ_FINISH" by blast
    then show ?thesis
    proof cases
      case r
      then show ?thesis using run_mode_ok [OF h I i run] run by (simp add: compress_switch_def)
    next
      case fl
      obtain r w bs s' where "flush_mode h action (?s BZ_M_FLUSHING) = Some (Ret r s')" "call_ok k X Y action (?s BZ_M_FLUSHING) r w bs s'"
        using flush_mode_ok [OF h comp_inv_switch [OF I run], of BZ_M_FLUSHING] i by fastforce
      then show ?thesis using run fl call_ok_start [of k X Y action "?s BZ_M_FLUSHING" r w bs s' s] by (simp add: compress_switch_def) blast
    next
      case fi
      obtain r w bs s' where "finish_mode h action (?s BZ_M_FINISHING) = Some (Ret r s')" "call_ok k X Y action (?s BZ_M_FINISHING) r w bs s'"
        using finish_mode_ok [OF h comp_inv_switch [OF I run], of BZ_M_FINISHING] i by fastforce
      then show ?thesis using run fi call_ok_start [of k X Y action "?s BZ_M_FINISHING" r w bs s' s] by (simp add: compress_switch_def) blast
    next
      case bad
      then have "compress_switch h action s = Some (Ret BZ_PARAM_ERROR s)" using run by (simp add: compress_switch_def)
      then show ?thesis using call_refused [OF I, of BZ_PARAM_ERROR action] bad(2,3) by blast
    qed
  next
    case flush
    then show ?thesis using flush_mode_ok [OF h I i flush, of action] by (simp add: compress_switch_def)
  next
    case finish
    then show ?thesis using finish_mode_ok [OF h I i finish, of action] by (simp add: compress_switch_def)
  qed
qed

section \<open>The calls\<close>

lemma BZ2_bzCompress_call:
  assumes "host_ok m" "chandle_ok k X Y h" "src_ok (c_strm h)"
  shows "\<exists>r w bs s s' h'. BZ2_bzCompress m (Some h) action = Some (Ret r (Some h')) \<and> estrm s = c_strm h \<and>
    call_ok k X Y action s r w bs s' \<and> h' = h\<lparr>c_strm := estrm s', c_state := Some (c_addr h, s')\<rparr>"
proof -
  obtain s where s: "c_state h = Some (c_addr h, s)" "comp_inv k X Y s" using assms(2) by (auto simp: chandle_ok_def)
  let ?s = "s\<lparr>estrm := c_strm h\<rparr>"
  obtain r w bs s' where C: "compress_switch m action ?s = Some (Ret r s')" "call_ok k X Y action ?s r w bs s'"
    using compress_switch_ok [OF assms(1), of k X Y ?s action] s(2) assms(3) by auto
  have "BZ2_bzCompress m (Some h) action = Some (Ret r (Some (h\<lparr>c_strm := estrm s', c_state := Some (c_addr h, s')\<rparr>)))"
    by (simp add: BZ2_bzCompress_def s(1) C(1))
  moreover have "estrm ?s = c_strm h" by simp
  ultimately show ?thesis using C(2) by blast
qed

text \<open>The outcome of the \<open>i\<close>-th allocation to come.\<close>

definition alloc_ok :: "bz_stream \<Rightarrow> nat \<Rightarrow> bool" where
  "alloc_ok strm i \<longleftrightarrow> length (allocs strm) \<le> i \<or> allocs strm ! i"

definition same_buffers :: "bz_stream \<Rightarrow> bz_stream \<Rightarrow> bool" where
  "same_buffers strm strm' \<longleftrightarrow> in_buf strm' = in_buf strm \<and> next_in strm' = next_in strm \<and> avail_in strm' = avail_in strm \<and>
     out_buf strm' = out_buf strm \<and> avail_out strm' = avail_out strm"

lemma bz_alloc_ok: "\<exists>strm'. bz_alloc strm = (alloc_ok strm 0, strm') \<and> same_buffers strm strm' \<and> (\<forall>i. alloc_ok strm' i = alloc_ok strm (Suc i))"
  by (cases "allocs strm") (auto simp: bz_alloc_def alloc_ok_def same_buffers_def)

lemma fresh_estate:
  assumes k: "1 \<le> k" "k \<le> 9"
    and s: "s = prepare_new_block (init_RL (junk\<lparr>estrm := strm, blockNo := 0, est := BZ_S_INPUT, emode := BZ_M_RUNNING, combinedCRC := 0,
      eblockSize100k := k, nblockMAX := 100000 * k - 19, everbosity := verb, workFactor := fac\<rparr>))"
  shows "comp_inv k [] [] s"
proof -
  let ?j = "init_RL (junk\<lparr>estrm := strm, blockNo := 0, est := BZ_S_INPUT, emode := BZ_M_RUNNING, combinedCRC := 0,
      eblockSize100k := k, nblockMAX := 100000 * k - 19, everbosity := verb, workFactor := fac\<rparr>)"
  have "pending_ok ?j" "expand_runs (pending_run ?j) = []" by (simp_all add: pending_ok_def pending_run_def init_RL_def)
  from prepare_pending [OF this(1)] this(2) have r: "rle_at [] s" "taken [] s = []" by (simp_all only: s)
  have f: "est s = BZ_S_INPUT" "numZ s = 0" "state_out_pos s = 0" "blockNo s = 1" "nblock s = 0" "combinedCRC s = 0"
      "nblockMAX s = 100000 * k - 19" "eblockSize100k s = k" "emode s = BZ_M_RUNNING"
    by (simp_all add: s prepare_new_block_def init_RL_def)
  have "in_phase k [] [] s"
    unfolding in_phase_def using r f by (simp, intro exI [of _ "[]"] conjI) (auto simp: blocks_ok_def stream_crc_def)
  then show ?thesis using f k by (simp add: comp_inv_def)
qed

text \<open>The memory given back when an allocation fails: what the other allocations got.\<close>

definition given_back :: "bz_stream \<Rightarrow> cblock list" where
  "given_back strm = (if \<forall>i < 4. alloc_ok strm i then [] else if \<not> alloc_ok strm 0 then []
     else map snd (filter fst [(alloc_ok strm 1, Arr1), (alloc_ok strm 2, Arr2), (alloc_ok strm 3, Ftab), (alloc_ok strm 0, EStateBlock)]))"

lemma less_4: "(\<forall>i < 4. P i) \<longleftrightarrow> P 0 \<and> P 1 \<and> P 2 \<and> P (3 :: nat)"
proof -
  have "i < 4 \<longleftrightarrow> i = 0 \<or> i = 1 \<or> i = 2 \<or> i = 3" for i :: nat by linarith
  then show ?thesis by auto
qed

lemma BZ2_bzCompressInit_ok:
  assumes "1 \<le> size100k" "size100k \<le> 9" "0 \<le> wFactor" "wFactor \<le> 250"
  shows "\<exists>h'. BZ2_bzCompressInit junk (Some h) size100k verb wFactor =
      (if \<forall>i < 4. alloc_ok (c_strm h) i then BZ_OK else BZ_MEM_ERROR, given_back (c_strm h), Some h') \<and> c_addr h' = c_addr h \<and>
    same_buffers (c_strm h) (c_strm h') \<and>
    (if \<forall>i < 4. alloc_ok (c_strm h) i then chandle_ok (nat size100k) [] [] h' else c_state h' = c_state h)"
proof -
  have g: "bz_config_ok 4 2 1" "\<not> (size100k < 1 \<or> size100k > 9 \<or> wFactor < 0 \<or> wFactor > 250)" using assms by (auto simp: bz_config_ok_def)
  obtain s0 where 0: "bz_alloc (c_strm h) = (alloc_ok (c_strm h) 0, s0)" "same_buffers (c_strm h) s0" "\<And>i. alloc_ok s0 i = alloc_ok (c_strm h) (Suc i)"
    using bz_alloc_ok by blast
  obtain s1 where 1: "bz_alloc s0 = (alloc_ok (c_strm h) 1, s1)" "same_buffers s0 s1" "\<And>i. alloc_ok s1 i = alloc_ok (c_strm h) (Suc (Suc i))"
    using bz_alloc_ok [of s0] unfolding 0(3) One_nat_def by blast
  obtain s2 where 2: "bz_alloc s1 = (alloc_ok (c_strm h) 2, s2)" "same_buffers s1 s2" "\<And>i. alloc_ok s2 i = alloc_ok (c_strm h) (Suc (Suc (Suc i)))"
    using bz_alloc_ok [of s1] unfolding 1(3) numeral_2_eq_2 by blast
  obtain s3 where 3: "bz_alloc s2 = (alloc_ok (c_strm h) 3, s3)" "same_buffers s2 s3"
    using bz_alloc_ok [of s2] unfolding 2(3) numeral_3_eq_3 by blast
  have b: "same_buffers (c_strm h) s3" "same_buffers (c_strm h) (reset_totals s3)"
    using 0(2) 1(2) 2(2) 3(2) by (simp_all add: same_buffers_def reset_totals_def)
  consider (no0) "\<not> alloc_ok (c_strm h) 0" | (no) "alloc_ok (c_strm h) 0" "\<not> (\<forall>i < 4. alloc_ok (c_strm h) i)" | (all) "\<forall>i < 4. alloc_ok (c_strm h) i" by blast
  then show ?thesis
  proof cases
    case no0
    then have "BZ2_bzCompressInit junk (Some h) size100k verb wFactor = (BZ_MEM_ERROR, [], Some (h\<lparr>c_strm := s0\<rparr>))"
      using g by (simp add: BZ2_bzCompressInit_def 0(1))
    then show ?thesis using no0 0(2) by (auto simp: given_back_def less_4)
  next
    case no
    then have "BZ2_bzCompressInit junk (Some h) size100k verb wFactor = (BZ_MEM_ERROR, given_back (c_strm h), Some (h\<lparr>c_strm := s3\<rparr>))"
      using g unfolding less_4 by (auto simp: BZ2_bzCompressInit_def 0(1) 1(1) 2(1) 3(1) given_back_def less_4)
    then show ?thesis using no b(1) by auto
  next
    case all
    define s where "s = prepare_new_block (init_RL (junk\<lparr>estrm := reset_totals s3, blockNo := 0, est := BZ_S_INPUT, emode := BZ_M_RUNNING, combinedCRC := 0,
      eblockSize100k := nat size100k, nblockMAX := 100000 * nat size100k - 19, everbosity := verb, workFactor := (if wFactor = 0 then 30 else wFactor)\<rparr>))"
    have "BZ2_bzCompressInit junk (Some h) size100k verb wFactor = (BZ_OK, [], Some (h\<lparr>c_strm := reset_totals s3, c_state := Some (c_addr h, s)\<rparr>))"
      using g all unfolding less_4 by (simp add: BZ2_bzCompressInit_def Let_def 0(1) 1(1) 2(1) 3(1) s_def)
    moreover have "comp_inv (nat size100k) [] [] s" by (rule fresh_estate [OF _ _ s_def]) (use assms in auto)
    then have "chandle_ok (nat size100k) [] [] (h\<lparr>c_strm := reset_totals s3, c_state := Some (c_addr h, s)\<rparr>)" by (simp add: chandle_ok_def)
    ultimately show ?thesis using all b(2) by (auto simp: given_back_def)
  qed
qed

lemma Init_OK_args: "BZ2_bzCompressInit junk (Some h) size100k verb fac = (BZ_OK, fr, h') \<Longrightarrow> 1 \<le> size100k \<and> size100k \<le> 9 \<and> 0 \<le> fac \<and> fac \<le> 250"
  by (auto simp: BZ2_bzCompressInit_def split: if_splits)

lemma Init_OK:
  assumes "BZ2_bzCompressInit junk (Some h) (int k) verb fac = (BZ_OK, fr, Some h')"
  shows "chandle_ok k [] [] h' \<and> same_buffers (c_strm h) (c_strm h') \<and> c_addr h' = c_addr h"
proof -
  note a = Init_OK_args [OF assms]
  then show ?thesis using BZ2_bzCompressInit_ok [of "int k" fac junk h verb] assms by (auto split: if_splits)
qed

lemma Init_running:
  assumes "BZ2_bzCompressInit junk (Some h) (int k) verb fac = (BZ_OK, fr, Some h')"
  shows "\<exists>s. c_state h' = Some (c_addr h', s) \<and> comp_inv k [] [] s \<and> emode s = BZ_M_RUNNING"
proof -
  obtain s where s: "c_state h' = Some (c_addr h', s)" "comp_inv k [] [] s" using Init_OK [OF assms] by (auto simp: chandle_ok_def)
  have "emode s = BZ_M_RUNNING" using assms s(1)
    by (auto simp: BZ2_bzCompressInit_def Let_def prepare_new_block_def init_RL_def split: if_splits prod.splits)
  then show ?thesis using s by blast
qed

end
