(* ===== verification/BwtRoundtrip.thy ===== *)
theory BwtRoundtrip
  imports CompressBlock DecompressProps
begin

text \<open>
  The two transforms undo each other: walking the last column of the sorted rotations, as the decompressor does, gives the block back. Rotations
  that are equal may stand in any order.
\<close>

section \<open>The last column\<close>

definition prev_rot :: "nat \<Rightarrow> nat \<Rightarrow> nat" where
  "prev_rot n x = (x + n - 1) mod n"

definition last_col :: "(nat \<Rightarrow> u8) \<Rightarrow> nat \<Rightarrow> (nat \<Rightarrow> nat) \<Rightarrow> nat \<Rightarrow> nat" where
  "last_col b n f i = unat (b (prev_rot n (f i)))"

lemma prev_rot_step: "0 < n \<Longrightarrow> (prev_rot n x + Suc j) mod n = (x + j) mod n"
proof -
  assume "0 < n"
  then have "x + n - 1 + Suc j = (x + j) + n" by simp
  then show ?thesis unfolding prev_rot_def by (metis mod_add_left_eq mod_add_self2)
qed

lemma prev_rot_bij: "0 < n \<Longrightarrow> bij_betw (prev_rot n) {..<n} {..<n}"
proof -
  assume n: "0 < n"
  have "inj_on (prev_rot n) {..<n}"
  proof (rule inj_onI)
    fix x y assume "x \<in> {..<n}" "y \<in> {..<n}" "prev_rot n x = prev_rot n y"
    then show "x = y" using prev_rot_step [OF n, of x 0] prev_rot_step [OF n, of y 0] by simp
  qed
  moreover have "prev_rot n ` {..<n} \<subseteq> {..<n}" using n by (auto simp: prev_rot_def)
  ultimately show ?thesis by (simp add: bij_betw_def endo_inj_surj)
qed

lemma cpos_sorts:
  assumes "i < n" "j < n" "cpos L n i < cpos L n j"
  shows "L i < L j \<or> L i = L j \<and> i < j"
proof (rule ccontr)
  assume c: "\<not> ?thesis"
  then have "L j < L i \<or> L i = L j \<and> j \<le> i" by auto
  then show False
  proof
    assume "L j < L i"
    then show False using cnt_less [OF assms(2), of L] below_step [of "L j" "L i" L n] assms(3) by (simp add: cpos_def)
  next
    assume "L i = L j \<and> j \<le> i"
    then show False using cnt_mono [of j i L "L j"] assms(3) by (simp add: cpos_def)
  qed
qed

text \<open>The rotation before the one in row \<open>i\<close> starts with the byte in the last column; then come the bytes of row \<open>i\<close>.\<close>

lemma prev_rot_less:
  assumes f: "rot_sorted b n f" and ij: "i < n" "j < n" and c: "cpos (last_col b n f) n i < cpos (last_col b n f) n j"
  shows "rval b n n (prev_rot n (f i)) \<le> rval b n n (prev_rot n (f j))"
proof (rule ccontr)
  let ?p = "prev_rot n"
  have n: "0 < n" using ij by simp
  have at: "(?p x + 0) mod n = ?p x" for x using n by (simp add: prev_rot_def)
  have L: "last_col b n f i < last_col b n f j \<or> last_col b n f i = last_col b n f j \<and> i < j" by (rule cpos_sorts [OF ij c])
  assume "\<not> ?thesis"
  then have "rval b n n (?p (f j)) < rval b n n (?p (f i))" by simp
  then obtain k where k: "k < n" "\<And>u. u < k \<Longrightarrow> b ((?p (f j) + u) mod n) = b ((?p (f i) + u) mod n)"
      "b ((?p (f j) + k) mod n) < b ((?p (f i) + k) mod n)" unfolding rval_less_rot by blast
  show False
  proof (cases k)
    case 0
    then have "last_col b n f j < last_col b n f i" using k(3) unfolding 0 at by (simp add: last_col_def word_less_nat_alt)
    then show False using L by simp
  next
    case (Suc m)
    have "last_col b n f j = last_col b n f i" using k(2) [of 0] Suc unfolding at by (simp add: last_col_def)
    then have less: "i < j" using L by simp
    have "rot_less b n (f j) (f i)"
      unfolding rot_less_def
    proof (intro exI [of _ m] conjI allI impI)
      show "m < n" using k(1) Suc by simp
      show "b ((f j + u) mod n) = b ((f i + u) mod n)" if "u < m" for u
        using k(2) [of "Suc u"] that Suc prev_rot_step [OF n] by simp
      show "b ((f j + m) mod n) < b ((f i + m) mod n)" using k(3) unfolding Suc prev_rot_step [OF n] .
    qed
    then show False using f less ij(2) by (simp add: rot_sorted_def)
  qed
qed

text \<open>Two ascending enumerations of the same rotations give the same strings.\<close>

lemma sorted_same:
  fixes K :: "nat \<Rightarrow> nat"
  assumes f: "bij_betw f {..<n} {..<n}" and g: "bij_betw g {..<n} {..<n}"
    and s: "\<And>i j. i < j \<Longrightarrow> j < n \<Longrightarrow> K (f i) \<le> K (f j)" "\<And>i j. i < j \<Longrightarrow> j < n \<Longrightarrow> K (g i) \<le> K (g j)" and i: "i < n"
  shows "K (f i) = K (g i)"
proof -
  have m: "image_mset h (mset [0..<n]) = mset [0..<n]" if "bij_betw h {..<n} {..<n}" for h
  proof -
    have "image_mset h (mset_set {..<n}) = mset_set {..<n}" using that image_mset_mset_set [of h "{..<n}"] by (simp add: bij_betw_def)
    then show ?thesis by (simp add: lessThan_atLeast0)
  qed
  have "mset (map (\<lambda>i. K (f i)) [0..<n]) = image_mset K (image_mset f (mset [0..<n]))" by (simp add: image_mset.compositionality comp_def)
  also have "\<dots> = image_mset K (image_mset g (mset [0..<n]))" by (simp only: m [OF f] m [OF g])
  also have "\<dots> = mset (map (\<lambda>i. K (g i)) [0..<n])" by (simp add: image_mset.compositionality comp_def)
  finally have e: "mset (map (\<lambda>i. K (f i)) [0..<n]) = mset (map (\<lambda>i. K (g i)) [0..<n])" .
  have "sorted (map (\<lambda>i. K (f i)) [0..<n])" "sorted (map (\<lambda>i. K (g i)) [0..<n])"
    using s by (auto simp: sorted_wrt_iff_nth_less)
  then have "map (\<lambda>i. K (f i)) [0..<n] = map (\<lambda>i. K (g i)) [0..<n]" using e properties_for_sort by metis
  then show ?thesis using i by simp
qed

section \<open>The walk\<close>

lemma walk_rotation:
  assumes f: "rot_sorted b n f" and j: "j < n"
  shows "rval b n n (f j) = rval b n n (prev_rot n (f (lf_inv (last_col b n f) n j)))"
proof -
  let ?L = "last_col b n f"
  let ?g = "\<lambda>j. prev_rot n (f (lf_inv ?L n j))"
  have n: "0 < n" using j by simp
  have fb: "bij_betw f {..<n} {..<n}" using f by (simp add: rot_sorted_def)
  have "bij_betw (lf_inv ?L n) {..<n} {..<n}"
    by (rule bij_betw_byWitness [where f' = "cpos ?L n"]) (auto simp: lf_inv_less cpos_less lf_inv_cpos cpos_lf_inv)
  from bij_betw_trans [OF bij_betw_trans [OF this fb] prev_rot_bij [OF n]]
  have g: "bij_betw ?g {..<n} {..<n}" by (simp add: comp_def)
  show ?thesis
  proof (rule sorted_same [OF fb g _ _ j])
    show "rval b n n (f i) \<le> rval b n n (f j)" if "i < j" "j < n" for i j
      using f that unfolding rot_sorted_def rot_less_def rval_less_rot [symmetric] by (simp add: not_less)
    show "rval b n n (?g i) \<le> rval b n n (?g j)" if "i < j" "j < n" for i j
      using that by (intro prev_rot_less [OF f]) (simp_all add: lf_inv_less cpos_lf_inv)
  qed
qed

lemma rot_shift: "0 < n \<Longrightarrow> rval b n n x = rval b n n y \<longleftrightarrow> (\<forall>j. b ((x + j) mod n) = b ((y + j) mod n))"
proof -
  assume n: "0 < n"
  have "b ((x + j) mod n) = b ((x + j mod n) mod n)" for x j by (metis mod_add_right_eq)
  then show ?thesis unfolding rval_eq using n by (metis mod_less_divisor)
qed

lemma walk_last_col:
  assumes f: "rot_sorted b n f" and o: "o0 < n" "f o0 = 0"
  shows "rval b n n (f (walk (last_col b n f) n o0 u)) = rval b n n u"
proof (induction u)
  case 0
  then show ?case using o by (simp add: walk_def)
next
  case (Suc u)
  let ?w = "walk (last_col b n f) n o0"
  have n: "0 < n" using o by simp
  have "rval b n n u = rval b n n (prev_rot n (f (?w (Suc u))))"
    using walk_rotation [OF f walk_less [OF o(1)]] Suc by (simp add: walk_Suc)
  then have "b ((u + Suc j) mod n) = b ((f (?w (Suc u)) + j) mod n)" for j
    using rot_shift [OF n] prev_rot_step [OF n] by metis
  then show ?case unfolding rot_shift [OF n] by simp
qed

lemma walk_gives_block:
  assumes f: "rot_sorted b n f" and o: "o0 < n" "f o0 = 0" and u: "u < n"
  shows "last_col b n f (walk (last_col b n f) n o0 (u + 1)) = unat (b u)"
proof -
  let ?x = "f (walk (last_col b n f) n o0 (u + 1))"
  have n: "0 < n" using u by simp
  have "b ((?x + (n - 1)) mod n) = b ((u + 1 + (n - 1)) mod n)"
    using walk_last_col [OF f o, of "u + 1"] unfolding rot_shift [OF n] by blast
  moreover have "?x + (n - 1) = ?x + n - 1" "u + 1 + (n - 1) = u + n" using n by simp_all
  ultimately show ?thesis using u by (simp add: last_col_def prev_rot_def)
qed

section \<open>Of the two states\<close>

lemma bwt_byte_last_col:
  assumes S: "block_sorted s s'" and i: "i < nblock s"
  shows "unat (bwt_byte s' i) = last_col (block s) (nblock s) (ptr s') i"
proof -
  have n: "nblock s' = nblock s" by (rule block_sorted_fields(1) [OF S])
  have p: "ptr s' i < nblock s" using S i by (auto simp: block_sorted_def rot_sorted_def dest: bij_betw_apply)
  let ?x = "nat (if int (ptr s' i) - 1 < 0 then int (ptr s' i) - 1 + int (nblock s') else int (ptr s' i) - 1)"
  have "?x = prev_rot (nblock s) (ptr s' i)"
  proof (cases "ptr s' i")
    case 0
    then show ?thesis using p n by (simp add: prev_rot_def)
  next
    case (Suc m)
    then have "ptr s' i + nblock s - 1 = m + nblock s" by simp
    then show ?thesis using p n Suc by (simp add: prev_rot_def)
  qed
  moreover from this have "?x < nblock s" using p by (simp add: prev_rot_def)
  ultimately show ?thesis using S by (simp add: bwt_byte_def Let_def block_sorted_def last_col_def)
qed

lemma bwt_undone:
  assumes S: "block_sorted s s'"
    and d: "save_nblock (dsv d) = nblock s" "origPtr d = eorigPtr s'" "\<not> blockRandomised d"
    and L: "\<And>i. i < nblock s \<Longrightarrow> L i = unat (bwt_byte s' i)"
  shows "block_bytes L d = block_list s"
proof -
  let ?n = "nblock s" and ?o = "nat (eorigPtr s')" let ?L = "last_col (block s) ?n (ptr s')"
  have f: "rot_sorted (block s) ?n (ptr s')" and o: "?o < ?n" "ptr s' ?o = 0" using S by (auto simp: block_sorted_def)
  have e: "L i = ?L i" if "i < ?n" for i using L bwt_byte_last_col [OF S] that by simp
  have "lf_inv L ?n j = lf_inv ?L ?n j" if "j < ?n" for j using lf_inv_cong [of ?n L ?L j] e that by simp
  then have w: "walk L ?n ?o u = walk ?L ?n ?o u" for u
    using walk_less [OF o(1)] by (induction u) (simp_all add: walk_def [of _ _ _ 0] walk_Suc)
  have "block_byte L d u = block s u" if "u < ?n" for u
    using walk_gives_block [OF f o that] e [OF walk_less [OF o(1)]] d by (simp add: block_byte_def walk_byte_def w)
  then show ?thesis by (simp add: block_bytes_def block_list_def d(1))
qed

end
