(* ===== verification/CompressProps.thy ===== *)
theory CompressProps
  imports CompressCall BwtRoundtrip "HOL-Library.List_Lexorder"
begin

text \<open>
  The properties of the compressor, with the sessions of calls they are about and the states at which they are tried.
\<close>

section \<open>Surroundings and states to try\<close>

text \<open>A suffix array by sorting, in the place of \<open>libsais\<close>.\<close>

definition sort_suffixes :: "u8 list \<Rightarrow> nat list" where
  "sort_suffixes xs = sort_key (\<lambda>i. drop i xs) [0..<length xs]"

lemma sort_suffixes_ok: "suffix_array xs (sort_suffixes xs)"
proof -
  let ?S = "sort_suffixes xs"
  have m: "mset ?S = mset [0..<length xs]" by (simp add: sort_suffixes_def)
  have d: "distinct ?S" using mset_eq_imp_distinct_iff [OF m] distinct_upt by blast
  have s: "set ?S = {..<length xs}" using mset_eq_setD [OF m] by (simp only: set_upt atLeast0LessThan)
  have le: "sorted (map (\<lambda>i. drop i xs) ?S)" by (simp add: sort_suffixes_def)
  have "sorted_wrt (\<lambda>i j. (drop i xs, drop j xs) \<in> lexord {(a, b). a < b}) ?S"
    unfolding sorted_wrt_iff_nth_less
  proof (intro allI impI)
    fix i j assume ij: "i < j" "j < length ?S"
    have "?S ! i \<noteq> ?S ! j" using d ij nth_eq_iff_index_eq [of ?S i j] by simp
    moreover have "?S ! i < length xs" "?S ! j < length xs" using s ij nth_mem [of i ?S] nth_mem [of j ?S] by auto
    ultimately have "length (drop (?S ! i) xs) \<noteq> length (drop (?S ! j) xs)" by simp
    then have "drop (?S ! i) xs \<noteq> drop (?S ! j) xs" by metis
    moreover have "drop (?S ! i) xs \<le> drop (?S ! j) xs" using le ij by (simp add: sorted_wrt_iff_nth_less)
    ultimately show "(drop (?S ! i) xs, drop (?S ! j) xs) \<in> lexord {(a, b). a < b}" by (simp add: list_le_def list_less_def)
  qed
  then show ?thesis using m by (simp only: suffix_array_def simp_thms)
qed

definition plain_host :: host where
  "plain_host = \<lparr>esse2 = False, epclmul = False, stack_buf = 0, libsais = (\<lambda>xs. Some (sort_suffixes xs)), malloc_ok = (\<lambda>_. True)\<rparr>"

lemma plain_host_ok: "host_ok plain_host"
  using sort_suffixes_ok by (simp add: host_ok_def sais_ok_def plain_host_def)

definition estate_zero :: estate where
  "estate_zero = \<lparr>estrm = strm_zero, emode = 0, est = 0, avail_in_expect = 0, arr1 = (\<lambda>_. 0), eftab = (\<lambda>_. 0), eorigPtr = 0,
     block = (\<lambda>_. 0), zbits = (\<lambda>_. 0), workFactor = 0, state_in_ch = 0, state_in_len = 0, nblock = 0, nblockMAX = 0, numZ = 0,
     state_out_pos = 0, enInUse = 0, einUse = (\<lambda>_. False), unseqToSeq = (\<lambda>_. 0), ebsBuff = 0, ebsLive = 0, blockCRC = 0,
     combinedCRC = 0, everbosity = 0, blockNo = 0, eblockSize100k = 0, nMTF = 0, mtfFreq = (\<lambda>_. 0), eselector = (\<lambda>_. 0),
     eselectorMtf = (\<lambda>_. 0), elen = (\<lambda>_ _. 0), ecode = (\<lambda>_ _. 0)\<rparr>"

definition new_handle :: chandle where
  "new_handle = \<lparr>c_addr = 7, c_strm = strm_zero\<lparr>avail_out := 100\<rparr>, c_state = None\<rparr>"

definition begun :: chandle where
  "begun = the (snd (snd (BZ2_bzCompressInit estate_zero (Some new_handle) 1 0 0)))"

lemma begun_eq: "BZ2_bzCompressInit estate_zero (Some new_handle) 1 0 0 = (BZ_OK, [], Some begun)" "chandle_ok 1 [] [] begun" "src_ok (c_strm begun)"
proof -
  have a: "alloc_ok (c_strm new_handle) i" for i by (simp add: new_handle_def strm_zero_def alloc_ok_def)
  obtain h' where h: "BZ2_bzCompressInit estate_zero (Some new_handle) 1 0 0 = (BZ_OK, [], Some h')" "same_buffers (c_strm new_handle) (c_strm h')"
      "chandle_ok 1 [] [] h'"
    using BZ2_bzCompressInit_ok [of 1 0 estate_zero new_handle 0] a by (auto simp: given_back_def)
  then have b: "begun = h'" by (simp add: begun_def)
  then show "BZ2_bzCompressInit estate_zero (Some new_handle) 1 0 0 = (BZ_OK, [], Some begun)" "chandle_ok 1 [] [] begun" using h by simp_all
  show "src_ok (c_strm begun)" using h(2) b by (simp add: same_buffers_def src_ok_def in_ok_def new_handle_def strm_zero_def)
qed

section \<open>Sessions\<close>

text \<open>
  What a client may do: make a handle, give it other buffers, and call \<open>BZ2_bzCompress\<close> with any action. \<open>X\<close> and \<open>Y\<close> are
  the bytes taken in and given out.
\<close>

inductive session :: "host \<Rightarrow> nat \<Rightarrow> u8 list \<Rightarrow> u8 list \<Rightarrow> chandle \<Rightarrow> bool" for m k where
  start: "BZ2_bzCompressInit junk (Some h) (int k) verb fac = (BZ_OK, [], Some h') \<Longrightarrow> src_ok (c_strm h) \<Longrightarrow> session m k [] [] h'"
| refill: "session m k X Y h \<Longrightarrow> src_ok strm \<Longrightarrow> session m k X Y (h\<lparr>c_strm := strm\<rparr>)"
| call: "session m k X Y h \<Longrightarrow> BZ2_bzCompress m (Some h) action = Some (Ret r (Some h')) \<Longrightarrow> r \<noteq> BZ_STREAM_END \<Longrightarrow>
    in_bytes (c_strm h) = w @ in_bytes (c_strm h') \<Longrightarrow> out_buf (c_strm h') = out_buf (c_strm h) @ bs \<Longrightarrow>
    session m k (X @ w) (Y @ bs) h'"

inductive_cases session_callE: "session m k X Y h"

lemma chandle_ok_refill: "chandle_ok k X Y h \<Longrightarrow> chandle_ok k X Y (h\<lparr>c_strm := strm\<rparr>)"
  by (simp add: chandle_ok_def)

text \<open>What one call takes in and gives out is determined by the handles.\<close>

lemma call_pieces:
  assumes h: "host_ok m" and I: "chandle_ok k X Y h" and i: "src_ok (c_strm h)"
    and c: "BZ2_bzCompress m (Some h) action = Some (Ret r (Some h'))"
    and w: "in_bytes (c_strm h) = w @ in_bytes (c_strm h')" "out_buf (c_strm h') = out_buf (c_strm h) @ bs"
  shows "src_ok (c_strm h') \<and> (if r = BZ_STREAM_END then avail_in (c_strm h') = 0 \<and> whole_stream k (X @ w) (Y @ bs) else chandle_ok k (X @ w) (Y @ bs) h')"
proof -
  obtain r' w' bs' s s' h'' where C: "BZ2_bzCompress m (Some h) action = Some (Ret r' (Some h''))" "estrm s = c_strm h"
    "call_ok k X Y action s r' w' bs' s'" "h'' = h\<lparr>c_strm := estrm s', c_state := Some (c_addr h, s')\<rparr>"
    using BZ2_bzCompress_call [OF h I i, of action] by blast
  have e: "r' = r" "h'' = h'" using C(1) c by simp_all
  have io: "io_step w' bs' s s'" using C(3) by (simp add: call_ok_def)
  then have "in_bytes (c_strm h) = w' @ in_bytes (c_strm h')" "out_buf (c_strm h') = out_buf (c_strm h) @ bs'" "src_ok (c_strm h')"
    using C(2,4) e i by (auto simp: io_step_def)
  then have "w' = w" "bs' = bs" "src_ok (c_strm h')" using w by auto
  then show ?thesis using C(3,4) e by (auto simp: call_ok_def chandle_ok_def)
qed

lemma session_good: "session m k X Y h \<Longrightarrow> host_ok m \<Longrightarrow> chandle_ok k X Y h \<and> src_ok (c_strm h)"
proof (induction rule: session.induct)
  case (start junk h verb fac h')
  then show ?case using Init_OK [OF start(1)] by (auto simp: same_buffers_def src_ok_def in_ok_def)
next
  case (refill X Y h strm)
  then show ?case using chandle_ok_refill by simp
next
  case (call X Y h action r h' w bs)
  then show ?case using call_pieces [of m k X Y h action r h' w bs] by simp
qed

section \<open>The empty stream\<close>

lemma rld_not_Nil: "rld (x # xs) \<noteq> Some []"
  by (cases xs) (auto split: list.splits if_splits)

lemma blocks_of_nothing: "blocks_ok k bl \<Longrightarrow> block_data bl = [] \<Longrightarrow> bl = []"
proof (cases bl)
  case (Cons b bl')
  assume "blocks_ok k bl" "block_data bl = []"
  then have "block_image k [] (snd b)" using Cons by (cases b) (auto simp: blocks_ok_def)
  then obtain s where "0 < nblock s" "rld (block_list s) = Some []" unfolding block_image_def by blast
  then show ?thesis using rld_not_Nil by (cases "block_list s") (auto simp: block_list_def)
qed simp

definition empty_stream :: "nat \<Rightarrow> u8 list" where
  "empty_stream k = [0x42, 0x5a, 0x68, 0x30 + word_of_nat k, 0x17, 0x72, 0x45, 0x38, 0x50, 0x90, 0, 0, 0, 0]"

lemma bytes_bits_inj: "bytes_bits xs = bytes_bits ys \<Longrightarrow> xs = ys"
proof (induction xs arbitrary: ys)
  case Nil
  have "length (bytes_bits ys) = length (bytes_bits [])" by (simp only: Nil [symmetric])
  then show ?case by simp
next
  case (Cons x xs)
  have "length (bytes_bits ys) = length (bytes_bits (x # xs))" using Cons.prems by simp
  then obtain y ys' where y: "ys = y # ys'" by (cases ys) auto
  have "to_bits 8 x @ bytes_bits xs = to_bits 8 y @ bytes_bits ys'" using Cons.prems unfolding y by simp
  then have e: "to_bits 8 x = to_bits 8 y" "bytes_bits xs = bytes_bits ys'" by simp_all
  have "unat (take_bit 8 x) = unat (take_bit 8 y)" using e(1) of_bits_word by metis
  moreover have "take_bit 8 z = z" for z :: u8 by (rule bit_word_eqI) (simp add: bit_simps)
  ultimately show ?case using Cons.IH [OF e(2)] y by (simp add: word_unat_eq_iff)
qed

lemma no_blocks_bits: "stream_bits k [] @ end_bits [] = bytes_bits (empty_stream k)"
proof -
  have "to_bits 32 (0 :: u32) = bytes_bits [0, 0, 0, 0]" by (simp add: to_bits_def upt_rec)
  then show ?thesis by (simp add: stream_bits_def end_bits_def stream_crc_def empty_stream_def)
qed

lemma whole_stream_of_nothing: "whole_stream k [] Y \<Longrightarrow> Y = empty_stream k"
proof -
  assume "whole_stream k [] Y"
  then obtain bl pad where b: "blocks_ok k bl" "block_data bl = []" "pad < 8" "bytes_bits Y = stream_bits k bl @ end_bits bl @ replicate pad False"
    unfolding whole_stream_def by auto
  have "bl = []" by (rule blocks_of_nothing [OF b(1,2)])
  then have e: "bytes_bits Y = bytes_bits (empty_stream k) @ replicate pad False" using b(4) no_blocks_bits [of k] by simp
  then have "8 * length Y = 8 * length (empty_stream k) + pad" by (metis length_append length_bytes_bits length_replicate)
  then have "pad = 0" using b(3) by presburger
  then show ?thesis using e bytes_bits_inj by simp
qed

text \<open>While nothing has been taken in, no more than these bytes are there to be given out.\<close>

lemma nothing_out:
  assumes "comp_inv k [] Y s" "est s = BZ_S_OUTPUT"
  shows "length Y + (numZ s - state_out_pos s) \<le> 14"
proof -
  have O: "out_phase k [] Y s" using assms by (auto simp: comp_inv_def in_phase_def)
  then obtain bl Y0 where b: "blocks_ok k bl" "block_data bl = []" "Y = Y0 @ take (state_out_pos s) (zbytes s)" "state_out_pos s \<le> numZ s"
      "if is_end s then \<exists>pad < 8. bytes_bits Y0 @ bytes_bits (zbytes s) = stream_bits k bl @ end_bits bl @ replicate pad False
        else bytes_bits Y0 @ out_bits s = stream_bits k bl"
    unfolding out_phase_def by (auto split: if_splits)
  have bl: "bl = []" by (rule blocks_of_nothing [OF b(1,2)])
  have "8 * (length Y0 + length (zbytes s)) \<le> 8 * 14 + 7"
  proof (cases "is_end s")
    case True
    then obtain pad where p: "pad < 8" "bytes_bits Y0 @ bytes_bits (zbytes s) = bytes_bits (empty_stream k) @ replicate pad False"
      using b(5) bl no_blocks_bits [of k] by auto
    then have "8 * length Y0 + 8 * length (zbytes s) = 8 * length (empty_stream k) + pad" by (metis length_append length_bytes_bits length_replicate)
    then show ?thesis using p(1) by (simp add: empty_stream_def)
  next
    case False
    then have "bytes_bits Y0 @ out_bits s = bytes_bits [0x42, 0x5a, 0x68, 0x30 + word_of_nat k]" using b(5) bl by (simp add: stream_bits_def)
    from arg_cong [OF this, of length] have "8 * length Y0 + length (out_bits s) = 32" by simp
    then show ?thesis by (simp add: out_bits_def)
  qed
  then show ?thesis using b(3,4) by (simp add: zbytes_def)
qed

text \<open>Nothing taken in and the end announced: with 14 bytes of room the stream ends at once.\<close>

lemma finish_nothing:
  assumes h: "host_ok m" and I: "comp_inv k [] [] s" and m: "emode s = BZ_M_RUNNING"
    and a: "src_ok (estrm s)" "avail_in (estrm s) = 0" "14 \<le> avail_out (estrm s)"
  shows "\<exists>s'. compress_switch m BZ_FINISH s = Some (Ret BZ_STREAM_END s') \<and> out_buf (estrm s') = out_buf (estrm s) @ empty_stream k \<and>
    avail_in (estrm s') = 0"
proof -
  let ?s = "s\<lparr>avail_in_expect := avail_in (estrm s), emode := BZ_M_FINISHING\<rparr>"
  have I': "comp_inv k [] [] ?s" using comp_inv_switch [OF I m] by simp
  obtain w bs s' where H: "handle_compress m (False, ?s) = Some (Stop (w @ bs \<noteq> [], s'))" "goes k [] [] w bs ?s s'" "stopped s'"
    using handle_compress_ok [OF h I', of False] a(1) by auto
  have g: "comp_inv k w bs s'" "emode s' = BZ_M_FINISHING" "io_step w bs ?s s'" using H(2) by (simp_all add: goes_def)
  have w: "w = []" using io_step_avail [OF g(3)] a(2) by simp
  have av: "avail_out (estrm s) = avail_out (estrm s') + length bs" "out_buf (estrm s') = out_buf (estrm s) @ bs" "avail_in (estrm s') = 0"
    using g(3) io_step_avail [OF g(3)] a(2) by (simp_all add: io_step_def)
  have ni: "\<not> (est s' = BZ_S_OUTPUT \<and> state_out_pos s' < numZ s' \<and> avail_out (estrm s') = 0)"
    using nothing_out [of k bs s'] g(1) a(3) av(1) unfolding w by auto
  have f: "\<not> more_to_do s'" "est s' = BZ_S_OUTPUT" "is_end s'" "state_out_pos s' = numZ s'"
    using H(3) g(2) ni by (auto simp: stopped_def more_to_do_def is_end_def)
  have "whole_stream k [] bs" using whole_stream_end [OF g(1) f(2-4)] w by simp
  then have b: "bs = empty_stream k" by (rule whole_stream_of_nothing)
  then have "w @ bs \<noteq> []" by (simp add: empty_stream_def)
  then have "compress_switch m BZ_FINISH s = Some (Ret BZ_STREAM_END (s'\<lparr>emode := BZ_M_IDLE\<rparr>))"
    using m f(1) by (simp add: compress_switch_def finish_mode_def H(1))
  then show ?thesis using av(2,3) b by simp
qed

lemma finish_new:
  assumes "host_ok m" "BZ2_bzCompressInit junk (Some h) (int k) verb fac = (BZ_OK, fr, Some h')"
    and "src_ok strm" "avail_in strm = 0" "14 \<le> avail_out strm"
  shows "\<exists>h''. BZ2_bzCompress m (Some (h'\<lparr>c_strm := strm\<rparr>)) BZ_FINISH = Some (Ret BZ_STREAM_END (Some h'')) \<and>
    out_buf (c_strm h'') = out_buf strm @ empty_stream k \<and> avail_in (c_strm h'') = 0"
proof -
  obtain s where s: "c_state h' = Some (c_addr h', s)" "comp_inv k [] [] s" "emode s = BZ_M_RUNNING" using Init_running [OF assms(2)] by blast
  obtain s' where "compress_switch m BZ_FINISH (s\<lparr>estrm := strm\<rparr>) = Some (Ret BZ_STREAM_END s')"
      "out_buf (estrm s') = out_buf strm @ empty_stream k" "avail_in (estrm s') = 0"
    using finish_nothing [OF assms(1), of k "s\<lparr>estrm := strm\<rparr>"] s assms(3-5) by auto
  then show ?thesis by (simp add: BZ2_bzCompress_def s(1))
qed

section \<open>The stream\<close>

text \<open>C1: Whatever pieces the input comes in and the output is asked for in, and whatever is flushed on the way: when \<open>BZ2_bzCompress\<close>
  returns \<open>BZ_STREAM_END\<close>, all that was given out is a whole stream for all that was taken in. Its blocks are sorted, coded with
  complete prefix codes and carry their CRCs; their contents in order are the input.\<close>

theorem session_makes_whole_stream:
  assumes "host_ok m" "session m k X Y h"
    and "BZ2_bzCompress m (Some h) action = Some (Ret BZ_STREAM_END (Some h'))"
    and "in_bytes (c_strm h) = w @ in_bytes (c_strm h')" "out_buf (c_strm h') = out_buf (c_strm h) @ bs"
  shows "avail_in (c_strm h') = 0 \<and> whole_stream k (X @ w) (Y @ bs)"
  using call_pieces [of m k X Y h action BZ_STREAM_END h' w bs] session_good [OF assms(2,1)] assms by simp

lemma begun_session: "session plain_host 1 [] [] begun"
  by (rule session.start [of estate_zero new_handle 1 0 0]) (simp_all add: begun_eq(1), simp add: new_handle_def strm_zero_def src_ok_def in_ok_def)

lemma begun_strm: "avail_in (c_strm begun) = 0" "avail_out (c_strm begun) = 100" "out_buf (c_strm begun) = []"
  using Init_OK [of estate_zero new_handle 1 0 0 "[]" begun] begun_eq(1)
  by (simp_all add: same_buffers_def new_handle_def strm_zero_def)

theorem session_makes_whole_stream_witness:
  "\<exists>h'. BZ2_bzCompress plain_host (Some begun) BZ_FINISH = Some (Ret BZ_STREAM_END (Some h')) \<and> avail_in (c_strm h') = 0 \<and>
    whole_stream 1 [] (empty_stream 1)"
proof -
  have b: "begun\<lparr>c_strm := c_strm begun\<rparr> = begun" by simp
  have i: "BZ2_bzCompressInit estate_zero (Some new_handle) (int 1) 0 0 = (BZ_OK, [], Some begun)" using begun_eq(1) by simp
  obtain h' where h: "BZ2_bzCompress plain_host (Some begun) BZ_FINISH = Some (Ret BZ_STREAM_END (Some h'))"
      "out_buf (c_strm h') = out_buf (c_strm begun) @ empty_stream 1" "avail_in (c_strm h') = 0"
    using finish_new [OF plain_host_ok i begun_eq(3)] begun_strm b by auto
  have e: "in_bytes (c_strm begun) = [] @ in_bytes (c_strm h')" using h(3) begun_strm(1) by (simp add: in_bytes_def)
  show ?thesis using session_makes_whole_stream [OF plain_host_ok begun_session h(1) e h(2)] h(1) by auto
qed

text \<open>C32: A new compressor that is told to finish at once, with no input and room for 14 bytes, returns \<open>BZ_STREAM_END\<close> and has given out
  exactly the header, the end mark and a combined CRC of zero.\<close>

theorem empty_input_stream:
  assumes "host_ok m" "BZ2_bzCompressInit junk (Some h) (int k) verb fac = (BZ_OK, fr, Some h')"
    and "src_ok strm" "avail_in strm = 0" "14 \<le> avail_out strm"
  shows "\<exists>h''. BZ2_bzCompress m (Some (h'\<lparr>c_strm := strm\<rparr>)) BZ_FINISH = Some (Ret BZ_STREAM_END (Some h'')) \<and>
    out_buf (c_strm h'') = out_buf strm @ [0x42, 0x5a, 0x68, 0x30 + word_of_nat k, 0x17, 0x72, 0x45, 0x38, 0x50, 0x90, 0, 0, 0, 0]"
  using finish_new [OF assms] by (auto simp: empty_stream_def)

theorem empty_input_stream_witness:
  "\<exists>h''. BZ2_bzCompress plain_host (Some (begun\<lparr>c_strm := strm_zero\<lparr>avail_out := 14\<rparr>\<rparr>)) BZ_FINISH = Some (Ret BZ_STREAM_END (Some h'')) \<and>
    out_buf (c_strm h'') = [0x42, 0x5a, 0x68, 0x31, 0x17, 0x72, 0x45, 0x38, 0x50, 0x90, 0, 0, 0, 0]"
proof -
  have i: "BZ2_bzCompressInit estate_zero (Some new_handle) (int 1) 0 0 = (BZ_OK, [], Some begun)" using begun_eq(1) by simp
  show ?thesis
    using empty_input_stream [OF plain_host_ok i, of "strm_zero\<lparr>avail_out := 14\<rparr>"] by (simp add: strm_zero_def src_ok_def in_ok_def)
qed

section \<open>The calls\<close>



text \<open>C33: \<open>BZ2_bzCompressInit\<close> returns \<open>BZ_PARAM_ERROR\<close> exactly for a bad argument and \<open>BZ_MEM_ERROR\<close> exactly when one of its four allocations
  fails; what the others got is then given back and the handle has no state. After \<open>BZ_OK\<close> the handle is good, whatever the memory
  held that it was given.\<close>

theorem BZ2_bzCompressInit_correct:
  "BZ2_bzCompressInit junk None size100k verb fac = (BZ_PARAM_ERROR, [], None) \<and>
   (\<exists>h'. BZ2_bzCompressInit junk (Some h) size100k verb fac =
      (if 1 \<le> size100k \<and> size100k \<le> 9 \<and> 0 \<le> fac \<and> fac \<le> 250
       then (if \<forall>i < 4. alloc_ok (c_strm h) i then BZ_OK else BZ_MEM_ERROR, given_back (c_strm h), Some h')
       else (BZ_PARAM_ERROR, [], Some h)) \<and>
     (1 \<le> size100k \<and> size100k \<le> 9 \<and> 0 \<le> fac \<and> fac \<le> 250 \<longrightarrow> same_buffers (c_strm h) (c_strm h') \<and>
       (if \<forall>i < 4. alloc_ok (c_strm h) i then chandle_ok (nat size100k) [] [] h' else c_state h' = c_state h)))"
proof (cases "1 \<le> size100k \<and> size100k \<le> 9 \<and> 0 \<le> fac \<and> fac \<le> 250")
  case True
  then obtain h' where "BZ2_bzCompressInit junk (Some h) size100k verb fac =
      (if \<forall>i < 4. alloc_ok (c_strm h) i then BZ_OK else BZ_MEM_ERROR, given_back (c_strm h), Some h')" "same_buffers (c_strm h) (c_strm h')"
    "if \<forall>i < 4. alloc_ok (c_strm h) i then chandle_ok (nat size100k) [] [] h' else c_state h' = c_state h"
    using BZ2_bzCompressInit_ok [of size100k fac junk h verb] by auto
  then show ?thesis using True by (simp add: BZ2_bzCompressInit_def bz_config_ok_def)
next
  case False
  then show ?thesis by (auto simp: BZ2_bzCompressInit_def bz_config_ok_def)
qed

theorem BZ2_bzCompressInit_correct_witness:
  "\<exists>h'. BZ2_bzCompressInit estate_zero (Some (new_handle\<lparr>c_strm := strm_zero\<lparr>allocs := [True, True, False, True]\<rparr>\<rparr>)) 1 0 0 =
     (BZ_MEM_ERROR, [Arr1, Ftab, EStateBlock], Some h') \<and> c_state h' = None"
proof -
  let ?h = "new_handle\<lparr>c_strm := strm_zero\<lparr>allocs := [True, True, False, True]\<rparr>\<rparr>"
  have a: "alloc_ok (c_strm ?h) 0" "alloc_ok (c_strm ?h) 1" "\<not> alloc_ok (c_strm ?h) 2" "alloc_ok (c_strm ?h) 3"
    by (simp_all add: alloc_ok_def new_handle_def strm_zero_def)
  then have n: "\<not> (\<forall>i < 4. alloc_ok (c_strm ?h) i)" by (simp add: less_4)
  have g: "given_back (c_strm ?h) = [Arr1, Ftab, EStateBlock]" unfolding given_back_def if_not_P [OF n] using a by simp
  have c: "c_state ?h = None" by (simp add: new_handle_def)
  show ?thesis using BZ2_bzCompressInit_correct [of estate_zero 1 0 0 ?h] unfolding g if_not_P [OF n] c by auto
qed

text \<open>C20: The loop between input and output always ends, for every good state, and never with a failed assertion. It is left only when the output is full,
  the input is used up, or the announced flush or end is complete; it reports progress exactly if bytes were moved.\<close>

theorem handle_compress_returns:
  assumes "host_ok h" "comp_inv k X Y s" "src_ok (estrm s)" "emode s \<noteq> BZ_M_RUNNING \<longrightarrow> avail_in_expect s = avail_in (estrm s)"
  shows "\<exists>w bs s'. handle_compress h (p, s) = Some (Stop (p \<or> w @ bs \<noteq> [], s')) \<and> stopped s' \<and> comp_inv k (X @ w) (Y @ bs) s' \<and>
    in_bytes (estrm s) = w @ in_bytes (estrm s') \<and> out_buf (estrm s') = out_buf (estrm s) @ bs"
  using handle_compress_ok [OF assms, of p] unfolding goes_def io_step_def by blast

definition begun_state :: estate where
  "begun_state = prepare_new_block (init_RL (estate_zero\<lparr>estrm := strm_zero, blockNo := 0, est := BZ_S_INPUT, emode := BZ_M_RUNNING,
     combinedCRC := 0, eblockSize100k := 1, nblockMAX := 100000 * 1 - 19, everbosity := 0, workFactor := 30\<rparr>))"

theorem handle_compress_returns_witness:
  "\<exists>(w :: u8 list) bs s'. handle_compress plain_host (False, begun_state) = Some (Stop (w @ bs \<noteq> [], s')) \<and> stopped s'"
proof -
  have I: "comp_inv 1 [] [] begun_state" by (rule fresh_estate [OF _ _ begun_state_def]) simp_all
  have i: "src_ok (estrm begun_state)" and m: "emode begun_state = BZ_M_RUNNING"
    by (simp_all add: begun_state_def prepare_new_block_def init_RL_def src_ok_def in_ok_def strm_zero_def)
  then have e: "emode begun_state \<noteq> BZ_M_RUNNING \<longrightarrow> avail_in_expect begun_state = avail_in (estrm begun_state)" by simp
  from handle_compress_returns [OF plain_host_ok I i e, of False] show ?thesis unfolding simp_thms by blast
qed

text \<open>C13: \<open>BZ2_compressBlock\<close> never fails on a block that is ready: it sorts it, codes it and appends the header (before the first block), the bits of the
  block, and after the last one the end mark with the combined CRC, filled up to a whole byte. The CRC of the block is finished, and the combined CRC is
  rotated and takes it in; the map of the bytes in use, the block number, the level and the rest of the outer state are what they were.\<close>

theorem BZ2_compressBlock_correct:
  assumes "block_ready h s"
  shows "\<exists>s'. BZ2_compressBlock h s is_last = Some (s', None) \<and> (0 < nblock s \<longrightarrow> block_coded s s') \<and>
    blockCRC s' = (if 0 < nblock s then BZ_FINALISE_CRC (blockCRC s) else blockCRC s) \<and>
    combinedCRC s' = (if 0 < nblock s then (push_bit 1 (combinedCRC s) OR drop_bit 31 (combinedCRC s)) XOR BZ_FINALISE_CRC (blockCRC s)
      else combinedCRC s) \<and> same_outer s s' \<and>
    (if is_last then \<exists>pad < 8. bytes_bits (zbytes s') = coded_bits s s' @ trailer_bits s' @ replicate pad False
     else write_ok s' \<and> out_bits s' = coded_bits s s')"
  using compressBlock_ok [OF assms, of is_last] unfolding compressed_def by (auto simp: crcs_closed_def)

definition one_byte_block :: estate where
  "one_byte_block = estate_zero\<lparr>blockNo := 1, eblockSize100k := 1, nblock := 1, block := (\<lambda>_. 97), einUse := (\<lambda>i. i = 97)\<rparr>"

lemma one_byte_block_ready: "block_ready plain_host one_byte_block"
  using plain_host_ok by (simp add: block_ready_def host_sort_ready one_byte_block_def estate_zero_def)

theorem BZ2_compressBlock_correct_witness:
  "\<exists>s'. BZ2_compressBlock plain_host one_byte_block False = Some (s', None) \<and> block_coded one_byte_block s' \<and>
    out_bits s' = coded_bits one_byte_block s'"
proof -
  have "0 < nblock one_byte_block" by (simp add: one_byte_block_def)
  then show ?thesis using BZ2_compressBlock_correct [OF one_byte_block_ready, of False] by auto
qed

end
