(* ===== verification/StageProps.thy ===== *)
theory StageProps
  imports CompressProps
begin

text \<open>
  The properties of the compressor's stages, most of them against the way back: run-length coding, bit output, rotations, move to front,
  selectors, prefix codes.
\<close>

section \<open>Input runs\<close>

text \<open>C11: The input stage loses nothing: the bytes \<open>w\<close> that \<open>copy_input_until_stop\<close> takes from the stream go, with those before, into a block whose
  run-length coding is undone to exactly these bytes, whose CRC is theirs and whose \<open>inUse\<close> marks exactly the bytes in it. It stops only when the
  block is full, the input is used up, or all that was announced has been taken.\<close>

theorem input_runs_round_trip:
  assumes "rle_at rs s" "src_ok (estrm s)"
  shows "\<exists>w s'. copy_input_until_stop m s = (w \<noteq> [], s') \<and> in_bytes (estrm s) = w @ in_bytes (estrm s') \<and>
    rld (block_list (flush_RL m s')) = Some (taken rs s @ w) \<and> blockCRC (flush_RL m s') = crc_bytes BZ_INITIALISE_CRC (taken rs s @ w) \<and>
    (\<forall>i < 256. einUse (flush_RL m s') i \<longleftrightarrow> word_of_nat i \<in> set (block_list (flush_RL m s'))) \<and>
    (nblockMAX s \<le> nblock s' \<or> avail_in (estrm s') = 0 \<or> emode s \<noteq> BZ_M_RUNNING \<and> avail_in_expect s' = 0)"
proof -
  have "\<exists>w s'. copy_input_until_stop m s = (w \<noteq> [], s') \<and> took w s s' \<and>
      (nblockMAX s \<le> nblock s' \<or> avail_in (estrm s') = 0 \<or> emode s \<noteq> BZ_M_RUNNING \<and> avail_in_expect s' = 0)"
    using copy_running_ok [OF assms(2), of m] copy_expected_ok [OF assms(2), of m]
    by (cases "emode s = BZ_M_RUNNING") (auto simp: copy_input_until_stop_def prod_eq_iff)
  then obtain w s' where c: "copy_input_until_stop m s = (w \<noteq> [], s')" "took w s s'"
      "nblockMAX s \<le> nblock s' \<or> avail_in (estrm s') = 0 \<or> emode s \<noteq> BZ_M_RUNNING \<and> avail_in_expect s' = 0" by blast
  then obtain rs' where r: "rle_at rs' s'" "taken rs' s' = taken rs s @ w" using assms(1) unfolding took_def by blast
  show ?thesis using c flush_RL_ok(1-3) [OF r(1), of m] unfolding r(2)
    by (intro exI [of _ w] exI [of _ s']) (simp add: took_def)
qed

definition two_runs :: estate where
  "two_runs = begun_state\<lparr>estrm := strm_zero\<lparr>in_buf := [7, 7, 7, 7, 7, 9], avail_in := 6\<rparr>\<rparr>"

lemma begun_at: "rle_at [] begun_state" "taken [] begun_state = []"
proof -
  let ?j = "init_RL (estate_zero\<lparr>estrm := strm_zero, blockNo := 0, est := BZ_S_INPUT, emode := BZ_M_RUNNING, combinedCRC := 0,
      eblockSize100k := 1, nblockMAX := 100000 * 1 - 19, everbosity := 0, workFactor := 30\<rparr>)"
  have "pending_ok ?j" "expand_runs (pending_run ?j) = []" by (simp_all add: pending_ok_def pending_run_def init_RL_def)
  from prepare_pending [OF this(1)] this(2) show "rle_at [] begun_state" "taken [] begun_state = []" by (simp_all only: begun_state_def)
qed

lemma two_runs_at: "rle_at [] two_runs" "taken [] two_runs = []" "src_ok (estrm two_runs)" "in_bytes (estrm two_runs) = [7, 7, 7, 7, 7, 9]"
  by (simp_all add: two_runs_def begun_at src_ok_def in_ok_def strm_zero_def in_bytes_def in_byte_def upt_rec)

theorem input_runs_round_trip_witness:
  "\<exists>w s'. copy_input_until_stop plain_host two_runs = (w \<noteq> [], s') \<and> [7, 7, 7, 7, 7, 9] = w @ in_bytes (estrm s') \<and>
    rld (block_list (flush_RL plain_host s')) = Some w"
  using input_runs_round_trip [OF two_runs_at(1,3), of plain_host] unfolding two_runs_at(2,4) append_Nil by blast

text \<open>C30: The block never outgrows its memory: with \<open>nblockMAX = 100000 k - 19\<close> it holds at most \<open>100000 k - 10\<close> bytes after the input stage, even when
  the pending run is flushed into it.\<close>

theorem block_stays_in_bounds:
  assumes "rle_at rs s" "src_ok (estrm s)" "nblockMAX s = 100000 * k - 19" "1 \<le> k" "nblock s \<le> nblockMAX s + 4"
  shows "nblock (snd (copy_input_until_stop m s)) \<le> nblockMAX s + 4 \<and> nblock (flush_RL m (snd (copy_input_until_stop m s))) \<le> 100000 * k - 10"
proof -
  obtain w where t: "took w s (snd (copy_input_until_stop m s))"
    using copy_running_ok [OF assms(2), of m] copy_expected_ok [OF assms(2), of m]
    by (cases "emode s = BZ_M_RUNNING") (auto simp: copy_input_until_stop_def)
  then obtain rs' where r: "rle_at rs' (snd (copy_input_until_stop m s))" using assms(1) unfolding took_def by blast
  have "nblock (snd (copy_input_until_stop m s)) \<le> nblockMAX s + 4" using t assms(5) by (simp add: took_def)
  then show ?thesis using flush_RL_ok(4) [OF r, of m] assms(3,4) by simp
qed

theorem block_stays_in_bounds_witness:
  "nblock (flush_RL plain_host (snd (copy_input_until_stop plain_host two_runs))) \<le> 100000 - 10"
proof -
  have "nblockMAX two_runs = 100000 * 1 - 19" "nblock two_runs \<le> nblockMAX two_runs + 4"
    by (simp_all add: two_runs_def begun_state_def prepare_new_block_def init_RL_def)
  from block_stays_in_bounds [OF two_runs_at(1,3) this(1) _ this(2), of plain_host] show ?thesis by simp
qed

section \<open>Bit output\<close>

text \<open>C27: What is written can be read: any list of fields of at most 32 bits, written from the start of a block buffer and finished, gives bytes whose bits
  are the bits of the fields in order, followed by fewer than eight zero bits.\<close>

theorem bit_writer_round_trip:
  assumes "numZ s = 0" "\<forall>(n, v) \<in> set fs. n \<le> 32 \<and> take_bit n v = v"
  shows "\<exists>pad < 8. bytes_bits (zbytes (bsFinishWrite (fold (\<lambda>(n, v). bsW n v) fs (BZ2_bsInitWrite s)))) =
    concat (map (\<lambda>(n, v). to_bits n v) fs) @ replicate pad False"
proof -
  have "emits (concat (map (\<lambda>(n, v). to_bits n v) fs)) (BZ2_bsInitWrite s) (fold (\<lambda>(n, v). bsW n v) fs (BZ2_bsInitWrite s))"
    by (rule emits_fold) (use assms(2) emits_bsW in \<open>auto split: prod.splits\<close>)
  then show ?thesis
    using start_bits [OF assms(1)] bsFinishWrite_ok [of "fold (\<lambda>(n, v). bsW n v) fs (BZ2_bsInitWrite s)"] by (simp add: emits_def)
qed

theorem bit_writer_round_trip_witness:
  "\<exists>pad. pad < 8 \<and> bytes_bits (zbytes (bsFinishWrite (bsW 32 1 (bsW 3 5 (BZ2_bsInitWrite estate_zero))))) =
    [True, False, True] @ to_bits 32 (1 :: u32) @ replicate pad False"
proof -
  have z: "numZ estate_zero = 0" by (simp add: estate_zero_def)
  have f: "\<forall>(n, v) \<in> set [(3, 5), (32, 1 :: u32)]. n \<le> 32 \<and> take_bit n v = v" by simp
  have b: "to_bits 3 (5 :: u32) = [True, False, True]" by (simp add: to_bits_def upt_rec)
  show ?thesis using bit_writer_round_trip [OF z f]
    unfolding fold_simps list.map concat.simps prod.case b append_assoc append_Nil2 by blast
qed

section \<open>Move to front\<close>

text \<open>C12: Both builds of \<open>generateMTFValues\<close> end without running off an array and leave in \<open>mtfv\<close> a coding from which the bytes of the last column are got
  back: the runs of zeros, the move-to-front positions and \<open>unseqToSeq\<close> are undone by their inverses. Reading \<open>ptr\<close> while \<open>mtfv\<close> overwrites the same
  memory does no harm.\<close>

theorem mtf_round_trip:
  assumes "\<forall>i < nblock s. einUse s (unat (bwt_byte s i))" "search = mtf_simd \<or> search = mtf_scalar"
  shows "\<exists>s'. generateMTFValues search s = Some s' \<and>
    un_mtf_syms (used_bytes s) (map (mtfv s') [0..<nMTF s']) = map (bwt_byte s) [0..<nblock s]"
  using assms(2) simd.generates [OF assms(1)] scalar.generates [OF assms(1)] un_mtf_mtf_syms [OF assms(1)] by auto

lemma one_byte_block_bwt: "einUse one_byte_block (unat (bwt_byte one_byte_block 0))" "nblock one_byte_block = 1"
  by (simp_all add: one_byte_block_def bwt_byte_def Let_def)

lemma one_byte_block_used: "\<forall>i < nblock one_byte_block. einUse one_byte_block (unat (bwt_byte one_byte_block i))"
  using one_byte_block_bwt by simp

theorem mtf_round_trip_witness:
  "\<exists>s'. generateMTFValues mtf_scalar one_byte_block = Some s' \<and>
    un_mtf_syms (used_bytes one_byte_block) (map (mtfv s') [0..<nMTF s']) = [97]"
  using mtf_round_trip [OF one_byte_block_used, of mtf_scalar] unfolding one_byte_block_bwt(2)
  by (simp add: one_byte_block_def bwt_byte_def Let_def)

text \<open>There are at least one and at most \<open>nblock + 1\<close> symbols, all in the alphabet of \<open>enInUse + 2\<close>, of which the last one is the end mark; \<open>mtfFreq\<close>
  counts each of them exactly.\<close>

theorem mtf_symbols_in_bounds:
  assumes "\<forall>i < nblock s. einUse s (unat (bwt_byte s i))" "generateMTFValues (if esse2 h then mtf_simd else mtf_scalar) s = Some s'"
  shows "1 \<le> nMTF s' \<and> nMTF s' \<le> nblock s + 1 \<and> enInUse s' \<le> 256 \<and> mtfv s' (nMTF s' - 1) = enInUse s' + 1 \<and>
    (\<forall>i < nMTF s'. mtfv s' i < enInUse s' + 2) \<and>
    (\<forall>v < enInUse s' + 2. mtfFreq s' v = int (count_list (map (mtfv s') [0..<nMTF s']) v))"
proof -
  have G: "map (mtfv s') [0..<nMTF s'] = mtf_syms s \<and> nMTF s' = length (mtf_syms s) \<and>
      (\<forall>v \<le> length (used_bytes s) + 1. mtfFreq s' v = int (count_list (mtf_syms s) v)) \<and>
      s' = (makeMaps_e s)\<lparr>arr1 := arr1 s', mtfFreq := mtfFreq s', nMTF := nMTF s'\<rparr>"
    using simd.generates [OF assms(1)] scalar.generates [OF assms(1)] assms(2) by (cases "esse2 h") auto
  then have e: "s' = (makeMaps_e s)\<lparr>arr1 := arr1 s', mtfFreq := mtfFreq s', nMTF := nMTF s'\<rparr>" by blast
  then have u: "enInUse s' = length (used_bytes s)" by (rule same_outer_generates(7))
  have at: "mtfv s' i = mtf_syms s ! i" if "i < nMTF s'" for i using G that by (metis add_0 nth_map_upt minus_nat.diff_0)
  have n: "1 \<le> nMTF s'" "nMTF s' \<le> nblock s + 1" using G length_mtf_syms [of s] by (auto simp: mtf_syms_def)
  have "mtf_syms s ! (length (mtf_syms s) - 1) = length (used_bytes s) + 1" by (simp add: mtf_syms_def nth_append)
  then have "mtfv s' (nMTF s' - 1) = enInUse s' + 1" using at [of "nMTF s' - 1"] n(1) G u by simp
  moreover have "mtfv s' i < enInUse s' + 2" if "i < nMTF s'" for i
    using mtf_syms_less [OF assms(1), of "mtfv s' i"] at [OF that] G that u by simp
  moreover have "mtfFreq s' v = int (count_list (map (mtfv s') [0..<nMTF s']) v)" if "v < enInUse s' + 2" for v
    using G that u by auto
  ultimately show ?thesis using n u length_used_bytes [of s] by simp
qed

theorem mtf_symbols_in_bounds_witness:
  "\<exists>s'. generateMTFValues mtf_scalar one_byte_block = Some s' \<and> 1 \<le> nMTF s' \<and> nMTF s' \<le> 2"
proof -
  have s: "(if esse2 plain_host then mtf_simd else mtf_scalar) = mtf_scalar" by (simp add: plain_host_def)
  obtain s' where g: "generateMTFValues mtf_scalar one_byte_block = Some s'" using scalar.generates [OF one_byte_block_used] by blast
  show ?thesis using mtf_symbols_in_bounds [OF one_byte_block_used, of plain_host s'] g unfolding s one_byte_block_bwt(2) by auto
qed

text \<open>The SSE2 search, sixteen bytes at a time, and the scalar search that shifts as it goes find the same place and leave the same list.\<close>

theorem simd_search_agrees_with_scalar:
  assumes "yy p = c" "\<forall>i < p. yy i \<noteq> c" "0 < p"
  shows "mtf_simd yy c = Some (p, move_up p yy) \<and> mtf_scalar yy c = mtf_simd yy c"
  using mtf_simd_ok [OF assms(1,2)] mtf_scalar_ok [OF assms] by simp

theorem simd_search_agrees_with_scalar_witness:
  "mtf_simd (\<lambda>i. word_of_nat i) 20 = Some (20, move_up 20 (\<lambda>i. word_of_nat i)) \<and>
   mtf_scalar (\<lambda>i. word_of_nat i) 20 = mtf_simd (\<lambda>i. word_of_nat i) (20 :: u8)"
proof -
  have "(word_of_nat i :: u8) \<noteq> 20" if "i < 20" for i using u8_eq [of i 20] that by simp
  then show ?thesis using simd_search_agrees_with_scalar [of "\<lambda>i. word_of_nat i" 20 20] by simp
qed

section \<open>Coding tables\<close>

text \<open>C31: The unrolled cost of a full group, which adds two 16-bit counters in one word, equals the plain loop and the sum of the code lengths: no
  counter overflows into the other.\<close>

theorem packed_costs_agree:
  assumes "\<forall>t < 6. \<forall>i < 50. len t (sym_at (gs + i)) \<le> 20" "t < 6"
  shows "cost_fast len sym_at gs t = cost_general len sym_at 6 gs (gs + 49) t \<and>
    unat (cost_fast len sym_at gs t) = (\<Sum>i < 50. len t (sym_at (gs + i)))"
proof -
  have vs: "group_syms sym_at gs (gs + 49) = map (\<lambda>i. sym_at (gs + i)) [0..<50]"
    unfolding group_syms_def by (rule nth_equalityI) simp_all
  have le: "len t v \<le> 20" if "t < 6" "v \<in> set (group_syms sym_at gs (gs + 49))" for t v
    using that assms(1) unfolding vs by auto
  have c: "cost_of (len t) (group_syms sym_at gs (gs + 49)) = (\<Sum>i < 50. len t (sym_at (gs + i)))"
    unfolding vs cost_of_def by (simp add: comp_def interv_sum_list_conv_sum_set_nat lessThan_atLeast0)
  have "cost_of (len t) (group_syms sym_at gs (gs + 49)) \<le> 20 * length (group_syms sym_at gs (gs + 49))"
    using le [OF assms(2)] by (intro cost_of_le) blast
  then have "cost_of (len t) (group_syms sym_at gs (gs + 49)) < 65536" by (simp add: group_syms_def)
  then have "unat (word_of_nat (cost_of (len t) (group_syms sym_at gs (gs + 49))) :: u16) = cost_of (len t) (group_syms sym_at gs (gs + 49))"
    by (simp add: unsigned_of_nat take_bit_nat_eq_self)
  moreover have "cost_fast len sym_at gs t = word_of_nat (cost_of (len t) (group_syms sym_at gs (gs + 49)))"
    using cost_fast_eq [of sym_at gs len t] le assms(2) by blast
  moreover have "cost_general len sym_at 6 gs (gs + 49) t = word_of_nat (cost_of (len t) (group_syms sym_at gs (gs + 49)))"
    using assms(2) by (simp only: cost_general_eq if_True)
  ultimately show ?thesis using c by (simp only:)
qed

theorem packed_costs_agree_witness:
  "unat (cost_fast (\<lambda>t v. t + 15) (\<lambda>i. i) 0 5) = 1000"
  by (rule trans [OF conjunct2 [OF packed_costs_agree]]) simp_all

text \<open>One pass over the groups gives every group of fifty symbols the table that codes it with the fewest bits.\<close>

theorem groups_get_cheapest_table:
  assumes "1 \<le> nGroups" "\<forall>t < nGroups. \<forall>i < n. len t (sym_at i) \<le> 20"
  shows "\<exists>sel' r. group_loop len sym_at n nGroups 0 (0, sel, \<lambda>_ _. 0) = (n_selectors n, sel', r) \<and>
    (\<forall>k < n_selectors n. sel' k < nGroups \<and>
       (\<forall>t < nGroups. cost_of (len (sel' k)) (nth_group sym_at n k) \<le> cost_of (len t) (nth_group sym_at n k)))"
proof -
  have "passed len sym_at n nGroups (50 * 0) (0, sel, \<lambda>_ _. 0)" by (simp add: passed_def n_selectors_def)
  from group_loop_passed [OF this assms(1)]
  have P: "passed len sym_at n nGroups n (group_loop len sym_at n nGroups 0 (0, sel, \<lambda>_ _. 0))" by simp
  obtain k sel' r where e: "group_loop len sym_at n nGroups 0 (0, sel, \<lambda>_ _. 0) = (k, sel', r)" by (rule prod_cases3)
  show ?thesis using P assms(2) unfolding e passed_def by simp
qed

theorem groups_get_cheapest_table_witness:
  "\<exists>sel' r. group_loop (\<lambda>t v. if t = 1 then 2 else 5) (\<lambda>i. i) 120 2 0 (0, \<lambda>_. 0, \<lambda>_ _. 0) = (n_selectors 120, sel', r) \<and> sel' 1 < 2"
proof -
  let ?len = "\<lambda>t v. if t = (1 :: nat) then 2 else (5 :: nat)"
  have L: "\<forall>t < 2. \<forall>i < (120 :: nat). ?len t ((\<lambda>i. i) i) \<le> 20" by simp
  obtain sel' r where "group_loop (\<lambda>t v. if t = 1 then 2 else 5) (\<lambda>i. i) 120 2 0 (0, \<lambda>_. 0, \<lambda>_ _. 0) = (n_selectors 120, sel', r)"
      "\<forall>k < n_selectors 120. sel' k < 2"
    using groups_get_cheapest_table [of 2 120 ?len "\<lambda>i. i" "\<lambda>_. 0"] L by auto
  moreover have "1 < n_selectors 120" by (simp add: n_selectors_def)
  ultimately show ?thesis by blast
qed

text \<open>The selectors are got back from their move-to-front coding, and the search in \<open>pos\<close> never runs off its end.\<close>

theorem selector_mtf_round_trip:
  assumes "\<forall>k < n. eselector s k < G"
  shows "\<exists>g. sel_mtf n s = Some (s\<lparr>eselectorMtf := g\<rparr>) \<and> unmtf [0..<G] (map g [0..<n]) = map (eselector s) [0..<n] \<and> (\<forall>k < n. g k < G)"
proof -
  obtain g where g: "sel_mtf n s = Some (s\<lparr>eselectorMtf := g\<rparr>)" "map g [0..<n] = mtf_pos [0..<G] (map (eselector s) [0..<n])"
    using sel_mtf_ok [OF assms] by blast
  have sub: "set (map (eselector s) [0..<n]) \<subseteq> set [0..<G]" using assms by auto
  have "g k < G" if "k < n" for k
  proof -
    have "g k \<in> set (map g [0..<n])" using that by simp
    from mtf_pos_less [OF sub this [unfolded g(2)]] show ?thesis by simp
  qed
  moreover have "unmtf [0..<G] (map g [0..<n]) = map (eselector s) [0..<n]" unfolding g(2) by (rule unmtf_mtf_pos [OF sub])
  ultimately show ?thesis using g(1) by blast
qed

theorem selector_mtf_round_trip_witness:
  "\<exists>g. sel_mtf 3 (estate_zero\<lparr>eselector := (\<lambda>k. k mod 2)\<rparr>) = Some (estate_zero\<lparr>eselector := (\<lambda>k. k mod 2), eselectorMtf := g\<rparr>) \<and>
    unmtf [0..<2] (map g [0..<3]) = [0, 1, 0]"
proof -
  let ?s = "estate_zero\<lparr>eselector := (\<lambda>k. k mod 2)\<rparr>"
  have m: "map (eselector ?s) [0..<3] = [0, 1, 0]" by (simp add: upt_rec)
  have l: "\<forall>k < 3. eselector ?s k < 2" by simp
  from selector_mtf_round_trip [OF l] show ?thesis unfolding m by (elim exE conjE) (intro exI conjI)
qed

text \<open>C8: \<open>sendMTFValues\<close> never fails an assertion and appends exactly the bits of the format for the tables it leaves in the state: the map of bytes in use, the
  selectors in move-to-front coding, the lengths as differences, and for every symbol its code in the table of its group. All tables are complete
  prefix codes of at most 17 bits. The map of the bytes in use and the symbols are those of the state before.\<close>

theorem sendMTFValues_correct:
  assumes "0 < nMTF s" "nMTF s \<le> 900100" "enInUse s \<le> 256" "\<forall>i < nMTF s. mtfv s i < enInUse s + 2" "write_ok s"
  shows "\<exists>s'. sendMTFValues (s, failed) = Some (s', failed) \<and> write_ok s' \<and> out_bits s' = out_bits s @ body_bits s' \<and> sent_ok s' \<and>
    einUse s' = einUse s \<and> enInUse s' = enInUse s \<and> mtfv s' = mtfv s \<and> nMTF s' = nMTF s"
proof -
  obtain len sel selM code s' where d: "sendMTFValues (s, failed) = Some (s', failed)"
      "emits (body_bits s') (s\<lparr>elen := len, eselector := sel, eselectorMtf := selM, ecode := code\<rparr>) s'" "sent_ok s'"
    using sendMTFValues_emits [OF assms(1-4), of failed] by blast
  have "write_ok (s\<lparr>elen := len, eselector := sel, eselectorMtf := selM, ecode := code\<rparr>) = write_ok s"
    "out_bits (s\<lparr>elen := len, eselector := sel, eselectorMtf := selM, ecode := code\<rparr>) = out_bits s"
    by (simp_all add: write_ok_def out_bits_def zbytes_def)
  moreover have "mtfv s' = mtfv (s\<lparr>elen := len, eselector := sel, eselectorMtf := selM, ecode := code\<rparr>)"
    using only_bits_fields [OF emits_only [OF d(2)]] by simp
  then have "mtfv s' = mtfv s" by (simp add: mtfv_def fun_eq_iff)
  ultimately show ?thesis using d assms(5) only_bits_fields [OF emits_only [OF d(2)]] by (auto simp: emits_def)
qed

theorem sendMTFValues_correct_witness:
  "\<exists>s'. sendMTFValues (estate_zero\<lparr>nMTF := 2, enInUse := 1\<rparr>, None) = Some (s', None) \<and> out_bits s' = body_bits s'"
proof -
  let ?s = "estate_zero\<lparr>nMTF := 2, enInUse := 1\<rparr>"
  have "write_ok ?s" "out_bits ?s = []" "\<forall>i < nMTF ?s. mtfv ?s i < enInUse ?s + 2"
    by (simp_all add: estate_zero_def write_ok_def out_bits_def zbytes_def mtfv_def bytes_bits_def)
  then show ?thesis using sendMTFValues_correct [of ?s None] by (auto simp: estate_zero_def)
qed

text \<open>C21: What is coded is decoded: a code of \<open>BZ2_hbAssignCodes\<close>, with any bits behind it, is found by the search with the tables that
  \<open>BZ2_hbCreateDecodeTables\<close> makes of the same lengths, and \<open>perm\<close> gives the symbol.\<close>

theorem prefix_code_round_trip:
  assumes len: "\<And>i. i < n \<Longrightarrow> minLen \<le> len i \<and> len i \<le> maxLen" and M: "maxLen \<le> 20"
    and K: "(\<Sum>i < n. 2 ^ (maxLen - len i)) \<le> (2 :: nat) ^ maxLen" and i: "i < n"
    and T: "BZ2_hbCreateDecodeTables tables len minLen maxLen n = (limit, base, perm)"
    and bs: "bs = to_bits (len i) (BZ2_hbAssignCodes code len minLen maxLen n i) @ rest"
  shows "\<exists>v. hd_walk limit minLen (int (of_bits (take minLen bs))) (drop minLen bs) = Some (len i, v) \<and> perm (nat (v - base (len i))) = i"
proof -
  have m: "minLen \<le> len i" "len i \<le> maxLen" using len [OF i] by simp_all
  have D: "decode_tables len n minLen maxLen limit base perm"
    by (rule CreateDecodeTables_eq [OF len _ _ T]) (use M m in auto)
  have b: "bs = to_bits (len i) (ccode len n i) @ rest" using bs i by (simp add: AssignCodes_eq [OF len])
  have "ccode len n i < 2 ^ len i" by (rule ccode_less [OF i _ K]) (use len in auto)
  then have "of_bits (take (len i) bs) = ccode len n i" by (simp add: b of_bits_to_bits take_bit_nat_eq_self)
  from slow_search [OF D M i m this] show ?thesis by (simp add: b)
qed

theorem prefix_code_round_trip_witness:
  "\<exists>v. hd_walk (fst (BZ2_hbCreateDecodeTables (\<lambda>_. 0, \<lambda>_. 0, \<lambda>_. 0) (\<lambda>_. 1) 1 1 2)) 1 (int (of_bits [True])) [False, True] = Some (1, v)"
proof -
  obtain limit base perm where T: "BZ2_hbCreateDecodeTables (\<lambda>_. 0, \<lambda>_. 0, \<lambda>_. 0) (\<lambda>_. 1) 1 1 2 = (limit, base, perm)" by (rule prod_cases3)
  have c: "BZ2_hbAssignCodes (\<lambda>_. 0) (\<lambda>_. 1) 1 1 2 1 = 1"
    using AssignCodes_eq [of 2 1 "\<lambda>_. 1" 1 "\<lambda>_. 0"] by (simp add: ccode_def numeral_2_eq_2)
  have b: "[True, False, True] = to_bits 1 (BZ2_hbAssignCodes (\<lambda>_. 0) (\<lambda>_. 1) 1 1 2 1) @ [False, True]"
    unfolding c by (simp add: to_bits_def bit_0)
  show ?thesis
    using prefix_code_round_trip [where len = "\<lambda>_. 1" and n = 2 and i = 1 and minLen = 1 and maxLen = 1, OF _ _ _ _ T b] unfolding T by auto
qed

section \<open>Sorting\<close>

text \<open>C29: \<open>fallbackQSort3\<close> ends, its stack of 100 entries never overflows for any range of less than 2 to the 97, and it sorts the range by class,
  rearranging it and touching nothing else.\<close>

theorem fallbackQSort3_correct:
  assumes "0 \<le> lo" "hi - lo < 2 ^ 97"
  shows "\<exists>g. fallbackQSort3 eclass lo hi (f, failed) = Some (g, failed) \<and>
    (\<forall>a b. lo \<le> int a \<and> a \<le> b \<and> int b \<le> hi \<longrightarrow> eclass (g a) \<le> eclass (g b)) \<and>
    (\<forall>k. int k < lo \<or> hi < int k \<longrightarrow> g k = f k) \<and>
    image_mset g (mset_set {k. lo \<le> int k \<and> int k \<le> hi}) = image_mset f (mset_set {k. lo \<le> int k \<and> int k \<le> hi})"
  using fallbackQSort3_ok [OF assms, of eclass f failed] by (auto simp: sorted_on_def rearr_def places_def not_le)

theorem fallbackQSort3_correct_witness:
  "\<exists>g. fallbackQSort3 (\<lambda>i. i) 0 2 (\<lambda>k. if k = 0 then 2 else if k = 1 then 0 else 1, None) = Some (g, None) \<and> g 0 \<le> g 1 \<and> g 1 \<le> g 2 \<and> g 3 = 1"
proof -
  obtain g where g: "fallbackQSort3 (\<lambda>i. i) 0 2 (\<lambda>k. if k = 0 then 2 else if k = 1 then 0 else 1, None) = Some (g, None)"
      "\<forall>a b. 0 \<le> int a \<and> a \<le> b \<and> int b \<le> 2 \<longrightarrow> g a \<le> g b" "\<forall>k. int k < 0 \<or> 2 < int k \<longrightarrow> g k = (if k = 0 then 2 else if k = 1 then 0 else 1)"
    using fallbackQSort3_correct [of 0 2 "\<lambda>i. i" "\<lambda>k. if k = 0 then 2 else if k = 1 then 0 else 1" None] by auto
  then show ?thesis by auto
qed

text \<open>C9: \<open>fallbackSort\<close> ends and leaves in \<open>fmap\<close> all rotations of the block in lexicographic order; the bytes of the block, over which it has kept
  the classes, are what they were.\<close>

theorem fallbackSort_correct:
  assumes "0 < n" "n < 2 ^ 90"
  shows "\<exists>f b' bh'. fallbackSort n f0 b bh failed = Some (f, b', bh', failed) \<and> bij_betw f {..<n} {..<n} \<and>
    (\<forall>i j. i < j \<and> j < n \<longrightarrow> \<not> rot_less b n (f j) (f i)) \<and> (\<forall>i < n. b' i = b i)"
  using fallbackSort_sorts [OF assms, of f0 b bh failed] unfolding rot_sorted_def by blast

theorem fallbackSort_correct_witness:
  "\<exists>f b' bh'. fallbackSort 3 (\<lambda>_. 0) (\<lambda>i. if i = 1 then 97 else 98) (\<lambda>_. 0) None = Some (f, b', bh', None) \<and>
    f ` {..<3} = {..<3} \<and> \<not> rot_less (\<lambda>i. if i = 1 then 97 else 98) 3 (f 1) (f 0) \<and> b' 1 = 97"
proof -
  obtain f b' bh' where f: "fallbackSort 3 (\<lambda>_. 0) (\<lambda>i. if i = 1 then 97 else 98) (\<lambda>_. 0) None = Some (f, b', bh', None)"
      "bij_betw f {..<3} {..<3}" "\<forall>i j. i < j \<and> j < 3 \<longrightarrow> \<not> rot_less (\<lambda>i. if i = 1 then 97 else 98) 3 (f j) (f i)"
      "\<forall>i < 3. b' i = (if i = 1 then 97 else 98)"
    using fallbackSort_correct [of 3 "\<lambda>_. 0" "\<lambda>i. if i = 1 then 97 else 98" "\<lambda>_. 0" None] by auto
  then show ?thesis by (intro exI [of _ f] exI [of _ b'] exI [of _ bh']) (simp add: bij_betw_def)
qed

text \<open>C10: \<open>BZ2_blockSort\<close>, by \<open>fallbackSort\<close> below 10000 bytes and from the suffix array of the doubled block above, ends with the rotations in order,
  \<open>origPtr\<close> at the block itself, the block as it was and no failed assertion; nothing else of the state changes but its scratch memory.\<close>

theorem BZ2_blockSort_correct:
  assumes "0 < nblock s" "nblock s < 2 ^ 32" "sort_ready h s"
  shows "\<exists>s'. BZ2_blockSort h (s, failed) = Some (s', failed) \<and> rot_sorted (block s) (nblock s) (ptr s') \<and> block_list s' = block_list s \<and>
    0 \<le> eorigPtr s' \<and> eorigPtr s' < int (nblock s) \<and> ptr s' (nat (eorigPtr s')) = 0 \<and>
    s' = s\<lparr>arr1 := arr1 s', block := block s', eftab := eftab s', eorigPtr := eorigPtr s'\<rparr>"
proof -
  obtain s' where s': "BZ2_blockSort h (s, failed) = Some (s', failed)" "block_sorted s s'"
    using BZ2_blockSort_sorts [of s h failed] assms by (auto simp: sort_ready_def)
  have "block_list s' = block_list s"
    using s'(2) block_sorted_fields(1) [OF s'(2)] by (auto simp: block_list_def block_sorted_def)
  then show ?thesis using s' unfolding block_sorted_def by blast
qed

theorem BZ2_blockSort_correct_witness:
  "\<exists>s'. BZ2_blockSort plain_host (one_byte_block, None) = Some (s', None) \<and> eorigPtr s' = 0 \<and> block_list s' = [97]"
proof -
  have "block_list one_byte_block = [97]" "nblock one_byte_block = 1" by (simp_all add: one_byte_block_def block_list_def)
  then show ?thesis
    using BZ2_blockSort_correct [of one_byte_block plain_host None] host_sort_ready [OF plain_host_ok, of one_byte_block] by auto
qed

text \<open>C3: The transforms of both sides undo each other: when the decompressor has the last column of the rotations that \<open>BZ2_blockSort\<close> has sorted, with its
  \<open>origPtr\<close>, the consistency checks at the end of the block pass, in both modes, and the bytes that the output walk delivers are the block. Equal
  rotations of a periodic block do no harm.\<close>

theorem bwt_round_trip:
  assumes s: "0 < nblock s" "sort_ready h s" and S: "BZ2_blockSort h (s, failed) = Some (s', failed')"
    and d: "data_ok d" "save_nblock (dsv d) = nblock s" "origPtr d = eorigPtr s'" "\<not> blockRandomised d"
    and k: "nblock s \<le> 100000 * blockSize100k d" "blockSize100k d \<le> 9"
    and L: "\<forall>i < nblock s. block_col d i = unat (bwt_byte s' i)"
  shows "failed' = failed \<and> (\<exists>d'. block_end d = Return BZ_OK d' \<and> block_bytes (block_col d) d' = block_list s)"
proof -
  have n: "nblock s < 2 ^ 32" using k by simp
  have B: "block_sorted s s'" "failed' = failed"
    using BZ2_blockSort_sorts [OF s(1) n, of h failed] s(2) S by (auto simp: sort_ready_def)
  then have o: "0 \<le> origPtr d" "origPtr d < int (save_nblock (dsv d))" using d(2,3) by (simp_all add: block_sorted_def)
  obtain d' where d': "block_end d = Return BZ_OK d'" "save_nblock (dsv d') = save_nblock (dsv d)" "origPtr d' = origPtr d"
      "blockRandomised d' = blockRandomised d"
    using block_end_ready [OF d(1) o] d(2) k by auto
  have "block_bytes (block_col d) d' = block_list s" by (rule bwt_undone [OF B(1)]) (use d d' L in auto)
  then show ?thesis using d'(1) B(2) by blast
qed

theorem bwt_round_trip_witness:
  "\<exists>s' d'. BZ2_blockSort plain_host (one_byte_block, None) = Some (s', None) \<and> block_end one_symbol = Return BZ_OK d' \<and>
    block_bytes (block_col one_symbol) d' = [97]"
proof -
  let ?s = one_byte_block
  have n: "nblock ?s = 1" "block ?s = (\<lambda>_. 97)" "block_list ?s = [97]" by (simp_all add: one_byte_block_def block_list_def)
  have r: "sort_ready plain_host ?s" by (rule host_sort_ready [OF plain_host_ok])
  obtain s' where s': "BZ2_blockSort plain_host (?s, None) = Some (s', None)" "block_sorted ?s s'"
    using BZ2_blockSort_sorts [of ?s plain_host None] r n(1) by (auto simp: sort_ready_def)
  note O = one_symbol_ok [of one_symbol, simplified]
  have o: "eorigPtr s' = 0" using s'(2) n(1) by (simp add: block_sorted_def)
  have "bwt_byte s' 0 = 97" using s'(2) n bwt_byte_last_col [OF s'(2), of 0] by (simp add: last_col_def word_unat_eq_iff)
  then have L: "\<forall>i < nblock ?s. block_col one_symbol i = unat (bwt_byte s' i)" using n(1) O(2) by simp
  from bwt_round_trip [OF _ r s'(1) O(1) _ _ _ _ _ L] show ?thesis using n(1,3) o O s'(1) by auto
qed

text \<open>C40: When the suffix array cannot be had, \<open>sais_bwt\<close> leaves \<open>origPtr\<close> as it is, and the check in \<open>BZ2_blockSort\<close> tests the value of the block
  before: it fails only if that was -1. Otherwise the unsorted state goes on as if it were sorted.\<close>

theorem BZ2_blockSort_without_suffix_array:
  assumes "10000 \<le> nblock s" "libsais h (block_list s @ block_list s) = None"
  shows "BZ2_blockSort h (s, None) = Some (s, if eorigPtr s = -1 then Some 1003 else None)"
  using assms by (simp add: BZ2_blockSort_def sais_bwt_def Let_def AssertH_def)

theorem BZ2_blockSort_without_suffix_array_witness:
  "BZ2_blockSort (plain_host\<lparr>libsais := (\<lambda>_. None)\<rparr>) (estate_zero\<lparr>nblock := 10000, eorigPtr := 5\<rparr>, None) =
    Some (estate_zero\<lparr>nblock := 10000, eorigPtr := 5\<rparr>, None)"
  using BZ2_blockSort_without_suffix_array [of "estate_zero\<lparr>nblock := 10000, eorigPtr := 5\<rparr>" "plain_host\<lparr>libsais := (\<lambda>_. None)\<rparr>"] by simp

section \<open>The memory of the small mode\<close>

text \<open>The 20-bit cells of the small mode, kept as 16 bits and a nibble, hold what is stored: a store at one index is read back there and changes no other
  cell, the one in the same byte of nibbles included.\<close>

theorem ll_cells_round_trip:
  assumes "n < 2 ^ 20"
  shows "GET_LL j (SET_LL i n l) = (if j = i then n else GET_LL j l)"
proof (rule GET_SET_LL)
  show "take_bit 20 n = n" using assms by (simp add: word_less_nat_alt take_bit_eq_mod word_arith_nat_mod unat_arith_simps)
qed

theorem ll_cells_round_trip_witness:
  "GET_LL 5 (SET_LL 4 0xABCDE (SET_LL 5 0x12345 (\<lambda>_. 0, \<lambda>_. 0))) = 0x12345"
  using ll_cells_round_trip [of "0xABCDE" 5 4 "SET_LL 5 0x12345 (\<lambda>_. 0, \<lambda>_. 0)"] ll_cells_round_trip [of "0x12345" 5 5 "(\<lambda>_. 0, \<lambda>_. 0)"] by simp

end
