(* ===== verification/BuffToBuff.thy ===== *)
theory BuffToBuff
  imports CompressCall DecompressApi
begin

text \<open>
  The one-shot calls of \<^verbatim>\<open>src/bzlib.c\<close>, \<open>BZ2_bzBuffToBuffCompress\<close> and \<open>BZ2_bzBuffToBuffDecompress\<close>. The local \<open>bz_stream\<close> holds
  arbitrary values at first (\<open>strm\<close>), as does the memory for the state (\<open>junk\<close>); its address is \<open>a\<close>. \<open>dest\<close> is \<open>False\<close> for \<open>NULL\<close>; \<open>destLen\<close> and
  \<open>source\<close> are \<open>None\<close> for \<open>NULL\<close>, and \<open>sourceLen\<close> is the length of \<open>source\<close>. The result is the code, the bytes written to
  \<open>dest\<close>, \<open>*destLen\<close>, and the memory given back.
\<close>

section \<open>The calls\<close>

record 'm one_shot =
  o_dest :: "u8 list"
  o_destLen :: "nat option"
  o_freed :: "'m list"

definition nothing_done :: "nat option \<Rightarrow> 'm list \<Rightarrow> 'm one_shot" where
  "nothing_done destLen freed = \<lparr>o_dest = [], o_destLen = destLen, o_freed = freed\<rparr>"

definition BZ2_bzBuffToBuffCompress ::
  "host \<Rightarrow> estate \<Rightarrow> nat \<Rightarrow> bz_stream \<Rightarrow> bool \<Rightarrow> nat option \<Rightarrow> u8 list option \<Rightarrow> int \<Rightarrow> int \<Rightarrow> int \<Rightarrow> cblock one_shot api option" where
  "BZ2_bzBuffToBuffCompress m junk a strm dest destLen source size100k verb wFactor =
     (case (destLen, source) of
        (Some room, Some src) \<Rightarrow>
          if \<not> dest \<or> size100k < 1 \<or> size100k > 9 \<or> verb < 0 \<or> verb > 4 \<or> wFactor < 0 \<or> wFactor > 250
          then Some (Ret BZ_PARAM_ERROR (nothing_done destLen []))
          else
            let wFactor = (if wFactor = 0 then 30 else wFactor);
                (ret, freed, h) = BZ2_bzCompressInit junk (Some \<lparr>c_addr = a, c_strm = strm, c_state = None\<rparr>) size100k verb wFactor
            in if ret \<noteq> BZ_OK then Some (Ret ret (nothing_done destLen freed))
               else
                 let h = the h; h = h\<lparr>c_strm := (c_strm h)\<lparr>in_buf := src, next_in := 0, out_buf := [], avail_in := length src, avail_out := room\<rparr>\<rparr>
                 in (case BZ2_bzCompress m (Some h) BZ_FINISH of
                       None \<Rightarrow> None
                     | Some (Abort n) \<Rightarrow> Some (Abort n)
                     | Some (Ret ret h) \<Rightarrow>
                         let strm = c_strm (the h); (_, freed, _) = BZ2_bzCompressEnd h;
                             code = (if ret = BZ_FINISH_OK then BZ_OUTBUFF_FULL else if ret \<noteq> BZ_STREAM_END then ret else BZ_OK)
                         in Some (Ret code \<lparr>o_dest = out_buf strm,
                              o_destLen = (if ret = BZ_STREAM_END then Some (room - avail_out strm) else destLen), o_freed = freed\<rparr>))
      | _ \<Rightarrow> Some (Ret BZ_PARAM_ERROR (nothing_done destLen [])))"

definition BZ2_bzBuffToBuffDecompress ::
  "cpu \<Rightarrow> dstate \<Rightarrow> nat \<Rightarrow> bz_stream \<Rightarrow> bool \<Rightarrow> nat option \<Rightarrow> u8 list option \<Rightarrow> int \<Rightarrow> int \<Rightarrow> dblock one_shot api option" where
  "BZ2_bzBuffToBuffDecompress m junk a strm dest destLen source small verb =
     (case (destLen, source) of
        (Some room, Some src) \<Rightarrow>
          if \<not> dest \<or> (small \<noteq> 0 \<and> small \<noteq> 1) \<or> verb < 0 \<or> verb > 4
          then Some (Ret BZ_PARAM_ERROR (nothing_done destLen []))
          else
            let (ret, h) = BZ2_bzDecompressInit junk (Some \<lparr>h_addr = a, h_strm = strm, h_state = None\<rparr>) verb small
            in if ret \<noteq> BZ_OK then Some (Ret ret (nothing_done destLen []))
               else
                 let h = the h; h = h\<lparr>h_strm := (h_strm h)\<lparr>in_buf := src, next_in := 0, out_buf := [], avail_in := length src, avail_out := room\<rparr>\<rparr>
                 in (case BZ2_bzDecompress m (Some h) of
                       None \<Rightarrow> None
                     | Some (Abort n) \<Rightarrow> Some (Abort n)
                     | Some (Ret ret h) \<Rightarrow>
                         let strm = h_strm (the h); (_, freed, _) = BZ2_bzDecompressEnd h;
                             code = (if ret = BZ_OK then (if avail_out strm > 0 then BZ_UNEXPECTED_EOF else BZ_OUTBUFF_FULL)
                                     else if ret \<noteq> BZ_STREAM_END then ret else BZ_OK)
                         in Some (Ret code \<lparr>o_dest = out_buf strm,
                              o_destLen = (if ret = BZ_STREAM_END then Some (room - avail_out strm) else destLen), o_freed = freed\<rparr>))
      | _ \<Rightarrow> Some (Ret BZ_PARAM_ERROR (nothing_done destLen [])))"

section \<open>Compression\<close>

lemma whole_buffer: "next_in t = 0 \<Longrightarrow> avail_in t = length (in_buf t) \<Longrightarrow> in_bytes t = in_buf t \<and> in_ok t \<and> src_ok t"
  by (auto simp: src_ok_def in_bytes_def in_byte_def in_ok_def intro!: nth_equalityI)

lemma BuffToBuffCompress_ok:
  assumes h: "host_ok m" and k: "1 \<le> k" "k \<le> 9" and a: "0 \<le> verb" "verb \<le> 4" "0 \<le> fac" "fac \<le> 250" and al: "\<forall>i < 4. alloc_ok strm i"
  shows "\<exists>r out. BZ2_bzBuffToBuffCompress m junk a strm True (Some room) (Some src) (int k) verb fac =
      Some (Ret r \<lparr>o_dest = out, o_destLen = Some (if r = BZ_OK then length out else room), o_freed = [Arr1, Arr2, Ftab, EStateBlock]\<rparr>) \<and>
    length out \<le> room \<and>
    (r = BZ_OK \<and> whole_stream k src out \<or> r = BZ_OUTBUFF_FULL \<and> length out = room \<or> r = BZ_SEQUENCE_ERROR \<and> room = 0)"
proof -
  let ?fac = "if fac = 0 then 30 else fac" and ?h = "\<lparr>c_addr = a, c_strm = strm, c_state = None\<rparr>"
  have w: "0 \<le> ?fac" "?fac \<le> 250" using a by simp_all
  obtain h' where I: "BZ2_bzCompressInit junk (Some ?h) (int k) verb ?fac = (BZ_OK, [], Some h')" "c_addr h' = a" "chandle_ok k [] [] h'"
    using BZ2_bzCompressInit_ok [OF _ _ w, of "int k" junk ?h verb] k al by (auto simp: given_back_def split: if_splits)
  let ?t = "(c_strm h')\<lparr>in_buf := src, next_in := 0, out_buf := [], avail_in := length src, avail_out := room\<rparr>"
  obtain s where s: "c_state h' = Some (a, s)" "comp_inv k [] [] s" "emode s = BZ_M_RUNNING"
    using Init_running [OF I(1)] I(2) by auto
  have i: "src_ok ?t" "in_bytes ?t = src" "out_buf ?t = []" "avail_out ?t = room"
    using whole_buffer [of ?t] by simp_all
  obtain r w bs s' where C: "compress_switch m BZ_FINISH (s\<lparr>estrm := ?t\<rparr>) = Some (Ret r s')" "io_step w bs (s\<lparr>estrm := ?t\<rparr>) s'"
    "r = BZ_STREAM_END \<and> avail_in (estrm s') = 0 \<and> whole_stream k ([] @ w) bs \<or>
     r = BZ_FINISH_OK \<and> avail_out (estrm s') = 0 \<and> w @ bs \<noteq> [] \<or> r = BZ_SEQUENCE_ERROR \<and> avail_out ?t = 0 \<and> w @ bs = []"
    using finish_call [OF h, of k "[]" "[]" "s\<lparr>estrm := ?t\<rparr>"] s i(1) by (auto simp: can_finish_def)
  have out: "out_buf (estrm s') = bs" "room = avail_out (estrm s') + length bs" "src = w @ in_bytes (estrm s')"
    using C(2) i by (auto simp: io_step_def)
  let ?r = "if r = BZ_FINISH_OK then BZ_OUTBUFF_FULL else if r \<noteq> BZ_STREAM_END then r else BZ_OK"
  have B: "BZ2_bzCompress m (Some (h'\<lparr>c_strm := ?t\<rparr>)) BZ_FINISH = Some (Ret r (Some (h'\<lparr>c_strm := estrm s', c_state := Some (a, s')\<rparr>)))"
    using C(1) I(2) s(1) by (simp add: BZ2_bzCompress_def)
  have e: "BZ2_bzBuffToBuffCompress m junk a strm True (Some room) (Some src) (int k) verb fac =
      Some (Ret ?r \<lparr>o_dest = bs, o_destLen = (if r = BZ_STREAM_END then Some (room - avail_out (estrm s')) else Some room),
        o_freed = [Arr1, Arr2, Ftab, EStateBlock]\<rparr>)"
    using k a I(1,2) B out(1) by (simp add: BZ2_bzBuffToBuffCompress_def BZ2_bzCompressEnd_def Let_def)
  have x: "w = src" if "avail_in (estrm s') = 0" using out(3) that by (simp add: in_bytes_def)
  from C(3) show ?thesis
  proof (elim disjE conjE)
    assume "r = BZ_STREAM_END" "avail_in (estrm s') = 0" "whole_stream k ([] @ w) bs"
    then show ?thesis using e out(2) x by (intro exI [of _ BZ_OK] exI [of _ bs]) simp
  next
    assume "r = BZ_FINISH_OK" "avail_out (estrm s') = 0"
    then show ?thesis using e out(2) by (intro exI [of _ BZ_OUTBUFF_FULL] exI [of _ bs]) simp
  next
    assume "r = BZ_SEQUENCE_ERROR" "avail_out ?t = 0" "w @ bs = []"
    then show ?thesis using e out(2) i(4) by (intro exI [of _ BZ_SEQUENCE_ERROR] exI [of _ bs]) simp
  qed
qed

section \<open>Decompression\<close>

lemma Decompress_owner:
  "BZ2_bzDecompressInit junk (Some h) verb small = (BZ_OK, Some k) \<Longrightarrow> \<exists>s. h_state k = Some (h_addr k, s) \<and> h_addr k = h_addr h"
  by (auto simp: BZ2_bzDecompressInit_def Let_def split: if_splits prod.splits)

lemma handle_call:
  assumes "handle_ok h" "h_state h \<noteq> None"
  shows "\<exists>r k s. BZ2_bzDecompress m (Some h) = Some (Ret r (Some k)) \<and> h_state k = Some (h_addr k, s) \<and> h_strm k = dstrm s \<and>
    gave (h_strm h) (h_strm k)"
  using BZ2_bzDecompress_handle [OF assms, of m] by metis

lemma handle_ok_strm: "handle_ok h \<Longrightarrow> in_ok strm \<Longrightarrow> avail_out strm < 2 ^ 32 \<Longrightarrow> handle_ok (h\<lparr>h_strm := strm\<rparr>)"
  by (auto simp: handle_ok_def split: option.splits)

text \<open>The one-shot decompressor always returns what the call of \<open>BZ2_bzDecompress\<close> in it gives, and gives back the blocks the state holds then.\<close>

abbreviation whole_source :: "u8 list \<Rightarrow> nat \<Rightarrow> dhandle \<Rightarrow> dhandle" where
  "whole_source src room h \<equiv> h\<lparr>h_strm := (h_strm h)\<lparr>in_buf := src, next_in := 0, out_buf := [], avail_in := length src, avail_out := room\<rparr>\<rparr>"

definition one_shot_code :: "int \<Rightarrow> nat \<Rightarrow> int" where
  "one_shot_code r left = (if r = BZ_STREAM_END then BZ_OK else if r = BZ_OK then if left = 0 then BZ_OUTBUFF_FULL else BZ_UNEXPECTED_EOF else r)"

lemma BuffToBuffDecompress_ok:
  assumes a: "small \<in> {0, 1}" "0 \<le> verb" "verb \<le> 4" "fst (bz_alloc strm)" and i: "in_ok strm" "avail_out strm < 2 ^ 32" "room < 2 ^ 32"
  shows "\<exists>h r k s. BZ2_bzDecompressInit junk (Some \<lparr>h_addr = a, h_strm = strm, h_state = None\<rparr>) verb small = (BZ_OK, Some h) \<and>
    BZ2_bzDecompress m (Some (whole_source src room h)) = Some (Ret r (Some k)) \<and> h_state k = Some (h_addr k, s) \<and>
    length (out_buf (h_strm k)) + avail_out (h_strm k) = room \<and>
    BZ2_bzBuffToBuffDecompress m junk a strm True (Some room) (Some src) small verb =
      Some (Ret (one_shot_code r (avail_out (h_strm k))) \<lparr>o_dest = out_buf (h_strm k),
        o_destLen = Some (if r = BZ_STREAM_END then length (out_buf (h_strm k)) else room), o_freed = held_blocks s\<rparr>)"
proof -
  have g: "small = 0 \<or> small = 1" "\<not> verb < 0" "\<not> 4 < verb" using a by auto
  let ?h = "\<lparr>h_addr = a, h_strm = strm, h_state = None\<rparr>"
  obtain r0 h' where I: "BZ2_bzDecompressInit junk (Some ?h) verb small = (r0, h')" by fastforce
  have r0: "r0 = BZ_OK" using BZ2_bzDecompressInit_ok(1) [OF I] a by auto
  obtain k where k: "h' = Some k" "handle_ok k" "h_state k \<noteq> None" using BZ2_bzDecompressInit_ok(2) [OF I r0] i by auto
  let ?t = "h_strm (whole_source src room k)"
  have t: "in_ok ?t" "avail_out ?t < 2 ^ 32" using whole_buffer [of ?t] i by simp_all
  have K: "handle_ok (whole_source src room k)" by (rule handle_ok_strm [OF k(2)]) (use t in simp_all)
  have n: "h_state (whole_source src room k) \<noteq> None" using k(3) by simp
  obtain r k' s where D: "BZ2_bzDecompress m (Some (whole_source src room k)) = Some (Ret r (Some k'))" "h_state k' = Some (h_addr k', s)"
      "h_strm k' = dstrm s" "gave ?t (h_strm k')"
    using handle_call [OF K n, of m] by auto
  have l: "length (out_buf (dstrm s)) + avail_out (dstrm s) = room" using D(3,4) by (auto simp: gave_def)
  have "BZ2_bzBuffToBuffDecompress m junk a strm True (Some room) (Some src) small verb =
      Some (Ret (one_shot_code r (avail_out (dstrm s))) \<lparr>o_dest = out_buf (dstrm s),
        o_destLen = Some (if r = BZ_STREAM_END then room - avail_out (dstrm s) else room), o_freed = held_blocks s\<rparr>)"
    using g(1) by (rule disjE) (use g(2,3) I r0 k(1) D in
      \<open>simp_all add: BZ2_bzBuffToBuffDecompress_def BZ2_bzDecompressEnd_def Let_def one_shot_code_def held_blocks_eq\<close>)
  moreover have "room - avail_out (dstrm s) = length (out_buf (dstrm s))" using l by simp
  ultimately show ?thesis using I r0 k(1) D(1,2,3) l by auto
qed

end
