(* ===== verification/FileApi.thy ===== *)
theory FileApi
  imports BuffToBuff
begin

text \<open>
  The stdio interface of \<^verbatim>\<open>src/bzlib.c\<close>: \<open>bzFile\<close>, the calls to write and read compressed files and the functions in the style of zlib.
  A \<open>FILE\<close> is the bytes still to be read from it and those written to it, with its error indicator; what the device will do is part of it: the
  room that is left, whether reading past the end is an error, whether \<open>fflush\<close> succeeds. The \<open>bz_stream\<close> of a \<open>bzFile\<close> belongs to a compressor
  (\<open>wh\<close>) or to a decompressor (\<open>rh\<close>), as \<open>writing\<close> says; \<open>buf\<close> is its input when reading, and the output of one call when writing.
  A call gives the value of \<open>*bzerror\<close> with the \<open>bzFile\<close>; \<open>bzerror = NULL\<close> only loses that value.
\<close>

section \<open>Files\<close>

record cfile =
  f_in :: "u8 list"
  f_out :: "u8 list"
  f_err :: bool
  f_room :: nat
  f_bad_end :: bool
  f_flush :: bool
  f_std :: bool

definition fgetc :: "cfile \<Rightarrow> u8 option \<times> cfile" where
  "fgetc f = (case f_in f of [] \<Rightarrow> (None, f\<lparr>f_err := f_err f \<or> f_bad_end f\<rparr>) | c # cs \<Rightarrow> (Some c, f\<lparr>f_in := cs\<rparr>))"

definition ungetc :: "u8 \<Rightarrow> cfile \<Rightarrow> cfile" where
  "ungetc c f = f\<lparr>f_in := c # f_in f\<rparr>"

definition fread :: "nat \<Rightarrow> cfile \<Rightarrow> u8 list \<times> cfile" where
  "fread n f = (take n (f_in f), f\<lparr>f_in := drop n (f_in f), f_err := f_err f \<or> (length (f_in f) < n \<and> f_bad_end f)\<rparr>)"

definition fwrite :: "u8 list \<Rightarrow> cfile \<Rightarrow> nat \<times> cfile" where
  "fwrite bs f = (let n = min (length bs) (f_room f)
     in (n, f\<lparr>f_out := f_out f @ take n bs, f_room := f_room f - n, f_err := f_err f \<or> n < length bs\<rparr>))"

definition fflush :: "cfile \<Rightarrow> cfile" where
  "fflush f = f\<lparr>f_err := f_err f \<or> \<not> f_flush f\<rparr>"

section \<open>The state\<close>

abbreviation (input) BZ_MAX_UNUSED :: nat where "BZ_MAX_UNUSED \<equiv> 5000"

record bzfile =
  handle :: cfile
  buf :: "u8 list"
  bufN :: nat
  writing :: bool
  wh :: chandle
  rh :: dhandle
  lastErr :: int
  initialisedOk :: bool

definition BZ_SETERR :: "int \<Rightarrow> bzfile \<Rightarrow> bzfile" where
  "BZ_SETERR eee b = b\<lparr>lastErr := eee\<rparr>"

definition myfeof :: "cfile \<Rightarrow> bool \<times> cfile" where
  "myfeof f = (case fgetc f of (None, f) \<Rightarrow> (True, f) | (Some c, f) \<Rightarrow> (False, ungetc c f))"

section \<open>Writing\<close>

text \<open>\<open>ok\<close>: the outcome of the \<open>malloc\<close>; \<open>b0\<close> and \<open>junk\<close> are what the memory held.\<close>

definition BZ2_bzWriteOpen :: "bool \<Rightarrow> bzfile \<Rightarrow> estate \<Rightarrow> cfile option \<Rightarrow> int \<Rightarrow> int \<Rightarrow> int \<Rightarrow> int \<times> bzfile option" where
  "BZ2_bzWriteOpen ok b0 junk f size100k verb wFactor =
     (case f of
        None \<Rightarrow> (BZ_PARAM_ERROR, None)
      | Some f \<Rightarrow>
          if size100k < 1 \<or> size100k > 9 \<or> wFactor < 0 \<or> wFactor > 250 \<or> verb < 0 \<or> verb > 4 then (BZ_PARAM_ERROR, None)
          else if f_err f then (BZ_IO_ERROR, None)
          else if \<not> ok then (BZ_MEM_ERROR, None)
          else
            let b = (BZ_SETERR BZ_OK b0)\<lparr>initialisedOk := False, bufN := 0, handle := f, writing := True\<rparr>;
                wFactor = (if wFactor = 0 then 30 else wFactor);
                (ret, _, h) = BZ2_bzCompressInit junk (Some (wh b)) size100k verb wFactor
            in if ret \<noteq> BZ_OK then (ret, None)
               else
                 let h = the h
                 in (BZ_OK, Some (b\<lparr>wh := h\<lparr>c_strm := (c_strm h)\<lparr>avail_in := 0\<rparr>\<rparr>, initialisedOk := True\<rparr>)))"

text \<open>One call of the compressor with the buffer of the \<open>bzFile\<close> as output.\<close>

definition compress_to_buf :: "host \<Rightarrow> int \<Rightarrow> bzfile \<Rightarrow> bzfile api option" where
  "compress_to_buf m action b =
     (let h = wh b
      in case BZ2_bzCompress m (Some (h\<lparr>c_strm := (c_strm h)\<lparr>avail_out := BZ_MAX_UNUSED, out_buf := []\<rparr>\<rparr>)) action of
           None \<Rightarrow> None
         | Some (Abort n) \<Rightarrow> Some (Abort n)
         | Some (Ret ret h) \<Rightarrow> Some (Ret ret (b\<lparr>wh := the h, buf := out_buf (c_strm (the h))\<rparr>)))"

text \<open>Writing out the buffer: \<open>False\<close> if that fails.\<close>

definition write_buf :: "bzfile \<Rightarrow> bool \<times> bzfile" where
  "write_buf b =
     (if avail_out (c_strm (wh b)) < BZ_MAX_UNUSED then
        let n = BZ_MAX_UNUSED - avail_out (c_strm (wh b)); (n2, f) = fwrite (take n (buf b)) (handle b)
        in (n = n2 \<and> \<not> f_err f, b\<lparr>handle := f\<rparr>)
      else (True, b))"

partial_function (option) bzWrite_loop :: "host \<Rightarrow> bzfile \<Rightarrow> bzfile api option" where
  "bzWrite_loop m b =
     (case compress_to_buf m BZ_RUN b of
        None \<Rightarrow> None
      | Some (Abort n) \<Rightarrow> Some (Abort n)
      | Some (Ret ret b) \<Rightarrow>
          if ret \<noteq> BZ_RUN_OK then Some (Ret ret (BZ_SETERR ret b))
          else case write_buf b of
            (ok, b) \<Rightarrow>
              if \<not> ok then Some (Ret BZ_IO_ERROR (BZ_SETERR BZ_IO_ERROR b))
              else if avail_in (c_strm (wh b)) = 0 then Some (Ret BZ_OK (BZ_SETERR BZ_OK b))
              else bzWrite_loop m b)"

text \<open>\<open>data\<close> are the bytes at \<open>buf\<close>, \<open>len\<close> of which are to be written.\<close>

definition BZ2_bzWrite :: "host \<Rightarrow> bzfile option \<Rightarrow> u8 list option \<Rightarrow> int \<Rightarrow> bzfile option api option" where
  "BZ2_bzWrite m b data len =
     (case b of
        None \<Rightarrow> Some (Ret BZ_PARAM_ERROR None)
      | Some b \<Rightarrow>
          let b = BZ_SETERR BZ_OK b
          in (case data of
                None \<Rightarrow> Some (Ret BZ_PARAM_ERROR (Some (BZ_SETERR BZ_PARAM_ERROR b)))
              | Some bs \<Rightarrow>
                  if len < 0 then Some (Ret BZ_PARAM_ERROR (Some (BZ_SETERR BZ_PARAM_ERROR b)))
                  else if \<not> writing b then Some (Ret BZ_SEQUENCE_ERROR (Some (BZ_SETERR BZ_SEQUENCE_ERROR b)))
                  else if f_err (handle b) then Some (Ret BZ_IO_ERROR (Some (BZ_SETERR BZ_IO_ERROR b)))
                  else if len = 0 then Some (Ret BZ_OK (Some (BZ_SETERR BZ_OK b)))
                  else
                    let h = wh b; strm = (c_strm h)\<lparr>avail_in := nat len, in_buf := bs, next_in := 0\<rparr>
                    in (case bzWrite_loop m (b\<lparr>wh := h\<lparr>c_strm := strm\<rparr>\<rparr>) of
                          None \<Rightarrow> None
                        | Some (Abort n) \<Rightarrow> Some (Abort n)
                        | Some (Ret r b) \<Rightarrow> Some (Ret r (Some b)))))"

text \<open>The loop of \<open>BZ2_bzWriteClose64\<close>: \<open>True\<close> at its \<open>break\<close>, \<open>False\<close> where the call returns.\<close>

partial_function (option) finish_loop :: "host \<Rightarrow> bzfile \<Rightarrow> (bool \<times> bzfile) api option" where
  "finish_loop m b =
     (case compress_to_buf m BZ_FINISH b of
        None \<Rightarrow> None
      | Some (Abort n) \<Rightarrow> Some (Abort n)
      | Some (Ret ret b) \<Rightarrow>
          if ret \<noteq> BZ_FINISH_OK \<and> ret \<noteq> BZ_STREAM_END then Some (Ret ret (False, BZ_SETERR ret b))
          else case write_buf b of
            (ok, b) \<Rightarrow>
              if \<not> ok then Some (Ret BZ_IO_ERROR (False, BZ_SETERR BZ_IO_ERROR b))
              else if ret = BZ_STREAM_END then Some (Ret ret (True, b))
              else finish_loop m b)"

declare bzWrite_loop.simps [code] finish_loop.simps [code]

text \<open>The \<open>bzFile\<close> is kept, with its \<open>FILE\<close>, or its memory is given back and the \<open>FILE\<close> is the caller's.\<close>

datatype 'm closing = Kept bzfile | Released cfile "'m list"

type_synonym totals = "u32 \<times> u32 \<times> u32 \<times> u32"

text \<open>The end of \<open>BZ2_bzWriteClose64\<close>: the totals, and the memory.\<close>

definition release_writer :: "bzfile \<Rightarrow> totals \<times> cblock closing" where
  "release_writer b =
     (let strm = c_strm (wh b); (_, freed, _) = BZ2_bzCompressEnd (Some (wh b))
      in ((total_in_lo32 strm, total_in_hi32 strm, total_out_lo32 strm, total_out_hi32 strm), Released (handle b) freed))"

text \<open>The totals are \<open>None\<close> when the counters of the caller are left alone.\<close>

definition BZ2_bzWriteClose64 :: "host \<Rightarrow> bzfile option \<Rightarrow> bool \<Rightarrow> (totals option \<times> cblock closing option) api option" where
  "BZ2_bzWriteClose64 m b abandon =
     (case b of
        None \<Rightarrow> Some (Ret BZ_OK (None, None))
      | Some b \<Rightarrow>
          if \<not> writing b then Some (Ret BZ_SEQUENCE_ERROR (None, Some (Kept (BZ_SETERR BZ_SEQUENCE_ERROR b))))
          else if f_err (handle b) then Some (Ret BZ_IO_ERROR (None, Some (Kept (BZ_SETERR BZ_IO_ERROR b))))
          else
            case (if \<not> abandon \<and> lastErr b = BZ_OK then finish_loop m b else Some (Ret BZ_OK (True, b))) of
              None \<Rightarrow> None
            | Some (Abort n) \<Rightarrow> Some (Abort n)
            | Some (Ret r (done, b)) \<Rightarrow>
                if \<not> done then Some (Ret r (Some (0, 0, 0, 0), Some (Kept b)))
                else
                  let flush = (\<not> abandon \<and> \<not> f_err (handle b));
                      b = (if flush then b\<lparr>handle := fflush (handle b)\<rparr> else b)
                  in if flush \<and> f_err (handle b)
                     then Some (Ret BZ_IO_ERROR (Some (0, 0, 0, 0), Some (Kept (BZ_SETERR BZ_IO_ERROR b))))
                     else (case release_writer (BZ_SETERR BZ_OK b) of (t, c) \<Rightarrow> Some (Ret BZ_OK (Some t, Some c))))"

definition BZ2_bzWriteClose :: "host \<Rightarrow> bzfile option \<Rightarrow> bool \<Rightarrow> ((u32 \<times> u32) option \<times> cblock closing option) api option" where
  "BZ2_bzWriteClose m b abandon =
     (case BZ2_bzWriteClose64 m b abandon of
        None \<Rightarrow> None
      | Some (Abort n) \<Rightarrow> Some (Abort n)
      | Some (Ret r (t, c)) \<Rightarrow> Some (Ret r (map_option (\<lambda>(in_lo, in_hi, out_lo, out_hi). (in_lo, out_lo)) t, c)))"

section \<open>Reading\<close>

text \<open>\<open>unused\<close> is \<open>None\<close> for \<open>NULL\<close>; at most \<open>BZ_MAX_UNUSED\<close> bytes of it are copied to \<open>buf\<close>.\<close>

definition BZ2_bzReadOpen :: "bool \<Rightarrow> bzfile \<Rightarrow> dstate \<Rightarrow> cfile option \<Rightarrow> int \<Rightarrow> int \<Rightarrow> u8 list option \<Rightarrow> int \<Rightarrow> int \<times> bzfile option" where
  "BZ2_bzReadOpen ok b0 junk f verb small unused nUnused =
     (case f of
        None \<Rightarrow> (BZ_PARAM_ERROR, None)
      | Some f \<Rightarrow>
          if (small \<noteq> 0 \<and> small \<noteq> 1) \<or> verb < 0 \<or> verb > 4 \<or> (unused = None \<and> nUnused \<noteq> 0) \<or>
             (unused \<noteq> None \<and> (nUnused < 0 \<or> nUnused > int BZ_MAX_UNUSED)) then (BZ_PARAM_ERROR, None)
          else if f_err f then (BZ_IO_ERROR, None)
          else if \<not> ok then (BZ_MEM_ERROR, None)
          else
            let bs = (case unused of None \<Rightarrow> [] | Some bs \<Rightarrow> take (nat nUnused) bs);
                b = (BZ_SETERR BZ_OK b0)\<lparr>initialisedOk := False, handle := f, buf := bs, bufN := length bs, writing := False\<rparr>;
                (ret, h) = BZ2_bzDecompressInit junk (Some (rh b)) verb small
            in if ret \<noteq> BZ_OK then (ret, None)
               else
                 let h = the h; strm = (h_strm h)\<lparr>avail_in := bufN b, in_buf := buf b, next_in := 0\<rparr>
                 in (BZ_OK, Some (b\<lparr>rh := h\<lparr>h_strm := strm\<rparr>, initialisedOk := True\<rparr>)))"

definition BZ2_bzReadClose :: "bzfile option \<Rightarrow> int \<times> dblock closing option" where
  "BZ2_bzReadClose b =
     (case b of
        None \<Rightarrow> (BZ_OK, None)
      | Some b \<Rightarrow>
          let b = BZ_SETERR BZ_OK b
          in if writing b then (BZ_SEQUENCE_ERROR, Some (Kept (BZ_SETERR BZ_SEQUENCE_ERROR b)))
             else
               let freed = (if initialisedOk b then fst (snd (BZ2_bzDecompressEnd (Some (rh b)))) else [])
               in (BZ_OK, Some (Released (handle b) freed)))"

text \<open>The input of the decompressor is filled up if there is none left: \<open>False\<close> after a read error.\<close>

definition fill_buf :: "bzfile \<Rightarrow> bool \<times> bzfile" where
  "fill_buf b =
     (if avail_in (h_strm (rh b)) = 0 then
        (case myfeof (handle b) of
           (True, f) \<Rightarrow> (True, b\<lparr>handle := f\<rparr>)
         | (False, f) \<Rightarrow>
             (case fread BZ_MAX_UNUSED f of
                (bs, f) \<Rightarrow>
                  let b = b\<lparr>handle := f, buf := bs\<rparr>
                  in if f_err f then (False, b)
                     else
                       let h = rh b; strm = (h_strm h)\<lparr>avail_in := length bs, in_buf := bs, next_in := 0\<rparr>
                       in (True, b\<lparr>bufN := length bs, rh := h\<lparr>h_strm := strm\<rparr>\<rparr>)))
      else (True, b))"

text \<open>The test for a file that ends too early; \<open>myfeof\<close> is called after \<open>BZ_OK\<close> only.\<close>

definition ends_early :: "int \<Rightarrow> bzfile \<Rightarrow> bool \<times> bzfile" where
  "ends_early ret b =
     (if ret = BZ_OK then
        (case myfeof (handle b) of
           (e, f) \<Rightarrow> (e \<and> avail_in (h_strm (rh b)) = 0 \<and> avail_out (h_strm (rh b)) > 0, b\<lparr>handle := f\<rparr>))
      else (False, b))"

partial_function (option) bzRead_loop :: "cpu \<Rightarrow> int \<Rightarrow> bzfile \<Rightarrow> (int \<times> bzfile) api option" where
  "bzRead_loop m len b =
     (if f_err (handle b) then Some (Ret BZ_IO_ERROR (0, BZ_SETERR BZ_IO_ERROR b))
      else case fill_buf b of
        (ok, b) \<Rightarrow>
          if \<not> ok then Some (Ret BZ_IO_ERROR (0, BZ_SETERR BZ_IO_ERROR b))
          else case BZ2_bzDecompress m (Some (rh b)) of
            None \<Rightarrow> None
          | Some (Abort n) \<Rightarrow> Some (Abort n)
          | Some (Ret ret h) \<Rightarrow>
              let b = b\<lparr>rh := the h\<rparr>
              in if ret \<noteq> BZ_OK \<and> ret \<noteq> BZ_STREAM_END then Some (Ret ret (0, BZ_SETERR ret b))
                 else case ends_early ret b of
                   (early, b) \<Rightarrow>
                     if early then Some (Ret BZ_UNEXPECTED_EOF (0, BZ_SETERR BZ_UNEXPECTED_EOF b))
                     else if ret = BZ_STREAM_END then Some (Ret BZ_STREAM_END (len - int (avail_out (h_strm (rh b))), BZ_SETERR BZ_STREAM_END b))
                     else if avail_out (h_strm (rh b)) = 0 then Some (Ret BZ_OK (len, BZ_SETERR BZ_OK b))
                     else bzRead_loop m len b)"

declare bzRead_loop.simps [code]

text \<open>\<open>dst_buf\<close> is \<open>False\<close> for a \<open>NULL\<close> buffer; what is read is in \<open>out_buf\<close> of the stream, and the number of bytes is part of the result.\<close>

definition BZ2_bzRead :: "cpu \<Rightarrow> bzfile option \<Rightarrow> bool \<Rightarrow> int \<Rightarrow> (int \<times> bzfile option) api option" where
  "BZ2_bzRead m b dst_buf len =
     (case b of
        None \<Rightarrow> Some (Ret BZ_PARAM_ERROR (0, None))
      | Some b \<Rightarrow>
          let b = BZ_SETERR BZ_OK b
          in if \<not> dst_buf \<or> len < 0 then Some (Ret BZ_PARAM_ERROR (0, Some (BZ_SETERR BZ_PARAM_ERROR b)))
             else if writing b then Some (Ret BZ_SEQUENCE_ERROR (0, Some (BZ_SETERR BZ_SEQUENCE_ERROR b)))
             else if len = 0 then Some (Ret BZ_OK (0, Some (BZ_SETERR BZ_OK b)))
             else
               let h = rh b; strm = (h_strm h)\<lparr>avail_out := nat len, out_buf := []\<rparr>
               in (case bzRead_loop m len (b\<lparr>rh := h\<lparr>h_strm := strm\<rparr>\<rparr>) of
                     None \<Rightarrow> None
                   | Some (Abort n) \<Rightarrow> Some (Abort n)
                   | Some (Ret r (n, b)) \<Rightarrow> Some (Ret r (n, Some b))))"

text \<open>\<open>given\<close>: neither \<open>unused\<close> nor \<open>nUnused\<close> is \<open>NULL\<close>. The bytes are those of \<open>*unused\<close>, \<open>*nUnused\<close> of them.\<close>

definition BZ2_bzReadGetUnused :: "bzfile option \<Rightarrow> bool \<Rightarrow> int \<times> bzfile option \<times> u8 list option" where
  "BZ2_bzReadGetUnused b given =
     (case b of
        None \<Rightarrow> (BZ_PARAM_ERROR, None, None)
      | Some b \<Rightarrow>
          if lastErr b \<noteq> BZ_STREAM_END then (BZ_SEQUENCE_ERROR, Some (BZ_SETERR BZ_SEQUENCE_ERROR b), None)
          else if \<not> given then (BZ_PARAM_ERROR, Some (BZ_SETERR BZ_PARAM_ERROR b), None)
          else (BZ_OK, Some (BZ_SETERR BZ_OK b), Some (in_bytes (h_strm (rh b)))))"

section \<open>Functions in the style of zlib\<close>

text \<open>What the letters of \<open>mode\<close> say: the block size, whether to write, \<open>smallMode\<close>.\<close>

record open_mode =
  om_size :: int
  om_write :: bool
  om_small :: int

definition mode_letter :: "char \<Rightarrow> open_mode \<Rightarrow> open_mode" where
  "mode_letter c w =
     (if c = CHR ''r'' then w\<lparr>om_write := False\<rparr>
      else if c = CHR ''w'' then w\<lparr>om_write := True\<rparr>
      else if c = CHR ''s'' then w\<lparr>om_small := 1\<rparr>
      else if 48 \<le> (of_char c :: int) \<and> (of_char c :: int) \<le> 57 then w\<lparr>om_size := of_char c - 48\<rparr>
      else w)"

definition read_mode :: "string \<Rightarrow> open_mode" where
  "read_mode cs = foldl (\<lambda>w c. mode_letter c w) \<lparr>om_size = 9, om_write = False, om_small = 0\<rparr> cs"

text \<open>The files the system can open, and the two standard files.\<close>

record system =
  sys_fopen :: "string \<Rightarrow> string \<Rightarrow> cfile option"
  sys_fdopen :: "int \<Rightarrow> string \<Rightarrow> cfile option"
  sys_stdin :: cfile
  sys_stdout :: cfile

definition open_file :: "system \<Rightarrow> string option \<Rightarrow> int \<Rightarrow> bool \<Rightarrow> nat \<Rightarrow> cfile option" where
  "open_file sys name fd wr open_mode =
     (let mode2 = (if wr then ''wb'' else ''rb''); mode2 = (if open_mode = 0 then mode2 @ ''e'' else mode2)
      in if open_mode = 0 then
           (case name of
              None \<Rightarrow> Some (if wr then sys_stdout sys else sys_stdin sys)
            | Some p \<Rightarrow> if p = [] then Some (if wr then sys_stdout sys else sys_stdin sys) else sys_fopen sys p mode2)
         else sys_fdopen sys fd mode2)"

text \<open>The files that are closed: all but \<open>stdin\<close> and \<open>stdout\<close>.\<close>

definition fclose_file :: "cfile \<Rightarrow> cfile list" where
  "fclose_file f = (if f_std f then [] else [f])"

text \<open>The \<open>bzFile\<close>, if it could be opened, and the file that was closed again if it could not.\<close>

definition bzopen_or_bzdopen ::
  "system \<Rightarrow> bool \<Rightarrow> bzfile \<Rightarrow> estate \<Rightarrow> dstate \<Rightarrow> string option \<Rightarrow> int \<Rightarrow> string option \<Rightarrow> nat \<Rightarrow> bzfile option \<times> cfile list" where
  "bzopen_or_bzdopen sys ok b0 ejunk djunk name fd md open_mode =
     (case md of
        None \<Rightarrow> (None, [])
      | Some cs \<Rightarrow>
          let w = read_mode cs
          in (case open_file sys name fd (om_write w) open_mode of
                None \<Rightarrow> (None, [])
              | Some fp \<Rightarrow>
                  let size = om_size w; size = (if size < 1 then 1 else size); size = (if size > 9 then 9 else size);
                      bzfp = (if om_write w then snd (BZ2_bzWriteOpen ok b0 ejunk (Some fp) size 0 30)
                              else snd (BZ2_bzReadOpen ok b0 djunk (Some fp) 0 (om_small w) (Some []) 0))
                  in (case bzfp of None \<Rightarrow> (None, fclose_file fp) | Some b \<Rightarrow> (Some b, []))))"

definition BZ2_bzopen :: "system \<Rightarrow> bool \<Rightarrow> bzfile \<Rightarrow> estate \<Rightarrow> dstate \<Rightarrow> string option \<Rightarrow> string option \<Rightarrow> bzfile option \<times> cfile list" where
  "BZ2_bzopen sys ok b0 ejunk djunk name md = bzopen_or_bzdopen sys ok b0 ejunk djunk name (- 1) md 0"

definition BZ2_bzdopen :: "system \<Rightarrow> bool \<Rightarrow> bzfile \<Rightarrow> estate \<Rightarrow> dstate \<Rightarrow> int \<Rightarrow> string option \<Rightarrow> bzfile option \<times> cfile list" where
  "BZ2_bzdopen sys ok b0 ejunk djunk fd md = bzopen_or_bzdopen sys ok b0 ejunk djunk None fd md 1"

text \<open>The value returned is the first part of the result.\<close>

definition BZ2_bzread :: "cpu \<Rightarrow> bzfile \<Rightarrow> bool \<Rightarrow> int \<Rightarrow> bzfile api option" where
  "BZ2_bzread m b dst_buf len =
     (if lastErr b = BZ_STREAM_END then Some (Ret 0 b)
      else case BZ2_bzRead m (Some b) dst_buf len of
        None \<Rightarrow> None
      | Some (Abort n) \<Rightarrow> Some (Abort n)
      | Some (Ret bzerr (nread, b)) \<Rightarrow> Some (Ret (if bzerr = BZ_OK \<or> bzerr = BZ_STREAM_END then nread else - 1) (the b)))"

definition BZ2_bzwrite :: "host \<Rightarrow> bzfile option \<Rightarrow> u8 list option \<Rightarrow> int \<Rightarrow> bzfile option api option" where
  "BZ2_bzwrite m b data len =
     (case BZ2_bzWrite m b data len of
        None \<Rightarrow> None
      | Some (Abort n) \<Rightarrow> Some (Abort n)
      | Some (Ret bzerr b) \<Rightarrow> Some (Ret (if bzerr = BZ_OK then len else - 1) b))"

definition BZ2_bzflush :: "bzfile option \<Rightarrow> int" where
  "BZ2_bzflush b = 0"

text \<open>
  \<open>BZ2_bzclose\<close>: what became of the \<open>bzFile\<close>, and the files closed. The file of a \<open>bzFile\<close> that was kept is closed as well, through the
  copy of its pointer. The first part of the result is \<open>bzerr\<close>, which is local and lost.
\<close>

definition kept_file :: "'m closing \<Rightarrow> cfile" where
  "kept_file c = (case c of Kept b \<Rightarrow> handle b | Released f _ \<Rightarrow> f)"

definition BZ2_bzclose :: "host \<Rightarrow> bzfile option \<Rightarrow> ((cblock closing + dblock closing) option \<times> cfile list) api option" where
  "BZ2_bzclose m b =
     (case b of
        None \<Rightarrow> Some (Ret BZ_OK (None, []))
      | Some b \<Rightarrow>
          if writing b then
            (case BZ2_bzWriteClose m (Some b) False of
               None \<Rightarrow> None
             | Some (Abort n) \<Rightarrow> Some (Abort n)
             | Some (Ret bzerr (_, c)) \<Rightarrow>
                 (case (if bzerr \<noteq> BZ_OK then (case the c of Kept b \<Rightarrow> BZ2_bzWriteClose m (Some b) True | Released f fr \<Rightarrow> None)
                        else Some (Ret bzerr (None, c))) of
                    None \<Rightarrow> None
                  | Some (Abort n) \<Rightarrow> Some (Abort n)
                  | Some (Ret _ (_, c)) \<Rightarrow> Some (Ret bzerr (Some (Inl (the c)), fclose_file (kept_file (the c))))))
          else
            (case BZ2_bzReadClose (Some b) of
               (bzerr, c) \<Rightarrow> Some (Ret bzerr (Some (Inr (the c)), fclose_file (kept_file (the c))))))"

definition bzerrorstrings :: "string list" where
  "bzerrorstrings = [''OK'', ''SEQUENCE_ERROR'', ''PARAM_ERROR'', ''MEM_ERROR'', ''DATA_ERROR'', ''DATA_ERROR_MAGIC'', ''IO_ERROR'',
     ''UNEXPECTED_EOF'', ''OUTBUFF_FULL'', ''CONFIG_ERROR'', ''???'', ''???'', ''???'', ''???'', ''???'', ''???'']"

text \<open>\<open>*errnum\<close> and the string; \<open>None\<close> if the index is outside the table.\<close>

definition BZ2_bzerror :: "bzfile \<Rightarrow> int \<times> string option" where
  "BZ2_bzerror b =
     (let err = lastErr b; err = (if err > 0 then 0 else err); i = nat (err * - 1)
      in (err, if i < length bzerrorstrings then Some (bzerrorstrings ! i) else None))"

definition BZ2_bzlibVersion :: string where
  "BZ2_bzlibVersion = ''1.0.8''"

end
