(* ===== verification/OutputBound.thy ===== *)
theory OutputBound
  imports CompressCall
begin

text \<open>
  How much the compressor can give out: a block of \<open>n\<close> symbols takes at most \<open>55600 + 18 * n\<close> bits, so what has been given out is bounded by
  what has been taken in. The loops of the callers that empty the compressor into a buffer end for that reason.
\<close>

section \<open>The parts of a block\<close>

lemma length_concat_le: "(\<And>x. x \<in> set xs \<Longrightarrow> length (f x) \<le> c) \<Longrightarrow> length (concat (map f xs)) \<le> c * length xs"
proof (induction xs)
  case (Cons x xs)
  have "length (f x) \<le> c" "length (concat (map f xs)) \<le> c * length xs" using Cons by auto
  then show ?case by simp
qed simp

lemma length_delta_bits: "length (delta_bits a b) = 2 * ((b - a) + (a - b))"
  by (simp add: delta_bits_def length_concat sum_list_replicate)

lemma length_lens_bits: "a \<le> 17 \<Longrightarrow> \<forall>l \<in> set ls. l \<le> 17 \<Longrightarrow> length (lens_bits a ls) \<le> 35 * length ls"
proof (induction ls arbitrary: a)
  case (Cons l ls)
  then have "length (lens_bits l ls) \<le> 35 * length ls" by simp
  moreover have "2 * ((l - a) + (a - l)) \<le> 34" using Cons.prems by auto
  ultimately show ?case by (simp add: length_delta_bits)
qed simp

lemma length_table_bits: "ls \<noteq> [] \<Longrightarrow> \<forall>l \<in> set ls. l \<le> 17 \<Longrightarrow> length (table_bits ls) \<le> 5 + 35 * length ls"
  using length_lens_bits [of "hd ls" ls] by (simp add: table_bits_def)

lemma length_mapping_bits: "length (mapping_bits u) \<le> 272"
proof -
  have "length (concat (map (\<lambda>i. if \<exists>j \<in> {0..<16}. u (i * 16 + j) then map (\<lambda>j. u (i * 16 + j)) [0..<16] else []) [0..<16])) \<le> 16 * length [0..<16 :: nat]"
    by (rule length_concat_le) simp
  then show ?thesis by (simp add: mapping_bits_def)
qed

lemma length_selector_bits: "\<forall>j \<in> set js. j < 6 \<Longrightarrow> length (selector_bits g js) \<le> 18 + 6 * length js"
  using length_concat_le [of js "\<lambda>j. replicate j True @ [False]" 6] by (fastforce simp: selector_bits_def)

lemma length_nth_group: "length (nth_group sym_at n k) \<le> 50"
  by (auto simp: nth_group_def group_syms_def group_end_def)

lemma set_nth_group: "k < n_selectors n \<Longrightarrow> v \<in> set (nth_group sym_at n k) \<Longrightarrow> \<exists>i < n. v = sym_at i"
proof -
  assume k: "k < n_selectors n" and v: "v \<in> set (nth_group sym_at n k)"
  have "50 * k < n" using k by (simp add: n_selectors_def)
  then have "group_end n (50 * k) < n" using group_end_bounds by blast
  moreover from v obtain i where "i \<in> set [50 * k..<group_end n (50 * k) + 1]" "v = sym_at i" unfolding nth_group_def group_syms_def set_map by (elim imageE)
  ultimately show ?thesis by (intro exI [of _ i]) auto
qed

section \<open>A block\<close>

text \<open>What is known of the fields that \<open>block_bits\<close> is made of.\<close>

lemma block_coded_fields:
  assumes "block_coded s s'" "\<forall>i < nblock s. einUse s (unat (block s i))"
  shows "enInUse s' \<le> 256" "nMTF s' \<le> nblock s + 1" "i < nMTF s' \<Longrightarrow> mtfv s' i < enInUse s' + 2"
proof -
  obtain s1 where 1: "block_sorted (crcs_closed s) s1" "nMTF s' = length (mtf_syms s1)" "map (mtfv s') [0..<nMTF s'] = mtf_syms s1"
    "enInUse s' = length (used_bytes s1)" using assms(1) by (auto simp: block_coded_def)
  note f = block_sorted_fields(1,2) [OF 1(1)]
  have n: "nblock s1 = nblock s" using f by (simp add: crcs_closed_def)
  show "enInUse s' \<le> 256" using 1(4) length_used_bytes by simp
  show "nMTF s' \<le> nblock s + 1" using 1(2) length_mtf_syms [of s1] n by simp
  have "\<forall>i < nblock s1. einUse s1 (unat (bwt_byte s1 i))"
    using bwt_byte_used [OF 1(1)] assms(2) n by (simp add: crcs_closed_def)
  then have "\<forall>v \<in> set (map (mtfv s') [0..<nMTF s']). v < enInUse s' + 2" using mtf_syms_less [of s1] by (simp only: 1(3,4)) blast
  then show "i < nMTF s' \<Longrightarrow> mtfv s' i < enInUse s' + 2" by simp
qed

lemma length_body_bits:
  assumes "sent_ok s" "enInUse s \<le> 256" "\<And>i. i < nMTF s \<Longrightarrow> mtfv s i < enInUse s + 2"
  shows "length (body_bits s) \<le> 55400 + 18 * nMTF s"
proof -
  let ?G = "choose_nGroups (nMTF s)" and ?S = "n_selectors (nMTF s)" and ?a = "enInUse s + 2"
  have o: "\<forall>k < ?S. eselector s k < ?G" "\<And>t. t < ?G \<Longrightarrow> code_lengths ?a 17 (elen s t)"
      "map (eselectorMtf s) [0..<?S] = mtf_pos [0..<?G] (map (eselector s) [0..<?S])"
    using assms(1) by (auto simp: sent_ok_def Let_def tables_ok_def)
  have G: "?G \<le> 6" using choose_nGroups_bounds by simp
  have l: "elen s t v \<le> 17" if "t < ?G" "v < ?a" for t v using o(2) that by (auto simp: code_lengths_def)
  have sub: "set (map (eselector s) [0..<?S]) \<subseteq> set [0..<?G]" using o(1) by auto
  have "j < 6" if "j \<in> set (map (eselectorMtf s) [0..<?S])" for j using mtf_pos_less [of _ "[0..<?G]" j, OF sub] that [unfolded o(3)] G by simp
  then have 2: "length (selector_bits ?G (map (eselectorMtf s) [0..<?S])) \<le> 18 + 6 * ?S" using length_selector_bits [of "map (eselectorMtf s) [0..<?S]" ?G] by simp
  have "length (table_bits (map (elen s t) [0..<?a])) \<le> 9035" if "t \<in> set [0..<?G]" for t
    using length_table_bits [of "map (elen s t) [0..<?a]"] l that assms(2) by force
  then have "length (concat (map (\<lambda>t. table_bits (map (elen s t) [0..<?a])) [0..<?G])) \<le> 9035 * length [0..<?G]" by (rule length_concat_le)
  then have 3: "length (concat (map (\<lambda>t. table_bits (map (elen s t) [0..<?a])) [0..<?G])) \<le> 54210" using G by simp
  have "length (concat (map (symbol_bits (elen s (eselector s k)) ?a) (nth_group (mtfv s) (nMTF s) k))) \<le> 850" if "k \<in> set [0..<?S]" for k
  proof -
    have "length (concat (map (symbol_bits (elen s (eselector s k)) ?a) (nth_group (mtfv s) (nMTF s) k))) \<le> 17 * length (nth_group (mtfv s) (nMTF s) k)"
    proof (rule length_concat_le)
      fix v assume "v \<in> set (nth_group (mtfv s) (nMTF s) k)"
      then have "v < ?a" using set_nth_group [of k "nMTF s" v "mtfv s"] that assms(3) by auto
      then show "length (symbol_bits (elen s (eselector s k)) ?a v) \<le> 17" using l o(1) that by (simp add: symbol_bits_def)
    qed
    then show ?thesis using length_nth_group [of "mtfv s" "nMTF s" k] by linarith
  qed
  then have "length (concat (map (\<lambda>k. concat (map (symbol_bits (elen s (eselector s k)) ?a) (nth_group (mtfv s) (nMTF s) k))) [0..<?S])) \<le> 850 * length [0..<?S]"
    by (rule length_concat_le)
  then have 4: "length (data_bits (elen s) ?a (eselector s) (mtfv s) (nMTF s)) \<le> 850 * ?S" by (simp add: data_bits_def)
  have "50 * ?S \<le> nMTF s + 49" by (simp add: n_selectors_def)
  then show ?thesis using length_mapping_bits [of "einUse s"] 2 3 4 by (simp add: body_bits_def)
qed

lemma length_block_bits: "length (block_bits s) = 105 + length (body_bits s)"
  by (simp add: block_bits_def)

lemma rld_length: "rld xs = Some w \<Longrightarrow> length xs \<le> 2 * length w"
  by (induction xs arbitrary: w rule: rld.induct) (auto split: if_splits list.splits, fastforce+)

lemma block_image_bound:
  assumes "block_image k w bs"
  shows "w \<noteq> []" "length bs \<le> 55523 + 36 * length w"
proof -
  obtain s s' where b: "0 < nblock s" "\<forall>i < nblock s. einUse s (unat (block s i))" "rld (block_list s) = Some w" "block_coded s s'" "bs = block_bits s'"
    using assms marked_bytes unfolding block_image_def by metis
  note f = block_coded_fields [OF b(4,2)]
  have l: "nblock s \<le> 2 * length w" using rld_length [OF b(3)] by (simp add: block_list_def)
  then show "w \<noteq> []" using b(1) by auto
  have "length (body_bits s') \<le> 55400 + 18 * nMTF s'" by (rule length_body_bits) (use b(4) f in \<open>simp_all add: block_coded_def\<close>)
  then show "length bs \<le> 55523 + 36 * length w" using f(2) l unfolding b(5) length_block_bits by linarith
qed

section \<open>The stream\<close>

lemma blocks_bound: "blocks_ok k bl \<Longrightarrow> length (concat (map snd bl)) \<le> 55559 * length (block_data bl)"
proof (induction bl)
  case (Cons b bl)
  have "block_image k (fst b) (snd b)" using Cons.prems by (simp add: blocks_ok_def)
  note i = block_image_bound [OF this]
  have "length (snd b) \<le> 55559 * length (fst b)" using i by (cases "fst b") simp_all
  moreover have "length (concat (map snd bl)) \<le> 55559 * length (block_data bl)" using Cons by (simp add: blocks_ok_def)
  ultimately show ?case by simp
qed simp

lemma comp_inv_bound:
  assumes I: "comp_inv k X Y s"
  shows "length Y \<le> 15 + 6945 * length X"
proof -
  from I consider "in_phase k X Y s" | "out_phase k X Y s" by (auto simp: comp_inv_def)
  then show ?thesis
  proof cases
    case 1
    then obtain bl rs where b: "blocks_ok k bl" "X = block_data bl @ taken rs s"
        "if blockNo s = 1 then bl = [] \<and> Y = [] else write_ok s \<and> bytes_bits Y @ out_bits s = stream_bits k bl"
      unfolding in_phase_def by blast
    show ?thesis
    proof (cases "blockNo s = 1")
      case False
      then have "length (bytes_bits Y @ out_bits s) = length (stream_bits k bl)" using b(3) by simp
      then show ?thesis using blocks_bound [OF b(1)] b(2) by (simp add: stream_bits_def)
    qed (use b(3) in simp)
  next
    case 2
    then obtain bl Y0 where b: "blocks_ok k bl" "X = block_data bl @ expand_runs (pending_run s)" "Y = Y0 @ take (state_out_pos s) (zbytes s)"
       "if is_end s then \<exists>pad < 8. bytes_bits Y0 @ bytes_bits (zbytes s) = stream_bits k bl @ end_bits bl @ replicate pad False
        else write_ok s \<and> bytes_bits Y0 @ out_bits s = stream_bits k bl"
      unfolding out_phase_def by blast
    have "8 * length (Y0 @ zbytes s) \<le> length (stream_bits k bl @ end_bits bl) + 7"
    proof (cases "is_end s")
      case True
      then obtain pad where p: "pad < 8" "bytes_bits Y0 @ bytes_bits (zbytes s) = stream_bits k bl @ end_bits bl @ replicate pad False" using b(4) by auto
      from arg_cong [OF p(2), of length] p(1) show ?thesis by simp
    next
      case False
      then have "length (bytes_bits Y0 @ out_bits s) = length (stream_bits k bl)" using b(4) by simp
      then show ?thesis by (simp add: out_bits_def)
    qed
    moreover have "length Y \<le> length (Y0 @ zbytes s)" by (simp add: b(3) zbytes_def)
    ultimately show ?thesis using blocks_bound [OF b(1)] b(2) by (simp add: stream_bits_def end_bits_def)
  qed
qed

end
