(* ===== verification/FileWrite.thy ===== *)
theory FileWrite
  imports FileApi OutputBound
begin

text \<open>
  Writing a compressed file: what \<open>BZ2_bzWrite\<close> and \<open>BZ2_bzWriteClose64\<close> do to a \<open>bzFile\<close> opened by \<open>BZ2_bzWriteOpen\<close>. Both loops end, since each
  round but the last fills the buffer of \<open>BZ_MAX_UNUSED\<close> bytes and the compressor's output is bounded.
\<close>

section \<open>The state between the calls\<close>

text \<open>\<open>X\<close> has been taken in, and \<open>Y\<close> is in the file behind what was there before, \<open>F\<close>.\<close>

definition holds_estate :: "nat \<Rightarrow> u8 list \<Rightarrow> u8 list \<Rightarrow> bzfile \<Rightarrow> estate \<Rightarrow> bool" where
  "holds_estate k X Y b s \<longleftrightarrow> c_state (wh b) = Some (c_addr (wh b), s) \<and> comp_inv k X Y s"

definition writer_at :: "u8 list \<Rightarrow> u8 list \<Rightarrow> bzfile \<Rightarrow> bool" where
  "writer_at F Y b \<longleftrightarrow> writing b \<and> \<not> f_err (handle b) \<and> f_out (handle b) = F @ Y"

definition writer_ok :: "u8 list \<Rightarrow> nat \<Rightarrow> u8 list \<Rightarrow> bzfile \<Rightarrow> bool" where
  "writer_ok F k X b \<longleftrightarrow> lastErr b = BZ_OK \<and> avail_in (c_strm (wh b)) = 0 \<and>
     (\<exists>Y s. writer_at F Y b \<and> holds_estate k X Y b s \<and> emode s = BZ_M_RUNNING)"

text \<open>After a write error the file keeps its error indicator.\<close>

definition write_failed :: "bzfile \<Rightarrow> bool" where
  "write_failed b \<longleftrightarrow> writing b \<and> lastErr b = BZ_IO_ERROR \<and> f_err (handle b)"

lemma WriteOpen_ok:
  assumes "BZ2_bzWriteOpen ok b0 junk (Some f) (int k) verb fac = (BZ_OK, Some b)"
  shows "writer_ok (f_out f) k [] b \<and> handle b = f \<and> initialisedOk b"
proof -
  let ?b = "(BZ_SETERR BZ_OK b0)\<lparr>initialisedOk := False, bufN := 0, handle := f, writing := True\<rparr>"
  obtain r fr h where I: "BZ2_bzCompressInit junk (Some (wh ?b)) (int k) verb (if fac = 0 then 30 else fac) = (r, fr, h)" by (metis prod_cases3)
  have a: "r = BZ_OK" "\<not> f_err f" "b = ?b\<lparr>wh := (the h)\<lparr>c_strm := (c_strm (the h))\<lparr>avail_in := 0\<rparr>\<rparr>, initialisedOk := True\<rparr>"
    using assms I unfolding BZ2_bzWriteOpen_def by (auto simp: Let_def split: if_splits)
  obtain h' where h: "h = Some h'" using I a(1) by (auto simp: BZ2_bzCompressInit_def Let_def split: if_splits option.splits prod.splits)
  obtain s where "c_state h' = Some (c_addr h', s)" "comp_inv k [] [] s" "emode s = BZ_M_RUNNING"
    using Init_running I a(1) h by blast
  then show ?thesis using a h by (auto simp: writer_ok_def writer_at_def holds_estate_def BZ_SETERR_def)
qed

section \<open>One round\<close>

lemma write_buf_ok:
  assumes w: "writer_at F Y b" and o: "length (buf b) = BZ_MAX_UNUSED - avail_out (c_strm (wh b))"
  shows "\<exists>f. write_buf b = (\<not> f_err f, b\<lparr>handle := f\<rparr>) \<and> (\<not> f_err f \<longrightarrow> f_out f = F @ Y @ buf b)"
proof (cases "avail_out (c_strm (wh b)) < BZ_MAX_UNUSED")
  case True
  let ?f = "snd (fwrite (buf b) (handle b))"
  have "write_buf b = (\<not> f_err ?f, b\<lparr>handle := ?f\<rparr>)" using True w o
    by (auto simp: write_buf_def Let_def fwrite_def writer_at_def min_def)
  moreover have "\<not> f_err ?f \<longrightarrow> f_out ?f = F @ Y @ buf b" using w by (auto simp: fwrite_def Let_def writer_at_def min_def)
  ultimately show ?thesis by blast
next
  case False
  then have "buf b = []" using o by simp
  then show ?thesis using False w by (intro exI [of _ "handle b"]) (simp add: write_buf_def writer_at_def)
qed

abbreviation ready_strm :: "bzfile \<Rightarrow> bz_stream" where
  "ready_strm b \<equiv> (c_strm (wh b))\<lparr>avail_out := BZ_MAX_UNUSED, out_buf := []\<rparr>"

text \<open>A call of the compressor, and then the buffer is written.\<close>

definition after_call :: "bzfile \<Rightarrow> estate \<Rightarrow> bzfile" where
  "after_call b s = b\<lparr>wh := (wh b)\<lparr>c_strm := estrm s, c_state := Some (c_addr (wh b), s)\<rparr>, buf := out_buf (estrm s)\<rparr>"

lemma compress_to_buf_eq:
  assumes "c_state (wh b) = Some (c_addr (wh b), s)" "compress_switch m action (s\<lparr>estrm := ready_strm b\<rparr>) = Some (Ret r s')"
  shows "compress_to_buf m action b = Some (Ret r (after_call b s'))"
  using assms by (simp add: compress_to_buf_def BZ2_bzCompress_def after_call_def Let_def)

lemma ready_strm_in: "in_bytes (ready_strm b) = in_bytes (c_strm (wh b))" "src_ok (ready_strm b) = src_ok (c_strm (wh b))"
  by (simp_all add: in_bytes_def in_byte_def [abs_def] src_ok_def in_ok_def)

lemma after_call_io:
  assumes "io_step w bs (s\<lparr>estrm := ready_strm b\<rparr>) s'"
  shows "buf (after_call b s') = bs" "length bs = BZ_MAX_UNUSED - avail_out (c_strm (wh (after_call b s')))" "length bs \<le> BZ_MAX_UNUSED"
    "in_bytes (c_strm (wh b)) = w @ in_bytes (c_strm (wh (after_call b s')))" "src_ok (c_strm (wh b)) \<Longrightarrow> src_ok (c_strm (wh (after_call b s')))"
    "writer_at F Y (after_call b s') = writer_at F Y b" "lastErr (after_call b s') = lastErr b"
  using assms ready_strm_in [of b] by (auto simp: io_step_def after_call_def writer_at_def)

lemma after_call_holds: "comp_inv k X Y s' \<Longrightarrow> holds_estate k X Y (after_call b s') s'"
  by (simp add: holds_estate_def after_call_def)

lemma run_call:
  assumes h: "host_ok m" and I: "comp_inv k X Y s" and i: "src_ok (estrm s)" and r: "emode s = BZ_M_RUNNING"
    and p: "0 < avail_in (estrm s)" "0 < avail_out (estrm s)"
  shows "\<exists>w bs s'. compress_switch m BZ_RUN s = Some (Ret BZ_RUN_OK s') \<and> io_step w bs s s' \<and> comp_inv k (X @ w) (Y @ bs) s' \<and>
    emode s' = BZ_M_RUNNING \<and> (avail_in (estrm s') = 0 \<or> avail_out (estrm s') = 0)"
proof -
  obtain w bs s' where H: "handle_compress m (False, s) = Some (Stop (w @ bs \<noteq> [], s'))" "goes k X Y w bs s s'" "stopped s'"
    using handle_compress_ok [OF h I i, of False] r by auto
  have g: "io_step w bs s s'" "comp_inv k (X @ w) (Y @ bs) s'" "emode s' = BZ_M_RUNNING" using H(2) r by (simp_all add: goes_def)
  have st: "avail_in (estrm s') = 0 \<or> avail_out (estrm s') = 0" using H(3) g(3) by (auto simp: stopped_def is_end_def)
  have "w @ bs \<noteq> []"
  proof
    assume "w @ bs = []"
    then have "avail_in (estrm s') = avail_in (estrm s)" "avail_out (estrm s') = avail_out (estrm s)"
      using g(1) io_step_avail [OF g(1)] by (simp_all add: io_step_def)
    then show False using st p by simp
  qed
  then have "compress_switch m BZ_RUN s = Some (Ret BZ_RUN_OK s')" using r by (simp add: compress_switch_def run_mode_def H(1))
  then show ?thesis using g st by blast
qed

section \<open>The loops\<close>

definition output_bound :: "nat \<Rightarrow> nat" where
  "output_bound n = 15 + 6945 * n"

lemma bound_step:
  assumes "comp_inv k (X @ w) (Y @ bs) s'" "Z = w @ Z'" "length bs = Suc n"
  shows "output_bound (length ((X @ w) @ Z')) - length (Y @ bs) < output_bound (length (X @ Z)) - length Y"
  using comp_inv_bound [OF assms(1)] assms(2,3) by (simp add: output_bound_def)

lemma failed_after:
  "writer_at F Y b \<Longrightarrow> f_err f \<Longrightarrow> write_failed (BZ_SETERR BZ_IO_ERROR (b\<lparr>handle := f\<rparr>))"
  by (simp add: write_failed_def writer_at_def BZ_SETERR_def)

lemma writer_at_file: "writer_at F Y b \<Longrightarrow> \<not> f_err f \<Longrightarrow> f_out f = F @ Y' \<Longrightarrow> writer_at F Y' (b\<lparr>handle := f\<rparr>)"
  by (simp add: writer_at_def)

lemma bzWrite_loop_ok:
  assumes h: "host_ok m"
  shows "writer_at F Y b \<Longrightarrow> holds_estate k X Y b s \<Longrightarrow> emode s = BZ_M_RUNNING \<Longrightarrow> src_ok (c_strm (wh b)) \<Longrightarrow> 0 < avail_in (c_strm (wh b)) \<Longrightarrow>
    \<exists>r b'. bzWrite_loop m b = Some (Ret r b') \<and>
      (r = BZ_OK \<and> writer_ok F k (X @ in_bytes (c_strm (wh b))) b' \<or> r = BZ_IO_ERROR \<and> write_failed b')"
proof (induction "output_bound (length (X @ in_bytes (c_strm (wh b)))) - length Y" arbitrary: X Y b s rule: less_induct)
  case less
  let ?s = "s\<lparr>estrm := ready_strm b\<rparr>"
  have s: "c_state (wh b) = Some (c_addr (wh b), s)" "comp_inv k X Y ?s" using less.prems(2) by (simp_all add: holds_estate_def)
  obtain w bs s' where C: "compress_switch m BZ_RUN ?s = Some (Ret BZ_RUN_OK s')" "io_step w bs ?s s'" "comp_inv k (X @ w) (Y @ bs) s'"
      "emode s' = BZ_M_RUNNING" "avail_in (estrm s') = 0 \<or> avail_out (estrm s') = 0"
    using run_call [OF h s(2)] less.prems(3,4,5) ready_strm_in by auto
  let ?b = "after_call b s'"
  note call = compress_to_buf_eq [OF s(1) C(1)] and io = after_call_io [OF C(2)] and st = after_call_holds [OF C(3), of b]
  have w: "writer_at F Y ?b" using less.prems(1) io(6) by simp
  obtain f where f: "write_buf ?b = (\<not> f_err f, ?b\<lparr>handle := f\<rparr>)" "\<not> f_err f \<longrightarrow> f_out f = F @ Y @ bs"
    using write_buf_ok [OF w] io(1,2) by auto
  have z: "estrm s' = c_strm (wh ?b)" by (simp add: after_call_def)
  show ?case
  proof (cases "f_err f")
    case True
    then have "bzWrite_loop m b = Some (Ret BZ_IO_ERROR (BZ_SETERR BZ_IO_ERROR (?b\<lparr>handle := f\<rparr>)))"
      using call f(1) by (simp add: bzWrite_loop.simps [of m b])
    then show ?thesis using failed_after [OF w True] by blast
  next
    case ok: False
    let ?b1 = "?b\<lparr>handle := f\<rparr>"
    have w1: "writer_at F (Y @ bs) ?b1" using writer_at_file [OF w ok] f(2) ok by simp
    have h1: "holds_estate k (X @ w) (Y @ bs) ?b1 s'" using st by (simp add: holds_estate_def)
    show ?thesis
    proof (cases "avail_in (c_strm (wh ?b)) = 0")
      case True
      then have "bzWrite_loop m b = Some (Ret BZ_OK (BZ_SETERR BZ_OK ?b1))"
        using call f(1) ok by (simp add: bzWrite_loop.simps [of m b])
      moreover have "in_bytes (c_strm (wh b)) = w" using io(4) True by (simp add: in_bytes_def)
      moreover have "writer_ok F k (X @ w) (BZ_SETERR BZ_OK ?b1)"
        using w1 h1 C(4) True by (auto simp: writer_ok_def BZ_SETERR_def writer_at_def holds_estate_def)
      ultimately show ?thesis by auto
    next
      case False
      have e: "bzWrite_loop m b = bzWrite_loop m ?b1" using call f(1) ok False by (subst bzWrite_loop.simps) simp
      have "length bs = Suc 4999" using io(2) C(5) False z by simp
      then have m: "output_bound (length ((X @ w) @ in_bytes (c_strm (wh ?b1)))) - length (Y @ bs) < output_bound (length (X @ in_bytes (c_strm (wh b)))) - length Y"
        using bound_step [OF C(3) io(4)] by simp
      have i: "src_ok (c_strm (wh ?b1))" "0 < avail_in (c_strm (wh ?b1))" using io(5) less.prems(4) False by simp_all
      from less.hyps [OF m w1 h1 C(4) i] show ?thesis using e io(4) by simp
    qed
  qed
qed

text \<open>The end: the whole stream is in the file.\<close>

definition finished_at :: "u8 list \<Rightarrow> nat \<Rightarrow> u8 list \<Rightarrow> bzfile \<Rightarrow> bool" where
  "finished_at F k X b \<longleftrightarrow> (\<exists>Y s. writer_at F Y b \<and> whole_stream k X Y \<and> c_state (wh b) = Some (c_addr (wh b), s))"

lemma finish_loop_ok:
  assumes h: "host_ok m"
  shows "writer_at F Y b \<Longrightarrow> holds_estate k X Y b s \<Longrightarrow> can_finish (s\<lparr>estrm := ready_strm b\<rparr>) \<Longrightarrow> src_ok (c_strm (wh b)) \<Longrightarrow>
    \<exists>r done b'. finish_loop m b = Some (Ret r (done, b')) \<and>
      (if done then finished_at F k (X @ in_bytes (c_strm (wh b))) b' else r = BZ_IO_ERROR \<and> write_failed b')"
proof (induction "output_bound (length (X @ in_bytes (c_strm (wh b)))) - length Y" arbitrary: X Y b s rule: less_induct)
  case less
  let ?s = "s\<lparr>estrm := ready_strm b\<rparr>"
  have s: "c_state (wh b) = Some (c_addr (wh b), s)" "comp_inv k X Y ?s" using less.prems(2) by (simp_all add: holds_estate_def)
  obtain r w bs s' where C: "compress_switch m BZ_FINISH ?s = Some (Ret r s')" "io_step w bs ?s s'"
      "r = BZ_STREAM_END \<and> avail_in (estrm s') = 0 \<and> whole_stream k (X @ w) (Y @ bs) \<or>
       r = BZ_FINISH_OK \<and> avail_out (estrm s') = 0 \<and> w @ bs \<noteq> [] \<and> comp_inv k (X @ w) (Y @ bs) s' \<and> can_finish s'"
    using finish_call [OF h s(2) _ less.prems(3)] less.prems(4) ready_strm_in by fastforce
  let ?b = "after_call b s'"
  note call = compress_to_buf_eq [OF s(1) C(1)] and io = after_call_io [OF C(2)]
  have r: "r = BZ_FINISH_OK \<or> r = BZ_STREAM_END" using C(3) by blast
  have w: "writer_at F Y ?b" using less.prems(1) io(6) by simp
  obtain f where f: "write_buf ?b = (\<not> f_err f, ?b\<lparr>handle := f\<rparr>)" "\<not> f_err f \<longrightarrow> f_out f = F @ Y @ bs"
    using write_buf_ok [OF w] io(1,2) by auto
  let ?b1 = "?b\<lparr>handle := f\<rparr>"
  have z: "estrm s' = c_strm (wh ?b)" by (simp add: after_call_def)
  show ?case
  proof (cases "f_err f")
    case True
    then have "finish_loop m b = Some (Ret BZ_IO_ERROR (False, BZ_SETERR BZ_IO_ERROR ?b1))"
      using call f(1) r by (auto simp: finish_loop.simps [of m b])
    then show ?thesis using failed_after [OF w True] by auto
  next
    case ok: False
    have w1: "writer_at F (Y @ bs) ?b1" using writer_at_file [OF w ok] f(2) ok by simp
    from C(3) show ?thesis
    proof (elim disjE conjE)
      assume a: "r = BZ_STREAM_END" "avail_in (estrm s') = 0" "whole_stream k (X @ w) (Y @ bs)"
      have "finish_loop m b = Some (Ret r (True, ?b1))" using call f(1) ok a(1) by (simp add: finish_loop.simps [of m b])
      moreover have "in_bytes (c_strm (wh b)) = w" using io(4) a(2) z by (simp add: in_bytes_def)
      moreover have "finished_at F k (X @ w) ?b1" using w1 a(3) by (auto simp: finished_at_def after_call_def)
      ultimately show ?thesis by auto
    next
      assume a: "r = BZ_FINISH_OK" "avail_out (estrm s') = 0" "comp_inv k (X @ w) (Y @ bs) s'" "can_finish s'"
      have e: "finish_loop m b = finish_loop m ?b1" using call f(1) ok a(1) by (subst finish_loop.simps) simp
      have h1: "holds_estate k (X @ w) (Y @ bs) ?b1 s'" using after_call_holds [OF a(3), of b] by (simp add: holds_estate_def)
      have c: "can_finish (s'\<lparr>estrm := ready_strm ?b1\<rparr>)" using a(4) by (simp add: can_finish_def more_to_do_def isempty_RL_def z)
      have "length bs = Suc 4999" using io(2) a(2) z by simp
      then have m: "output_bound (length ((X @ w) @ in_bytes (c_strm (wh ?b1)))) - length (Y @ bs) < output_bound (length (X @ in_bytes (c_strm (wh b)))) - length Y"
        using bound_step [OF a(3) io(4)] by simp
      have i: "src_ok (c_strm (wh ?b1))" using io(5) less.prems(4) by simp
      have q: "X @ in_bytes (c_strm (wh b)) = (X @ w) @ in_bytes (c_strm (wh ?b1))" using io(4) by simp
      from less.hyps [OF m w1 h1 c i] show ?thesis unfolding e q .
    qed
  qed
qed

section \<open>The calls\<close>

lemma bzWrite_ok:
  assumes h: "host_ok m" and w: "writer_ok F k X b" and l: "0 \<le> len" "nat len \<le> length bs"
  shows "\<exists>r b'. BZ2_bzWrite m (Some b) (Some bs) len = Some (Ret r (Some b')) \<and>
    (r = BZ_OK \<and> writer_ok F k (X @ take (nat len) bs) b' \<or> r = BZ_IO_ERROR \<and> write_failed b')"
proof -
  let ?b = "BZ_SETERR BZ_OK b"
  obtain Y s where Y: "writer_at F Y b" "holds_estate k X Y b s" "emode s = BZ_M_RUNNING" using w by (auto simp: writer_ok_def)
  have g: "writing ?b" "\<not> f_err (handle ?b)" using Y(1) by (simp_all add: writer_at_def BZ_SETERR_def)
  show ?thesis
  proof (cases "len = 0")
    case True
    have "writer_ok F k X (BZ_SETERR BZ_OK ?b)"
      using w by (simp add: writer_ok_def BZ_SETERR_def writer_at_def holds_estate_def)
    then show ?thesis using True g by (simp add: BZ2_bzWrite_def Let_def)
  next
    case False
    let ?t = "(c_strm (wh ?b))\<lparr>avail_in := nat len, in_buf := bs, next_in := 0\<rparr>"
    let ?b1 = "?b\<lparr>wh := (wh ?b)\<lparr>c_strm := ?t\<rparr>\<rparr>"
    have t: "src_ok ?t" "in_bytes ?t = take (nat len) bs" "0 < avail_in ?t"
      using l False by (auto simp: src_ok_def in_ok_def in_bytes_def in_byte_def intro!: nth_equalityI)
    have b1: "writer_at F Y ?b1" "holds_estate k X Y ?b1 s" using Y(1,2) by (simp_all add: writer_at_def holds_estate_def BZ_SETERR_def)
    obtain r b' where "bzWrite_loop m ?b1 = Some (Ret r b')"
      "r = BZ_OK \<and> writer_ok F k (X @ take (nat len) bs) b' \<or> r = BZ_IO_ERROR \<and> write_failed b'"
      using bzWrite_loop_ok [OF h b1 Y(3)] t by auto
    then show ?thesis using g l False by (simp add: BZ2_bzWrite_def Let_def)
  qed
qed

lemma release_writer_eq:
  "c_state (wh b) = Some (c_addr (wh b), s) \<Longrightarrow> snd (release_writer b) = Released (handle b) [Arr1, Arr2, Ftab, EStateBlock]"
  by (simp add: release_writer_def BZ2_bzCompressEnd_def Let_def)

text \<open>Closing: the file holds the whole stream, or the error indicator of the file is set and the \<open>bzFile\<close> is kept.\<close>

lemma WriteClose64_ok:
  assumes h: "host_ok m" and w: "writer_ok F k X b"
  shows "\<exists>r t c. BZ2_bzWriteClose64 m (Some b) False = Some (Ret r (Some t, Some c)) \<and>
    (r = BZ_OK \<and> (\<exists>f Y. c = Released f [Arr1, Arr2, Ftab, EStateBlock] \<and> \<not> f_err f \<and> f_out f = F @ Y \<and> whole_stream k X Y) \<or>
     r = BZ_IO_ERROR \<and> (\<exists>b'. c = Kept b' \<and> write_failed b'))"
proof -
  obtain Y s where Y: "writer_at F Y b" "holds_estate k X Y b s" "emode s = BZ_M_RUNNING" using w by (auto simp: writer_ok_def)
  have a: "avail_in (c_strm (wh b)) = 0" "lastErr b = BZ_OK" using w by (simp_all add: writer_ok_def)
  have g: "writing b" "\<not> f_err (handle b)" using Y(1) by (simp_all add: writer_at_def)
  have c: "can_finish (s\<lparr>estrm := ready_strm b\<rparr>)" using Y(3) by (simp add: can_finish_def)
  have i: "src_ok (c_strm (wh b))" using a(1) by (simp add: src_ok_def)
  have x: "X @ in_bytes (c_strm (wh b)) = X" using a(1) by (simp add: in_bytes_def)
  obtain r fin b' where L: "finish_loop m b = Some (Ret r (fin, b'))"
    "if fin then finished_at F k X b' else r = BZ_IO_ERROR \<and> write_failed b'"
    using finish_loop_ok [OF h Y(1,2) c i] unfolding x by blast
  show ?thesis
  proof (cases fin)
    case False
    then show ?thesis using L g a(2) by (simp add: BZ2_bzWriteClose64_def)
  next
    case True
    then obtain Y' s' where d: "writer_at F Y' b'" "whole_stream k X Y'" "c_state (wh b') = Some (c_addr (wh b'), s')"
      using L(2) by (auto simp: finished_at_def)
    let ?f = "fflush (handle b')"
    have nf: "\<not> f_err (handle b')" "writing b'" "f_out ?f = F @ Y'" using d(1) by (simp_all add: writer_at_def fflush_def)
    have W: "BZ2_bzWriteClose64 m (Some b) False =
        (if f_err ?f then Some (Ret BZ_IO_ERROR (Some (0, 0, 0, 0), Some (Kept (BZ_SETERR BZ_IO_ERROR (b'\<lparr>handle := ?f\<rparr>)))))
         else case release_writer (BZ_SETERR BZ_OK (b'\<lparr>handle := ?f\<rparr>)) of (t, c) \<Rightarrow> Some (Ret BZ_OK (Some t, Some c)))"
      using L(1) True g a(2) nf(1) by (simp add: BZ2_bzWriteClose64_def Let_def)
    show ?thesis
    proof (cases "f_err ?f")
      case True
      then show ?thesis using W nf(2) by (simp add: write_failed_def BZ_SETERR_def)
    next
      case False
      let ?b = "BZ_SETERR BZ_OK (b'\<lparr>handle := ?f\<rparr>)"
      have "snd (release_writer ?b) = Released (handle ?b) [Arr1, Arr2, Ftab, EStateBlock]"
        by (rule release_writer_eq [of _ s']) (simp add: BZ_SETERR_def d(3))
      then show ?thesis using W False nf(3) d(2) by (cases "release_writer ?b") (auto simp: BZ_SETERR_def)
    qed
  qed
qed

text \<open>A call on a file with its error indicator set does nothing but report it.\<close>

lemma write_failed_calls:
  assumes "write_failed b"
  shows "BZ2_bzWriteClose64 m (Some b) abandon = Some (Ret BZ_IO_ERROR (None, Some (Kept b)))"
    "BZ2_bzWriteClose m (Some b) abandon = Some (Ret BZ_IO_ERROR (None, Some (Kept b)))"
proof -
  have "BZ_SETERR BZ_IO_ERROR b = b" using assms by (simp add: write_failed_def BZ_SETERR_def)
  then show "BZ2_bzWriteClose64 m (Some b) abandon = Some (Ret BZ_IO_ERROR (None, Some (Kept b)))"
    using assms by (simp add: BZ2_bzWriteClose64_def write_failed_def)
  then show "BZ2_bzWriteClose m (Some b) abandon = Some (Ret BZ_IO_ERROR (None, Some (Kept b)))" by (simp add: BZ2_bzWriteClose_def)
qed

lemma WriteClose_ok:
  assumes "host_ok m" "writer_ok F k X b"
  shows "\<exists>r t c. BZ2_bzWriteClose m (Some b) False = Some (Ret r (Some t, Some c)) \<and>
    (r = BZ_OK \<and> (\<exists>f Y. c = Released f [Arr1, Arr2, Ftab, EStateBlock] \<and> \<not> f_err f \<and> f_out f = F @ Y \<and> whole_stream k X Y) \<or>
     r = BZ_IO_ERROR \<and> (\<exists>b'. c = Kept b' \<and> write_failed b'))"
  using WriteClose64_ok [OF assms] unfolding BZ2_bzWriteClose_def by fastforce

lemma bzclose_writer:
  assumes h: "host_ok m" and w: "writer_ok F k X b"
  shows "\<exists>r c. BZ2_bzclose m (Some b) = Some (Ret r (Some (Inl c), fclose_file (kept_file c))) \<and>
    (r = BZ_OK \<and> (\<exists>f Y. c = Released f [Arr1, Arr2, Ftab, EStateBlock] \<and> \<not> f_err f \<and> f_out f = F @ Y \<and> whole_stream k X Y) \<or>
     r = BZ_IO_ERROR \<and> (\<exists>b'. c = Kept b' \<and> write_failed b'))"
proof -
  have g: "writing b" using w by (auto simp: writer_ok_def writer_at_def)
  obtain r t c where C: "BZ2_bzWriteClose m (Some b) False = Some (Ret r (Some t, Some c))"
    "r = BZ_OK \<and> (\<exists>f Y. c = Released f [Arr1, Arr2, Ftab, EStateBlock] \<and> \<not> f_err f \<and> f_out f = F @ Y \<and> whole_stream k X Y) \<or>
     r = BZ_IO_ERROR \<and> (\<exists>b'. c = Kept b' \<and> write_failed b')" using WriteClose_ok [OF h w] by blast
  from C(2) show ?thesis
  proof
    assume "r = BZ_OK \<and> (\<exists>f Y. c = Released f [Arr1, Arr2, Ftab, EStateBlock] \<and> \<not> f_err f \<and> f_out f = F @ Y \<and> whole_stream k X Y)"
    then show ?thesis using C(1) g by (simp add: BZ2_bzclose_def)
  next
    assume a: "r = BZ_IO_ERROR \<and> (\<exists>b'. c = Kept b' \<and> write_failed b')"
    then obtain b' where b': "c = Kept b'" "write_failed b'" by blast
    then show ?thesis using C(1) g a write_failed_calls(2) [OF b'(2)] by (simp add: BZ2_bzclose_def)
  qed
qed

section \<open>Files being written\<close>

text \<open>The reachable states of a \<open>bzFile\<close>: it was opened on a file that held \<open>F\<close>, and all of \<open>X\<close> was accepted by \<open>BZ2_bzWrite\<close>.\<close>

inductive written :: "host \<Rightarrow> u8 list \<Rightarrow> nat \<Rightarrow> u8 list \<Rightarrow> bzfile \<Rightarrow> bool" for m where
  opened: "BZ2_bzWriteOpen ok b0 junk (Some f) (int k) verb fac = (BZ_OK, Some b) \<Longrightarrow> written m (f_out f) k [] b"
| more: "written m F k X b \<Longrightarrow> BZ2_bzWrite m (Some b) (Some bs) len = Some (Ret BZ_OK (Some b')) \<Longrightarrow> nat len \<le> length bs \<Longrightarrow>
    written m F k (X @ take (nat len) bs) b'"

inductive_cases written_cases: "written m F k X b"

lemma written_ok: "written m F k X b \<Longrightarrow> host_ok m \<Longrightarrow> writer_ok F k X b"
proof (induction rule: written.induct)
  case (opened ok b0 junk f k verb fac b)
  then show ?case using WriteOpen_ok by blast
next
  case (more F k X b bs len b')
  have "0 \<le> len" using more.hyps(2) by (auto simp: BZ2_bzWrite_def Let_def split: if_splits)
  then show ?case using bzWrite_ok [OF more.prems more.IH [OF more.prems], of len bs] more.hyps(2,3) by auto
qed

end
