(* ===== verification/FileRead.thy ===== *)
theory FileRead
  imports FileApi
begin

text \<open>
  Reading a compressed file: \<open>BZ2_bzRead\<close> returns, since a round that does not end the call has used up the buffer and the file still has bytes;
  the number it returns is that of the bytes stored.
\<close>

section \<open>The state between the calls\<close>

definition reader_ok :: "bzfile \<Rightarrow> bool" where
  "reader_ok b \<longleftrightarrow> \<not> writing b \<and> initialisedOk b \<and> in_ok (h_strm (rh b)) \<and>
     (\<exists>s. h_state (rh b) = Some (h_addr (rh b), s) \<and> phase_ok (s\<lparr>dstrm := h_strm (rh b)\<rparr>))"

text \<open>Decompression ended, by the end of the stream or by an error; the memory can still be given back.\<close>

definition reader_ended :: "bzfile \<Rightarrow> bool" where
  "reader_ended b \<longleftrightarrow> \<not> writing b \<and> initialisedOk b \<and> (\<exists>s. h_state (rh b) = Some (h_addr (rh b), s))"

lemma reader_okD: "reader_ok b \<Longrightarrow> reader_ended b"
  by (auto simp: reader_ok_def reader_ended_def)

text \<open>A call takes the stream from the handle, whatever copy of it the state holds.\<close>

lemma reader_decompress:
  assumes R: "reader_ok b" and a: "avail_out (h_strm (rh b)) < 2 ^ 32"
  obtains r k s where "BZ2_bzDecompress m (Some (rh b)) = Some (Ret r (Some k))" "h_state k = Some (h_addr k, s)" "call_result r s"
    "h_strm k = dstrm s" "r = BZ_OK \<or> r = BZ_STREAM_END \<Longrightarrow> gave (h_strm (rh b)) (h_strm k)"
proof -
  obtain s0 where s0: "h_state (rh b) = Some (h_addr (rh b), s0)" "phase_ok (s0\<lparr>dstrm := h_strm (rh b)\<rparr>)" "in_ok (h_strm (rh b))"
    using R by (auto simp: reader_ok_def)
  let ?h = "(rh b)\<lparr>h_state := Some (h_addr (rh b), s0\<lparr>dstrm := h_strm (rh b)\<rparr>)\<rparr>"
  have "BZ2_bzDecompress m (Some ?h) = BZ2_bzDecompress m (Some (rh b))"
    using s0(1) by (simp add: BZ2_bzDecompress_def split: option.split api.split)
  moreover have "handle_ok ?h" "h_state ?h \<noteq> None" using s0 a by (simp_all add: handle_ok_def)
  ultimately show thesis using BZ2_bzDecompress_handle [of ?h m] that by (metis dhandle.select_convs(1,2) dhandle.update_convs(3) dhandle.surjective)
qed

text \<open>The buffers may change, as long as what is to be read is a part of the input buffer.\<close>

lemma reader_ok_strm:
  assumes "reader_ok b" "writing b' = writing b" "initialisedOk b' = initialisedOk b" "rh b' = (rh b)\<lparr>h_strm := t\<rparr>" "in_ok t"
  shows "reader_ok b'"
  using assms phase_ok_strm [of "s\<lparr>dstrm := h_strm (rh b)\<rparr>" t for s] by (auto simp: reader_ok_def)

section \<open>The buffer\<close>

lemma myfeof_eq: "myfeof f = (f_in f = [], if f_in f = [] then f\<lparr>f_err := f_err f \<or> f_bad_end f\<rparr> else f)"
  by (auto simp: myfeof_def fgetc_def ungetc_def split: list.splits)

definition unread :: "bzfile \<Rightarrow> nat" where
  "unread b = 2 * length (f_in (handle b)) + (if avail_in (h_strm (rh b)) = 0 then 0 else 1)"

lemma fill_buf_ok:
  assumes "reader_ok b"
  obtains ok b1 where "fill_buf b = (ok, b1)" "lastErr b1 = lastErr b" "h_addr (rh b1) = h_addr (rh b)" "reader_ended b1" "ok \<Longrightarrow> reader_ok b1"
    "avail_out (h_strm (rh b1)) = avail_out (h_strm (rh b))" "out_buf (h_strm (rh b1)) = out_buf (h_strm (rh b))"
    "ok \<Longrightarrow> f_in (handle b1) \<noteq> [] \<Longrightarrow> 2 * length (f_in (handle b1)) < unread b"
proof -
  obtain ok b1 where f: "fill_buf b = (ok, b1)" by fastforce
  have e: "reader_ended b1" using f reader_okD [OF assms]
    by (auto simp: fill_buf_def myfeof_eq fread_def Let_def reader_ended_def split: if_splits)
  have r: "reader_ok b1" if "ok"
  proof (cases "avail_in (h_strm (rh b)) = 0 \<and> f_in (handle b) \<noteq> []")
    case True
    let ?bs = "take BZ_MAX_UNUSED (f_in (handle b))"
    have "writing b1 = writing b" "initialisedOk b1 = initialisedOk b"
        "rh b1 = (rh b)\<lparr>h_strm := (h_strm (rh b))\<lparr>avail_in := length ?bs, in_buf := ?bs, next_in := 0\<rparr>\<rparr>"
      using f True that by (auto simp: fill_buf_def myfeof_eq fread_def Let_def split: if_splits)
    then show ?thesis by (rule reader_ok_strm [OF assms]) (simp add: in_ok_def)
  next
    case False
    then have "writing b1 = writing b" "initialisedOk b1 = initialisedOk b" "rh b1 = rh b"
      using f by (auto simp: fill_buf_def myfeof_eq split: if_splits)
    then show ?thesis using assms by (simp add: reader_ok_def)
  qed
  show thesis
    by (rule that [OF f _ _ e r]) (use f in \<open>auto simp: fill_buf_def myfeof_eq fread_def Let_def unread_def split: if_splits\<close>)
qed

section \<open>The loop\<close>

definition read_result :: "nat \<Rightarrow> int \<Rightarrow> int \<Rightarrow> bzfile \<Rightarrow> bool" where
  "read_result len r n b \<longleftrightarrow> lastErr b = r \<and> reader_ended b \<and>
     (if r = BZ_OK then n = int len \<and> length (out_buf (h_strm (rh b))) = len \<and> reader_ok b
      else if r = BZ_STREAM_END then n = int (length (out_buf (h_strm (rh b)))) \<and> n \<le> int len \<and> reader_ok b
      else n = 0)"

lemma read_result_error:
  "reader_ended b \<Longrightarrow> r \<noteq> BZ_OK \<Longrightarrow> r \<noteq> BZ_STREAM_END \<Longrightarrow> read_result len r 0 (BZ_SETERR r b)"
  by (simp add: read_result_def BZ_SETERR_def reader_ended_def)

lemma ended_phase: "call_result BZ_STREAM_END s \<Longrightarrow> phase_ok s"
  by (simp add: call_result_def phase_ok_def)

lemma bzRead_loop_ok:
  "reader_ok b \<Longrightarrow> avail_out (h_strm (rh b)) < 2 ^ 32 \<Longrightarrow> len = length (out_buf (h_strm (rh b))) + avail_out (h_strm (rh b)) \<Longrightarrow>
    \<exists>r n b'. bzRead_loop m (int len) b = Some (Ret r (n, b')) \<and> read_result len r n b'"
proof (induction "unread b" arbitrary: b rule: less_induct)
  case less
  show ?case
  proof (cases "f_err (handle b)")
    case True
    then have "bzRead_loop m (int len) b = Some (Ret BZ_IO_ERROR (0, BZ_SETERR BZ_IO_ERROR b))" by (simp add: bzRead_loop.simps [of m _ b])
    then show ?thesis using read_result_error [OF reader_okD [OF less.prems(1)], of BZ_IO_ERROR len] by auto
  next
    case noerr: False
    obtain ok b1 where F: "fill_buf b = (ok, b1)" "lastErr b1 = lastErr b" "h_addr (rh b1) = h_addr (rh b)" "reader_ended b1" "ok \<Longrightarrow> reader_ok b1"
      "avail_out (h_strm (rh b1)) = avail_out (h_strm (rh b))" "out_buf (h_strm (rh b1)) = out_buf (h_strm (rh b))"
      "ok \<Longrightarrow> f_in (handle b1) \<noteq> [] \<Longrightarrow> 2 * length (f_in (handle b1)) < unread b" using fill_buf_ok [OF less.prems(1)] by metis
    show ?thesis
    proof (cases ok)
      case False
      then have "bzRead_loop m (int len) b = Some (Ret BZ_IO_ERROR (0, BZ_SETERR BZ_IO_ERROR b1))"
        using noerr F(1) by (simp add: bzRead_loop.simps [of m _ b])
      then show ?thesis using read_result_error [OF F(4), of BZ_IO_ERROR len] by auto
    next
      case True
      note R = F(5) [OF True]
      have a: "avail_out (h_strm (rh b1)) < 2 ^ 32" using F(6) less.prems(2) by simp
      obtain r k s where D: "BZ2_bzDecompress m (Some (rh b1)) = Some (Ret r (Some k))" "h_state k = Some (h_addr k, s)" "call_result r s"
        "h_strm k = dstrm s" "r = BZ_OK \<or> r = BZ_STREAM_END \<Longrightarrow> gave (h_strm (rh b1)) (h_strm k)"
        using reader_decompress [OF R a, of m] by metis
      let ?b2 = "b1\<lparr>rh := k\<rparr>"
      have E2: "reader_ended ?b2" using F(4) D(2) by (simp add: reader_ended_def)
      have R2: "reader_ok ?b2" if "r = BZ_OK \<or> r = BZ_STREAM_END"
      proof -
        have "phase_ok s" using D(3) that ended_phase by (auto simp: call_result_def)
        then show ?thesis using R D(2,4) by (auto simp: reader_ok_def phase_ok_def read_ok_def)
      qed
      have len: "len = length (out_buf (h_strm k)) + avail_out (h_strm k)" if "r = BZ_OK \<or> r = BZ_STREAM_END"
        using D(5) [OF that] less.prems(3) F(6,7) by (auto simp: gave_def)
      have le: "avail_out (h_strm k) < 2 ^ 32" if "r = BZ_OK \<or> r = BZ_STREAM_END" using gave_room [OF D(5) [OF that]] a by linarith
      consider (err) "r \<noteq> BZ_OK" "r \<noteq> BZ_STREAM_END" | (fin) "r = BZ_STREAM_END" | (ok) "r = BZ_OK" by blast
      then show ?thesis
      proof cases
        case err
        then have "bzRead_loop m (int len) b = Some (Ret r (0, BZ_SETERR r ?b2))"
          using noerr F(1) True D(1) by (simp add: bzRead_loop.simps [of m _ b] Let_def)
        then show ?thesis using read_result_error [OF E2 err] by blast
      next
        case fin
        then have "bzRead_loop m (int len) b = Some (Ret BZ_STREAM_END (int len - int (avail_out (h_strm k)), BZ_SETERR BZ_STREAM_END ?b2))"
          using noerr F(1) True D(1) by (simp add: bzRead_loop.simps [of m _ b] Let_def ends_early_def)
        moreover have "read_result len BZ_STREAM_END (int len - int (avail_out (h_strm k))) (BZ_SETERR BZ_STREAM_END ?b2)"
          using R2 E2 len fin by (simp add: read_result_def BZ_SETERR_def reader_ok_def reader_ended_def)
        ultimately show ?thesis by blast
      next
        case ok
        let ?e = "f_in (handle b1) = [] \<and> avail_in (h_strm k) = 0 \<and> avail_out (h_strm k) > 0"
        let ?b3 = "?b2\<lparr>handle := snd (myfeof (handle b1))\<rparr>"
        have e: "ends_early r ?b2 = (?e, ?b3)" using ok by (simp add: ends_early_def myfeof_eq)
        have R3: "reader_ok ?b3" using R2 ok by (simp add: reader_ok_def)
        have u: "bzRead_loop m (int len) b = (if ?e then Some (Ret BZ_UNEXPECTED_EOF (0, BZ_SETERR BZ_UNEXPECTED_EOF ?b3))
            else if avail_out (h_strm k) = 0 then Some (Ret BZ_OK (int len, BZ_SETERR BZ_OK ?b3)) else bzRead_loop m (int len) ?b3)"
          using noerr F(1) True D(1) ok e [unfolded ok] by (simp add: bzRead_loop.simps [of m _ b] Let_def)
        show ?thesis
        proof (cases "?e \<or> avail_out (h_strm k) = 0")
          case True
          have "read_result len BZ_OK (int len) (BZ_SETERR BZ_OK ?b3)" if "avail_out (h_strm k) = 0"
            using R3 reader_okD [OF R3] len ok that by (simp add: read_result_def BZ_SETERR_def reader_ok_def reader_ended_def)
          then show ?thesis using True u read_result_error [OF reader_okD [OF R3], of BZ_UNEXPECTED_EOF len] by auto
        next
          case False
          have i: "avail_in (h_strm k) = 0" using D(3,4) ok False by (auto simp: call_result_def)
          then have ne: "f_in (handle b1) \<noteq> []" using False by auto
          have "unread ?b3 = 2 * length (f_in (handle b1))" using i ne by (simp add: unread_def myfeof_eq)
          then have "unread ?b3 < unread b" using F(8) [OF True ne] by simp
          from less.hyps [OF this R3] show ?thesis using u False len le ok by auto
        qed
      qed
    qed
  qed
qed

lemma bzRead_ok:
  assumes R: "reader_ok b" and l: "0 \<le> len" "len < 2 ^ 31"
  shows "\<exists>r n b'. BZ2_bzRead m (Some b) True len = Some (Ret r (n, Some b')) \<and> (0 < len \<longrightarrow> read_result (nat len) r n b') \<and>
    (len = 0 \<longrightarrow> r = BZ_OK \<and> n = 0 \<and> b' = BZ_SETERR BZ_OK b)"
proof (cases "len = 0")
  case True
  then show ?thesis using R by (simp add: BZ2_bzRead_def reader_ok_def BZ_SETERR_def)
next
  case False
  let ?b = "BZ_SETERR BZ_OK b"
  let ?b1 = "?b\<lparr>rh := (rh ?b)\<lparr>h_strm := (h_strm (rh ?b))\<lparr>avail_out := nat len, out_buf := []\<rparr>\<rparr>\<rparr>"
  have R1: "reader_ok ?b1" 
    by (rule reader_ok_strm [OF R, of _ "(h_strm (rh b))\<lparr>avail_out := nat len, out_buf := []\<rparr>"])
       (use R in \<open>auto simp: reader_ok_def BZ_SETERR_def in_ok_def\<close>)
  have "nat len < 2 ^ 32" using l by simp
  then obtain r n b' where L: "bzRead_loop m (int (nat len)) ?b1 = Some (Ret r (n, b'))" "read_result (nat len) r n b'"
    using bzRead_loop_ok [OF R1, of "nat len" m] by auto
  have "\<not> writing b" using R by (simp add: reader_ok_def)
  then show ?thesis using L l False by (simp add: BZ2_bzRead_def Let_def BZ_SETERR_def)
qed

section \<open>Opening and closing\<close>

lemma ReadOpen_ok:
  assumes "BZ2_bzReadOpen ok b0 junk (Some f) verb small unused nUnused = (BZ_OK, Some b)"
  shows "reader_ok b \<and> handle b = f \<and> buf b = (case unused of None \<Rightarrow> [] | Some bs \<Rightarrow> take (nat nUnused) bs) \<and> in_bytes (h_strm (rh b)) = buf b"
proof -
  let ?bs = "case unused of None \<Rightarrow> [] | Some bs \<Rightarrow> take (nat nUnused) bs"
  let ?b = "(BZ_SETERR BZ_OK b0)\<lparr>initialisedOk := False, handle := f, buf := ?bs, bufN := length ?bs, writing := False\<rparr>"
  obtain r h where I: "BZ2_bzDecompressInit junk (Some (rh ?b)) verb small = (r, h)" by fastforce
  have a: "r = BZ_OK" "b = ?b\<lparr>rh := (the h)\<lparr>h_strm := (h_strm (the h))\<lparr>avail_in := bufN ?b, in_buf := buf ?b, next_in := 0\<rparr>\<rparr>, initialisedOk := True\<rparr>"
    using assms I unfolding BZ2_bzReadOpen_def by (auto simp: Let_def split: if_splits)
  obtain s h' where h: "h = Some h'" "h_state h' = Some (h_addr h', s)" "dst s = BZ_X_MAGIC_1" "bsLive s = 0"
    using I a(1) by (auto simp: BZ2_bzDecompressInit_def Let_def split: if_splits prod.splits)
  let ?t = "(h_strm h')\<lparr>avail_in := length ?bs, in_buf := ?bs, next_in := 0\<rparr>"
  have t: "in_ok ?t" "in_bytes ?t = ?bs" by (auto simp: in_ok_def in_bytes_def in_byte_def intro!: nth_equalityI)
  have "phase_ok (s\<lparr>dstrm := ?t\<rparr>)"
    using h(3,4) t(1) by (simp add: phase_ok_def dec_ready_def dcall_ok_def read_ok_def label_inv_def)
  then show ?thesis using a h(1,2) t by (auto simp: reader_ok_def BZ_SETERR_def)
qed

lemma ReadClose_ok:
  assumes "reader_ended b"
  obtains s where "h_state (rh b) = Some (h_addr (rh b), s)" "BZ2_bzReadClose (Some b) = (BZ_OK, Some (Released (handle b) (held_blocks s)))"
proof -
  obtain s where s: "h_state (rh b) = Some (h_addr (rh b), s)" "\<not> writing b" "initialisedOk b" using assms by (auto simp: reader_ended_def)
  show thesis
    by (rule that [OF s(1)]) (use s in \<open>simp add: BZ2_bzReadClose_def BZ2_bzDecompressEnd_def BZ_SETERR_def Let_def held_blocks_eq\<close>)
qed

section \<open>Files being read\<close>

text \<open>The reachable states of a \<open>bzFile\<close>: opened, and then read from, as long as no call reported an error.\<close>

inductive being_read :: "cpu \<Rightarrow> bzfile \<Rightarrow> bool" for m where
  opened: "BZ2_bzReadOpen ok b0 junk (Some f) verb small unused nUnused = (BZ_OK, Some b) \<Longrightarrow> being_read m b"
| more: "being_read m b \<Longrightarrow> BZ2_bzRead m (Some b) True len = Some (Ret r (n, Some b')) \<Longrightarrow> len < 2 ^ 31 \<Longrightarrow> r = BZ_OK \<or> r = BZ_STREAM_END \<Longrightarrow>
    being_read m b'"

lemma being_read_ok: "being_read m b \<Longrightarrow> reader_ok b"
proof (induction rule: being_read.induct)
  case (opened ok b0 junk f verb small unused nUnused b)
  then show ?case using ReadOpen_ok by blast
next
  case (more b len r n b')
  have l: "0 \<le> len" using more.hyps(2,4) by (auto simp: BZ2_bzRead_def Let_def split: if_splits)
  show ?case
  proof (cases "len = 0")
    case True
    then have "b' = BZ_SETERR BZ_OK b" using bzRead_ok [OF more.IH l more.hyps(3), of m] more.hyps(2) by auto
    then show ?thesis using more.IH by (simp add: reader_ok_def BZ_SETERR_def)
  next
    case False
    then have "read_result (nat len) r n b'" using bzRead_ok [OF more.IH l more.hyps(3), of m] more.hyps(2) l by auto
    then show ?thesis using more.hyps(4) by (auto simp: read_result_def split: if_splits)
  qed
qed

end
