(* ===== verification/FileProps.thy ===== *)
theory FileProps
  imports FileWrite FileRead CompressProps
begin

text \<open>
  The properties of the one-shot calls and of the file interface, with the files at which they are tried.
\<close>

section \<open>Files to try\<close>

definition blank_file :: cfile where
  "blank_file = \<lparr>f_in = [], f_out = [], f_err = False, f_room = 1000, f_bad_end = False, f_flush = True, f_std = False\<rparr>"

definition blank_bzfile :: bzfile where
  "blank_bzfile = \<lparr>handle = blank_file, buf = [], bufN = 0, writing = False, wh = new_handle, rh = fresh, lastErr = 0, initialisedOk = False\<rparr>"

definition opened_writer :: bzfile where
  "opened_writer = the (snd (BZ2_bzWriteOpen True blank_bzfile estate_zero (Some blank_file) 1 0 0))"

definition opened_reader :: bzfile where
  "opened_reader = the (snd (BZ2_bzReadOpen True blank_bzfile dstate_zero (Some blank_file) 0 0 None 0))"

lemma opened_writer_written: "written m [] 1 [] opened_writer"
proof -
  have a: "alloc_ok (c_strm new_handle) i" for i by (simp add: new_handle_def strm_zero_def alloc_ok_def)
  obtain h' where h: "BZ2_bzCompressInit estate_zero (Some new_handle) 1 0 30 = (BZ_OK, [], Some h')"
    using BZ2_bzCompressInit_ok [of 1 30 estate_zero new_handle 0] a by (auto simp: given_back_def)
  have "\<exists>b. BZ2_bzWriteOpen True blank_bzfile estate_zero (Some blank_file) (int 1) 0 0 = (BZ_OK, Some b)"
    using h by (simp add: BZ2_bzWriteOpen_def Let_def blank_file_def blank_bzfile_def BZ_SETERR_def)
  then have "BZ2_bzWriteOpen True blank_bzfile estate_zero (Some blank_file) (int 1) 0 0 = (BZ_OK, Some opened_writer)"
    by (auto simp: opened_writer_def)
  from written.opened [OF this, of m] show ?thesis by (simp add: blank_file_def)
qed

lemma opened_reader_read: "being_read m opened_reader"
proof -
  have "\<exists>b. BZ2_bzReadOpen True blank_bzfile dstate_zero (Some blank_file) 0 0 None 0 = (BZ_OK, Some b)"
    by (simp add: BZ2_bzReadOpen_def BZ2_bzDecompressInit_def bz_config_ok_def bz_alloc_def Let_def blank_file_def blank_bzfile_def BZ_SETERR_def fresh_def strm_zero_def)
  then have "BZ2_bzReadOpen True blank_bzfile dstate_zero (Some blank_file) 0 0 None 0 = (BZ_OK, Some opened_reader)"
    by (auto simp: opened_reader_def)
  then show ?thesis by (rule being_read.opened)
qed

section \<open>Writing\<close>

text \<open>C17: Every call of \<open>BZ2_bzWrite\<close> on an open file returns: either all \<open>len\<close> bytes have been accepted, and the file can be written further, or
  a write to the file has failed and its error indicator is set. Accepted means what \<open>comp_inv\<close> says of the state and the bytes \<open>Y\<close> that are in the file by
  then: the blocks closed so far, in \<open>Y\<close> and the output buffer, with the block being filled and the pending run, account for exactly \<open>X\<close> and the new bytes.\<close>

theorem BZ2_bzWrite_takes_all:
  assumes "host_ok m" "written m F k X b" "0 \<le> len" "nat len \<le> length bs"
  shows "\<exists>r b'. BZ2_bzWrite m (Some b) (Some bs) len = Some (Ret r (Some b')) \<and>
    (r = BZ_OK \<and> lastErr b' = BZ_OK \<and> \<not> f_err (handle b') \<and> avail_in (c_strm (wh b')) = 0 \<and>
       (\<exists>Y s. f_out (handle b') = F @ Y \<and> c_state (wh b') = Some (c_addr (wh b'), s) \<and> comp_inv k (X @ take (nat len) bs) Y s) \<and>
       written m F k (X @ take (nat len) bs) b' \<or>
     r = BZ_IO_ERROR \<and> lastErr b' = BZ_IO_ERROR \<and> f_err (handle b'))"
proof -
  obtain r b' where W: "BZ2_bzWrite m (Some b) (Some bs) len = Some (Ret r (Some b'))"
    "r = BZ_OK \<and> writer_ok F k (X @ take (nat len) bs) b' \<or> r = BZ_IO_ERROR \<and> write_failed b'"
    using bzWrite_ok [OF assms(1) written_ok [OF assms(2,1)] assms(3,4)] by blast
  have "written m F k (X @ take (nat len) bs) b'" if "r = BZ_OK" using written.more [OF assms(2) _ assms(4)] W(1) that by simp
  then show ?thesis using W by (auto simp: write_failed_def writer_ok_def writer_at_def holds_estate_def)
qed

theorem BZ2_bzWrite_takes_all_witness:
  "\<exists>r b'. BZ2_bzWrite plain_host (Some opened_writer) (Some [1, 2]) 2 = Some (Ret r (Some b')) \<and>
    (r = BZ_OK \<and> (\<exists>s. c_state (wh b') = Some (c_addr (wh b'), s) \<and> comp_inv 1 [1, 2] (f_out (handle b')) s) \<or> r = BZ_IO_ERROR \<and> lastErr b' = BZ_IO_ERROR \<and> f_err (handle b'))"
  using BZ2_bzWrite_takes_all [OF plain_host_ok opened_writer_written, of 2 "[1, 2]"] by auto

text \<open>C2: Closing a file to which \<open>X\<close> was written, by any calls of \<open>BZ2_bzWrite\<close>, returns. Either it reports \<open>BZ_OK\<close>; then the file holds, behind what it
  held before, a whole stream for \<open>X\<close>, and all memory is given back. Or it reports \<open>BZ_IO_ERROR\<close>; then the error indicator of the file is set
  and the \<open>bzFile\<close> is kept.\<close>

theorem written_file_is_whole_stream:
  assumes "host_ok m" "written m F k X b"
  shows "\<exists>r t c. BZ2_bzWriteClose64 m (Some b) False = Some (Ret r (Some t, Some c)) \<and>
    (r = BZ_OK \<and> (\<exists>f Y. c = Released f [Arr1, Arr2, Ftab, EStateBlock] \<and> \<not> f_err f \<and> f_out f = F @ Y \<and> whole_stream k X Y) \<or>
     r = BZ_IO_ERROR \<and> (\<exists>b'. c = Kept b' \<and> lastErr b' = BZ_IO_ERROR \<and> f_err (handle b')))"
proof -
  obtain r t c where C: "BZ2_bzWriteClose64 m (Some b) False = Some (Ret r (Some t, Some c))"
    "r = BZ_OK \<and> (\<exists>f Y. c = Released f [Arr1, Arr2, Ftab, EStateBlock] \<and> \<not> f_err f \<and> f_out f = F @ Y \<and> whole_stream k X Y) \<or>
     r = BZ_IO_ERROR \<and> (\<exists>b'. c = Kept b' \<and> write_failed b')"
    using WriteClose64_ok [OF assms(1) written_ok [OF assms(2,1)]] by blast
  then show ?thesis by (intro exI [of _ r] exI [of _ t] exI [of _ c]) (auto simp: write_failed_def)
qed

theorem written_file_is_whole_stream_witness:
  "\<exists>r t c. BZ2_bzWriteClose64 plain_host (Some opened_writer) False = Some (Ret r (Some t, Some c)) \<and>
    (r = BZ_OK \<and> (\<exists>f Y. c = Released f [Arr1, Arr2, Ftab, EStateBlock] \<and> \<not> f_err f \<and> f_out f = Y \<and> whole_stream 1 [] Y) \<or>
     r = BZ_IO_ERROR \<and> (\<exists>b'. c = Kept b' \<and> lastErr b' = BZ_IO_ERROR \<and> f_err (handle b')))"
  using written_file_is_whole_stream [OF plain_host_ok opened_writer_written] by simp

text \<open>C35: \<open>BZ2_bzclose\<close> after a failed write: both calls of \<open>BZ2_bzWriteClose\<close>, the one with \<open>abandon\<close> as well, stop at the error indicator of the
  file, so neither the compressor's memory nor the \<open>bzFile\<close> is given back, while the file is closed under it.\<close>

theorem BZ2_bzclose_after_write_error:
  assumes "writing b" "lastErr b = BZ_IO_ERROR" "f_err (handle b)"
  shows "BZ2_bzclose m (Some b) = Some (Ret BZ_IO_ERROR (Some (Inl (Kept b)), fclose_file (handle b)))"
proof -
  have "write_failed b" using assms by (simp add: write_failed_def)
  note c = write_failed_calls(2) [OF this]
  show ?thesis using assms(1) by (simp add: BZ2_bzclose_def c kept_file_def)
qed

theorem BZ2_bzclose_after_write_error_witness:
  "\<exists>b. BZ2_bzclose plain_host (Some b) = Some (Ret BZ_IO_ERROR (Some (Inl (Kept b)), [handle b]))"
proof -
  let ?b = "blank_bzfile\<lparr>writing := True, lastErr := BZ_IO_ERROR, handle := blank_file\<lparr>f_err := True\<rparr>\<rparr>"
  have "BZ2_bzclose plain_host (Some ?b) = Some (Ret BZ_IO_ERROR (Some (Inl (Kept ?b)), fclose_file (handle ?b)))"
    by (rule BZ2_bzclose_after_write_error) simp_all
  then show ?thesis by (intro exI [of _ ?b]) (simp add: fclose_file_def blank_file_def)
qed

text \<open>C36: After a call of \<open>BZ2_bzWrite\<close> that was refused for a bad argument, \<open>BZ2_bzWriteClose64\<close> does not finish the stream, since \<open>lastErr\<close> is not
  \<open>BZ_OK\<close>: nothing more is written, yet it reports \<open>BZ_OK\<close> and gives the memory back.\<close>

theorem close_after_refused_write:
  assumes "host_ok m" "written m F k X b" "f_flush (handle b)" "len < 0"
  shows "\<exists>b' t f. BZ2_bzWrite m (Some b) (Some bs) len = Some (Ret BZ_PARAM_ERROR (Some b')) \<and>
    BZ2_bzWriteClose64 m (Some b') False = Some (Ret BZ_OK (Some t, Some (Released f [Arr1, Arr2, Ftab, EStateBlock]))) \<and> f_out f = f_out (handle b)"
proof -
  obtain Y s where Y: "writer_at F Y b" "holds_estate k X Y b s" using written_ok [OF assms(2,1)] by (auto simp: writer_ok_def)
  let ?b' = "BZ_SETERR BZ_PARAM_ERROR (BZ_SETERR BZ_OK b)"
  have w: "BZ2_bzWrite m (Some b) (Some bs) len = Some (Ret BZ_PARAM_ERROR (Some ?b'))" using assms(4) by (simp add: BZ2_bzWrite_def Let_def)
  let ?c = "BZ_SETERR BZ_OK (?b'\<lparr>handle := fflush (handle b)\<rparr>)"
  have r: "snd (release_writer ?c) = Released (fflush (handle b)) [Arr1, Arr2, Ftab, EStateBlock]"
    using release_writer_eq [of ?c s] Y(2) by (simp add: holds_estate_def BZ_SETERR_def)
  have "BZ2_bzWriteClose64 m (Some ?b') False = (case release_writer ?c of (t, c) \<Rightarrow> Some (Ret BZ_OK (Some t, Some c)))"
    using Y(1) assms(3) by (simp add: BZ2_bzWriteClose64_def writer_at_def BZ_SETERR_def Let_def fflush_def)
  then have "BZ2_bzWriteClose64 m (Some ?b') False = Some (Ret BZ_OK (Some (fst (release_writer ?c)), Some (Released (fflush (handle b)) [Arr1, Arr2, Ftab, EStateBlock])))"
    by (simp only: r [symmetric]) (cases "release_writer ?c", simp)
  moreover have "f_out (fflush (handle b)) = f_out (handle b)" by (simp add: fflush_def)
  ultimately show ?thesis using w by blast
qed

theorem close_after_refused_write_witness:
  "\<exists>b' t f. BZ2_bzWrite plain_host (Some opened_writer) (Some []) (- 1) = Some (Ret BZ_PARAM_ERROR (Some b')) \<and>
    BZ2_bzWriteClose64 plain_host (Some b') False = Some (Ret BZ_OK (Some t, Some (Released f [Arr1, Arr2, Ftab, EStateBlock]))) \<and>
    f_out f = f_out (handle opened_writer)"
proof -
  have "handle opened_writer = blank_file"
    by (simp add: opened_writer_def BZ2_bzWriteOpen_def BZ2_bzCompressInit_def bz_config_ok_def bz_alloc_def new_handle_def strm_zero_def
        Let_def blank_file_def blank_bzfile_def BZ_SETERR_def)
  then have "f_flush (handle opened_writer)" by (simp add: blank_file_def)
  then show ?thesis by (intro close_after_refused_write [OF plain_host_ok opened_writer_written]) simp_all
qed

section \<open>Reading\<close>

text \<open>C16: \<open>BZ2_bzRead\<close> always returns, whatever the file holds and however it is cut off. After \<open>BZ_OK\<close> all \<open>len\<close> bytes have been stored, after
  \<open>BZ_STREAM_END\<close> as many as the number returned, and otherwise 0 is returned; the \<open>bzFile\<close> remembers the code, and closing it gives back the state and every block that one of its pointers holds.\<close>

theorem BZ2_bzRead_returns:
  assumes "being_read m b" "0 < len" "len < 2 ^ 31"
  shows "\<exists>r n b'. BZ2_bzRead m (Some b) True len = Some (Ret r (n, Some b')) \<and> lastErr b' = r \<and>
    (r = BZ_OK \<longrightarrow> n = len \<and> being_read m b') \<and>
    (r = BZ_OK \<or> r = BZ_STREAM_END \<longrightarrow> n = int (length (out_buf (h_strm (rh b')))) \<and> n \<le> len) \<and>
    (r \<noteq> BZ_OK \<and> r \<noteq> BZ_STREAM_END \<longrightarrow> n = 0) \<and>
    (\<exists>s. h_state (rh b') = Some (h_addr (rh b'), s) \<and> BZ2_bzReadClose (Some b') = (BZ_OK, Some (Released (handle b') (held_blocks s))))"
proof -
  obtain r n b' where R: "BZ2_bzRead m (Some b) True len = Some (Ret r (n, Some b'))" "read_result (nat len) r n b'"
    using bzRead_ok [OF being_read_ok [OF assms(1)], of len m] assms(2,3) by auto
  have c: "\<exists>s. h_state (rh b') = Some (h_addr (rh b'), s) \<and> BZ2_bzReadClose (Some b') = (BZ_OK, Some (Released (handle b') (held_blocks s)))"
    using ReadClose_ok [of b'] R(2) unfolding read_result_def by metis
  have o: "r = BZ_OK \<longrightarrow> n = len \<and> being_read m b'" using R assms being_read.more [OF assms(1) R(1) assms(3)] by (simp add: read_result_def)
  have "r = BZ_OK \<or> r = BZ_STREAM_END \<longrightarrow> n = int (length (out_buf (h_strm (rh b')))) \<and> n \<le> len" "r \<noteq> BZ_OK \<and> r \<noteq> BZ_STREAM_END \<longrightarrow> n = 0" "lastErr b' = r"
    using R(2) assms(2) by (auto simp: read_result_def)
  then show ?thesis using R(1) c o by blast
qed

theorem BZ2_bzRead_returns_witness:
  "\<exists>r n b'. BZ2_bzRead \<lparr>pclmul = True, addr = id\<rparr> (Some opened_reader) True 10 = Some (Ret r (n, Some b')) \<and> lastErr b' = r"
  using BZ2_bzRead_returns [OF opened_reader_read, of 10 "\<lparr>pclmul = True, addr = id\<rparr>"] by auto

text \<open>C37: A read error that is met where the buffer is used up is not reported as such: \<open>myfeof\<close> takes it for the end of the file, and \<open>BZ2_bzRead\<close>
  returns \<open>BZ_UNEXPECTED_EOF\<close> while the error indicator of the file is set.\<close>

theorem BZ2_bzRead_error_as_eof:
  assumes "\<not> f_err (handle b)" "f_in (handle b) = []" "f_bad_end (handle b)" "avail_in (h_strm (rh b)) = 0"
    and "BZ2_bzDecompress m (Some (rh b)) = Some (Ret BZ_OK (Some k))" "avail_in (h_strm k) = 0" "0 < avail_out (h_strm k)"
  shows "\<exists>b'. bzRead_loop m len b = Some (Ret BZ_UNEXPECTED_EOF (0, b')) \<and> f_err (handle b')"
proof -
  have "fill_buf b = (True, b\<lparr>handle := snd (myfeof (handle b))\<rparr>)" using assms(2,4) by (simp add: fill_buf_def myfeof_eq)
  then show ?thesis using assms by (simp add: bzRead_loop.simps [of m len b] Let_def ends_early_def myfeof_eq BZ_SETERR_def)
qed

theorem BZ2_bzRead_error_as_eof_witness:
  "\<exists>b b'. \<not> f_err (handle b) \<and> bzRead_loop \<lparr>pclmul = True, addr = id\<rparr> 10 b = Some (Ret BZ_UNEXPECTED_EOF (0, b')) \<and> f_err (handle b')"
proof -
  let ?m = "\<lparr>pclmul = True, addr = id\<rparr>" and ?t = "strm_zero\<lparr>avail_out := 10\<rparr>"
  let ?h = "fresh\<lparr>h_strm := ?t, h_state := Some (7, dstate_zero\<lparr>dst := BZ_X_MAGIC_1\<rparr>)\<rparr>"
  let ?b = "blank_bzfile\<lparr>handle := blank_file\<lparr>f_bad_end := True\<rparr>, rh := ?h\<rparr>"
  have "\<exists>k. BZ2_bzDecompress ?m (Some ?h) = Some (Ret BZ_OK (Some k)) \<and> avail_in (h_strm k) = 0 \<and> 0 < avail_out (h_strm k)"
    by (simp add: BZ2_bzDecompress_def bzDecompress_loop.simps BZ2_decompress_def decompress_run.simps GET_BITS.simps fresh_def strm_zero_def dstate_zero_def
        Let_def return_excess_def label_bits_def)
  then obtain k where k: "BZ2_bzDecompress ?m (Some (rh ?b)) = Some (Ret BZ_OK (Some k))" "avail_in (h_strm k) = 0" "0 < avail_out (h_strm k)" by auto
  have "\<exists>b'. bzRead_loop ?m 10 ?b = Some (Ret BZ_UNEXPECTED_EOF (0, b')) \<and> f_err (handle b')"
    by (rule BZ2_bzRead_error_as_eof [OF _ _ _ _ k]) (simp_all add: blank_file_def fresh_def strm_zero_def)
  moreover have "\<not> f_err (handle ?b)" by (simp add: blank_file_def)
  ultimately show ?thesis by blast
qed

section \<open>One-shot calls\<close>

text \<open>C18: The one-shot compressor returns \<open>BZ_OK\<close> with a whole stream for the source, and its length; or \<open>BZ_OUTBUFF_FULL\<close>, and the destination is
  full; or \<open>BZ_SEQUENCE_ERROR\<close>, which happens only if there is no room at all. It gives back all memory in every case.\<close>

theorem BZ2_bzBuffToBuffCompress_correct:
  assumes "host_ok m" "1 \<le> k" "k \<le> 9" "0 \<le> verb" "verb \<le> 4" "0 \<le> fac" "fac \<le> 250" "\<forall>i < 4. alloc_ok strm i"
  shows "\<exists>r out. BZ2_bzBuffToBuffCompress m junk a strm True (Some room) (Some src) (int k) verb fac =
      Some (Ret r \<lparr>o_dest = out, o_destLen = Some (if r = BZ_OK then length out else room), o_freed = [Arr1, Arr2, Ftab, EStateBlock]\<rparr>) \<and>
    length out \<le> room \<and>
    (r = BZ_OK \<and> whole_stream k src out \<or> r = BZ_OUTBUFF_FULL \<and> length out = room \<or> r = BZ_SEQUENCE_ERROR \<and> room = 0)"
  using BuffToBuffCompress_ok [OF assms] .

theorem BZ2_bzBuffToBuffCompress_correct_witness:
  "\<exists>r out. BZ2_bzBuffToBuffCompress plain_host estate_zero 0 strm_zero True (Some 50) (Some [1, 2, 3]) 9 0 0 =
      Some (Ret r \<lparr>o_dest = out, o_destLen = Some (if r = BZ_OK then length out else 50), o_freed = [Arr1, Arr2, Ftab, EStateBlock]\<rparr>) \<and>
    (r = BZ_OK \<and> whole_stream 9 [1, 2, 3] out \<or> r = BZ_OUTBUFF_FULL \<and> length out = 50)"
proof -
  have "\<forall>i < 4. alloc_ok strm_zero i" by (simp add: alloc_ok_def strm_zero_def)
  from BZ2_bzBuffToBuffCompress_correct [OF plain_host_ok _ _ _ _ _ _ this, of 9 0 0 estate_zero 0 50 "[1, 2, 3]"] show ?thesis by fastforce
qed

text \<open>C19: The one-shot decompressor always returns, for any source. It makes a handle and one call of \<open>BZ2_bzDecompress\<close> on the whole source: what that call has
  put out is in the destination and never more than there was room for, whatever the code; the code and \<open>*destLen\<close> are those of the call, an unfinished
  stream being \<open>BZ_OUTBUFF_FULL\<close> when there is no room left and \<open>BZ_UNEXPECTED_EOF\<close> otherwise. It gives back the state and every block
  that one of its pointers holds after the call, each once.\<close>

theorem BZ2_bzBuffToBuffDecompress_returns:
  assumes "small \<in> {0, 1}" "0 \<le> verb" "verb \<le> 4" "fst (bz_alloc strm)" "in_ok strm" "avail_out strm < 2 ^ 32" "room < 2 ^ 32"
  shows "\<exists>h r k s. BZ2_bzDecompressInit junk (Some \<lparr>h_addr = a, h_strm = strm, h_state = None\<rparr>) verb small = (BZ_OK, Some h) \<and>
    BZ2_bzDecompress m (Some (whole_source src room h)) = Some (Ret r (Some k)) \<and> h_state k = Some (h_addr k, s) \<and>
    length (out_buf (h_strm k)) + avail_out (h_strm k) = room \<and>
    BZ2_bzBuffToBuffDecompress m junk a strm True (Some room) (Some src) small verb =
      Some (Ret (one_shot_code r (avail_out (h_strm k))) \<lparr>o_dest = out_buf (h_strm k),
        o_destLen = Some (if r = BZ_STREAM_END then length (out_buf (h_strm k)) else room), o_freed = held_blocks s\<rparr>)"
  by (rule BuffToBuffDecompress_ok [OF assms])

theorem BZ2_bzBuffToBuffDecompress_returns_witness:
  "\<exists>r out s. BZ2_bzBuffToBuffDecompress \<lparr>pclmul = True, addr = id\<rparr> dstate_zero 0 strm_zero True (Some 50) (Some [66, 90]) 0 0 =
      Some (Ret (one_shot_code r (50 - length out)) \<lparr>o_dest = out, o_destLen = Some (if r = BZ_STREAM_END then length out else 50), o_freed = held_blocks s\<rparr>) \<and>
      length out \<le> 50"
proof -
  have a: "(0::int) \<in> {0, 1}" "(0::int) \<le> 0" "(0::int) \<le> 4" "fst (bz_alloc strm_zero)" "in_ok strm_zero" "avail_out strm_zero < 2 ^ 32" "(50::nat) < 2 ^ 32"
    by (simp_all add: strm_zero_def bz_alloc_def in_ok_def)
  from BZ2_bzBuffToBuffDecompress_returns [OF a, of dstate_zero 0 "\<lparr>pclmul = True, addr = id\<rparr>" "[66, 90]"]
  obtain h r k s where "BZ2_bzDecompress \<lparr>pclmul = True, addr = id\<rparr> (Some (whole_source [66, 90] 50 h)) = Some (Ret r (Some k))"
    and k: "length (out_buf (h_strm k)) + avail_out (h_strm k) = 50"
    "BZ2_bzBuffToBuffDecompress \<lparr>pclmul = True, addr = id\<rparr> dstate_zero 0 strm_zero True (Some 50) (Some [66, 90]) 0 0 =
      Some (Ret (one_shot_code r (avail_out (h_strm k))) \<lparr>o_dest = out_buf (h_strm k),
        o_destLen = Some (if r = BZ_STREAM_END then length (out_buf (h_strm k)) else 50), o_freed = held_blocks s\<rparr>)" by blast
  have "avail_out (h_strm k) = 50 - length (out_buf (h_strm k))" "length (out_buf (h_strm k)) \<le> 50" using k(1) by simp_all
  then show ?thesis using k(2) by (intro exI [of _ r] exI [of _ "out_buf (h_strm k)"] exI [of _ s]) simp
qed

section \<open>Opening by name\<close>

text \<open>The level of a mode: its last digit, 9 if it has none; 0 counts as 1.\<close>

definition mode_level :: "string \<Rightarrow> nat" where
  "mode_level cs = (case rev (filter (\<lambda>c. c \<in> set ''0123456789'') cs) of [] \<Rightarrow> 9 | d # _ \<Rightarrow> max 1 (of_char d - 48))"

lemma digit_range: "(48 \<le> (of_char c :: int) \<and> (of_char c :: int) \<le> 57) = (c \<in> set ''0123456789'')"
proof
  assume r: "48 \<le> (of_char c :: int) \<and> (of_char c :: int) \<le> 57"
  moreover have "48 \<le> x \<Longrightarrow> x \<le> 57 \<Longrightarrow> x \<in> {48, 49, 50, 51, 52, 53, 54, 55, 56, 57}" for x :: int by (simp, presburger)
  ultimately have "(of_char c :: int) \<in> {48, 49, 50, 51, 52, 53, 54, 55, 56, 57}" by blast
  moreover have "(\<lambda>d. of_char d :: int) ` set ''0123456789'' = {48, 49, 50, 51, 52, 53, 54, 55, 56, 57}" by auto
  ultimately have "(of_char c :: int) \<in> (\<lambda>d. of_char d) ` set ''0123456789''" by (simp only:)
  then show "c \<in> set ''0123456789''" by (elim imageE) (simp only: of_char_eq_iff)
qed auto

lemma read_mode_snoc: "read_mode (cs @ [c]) = mode_letter c (read_mode cs)"
  by (simp add: read_mode_def)

lemma read_mode_write: "read_mode cs = w \<Longrightarrow> om_write w = (case rev (filter (\<lambda>c. c = CHR ''r'' \<or> c = CHR ''w'') cs) of [] \<Rightarrow> False | d # _ \<Rightarrow> d = CHR ''w'')"
proof (induction cs arbitrary: w rule: rev_induct)
  case Nil
  then show ?case by (auto simp: read_mode_def)
next
  case (snoc c cs)
  consider "c = CHR ''r''" | "c = CHR ''w''" | "c \<noteq> CHR ''r''" "c \<noteq> CHR ''w''" by blast
  then show ?case
  proof cases
    case 3
    then have "om_write w = om_write (read_mode cs)" using snoc.prems by (auto simp: read_mode_snoc mode_letter_def split: if_splits)
    then show ?thesis using 3 snoc.IH [OF refl] by simp
  qed (use snoc.prems in \<open>auto simp: read_mode_snoc mode_letter_def\<close>)
qed

lemma read_mode_size: "om_size (read_mode cs) = (case rev (filter (\<lambda>c. c \<in> set ''0123456789'') cs) of [] \<Rightarrow> 9 | d # _ \<Rightarrow> of_char d - 48)"
proof (induction cs rule: rev_induct)
  case (snoc c cs)
  then show ?case unfolding read_mode_snoc mode_letter_def digit_range by (auto simp del: set_simps) auto
qed (simp add: read_mode_def)

lemma mode_level_eq: "(if (if om_size (read_mode cs) < 1 then 1 else om_size (read_mode cs)) > 9 then 9 else if om_size (read_mode cs) < 1 then 1 else om_size (read_mode cs)) = int (mode_level cs)"
  "1 \<le> mode_level cs" "mode_level cs \<le> 9"
proof -
  show "1 \<le> mode_level cs" by (simp add: mode_level_def split: list.split)
  have d: "(of_char d :: int) = int (of_char d)" for d :: char by (rule of_nat_of_char [symmetric])
  have r: "48 \<le> (of_char d :: int) \<and> (of_char d :: int) \<le> 57" if "rev (filter (\<lambda>c. c \<in> set ''0123456789'') cs) = d # ds" for d ds
  proof -
    have "d \<in> set (rev (filter (\<lambda>c. c \<in> set ''0123456789'') cs))" unfolding that by simp
    then have "d \<in> set ''0123456789''" by (simp only: set_rev set_filter mem_Collect_eq)
    then show ?thesis unfolding digit_range .
  qed
  have r: "48 \<le> (of_char d :: nat) \<and> (of_char d :: nat) \<le> 57" if "rev (filter (\<lambda>c. c \<in> set ''0123456789'') cs) = d # ds" for d ds
    using r [OF that] unfolding d by linarith
  show "mode_level cs \<le> 9" using r by (auto simp: mode_level_def simp del: set_simps split: list.split)
  show "(if (if om_size (read_mode cs) < 1 then 1 else om_size (read_mode cs)) > 9 then 9 else if om_size (read_mode cs) < 1 then 1 else om_size (read_mode cs)) = int (mode_level cs)"
    using r unfolding read_mode_size mode_level_def by (auto simp: d max_def simp del: set_simps split: list.split)
qed

text \<open>C38: \<open>BZ2_bzopen\<close> with a mode whose last letter of \<open>r\<close> and \<open>w\<close> is \<open>w\<close> opens the file of that name with \<open>fopen\<close> for binary writing and makes a
  compressor on it, ready for \<open>BZ2_bzWrite\<close>, whose block size is the last digit of the mode, 9 if there is none and 1 for 0.\<close>

theorem bzopen_opens_writer:
  assumes "rev (filter (\<lambda>c. c = CHR ''r'' \<or> c = CHR ''w'') cs) = CHR ''w'' # ls" "p \<noteq> []" "sys_fopen sys p ''wbe'' = Some f" "\<not> f_err f"
    "\<forall>i < 4. alloc_ok (c_strm (wh b0)) i"
  shows "\<exists>b s. BZ2_bzopen sys True b0 ej dj (Some p) (Some cs) = (Some b, []) \<and> handle b = f \<and> written m (f_out f) (mode_level cs) [] b \<and>
    c_state (wh b) = Some (c_addr (wh b), s) \<and> eblockSize100k s = mode_level cs \<and> nblockMAX s = 100000 * mode_level cs - 19"
proof -
  let ?k = "mode_level cs"
  note k = mode_level_eq [of cs]
  have l: "1 \<le> int ?k" "int ?k \<le> 9" using k(2,3) by simp_all
  have w: "om_write (read_mode cs)" using read_mode_write [OF refl, of cs] assms(1) by simp
  have o: "open_file sys (Some p) (- 1) True 0 = Some f" using assms(2,3) by (simp add: open_file_def Let_def)
  let ?b = "(BZ_SETERR BZ_OK b0)\<lparr>initialisedOk := False, bufN := 0, handle := f, writing := True\<rparr>"
  have h: "wh ?b = wh b0" by (simp add: BZ_SETERR_def)
  obtain h' where "BZ2_bzCompressInit ej (Some (wh b0)) (int ?k) 0 30 = (BZ_OK, [], Some h')"
    using BZ2_bzCompressInit_ok [OF l, of 30 ej "wh b0" 0] assms(5) by (auto simp: given_back_def)
  then have "\<exists>b. BZ2_bzWriteOpen True b0 ej (Some f) (int ?k) 0 30 = (BZ_OK, Some b)"
    using assms(4) l h by (simp add: BZ2_bzWriteOpen_def Let_def)
  then obtain b where b: "BZ2_bzWriteOpen True b0 ej (Some f) (int ?k) 0 30 = (BZ_OK, Some b)" by blast
  have "BZ2_bzopen sys True b0 ej dj (Some p) (Some cs) = (Some b, [])"
    unfolding BZ2_bzopen_def bzopen_or_bzdopen_def using w o b by (simp add: Let_def k(1))
  then show ?thesis using written.opened [OF b] WriteOpen_ok [OF b]
    by (auto simp: writer_ok_def holds_estate_def comp_inv_def)
qed

theorem bzopen_opens_writer_witness:
  "\<exists>b s. BZ2_bzopen \<lparr>sys_fopen = (\<lambda>_ md. if md = ''wbe'' then Some blank_file else None), sys_fdopen = (\<lambda>_ _. None), sys_stdin = blank_file, sys_stdout = blank_file\<rparr>
     True blank_bzfile estate_zero dstate_zero (Some ''a'') (Some ''r0w5'') = (Some b, []) \<and> written plain_host [] 5 [] b \<and>
     c_state (wh b) = Some (c_addr (wh b), s) \<and> nblockMAX s = 499981"
proof -
  let ?sys = "\<lparr>sys_fopen = (\<lambda>_ md. if md = ''wbe'' then Some blank_file else None), sys_fdopen = (\<lambda>_ _. None), sys_stdin = blank_file, sys_stdout = blank_file\<rparr>"
  have l: "mode_level ''r0w5'' = 5" by (simp add: mode_level_def)
  have "\<exists>b s. BZ2_bzopen ?sys True blank_bzfile estate_zero dstate_zero (Some ''a'') (Some ''r0w5'') = (Some b, []) \<and> handle b = blank_file \<and>
      written plain_host (f_out blank_file) (mode_level ''r0w5'') [] b \<and> c_state (wh b) = Some (c_addr (wh b), s) \<and>
      eblockSize100k s = mode_level ''r0w5'' \<and> nblockMAX s = 100000 * mode_level ''r0w5'' - 19"
    by (rule bzopen_opens_writer) (simp_all add: blank_file_def blank_bzfile_def new_handle_def strm_zero_def alloc_ok_def)
  then show ?thesis by (auto simp: l blank_file_def)
qed

end
