(* ===== verification/Spec2Isabelle.thy ===== *)
theory Spec2Isabelle
  imports HuffCorrect DecompressProps StageProps FileProps
begin

text \<open>
  A verification development for libqbz2, a bzip2 compressor and decompressor in C. File names below are under \<^verbatim>\<open>src/src\<close> of the repository unless
  they start with \<^verbatim>\<open>include/\<close>.

  \<^bold>\<open>The program.\<close> The compressor (\<^verbatim>\<open>compress.c\<close>, \<^verbatim>\<open>blocksort.c\<close>, \<^verbatim>\<open>huffman.c\<close>, the first half of \<^verbatim>\<open>bzlib.c\<close>) collects runs of input bytes into a block,
  sorts the rotations of the block, codes the last column by move-to-front with runs of zeros, chooses two to six prefix codes for it, and writes the bits.
  The decompressor (\<^verbatim>\<open>decompress.c\<close>, \<^verbatim>\<open>huffman.c\<close>, the second half of \<^verbatim>\<open>bzlib.c\<close>) is a parser that may stop at every bit it waits for, followed by the inverse
  of the sorting and the expansion of the runs into the caller's buffer. Both keep a CRC of the bytes (\<^verbatim>\<open>crctable.c\<close>, \<^verbatim>\<open>crc32_pclmul.c\<close>). Around them are the
  calls of the library: streams, one-shot calls, files.

  \<^bold>\<open>Theories and code.\<close> A definition has the name of the C function, macro or type it models; parts of long functions have names of their own, which the
  map of the manifest ties to their lines. A state is a record of the C struct's fields (\<open>estate\<close> for \<open>EState\<close>, \<open>dstate\<close> for \<open>DState\<close>, \<open>bz_stream\<close>,
  \<open>bzfile\<close>), arrays are functions from \<open>nat\<close>, \<open>UInt32\<close> and narrower types are words where they wrap.
  \<^item> \<open>Prelude\<close>: the C types, error codes, bit strings, loops as folds. \<open>CrcTable\<close>, \<open>Crc\<close>, \<open>CrcPclmul\<close>: \<^verbatim>\<open>crctable.c\<close>, the CRC macros of \<^verbatim>\<open>qbz2_internal.h\<close>,
    \<^verbatim>\<open>crc32_pclmul.c\<close>. \<open>RandTable\<close>: \<^verbatim>\<open>randtable.c\<close>.
  \<^item> \<open>HuffLengths\<close> (\<open>BZ2_hbMakeCodeLengths\<close>) with its proofs \<open>HuffHeap\<close>, \<open>HuffTree\<close>, \<open>HuffCorrect\<close>; \<open>HuffCodes\<close> (\<open>BZ2_hbAssignCodes\<close>,
    \<open>BZ2_hbCreateDecodeTables\<close>); \<open>FastTable\<close> (the two-level tables \<open>BZ2_decompress\<close> builds): \<^verbatim>\<open>huffman.c\<close>, \<^verbatim>\<open>decompress.c\<close>.
  \<^item> \<open>DState\<close>, \<open>BitReader\<close> (\<open>GET_BITS\<close> and its refills), \<open>Decompress\<close> (the parser: one step per label of the switch), \<open>DecInv\<close>, \<open>DecRun\<close> (its invariant
    at every label; every run of it), \<open>BlockData\<close>, \<open>InverseBwt\<close>, \<open>BlockReady\<close> (from symbols to a block that can be walked).
  \<^item> \<open>Output\<close> (\<open>unRLE_obuf_to_output_FAST\<close> and \<open>_SMALL\<close>), \<open>OutputSpec\<close>, \<open>OutputRun\<close>, \<open>DecompressApi\<close> (\<open>BZ2_bzDecompressInit\<close>, \<open>BZ2_bzDecompress\<close>,
    \<open>BZ2_bzDecompressEnd\<close>): \<^verbatim>\<open>bzlib.c\<close>.
  \<^item> \<open>EState\<close>, \<open>Rle\<close> (\<open>ADD_CHAR_TO_BLOCK\<close>, \<open>copy_input_until_stop\<close>, \<open>flush_RL\<close>), \<open>BitWriter\<close> (\<open>bsW\<close>), \<open>Mtf\<close> (\<open>generateMTFValues\<close> with both its searches),
    \<open>SendMtf\<close> (\<open>sendMTFValues\<close>) with its proofs \<open>SendTables\<close>, \<open>SendBits\<close>.
  \<^item> \<open>BlockSort\<close> (\<open>fallbackSort\<close>, \<open>sais_bwt\<close>, \<open>BZ2_blockSort\<close>) with its proofs \<open>QSort3\<close>, \<open>BhTable\<close>, \<open>BucketInit\<close>, \<open>Doubling\<close>, \<open>SortPass\<close>,
    \<open>FallbackSort\<close>, \<open>SortBlock\<close>: \<^verbatim>\<open>blocksort.c\<close>.
  \<^item> \<open>CompressApi\<close> (\<open>BZ2_compressBlock\<close>, \<open>handle_compress\<close>, \<open>BZ2_bzCompressInit\<close>, \<open>BZ2_bzCompress\<close>, \<open>BZ2_bzCompressEnd\<close>) with its proofs
    \<open>CompressBlock\<close>, \<open>CompressRun\<close>, \<open>CompressLoop\<close>, \<open>CompressCall\<close>; \<open>OutputBound\<close>: how much can come out.
  \<^item> \<open>BuffToBuff\<close> (the one-shot calls) and \<open>FileApi\<close> (\<open>bzFile\<close> and all calls on files) with \<open>FileWrite\<close>, \<open>FileRead\<close>: the rest of \<^verbatim>\<open>bzlib.c\<close>.
  \<^item> The properties stand in \<open>DecompressProps\<close>, \<open>CompressProps\<close>, \<open>StageProps\<close>, \<open>FileProps\<close> and, for the CRC and the codes, in the theories of these; \<open>BwtRoundtrip\<close>
    joins the two transforms.

  \<^bold>\<open>What is shown.\<close> The format of a stream is a specification of its own: \<open>whole_stream k X Y\<close> says that \<open>Y\<close> is the header, blocks whose contents in order are \<open>X\<close>,
  and the trailer, each block being the bits of its rotations sorted, moved to front and coded with complete prefix codes, under a symbol map that marks exactly the
  bytes that occur in the block (\<open>block_image\<close>). Every session of calls of
  \<open>BZ2_bzCompress\<close> refines it, and so do files written and the one-shot call. Each stage of the compressor is undone by the decompressor's counterpart (runs,
  rotations, move to front, prefix codes, bits). The decompressor returns for every input, never leaves its arrays, never trips an assertion, and accepts a
  block or a stream only with the right CRC; its two memory modes agree. The optimised routines (carry-less CRC, CRC by eight bytes, SSE2 search, packed costs, fast tables,
  fast output) equal their plain forms. Locales carry the contracts that have several providers: the sources of bytes of the output loops, the searches of the list, the
  priority queue; each is interpreted on the definitions of the code.

  \<^bold>\<open>Loops and bounds.\<close> Where the code's loop has no obvious bound the model is a \<open>partial_function\<close> in \<open>option\<close>: \<open>None\<close> is a loop that does not end, and the theorems
  show \<open>Some\<close>. There is no fuel. The bounds used are those of the code: \<open>nblock\<close> at most 900095, symbols at most \<open>nblock + 1\<close>, code lengths at most 17 written and 20 read,
  18002 selectors, a sorting stack of 100 entries (never full, as the larger part is put off and ranges are below \<open>2 ^ 97\<close>). A caller's buffer is at most \<open>2 ^ 32 - 1\<close> bytes.

  \<^bold>\<open>Surroundings.\<close> \<open>libsais\<close> is a parameter of the model with the contract of a suffix array (\<open>sais_ok\<close>), which holds for sorting the suffixes (\<open>plain_host_ok\<close>);
  the outcomes of allocations and whether the processor has SSE2 and PCLMULQDQ are parameters, too. What fresh memory holds is arbitrary. A \<open>FILE\<close> is its bytes, its
  error indicator and what the device will do.

  \<^bold>\<open>Not modelled.\<close> The vendored \<^verbatim>\<open>libsais.c\<close>; the messages of \<open>verbosity\<close> and the averages computed for them; \<open>workFactor\<close>, which is stored and not used; that
  \<open>zbits\<close> lies behind the block in \<open>arr2\<close> (the model has two arrays; the bounds on \<open>nblock\<close> keep them apart); the exit inside \<open>BZ2_bz__AssertH__fail\<close>, which is a result of its own;
  whether \<open>fclose\<close> succeeds. The upstream sources under \<^verbatim>\<open>reference\<close> and the tests, fuzz drivers, benchmarks and tools are callers of the library and not part of it. That the
  parser reads back every \<open>whole_stream\<close> is shown stage by stage and not as one theorem.
\<close>

end
